(* ===== verification/Prelude.thy ===== *)
theory Prelude
  imports Main "HOL-Library.Word"
begin

text \<open>
  Shared vocabulary of the development.

  C code that cannot go on (a failed \<^verbatim>\<open>KERNEL_ASSERT\<close>, a
  \<^verbatim>\<open>KERNEL_PANIC\<close>, an access outside an array) and code that has to wait (a
  \<^verbatim>\<open>semaphore_P\<close> on an exhausted semaphore, seen from the caller alone) is an
  \<open>Inl\<close> of the result type \<open>'a res\<close>; a normal return is an \<open>Inr\<close>.
  Return codes of the C functions (\<^verbatim>\<open>VFS_ERROR\<close> and the like) are ordinary
  values and stay inside the \<open>Inr\<close>.
\<close>

unbundle bit_operations_syntax

type_synonym u8 = "8 word"
type_synonym u16 = "16 word"
type_synonym u32 = "32 word"

datatype kerror =
    Kernel_assert
  | Kernel_panic
  | Bad_access
  | Blocked

type_synonym 'a res = "kerror + 'a"

named_theorems res_simps \<open>rewriting of results\<close>
named_theorems frame_simps \<open>fields an operation leaves alone\<close>
named_theorems inv_intros \<open>operations that keep an invariant\<close>

section \<open>Results\<close>

fun rbind :: "'a res \<Rightarrow> ('a \<Rightarrow> 'b res) \<Rightarrow> 'b res" where
  "rbind (Inl e) f = Inl e"
| "rbind (Inr x) f = f x"

text \<open>
  The same for code with a loop that may run for ever, where \<open>None\<close> means that the call
  does not return.
\<close>

type_synonym 'a ores = "'a res option"

definition obind :: "'a ores \<Rightarrow> ('a \<Rightarrow> 'b ores) \<Rightarrow> 'b ores" where
  "obind m f = Option.bind m (\<lambda>r. case r of Inl e \<Rightarrow> Some (Inl e) | Inr x \<Rightarrow> f x)"

lemma obind_simps [simp]:
  "obind None f = None" "obind (Some (Inl e)) f = Some (Inl e)" "obind (Some (Inr x)) f = f x"
  by (simp_all add: obind_def)

lemma obind_mono [partial_function_mono]:
  assumes "mono_option B" and "\<And>x. mono_option (\<lambda>f. C x f)"
  shows "mono_option (\<lambda>f. obind (B f) (\<lambda>x. C x f))"
  unfolding obind_def
  by (rule bind_mono [OF assms(1)]) (case_tac y; simp add: assms(2) option.const_mono)

text \<open>Reads and writes of a C array of known size.\<close>

definition aget :: "'a list \<Rightarrow> int \<Rightarrow> 'a res" where
  "aget xs i = (if 0 \<le> i \<and> i < int (length xs) then Inr (xs ! nat i) else Inl Bad_access)"

definition aset :: "'a list \<Rightarrow> int \<Rightarrow> 'a \<Rightarrow> 'a list res" where
  "aset xs i v =
     (if 0 \<le> i \<and> i < int (length xs) then Inr (xs[nat i := v]) else Inl Bad_access)"

text \<open>
  The search loop \<^verbatim>\<open>for (i = 0; i < n; i++) if (P(a[i])) break;\<close>: the
  value of \<^verbatim>\<open>i\<close> after the loop. The second form is for a test that may itself
  fail.
\<close>

fun first_index :: "('a \<Rightarrow> bool) \<Rightarrow> 'a list \<Rightarrow> nat" where
  "first_index P [] = 0"
| "first_index P (x # xs) = (if P x then 0 else Suc (first_index P xs))"

fun first_indexR :: "('a \<Rightarrow> bool res) \<Rightarrow> 'a list \<Rightarrow> nat res" where
  "first_indexR P [] = Inr 0"
| "first_indexR P (x # xs) =
     rbind (P x) (\<lambda>b. if b then Inr 0 else rbind (first_indexR P xs) (\<lambda>i. Inr (Suc i)))"

lemma rbind_Inr_iff [res_simps]:
  "rbind m f = Inr y \<longleftrightarrow> (\<exists>x. m = Inr x \<and> f x = Inr y)"
  by (cases m) auto

lemma rbind_Inl_iff [res_simps]:
  "rbind m f = Inl e \<longleftrightarrow> m = Inl e \<or> (\<exists>x. m = Inr x \<and> f x = Inl e)"
  by (cases m) auto

lemma rbind_assoc [res_simps]:
  "rbind (rbind m f) g = rbind m (\<lambda>x. rbind (f x) g)"
  by (cases m) auto

lemma rbind_cong [fundef_cong]:
  "m = m' \<Longrightarrow> (\<And>x. m' = Inr x \<Longrightarrow> f x = f' x) \<Longrightarrow> rbind m f = rbind m' f'"
  by (cases m') auto

lemma aget_nat [simp]: "i < length xs \<Longrightarrow> aget xs (int i) = Inr (xs ! i)"
  by (simp add: aget_def)

lemma aset_nat [simp]: "i < length xs \<Longrightarrow> aset xs (int i) v = Inr (xs[i := v])"
  by (simp add: aset_def)

lemma aget_uint [simp]: "unat w < length xs \<Longrightarrow> aget xs (uint w) = Inr (xs ! unat w)"
  using aget_nat [of "unat w" xs] by simp

lemma aset_uint [simp]: "unat w < length xs \<Longrightarrow> aset xs (uint w) v = Inr (xs[unat w := v])"
  using aset_nat [of "unat w" xs v] by simp

lemma aget_Inr_iff [res_simps]:
  "aget xs i = Inr v \<longleftrightarrow> 0 \<le> i \<and> i < int (length xs) \<and> v = xs ! nat i"
  by (auto simp: aget_def)

lemma aset_Inr_iff [res_simps]:
  "aset xs i v = Inr ys \<longleftrightarrow> 0 \<le> i \<and> i < int (length xs) \<and> ys = xs[nat i := v]"
  by (auto simp: aset_def)

lemma length_aset: "aset xs i v = Inr ys \<Longrightarrow> length ys = length xs"
  by (auto simp: aset_def split: if_splits)

section \<open>Integers and words\<close>

text \<open>
  Counters of the type \<^verbatim>\<open>int\<close>: the result of an addition or subtraction as the 32-bit
  processor computes it.
\<close>

abbreviation (input) INT_MAX :: int where "INT_MAX \<equiv> 2147483647"
abbreviation (input) INT_MIN :: int where "INT_MIN \<equiv> -2147483648"

definition c_int :: "int \<Rightarrow> int" where
  "c_int k = (k + 2147483648) mod 4294967296 - 2147483648"

lemma c_int_id [simp]: "INT_MIN \<le> k \<Longrightarrow> k \<le> INT_MAX \<Longrightarrow> c_int k = k"
  by (simp add: c_int_def)

lemma c_int_add: "c_int (c_int a + b) = c_int (a + b)"
proof -
  have "c_int a + b + 2147483648 = (a + 2147483648) mod 4294967296 + b" by (simp add: c_int_def)
  then show ?thesis unfolding c_int_def [of "c_int a + b"] c_int_def [of "a + b"] by (simp add: mod_simps ac_simps)
qed

lemma c_int_range: "INT_MIN \<le> c_int k" "c_int k \<le> INT_MAX"
  using pos_mod_sign [of "4294967296" "k + 2147483648"] pos_mod_bound [of "4294967296" "k + 2147483648"] by (simp_all add: c_int_def)

lemma int_div_numeral [simp]: "int p div numeral k = int (p div numeral k)"
  by (simp add: zdiv_int)

lemma nat_mod_numeral [simp]: "nat (int p mod numeral k) = p mod numeral k"
  by (simp add: nat_mod_distrib)

lemma unat_and_mask: "unat (x AND mask n) = unat x mod 2 ^ n"
proof -
  have "unat (take_bit n x) = take_bit n (unat x)" by (rule unsigned_take_bit_eq)
  then show ?thesis by (simp only: take_bit_eq_mask [symmetric] take_bit_eq_mod)
qed

lemma and_not_minus: "(x :: 'a::len word) AND NOT m = x - (x AND m)"
proof -
  have "x - (x AND m) = x AND NOT (x AND m)"
    by (rule disjunctive_diff) (simp add: bit_and_iff)
  also have "\<dots> = x AND NOT m" by (auto simp: bit_eq_iff bit_simps)
  finally show ?thesis by simp
qed

lemma unat_and_not_mask: "unat (x AND NOT (mask n)) = unat x - unat x mod 2 ^ n"
proof -
  have "unat (x AND mask n) \<le> unat x" by (simp add: unat_and_mask)
  then show ?thesis by (simp add: and_not_minus unat_sub word_le_nat_alt unat_and_mask)
qed

lemma u32_less: "unat (x :: u32) < 4294967296"
proof -
  have "unat x < 2 ^ LENGTH(32)" by (rule unsigned_less)
  then show ?thesis by simp
qed

lemma unat_plus_less:
  assumes "unat x + n < 2 ^ LENGTH('a)"
  shows "unat ((x :: 'a::len word) + word_of_nat n) = unat x + n"
proof -
  have "unat (word_of_nat n :: 'a word) = n" using assms by (simp add: unat_of_nat)
  then show ?thesis using assms unat_add_lem [of x "word_of_nat n"] by simp
qed

section \<open>The machine\<close>

text \<open>
  Constants of \<^verbatim>\<open>drivers/yams.h\<close>, and the device descriptors that the YAMS
  machine leaves in its descriptor area. Reading a word from a device port is the function
  \<open>io\<close> that the definitions take as an argument.
\<close>

abbreviation (input) PAGE_SIZE :: "'a::numeral" where
  "PAGE_SIZE \<equiv> 4096"

abbreviation (input) YAMS_MAX_DEVICES :: nat where
  "YAMS_MAX_DEVICES \<equiv> 128"

record io_descriptor_t =
  desc_type :: u32
  io_area_base :: u32
  io_area_len :: u32
  irq :: u32

section \<open>The search loop\<close>

lemma first_index_le [simp]: "first_index P xs \<le> length xs"
  by (induction xs) auto

lemma first_index_less_iff: "first_index P xs < length xs \<longleftrightarrow> (\<exists>x \<in> set xs. P x)"
  by (induction xs) auto

lemma first_index_eq_length_iff:
  "first_index P xs = length xs \<longleftrightarrow> (\<forall>x \<in> set xs. \<not> P x)"
  by (induction xs) auto

lemma first_index_hit: "first_index P xs < length xs \<Longrightarrow> P (xs ! first_index P xs)"
  by (induction xs) auto

lemma first_index_before: "i < first_index P xs \<Longrightarrow> \<not> P (xs ! i)"
  by (induction xs arbitrary: i) (auto simp: nth_Cons split: if_splits nat.splits)

lemma first_index_unique:
  assumes "i < length xs" "P (xs ! i)" "\<And>j. j < i \<Longrightarrow> \<not> P (xs ! j)"
  shows "first_index P xs = i"
proof (rule ccontr)
  assume ne: "first_index P xs \<noteq> i"
  have "\<exists>x \<in> set xs. P x" using assms(1,2) nth_mem by blast
  then have "P (xs ! first_index P xs)" by (simp add: first_index_hit first_index_less_iff)
  with assms(3) ne have "i < first_index P xs" by (meson nat_neq_iff)
  with assms(2) show False by (simp add: first_index_before)
qed

lemma first_indexR_total:
  assumes "\<And>x. x \<in> set xs \<Longrightarrow> P x = Inr (Q x)"
  shows "first_indexR P xs = Inr (first_index Q xs)"
  using assms by (induction xs) auto

section \<open>Queues\<close>

text \<open>
  A first-in first-out queue of distinct items, as the kernel's lists are: \<open>rep s q\<close> says
  that the state holds the queue \<open>q\<close>, and \<open>none\<close> is what taking from an empty queue returns.
\<close>

fun enq_all :: "('s \<Rightarrow> 'a \<Rightarrow> 's res) \<Rightarrow> 's \<Rightarrow> 'a list \<Rightarrow> 's res" where
  "enq_all enq s [] = Inr s"
| "enq_all enq s (x # xs) = rbind (enq s x) (\<lambda>s'. enq_all enq s' xs)"

fun deq_many :: "('s \<Rightarrow> ('a \<times> 's) res) \<Rightarrow> nat \<Rightarrow> 's \<Rightarrow> ('a list \<times> 's) res" where
  "deq_many deq 0 s = Inr ([], s)"
| "deq_many deq (Suc n) s =
     rbind (deq s) (\<lambda>(x, s'). rbind (deq_many deq n s') (\<lambda>(xs, s''). Inr (x # xs, s'')))"

locale fifo_queue =
  fixes enq :: "'s \<Rightarrow> 'a \<Rightarrow> 's res"
    and deq :: "'s \<Rightarrow> ('a \<times> 's) res"
    and rep :: "'s \<Rightarrow> 'a list \<Rightarrow> bool"
    and item :: "'a \<Rightarrow> bool"
    and none :: 'a
  assumes enq_law: "rep s q \<Longrightarrow> item x \<Longrightarrow> x \<notin> set q \<Longrightarrow> \<exists>s'. enq s x = Inr s' \<and> rep s' (q @ [x])"
    and deq_law: "rep s (x # q) \<Longrightarrow> \<exists>s'. deq s = Inr (x, s') \<and> rep s' q"
    and deq_empty: "rep s [] \<Longrightarrow> \<exists>s'. deq s = Inr (none, s') \<and> rep s' []"
begin

lemma enq_all_rep:
  "rep s q \<Longrightarrow> distinct (q @ xs) \<Longrightarrow> (\<And>x. x \<in> set xs \<Longrightarrow> item x) \<Longrightarrow>
    \<exists>s'. enq_all enq s xs = Inr s' \<and> rep s' (q @ xs)"
proof (induction xs arbitrary: s q)
  case (Cons x xs)
  from enq_law [OF Cons.prems(1), of x] Cons.prems obtain s1 where "enq s x = Inr s1" "rep s1 (q @ [x])"
    by auto
  with Cons.IH [of s1 "q @ [x]"] Cons.prems show ?case by auto
qed simp

lemma deq_many_rep: "rep s (xs @ q) \<Longrightarrow> \<exists>s'. deq_many deq (length xs) s = Inr (xs, s') \<and> rep s' q"
proof (induction xs arbitrary: s)
  case (Cons x xs)
  then obtain s1 where "deq s = Inr (x, s1)" "rep s1 (xs @ q)" using deq_law [of s x "xs @ q"] by auto
  with Cons.IH [of s1] show ?case by auto
qed simp

lemma fifo_order:
  assumes "rep s q" "distinct (q @ xs)" "\<And>x. x \<in> set xs \<Longrightarrow> item x"
  shows "\<exists>s1 s2. enq_all enq s xs = Inr s1 \<and> deq_many deq (length (q @ xs)) s1 = Inr (q @ xs, s2)
    \<and> rep s2 []"
proof -
  obtain s1 where "enq_all enq s xs = Inr s1" "rep s1 (q @ xs)" using enq_all_rep [OF assms] by auto
  then show ?thesis using deq_many_rep [of s1 "q @ xs" "[]"] by auto
qed

end

end
