(* ===== verification/Heap_Insert.thy ===== *)
theory Heap_Insert
  imports Prelude "HOL-Library.Tree_Multiset"
begin

text \<open>
  \<^verbatim>\<open>heap/sequential-heap.c\<close> (and \<^verbatim>\<open>heap/concurrent-heap.c\<close>, whose
  code is the same): a binary max-heap of pointer-linked nodes.

  The memory of the process is a store from addresses to nodes; an address that is not in the
  store is not allocated, and following a pointer to it is \<open>Bad_access\<close>. A pointer is an
  \<open>addr option\<close>, \<open>None\<close> for \<^verbatim>\<open>NULL\<close>. The loops chase pointers and
  would not end on a cyclic structure, so they are \<open>partial_function (option)\<close>, where
  \<open>None\<close> means that the call does not return. \<^verbatim>\<open>size_t\<close> has 64 bits.

  \<^verbatim>\<open>malloc\<close> is the address \<open>fresh\<close> that \<open>heap_insert\<close> is given,
  \<open>None\<close> when there is no memory; \<open>raw\<close> is what the memory of the new node held.

  The abstract view is a binary tree of address and value pairs; on trees the insertion is
  \<open>hins\<close>. The requirements on the comparison function are the locale \<open>heap_order\<close>.
\<close>

type_synonym addr = nat
type_synonym size_t = "64 word"

record node_t =
  left_child :: "addr option"
  right_child :: "addr option"
  node_value :: int

type_synonym store = "addr \<Rightarrow> node_t option"

record heap_t =
  n_nodes :: size_t
  root :: "addr option"
  less_fn :: "int \<Rightarrow> int \<Rightarrow> bool"

section \<open>The code\<close>

definition load :: "store \<Rightarrow> addr \<Rightarrow> node_t res" where
  "load st a = (case st a of None \<Rightarrow> Inl Bad_access | Some n \<Rightarrow> Inr n)"

definition get_child :: "store \<Rightarrow> addr \<Rightarrow> size_t \<Rightarrow> addr option res" where
  "get_child st current indicator =
     rbind (load st current) (\<lambda>n. Inr (if indicator > 0 then right_child n else left_child n))"

definition set_child :: "store \<Rightarrow> addr \<Rightarrow> size_t \<Rightarrow> addr option \<Rightarrow> store res" where
  "set_child st parent indicator new_child =
     rbind (load st parent) (\<lambda>n.
       Inr (st(parent \<mapsto> (if indicator > 0 then n\<lparr>right_child := new_child\<rparr>
                            else n\<lparr>left_child := new_child\<rparr>))))"

partial_function (option) node_free :: "store \<Rightarrow> addr option \<Rightarrow> store res option" where
  "node_free st node =
     (case node of
        None \<Rightarrow> Some (Inr st)
      | Some a \<Rightarrow>
          (case load st a of
             Inl e \<Rightarrow> Some (Inl e)
           | Inr n \<Rightarrow> Option.bind (node_free st (left_child n)) (\<lambda>r1.
               case r1 of
                 Inl e \<Rightarrow> Some (Inl e)
               | Inr st1 \<Rightarrow>
                   (case load st1 a of
                      Inl e \<Rightarrow> Some (Inl e)
                    | Inr n1 \<Rightarrow> Option.bind (node_free st1 (right_child n1)) (\<lambda>r2.
                        case r2 of
                          Inl e \<Rightarrow> Some (Inl e)
                        | Inr st2 \<Rightarrow> Some (rbind (load st2 a) (\<lambda>_. Inr (st2(a := None)))))))))"

partial_function (option) merge_on_path ::
    "store \<Rightarrow> addr option \<Rightarrow> addr \<Rightarrow> size_t \<Rightarrow> size_t \<Rightarrow> store res option" where
  "merge_on_path st outsider edge path msk =
     (case outsider of
        None \<Rightarrow> Some (rbind (load st edge) (\<lambda>e.
                  Inr (st(edge \<mapsto> e\<lparr>left_child := None, right_child := None\<rparr>))))
      | Some a \<Rightarrow>
          (let msk' = drop_bit 1 msk
           in case load st a of
                Inl e \<Rightarrow> Some (Inl e)
              | Inr out \<Rightarrow>
                  (case load st edge of
                     Inl e \<Rightarrow> Some (Inl e)
                   | Inr e \<Rightarrow>
                       if path AND msk' > 0 then
                         (let st' = st(edge \<mapsto> e\<lparr>left_child := left_child out, right_child := Some a\<rparr>)
                          in case load st' a of
                               Inl e \<Rightarrow> Some (Inl e)
                             | Inr out' \<Rightarrow> merge_on_path st' (right_child out') a path msk')
                       else
                         (let st' = st(edge \<mapsto> e\<lparr>right_child := right_child out, left_child := Some a\<rparr>)
                          in case load st' a of
                               Inl e \<Rightarrow> Some (Inl e)
                             | Inr out' \<Rightarrow> merge_on_path st' (left_child out') a path msk'))))"

text \<open>
  The loop of \<^verbatim>\<open>insert_on_path\<close> and what follows it. \<open>node\<close> is the address of
  the new node.
\<close>

partial_function (option) insert_loop ::
    "heap_t \<Rightarrow> store \<Rightarrow> addr \<Rightarrow> size_t \<Rightarrow> size_t \<Rightarrow> addr option \<Rightarrow> addr option
       \<Rightarrow> (addr option \<times> addr option \<times> size_t) res option" where
  "insert_loop hp st node path msk parent current =
     (case current of
        None \<Rightarrow> Some (Inr (parent, current, msk))
      | Some c \<Rightarrow>
          (case load st node of
             Inl e \<Rightarrow> Some (Inl e)
           | Inr nn \<Rightarrow>
               (case load st c of
                  Inl e \<Rightarrow> Some (Inl e)
                | Inr cn \<Rightarrow>
                    if less_fn hp (node_value nn) (node_value cn) then
                      (let msk' = drop_bit 1 msk
                       in case get_child st c (path AND msk') of
                            Inl e \<Rightarrow> Some (Inl e)
                          | Inr next \<Rightarrow> insert_loop hp st node path msk' (Some c) next)
                    else Some (Inr (parent, current, msk)))))"

fun ilogb :: "nat \<Rightarrow> nat" where
  "ilogb n = (if n < 2 then 0 else Suc (ilogb (n div 2)))"

declare ilogb.simps [simp del]

definition insert_on_path :: "heap_t \<Rightarrow> store \<Rightarrow> addr \<Rightarrow> (heap_t \<times> store) res option" where
  "insert_on_path hp st node =
     (let path = n_nodes hp;
          msk = (scast (push_bit (ilogb (unat path)) (1 :: 32 word)) :: size_t)
      in Option.bind (insert_loop hp st node path msk None (root hp)) (\<lambda>r.
           case r of
             Inl e \<Rightarrow> Some (Inl e)
           | Inr (parent, current, msk') \<Rightarrow>
               (case (case parent of
                        None \<Rightarrow> Inr (hp\<lparr>root := Some node\<rparr>, st)
                      | Some p \<Rightarrow> rbind (set_child st p (path AND msk') (Some node)) (\<lambda>st'. Inr (hp, st'))) of
                  Inl e \<Rightarrow> Some (Inl e)
                | Inr (hp', st') \<Rightarrow>
                    Option.bind (merge_on_path st' current node path msk') (\<lambda>r.
                      Some (rbind r (\<lambda>st''. Inr (hp', st'')))))))"

definition heap_init :: "(int \<Rightarrow> int \<Rightarrow> bool) \<Rightarrow> heap_t" where
  "heap_init lt = \<lparr>n_nodes = 0, root = None, less_fn = lt\<rparr>"

definition heap_clear :: "heap_t \<Rightarrow> store \<Rightarrow> (heap_t \<times> store) res option" where
  "heap_clear hp st =
     Option.bind (node_free st (root hp)) (\<lambda>r.
       Some (rbind r (\<lambda>st'. Inr (hp\<lparr>root := None, n_nodes := 0\<rparr>, st'))))"

definition ENOMEM :: int where
  "ENOMEM = 12"

definition heap_insert ::
    "heap_t \<Rightarrow> store \<Rightarrow> int \<Rightarrow> addr option \<Rightarrow> node_t \<Rightarrow> (int \<times> heap_t \<times> store) res option" where
  "heap_insert hp st v fresh raw =
     (case fresh of
        None \<Rightarrow> Some (Inr (ENOMEM, hp, st))
      | Some node \<Rightarrow>
          (let st' = st(node \<mapsto> raw\<lparr>node_value := v\<rparr>);
               hp' = hp\<lparr>n_nodes := n_nodes hp + 1\<rparr>
           in Option.bind (insert_on_path hp' st' node) (\<lambda>r.
                Some (rbind r (\<lambda>(hp'', st''). Inr (0, hp'', st''))))))"

text \<open>The comparison and the validity checks of the unit test.\<close>

definition heap_less :: "int \<Rightarrow> int \<Rightarrow> bool" where
  "heap_less a b = (a < b)"

section \<open>Insertion on trees\<close>

fun push :: "bool list \<Rightarrow> 'a \<Rightarrow> 'a tree \<Rightarrow> 'a tree" where
  "push bs x Leaf = Node Leaf x Leaf"
| "push [] x (Node l v r) = Node (push [] v l) x r"
| "push (b # bs) x (Node l v r) =
     (if b then Node l x (push bs v r) else Node (push bs v l) x r)"

fun hins :: "('a \<Rightarrow> 'a \<Rightarrow> bool) \<Rightarrow> bool list \<Rightarrow> 'a \<Rightarrow> 'a tree \<Rightarrow> 'a tree" where
  "hins le bs x Leaf = Node Leaf x Leaf"
| "hins le [] x (Node l v r) =
     (if le x v then Node (hins le [] x l) v r else push [] x (Node l v r))"
| "hins le (b # bs) x (Node l v r) =
     (if le x v then (if b then Node l v (hins le bs x r) else Node (hins le bs x l) v r)
      else push (b # bs) x (Node l v r))"

text \<open>The path leaves the tree exactly at its end.\<close>

fun reaches :: "bool list \<Rightarrow> 'a tree \<Rightarrow> bool" where
  "reaches bs Leaf = (bs = [])"
| "reaches [] (Node l v r) = False"
| "reaches (b # bs) (Node l v r) = reaches bs (if b then r else l)"

fun heap_ok :: "('a \<Rightarrow> 'a \<Rightarrow> bool) \<Rightarrow> 'a tree \<Rightarrow> bool" where
  "heap_ok le Leaf = True"
| "heap_ok le (Node l v r) =
     (\<not> (l \<noteq> Leaf \<and> le v (value l)) \<and> \<not> (r \<noteq> Leaf \<and> le v (value r)) \<and> heap_ok le l \<and> heap_ok le r)"

text \<open>Positions of a heap: the root is \<open>1\<close>, the children of \<open>i\<close> are \<open>2i\<close> and \<open>2i+1\<close>.\<close>

fun idx :: "nat \<Rightarrow> 'a tree \<Rightarrow> nat set" where
  "idx i Leaf = {}"
| "idx i (Node l v r) = insert i (idx (2 * i) l \<union> idx (2 * i + 1) r)"

fun pos :: "nat \<Rightarrow> bool list \<Rightarrow> nat" where
  "pos i [] = i"
| "pos i (b # bs) = pos (2 * i + of_bool b) bs"

fun pbits :: "size_t \<Rightarrow> nat \<Rightarrow> bool list" where
  "pbits path 0 = []"
| "pbits path (Suc m) = bit path m # pbits path m"

lemma mset_push: "mset_tree (push bs x t) = add_mset x (mset_tree t)"
  by (induction bs x t rule: push.induct) auto

lemma mset_hins: "mset_tree (hins le bs x t) = add_mset x (mset_tree t)"
  by (induction le bs x t rule: hins.induct) (auto simp: mset_push simp del: push.simps)

lemma value_push [simp]: "value (push bs x t) = x" "push bs x t \<noteq> Leaf"
  by (cases t; cases bs; simp)+

lemma hins_not_Leaf [simp]: "hins le bs x t \<noteq> Leaf"
  by (cases t; cases bs; simp)

lemma value_hins: "value (hins le bs x t) = x \<or> t \<noteq> Leaf \<and> value (hins le bs x t) = value t"
  by (cases t; cases bs; simp)

lemma idx_push: "reaches bs t \<Longrightarrow> idx i (push bs x t) = insert (pos i bs) (idx i t)"
  by (induction bs x t arbitrary: i rule: push.induct) auto

lemma idx_hins: "reaches bs t \<Longrightarrow> idx i (hins le bs x t) = insert (pos i bs) (idx i t)"
  by (induction le bs x t arbitrary: i rule: hins.induct) (auto simp: idx_push)

lemma map_push: "map_tree f (push bs x t) = push bs (f x) (map_tree f t)"
  by (induction bs x t rule: push.induct) auto

lemma map_hins: "map_tree f (hins (\<lambda>p q. le (f p) (f q)) bs x t) = hins le bs (f x) (map_tree f t)"
  by (induction "\<lambda>p q. le (f p) (f q)" bs x t rule: hins.induct) (auto simp: map_push)

lemma reaches_map [simp]: "reaches bs (map_tree f t) = reaches bs t"
  by (induction bs t rule: reaches.induct) auto

lemma idx_map [simp]: "idx i (map_tree f t) = idx i t"
  by (induction t arbitrary: i) auto

section \<open>The order\<close>

locale heap_order =
  fixes lt :: "'a \<Rightarrow> 'a \<Rightarrow> bool"
  assumes lt_asym: "lt x y \<Longrightarrow> \<not> lt y x"
    and lt_negtrans: "\<not> lt x y \<Longrightarrow> \<not> lt y z \<Longrightarrow> \<not> lt x z"
begin

lemma lt_cotrans: "lt x z \<Longrightarrow> lt x y \<or> lt y z"
  using lt_negtrans by blast

lemma heap_ok_push:
  "heap_ok lt t \<Longrightarrow> (t \<noteq> Leaf \<Longrightarrow> \<not> lt x (value t)) \<Longrightarrow> heap_ok lt (push bs x t)"
  by (induction bs x t rule: push.induct) (simp_all, (metis lt_negtrans)+)

lemma value_hins_bound:
  "lt x v \<Longrightarrow> (u \<noteq> Leaf \<Longrightarrow> \<not> lt v (value u)) \<Longrightarrow> \<not> lt v (value (hins lt bs x u))"
  using value_hins [of lt bs x u] lt_asym by auto

lemma heap_ok_hins: "heap_ok lt t \<Longrightarrow> heap_ok lt (hins lt bs x t)"
proof (induction bs arbitrary: t)
  case Nil
  then show ?case
  proof (induction t)
    case (Node l v r)
    then show ?case
      using heap_ok_push [of "Node l v r" x "[]"] value_hins_bound [of x v l "[]"]
      by (auto simp del: push.simps)
  qed simp
next
  case (Cons b bs)
  show ?case
  proof (cases t)
    case (Node l v r)
    with Cons show ?thesis
      using heap_ok_push [of "Node l v r" x "b # bs"] value_hins_bound [of x v l bs]
        value_hins_bound [of x v r bs]
      by (auto simp del: push.simps)
  qed simp
qed

end

interpretation int_heap: heap_order heap_less
  by unfold_locales (auto simp: heap_less_def)

section \<open>Positions\<close>

fun inside :: "bool list \<Rightarrow> 'a tree \<Rightarrow> bool" where
  "inside bs Leaf = False"
| "inside [] (Node l v r) = True"
| "inside (b # bs) (Node l v r) = inside bs (if b then r else l)"

lemma inside_Nil [simp]: "inside [] t = (t \<noteq> Leaf)"
  by (cases t) auto

lemma pos_snoc: "pos i (bs @ [b]) = 2 * pos i bs + of_bool b"
  by (induction bs arbitrary: i) auto

lemma pos_ge: "0 < i \<Longrightarrow> 0 < pos i bs"
  by (induction bs arbitrary: i) auto

lemma pos_inj: "pos 1 bs = pos 1 cs \<longleftrightarrow> bs = cs"
proof (induction bs arbitrary: cs rule: rev_induct)
  case Nil
  show ?case
    by (cases cs rule: rev_cases) (use pos_ge [of 1] in \<open>auto simp: pos_snoc\<close>)
next
  case (snoc b bs)
  show ?case
  proof (cases cs rule: rev_cases)
    case Nil
    then show ?thesis using pos_ge [of 1 bs] by (auto simp: pos_snoc)
  next
    case (snoc cs' c)
    have "2 * pos 1 bs + of_bool b = 2 * pos 1 cs' + of_bool c \<longleftrightarrow> pos 1 bs = pos 1 cs' \<and> b = c"
      by (cases b; cases c; simp; arith)
    with snoc snoc.IH [of cs'] show ?thesis by (simp add: pos_snoc)
  qed
qed

lemma idx_inside: "idx i t = pos i ` {bs. inside bs t}"
proof (induction t arbitrary: i)
  case (Node l v r)
  have "{bs. inside bs (Node l v r)} =
      insert [] (((#) False) ` {bs. inside bs l} \<union> ((#) True) ` {bs. inside bs r})"
    (is "?A = ?B")
  proof (intro set_eqI)
    fix bs
    show "bs \<in> ?A \<longleftrightarrow> bs \<in> ?B" by (cases bs) auto
  qed
  then show ?case by (simp add: Node image_Un image_image)
qed simp

lemma pos_in_idx: "pos 1 bs \<in> idx 1 t \<longleftrightarrow> inside bs t"
  by (auto simp: idx_inside pos_inj [simplified])

lemma reaches_snoc: "inside bs t \<Longrightarrow> \<not> inside (bs @ [b]) t \<Longrightarrow> reaches (bs @ [b]) t"
  by (induction bs t rule: inside.induct) (auto split: if_splits)

lemma pos_pbits: "pos i (pbits path m) = i * 2 ^ m + take_bit m (unat path)"
proof (induction m arbitrary: i)
  case (Suc m)
  have "take_bit (Suc m) (unat path) = of_bool (bit path m) * 2 ^ m + take_bit m (unat path)"
    by (simp add: take_bit_Suc_from_most bit_unsigned_iff)
  then show ?case by (simp add: Suc algebra_simps)
qed simp

lemma ilogb_bounds: "0 < n \<Longrightarrow> 2 ^ ilogb n \<le> n \<and> n < 2 * 2 ^ ilogb n"
proof (induction n rule: ilogb.induct)
  case (1 n)
  show ?case
  proof (cases "n < 2")
    case True
    with 1(2) show ?thesis by (simp add: ilogb.simps [of n])
  next
    case False
    with 1 have "2 ^ ilogb (n div 2) \<le> n div 2 \<and> n div 2 < 2 * 2 ^ ilogb (n div 2)" by simp
    with False show ?thesis by (simp add: ilogb.simps [of n]) linarith
  qed
qed

lemma pbits_path:
  assumes "0 < unat path"
  shows "pos 1 (pbits path (ilogb (unat path))) = unat path"
proof -
  let ?k = "ilogb (unat path)"
  have b: "2 ^ ?k \<le> unat path" "unat path < 2 * 2 ^ ?k" using ilogb_bounds [OF assms] by auto
  then have "unat path mod 2 ^ ?k = unat path - 2 ^ ?k" by (simp add: mod_if)
  with b(1) show ?thesis by (simp add: pos_pbits take_bit_eq_mod)
qed

text \<open>
  The next free position of a complete tree is where the path of the new size leads.
\<close>

lemma reaches_next:
  assumes ix: "idx 1 t = {1..n}" and path: "unat path = Suc n"
  shows "reaches (pbits path (ilogb (Suc n))) t"
proof -
  define bs where "bs = pbits path (ilogb (Suc n))"
  have p: "pos 1 bs = Suc n" using pbits_path [of path] path by (simp add: bs_def)
  then have out: "\<not> inside bs t" using pos_in_idx [of bs t] ix by simp
  show ?thesis
  proof (cases bs rule: rev_cases)
    case Nil
    with out show ?thesis by (cases t) (simp_all add: bs_def [symmetric])
  next
    case (snoc cs b)
    with p have "2 * pos 1 cs + of_bool b = Suc n" by (simp add: pos_snoc)
    moreover have "0 < pos 1 cs" by (rule pos_ge) simp
    ultimately have "pos 1 cs \<in> {1..n}" by (cases b) auto
    then have "pos 1 cs \<in> idx 1 t" by (simp only: ix)
    then have "inside cs t" by (simp only: pos_in_idx)
    with out snoc show ?thesis by (simp add: bs_def [symmetric] reaches_snoc)
  qed
qed

section \<open>The tree in the store\<close>

fun repr :: "store \<Rightarrow> addr option \<Rightarrow> (addr \<times> int) tree \<Rightarrow> bool" where
  "repr st p Leaf = (p = None)"
| "repr st p (Node l (a, v) r) =
     (p = Some a \<and> (case st a of
        None \<Rightarrow> False
      | Some n \<Rightarrow> node_value n = v \<and> repr st (left_child n) l \<and> repr st (right_child n) r))"

definition addrs :: "(addr \<times> int) tree \<Rightarrow> addr set" where
  "addrs t = fst ` set_tree t"

definition distinct_addrs :: "(addr \<times> int) tree \<Rightarrow> bool" where
  "distinct_addrs t = distinct (map fst (inorder t))"

lemma addrs_simps [simp]:
  "addrs Leaf = {}" "addrs (Node l x r) = insert (fst x) (addrs l \<union> addrs r)"
  by (auto simp: addrs_def)

lemma distinct_addrs_simps [simp]:
  "distinct_addrs Leaf"
  "distinct_addrs (Node l x r) \<longleftrightarrow>
     distinct_addrs l \<and> distinct_addrs r \<and> fst x \<notin> addrs l \<and> fst x \<notin> addrs r
     \<and> addrs l \<inter> addrs r = {}"
  by (auto simp: distinct_addrs_def addrs_def image_iff)

lemma addrs_mset: "addrs t = fst ` set_mset (mset_tree t)"
  by (simp add: addrs_def)

lemma distinct_addrs_add:
  assumes "mset_tree t' = add_mset (a, v) (mset_tree t)" "distinct_addrs t" "a \<notin> addrs t"
  shows "distinct_addrs t'"
proof -
  have "mset (map fst (inorder t')) = mset (a # map fst (inorder t))"
    using assms(1) by (simp add: mset_inorder)
  then have "distinct (map fst (inorder t')) \<longleftrightarrow> distinct (a # map fst (inorder t))"
    by (rule mset_eq_imp_distinct_iff)
  with assms(2,3) show ?thesis by (simp add: distinct_addrs_def addrs_def)
qed

lemma repr_frame:
  "repr st p t \<Longrightarrow> (\<And>a. a \<in> addrs t \<Longrightarrow> st' a = st a) \<Longrightarrow> repr st' p t"
proof (induction t arbitrary: p)
  case (Node l x r)
  then show ?case by (cases x) (auto split: option.splits)
qed simp

lemma mask_shift: "drop_bit 1 (2 ^ Suc m :: size_t) = 2 ^ m" if "m < 63"
proof (rule bit_word_eqI)
  fix n assume "n < LENGTH(64)"
  then show "bit (drop_bit 1 (2 ^ Suc m :: size_t)) n = bit (2 ^ m :: size_t) n"
    using that by (auto simp: bit_drop_bit_eq bit_exp_iff simp del: power_Suc)
qed

lemma mask_bit: "(0 < path AND (2 ^ m :: size_t)) = bit path m"
proof -
  have "path AND 2 ^ m = 0 \<longleftrightarrow> \<not> bit path m" by (rule and_exp_eq_0_iff_not_bit)
  then show ?thesis using word_neq_0_conv by metis
qed

text \<open>
  Merging a subtree below a node is \<open>push\<close>.
\<close>

lemma merge_on_path_push:
  "repr st p t \<Longrightarrow> distinct_addrs t \<Longrightarrow> a \<notin> addrs t \<Longrightarrow> st a = Some e
    \<Longrightarrow> reaches (pbits path m) t \<Longrightarrow> m < 64
    \<Longrightarrow> \<exists>st'. merge_on_path st p a path (2 ^ m) = Some (Inr st')
          \<and> repr st' (Some a) (push (pbits path m) (a, node_value e) t)
          \<and> (\<forall>x. x \<notin> insert a (addrs t) \<longrightarrow> st' x = st x)"
proof (induction t arbitrary: p a e st m)
  case Leaf
  then show ?case by (simp add: merge_on_path.simps load_def)
next
  case (Node l x r)
  obtain b w where x: "x = (b, w)" by (cases x)
  from Node.prems(5) obtain m' where m: "m = Suc m'" by (cases m) auto
  from Node.prems(1) x obtain out where p: "p = Some b" and out: "st b = Some out" "node_value out = w"
    and l: "repr st (left_child out) l" and r: "repr st (right_child out) r"
    by (auto split: option.splits)
  have ab: "a \<noteq> b" and al: "a \<notin> addrs l" and ar: "a \<notin> addrs r"
    and bl: "b \<notin> addrs l" and br: "b \<notin> addrs r" and lr: "addrs l \<inter> addrs r = {}"
    using Node.prems(2,3) x by auto
  have msk: "drop_bit 1 (2 ^ m :: size_t) = 2 ^ m'" using Node.prems(6) m mask_shift by simp
  show ?case
  proof (cases "bit path m'")
    case True
    define st1 where "st1 = st(a \<mapsto> e\<lparr>left_child := left_child out, right_child := Some b\<rparr>)"
    have st1b: "st1 b = Some out" using out ab by (simp add: st1_def)
    have "repr st1 (right_child out) r" by (rule repr_frame [OF r]) (use ar in \<open>auto simp: st1_def\<close>)
    then obtain st2 where st2: "merge_on_path st1 (right_child out) b path (2 ^ m') = Some (Inr st2)"
      "repr st2 (Some b) (push (pbits path m') (b, w) r)" "\<forall>x. x \<notin> insert b (addrs r) \<longrightarrow> st2 x = st1 x"
      using Node.IH(2) [of st1 "right_child out" b out m'] Node.prems x m True out st1b br
      by auto
    have "repr st2 (left_child out) l"
      by (rule repr_frame [OF l]) (use al bl lr st2(3) in \<open>auto simp: st1_def\<close>)
    then show ?thesis
      using st2 True x m p out ab ar Node.prems(4) msk
      by (auto simp: merge_on_path.simps [of st] load_def mask_bit st1_def [symmetric] Let_def)
        (auto simp: st1_def)
  next
    case False
    define st1 where "st1 = st(a \<mapsto> e\<lparr>right_child := right_child out, left_child := Some b\<rparr>)"
    have st1b: "st1 b = Some out" using out ab by (simp add: st1_def)
    have "repr st1 (left_child out) l" by (rule repr_frame [OF l]) (use al in \<open>auto simp: st1_def\<close>)
    then obtain st2 where st2: "merge_on_path st1 (left_child out) b path (2 ^ m') = Some (Inr st2)"
      "repr st2 (Some b) (push (pbits path m') (b, w) l)" "\<forall>x. x \<notin> insert b (addrs l) \<longrightarrow> st2 x = st1 x"
      using Node.IH(1) [of st1 "left_child out" b out m'] Node.prems x m False out st1b bl
      by auto
    have "repr st2 (right_child out) r"
      by (rule repr_frame [OF r]) (use ar br lr st2(3) in \<open>auto simp: st1_def\<close>)
    then show ?thesis
      using st2 False x m p out ab al Node.prems(4) msk
      by (auto simp: merge_on_path.simps [of st] load_def mask_bit st1_def [symmetric] Let_def)
        (auto simp: st1_def)
  qed
qed

text \<open>Below a node, the search, the linking of the new node and the merge are \<open>hins\<close>.\<close>

definition child_of :: "bool \<Rightarrow> node_t \<Rightarrow> addr option" where
  "child_of b n = (if b then right_child n else left_child n)"

definition with_child :: "bool \<Rightarrow> addr option \<Rightarrow> node_t \<Rightarrow> node_t" where
  "with_child b c n = (if b then n\<lparr>right_child := c\<rparr> else n\<lparr>left_child := c\<rparr>)"

definition less_value :: "heap_t \<Rightarrow> addr \<times> int \<Rightarrow> addr \<times> int \<Rightarrow> bool" where
  "less_value hp x y = less_fn hp (snd x) (snd y)"

definition link_merge ::
    "store \<Rightarrow> addr \<Rightarrow> size_t \<Rightarrow> addr \<Rightarrow> addr option \<Rightarrow> size_t \<Rightarrow> store res option" where
  "link_merge st node path par cur msk =
     (case set_child st par (path AND msk) (Some node) of
        Inl e \<Rightarrow> Some (Inl e)
      | Inr st' \<Rightarrow> merge_on_path st' cur node path msk)"

lemma with_child_same: "child_of b n = c \<Longrightarrow> with_child b c n = n"
  by (cases n) (auto simp: child_of_def with_child_def)

lemma with_child_simps [simp]:
  "node_value (with_child b c n) = node_value n"
  "left_child (with_child b c n) = (if b then left_child n else c)"
  "right_child (with_child b c n) = (if b then c else right_child n)"
  by (auto simp: with_child_def)

lemma get_child_bit: "st c = Some n \<Longrightarrow> get_child st c (path AND 2 ^ m) = Inr (child_of (bit path m) n)"
  by (simp add: get_child_def load_def child_of_def mask_bit)

lemma set_child_bit:
  "st q = Some n \<Longrightarrow> set_child st q (path AND 2 ^ m) c = Inr (st(q \<mapsto> with_child (bit path m) c n))"
  by (simp add: set_child_def load_def with_child_def mask_bit)

lemma link_here:
  assumes "repr st p t" "distinct_addrs t" "q \<notin> addrs t" "a \<notin> addrs t" "q \<noteq> a"
    "st q = Some nq" "st a = Some na" "reaches (pbits path m) t" "m < 64"
  shows "\<exists>st2. link_merge st a path q p (2 ^ m) = Some (Inr st2)
     \<and> st2 q = Some (with_child (bit path m) (Some a) nq)
     \<and> repr st2 (Some a) (push (pbits path m) (a, node_value na) t)
     \<and> (\<forall>x. x \<notin> insert q (insert a (addrs t)) \<longrightarrow> st2 x = st x)"
proof -
  define st1 where "st1 = st(q \<mapsto> with_child (bit path m) (Some a) nq)"
  have "repr st1 p t" by (rule repr_frame [OF assms(1)]) (use assms(3) in \<open>auto simp: st1_def\<close>)
  moreover have "st1 a = Some na" using assms(5,7) by (simp add: st1_def)
  ultimately obtain st2 where st2: "merge_on_path st1 p a path (2 ^ m) = Some (Inr st2)"
    "repr st2 (Some a) (push (pbits path m) (a, node_value na) t)"
    "\<forall>x. x \<notin> insert a (addrs t) \<longrightarrow> st2 x = st1 x"
    using merge_on_path_push [of st1 p t a na path m] assms(2,4,8,9) by auto
  then show ?thesis
    using assms(3,5,6) by (auto simp: link_merge_def set_child_bit st1_def)
qed

lemma hins_descend:
  assumes lr: "repr st (left_child nc) l" "repr st (right_child nc) r"
    and dist: "distinct_addrs (Node l (c, w) r)" "a \<notin> addrs (Node l (c, w) r)"
    and lt: "less_value hp x (c, w)" and w: "node_value nc = w"
    and st2: "st2 c = Some (with_child b d nc)"
      "repr st2 d (hins (less_value hp) bs x (if b then r else l))"
      "\<forall>y. y \<notin> insert c (insert a (addrs (if b then r else l))) \<longrightarrow> st2 y = st y"
  shows "repr st2 (Some c) (hins (less_value hp) (b # bs) x (Node l (c, w) r))"
proof -
  have "st2 y = st y" if "y \<in> addrs (if b then l else r)" for y
  proof -
    have "y \<notin> insert c (insert a (addrs (if b then r else l)))"
      using that dist by (cases b) (auto simp: disjoint_iff)
    with st2(3) show ?thesis by blast
  qed
  then have "repr st2 (if b then left_child nc else right_child nc) (if b then l else r)"
    using lr by (cases b) (auto intro: repr_frame)
  with st2(1,2) lt w show ?thesis by (cases b) auto
qed

lemma insert_below:
  "repr st p t \<Longrightarrow> distinct_addrs t \<Longrightarrow> q \<notin> addrs t \<Longrightarrow> a \<notin> addrs t \<Longrightarrow> q \<noteq> a
    \<Longrightarrow> st q = Some nq \<Longrightarrow> child_of (bit path m) nq = p \<Longrightarrow> st a = Some na
    \<Longrightarrow> reaches (pbits path m) t \<Longrightarrow> m < 64
    \<Longrightarrow> \<exists>par cur msk st2 c. insert_loop hp st a path (2 ^ m) (Some q) p = Some (Inr (Some par, cur, msk))
          \<and> link_merge st a path par cur msk = Some (Inr st2)
          \<and> st2 q = Some (with_child (bit path m) c nq)
          \<and> repr st2 c (hins (less_value hp) (pbits path m) (a, node_value na) t)
          \<and> (\<forall>x. x \<notin> insert q (insert a (addrs t)) \<longrightarrow> st2 x = st x)"
proof (induction t arbitrary: p q nq m)
  case Leaf
  then show ?case
    using link_here [of st p Leaf q a nq na path m] by (auto simp: insert_loop.simps)
next
  case (Node l x r)
  obtain c w where x: "x = (c, w)" by (cases x)
  from Node.prems(9) obtain m' where m: "m = Suc m'" by (cases m) auto
  from Node.prems(1) x obtain nc where p: "p = Some c" and nc: "st c = Some nc" "node_value nc = w"
    and l: "repr st (left_child nc) l" and r: "repr st (right_child nc) r"
    by (auto split: option.splits)
  have msk: "drop_bit 1 (2 ^ m :: size_t) = 2 ^ m'" using Node.prems(10) m mask_shift by simp
  show ?case
  proof (cases "less_fn hp (node_value na) w")
    case False
    then have "insert_loop hp st a path (2 ^ m) (Some q) p = Some (Inr (Some q, p, 2 ^ m))"
      using Node.prems(8) nc p by (simp add: insert_loop.simps load_def)
    moreover have "hins (less_value hp) (pbits path m) (a, node_value na) (Node l x r)
        = push (pbits path m) (a, node_value na) (Node l x r)"
      using False x m by (simp add: less_value_def)
    ultimately show ?thesis using link_here [OF Node.prems(1-6,8-10)] by fastforce
  next
    case True
    let ?b = "bit path m'" and ?u = "if bit path m' then r else l"
    have "repr st (child_of ?b nc) ?u" using l r by (simp add: child_of_def)
    moreover have "insert_loop hp st a path (2 ^ m) (Some q) p
        = insert_loop hp st a path (2 ^ m') (Some c) (child_of ?b nc)"
      using Node.prems(8) nc p True msk by (simp add: insert_loop.simps [of _ _ _ _ "2 ^ m"] load_def get_child_bit)
    ultimately obtain par cur k st2 d where IH:
      "insert_loop hp st a path (2 ^ m) (Some q) p = Some (Inr (Some par, cur, k))"
      "link_merge st a path par cur k = Some (Inr st2)" "st2 c = Some (with_child ?b d nc)"
      "repr st2 d (hins (less_value hp) (pbits path m') (a, node_value na) ?u)"
      "\<forall>y. y \<notin> insert c (insert a (addrs ?u)) \<longrightarrow> st2 y = st y"
      using Node.IH(1) [of "child_of ?b nc" c nc m'] Node.IH(2) [of "child_of ?b nc" c nc m']
        Node.prems x m nc by (cases ?b) auto
    have q: "st2 q = Some nq" using IH(5) Node.prems(3,5,6) x by (cases ?b) auto
    have "repr st2 p (hins (less_value hp) (pbits path m) (a, node_value na) (Node l x r))"
      using hins_descend [OF l r, of c w a hp "(a, node_value na)" st2 ?b d "pbits path m'"]
        IH(3-5) Node.prems(2,4) True x m p nc by (simp add: less_value_def)
    moreover have "st2 q = Some (with_child (bit path m) p nq)"
      using q Node.prems(7) by (simp add: with_child_same)
    moreover have "\<forall>y. y \<notin> insert q (insert a (addrs (Node l x r))) \<longrightarrow> st2 y = st y"
      using IH(5) x by (cases ?b) auto
    ultimately show ?thesis using IH(1,2) by blast
  qed
qed

section \<open>The heap\<close>

definition heap_inv :: "heap_t \<Rightarrow> store \<Rightarrow> (addr \<times> int) tree \<Rightarrow> bool" where
  "heap_inv hp st t \<longleftrightarrow>
     repr st (root hp) t \<and> distinct_addrs t \<and> heap_ok (less_fn hp) (map_tree snd t)
     \<and> idx 1 t = {1..unat (n_nodes hp)}"

lemma first_mask: "k < 31 \<Longrightarrow> (scast (push_bit k (1 :: 32 word)) :: size_t) = 2 ^ k"
  by (rule bit_word_eqI)
    (auto simp: bit_signed_iff bit_exp_iff bit_push_bit_iff bit_1_iff min_def)

lemma repr_in_store: "repr st p t \<Longrightarrow> x \<in> addrs t \<Longrightarrow> st x \<noteq> None"
proof (induction t arbitrary: p)
  case (Node l y r)
  then show ?case by (cases y) (auto split: option.splits)
qed simp

lemma insert_on_path_hins:
  assumes "repr st (root hp) t" "distinct_addrs t" "a \<notin> addrs t" "st a = Some na"
    and reach: "reaches (pbits (n_nodes hp) k) t"
    and k: "k = ilogb (unat (n_nodes hp))" "k < 31"
  shows "\<exists>hp' st2. insert_on_path hp st a = Some (Inr (hp', st2))
     \<and> hp' = hp\<lparr>root := root hp'\<rparr>
     \<and> repr st2 (root hp') (hins (less_value hp) (pbits (n_nodes hp) k) (a, node_value na) t)
     \<and> (\<forall>x. x \<notin> insert a (addrs t) \<longrightarrow> st2 x = st x)"
proof -
  let ?path = "n_nodes hp"
  have msk: "(scast (push_bit (ilogb (unat ?path)) (1 :: 32 word)) :: size_t) = 2 ^ k"
    using first_mask [of k] k by simp
  have stop: ?thesis
    if "insert_loop hp st a ?path (2 ^ k) None (root hp) = Some (Inr (None, root hp, 2 ^ k))"
      and "hins (less_value hp) (pbits ?path k) (a, node_value na) t = push (pbits ?path k) (a, node_value na) t"
    using merge_on_path_push [of st "root hp" t a na ?path k] assms(1-5) k(2) that msk
    by (auto simp: insert_on_path_def)
  show ?thesis
  proof (cases t)
    case Leaf
    with assms(1) show ?thesis by (intro stop) (auto simp: insert_loop.simps)
  next
    case (Node l x r)
    obtain c w where x: "x = (c, w)" by (cases x)
    from assms(1) Node x obtain nc where p: "root hp = Some c" and nc: "st c = Some nc" "node_value nc = w"
      and l: "repr st (left_child nc) l" and r: "repr st (right_child nc) r"
      by (auto split: option.splits)
    from reach Node obtain m' where m: "k = Suc m'" by (cases k) auto
    show ?thesis
    proof (cases "less_fn hp (node_value na) w")
      case False
      with assms(4) Node x nc p m show ?thesis
        by (intro stop) (auto simp: insert_loop.simps load_def less_value_def)
    next
      case True
      let ?b = "bit ?path m'" and ?u = "if bit ?path m' then r else l"
      have ru: "repr st (child_of ?b nc) ?u" using l r by (simp add: child_of_def)
      have loop: "insert_loop hp st a ?path (2 ^ k) None (root hp)
          = insert_loop hp st a ?path (2 ^ m') (Some c) (child_of ?b nc)"
        using assms(4) nc p True m k(2) mask_shift [of m']
        by (simp add: insert_loop.simps [of _ _ _ _ _ None] load_def get_child_bit)
      obtain par cur j st2 d where IH:
        "insert_loop hp st a ?path (2 ^ m') (Some c) (child_of ?b nc) = Some (Inr (Some par, cur, j))"
        "link_merge st a ?path par cur j = Some (Inr st2)" "st2 c = Some (with_child ?b d nc)"
        "repr st2 d (hins (less_value hp) (pbits ?path m') (a, node_value na) ?u)"
        "\<forall>y. y \<notin> insert c (insert a (addrs ?u)) \<longrightarrow> st2 y = st y"
        using insert_below [OF ru, of c a nc ?path m' na hp] assms(2-5) Node x m nc k(2)
        by (cases ?b) auto
      have "insert_on_path hp st a = Some (Inr (hp, st2))"
        using IH(1,2) loop msk
        by (auto simp: insert_on_path_def link_merge_def rbind_Inr_iff split: sum.splits)
      moreover have "repr st2 (root hp) (hins (less_value hp) (pbits ?path k) (a, node_value na) t)"
        using hins_descend [OF l r, of c w a hp "(a, node_value na)" st2 ?b d "pbits ?path m'"]
          IH(3-5) assms(2,3) True x m p nc Node by (simp add: less_value_def)
      moreover have "\<forall>y. y \<notin> insert a (addrs t) \<longrightarrow> st2 y = st y"
        using IH(5) x Node by (cases ?b) auto
      ultimately show ?thesis by auto
    qed
  qed
qed

lemma hins_heap_inv:
  assumes ord: "heap_order (less_fn hp)" and inv: "heap_inv hp st t" "a \<notin> addrs t"
    and n: "unat (n_nodes hp) + 1 < 2 ^ 31"
    and hp': "less_fn hp' = less_fn hp" "n_nodes hp' = n_nodes hp + 1"
    and t': "t' = hins (less_value hp) (pbits (n_nodes hp') (ilogb (unat (n_nodes hp')))) (a, v) t"
    and rep: "repr st' (root hp') t'"
  shows "heap_inv hp' st' t' \<and> mset_tree t' = add_mset (a, v) (mset_tree t)"
proof -
  let ?bs = "pbits (n_nodes hp') (ilogb (unat (n_nodes hp')))"
  have un: "unat (n_nodes hp') = Suc (unat (n_nodes hp))"
    using n unat_plus_less [of "n_nodes hp" 1] hp'(2) by simp
  have ix: "idx 1 t = {1..unat (n_nodes hp)}" using inv by (simp add: heap_inv_def)
  have reach: "reaches ?bs t" using reaches_next [OF ix un] un by simp
  have m: "mset_tree t' = add_mset (a, v) (mset_tree t)" by (simp add: t' mset_hins)
  have d: "distinct_addrs t'"
    by (rule distinct_addrs_add [OF m]) (use inv in \<open>simp_all add: heap_inv_def\<close>)
  have "map_tree snd t' = hins (less_fn hp) ?bs v (map_tree snd t)"
    using map_hins [of snd "less_fn hp" ?bs "(a, v)" t]
    by (simp add: t' less_value_def [abs_def])
  moreover have "heap_ok (less_fn hp) (hins (less_fn hp) ?bs v (map_tree snd t))"
    using heap_order.heap_ok_hins [OF ord] inv by (simp add: heap_inv_def)
  ultimately have ok: "heap_ok (less_fn hp') (map_tree snd t')" by (simp add: hp')
  have "idx 1 t' = insert (pos 1 ?bs) (idx 1 t)" unfolding t' by (rule idx_hins [OF reach])
  also have "pos 1 ?bs = Suc (unat (n_nodes hp))" using pbits_path [of "n_nodes hp'"] un by simp
  also have "insert (Suc (unat (n_nodes hp))) (idx 1 t) = {1..unat (n_nodes hp')}"
    by (subst ix) (auto simp: un)
  finally show ?thesis using d ok m rep by (simp add: heap_inv_def)
qed

text \<open>
  C6. \<^verbatim>\<open>heap_insert\<close> on a heap with fewer than \<open>2\<^sup>3\<^sup>1 - 1\<close> nodes returns 0.
  Afterwards the structure is again a complete binary tree in which no node is less than its
  child, it has one node more, it holds the old values and the new one, and no memory outside
  the tree and the new node has changed.
\<close>

theorem heap_insert_correct:
  assumes ord: "heap_order (less_fn hp)" and inv: "heap_inv hp st t"
    and fresh: "st a = None" and n: "unat (n_nodes hp) + 1 < 2 ^ 31"
  shows "\<exists>hp' st' t'. heap_insert hp st v (Some a) raw = Some (Inr (0, hp', st'))
    \<and> heap_inv hp' st' t'
    \<and> mset_tree t' = add_mset (a, v) (mset_tree t)
    \<and> n_nodes hp' = n_nodes hp + 1 \<and> less_fn hp' = less_fn hp
    \<and> (\<forall>x. x \<notin> insert a (addrs t) \<longrightarrow> st' x = st x)"
proof -
  define hp1 where "hp1 = hp\<lparr>n_nodes := n_nodes hp + 1\<rparr>"
  define st1 where "st1 = st(a \<mapsto> raw\<lparr>node_value := v\<rparr>)"
  have un: "unat (n_nodes hp1) = Suc (unat (n_nodes hp))"
    using n unat_plus_less [of "n_nodes hp" 1] by (simp add: hp1_def)
  have rep: "repr st (root hp) t" and d: "distinct_addrs t" and ix: "idx 1 t = {1..unat (n_nodes hp)}"
    using inv by (auto simp: heap_inv_def)
  have a: "a \<notin> addrs t" using repr_in_store [OF rep] fresh by blast
  have rep1: "repr st1 (root hp1) t"
    by (rule repr_frame [of st]) (use rep a in \<open>auto simp: st1_def hp1_def\<close>)
  have "(2::nat) ^ ilogb (unat (n_nodes hp1)) < 2 ^ 31"
    using ilogb_bounds [of "unat (n_nodes hp1)"] un n by simp
  then have k: "ilogb (unat (n_nodes hp1)) < 31" by (subst (asm) power_strict_increasing_iff) auto
  obtain hp' st' where res: "insert_on_path hp1 st1 a = Some (Inr (hp', st'))"
    "hp' = hp1\<lparr>root := root hp'\<rparr>"
    "repr st' (root hp') (hins (less_value hp1) (pbits (n_nodes hp1) (ilogb (unat (n_nodes hp1)))) (a, v) t)"
    "\<forall>x. x \<notin> insert a (addrs t) \<longrightarrow> st' x = st1 x"
    using insert_on_path_hins [OF rep1 d a _ _ refl k, of "raw\<lparr>node_value := v\<rparr>"]
      reaches_next [OF ix un] un by (auto simp: st1_def)
  have hp': "less_fn hp' = less_fn hp" "n_nodes hp' = n_nodes hp1"
    by (subst res(2), simp add: hp1_def)+
  have "less_value hp1 = less_value hp" by (simp add: less_value_def [abs_def] hp1_def)
  then have "heap_inv hp' st' (hins (less_value hp) (pbits (n_nodes hp') (ilogb (unat (n_nodes hp')))) (a, v) t)
      \<and> mset_tree (hins (less_value hp) (pbits (n_nodes hp') (ilogb (unat (n_nodes hp')))) (a, v) t)
        = add_mset (a, v) (mset_tree t)"
    using hins_heap_inv [OF ord inv a n hp'(1) _ refl, where v = v and st' = st'] res(3) hp' by (simp add: hp1_def)
  moreover have "heap_insert hp st v (Some a) raw = Some (Inr (0, hp', st'))"
    using res(1) by (simp add: heap_insert_def Let_def hp1_def [symmetric] st1_def [symmetric])
  moreover have "n_nodes hp' = n_nodes hp + 1" using hp' by (simp add: hp1_def)
  moreover have "\<forall>x. x \<notin> insert a (addrs t) \<longrightarrow> st' x = st x" using res(4) by (simp add: st1_def)
  ultimately show ?thesis using hp' by blast
qed

definition ex_root :: node_t where
  "ex_root = \<lparr>left_child = None, right_child = None, node_value = 7\<rparr>"

definition ex_heap :: heap_t where
  "ex_heap = \<lparr>n_nodes = 1, root = Some 8, less_fn = heap_less\<rparr>"

theorem heap_insert_correct_witness:
  "\<exists>hp' st' t'. heap_insert ex_heap [8 \<mapsto> ex_root] 9 (Some 16) ex_root = Some (Inr (0, hp', st'))
    \<and> heap_inv hp' st' t' \<and> mset_tree t' = {#(8, 7), (16, 9)#}
    \<and> n_nodes hp' = n_nodes ex_heap + 1 \<and> less_fn hp' = less_fn ex_heap
    \<and> (\<forall>x. x \<notin> {8, 16} \<longrightarrow> st' x = None)"
proof -
  have inv: "heap_inv ex_heap [8 \<mapsto> ex_root] (Node Leaf (8, 7) Leaf)"
    by (auto simp: heap_inv_def ex_heap_def ex_root_def)
  have ord: "heap_order (less_fn ex_heap)"
    by (simp add: ex_heap_def int_heap.heap_order_axioms)
  obtain hp' st' t' where
    "heap_insert ex_heap [8 \<mapsto> ex_root] 9 (Some 16) ex_root = Some (Inr (0, hp', st'))"
    "heap_inv hp' st' t'" "mset_tree t' = add_mset (16, 9) (mset_tree (Node Leaf (8, 7) Leaf))"
    "n_nodes hp' = n_nodes ex_heap + 1" "less_fn hp' = less_fn ex_heap"
    "\<forall>x. x \<notin> insert 16 (addrs (Node Leaf (8, 7) Leaf)) \<longrightarrow> st' x = [8 \<mapsto> ex_root] x"
    using heap_insert_correct [OF ord inv, of 16 9 ex_root] by (auto simp: ex_heap_def)
  then show ?thesis by (intro exI [of _ hp'] exI [of _ st'] exI [of _ t']) (auto simp: add_mset_commute)
qed

section \<open>Clearing\<close>

lemma node_free_repr:
  "repr st p t \<Longrightarrow> distinct_addrs t
    \<Longrightarrow> node_free st p = Some (Inr (\<lambda>x. if x \<in> addrs t then None else st x))"
proof (induction t arbitrary: st p)
  case Leaf
  then show ?case by (simp add: node_free.simps)
next
  case (Node l x r)
  obtain a v where x: "x = (a, v)" by (cases x)
  from Node.prems x obtain n where n: "p = Some a" "st a = Some n"
    "repr st (left_child n) l" "repr st (right_child n) r" by (auto split: option.splits)
  let ?st1 = "\<lambda>y. if y \<in> addrs l then None else st y"
  have "repr ?st1 (right_child n) r"
    by (rule repr_frame [OF n(4)]) (use Node.prems(2) in auto)
  then have "node_free ?st1 (right_child n) = Some (Inr (\<lambda>y. if y \<in> addrs r then None else ?st1 y))"
    using Node.IH(2) Node.prems(2) by simp
  then show ?case
    using Node.IH(1) [OF n(3)] Node.prems(2) n(1,2) x
    by (subst node_free.simps) (auto simp: load_def fun_eq_iff)
qed

text \<open>
  \<^verbatim>\<open>heap_clear\<close> returns, leaves the empty heap, and frees exactly the nodes of the
  heap, each of them once: it never follows a pointer to a freed node.
\<close>

theorem heap_clear_correct:
  assumes "heap_inv hp st t"
  shows "heap_clear hp st = Some (Inr (hp\<lparr>root := None, n_nodes := 0\<rparr>,
           (\<lambda>x. if x \<in> addrs t then None else st x)))
    \<and> heap_inv (hp\<lparr>root := None, n_nodes := 0\<rparr>) st' Leaf"
  using node_free_repr [of st "root hp" t] assms by (simp add: heap_clear_def heap_inv_def)

theorem heap_clear_correct_witness:
  "heap_clear ex_heap [8 \<mapsto> ex_root] = Some (Inr (ex_heap\<lparr>root := None, n_nodes := 0\<rparr>,
     (\<lambda>x. if x \<in> {8} then None else [8 \<mapsto> ex_root] x)))"
proof -
  have "heap_inv ex_heap [8 \<mapsto> ex_root] (Node Leaf (8, 7) Leaf)"
    by (auto simp: heap_inv_def ex_heap_def ex_root_def)
  from heap_clear_correct [OF this] show ?thesis by simp
qed

end
