(* ===== verification/Thread.thy ===== *)
theory Thread
  imports Prelude
begin

text \<open>
  \<^verbatim>\<open>kernel/thread.c\<close> and \<^verbatim>\<open>kernel/scheduler.c\<close>: the thread table, the ready list
  that is threaded through its \<^verbatim>\<open>next\<close> fields, and the scheduler.

  \<open>kstate\<close> holds the static variables of these two files and of
  \<^verbatim>\<open>kernel/sleepq.c\<close>, which uses the same \<^verbatim>\<open>next\<close> fields for its own lists.
  The code runs these operations with interrupts disabled and under the spinlock of the thread
  table, so that each of them is one atomic step; the locks themselves are not part of the
  state. Contexts are kept by address; addresses of kernel symbols (the stack areas, the idle
  loop, \<^verbatim>\<open>thread_finish\<close>) are arguments.
\<close>

section \<open>The state\<close>

datatype thread_state_t =
    THREAD_FREE
  | THREAD_RUNNING
  | THREAD_READY
  | THREAD_SLEEPING
  | THREAD_NONREADY
  | THREAD_DYING

record context_t =
  cpu_regs :: "u32 list"
  hi :: u32
  lo :: u32
  pc :: u32
  status :: u32
  prev_context :: u32

record thread_table_t =
  context_p :: u32
  user_context :: u32
  state :: thread_state_t
  sleeps_on :: u32
  pagetable :: u32
  process_id :: int
  next_t :: int

record kstate =
  thread_table :: "thread_table_t list"
  contexts :: "u32 \<Rightarrow> context_t"
  next_tid :: int
  scheduler_current_thread :: "int list"
  ready_head :: int
  ready_tail :: int
  timer_ticks :: "u32 list"
  sleepq_hashtable :: "int list"

abbreviation (input) CONFIG_MAX_THREADS :: nat where
  "CONFIG_MAX_THREADS \<equiv> 32"

abbreviation (input) CONFIG_MAX_CPUS :: nat where
  "CONFIG_MAX_CPUS \<equiv> 4"

abbreviation (input) CONFIG_THREAD_STACKSIZE :: u32 where
  "CONFIG_THREAD_STACKSIZE \<equiv> 4096"

abbreviation (input) IDLE_THREAD_TID :: int where
  "IDLE_THREAD_TID \<equiv> 0"

text \<open>The size of a context in bytes, and the indices of its registers.\<close>

abbreviation (input) SIZEOF_CONTEXT :: u32 where
  "SIZEOF_CONTEXT \<equiv> 136"

abbreviation (input) MIPS_REGISTER_A0 :: nat where "MIPS_REGISTER_A0 \<equiv> 3"
abbreviation (input) MIPS_REGISTER_SP :: nat where "MIPS_REGISTER_SP \<equiv> 26"
abbreviation (input) MIPS_REGISTER_RA :: nat where "MIPS_REGISTER_RA \<equiv> 28"

abbreviation (input) INTERRUPT_MASK_ALL :: u32 where "INTERRUPT_MASK_ALL \<equiv> 0xff00"
abbreviation (input) INTERRUPT_MASK_MASTER :: u32 where "INTERRUPT_MASK_MASTER \<equiv> 0x1"
abbreviation (input) USERLAND_ENABLE_BIT :: u32 where "USERLAND_ENABLE_BIT \<equiv> 0x10"

definition get_thread :: "kstate \<Rightarrow> int \<Rightarrow> thread_table_t res" where
  "get_thread s t = aget (thread_table s) t"

definition upd_thread :: "kstate \<Rightarrow> int \<Rightarrow> (thread_table_t \<Rightarrow> thread_table_t) \<Rightarrow> kstate res" where
  "upd_thread s t f =
     rbind (aget (thread_table s) t) (\<lambda>th.
     rbind (aset (thread_table s) t (f th)) (\<lambda>tt. Inr (s\<lparr>thread_table := tt\<rparr>)))"

section \<open>Threads\<close>

definition stack_top :: "u32 \<Rightarrow> int \<Rightarrow> u32" where
  "stack_top stacks i = stacks + CONFIG_THREAD_STACKSIZE * of_int i + CONFIG_THREAD_STACKSIZE"

definition thread_table_init :: "u32 \<Rightarrow> u32 \<Rightarrow> kstate \<Rightarrow> kstate" where
  "thread_table_init stacks idle_loop s =
     (let tt = map (\<lambda>i. \<lparr>context_p = stack_top stacks (int i) - SIZEOF_CONTEXT, user_context = 0,
                         state = THREAD_FREE, sleeps_on = 0, pagetable = 0, process_id = -1, next_t = -1\<rparr>)
                 [0..<CONFIG_MAX_THREADS];
          c = context_p (tt ! 0);
          ctx = (contexts s c)
      in s\<lparr>thread_table := tt[0 := (tt ! 0)\<lparr>state := THREAD_READY\<rparr>],
           contexts := (contexts s)(c := ctx\<lparr>
             cpu_regs := (cpu_regs ctx)[MIPS_REGISTER_SP := stacks + CONFIG_THREAD_STACKSIZE - 4 - SIZEOF_CONTEXT],
             pc := idle_loop, status := INTERRUPT_MASK_ALL OR INTERRUPT_MASK_MASTER, prev_context := c\<rparr>)\<rparr>)"

fun free_slot :: "thread_table_t list \<Rightarrow> int \<Rightarrow> nat \<Rightarrow> nat \<Rightarrow> int res" where
  "free_slot tt nt i 0 = Inr (-1)"
| "free_slot tt nt i (Suc n) =
     (let t = (int i + nt) mod int CONFIG_MAX_THREADS
      in if t = IDLE_THREAD_TID then free_slot tt nt (Suc i) n
         else rbind (aget tt t) (\<lambda>th.
           if state th = THREAD_FREE then Inr t else free_slot tt nt (Suc i) n))"

definition thread_create :: "u32 \<Rightarrow> u32 \<Rightarrow> kstate \<Rightarrow> u32 \<Rightarrow> u32 \<Rightarrow> (int \<times> kstate) res" where
  "thread_create stacks finish s func arg =
     rbind (free_slot (thread_table s) (next_tid s) 0 CONFIG_MAX_THREADS) (\<lambda>tid.
       if tid < 0 then Inr (tid, s)
       else let c = stack_top stacks tid - SIZEOF_CONTEXT;
                ctx = \<lparr>cpu_regs = (replicate 29 0)
                         [MIPS_REGISTER_SP := stack_top stacks tid - 4 - SIZEOF_CONTEXT - 4,
                          MIPS_REGISTER_RA := finish, MIPS_REGISTER_A0 := arg],
                       hi = 0, lo = 0, pc = func,
                       status = INTERRUPT_MASK_ALL OR INTERRUPT_MASK_MASTER, prev_context = c\<rparr>
            in rbind (upd_thread (s\<lparr>next_tid := (tid + 1) mod int CONFIG_MAX_THREADS\<rparr>) tid (\<lambda>th.
                 th\<lparr>state := THREAD_NONREADY, context_p := c, user_context := 0, pagetable := 0,
                    sleeps_on := 0, process_id := -1, next_t := -1\<rparr>)) (\<lambda>s'.
               Inr (tid, s'\<lparr>contexts := (contexts s')(c := ctx)\<rparr>)))"

definition thread_get_current_thread :: "kstate \<Rightarrow> nat \<Rightarrow> int res" where
  "thread_get_current_thread s cpu = aget (scheduler_current_thread s) (int cpu)"

definition thread_get_current_thread_entry :: "kstate \<Rightarrow> nat \<Rightarrow> thread_table_t res" where
  "thread_get_current_thread_entry s cpu =
     rbind (aget (scheduler_current_thread s) (int cpu)) (\<lambda>t. get_thread s t)"

text \<open>The returned pointer is the index of the entry, \<open>None\<close> for \<^verbatim>\<open>NULL\<close>.\<close>

definition thread_get_thread_entry_by_pid :: "kstate \<Rightarrow> int \<Rightarrow> nat option" where
  "thread_get_thread_entry_by_pid s pid =
     (let i = first_index (\<lambda>th. process_id th = pid) (thread_table s)
      in if i < length (thread_table s) then Some i else None)"

text \<open>The status with which the context enters user mode.\<close>

definition thread_goto_userland :: "context_t \<Rightarrow> context_t" where
  "thread_goto_userland usercontext = usercontext\<lparr>status :=
     status usercontext OR USERLAND_ENABLE_BIT OR INTERRUPT_MASK_ALL OR INTERRUPT_MASK_MASTER\<rparr>"

section \<open>The scheduler\<close>

definition scheduler_init :: "kstate \<Rightarrow> kstate" where
  "scheduler_init s = s\<lparr>scheduler_current_thread := replicate CONFIG_MAX_CPUS 0\<rparr>"

definition scheduler_add_to_ready_list :: "kstate \<Rightarrow> int \<Rightarrow> kstate res" where
  "scheduler_add_to_ready_list s t =
     (if t = IDLE_THREAD_TID then Inl Kernel_assert
      else if \<not> (t \<ge> 0 \<and> t < int CONFIG_MAX_THREADS) then Inl Kernel_assert
      else if ready_tail s < 0
      then upd_thread (s\<lparr>ready_head := t, ready_tail := t\<rparr>) t (\<lambda>th. th\<lparr>next_t := -1\<rparr>)
      else rbind (upd_thread s (ready_tail s) (\<lambda>th. th\<lparr>next_t := t\<rparr>)) (\<lambda>s1.
           rbind (upd_thread s1 t (\<lambda>th. th\<lparr>next_t := -1\<rparr>)) (\<lambda>s2.
           Inr (s2\<lparr>ready_tail := t\<rparr>))))"

definition scheduler_remove_first_ready :: "kstate \<Rightarrow> (int \<times> kstate) res" where
  "scheduler_remove_first_ready s =
     (let t = ready_head s
      in if t = IDLE_THREAD_TID then Inl Kernel_assert
         else if t \<ge> 0 then
           rbind (get_thread s t) (\<lambda>th.
             if state th \<noteq> THREAD_READY then Inl Kernel_assert
             else let s1 = (if ready_tail s = t then s\<lparr>ready_tail := -1\<rparr> else s)
                  in rbind (get_thread s1 (ready_head s1)) (\<lambda>h.
                       Inr (t, s1\<lparr>ready_head := next_t h\<rparr>)))
         else Inr (IDLE_THREAD_TID, s))"

definition scheduler_add_ready :: "kstate \<Rightarrow> int \<Rightarrow> kstate res" where
  "scheduler_add_ready s t =
     rbind (scheduler_add_to_ready_list s t) (\<lambda>s1.
       upd_thread s1 t (\<lambda>th. th\<lparr>state := THREAD_READY\<rparr>))"

definition thread_run :: "kstate \<Rightarrow> int \<Rightarrow> kstate res" where
  "thread_run s t = scheduler_add_ready s t"

text \<open>
  \<open>rnd\<close> is what \<^verbatim>\<open>_get_rand(CONFIG_SCHEDULER_TIMESLICE)\<close> returns.
\<close>

definition scheduler_schedule :: "kstate \<Rightarrow> nat \<Rightarrow> u32 \<Rightarrow> kstate res" where
  "scheduler_schedule s this_cpu rnd =
     rbind (aget (scheduler_current_thread s) (int this_cpu)) (\<lambda>cur.
     rbind (get_thread s cur) (\<lambda>current_thread.
     rbind (if state current_thread = THREAD_DYING
            then upd_thread s cur (\<lambda>th. th\<lparr>state := THREAD_FREE\<rparr>)
            else if sleeps_on current_thread \<noteq> 0
            then upd_thread s cur (\<lambda>th. th\<lparr>state := THREAD_SLEEPING\<rparr>)
            else rbind (if cur \<noteq> IDLE_THREAD_TID then scheduler_add_to_ready_list s cur else Inr s) (\<lambda>s1.
                 upd_thread s1 cur (\<lambda>th. th\<lparr>state := THREAD_READY\<rparr>))) (\<lambda>s2.
     rbind (scheduler_remove_first_ready s2) (\<lambda>(t, s3).
     rbind (upd_thread s3 t (\<lambda>th. th\<lparr>state := THREAD_RUNNING\<rparr>)) (\<lambda>s4.
     rbind (aset (scheduler_current_thread s4) (int this_cpu) t) (\<lambda>curs.
     rbind (aset (timer_ticks s4) (int this_cpu) (rnd + 750 div 2)) (\<lambda>tm.
       Inr (s4\<lparr>scheduler_current_thread := curs, timer_ticks := tm\<rparr>))))))))"

text \<open>
  \<open>thread_switch\<close> raises the software interrupt whose handler calls the scheduler.
\<close>

definition thread_switch :: "kstate \<Rightarrow> nat \<Rightarrow> u32 \<Rightarrow> kstate res" where
  "thread_switch s cpu rnd = scheduler_schedule s cpu rnd"

text \<open>
  \<open>thread_finish\<close>: outside an interrupt the thread gives up the processor for good; the
  scheduler frees its entry.
\<close>

definition thread_finish :: "kstate \<Rightarrow> nat \<Rightarrow> bool \<Rightarrow> u32 \<Rightarrow> kstate res" where
  "thread_finish s cpu is_in_interrupt rnd =
     rbind (thread_get_current_thread s cpu) (\<lambda>my_tid.
     rbind (get_thread s my_tid) (\<lambda>th.
       if pagetable th \<noteq> 0 then Inl Kernel_assert
       else rbind (upd_thread s my_tid (\<lambda>th. th\<lparr>state := THREAD_DYING\<rparr>)) (\<lambda>s1.
         if \<not> is_in_interrupt then scheduler_schedule s1 cpu rnd else Inr s1)))"

section \<open>Lists threaded through the table\<close>

abbreviation th :: "kstate \<Rightarrow> int \<Rightarrow> thread_table_t" where
  "th s t \<equiv> thread_table s ! nat t"

definition tid_ok :: "int \<Rightarrow> bool" where
  "tid_ok t \<longleftrightarrow> 0 < t \<and> t < int CONFIG_MAX_THREADS"

fun chain :: "thread_table_t list \<Rightarrow> int \<Rightarrow> int list \<Rightarrow> bool" where
  "chain tt p [] = (p = -1)"
| "chain tt p (t # ts) = (p = t \<and> tid_ok t \<and> chain tt (next_t (tt ! nat t)) ts)"

definition ends_at :: "int \<Rightarrow> int list \<Rightarrow> bool" where
  "ends_at p ts \<longleftrightarrow> p = (if ts = [] then -1 else last ts)"

text \<open>The ready list of the state is \<open>rs\<close>.\<close>

definition ready_queue :: "kstate \<Rightarrow> int list \<Rightarrow> bool" where
  "ready_queue s rs \<longleftrightarrow> length (thread_table s) = CONFIG_MAX_THREADS \<and> distinct rs
     \<and> chain (thread_table s) (ready_head s) rs \<and> ends_at (ready_tail s) rs"

text \<open>Two tables agree except for the links.\<close>

definition same_but_links :: "thread_table_t list \<Rightarrow> thread_table_t list \<Rightarrow> bool" where
  "same_but_links tt tt' \<longleftrightarrow> map (next_t_update (\<lambda>_. 0)) tt = map (next_t_update (\<lambda>_. 0)) tt'"

lemma tid_okD: "tid_ok t \<Longrightarrow> 0 < t \<and> t < 32 \<and> nat t < 32"
  by (auto simp: tid_ok_def)

lemma nat_inj: "0 \<le> t \<Longrightarrow> 0 \<le> u \<Longrightarrow> nat t = nat u \<longleftrightarrow> t = (u::int)"
  by auto

lemma chain_tids: "chain tt p ts \<Longrightarrow> \<forall>t \<in> set ts. tid_ok t"
  by (induction ts arbitrary: p) auto

lemma chain_head: "chain tt p ts \<Longrightarrow> p = (if ts = [] then -1 else hd ts)"
  by (cases ts) auto

lemma chain_unique: "chain tt p ts \<Longrightarrow> chain tt p us \<Longrightarrow> ts = us"
  by (induction ts arbitrary: p us) (case_tac us; auto simp: tid_ok_def)+

lemma chain_frame:
  "chain tt p ts \<Longrightarrow> (\<And>t. t \<in> set ts \<Longrightarrow> next_t (tt' ! nat t) = next_t (tt ! nat t)) \<Longrightarrow> chain tt' p ts"
  by (induction ts arbitrary: p) auto

lemma chain_upd:
  assumes "chain tt p ts" "t \<notin> set ts \<or> next_t x = next_t (tt ! nat t)" "0 \<le> t"
  shows "chain (tt[nat t := x]) p ts"
proof (rule chain_frame [OF assms(1)])
  fix u assume u: "u \<in> set ts"
  with assms(1) chain_tids have "0 < u" by (auto simp: tid_ok_def)
  then show "next_t (tt[nat t := x] ! nat u) = next_t (tt ! nat u)"
    using u assms(2,3)
    by (cases "u = t"; cases "nat t < length tt") (auto simp: nat_inj list_update_beyond)
qed

lemma chain_snoc:
  assumes "chain tt p ts" "distinct ts" "ts \<noteq> []" "tid_ok t" "t \<notin> set ts" "length tt = 32"
    and "next_t (tt ! nat t) = -1"
  shows "chain (tt[nat (last ts) := (tt ! nat (last ts))\<lparr>next_t := t\<rparr>]) p (ts @ [t])"
  using assms
proof (induction ts arbitrary: p)
  case (Cons u ts)
  have u: "tid_ok u" "p = u" and rest: "chain tt (next_t (tt ! nat u)) ts" using Cons.prems(1) by auto
  show ?case
  proof (cases "ts = []")
    case True
    with Cons.prems u rest show ?thesis by (auto simp: nat_inj tid_ok_def nth_list_update)
  next
    case False
    then have "last ts \<in> set ts" by simp
    then have "last ts \<noteq> u" "0 < last ts" using Cons.prems(2) chain_tids [OF rest] by (auto simp: tid_ok_def)
    with Cons.IH [OF rest] Cons.prems False u show ?thesis by (auto simp: nat_inj tid_ok_def)
  qed
qed simp

lemma upd_thread_eq:
  "0 \<le> t \<Longrightarrow> nat t < length (thread_table s) \<Longrightarrow>
    upd_thread s t f = Inr (s\<lparr>thread_table := (thread_table s)[nat t := f (th s t)]\<rparr>)"
  by (simp add: upd_thread_def aget_def aset_def nat_less_iff)

lemma get_thread_eq: "0 \<le> t \<Longrightarrow> nat t < length (thread_table s) \<Longrightarrow> get_thread s t = Inr (th s t)"
  by (simp add: get_thread_def aget_def nat_less_iff)

lemma same_but_links_nth:
  assumes "same_but_links tt tt'" "i < length tt"
  shows "tt' ! i = (tt ! i)\<lparr>next_t := next_t (tt' ! i)\<rparr>"
proof -
  have l: "length tt' = length tt" using assms(1) by (metis length_map same_but_links_def)
  have "map (next_t_update (\<lambda>_. 0)) tt ! i = map (next_t_update (\<lambda>_. 0)) tt' ! i"
    using assms(1) by (simp only: same_but_links_def)
  then have "next_t_update (\<lambda>_. 0) (tt ! i) = next_t_update (\<lambda>_. 0) (tt' ! i)"
    using assms(2) l by simp
  then show ?thesis by (cases "tt ! i"; cases "tt' ! i") simp
qed

lemma same_but_links_fields:
  assumes "same_but_links tt tt'" "i < length tt"
  shows "state (tt' ! i) = state (tt ! i)" "sleeps_on (tt' ! i) = sleeps_on (tt ! i)"
    "pagetable (tt' ! i) = pagetable (tt ! i)" "process_id (tt' ! i) = process_id (tt ! i)"
    "context_p (tt' ! i) = context_p (tt ! i)" "user_context (tt' ! i) = user_context (tt ! i)"
  by (subst same_but_links_nth [OF assms], simp)+

lemma same_but_links_refl [simp]: "same_but_links tt tt"
  by (simp add: same_but_links_def)

lemma same_but_links_upd:
  "same_but_links tt tt' \<Longrightarrow> i < length tt' \<Longrightarrow> same_but_links tt (tt'[i := (tt' ! i)\<lparr>next_t := x\<rparr>])"
proof -
  assume h: "same_but_links tt tt'" "i < length tt'"
  let ?f = "next_t_update (\<lambda>_. 0)"
  have "map ?f (tt'[i := (tt' ! i)\<lparr>next_t := x\<rparr>]) = (map ?f tt')[i := map ?f tt' ! i]"
    using h(2) by (simp add: map_update)
  also have "\<dots> = map ?f tt'" by (rule list_update_id)
  finally show ?thesis using h(1) by (simp add: same_but_links_def)
qed

lemma same_but_links_length: "same_but_links tt tt' \<Longrightarrow> length tt' = length tt"
  by (metis length_map same_but_links_def)

text \<open>
  Appending to and taking from the ready list.
\<close>

lemma add_to_ready_list:
  assumes q: "ready_queue s rs" and t: "tid_ok t" "t \<notin> set rs"
  shows "\<exists>tt. scheduler_add_to_ready_list s t =
      Inr (s\<lparr>thread_table := tt, ready_head := (if rs = [] then t else ready_head s), ready_tail := t\<rparr>)
    \<and> chain tt (if rs = [] then t else ready_head s) (rs @ [t])
    \<and> same_but_links (thread_table s) tt
    \<and> (\<forall>u. 0 \<le> u \<longrightarrow> u \<noteq> t \<longrightarrow> u \<notin> set rs \<longrightarrow> tt ! nat u = th s u)"
proof -
  have l: "length (thread_table s) = 32" and d: "distinct rs" and c: "chain (thread_table s) (ready_head s) rs"
    using q by (auto simp: ready_queue_def)
  note tt = tid_okD [OF t(1)]
  show ?thesis
  proof (cases "rs = []")
    case True
    then have "ready_tail s < 0" using q by (simp add: ready_queue_def ends_at_def)
    with True t tt l show ?thesis
      by (intro exI [of _ "(thread_table s)[nat t := (th s t)\<lparr>next_t := -1\<rparr>]"])
        (auto simp: scheduler_add_to_ready_list_def upd_thread_eq same_but_links_upd nat_inj)
  next
    case False
    let ?e = "last rs"
    have e: "ready_tail s = ?e" "?e \<in> set rs" using q False by (auto simp: ready_queue_def ends_at_def)
    then have e': "tid_ok ?e" "?e \<noteq> t" using chain_tids [OF c] t by auto
    note ee = tid_okD [OF e'(1)]
    let ?t1 = "(thread_table s)[nat t := (th s t)\<lparr>next_t := -1\<rparr>]"
    let ?t2 = "?t1[nat ?e := (?t1 ! nat ?e)\<lparr>next_t := t\<rparr>]"
    have "scheduler_add_to_ready_list s t = Inr (s\<lparr>thread_table := ?t2, ready_tail := t\<rparr>)"
      using tt ee e(1) e'(2) l
      by (simp add: scheduler_add_to_ready_list_def upd_thread_eq nat_inj list_update_swap nth_list_update)
    moreover have "chain ?t1 (ready_head s) rs" using c t(2) tt by (intro chain_upd) auto
    then have "chain ?t2 (ready_head s) (rs @ [t])"
      using d False t l tt by (intro chain_snoc) auto
    moreover have "same_but_links (thread_table s) ?t2"
      using tt ee l by (intro same_but_links_upd) auto
    moreover have "?t2 ! nat u = th s u" if "0 \<le> u" "u \<noteq> t" "u \<notin> set rs" for u
    proof -
      have "u \<noteq> ?e" using e(2) that(3) by blast
      then show ?thesis using that tt ee by (simp add: nat_inj nth_list_update)
    qed
    ultimately show ?thesis using False by (intro exI [of _ ?t2]) auto
  qed
qed

lemma remove_first_ready:
  assumes q: "ready_queue s rs" and r: "\<forall>t \<in> set rs. state (th s t) = THREAD_READY"
  shows "\<exists>h e. scheduler_remove_first_ready s =
      Inr (if rs = [] then 0 else hd rs, s\<lparr>ready_head := h, ready_tail := e\<rparr>)
    \<and> chain (thread_table s) h (tl rs) \<and> ends_at e (tl rs)"
proof (cases rs)
  case Nil
  with q have "ready_head s = -1" "ready_tail s = -1" by (auto simp: ready_queue_def ends_at_def)
  with Nil show ?thesis
    by (intro exI [of _ "-1"]) (simp add: scheduler_remove_first_ready_def ends_at_def)
next
  case (Cons t ts)
  with q have h: "ready_head s = t" "tid_ok t" "chain (thread_table s) (next_t (th s t)) ts"
    "length (thread_table s) = 32" "distinct (t # ts)" by (auto simp: ready_queue_def)
  note tt = tid_okD [OF h(2)]
  have last: "ready_tail s = t \<longleftrightarrow> ts = []" "ts \<noteq> [] \<Longrightarrow> ready_tail s = last ts"
  proof -
    have "ts \<noteq> [] \<Longrightarrow> last ts \<noteq> t" using h(5) last_in_set [of ts] by auto
    then show "ready_tail s = t \<longleftrightarrow> ts = []" "ts \<noteq> [] \<Longrightarrow> ready_tail s = last ts"
      using q Cons by (auto simp: ready_queue_def ends_at_def)
  qed
  have "scheduler_remove_first_ready s =
      Inr (t, s\<lparr>ready_head := next_t (th s t), ready_tail := (if ts = [] then -1 else ready_tail s)\<rparr>)"
    using h tt last(1) r Cons
    by (auto simp: scheduler_remove_first_ready_def get_thread_eq Let_def)
  with Cons h(3) last(2) show ?thesis by (auto simp: ends_at_def)
qed

text \<open>The ready list as a queue.\<close>

definition ready_rep :: "kstate \<Rightarrow> int list \<Rightarrow> bool" where
  "ready_rep s rs \<longleftrightarrow> ready_queue s rs \<and> (\<forall>t \<in> set rs. state (th s t) = THREAD_READY)"

lemma add_ready_rep:
  assumes rep: "ready_rep s rs" and t: "tid_ok t" "t \<notin> set rs"
  shows "\<exists>s'. scheduler_add_ready s t = Inr s' \<and> ready_rep s' (rs @ [t])"
proof -
  have q: "ready_queue s rs" using rep by (simp add: ready_rep_def)
  note tt = tid_okD [OF t(1)]
  from add_to_ready_list [OF q t] obtain tab where tab:
    "scheduler_add_to_ready_list s t =
      Inr (s\<lparr>thread_table := tab, ready_head := (if rs = [] then t else ready_head s), ready_tail := t\<rparr>)"
    "chain tab (if rs = [] then t else ready_head s) (rs @ [t])" "same_but_links (thread_table s) tab" by blast
  let ?x = "(tab ! nat t)\<lparr>state := THREAD_READY\<rparr>"
  have l: "length tab = 32" using q same_but_links_length [OF tab(3)] by (simp add: ready_queue_def)
  have "chain (tab[nat t := ?x]) (if rs = [] then t else ready_head s) (rs @ [t])"
    using tab(2) tt by (intro chain_upd) auto
  moreover have "state (tab[nat t := ?x] ! nat u) = THREAD_READY" if u: "u \<in> set (rs @ [t])" for u
  proof (cases "u = t")
    case False
    with u have "u \<in> set rs" by simp
    then have uu: "tid_ok u" "state (th s u) = THREAD_READY"
      using rep chain_tids by (auto simp: ready_rep_def ready_queue_def)
    then have "state (tab ! nat u) = state (th s u)"
      using same_but_links_fields [OF tab(3), of "nat u"] q uu by (auto simp: ready_queue_def tid_ok_def)
    with uu False tt show ?thesis by (simp add: nat_inj tid_ok_def)
  qed (use tt l in simp)
  ultimately show ?thesis
    using tab(1) tt l q t(2)
    by (auto simp: scheduler_add_ready_def upd_thread_eq ready_rep_def ready_queue_def ends_at_def)
qed

interpretation ready: fifo_queue scheduler_add_ready scheduler_remove_first_ready ready_rep tid_ok 0
proof (unfold_locales, goal_cases)
  case (1 s q x)
  then show ?case by (rule add_ready_rep)
next
  case (2 s x q)
  then show ?case
    using remove_first_ready [of s "x # q"] by (auto simp: ready_rep_def ready_queue_def)
next
  case (3 s)
  then show ?case using remove_first_ready [of s "[]"] by (auto simp: ready_rep_def ready_queue_def)
qed

text \<open>
  The ready list is first-in first-out: threads added to it with
  \<^verbatim>\<open>scheduler_add_ready\<close> are removed in the order in which they were added, behind those
  that were already there, and none is lost.
\<close>

theorem ready_list_fifo:
  assumes "ready_rep s rs" "distinct (rs @ ts)" "\<forall>t \<in> set ts. tid_ok t"
  shows "\<exists>s1 s2. enq_all scheduler_add_ready s ts = Inr s1
    \<and> deq_many scheduler_remove_first_ready (length (rs @ ts)) s1 = Inr (rs @ ts, s2)
    \<and> scheduler_remove_first_ready s2 = Inr (IDLE_THREAD_TID, s2)"
proof -
  obtain s1 s2 where "enq_all scheduler_add_ready s ts = Inr s1"
    "deq_many scheduler_remove_first_ready (length (rs @ ts)) s1 = Inr (rs @ ts, s2)" "ready_rep s2 []"
    using ready.fifo_order [OF assms(1,2)] assms(3) by blast
  moreover from this(3) have "scheduler_remove_first_ready s2 = Inr (IDLE_THREAD_TID, s2)"
    by (simp add: ready_rep_def ready_queue_def scheduler_remove_first_ready_def)
  ultimately show ?thesis by blast
qed

definition blank_thread :: thread_table_t where
  "blank_thread = \<lparr>context_p = 0, user_context = 0, state = THREAD_NONREADY, sleeps_on = 0,
     pagetable = 0, process_id = -1, next_t = -1\<rparr>"

definition blank_context :: context_t where
  "blank_context = \<lparr>cpu_regs = replicate 29 0, hi = 0, lo = 0, pc = 0, status = 0, prev_context = 0\<rparr>"

definition blank_state :: kstate where
  "blank_state = \<lparr>thread_table = replicate CONFIG_MAX_THREADS blank_thread, contexts = (\<lambda>_. blank_context),
     next_tid = 0, scheduler_current_thread = replicate CONFIG_MAX_CPUS 0, ready_head = -1, ready_tail = -1,
     timer_ticks = replicate CONFIG_MAX_CPUS 0, sleepq_hashtable = replicate 127 (-1)\<rparr>"

theorem ready_list_fifo_witness:
  "\<exists>s1 s2. enq_all scheduler_add_ready blank_state [5, 3, 9] = Inr s1
     \<and> deq_many scheduler_remove_first_ready (length [5, 3, 9 :: int]) s1 = Inr ([5, 3, 9], s2)"
proof -
  have "ready_rep blank_state []"
    by (simp add: ready_rep_def ready_queue_def blank_state_def ends_at_def)
  from ready_list_fifo [OF this, of "[5, 3, 9]"] show ?thesis
    by (simp add: tid_ok_def del: enq_all.simps deq_many.simps) blast
qed

end
