(* ===== verification/Sleepq.thy ===== *)
theory Sleepq
  imports Thread
begin

text \<open>
  \<^verbatim>\<open>kernel/sleepq.c\<close>: the hash table of sleeping threads. Each bucket is a list
  through the \<^verbatim>\<open>next\<close> fields of the thread table.

  The invariant \<open>kinv\<close> ties the ready list, the buckets, the thread states and the running
  threads together, and \<open>kstep\<close> is the transition system of the operations that threads and
  interrupts may interleave. A thread that went to sleep runs until it gives up the
  processor; a wake-up in between is not lost.
\<close>

section \<open>The code\<close>

abbreviation (input) SLEEPQ_HASHTABLE_SIZE :: nat where
  "SLEEPQ_HASHTABLE_SIZE \<equiv> 127"

definition SLEEPQ_HASH :: "u32 \<Rightarrow> nat" where
  "SLEEPQ_HASH r = unat r mod SLEEPQ_HASHTABLE_SIZE"

definition sleepq_init :: "kstate \<Rightarrow> kstate" where
  "sleepq_init s = s\<lparr>sleepq_hashtable := replicate SLEEPQ_HASHTABLE_SIZE (-1)\<rparr>"

partial_function (option) last_in_bucket :: "thread_table_t list \<Rightarrow> int \<Rightarrow> int ores" where
  "last_in_bucket tt prev =
     obind (Some (aget tt prev)) (\<lambda>p.
       if next_t p > 0 then last_in_bucket tt (next_t p) else Some (Inr prev))"

definition sleepq_add :: "kstate \<Rightarrow> nat \<Rightarrow> u32 \<Rightarrow> u32 \<Rightarrow> kstate ores" where
  "sleepq_add s cpu intr_state resource =
     (if \<not> (intr_state AND INTERRUPT_MASK_ALL = 0 \<or> \<not> (intr_state AND INTERRUPT_MASK_MASTER \<noteq> 0))
      then Some (Inl Kernel_assert)
      else obind (Some (thread_get_current_thread s cpu)) (\<lambda>my_tid.
           obind (Some (upd_thread s my_tid (\<lambda>th. th\<lparr>next_t := -1, sleeps_on := resource\<rparr>))) (\<lambda>s1.
           if my_tid = IDLE_THREAD_TID then Some (Inl Kernel_assert)
           else obind (Some (aget (sleepq_hashtable s1) (int (SLEEPQ_HASH resource)))) (\<lambda>first.
             if first \<le> 0
             then Some (rbind (aset (sleepq_hashtable s1) (int (SLEEPQ_HASH resource)) my_tid) (\<lambda>ht.
                    Inr (s1\<lparr>sleepq_hashtable := ht\<rparr>)))
             else obind (last_in_bucket (thread_table s1) first) (\<lambda>prev.
                    Some (upd_thread s1 prev (\<lambda>th. th\<lparr>next_t := my_tid\<rparr>)))))))"

text \<open>The search for the next thread that waits for the resource: the new \<open>prev\<close> and \<open>first\<close>.\<close>

partial_function (option) find_waiter ::
    "thread_table_t list \<Rightarrow> u32 \<Rightarrow> int \<Rightarrow> int \<Rightarrow> (int \<times> int) ores" where
  "find_waiter tt resource prev first =
     (if first > 0 then
        obind (Some (aget tt first)) (\<lambda>th.
          if sleeps_on th \<noteq> resource then find_waiter tt resource first (next_t th)
          else Some (Inr (prev, first)))
      else Some (Inr (prev, first)))"

text \<open>
  Removing a found thread from its bucket and making it ready; the same code in
  \<open>sleepq_wake\<close> and \<open>sleepq_wake_all\<close>. The first component is the link that
  replaced it.
\<close>

definition unlink_wake :: "kstate \<Rightarrow> nat \<Rightarrow> int \<Rightarrow> int \<Rightarrow> (int \<times> kstate) res" where
  "unlink_wake s hash prev wake =
     rbind (get_thread s wake) (\<lambda>w.
     rbind (if prev \<le> 0
            then rbind (aset (sleepq_hashtable s) (int hash) (next_t w)) (\<lambda>ht. Inr (s\<lparr>sleepq_hashtable := ht\<rparr>))
            else upd_thread s prev (\<lambda>th. th\<lparr>next_t := next_t w\<rparr>)) (\<lambda>s1.
     rbind (upd_thread s1 wake (\<lambda>th. th\<lparr>sleeps_on := 0, next_t := -1\<rparr>)) (\<lambda>s2.
     rbind (get_thread s2 wake) (\<lambda>w2.
       if state w2 = THREAD_SLEEPING
       then rbind (upd_thread s2 wake (\<lambda>th. th\<lparr>state := THREAD_READY\<rparr>)) (\<lambda>s3.
            rbind (scheduler_add_to_ready_list s3 wake) (\<lambda>s4. Inr (next_t w, s4)))
       else Inr (next_t w, s2)))))"

definition sleepq_wake :: "kstate \<Rightarrow> u32 \<Rightarrow> kstate ores" where
  "sleepq_wake s resource =
     obind (Some (aget (sleepq_hashtable s) (int (SLEEPQ_HASH resource)))) (\<lambda>first0.
     obind (find_waiter (thread_table s) resource (-1) first0) (\<lambda>(prev, first).
       if first > 0
       then Some (rbind (unlink_wake s (SLEEPQ_HASH resource) prev first) (\<lambda>(_, s'). Inr s'))
       else Some (Inr s)))"

partial_function (option) wake_all_loop :: "kstate \<Rightarrow> u32 \<Rightarrow> int \<Rightarrow> int \<Rightarrow> kstate ores" where
  "wake_all_loop s resource prev first =
     (if first > 0 then
        obind (find_waiter (thread_table s) resource prev first) (\<lambda>(prev', first').
          if first' > 0 then
            obind (Some (unlink_wake s (SLEEPQ_HASH resource) prev' first')) (\<lambda>(first'', s').
              wake_all_loop s' resource prev' first'')
          else wake_all_loop s resource prev' first')
      else Some (Inr s))"

definition sleepq_wake_all :: "kstate \<Rightarrow> u32 \<Rightarrow> kstate ores" where
  "sleepq_wake_all s resource =
     obind (Some (aget (sleepq_hashtable s) (int (SLEEPQ_HASH resource)))) (\<lambda>first.
       wake_all_loop s resource (-1) first)"

section \<open>The invariant\<close>

text \<open>
  \<open>rs\<close> is the ready list, \<open>qs\<close> the lists of the buckets, \<open>cur\<close> the threads on the
  processors. First the shape of the lists, then what each thread is on.
\<close>

definition kshape :: "kstate \<Rightarrow> int list \<Rightarrow> int list \<Rightarrow> (nat \<Rightarrow> int list) \<Rightarrow> bool" where
  "kshape s cur rs qs \<longleftrightarrow> ready_queue s rs
     \<and> length (sleepq_hashtable s) = SLEEPQ_HASHTABLE_SIZE
     \<and> (\<forall>h < SLEEPQ_HASHTABLE_SIZE. chain (thread_table s) (sleepq_hashtable s ! h) (qs h) \<and> distinct (qs h))
     \<and> length cur = CONFIG_MAX_CPUS \<and> length (timer_ticks s) = CONFIG_MAX_CPUS
     \<and> (\<forall>t \<in> set cur. t = 0 \<or> tid_ok t) \<and> distinct (filter (\<lambda>t. t \<noteq> 0) cur)
     \<and> sleeps_on (th s 0) = 0 \<and> state (th s 0) \<noteq> THREAD_DYING"

definition kthread :: "thread_table_t \<Rightarrow> int list \<Rightarrow> int list \<Rightarrow> (nat \<Rightarrow> int list) \<Rightarrow> int \<Rightarrow> bool" where
  "kthread e cur rs qs t \<longleftrightarrow>
     (t \<in> set rs \<longleftrightarrow> state e = THREAD_READY)
     \<and> (\<forall>h < SLEEPQ_HASHTABLE_SIZE. t \<in> set (qs h) \<longleftrightarrow> sleeps_on e \<noteq> 0 \<and> h = SLEEPQ_HASH (sleeps_on e))
     \<and> (t \<in> set cur \<longleftrightarrow> state e = THREAD_RUNNING \<or> state e = THREAD_DYING)
     \<and> (sleeps_on e \<noteq> 0 \<longrightarrow> state e = THREAD_SLEEPING \<or> state e = THREAD_RUNNING)
     \<and> (state e = THREAD_SLEEPING \<longrightarrow> sleeps_on e \<noteq> 0)"

definition kinv_on :: "kstate \<Rightarrow> int list \<Rightarrow> int list \<Rightarrow> (nat \<Rightarrow> int list) \<Rightarrow> bool" where
  "kinv_on s cur rs qs \<longleftrightarrow> kshape s cur rs qs \<and> (\<forall>t. tid_ok t \<longrightarrow> kthread (th s t) cur rs qs t)"

definition kinv :: "kstate \<Rightarrow> int list \<Rightarrow> (nat \<Rightarrow> int list) \<Rightarrow> bool" where
  "kinv s rs qs \<longleftrightarrow> kinv_on s (scheduler_current_thread s) rs qs"

text \<open>The threads that wait for a resource, in the order in which they went to sleep.\<close>

definition waiting :: "kstate \<Rightarrow> (nat \<Rightarrow> int list) \<Rightarrow> u32 \<Rightarrow> int list" where
  "waiting s qs r = filter (\<lambda>t. sleeps_on (th s t) = r) (qs (SLEEPQ_HASH r))"

lemma hash_less [simp]: "SLEEPQ_HASH r < 127"
  by (simp add: SLEEPQ_HASH_def)

lemma kinv_table_length: "kinv_on s cur rs qs \<Longrightarrow> length (thread_table s) = 32"
  by (simp add: kinv_on_def kshape_def ready_queue_def)

lemma kinv_thread: "kinv_on s cur rs qs \<Longrightarrow> tid_ok t \<Longrightarrow> kthread (th s t) cur rs qs t"
  by (simp add: kinv_on_def)

lemma kinv_bucket:
  "kinv_on s cur rs qs \<Longrightarrow> h < 127 \<Longrightarrow> chain (thread_table s) (sleepq_hashtable s ! h) (qs h) \<and> distinct (qs h)"
  by (simp add: kinv_on_def kshape_def)

text \<open>The invariant for all threads but one, which an operation is moving between lists.\<close>

definition kinv_but :: "int \<Rightarrow> kstate \<Rightarrow> int list \<Rightarrow> int list \<Rightarrow> (nat \<Rightarrow> int list) \<Rightarrow> bool" where
  "kinv_but t s cur rs qs \<longleftrightarrow> tid_ok t \<and> kshape s cur rs qs
     \<and> (\<forall>u. tid_ok u \<and> u \<noteq> t \<longrightarrow> kthread (th s u) cur rs qs u)"

lemma kinv_but_on: "kinv_on s cur rs qs \<Longrightarrow> tid_ok t \<Longrightarrow> kinv_but t s cur rs qs"
  by (simp add: kinv_but_def kinv_on_def)

lemma kinv_on_but: "kinv_but t s cur rs qs \<Longrightarrow> kthread (th s t) cur rs qs t \<Longrightarrow> kinv_on s cur rs qs"
  by (auto simp: kinv_but_def kinv_on_def)

lemma kthread_cong:
  "kthread e cur rs qs u \<Longrightarrow> state e' = state e \<Longrightarrow> sleeps_on e' = sleeps_on e
    \<Longrightarrow> (u \<in> set rs' \<longleftrightarrow> u \<in> set rs) \<Longrightarrow> (u \<in> set cur' \<longleftrightarrow> u \<in> set cur)
    \<Longrightarrow> (\<And>h. h < 127 \<Longrightarrow> u \<in> set (qs' h) \<longleftrightarrow> u \<in> set (qs h)) \<Longrightarrow> kthread e' cur' rs' qs' u"
  by (simp add: kthread_def)

lemma kshape_set:
  assumes shape: "kshape s cur rs qs" and t: "tid_ok t"
    and x: "next_t x = next_t (th s t) \<or> t \<notin> set rs \<and> (\<forall>h < 127. t \<notin> set (qs h))"
  shows "kshape (s\<lparr>thread_table := (thread_table s)[nat t := x]\<rparr>) cur rs qs"
  using shape x tid_okD [OF t] by (auto simp: kshape_def ready_queue_def intro!: chain_upd)

text \<open>
  Storing the final entry of the moving thread.
\<close>

lemma kinv_set:
  assumes but: "kinv_but t s cur rs qs" and x: "kthread x cur rs qs t"
    and n: "next_t x = next_t (th s t) \<or> t \<notin> set rs \<and> (\<forall>h < 127. t \<notin> set (qs h))"
  shows "kinv_on (s\<lparr>thread_table := (thread_table s)[nat t := x]\<rparr>) cur rs qs"
proof -
  have t: "tid_ok t" and shape: "kshape s cur rs qs" using but by (auto simp: kinv_but_def)
  then have l: "nat t < length (thread_table s)" by (auto simp: kshape_def ready_queue_def tid_ok_def)
  have "kthread ((thread_table s)[nat t := x] ! nat u) cur rs qs u" if "tid_ok u" for u
    using that but t l x by (cases "u = t") (auto simp: kinv_but_def nat_inj tid_ok_def)
  then show ?thesis using kshape_set [OF shape t n] by (simp add: kinv_on_def)
qed

lemma cur_drop:
  assumes "c < length cur" "cur ! c = t" "t \<noteq> 0" "distinct (filter (\<lambda>t. t \<noteq> 0) cur)"
  shows "set (cur[c := 0]) - {0} = set cur - {0, t}" "distinct (filter (\<lambda>t. t \<noteq> 0) (cur[c := 0]))"
proof -
  have split: "cur = take c cur @ t # drop (Suc c) cur" using assms(1,2) by (metis id_take_nth_drop)
  have upd: "cur[c := 0] = take c cur @ 0 # drop (Suc c) cur" using assms(1) by (simp add: upd_conv_take_nth_drop)
  have "distinct (filter (\<lambda>t. t \<noteq> 0) (take c cur @ t # drop (Suc c) cur))" using split assms(4) by metis
  then have d: "t \<notin> set (take c cur)" "t \<notin> set (drop (Suc c) cur)"
    "distinct (filter (\<lambda>t. t \<noteq> 0) (take c cur @ drop (Suc c) cur))"
    using assms(3) by auto
  show "set (cur[c := 0]) - {0} = set cur - {0, t}"
    using d by (subst split, subst upd) auto
  show "distinct (filter (\<lambda>t. t \<noteq> 0) (cur[c := 0]))" using d(3) by (subst upd) simp
qed

lemma cur_put:
  assumes "c < length cur" "cur ! c = 0" "t \<notin> set cur" "t \<noteq> 0" "distinct (filter (\<lambda>t. t \<noteq> 0) cur)"
  shows "set (cur[c := t]) - {0} = insert t (set cur - {0})" "distinct (filter (\<lambda>t. t \<noteq> 0) (cur[c := t]))"
proof -
  have split: "cur = take c cur @ 0 # drop (Suc c) cur" using assms(1,2) by (metis id_take_nth_drop)
  have upd: "cur[c := t] = take c cur @ t # drop (Suc c) cur" using assms(1) by (simp add: upd_conv_take_nth_drop)
  have "distinct (filter (\<lambda>t. t \<noteq> 0) (take c cur @ 0 # drop (Suc c) cur))" using split assms(5) by metis
  then have d: "distinct (filter (\<lambda>t. t \<noteq> 0) (take c cur @ drop (Suc c) cur))" by simp
  have n: "t \<notin> set (take c cur)" "t \<notin> set (drop (Suc c) cur)"
    using assms(3) by (auto dest: in_set_takeD in_set_dropD)
  show "set (cur[c := t]) - {0} = insert t (set cur - {0})"
    using assms(4) by (subst split, subst upd) auto
  show "distinct (filter (\<lambda>t. t \<noteq> 0) (cur[c := t]))" using d n by (subst upd) auto
qed

lemma drop_cpu:
  assumes but: "kinv_but t s cur rs qs" and c: "c < 4" "cur ! c = t"
  shows "kinv_but t s (cur[c := 0]) rs qs" "t \<notin> set (cur[c := 0])"
proof -
  have h: "length cur = 4" "distinct (filter (\<lambda>t. t \<noteq> 0) cur)" "0 < t"
    using but by (auto simp: kinv_but_def kshape_def tid_ok_def)
  note cd = cur_drop [of c cur t]
  have eq: "set (cur[c := 0]) - {0} = set cur - {0, t}" using cd(1) h c by simp
  then have mem: "u \<in> set (cur[c := 0]) \<longleftrightarrow> u \<in> set cur" if "tid_ok u" "u \<noteq> t" for u
    using that by (auto simp: tid_ok_def)
  show "t \<notin> set (cur[c := 0])" using eq h(3) by auto
  have "\<forall>u \<in> set (cur[c := 0]). u = 0 \<or> tid_ok u"
    using but set_update_subset_insert [of cur c 0] by (auto simp: kinv_but_def kshape_def)
  then have "kshape s (cur[c := 0]) rs qs"
    using but cd(2) h c by (simp add: kinv_but_def kshape_def)
  moreover have "kthread (th s u) (cur[c := 0]) rs qs u" if u: "tid_ok u" "u \<noteq> t" for u
    using but u mem [OF u] by (auto simp: kinv_but_def intro: kthread_cong)
  ultimately show "kinv_but t s (cur[c := 0]) rs qs" using but by (simp add: kinv_but_def)
qed

section \<open>Making a thread ready\<close>

definition made_ready :: "kstate \<Rightarrow> int list \<Rightarrow> int \<Rightarrow> thread_table_t list \<Rightarrow> bool" where
  "made_ready s rs t tab \<longleftrightarrow> length tab = 32
     \<and> chain tab (if rs = [] then t else ready_head s) (rs @ [t])
     \<and> state (tab ! nat t) = THREAD_READY \<and> sleeps_on (tab ! nat t) = sleeps_on (th s t)
     \<and> (\<forall>u. 0 \<le> u \<and> u < 32 \<and> u \<noteq> t \<longrightarrow> state (tab ! nat u) = state (th s u) \<and> sleeps_on (tab ! nat u) = sleeps_on (th s u))
     \<and> (\<forall>u. 0 \<le> u \<and> u \<noteq> t \<and> u \<notin> set rs \<longrightarrow> tab ! nat u = th s u)"

definition with_ready :: "kstate \<Rightarrow> int list \<Rightarrow> int \<Rightarrow> thread_table_t list \<Rightarrow> kstate" where
  "with_ready s rs t tab = s\<lparr>thread_table := tab,
     ready_head := (if rs = [] then t else ready_head s), ready_tail := t\<rparr>"

lemma made_ready_sleep:
  "made_ready s rs t tab \<Longrightarrow> 0 \<le> u \<Longrightarrow> u < 32 \<Longrightarrow> sleeps_on (tab ! nat u) = sleeps_on (th s u)"
  by (cases "u = t") (auto simp: made_ready_def)

lemma add_ready_made:
  assumes q: "ready_queue s rs" and t: "tid_ok t" "t \<notin> set rs"
  shows "\<exists>tab. scheduler_add_ready s t = Inr (with_ready s rs t tab) \<and> made_ready s rs t tab"
proof -
  note tt = tid_okD [OF t(1)]
  have l: "length (thread_table s) = 32" using q by (simp add: ready_queue_def)
  from add_to_ready_list [OF q t] obtain tab where tab:
    "scheduler_add_to_ready_list s t = Inr (with_ready s rs t tab)"
    "chain tab (if rs = [] then t else ready_head s) (rs @ [t])" "same_but_links (thread_table s) tab"
    "\<forall>u. 0 \<le> u \<longrightarrow> u \<noteq> t \<longrightarrow> u \<notin> set rs \<longrightarrow> tab ! nat u = th s u"
    unfolding with_ready_def by blast
  have l': "length tab = 32" using l same_but_links_length [OF tab(3)] by simp
  let ?tab = "tab[nat t := (tab ! nat t)\<lparr>state := THREAD_READY\<rparr>]"
  have "scheduler_add_ready s t = Inr (with_ready s rs t ?tab)"
    using tab(1) tt l' by (simp add: scheduler_add_ready_def upd_thread_eq with_ready_def)
  moreover have "chain ?tab (if rs = [] then t else ready_head s) (rs @ [t])"
    using tab(2) tt by (intro chain_upd) auto
  ultimately show ?thesis
    using tt l l' tab(4) same_but_links_fields [OF tab(3)]
    by (intro exI [of _ ?tab]) (auto simp: made_ready_def nat_inj nat_less_iff)
qed

lemma ready_add_made:
  assumes q: "ready_queue s rs" and t: "tid_ok t" "t \<notin> set rs"
  shows "\<exists>tab. rbind (upd_thread s t (\<lambda>th. th\<lparr>state := THREAD_READY\<rparr>)) (\<lambda>s'. scheduler_add_to_ready_list s' t)
      = Inr (with_ready s rs t tab) \<and> made_ready s rs t tab"
proof -
  note tt = tid_okD [OF t(1)]
  have l: "length (thread_table s) = 32" using q by (simp add: ready_queue_def)
  let ?s1 = "s\<lparr>thread_table := (thread_table s)[nat t := (th s t)\<lparr>state := THREAD_READY\<rparr>]\<rparr>"
  have "ready_queue ?s1 rs" using q t tt by (auto simp: ready_queue_def intro!: chain_upd)
  from add_to_ready_list [OF this t] obtain tab where tab:
    "scheduler_add_to_ready_list ?s1 t = Inr (with_ready s rs t tab)"
    "chain tab (if rs = [] then t else ready_head s) (rs @ [t])" "same_but_links (thread_table ?s1) tab"
    "\<forall>u. 0 \<le> u \<longrightarrow> u \<noteq> t \<longrightarrow> u \<notin> set rs \<longrightarrow> tab ! nat u = th ?s1 u"
    by (auto simp: with_ready_def cong: if_cong)
  have l': "length tab = 32" using l same_but_links_length [OF tab(3)] by simp
  have "made_ready s rs t tab"
    using tt l l' tab(2,4) same_but_links_fields [OF tab(3)]
    by (auto simp: made_ready_def nat_inj nat_less_iff)
  with tab(1) show ?thesis using tt l by (auto simp: upd_thread_eq)
qed

lemma made_ready_kinv:
  assumes but: "kinv_but t s cur rs qs" and out: "t \<notin> set rs" "\<And>h. h < 127 \<Longrightarrow> t \<notin> set (qs h)" "t \<notin> set cur"
    and so: "sleeps_on (th s t) = 0" and made: "made_ready s rs t tab"
  shows "kinv_on (with_ready s rs t tab) cur (rs @ [t]) qs"
proof -
  have t: "tid_ok t" and shape: "kshape s cur rs qs" using but by (auto simp: kinv_but_def)
  have disj: "u \<notin> set rs" if "h < 127" "u \<in> set (qs h)" for h u
  proof -
    have "chain (thread_table s) (sleepq_hashtable s ! h) (qs h)" using shape that(1) by (simp add: kshape_def)
    then have "tid_ok u" using chain_tids that(2) by blast
    moreover have "u \<noteq> t" using out(2) that by blast
    ultimately have "kthread (th s u) cur rs qs u" using but by (simp add: kinv_but_def)
    then show ?thesis using that by (auto simp: kthread_def)
  qed
  have "chain tab (sleepq_hashtable s ! h) (qs h)" if h: "h < 127" for h
  proof (rule chain_frame [of "thread_table s"])
    show c: "chain (thread_table s) (sleepq_hashtable s ! h) (qs h)" using shape h by (simp add: kshape_def)
    show "next_t (tab ! nat u) = next_t (th s u)" if u: "u \<in> set (qs h)" for u
    proof -
      have "u \<noteq> t" using u out(2) h by blast
      moreover have "0 \<le> u" using chain_tids [OF c] u by (auto simp: tid_ok_def)
      ultimately show ?thesis using made disj [OF h u] by (simp add: made_ready_def)
    qed
  qed
  then have "kshape (with_ready s rs t tab) cur (rs @ [t]) qs"
    using shape made out(1) t
    by (auto simp: kshape_def ready_queue_def with_ready_def made_ready_def ends_at_def tid_ok_def)
  moreover have "kthread (tab ! nat u) cur (rs @ [t]) qs u" if u: "tid_ok u" for u
  proof (cases "u = t")
    case True
    then show ?thesis using made so out by (auto simp: made_ready_def kthread_def)
  next
    case False
    have "kthread (th s u) cur rs qs u" using but u False by (simp add: kinv_but_def)
    then show ?thesis
      by (rule kthread_cong) (use made u False in \<open>auto simp: made_ready_def tid_ok_def\<close>)
  qed
  ultimately show ?thesis by (simp add: kinv_on_def with_ready_def)
qed

section \<open>Scheduling\<close>

lemma kinv_set_idle:
  assumes inv: "kinv_on s cur rs qs" and x: "next_t x = next_t (th s 0)" "sleeps_on x = 0" "state x \<noteq> THREAD_DYING"
  shows "kinv_on (s\<lparr>thread_table := (thread_table s)[0 := x]\<rparr>) cur rs qs"
proof -
  have shape: "kshape s cur rs qs" using inv by (simp add: kinv_on_def)
  have "chain ((thread_table s)[nat 0 := x]) p ts" if "chain (thread_table s) p ts" for p ts
    using that x(1) by (intro chain_upd) auto
  then have "kshape (s\<lparr>thread_table := (thread_table s)[0 := x]\<rparr>) cur rs qs"
    using shape x by (auto simp: kshape_def ready_queue_def)
  then show ?thesis using inv by (auto simp: kinv_on_def tid_ok_def)
qed

lemma kinv_on_ready: "kinv_on s cur rs qs \<Longrightarrow> t \<in> set rs \<Longrightarrow> tid_ok t \<and> state (th s t) = THREAD_READY"
proof -
  assume inv: "kinv_on s cur rs qs" and t: "t \<in> set rs"
  then have "tid_ok t" using chain_tids by (auto simp: kinv_on_def kshape_def ready_queue_def)
  with kinv_thread [OF inv this] t show ?thesis by (simp add: kthread_def)
qed

text \<open>
  The second half of the scheduler: the first ready thread gets the processor.
\<close>

lemma pop_ready:
  assumes inv: "kinv_on s cur rs qs" and c: "c < 4" "cur ! c = 0"
  defines "t \<equiv> if rs = [] then 0 else hd rs"
  shows "\<exists>h e. scheduler_remove_first_ready s = Inr (t, s\<lparr>ready_head := h, ready_tail := e\<rparr>)
    \<and> kinv_on (s\<lparr>ready_head := h, ready_tail := e,
          thread_table := (thread_table s)[nat t := (th s t)\<lparr>state := THREAD_RUNNING\<rparr>]\<rparr>) (cur[c := t]) (tl rs) qs"
proof -
  have shape: "kshape s cur rs qs" and q: "ready_queue s rs" using inv by (auto simp: kinv_on_def kshape_def)
  obtain h e where he: "scheduler_remove_first_ready s = Inr (t, s\<lparr>ready_head := h, ready_tail := e\<rparr>)"
    "chain (thread_table s) h (tl rs)" "ends_at e (tl rs)"
    using remove_first_ready [OF q] kinv_on_ready [OF inv] by (auto simp: t_def)
  let ?s1 = "s\<lparr>ready_head := h, ready_tail := e\<rparr>"
  have shape1: "kshape ?s1 cur (tl rs) qs"
    using shape he(2,3) q by (auto simp: kshape_def ready_queue_def distinct_tl)
  have "kinv_on (?s1\<lparr>thread_table := (thread_table ?s1)[nat t := (th ?s1 t)\<lparr>state := THREAD_RUNNING\<rparr>]\<rparr>) (cur[c := t]) (tl rs) qs"
  proof (cases "rs = []")
    case True
    then have "kinv_on ?s1 cur rs qs" using inv shape1 by (simp add: kinv_on_def)
    moreover have "cur[c := 0] = cur" using c(2) by (metis list_update_id)
    ultimately show ?thesis
      using kinv_set_idle [of ?s1 cur rs qs "(th s 0)\<lparr>state := THREAD_RUNNING\<rparr>"] shape True
      by (simp add: t_def kshape_def)
  next
    case False
    then have t: "t \<in> set rs" "rs = t # tl rs" by (auto simp: t_def)
    then have tr: "tid_ok t" "state (th s t) = THREAD_READY" using kinv_on_ready [OF inv] by auto
    have kt: "kthread (th s t) cur rs qs t" using kinv_thread [OF inv tr(1)] .
    then have tc: "t \<notin> set cur" "sleeps_on (th s t) = 0" using tr by (auto simp: kthread_def)
    have t0: "t \<noteq> 0" using tr by (auto simp: tid_ok_def)
    have ntl: "t \<notin> set (tl rs)" using q t(2) by (metis distinct.simps(2) ready_queue_def)
    have cur: "set (cur[c := t]) - {0} = insert t (set cur - {0})" "distinct (filter (\<lambda>t. t \<noteq> 0) (cur[c := t]))"
      using cur_put [of c cur t] c tc(1) t0 shape by (auto simp: kshape_def)
    have mem: "u \<in> set (cur[c := t]) \<longleftrightarrow> u \<in> set cur" if "tid_ok u" "u \<noteq> t" for u
      using cur(1) that by (auto simp: tid_ok_def)
    have tin: "t \<in> set (cur[c := t])" using cur(1) by blast
    have "\<forall>u \<in> set (cur[c := t]). u = 0 \<or> tid_ok u"
      using shape tr(1) set_update_subset_insert [of cur c t] by (auto simp: kshape_def)
    then have "kshape ?s1 (cur[c := t]) (tl rs) qs" using shape1 cur(2) by (simp add: kshape_def)
    moreover have "kthread (th s u) (cur[c := t]) (tl rs) qs u" if u: "tid_ok u" "u \<noteq> t" for u
    proof (rule kthread_cong [OF kinv_thread [OF inv u(1)]])
      show "u \<in> set (tl rs) \<longleftrightarrow> u \<in> set rs" using t(2) u(2) by (metis set_ConsD list.set_intros(2))
    qed (use mem [OF u] in simp_all)
    ultimately have "kinv_but t ?s1 (cur[c := t]) (tl rs) qs" using tr(1) by (simp add: kinv_but_def)
    then show ?thesis
      by (rule kinv_set) (use kt tc tin ntl in \<open>auto simp: kthread_def\<close>)
  qed
  then show ?thesis using he(1) by (intro exI [of _ h] exI [of _ e]) simp
qed

text \<open>What the thread that leaves the processor does to the ready list.\<close>

definition requeued :: "kstate \<Rightarrow> nat \<Rightarrow> int list \<Rightarrow> int list" where
  "requeued s c rs =
     (let t = scheduler_current_thread s ! c
      in if t \<noteq> 0 \<and> state (th s t) \<noteq> THREAD_DYING \<and> sleeps_on (th s t) = 0 then rs @ [t] else rs)"

definition leave_cpu :: "kstate \<Rightarrow> int \<Rightarrow> kstate res" where
  "leave_cpu s cur =
     rbind (get_thread s cur) (\<lambda>current_thread.
       if state current_thread = THREAD_DYING
       then upd_thread s cur (\<lambda>th. th\<lparr>state := THREAD_FREE\<rparr>)
       else if sleeps_on current_thread \<noteq> 0
       then upd_thread s cur (\<lambda>th. th\<lparr>state := THREAD_SLEEPING\<rparr>)
       else rbind (if cur \<noteq> IDLE_THREAD_TID then scheduler_add_to_ready_list s cur else Inr s) (\<lambda>s1.
            upd_thread s1 cur (\<lambda>th. th\<lparr>state := THREAD_READY\<rparr>)))"

definition same_sleep :: "kstate \<Rightarrow> kstate \<Rightarrow> bool" where
  "same_sleep s s' \<longleftrightarrow> (\<forall>u. 0 \<le> u \<and> u < 32 \<longrightarrow> sleeps_on (th s' u) = sleeps_on (th s u))
     \<and> scheduler_current_thread s' = scheduler_current_thread s \<and> timer_ticks s' = timer_ticks s
     \<and> length (thread_table s') = 32"

lemma leave_cpu_kinv:
  assumes inv: "kinv s rs qs" and c: "c < 4"
  defines "t \<equiv> scheduler_current_thread s ! c"
  shows "\<exists>s'. leave_cpu s t = Inr s' \<and> kinv_on s' ((scheduler_current_thread s)[c := 0]) (requeued s c rs) qs
    \<and> same_sleep s s'"
proof -
  let ?cur = "scheduler_current_thread s"
  have inv': "kinv_on s ?cur rs qs" using inv by (simp add: kinv_def)
  then have shape: "kshape s ?cur rs qs" by (simp add: kinv_on_def)
  then have l: "length (thread_table s) = 32" "length ?cur = 4" by (auto simp: kshape_def ready_queue_def)
  show ?thesis
  proof (cases "t = 0")
    case True
    have "?cur[c := 0] = ?cur" using True by (metis list_update_id t_def)
    then show ?thesis
      using True shape kinv_set_idle [OF inv', of "(th s 0)\<lparr>state := THREAD_READY\<rparr>"] l
      by (auto simp: leave_cpu_def get_thread_eq upd_thread_eq kshape_def requeued_def t_def [symmetric] same_sleep_def
          nth_list_update)
  next
    case False
    then have tok: "tid_ok t" using shape c nth_mem [of c ?cur] l(2) by (auto simp: kshape_def t_def)
    note tt = tid_okD [OF tok]
    have tin: "t \<in> set ?cur" using c l(2) by (simp add: t_def)
    have kt: "kthread (th s t) ?cur rs qs t" using kinv_thread [OF inv' tok] .
    have but: "kinv_but t s (?cur[c := 0]) rs qs" "t \<notin> set (?cur[c := 0])"
      using drop_cpu [OF kinv_but_on [OF inv' tok] c] by (auto simp: t_def)
    have st: "state (th s t) = THREAD_RUNNING \<or> state (th s t) = THREAD_DYING" and trs: "t \<notin> set rs"
      using kt tin by (auto simp: kthread_def)
    show ?thesis
    proof (cases "state (th s t) = THREAD_DYING \<or> sleeps_on (th s t) \<noteq> 0")
      case True
      define x where "x = (th s t)\<lparr>state := (if state (th s t) = THREAD_DYING then THREAD_FREE else THREAD_SLEEPING)\<rparr>"
      have "kthread x (?cur[c := 0]) rs qs t" using kt but(2) True st trs by (auto simp: kthread_def x_def)
      then have "kinv_on (s\<lparr>thread_table := (thread_table s)[nat t := x]\<rparr>) (?cur[c := 0]) rs qs"
        by (rule kinv_set [OF but(1)]) (simp add: x_def)
      moreover have "leave_cpu s t = Inr (s\<lparr>thread_table := (thread_table s)[nat t := x]\<rparr>)"
        using True tt l by (auto simp: leave_cpu_def get_thread_eq upd_thread_eq x_def)
      ultimately show ?thesis
        using True l tt by (auto simp: requeued_def t_def [symmetric] same_sleep_def x_def nth_list_update)
    next
      case False
      have "ready_queue s rs" using shape by (simp add: kshape_def)
      from add_ready_made [OF this tok trs] obtain tab where tab:
        "scheduler_add_ready s t = Inr (with_ready s rs t tab)" "made_ready s rs t tab" by blast
      have "kinv_on (with_ready s rs t tab) (?cur[c := 0]) (rs @ [t]) qs"
        by (rule made_ready_kinv [OF but(1) trs _ but(2) _ tab(2)])
          (use False kt in \<open>auto simp: kthread_def\<close>)
      moreover have "leave_cpu s t = Inr (with_ready s rs t tab)"
        using False tt l tab(1) \<open>t \<noteq> 0\<close> by (simp add: leave_cpu_def get_thread_eq scheduler_add_ready_def)
      moreover have "same_sleep s (with_ready s rs t tab)"
        using made_ready_sleep [OF tab(2)] tab(2) by (simp add: same_sleep_def with_ready_def made_ready_def)
      ultimately show ?thesis
        using False \<open>t \<noteq> 0\<close> by (auto simp: requeued_def t_def [symmetric])
    qed
  qed
qed

lemma schedule_split:
  "scheduler_schedule s c rnd =
     rbind (aget (scheduler_current_thread s) (int c)) (\<lambda>cur.
     rbind (leave_cpu s cur) (\<lambda>s2.
     rbind (scheduler_remove_first_ready s2) (\<lambda>(t, s3).
     rbind (upd_thread s3 t (\<lambda>th. th\<lparr>state := THREAD_RUNNING\<rparr>)) (\<lambda>s4.
     rbind (aset (scheduler_current_thread s4) (int c) t) (\<lambda>curs.
     rbind (aset (timer_ticks s4) (int c) (rnd + 750 div 2)) (\<lambda>tm.
       Inr (s4\<lparr>scheduler_current_thread := curs, timer_ticks := tm\<rparr>)))))))"
  by (simp add: scheduler_schedule_def leave_cpu_def rbind_assoc if_distrib [of "\<lambda>m. rbind m _"])

lemma kinv_on_frame:
  "kinv_on s cur rs qs \<Longrightarrow> length tm = 4 \<Longrightarrow> kinv_on (s\<lparr>scheduler_current_thread := c, timer_ticks := tm\<rparr>) cur rs qs"
  by (simp add: kinv_on_def kshape_def ready_queue_def)

lemma schedule_kinv:
  assumes inv: "kinv s rs qs" and c: "c < 4"
  defines "rq \<equiv> requeued s c rs"
  defines "t \<equiv> if rq = [] then 0 else hd rq"
  shows "\<exists>s'. scheduler_schedule s c rnd = Inr s' \<and> kinv s' (tl rq) qs
    \<and> scheduler_current_thread s' = (scheduler_current_thread s)[c := t]
    \<and> (\<forall>u. 0 \<le> u \<and> u < 32 \<longrightarrow> sleeps_on (th s' u) = sleeps_on (th s u))"
proof -
  let ?cur = "scheduler_current_thread s"
  obtain s2 where s2: "leave_cpu s (?cur ! c) = Inr s2" "kinv_on s2 (?cur[c := 0]) rq qs" "same_sleep s s2"
    using leave_cpu_kinv [OF inv c] by (auto simp: rq_def)
  have l: "length ?cur = 4" "length (timer_ticks s) = 4" using inv by (auto simp: kinv_def kinv_on_def kshape_def)
  obtain h e where he: "scheduler_remove_first_ready s2 = Inr (t, s2\<lparr>ready_head := h, ready_tail := e\<rparr>)"
    "kinv_on (s2\<lparr>ready_head := h, ready_tail := e,
       thread_table := (thread_table s2)[nat t := (th s2 t)\<lparr>state := THREAD_RUNNING\<rparr>]\<rparr>) (?cur[c := t]) (tl rq) qs"
    using pop_ready [OF s2(2) c] c l(1) by (auto simp: t_def)
  let ?s4 = "s2\<lparr>ready_head := h, ready_tail := e,
       thread_table := (thread_table s2)[nat t := (th s2 t)\<lparr>state := THREAD_RUNNING\<rparr>]\<rparr>"
  let ?s5 = "?s4\<lparr>scheduler_current_thread := ?cur[c := t], timer_ticks := (timer_ticks s)[c := rnd + 750 div 2]\<rparr>"
  have same: "scheduler_current_thread s2 = ?cur" "timer_ticks s2 = timer_ticks s" "length (thread_table s2) = 32"
    using s2(3) by (auto simp: same_sleep_def)
  have t: "0 \<le> t" "t < 32" using kinv_on_ready [OF s2(2), of t] by (auto simp: t_def tid_ok_def)
  then have "upd_thread (s2\<lparr>ready_head := h, ready_tail := e\<rparr>) t (\<lambda>th. th\<lparr>state := THREAD_RUNNING\<rparr>) = Inr ?s4"
    using same(3) by (simp add: upd_thread_eq nat_less_iff)
  then have "scheduler_schedule s c rnd = Inr ?s5"
    using s2(1) he(1) c l same by (simp add: schedule_split)
  moreover have "kinv ?s5 (tl rq) qs"
    using kinv_on_frame [OF he(2), of "(timer_ticks s)[c := rnd + 750 div 2]" "?cur[c := t]"] l
    by (simp add: kinv_def)
  moreover have "sleeps_on (th ?s5 u) = sleeps_on (th s u)" if "0 \<le> u" "u < 32" for u
    using s2(3) that t same(3) by (auto simp: same_sleep_def nth_list_update nat_inj nat_less_iff)
  ultimately show ?thesis by (intro exI [of _ ?s5]) simp
qed

lemma kinv_add_ready:
  assumes inv: "kinv s rs qs" and t: "tid_ok t" "state (th s t) = THREAD_NONREADY"
  shows "\<exists>s'. scheduler_add_ready s t = Inr s' \<and> kinv s' (rs @ [t]) qs
    \<and> (\<forall>u. 0 \<le> u \<and> u < 32 \<longrightarrow> sleeps_on (th s' u) = sleeps_on (th s u))"
proof -
  have inv': "kinv_on s (scheduler_current_thread s) rs qs" using inv by (simp add: kinv_def)
  have kt: "kthread (th s t) (scheduler_current_thread s) rs qs t" using kinv_thread [OF inv' t(1)] .
  have trs: "t \<notin> set rs" using kt t(2) by (simp add: kthread_def)
  have "ready_queue s rs" using inv' by (simp add: kinv_on_def kshape_def)
  from add_ready_made [OF this t(1) trs] obtain tab where tab:
    "scheduler_add_ready s t = Inr (with_ready s rs t tab)" "made_ready s rs t tab" by blast
  have "kinv_on (with_ready s rs t tab) (scheduler_current_thread s) (rs @ [t]) qs"
    by (rule made_ready_kinv [OF kinv_but_on [OF inv' t(1)] trs _ _ _ tab(2)])
      (use kt t(2) in \<open>auto simp: kthread_def\<close>)
  then show ?thesis
    using tab(1) made_ready_sleep [OF tab(2)] by (auto simp: kinv_def with_ready_def)
qed

section \<open>Going to sleep\<close>

lemma last_in_bucket_chain:
  "chain tt p ts \<Longrightarrow> ts \<noteq> [] \<Longrightarrow> length tt = 32 \<Longrightarrow> last_in_bucket tt p = Some (Inr (last ts))"
proof (induction ts arbitrary: p)
  case (Cons t ts)
  then have t: "p = t" "0 < t" "nat t < 32" "chain tt (next_t (tt ! nat t)) ts" by (auto simp: tid_ok_def)
  have "next_t (tt ! nat t) > 0 \<longleftrightarrow> ts \<noteq> []"
    using t(4) chain_tids [OF t(4)] by (cases ts) (auto simp: tid_ok_def)
  with Cons t show ?case
    by (subst last_in_bucket.simps) (auto simp: aget_def nat_less_iff)
qed simp

lemma bucket_disjoint:
  assumes but: "kinv_but t s cur rs qs" and u: "u \<in> set (qs h)" "u \<noteq> t" and h: "h < 127"
  shows "tid_ok u" "u \<notin> set rs" "h' < 127 \<Longrightarrow> u \<in> set (qs h') \<Longrightarrow> h' = h"
proof -
  have "chain (thread_table s) (sleepq_hashtable s ! h) (qs h)" using but h by (simp add: kinv_but_def kshape_def)
  then show tok: "tid_ok u" using chain_tids u(1) by blast
  then have "kthread (th s u) cur rs qs u" using but u by (simp add: kinv_but_def)
  then show "u \<notin> set rs" "h' < 127 \<Longrightarrow> u \<in> set (qs h') \<Longrightarrow> h' = h"
    using u(1) h by (auto simp: kthread_def)
qed

text \<open>
  Relinking the list of one bucket.
\<close>

lemma kshape_relink:
  assumes shape: "kshape s cur rs qs" and h: "h < 127"
    and bucket: "chain tt' p q'" "distinct q'" and l: "length tt' = 32" and z: "tt' ! 0 = th s 0"
    and same: "\<And>u. u \<in> set rs \<Longrightarrow> next_t (tt' ! nat u) = next_t (th s u)"
      "\<And>u h'. h' < 127 \<Longrightarrow> h' \<noteq> h \<Longrightarrow> u \<in> set (qs h') \<Longrightarrow> next_t (tt' ! nat u) = next_t (th s u)"
  shows "kshape (s\<lparr>thread_table := tt', sleepq_hashtable := (sleepq_hashtable s)[h := p]\<rparr>) cur rs (qs(h := q'))"
proof -
  have "chain tt' (ready_head s) rs"
    by (rule chain_frame [of "thread_table s"]) (use shape same(1) in \<open>auto simp: kshape_def ready_queue_def\<close>)
  moreover have "chain tt' (sleepq_hashtable s ! h') (qs h')" if "h' < 127" "h' \<noteq> h" for h'
    by (rule chain_frame [of "thread_table s"]) (use shape same(2) that in \<open>auto simp: kshape_def\<close>)
  ultimately show ?thesis
    using shape h bucket l z by (auto simp: kshape_def ready_queue_def nth_list_update)
qed

lemma sleepq_add_kinv:
  assumes inv: "kinv s rs qs" and c: "c < 4" and t: "scheduler_current_thread s ! c = t" "t \<noteq> 0"
    and run: "state (th s t) = THREAD_RUNNING" "sleeps_on (th s t) = 0"
    and intr: "intr AND 0xff00 = 0 \<or> intr AND 1 = 0" and r: "r \<noteq> 0"
  defines "h \<equiv> SLEEPQ_HASH r"
  shows "\<exists>s'. sleepq_add s c intr r = Some (Inr s') \<and> kinv s' rs (qs(h := qs h @ [t]))
    \<and> (\<forall>u. 0 \<le> u \<and> u < 32 \<longrightarrow> sleeps_on (th s' u) = (if u = t then r else sleeps_on (th s u))
         \<and> state (th s' u) = state (th s u))
    \<and> scheduler_current_thread s' = scheduler_current_thread s"
proof -
  let ?cur = "scheduler_current_thread s"
  have inv': "kinv_on s ?cur rs qs" using inv by (simp add: kinv_def)
  then have shape: "kshape s ?cur rs qs" by (simp add: kinv_on_def)
  have l: "length (thread_table s) = 32" "length ?cur = 4" "length (sleepq_hashtable s) = 127"
    using shape by (auto simp: kshape_def ready_queue_def)
  have tok: "tid_ok t" using shape c nth_mem [of c ?cur] l(2) t by (auto simp: kshape_def)
  note tt = tid_okD [OF tok]
  have kt: "kthread (th s t) ?cur rs qs t" using kinv_thread [OF inv' tok] .
  have out: "t \<notin> set rs" "\<And>h. h < 127 \<Longrightarrow> t \<notin> set (qs h)" using kt run by (auto simp: kthread_def)
  have h: "h < 127" by (simp add: h_def)
  define t1 where "t1 = (thread_table s)[nat t := (th s t)\<lparr>next_t := -1, sleeps_on := r\<rparr>]"
  define q where "q = qs h"
  have ch: "chain t1 (sleepq_hashtable s ! h) q" "distinct q"
    using shape h tt out by (auto simp: kshape_def q_def t1_def intro!: chain_upd)
  have lt1: "length t1 = 32" by (simp add: t1_def l)
  have t1t: "next_t (t1 ! nat t) = -1" using tt l by (simp add: t1_def)
  define t2 where "t2 = (if q = [] then t1 else t1[nat (last q) := (t1 ! nat (last q))\<lparr>next_t := t\<rparr>])"
  define p where "p = (if q = [] then t else sleepq_hashtable s ! h)"
  have lq: "q \<noteq> [] \<Longrightarrow> last q \<in> set q \<and> last q \<noteq> t \<and> tid_ok (last q)"
    using out(2) [OF h] chain_tids [OF ch(1)] q_def by (metis last_in_set)
  have t2u: "t2 ! nat u = (if u = t then (th s t)\<lparr>next_t := -1, sleeps_on := r\<rparr> else th s u)"
    if "0 \<le> u" "q = [] \<or> u \<noteq> last q" for u
    using that tt l lq by (cases "q = []") (auto simp: t2_def t1_def nat_inj tid_ok_def nth_list_update)
  have t2s: "state (t2 ! nat u) = state (th s u)" "sleeps_on (t2 ! nat u) = (if u = t then r else sleeps_on (th s u))"
    if "0 \<le> u" "u < 32" for u
    using that tt l lq by (cases "q = []"; auto simp: t2_def t1_def nat_inj tid_ok_def nth_list_update nat_less_iff)+
  have add: "sleepq_add s c intr r =
      Some (Inr (s\<lparr>thread_table := t2, sleepq_hashtable := (sleepq_hashtable s)[h := p]\<rparr>))"
  proof (cases "q = []")
    case True
    then have "sleepq_hashtable s ! h = -1" using ch by simp
    then show ?thesis
      using True intr c l t tt h by (auto simp: sleepq_add_def thread_get_current_thread_def upd_thread_eq h_def [symmetric]
          t1_def [symmetric] t2_def p_def)
  next
    case False
    then have "0 < sleepq_hashtable s ! h" using ch by (cases q) (auto simp: tid_ok_def)
    moreover have "last_in_bucket t1 (sleepq_hashtable s ! h) = Some (Inr (last q))"
      by (rule last_in_bucket_chain [OF ch(1) False]) (simp add: t1_def l)
    moreover have "(sleepq_hashtable s)[h := sleepq_hashtable s ! h] = sleepq_hashtable s" by simp
    ultimately show ?thesis
      using False intr c l t tt h lq [OF False] tid_okD [of "last q"]
      by (auto simp: sleepq_add_def thread_get_current_thread_def upd_thread_eq h_def [symmetric]
          t1_def [symmetric] t2_def p_def lt1)
  qed
  have newchain: "chain t2 p (q @ [t])"
    using ch tok out(2) [OF h] t1t l chain_snoc [of t1 "sleepq_hashtable s ! h" q t]
    by (auto simp: t2_def p_def q_def t1_def)
  have "kshape (s\<lparr>thread_table := t2, sleepq_hashtable := (sleepq_hashtable s)[h := p]\<rparr>) ?cur rs (qs(h := q @ [t]))"
  proof (rule kshape_relink [OF shape h newchain])
    note dis = bucket_disjoint [OF kinv_but_on [OF inv' tok], of _ h]
    show "distinct (q @ [t])" using ch out(2) [OF h] by (simp add: q_def)
    show "length t2 = 32" by (simp add: t2_def t1_def l)
    show "t2 ! 0 = th s 0" using t2u [of 0] tt lq by (cases "q = []") (auto simp: tid_ok_def)
    show "next_t (t2 ! nat u) = next_t (th s u)" if "u \<in> set rs" for u
    proof -
      have "0 \<le> u" using kinv_on_ready [OF inv' that] by (simp add: tid_ok_def)
      moreover have "q = [] \<or> u \<noteq> last q" using dis(2) [of "last q"] lq h that by (auto simp: q_def)
      ultimately show ?thesis using t2u [of u] out(1) that by auto
    qed
    show "next_t (t2 ! nat u) = next_t (th s u)" if "h' < 127" "h' \<noteq> h" "u \<in> set (qs h')" for u h'
    proof -
      have ut: "u \<noteq> t" using out(2) that by blast
      then have "0 \<le> u" using bucket_disjoint(1) [OF kinv_but_on [OF inv' tok] that(3) ut that(1)]
        by (simp add: tid_ok_def)
      moreover have "q = [] \<or> u \<noteq> last q" using dis(3) [of "last q" h'] lq h that by (auto simp: q_def)
      ultimately show ?thesis using t2u [of u] ut by auto
    qed
  qed
  moreover have "kthread (t2 ! nat u) ?cur rs (qs(h := q @ [t])) u" if u: "tid_ok u" for u
    using kinv_thread [OF inv' u] t2s [of u] u run r h
    by (auto simp: kthread_def tid_ok_def q_def h_def)
  ultimately have "kinv (s\<lparr>thread_table := t2, sleepq_hashtable := (sleepq_hashtable s)[h := p]\<rparr>) rs (qs(h := qs h @ [t]))"
    by (simp add: kinv_def kinv_on_def q_def)
  then show ?thesis using add t2s by (intro exI) auto
qed

section \<open>Waking\<close>

lemma find_waiter_chain:
  "chain tt p ts \<Longrightarrow> length tt = 32 \<Longrightarrow>
    find_waiter tt r prev p = Some (Inr (
      case dropWhile (\<lambda>t. sleeps_on (tt ! nat t) \<noteq> r) ts of
        [] \<Rightarrow> (last (prev # ts), -1)
      | w # ys \<Rightarrow> (last (prev # takeWhile (\<lambda>t. sleeps_on (tt ! nat t) \<noteq> r) ts), w)))"
proof (induction ts arbitrary: p prev)
  case Nil
  then show ?case by (simp add: find_waiter.simps)
next
  case (Cons t ts)
  then have t: "p = t" "0 < t" "t < 32" "chain tt (next_t (tt ! nat t)) ts" by (auto simp: tid_ok_def)
  then have "aget tt p = Inr (tt ! nat t)" using Cons.prems by (simp add: aget_def)
  then have "find_waiter tt r prev p =
      (if sleeps_on (tt ! nat t) \<noteq> r then find_waiter tt r t (next_t (tt ! nat t)) else Some (Inr (prev, t)))"
    using t(1,2) by (subst find_waiter.simps) simp
  then show ?case
    using Cons.IH [OF t(4), of t] Cons.prems
    by (cases "dropWhile (\<lambda>t. sleeps_on (tt ! nat t) \<noteq> r) ts") (auto simp del: dropWhile_eq_Nil_conv)
qed

lemma chain_split: "chain tt p (xs @ w # ys) \<Longrightarrow> tid_ok w \<and> chain tt (next_t (tt ! nat w)) ys"
  by (induction xs arbitrary: p) auto

lemma chain_unlink:
  assumes "chain tt p (xs @ w # ys)" "distinct (xs @ w # ys)" "xs \<noteq> []" "length tt = 32"
  shows "chain (tt[nat (last xs) := (tt ! nat (last xs))\<lparr>next_t := next_t (tt ! nat w)\<rparr>]) p (xs @ ys)"
  using assms
proof (induction xs arbitrary: p)
  case (Cons x xs)
  have x: "tid_ok x" "p = x" and rest: "chain tt (next_t (tt ! nat x)) (xs @ w # ys)" using Cons.prems(1) by auto
  show ?case
  proof (cases "xs = []")
    case True
    then have "chain tt (next_t (tt ! nat w)) ys" using rest by simp
    moreover have "x \<notin> set ys" using Cons.prems(2) by simp
    ultimately show ?thesis
      using True x Cons.prems(4) tid_okD [OF x(1)] chain_upd [of tt "next_t (tt ! nat w)" ys x] by simp
  next
    case False
    then have "last xs \<in> set xs" by simp
    then have "last xs \<noteq> x" "0 < last xs" using Cons.prems(2) chain_tids [OF rest] by (auto simp: tid_ok_def)
    with Cons.IH [OF rest] Cons.prems False x show ?thesis by (auto simp: nat_inj tid_ok_def)
  qed
qed simp

text \<open>
  Taking the thread \<open>w\<close> out of its bucket: the threads before it are \<open>xs\<close>, those behind it
  \<open>ys\<close>.
\<close>

definition unlinked :: "kstate \<Rightarrow> nat \<Rightarrow> int list \<Rightarrow> int \<Rightarrow> kstate" where
  "unlinked s h xs w =
     (let tt = thread_table s;
          tt1 = (if xs = [] then tt else tt[nat (last xs) := (tt ! nat (last xs))\<lparr>next_t := next_t (th s w)\<rparr>])
      in s\<lparr>thread_table := tt1[nat w := (tt1 ! nat w)\<lparr>sleeps_on := 0, next_t := -1\<rparr>],
           sleepq_hashtable := (if xs = [] then (sleepq_hashtable s)[h := next_t (th s w)] else sleepq_hashtable s)\<rparr>)"

lemma unlinked_but:
  assumes inv: "kinv_on s cur rs qs" and h: "h < 127" and q: "qs h = xs @ w # ys"
  shows "kinv_but w (unlinked s h xs w) cur rs (qs(h := xs @ ys))"
    and "\<And>u. 0 \<le> u \<Longrightarrow> u < 32 \<Longrightarrow> state (th (unlinked s h xs w) u) = state (th s u)
          \<and> sleeps_on (th (unlinked s h xs w) u) = (if u = w then 0 else sleeps_on (th s u))"
proof -
  define s' where "s' = unlinked s h xs w"
  have shape: "kshape s cur rs qs" using inv by (simp add: kinv_on_def)
  have l: "length (thread_table s) = 32" "length (sleepq_hashtable s) = 127"
    using shape by (auto simp: kshape_def ready_queue_def)
  have ch: "chain (thread_table s) (sleepq_hashtable s ! h) (xs @ w # ys)" "distinct (xs @ w # ys)"
    using kinv_bucket [OF inv h] q by auto
  have w: "tid_ok w" "chain (thread_table s) (next_t (th s w)) ys" using chain_split [OF ch(1)] by auto
  note ww = tid_okD [OF w(1)]
  have lx: "xs \<noteq> [] \<Longrightarrow> last xs \<in> set xs \<and> tid_ok (last xs) \<and> last xs \<noteq> w"
    using ch chain_tids [OF ch(1)] by auto
  define tt1 where "tt1 = (if xs = [] then thread_table s
     else (thread_table s)[nat (last xs) := (th s (last xs))\<lparr>next_t := next_t (th s w)\<rparr>])"
  define p where "p = (if xs = [] then next_t (th s w) else sleepq_hashtable s ! h)"
  have s': "s' = s\<lparr>thread_table := tt1[nat w := (tt1 ! nat w)\<lparr>sleeps_on := 0, next_t := -1\<rparr>],
      sleepq_hashtable := (sleepq_hashtable s)[h := p]\<rparr>"
    by (simp add: s'_def unlinked_def tt1_def p_def Let_def)
  have f: "state (th s' u) = state (th s u)" "sleeps_on (th s' u) = (if u = w then 0 else sleeps_on (th s u))"
    if "0 \<le> u" "u < 32" for u
    using that ww l lx by (cases "xs = []"; auto simp: s' tt1_def nat_inj tid_ok_def nth_list_update nat_less_iff)+
  then show "\<And>u. 0 \<le> u \<Longrightarrow> u < 32 \<Longrightarrow> state (th (unlinked s h xs w) u) = state (th s u)
          \<and> sleeps_on (th (unlinked s h xs w) u) = (if u = w then 0 else sleeps_on (th s u))"
    by (simp add: s'_def)
  have nx: "th s' u = th s u" if "0 \<le> u" "u \<noteq> w" "u \<notin> set xs" for u
    using that ww l lx by (cases "xs = []") (auto simp: s' tt1_def nat_inj tid_ok_def nth_list_update)
  have "chain tt1 p (xs @ ys)"
    using chain_unlink [OF ch] l w(2) by (cases "xs = []") (auto simp: tt1_def p_def)
  then have ch': "chain (thread_table s') p (xs @ ys)"
    using ch(2) ww by (auto simp: s' intro!: chain_upd)
  have "kshape s' cur rs (qs(h := xs @ ys))"
    unfolding s'
  proof (rule kshape_relink [OF shape h])
    note dis = bucket_disjoint [OF kinv_but_on [OF inv], of 0]
    show "chain (tt1[nat w := (tt1 ! nat w)\<lparr>sleeps_on := 0, next_t := -1\<rparr>]) p (xs @ ys)" using ch' by (simp add: s')
    show "distinct (xs @ ys)" using ch(2) by simp
    show "length (tt1[nat w := (tt1 ! nat w)\<lparr>sleeps_on := 0, next_t := -1\<rparr>]) = 32" by (simp add: tt1_def l)
    show "tt1[nat w := (tt1 ! nat w)\<lparr>sleeps_on := 0, next_t := -1\<rparr>] ! 0 = th s 0"
      using nx [of 0] ww chain_tids [OF ch(1)] by (auto simp: s' tid_ok_def)
    have in_bucket: "u \<in> set (qs h)" if "u = w \<or> u \<in> set xs" for u using that q by auto
    have kt: "kthread (th s u) cur rs qs u" "0 < u" if "u \<in> set rs \<or> (\<exists>h' < 127. u \<in> set (qs h'))" for u
    proof -
      have "tid_ok u" using that kinv_on_ready [OF inv] chain_tids kinv_bucket [OF inv] by blast
      then show "kthread (th s u) cur rs qs u" "0 < u" using kinv_thread [OF inv] by (auto simp: tid_ok_def)
    qed
    show "next_t (tt1[nat w := (tt1 ! nat w)\<lparr>sleeps_on := 0, next_t := -1\<rparr>] ! nat u) = next_t (th s u)"
      if u: "u \<in> set rs" for u
    proof -
      have "u \<notin> set (qs h)" using kt(1) [of u] u h by (auto simp: kthread_def)
      then have "u \<noteq> w" "u \<notin> set xs" using in_bucket [of u] by auto
      moreover have "0 < u" using kt(2) [of u] u by blast
      ultimately show ?thesis using nx [of u] by (simp add: s')
    qed
    show "next_t (tt1[nat w := (tt1 ! nat w)\<lparr>sleeps_on := 0, next_t := -1\<rparr>] ! nat u) = next_t (th s u)"
      if u: "h' < 127" "h' \<noteq> h" "u \<in> set (qs h')" for u h'
    proof -
      have "u \<notin> set (qs h)" using kt(1) [of u] u h by (auto simp: kthread_def)
      then have "u \<noteq> w" "u \<notin> set xs" using in_bucket [of u] by auto
      moreover have "0 < u" using kt(2) [of u] u by blast
      ultimately show ?thesis using nx [of u] by (simp add: s')
    qed
  qed
  moreover have "kthread (th s' u) cur rs (qs(h := xs @ ys)) u" if u: "tid_ok u" "u \<noteq> w" for u
    by (rule kthread_cong [OF kinv_thread [OF inv u(1)]]) (use f [of u] u q in \<open>auto simp: tid_ok_def\<close>)
  ultimately show "kinv_but w (unlinked s h xs w) cur rs (qs(h := xs @ ys))"
    using w(1) by (simp add: kinv_but_def s'_def)
qed

text \<open>The part of the ready list that a woken thread adds.\<close>

definition woken :: "kstate \<Rightarrow> int \<Rightarrow> int list" where
  "woken s w = (if state (th s w) = THREAD_SLEEPING then [w] else [])"

lemma unlink_wake_kinv:
  assumes inv: "kinv_on s cur rs qs" and cur: "cur = scheduler_current_thread s"
    and h: "h < 127" and q: "qs h = xs @ w # ys"
  shows "\<exists>s'. unlink_wake s h (last ((-1) # xs)) w = Inr (next_t (th s w), s')
    \<and> kinv_on s' cur (rs @ woken s w) (qs(h := xs @ ys)) \<and> scheduler_current_thread s' = cur
    \<and> (\<forall>u. 0 \<le> u \<and> u < 32 \<longrightarrow> sleeps_on (th s' u) = (if u = w then 0 else sleeps_on (th s u))
         \<and> (u \<noteq> w \<or> state (th s w) \<noteq> THREAD_SLEEPING \<longrightarrow> state (th s' u) = state (th s u)))"
proof -
  let ?s2 = "unlinked s h xs w"
  note but = unlinked_but(1) [OF inv h q] and f = unlinked_but(2) [OF inv h q]
  have l: "length (thread_table s) = 32" "length (sleepq_hashtable s) = 127"
    using inv by (auto simp: kinv_on_def kshape_def ready_queue_def)
  have ch: "chain (thread_table s) (sleepq_hashtable s ! h) (xs @ w # ys)" "distinct (xs @ w # ys)"
    using kinv_bucket [OF inv h] q by auto
  have w: "tid_ok w" using chain_split [OF ch(1)] by auto
  note ww = tid_okD [OF w]
  have lx: "xs \<noteq> [] \<Longrightarrow> tid_ok (last xs) \<and> last xs \<noteq> w"
    using ch chain_tids [OF ch(1)] last_in_set [of xs] by auto
  have kt: "kthread (th s w) cur rs qs w" using kinv_thread [OF inv w] .
  have wq: "w \<in> set (qs h)" using q by simp
  then have st: "w \<notin> set rs" "state (th s w) = THREAD_SLEEPING \<or> state (th s w) = THREAD_RUNNING"
    and wh: "\<And>h'. h' < 127 \<Longrightarrow> w \<notin> set ((qs(h := xs @ ys)) h')"
    using kt h ch(2) by (auto simp: kthread_def)
  have fw: "state (th ?s2 w) = state (th s w)" "sleeps_on (th ?s2 w) = 0" using f [of w] ww by auto
  have l2: "length (thread_table ?s2) = 32" using but by (simp add: kinv_but_def kshape_def ready_queue_def)
  have run: "unlink_wake s h (last ((-1) # xs)) w = rbind (get_thread ?s2 w) (\<lambda>w2.
      if state w2 = THREAD_SLEEPING
      then rbind (rbind (upd_thread ?s2 w (\<lambda>th. th\<lparr>state := THREAD_READY\<rparr>)) (\<lambda>s3. scheduler_add_to_ready_list s3 w))
             (\<lambda>s4. Inr (next_t (th s w), s4))
      else Inr (next_t (th s w), ?s2))"
    using ww l h lx tid_okD [of "last xs"]
    by (cases "xs = []")
      (auto simp: unlink_wake_def unlinked_def get_thread_eq upd_thread_eq Let_def rbind_assoc nat_inj)
  show ?thesis
  proof (cases "state (th s w) = THREAD_SLEEPING")
    case True
    have "ready_queue ?s2 rs" using but by (simp add: kinv_but_def kshape_def)
    from ready_add_made [OF this w st(1)] obtain tab where tab:
      "rbind (upd_thread ?s2 w (\<lambda>th. th\<lparr>state := THREAD_READY\<rparr>)) (\<lambda>s'. scheduler_add_to_ready_list s' w)
        = Inr (with_ready ?s2 rs w tab)" "made_ready ?s2 rs w tab" by blast
    have wc: "w \<notin> set cur" using kt True by (simp add: kthread_def)
    have "kinv_on (with_ready ?s2 rs w tab) cur (rs @ [w]) (qs(h := xs @ ys))"
      by (rule made_ready_kinv [OF but st(1) wh wc fw(2) tab(2)])
    moreover have "unlink_wake s h (last ((-1) # xs)) w = Inr (next_t (th s w), with_ready ?s2 rs w tab)"
      using run tab(1) fw(1) True ww l2 by (simp add: get_thread_eq)
    moreover have "sleeps_on (th (with_ready ?s2 rs w tab) u) = (if u = w then 0 else sleeps_on (th s u))
        \<and> (u \<noteq> w \<longrightarrow> state (th (with_ready ?s2 rs w tab) u) = state (th s u))" if "0 \<le> u" "u < 32" for u
      using f [OF that] made_ready_sleep [OF tab(2) that] tab(2) that by (auto simp: with_ready_def made_ready_def)
    ultimately show ?thesis
      using True cur by (intro exI [of _ "with_ready ?s2 rs w tab"])
        (auto simp: woken_def with_ready_def unlinked_def Let_def)
  next
    case False
    then have "kthread (th ?s2 w) cur rs (qs(h := xs @ ys)) w"
      using kt fw st wh by (auto simp: kthread_def)
    then have "kinv_on ?s2 cur rs (qs(h := xs @ ys))" by (rule kinv_on_but [OF but])
    moreover have "unlink_wake s h (last ((-1) # xs)) w = Inr (next_t (th s w), ?s2)"
      using run fw(1) False ww l2 by (simp add: get_thread_eq)
    ultimately show ?thesis
      using False f cur by (intro exI [of _ ?s2]) (simp add: woken_def, simp add: unlinked_def Let_def)
  qed
qed

lemma chain_mid: "chain tt p (xs @ ys) \<Longrightarrow> chain tt (if ys = [] then -1 else hd ys) ys"
proof (induction xs arbitrary: p)
  case Nil
  then show ?case by (cases ys) auto
qed auto

lemma sleepq_wake_kinv:
  assumes inv: "kinv s rs qs" and h_def: "h = SLEEPQ_HASH r"
  shows "case waiting s qs r of
      [] \<Rightarrow> sleepq_wake s r = Some (Inr s)
    | w # ws \<Rightarrow> \<exists>s'. sleepq_wake s r = Some (Inr s') \<and> kinv s' (rs @ woken s w) (qs(h := remove1 w (qs h)))
        \<and> scheduler_current_thread s' = scheduler_current_thread s
        \<and> (\<forall>u. 0 \<le> u \<and> u < 32 \<longrightarrow> sleeps_on (th s' u) = (if u = w then 0 else sleeps_on (th s u))
             \<and> (u \<noteq> w \<or> state (th s w) \<noteq> THREAD_SLEEPING \<longrightarrow> state (th s' u) = state (th s u)))"
proof -
  have inv': "kinv_on s (scheduler_current_thread s) rs qs" using inv by (simp add: kinv_def)
  have h: "h < 127" by (simp add: h_def)
  have l: "length (thread_table s) = 32" "length (sleepq_hashtable s) = 127"
    using inv' by (auto simp: kinv_on_def kshape_def ready_queue_def)
  have ch: "chain (thread_table s) (sleepq_hashtable s ! h) (qs h)" "distinct (qs h)"
    using kinv_bucket [OF inv' h] by auto
  let ?P = "\<lambda>t. sleeps_on (th s t) \<noteq> r"
  note fnd = find_waiter_chain [OF ch(1) l(1), of r "-1"]
  show ?thesis
  proof (cases "dropWhile ?P (qs h)")
    case Nil
    then have "waiting s qs r = []" by (simp add: waiting_def h_def [symmetric] dropWhile_eq_Nil_conv filter_empty_conv)
    moreover have "sleepq_wake s r = Some (Inr s)"
      using fnd Nil h l by (simp add: sleepq_wake_def h_def [symmetric] del: dropWhile_eq_Nil_conv)
    ultimately show ?thesis by simp
  next
    case (Cons w ys)
    let ?xs = "takeWhile ?P (qs h)"
    have q: "qs h = ?xs @ w # ys" using Cons takeWhile_dropWhile_id [of ?P "qs h"] by simp
    have wr: "sleeps_on (th s w) = r" using hd_dropWhile [of ?P "qs h"] Cons by simp
    have "waiting s qs r = w # filter (\<lambda>t. sleeps_on (th s t) = r) ys"
      unfolding waiting_def h_def [symmetric] by (subst q) (auto simp: wr filter_empty_conv dest: set_takeWhileD)
    moreover have "remove1 w (qs h) = ?xs @ ys"
      using ch(2) by (subst q, subst (asm) q) (simp add: remove1_append)
    moreover have "0 < w" using chain_split [of _ _ ?xs w ys] ch(1) q by (metis tid_ok_def)
    moreover obtain s' where "unlink_wake s h (last ((-1) # ?xs)) w = Inr (next_t (th s w), s')"
      "kinv_on s' (scheduler_current_thread s) (rs @ woken s w) (qs(h := ?xs @ ys))"
      "scheduler_current_thread s' = scheduler_current_thread s"
      "\<forall>u. 0 \<le> u \<and> u < 32 \<longrightarrow> sleeps_on (th s' u) = (if u = w then 0 else sleeps_on (th s u))
         \<and> (u \<noteq> w \<or> state (th s w) \<noteq> THREAD_SLEEPING \<longrightarrow> state (th s' u) = state (th s u))"
      using unlink_wake_kinv [OF inv' refl h q] by blast
    ultimately show ?thesis
      using fnd Cons h l by (simp add: sleepq_wake_def h_def [symmetric] kinv_def)
  qed
qed

lemma wake_all_loop_kinv:
  assumes inv: "kinv_on s cur rs qs" and cur: "cur = scheduler_current_thread s"
    and h: "h = SLEEPQ_HASH r" and q: "qs h = dn @ rest"
  shows "\<exists>s'. wake_all_loop s r (last ((-1) # dn)) (if rest = [] then -1 else hd rest) = Some (Inr s')
    \<and> kinv_on s' cur (rs @ concat (map (woken s) (filter (\<lambda>t. sleeps_on (th s t) = r) rest)))
         (qs(h := dn @ filter (\<lambda>t. sleeps_on (th s t) \<noteq> r) rest))
    \<and> scheduler_current_thread s' = cur
    \<and> (\<forall>u. 0 \<le> u \<and> u < 32 \<longrightarrow>
         sleeps_on (th s' u) = (if u \<in> set rest \<and> sleeps_on (th s u) = r then 0 else sleeps_on (th s u)))"
  using assms
proof (induction "length rest" arbitrary: s rs qs dn rest rule: less_induct)
  case less
  note inv = less.prems(1)
  have h127: "h < 127" using less.prems(3) by simp
  have l: "length (thread_table s) = 32" using kinv_table_length [OF inv] .
  have ch: "chain (thread_table s) (sleepq_hashtable s ! h) (dn @ rest)" "distinct (dn @ rest)"
    using kinv_bucket [OF inv h127] less.prems(4) by auto
  let ?P = "\<lambda>t. sleeps_on (th s t) \<noteq> r"
  let ?p = "if rest = [] then -1 else hd rest"
  note fnd = find_waiter_chain [OF chain_mid [OF ch(1)] l, of r "last ((-1) # dn)"]
  have pos: "0 < ?p \<longleftrightarrow> rest \<noteq> []" using chain_tids [OF ch(1)] by (cases rest) (auto simp: tid_ok_def)
  show ?case
  proof (cases "dropWhile ?P rest")
    case Nil
    then have none: "filter ?P rest = rest" "filter (\<lambda>t. sleeps_on (th s t) = r) rest = []"
      by (auto simp: dropWhile_eq_Nil_conv filter_empty_conv filter_id_conv)
    have "wake_all_loop s r (last ((-1) # dn)) ?p = Some (Inr s)"
    proof (cases "rest = []")
      case False
      then show ?thesis
        using fnd Nil pos by (subst wake_all_loop.simps) (simp add: wake_all_loop.simps del: dropWhile_eq_Nil_conv)
    qed (simp add: wake_all_loop.simps)
    moreover have "qs(h := dn @ rest) = qs" using less.prems(4) by auto
    moreover have "\<not> (u \<in> set rest \<and> sleeps_on (th s u) = r)" for u
      using none(2) by (auto simp: filter_empty_conv)
    ultimately show ?thesis using inv none less.prems(2) by auto
  next
    case (Cons w ys)
    let ?xs = "takeWhile ?P rest"
    have rest: "rest = ?xs @ w # ys" using Cons takeWhile_dropWhile_id [of ?P rest] by simp
    have wr: "sleeps_on (th s w) = r" using hd_dropWhile [of ?P rest] Cons by simp
    have q: "qs h = (dn @ ?xs) @ w # ys" using less.prems(4) rest by simp
    have w: "tid_ok w" "chain (thread_table s) (next_t (th s w)) ys"
      using chain_split [of "thread_table s" _ "dn @ ?xs" w ys] ch(1) rest by (metis append.assoc)+
    obtain s1 where s1: "unlink_wake s h (last ((-1) # dn @ ?xs)) w = Inr (next_t (th s w), s1)"
      "kinv_on s1 cur (rs @ woken s w) (qs(h := (dn @ ?xs) @ ys))" "scheduler_current_thread s1 = cur"
      "\<forall>u. 0 \<le> u \<and> u < 32 \<longrightarrow> sleeps_on (th s1 u) = (if u = w then 0 else sleeps_on (th s u))
         \<and> (u \<noteq> w \<longrightarrow> state (th s1 u) = state (th s u))"
      using unlink_wake_kinv [OF inv less.prems(2) h127 q] by auto
    have nxt: "next_t (th s w) = (if ys = [] then -1 else hd ys)" using chain_head [OF w(2)] .
    have wys: "w \<notin> set ys" "\<forall>u \<in> set ys. 0 \<le> u \<and> u < 32"
      using ch rest chain_tids [OF w(2)] by (auto simp: tid_ok_def) (metis distinct.simps(2) distinct_append)
    have len: "length ys < length rest" by (subst rest) simp
    have "(qs(h := (dn @ ?xs) @ ys)) h = (dn @ ?xs) @ ys" by simp
    from less.hyps [OF len s1(2) s1(3) [symmetric] less.prems(3) this] obtain s' where s':
      "wake_all_loop s1 r (last ((-1) # dn @ ?xs)) (next_t (th s w)) = Some (Inr s')"
      "kinv_on s' cur ((rs @ woken s w) @ concat (map (woken s1) (filter (\<lambda>t. sleeps_on (th s1 t) = r) ys)))
         (qs(h := (dn @ ?xs) @ filter (\<lambda>t. sleeps_on (th s1 t) \<noteq> r) ys))"
      "scheduler_current_thread s' = cur"
      "\<forall>u. 0 \<le> u \<and> u < 32 \<longrightarrow>
         sleeps_on (th s' u) = (if u \<in> set ys \<and> sleeps_on (th s1 u) = r then 0 else sleeps_on (th s1 u))"
      unfolding nxt fun_upd_upd by blast
    have same: "sleeps_on (th s1 u) = sleeps_on (th s u)" "woken s1 u = woken s u" if "u \<in> set ys" for u
      using s1(4) wys that by (auto simp: woken_def)
    have f1: "filter (\<lambda>t. sleeps_on (th s1 t) = r) ys = filter (\<lambda>t. sleeps_on (th s t) = r) ys"
      "filter (\<lambda>t. sleeps_on (th s1 t) \<noteq> r) ys = filter ?P ys"
      using same(1) by (auto intro: filter_cong)
    have fr: "filter (\<lambda>t. sleeps_on (th s t) = r) rest = w # filter (\<lambda>t. sleeps_on (th s t) = r) ys"
      "filter ?P rest = ?xs @ filter ?P ys"
      using wr by (subst rest, auto simp: filter_empty_conv filter_id_conv dest: set_takeWhileD)+
    have mw: "map (woken s1) (filter (\<lambda>t. sleeps_on (th s t) = r) ys) = map (woken s) (filter (\<lambda>t. sleeps_on (th s t) = r) ys)"
      using same(2) by auto
    have "wake_all_loop s r (last ((-1) # dn)) ?p = Some (Inr s')"
    proof -
      have "last (last ((-1) # dn) # ?xs) = last ((-1) # dn @ ?xs)" by simp
      moreover have "rest \<noteq> []" using rest by auto
      ultimately show ?thesis
        using fnd Cons pos s1(1) s'(1) w(1) less.prems(3)
        by (subst wake_all_loop.simps) (simp add: tid_ok_def)
    qed
    moreover have "sleeps_on (th s' u) = (if u \<in> set rest \<and> sleeps_on (th s u) = r then 0 else sleeps_on (th s u))"
      if "0 \<le> u" "u < 32" for u
    proof -
      have "u \<in> set rest \<longleftrightarrow> u \<in> set ?xs \<or> u = w \<or> u \<in> set ys" by (subst rest) auto
      moreover have "u \<in> set ?xs \<Longrightarrow> sleeps_on (th s u) \<noteq> r" by (auto dest: set_takeWhileD)
      ultimately show ?thesis using s'(4) s1(4) that wr wys by auto
    qed
    moreover have "kinv_on s' cur (rs @ concat (map (woken s) (filter (\<lambda>t. sleeps_on (th s t) = r) rest)))
         (qs(h := dn @ filter ?P rest))"
      using s'(2) unfolding f1 fr mw by simp
    ultimately show ?thesis using s'(3) by blast
  qed
qed

section \<open>The queue of a resource\<close>

lemma bucket_member: "kinv_on s cur rs qs \<Longrightarrow> h < 127 \<Longrightarrow> t \<in> set (qs h) \<Longrightarrow> tid_ok t \<and> SLEEPQ_HASH (sleeps_on (th s t)) = h"
  using kinv_bucket [of s cur rs qs h] chain_tids kinv_thread [of s cur rs qs t] by (fastforce simp: kthread_def)

lemma waiting_add:
  assumes inv: "kinv s rs qs" and t: "t \<notin> set (qs (SLEEPQ_HASH r))"
    and so: "\<And>u. 0 \<le> u \<Longrightarrow> u < 32 \<Longrightarrow> sleeps_on (th s' u) = (if u = t then r else sleeps_on (th s u))"
    and out: "\<And>h. h < 127 \<Longrightarrow> t \<notin> set (qs h)" "tid_ok t"
  shows "waiting s' (qs(SLEEPQ_HASH r := qs (SLEEPQ_HASH r) @ [t])) r' = (if r' = r then waiting s qs r @ [t] else waiting s qs r')"
proof -
  have inv': "kinv_on s (scheduler_current_thread s) rs qs" using inv by (simp add: kinv_def)
  have eq: "sleeps_on (th s' u) = sleeps_on (th s u)" if "u \<in> set (qs h)" "h < 127" for u h
    using so [of u] bucket_member [OF inv' that(2,1)] out(1) [OF that(2)] that(1) by (auto simp: tid_ok_def)
  have f: "filter (\<lambda>u. sleeps_on (th s' u) = r') (qs h) = filter (\<lambda>u. sleeps_on (th s u) = r') (qs h)" if "h < 127" for h
    using eq that by (auto intro: filter_cong)
  have "sleeps_on (th s' t) = r" using so [of t] out(2) by (auto simp: tid_ok_def)
  then show ?thesis using f by (auto simp: waiting_def)
qed

lemma waiting_remove:
  assumes inv: "kinv s rs qs" and w: "waiting s qs r = w # ws"
    and so: "\<And>u. 0 \<le> u \<Longrightarrow> u < 32 \<Longrightarrow> sleeps_on (th s' u) = (if u = w then 0 else sleeps_on (th s u))"
  shows "waiting s' (qs(SLEEPQ_HASH r := remove1 w (qs (SLEEPQ_HASH r)))) r' = (if r' = r then ws else waiting s qs r')"
proof -
  let ?h = "SLEEPQ_HASH r"
  have inv': "kinv_on s (scheduler_current_thread s) rs qs" using inv by (simp add: kinv_def)
  have d: "distinct (qs ?h)" using kinv_bucket [OF inv', of ?h] by simp
  have "w \<in> set (waiting s qs r)" using w by simp
  then have wq: "w \<in> set (qs ?h)" "sleeps_on (th s w) = r" by (auto simp: waiting_def)
  have eq: "sleeps_on (th s' u) = sleeps_on (th s u)" if "u \<in> set (qs h)" "h < 127" "u \<noteq> w" for u h
    using so [of u] bucket_member [OF inv' that(2,1)] that(3) by (auto simp: tid_ok_def)
  show ?thesis
  proof (cases "SLEEPQ_HASH r' = ?h")
    case True
    have "filter (\<lambda>u. sleeps_on (th s' u) = r') (remove1 w (qs ?h)) = filter (\<lambda>u. sleeps_on (th s u) = r') (remove1 w (qs ?h))"
      using eq d by (auto intro!: filter_cong)
    also have "\<dots> = remove1 w (filter (\<lambda>u. sleeps_on (th s u) = r') (qs ?h))" by (rule filter_remove1)
    also have "\<dots> = (if r' = r then ws else waiting s qs r')"
      using w wq True by (auto simp: waiting_def intro: remove1_idem)
    finally show ?thesis using True by (simp add: waiting_def [of s'])
  next
    case False
    then have ne: "u \<noteq> w" if "u \<in> set (qs (SLEEPQ_HASH r'))" for u
      using that wq bucket_member [OF inv', of "SLEEPQ_HASH r'" u] by auto
    have "filter (\<lambda>u. sleeps_on (th s' u) = r') (qs (SLEEPQ_HASH r')) = filter (\<lambda>u. sleeps_on (th s u) = r') (qs (SLEEPQ_HASH r'))"
      by (rule filter_cong [OF refl]) (use eq [OF _ hash_less] ne in simp)
    then show ?thesis using False by (auto simp: waiting_def)
  qed
qed

lemma waiting_same:
  assumes inv: "kinv s rs qs" and so: "\<And>u. 0 \<le> u \<Longrightarrow> u < 32 \<Longrightarrow> sleeps_on (th s' u) = sleeps_on (th s u)"
  shows "waiting s' qs r = waiting s qs r"
proof -
  have inv': "kinv_on s (scheduler_current_thread s) rs qs" using inv by (simp add: kinv_def)
  have "sleeps_on (th s' u) = sleeps_on (th s u)" if "u \<in> set (qs (SLEEPQ_HASH r))" for u
    using so [of u] bucket_member [OF inv' hash_less that] by (auto simp: tid_ok_def)
  then show ?thesis unfolding waiting_def by (intro filter_cong) simp_all
qed

section \<open>Creating and ending threads\<close>

lemma free_slot_spec:
  assumes "length tt = 32"
  shows "\<exists>t. free_slot tt nt i n = Inr t
    \<and> (t = -1 \<and> (\<forall>j. i \<le> j \<and> j < i + n \<longrightarrow> (int j + nt) mod 32 = 0 \<or> state (tt ! nat ((int j + nt) mod 32)) \<noteq> THREAD_FREE)
       \<or> tid_ok t \<and> state (tt ! nat t) = THREAD_FREE)"
proof (induction n arbitrary: i)
  case (Suc n)
  let ?t = "(int i + nt) mod 32"
  have t: "0 \<le> ?t" "?t < 32" by auto
  then have get: "aget tt ?t = Inr (tt ! nat ?t)" using assms by (simp add: aget_def)
  show ?case
  proof (cases "?t = 0 \<or> state (tt ! nat ?t) \<noteq> THREAD_FREE")
    case True
    then have "free_slot tt nt i (Suc n) = free_slot tt nt (Suc i) n" using get by (auto simp: Let_def)
    moreover have "(int j + nt) mod 32 = 0 \<or> state (tt ! nat ((int j + nt) mod 32)) \<noteq> THREAD_FREE"
      if "i \<le> j \<and> j < i + Suc n" "\<forall>j. Suc i \<le> j \<and> j < Suc i + n \<longrightarrow> (int j + nt) mod 32 = 0 \<or> state (tt ! nat ((int j + nt) mod 32)) \<noteq> THREAD_FREE" for j
      using that True by (cases "j = i") auto
    ultimately show ?thesis using Suc.IH [of "Suc i"] by auto
  next
    case False
    then have "free_slot tt nt i (Suc n) = Inr ?t" using get by (auto simp: Let_def)
    then show ?thesis using False t by (auto simp: tid_ok_def)
  qed
qed auto

lemma free_slot_none:
  assumes "length tt = 32" "free_slot tt nt 0 32 = Inr (-1)" "tid_ok t"
  shows "state (tt ! nat t) \<noteq> THREAD_FREE"
proof -
  define j where "j = nat ((t - nt) mod 32)"
  have j: "j < 32" "(int j + nt) mod 32 = t" using assms(3) by (auto simp: j_def tid_ok_def mod_simps)
  with free_slot_spec [OF assms(1), of nt 0 32] assms(2,3) show ?thesis
    by (auto simp: tid_ok_def) 
qed

lemma thread_create_kinv:
  assumes inv: "kinv s rs qs"
  shows "\<exists>t s'. thread_create stacks fin s func arg = Inr (t, s') \<and> kinv s' rs qs
    \<and> (if \<exists>u. tid_ok u \<and> state (th s u) = THREAD_FREE
       then tid_ok t \<and> state (th s t) = THREAD_FREE \<and> state (th s' t) = THREAD_NONREADY
         \<and> (\<forall>u. 0 \<le> u \<and> u \<noteq> t \<longrightarrow> th s' u = th s u)
       else t = -1 \<and> s' = s)"
proof -
  let ?cur = "scheduler_current_thread s"
  have inv': "kinv_on s ?cur rs qs" using inv by (simp add: kinv_def)
  have l: "length (thread_table s) = 32" using kinv_table_length [OF inv'] .
  obtain t where t: "free_slot (thread_table s) (next_tid s) 0 32 = Inr t"
    "t = -1 \<or> tid_ok t \<and> state (th s t) = THREAD_FREE" using free_slot_spec [OF l] by blast
  show ?thesis
  proof (cases "t = -1")
    case True
    then show ?thesis using t free_slot_none [OF l] inv by (auto simp: thread_create_def)
  next
    case False
    with t(2) have tok: "tid_ok t" "state (th s t) = THREAD_FREE" by auto
    note tt = tid_okD [OF tok(1)]
    define c where "c = stack_top stacks t - SIZEOF_CONTEXT"
    define x where "x = (th s t)\<lparr>state := THREAD_NONREADY, context_p := c, user_context := 0, pagetable := 0,
                    sleeps_on := 0, process_id := -1, next_t := -1\<rparr>"
    have kt: "kthread (th s t) ?cur rs qs t" using kinv_thread [OF inv' tok(1)] .
    then have "kinv_on (s\<lparr>thread_table := (thread_table s)[nat t := x]\<rparr>) ?cur rs qs"
      using tok(2) by (intro kinv_set [OF kinv_but_on [OF inv' tok(1)]]) (auto simp: kthread_def x_def)
    then have k: "kinv (s\<lparr>next_tid := a, thread_table := (thread_table s)[nat t := x], contexts := b\<rparr>) rs qs" for a b
      by (simp add: kinv_def kinv_on_def kshape_def ready_queue_def)
    obtain a b where "thread_create stacks fin s func arg =
        Inr (t, s\<lparr>next_tid := a, thread_table := (thread_table s)[nat t := x], contexts := b\<rparr>)"
      using t(1) tt l False by (auto simp: thread_create_def upd_thread_eq Let_def x_def c_def)
    moreover have "state x = THREAD_NONREADY" by (simp add: x_def)
    ultimately show ?thesis using k tok tt l by (auto simp: nat_inj)
  qed
qed

lemma thread_finish_kinv:
  assumes inv: "kinv s rs qs" and c: "c < 4" and t: "scheduler_current_thread s ! c = t" "t \<noteq> 0"
    and run: "state (th s t) = THREAD_RUNNING" "sleeps_on (th s t) = 0" "pagetable (th s t) = 0"
  shows "\<exists>s' rs'. thread_finish s c intr rnd = Inr s' \<and> kinv s' rs' qs
    \<and> (\<forall>u. 0 \<le> u \<and> u < 32 \<longrightarrow> sleeps_on (th s' u) = sleeps_on (th s u))"
proof -
  let ?cur = "scheduler_current_thread s"
  let ?s1 = "s\<lparr>thread_table := (thread_table s)[nat t := (th s t)\<lparr>state := THREAD_DYING\<rparr>]\<rparr>"
  have inv': "kinv_on s ?cur rs qs" using inv by (simp add: kinv_def)
  then have l: "length (thread_table s) = 32" "length ?cur = 4" by (auto simp: kinv_on_def kshape_def ready_queue_def)
  have tok: "tid_ok t" using inv' c nth_mem [of c ?cur] l(2) t by (auto simp: kinv_on_def kshape_def)
  note tt = tid_okD [OF tok]
  have "kthread (th s t) ?cur rs qs t" using kinv_thread [OF inv' tok] .
  then have "kinv_on ?s1 ?cur rs qs"
    using run by (intro kinv_set [OF kinv_but_on [OF inv' tok]]) (auto simp: kthread_def)
  then have k: "kinv ?s1 rs qs" by (simp add: kinv_def)
  have "thread_finish s c intr rnd = (if \<not> intr then scheduler_schedule ?s1 c rnd else Inr ?s1)"
    using t tt c l run by (simp add: thread_finish_def thread_get_current_thread_def get_thread_eq upd_thread_eq)
  moreover have "sleeps_on (th ?s1 u) = sleeps_on (th s u)" if "0 \<le> u" "u < 32" for u
    using that tt l by (cases "u = t") (auto simp: nat_inj)
  ultimately show ?thesis using k schedule_kinv [OF k c, of rnd] by (cases intr) auto
qed

text \<open>
  The steps that leave the sleep queues alone.
\<close>

lemma create_sleeps:
  assumes inv: "kinv s rs qs" and c: "thread_create stacks fin s func arg = Inr (t, s')" and u: "0 \<le> u" "u < 32"
  shows "sleeps_on (th s' u) = sleeps_on (th s u)"
proof -
  have inv': "kinv_on s (scheduler_current_thread s) rs qs" using inv by (simp add: kinv_def)
  have h: "s' = s \<or> tid_ok t \<and> state (th s t) = THREAD_FREE \<and> state (th s' t) = THREAD_NONREADY
       \<and> (\<forall>u. 0 \<le> u \<and> u \<noteq> t \<longrightarrow> th s' u = th s u)" "kinv s' rs qs"
    using thread_create_kinv [OF inv, of stacks fin func arg] c by (auto split: if_splits)
  show ?thesis
  proof (cases "u = t \<and> tid_ok t \<and> state (th s t) = THREAD_FREE \<and> state (th s' t) = THREAD_NONREADY")
    case True
    have "kinv_on s' (scheduler_current_thread s') rs qs" using h(2) by (simp add: kinv_def)
    then show ?thesis
      using True kinv_thread [OF inv', of t] kinv_thread [of s' "scheduler_current_thread s'" rs qs t]
      by (auto simp: kthread_def)
  qed (use h(1) u in auto)
qed

lemma waiting_filter:
  assumes inv: "kinv s rs qs"
    and so: "\<And>u. 0 \<le> u \<Longrightarrow> u < 32 \<Longrightarrow>
      sleeps_on (th s' u) = (if u \<in> set (qs (SLEEPQ_HASH r)) \<and> sleeps_on (th s u) = r then 0 else sleeps_on (th s u))"
    and r': "r' \<noteq> r" "r' \<noteq> 0"
  shows "waiting s' (qs(SLEEPQ_HASH r := filter (\<lambda>t. sleeps_on (th s t) \<noteq> r) (qs (SLEEPQ_HASH r)))) r' = waiting s qs r'"
proof -
  have inv': "kinv_on s (scheduler_current_thread s) rs qs" using inv by (simp add: kinv_def)
  have eq: "sleeps_on (th s' u) = r' \<longleftrightarrow> sleeps_on (th s u) = r'" if "u \<in> set (qs h)" "h < 127" for u h
    using so [of u] bucket_member [OF inv' that(2,1)] r' by (auto simp: tid_ok_def)
  have "filter (\<lambda>t. sleeps_on (th s' t) = r') (filter (\<lambda>t. sleeps_on (th s t) \<noteq> r) (qs h))
      = filter (\<lambda>t. sleeps_on (th s t) = r') (qs h)" if "h < 127" for h
    unfolding filter_filter by (rule filter_cong [OF refl]) (use eq that r' in auto)
  moreover have "filter (\<lambda>t. sleeps_on (th s' t) = r') (qs h) = filter (\<lambda>t. sleeps_on (th s t) = r') (qs h)"
    if "h < 127" for h
    by (rule filter_cong [OF refl]) (use eq that in auto)
  ultimately show ?thesis by (simp add: waiting_def)
qed

section \<open>The kernel as a transition system\<close>

text \<open>
  The state after the initialisation of the three modules; \<open>raw\<close> is what the memory held.
  \<^verbatim>\<open>scheduler_ready_to_run\<close> is statically initialised to \<open>{-1, -1}\<close>.
\<close>

definition kboot :: "u32 \<Rightarrow> u32 \<Rightarrow> kstate \<Rightarrow> kstate" where
  "kboot stacks idle_loop raw =
     scheduler_init (sleepq_init (thread_table_init stacks idle_loop
       (raw\<lparr>ready_head := -1, ready_tail := -1, next_tid := 0, timer_ticks := replicate CONFIG_MAX_CPUS 0\<rparr>)))"

text \<open>
  The threads that may call: \<open>running s c\<close> is the thread on processor \<open>c\<close>, if it is not
  the idle thread and not on its way to sleep or death.
\<close>

definition running :: "kstate \<Rightarrow> nat \<Rightarrow> bool" where
  "running s c \<longleftrightarrow> c < CONFIG_MAX_CPUS \<and> scheduler_current_thread s ! c \<noteq> 0
     \<and> state (th s (scheduler_current_thread s ! c)) = THREAD_RUNNING
     \<and> sleeps_on (th s (scheduler_current_thread s ! c)) = 0"

inductive kstep :: "kstate \<Rightarrow> kstate \<Rightarrow> bool" where
  create: "thread_create stacks fin s func arg = Inr (t, s') \<Longrightarrow> kstep s s'"
| run: "tid_ok t \<Longrightarrow> state (th s t) = THREAD_NONREADY \<Longrightarrow> thread_run s t = Inr s' \<Longrightarrow> kstep s s'"
| switch: "c < CONFIG_MAX_CPUS \<Longrightarrow> thread_switch s c rnd = Inr s' \<Longrightarrow> kstep s s'"
| sleep: "running s c \<Longrightarrow> r \<noteq> 0 \<Longrightarrow> sleepq_add s c 0 r = Some (Inr s') \<Longrightarrow> kstep s s'"
| wake: "sleepq_wake s r = Some (Inr s') \<Longrightarrow> kstep s s'"
| wake_all: "sleepq_wake_all s r = Some (Inr s') \<Longrightarrow> kstep s s'"
| finish: "running s c \<Longrightarrow> pagetable (th s (scheduler_current_thread s ! c)) = 0
    \<Longrightarrow> thread_finish s c intr rnd = Inr s' \<Longrightarrow> kstep s s'"

inductive kreach :: "kstate \<Rightarrow> bool" where
  boot: "kreach (kboot stacks idle_loop raw)"
| step: "kreach s \<Longrightarrow> kstep s s' \<Longrightarrow> kreach s'"

lemma kboot_kinv: "kinv (kboot stacks idle_loop raw) [] (\<lambda>_. [])"
proof -
  let ?s = "kboot stacks idle_loop raw"
  have cur: "scheduler_current_thread ?s = replicate 4 0" by (simp add: kboot_def scheduler_init_def)
  have tab: "length (thread_table ?s) = 32"
    "\<And>i. i < 32 \<Longrightarrow> sleeps_on (thread_table ?s ! i) = 0 \<and>
       state (thread_table ?s ! i) = (if i = 0 then THREAD_READY else THREAD_FREE)"
    by (auto simp: kboot_def scheduler_init_def sleepq_init_def thread_table_init_def Let_def nth_list_update)
  have "kthread (th ?s t) (replicate 4 0) [] (\<lambda>_. []) t" if "tid_ok t" for t
    using tab(2) [of "nat t"] that tid_okD [OF that] by (auto simp: kthread_def)
  moreover have "kshape ?s (replicate 4 0) [] (\<lambda>_. [])"
    using tab(1) tab(2) [of 0]
    by (auto simp: kshape_def ready_queue_def ends_at_def)
      (simp_all add: kboot_def scheduler_init_def sleepq_init_def thread_table_init_def Let_def)
  ultimately show ?thesis by (simp add: kinv_def kinv_on_def cur)
qed

lemma wake_all_kinv:
  assumes "kinv s rs qs"
  shows "\<exists>s'. sleepq_wake_all s r = Some (Inr s')
    \<and> kinv s' (rs @ concat (map (woken s) (waiting s qs r)))
        (qs(SLEEPQ_HASH r := filter (\<lambda>t. sleeps_on (th s t) \<noteq> r) (qs (SLEEPQ_HASH r))))
    \<and> (\<forall>u. 0 \<le> u \<and> u < 32 \<longrightarrow>
         sleeps_on (th s' u) = (if u \<in> set (qs (SLEEPQ_HASH r)) \<and> sleeps_on (th s u) = r then 0 else sleeps_on (th s u)))"
proof -
  let ?h = "SLEEPQ_HASH r"
  have inv': "kinv_on s (scheduler_current_thread s) rs qs" using assms by (simp add: kinv_def)
  have "chain (thread_table s) (sleepq_hashtable s ! ?h) (qs ?h)" using kinv_bucket [OF inv', of ?h] by simp
  from chain_head [OF this]
  have "sleepq_wake_all s r = wake_all_loop s r (-1) (if qs ?h = [] then -1 else hd (qs ?h))"
    using inv' by (simp add: sleepq_wake_all_def kinv_on_def kshape_def)
  then show ?thesis
    using wake_all_loop_kinv [OF inv' refl refl, of r "[]" "qs ?h"] by (auto simp: kinv_def waiting_def)
qed

lemma kstep_kinv:
  assumes "kstep s s'" "kinv s rs qs"
  shows "\<exists>rs' qs'. kinv s' rs' qs'"
  using assms
proof (induction rule: kstep.induct)
  case (create stacks fin s func arg t s')
  then show ?case using thread_create_kinv [of s rs qs stacks fin func arg] by auto
next
  case (run t s s')
  then show ?case using kinv_add_ready [of s rs qs t] by (auto simp: thread_run_def)
next
  case (switch c s rnd s')
  then show ?case using schedule_kinv [of s rs qs c rnd] by (auto simp: thread_switch_def)
next
  case (sleep s c r s')
  then show ?case using sleepq_add_kinv [of s rs qs c _ 0 r] by (auto simp: running_def)
next
  case (wake s r s')
  then show ?case using sleepq_wake_kinv [of s rs qs _ r] by (fastforce split: list.splits)
next
  case (wake_all s r s')
  then show ?case using wake_all_kinv [of s rs qs r] by auto
next
  case (finish s c intr rnd s')
  then show ?case using thread_finish_kinv [of s rs qs c _ intr rnd] by (auto simp: running_def)
qed

lemma kreach_kinv: "kreach s \<Longrightarrow> \<exists>rs qs. kinv s rs qs"
  by (induction rule: kreach.induct) (use kboot_kinv kstep_kinv in blast)+

section \<open>Properties\<close>

text \<open>
  C4. In every reachable state of the kernel, however the operations of threads, interrupts and
  processors interleave: the ready list and the buckets of the sleep queue are well-formed
  lists without repetition; a thread is on the ready list exactly when it is ready, on the
  bucket of its resource exactly when it has registered to sleep, and on a processor exactly
  when it is running or dying; no thread is on two lists and no thread is lost.
\<close>

theorem kernel_lists_invariant: "kreach s \<Longrightarrow> \<exists>rs qs. kinv s rs qs"
  by (rule kreach_kinv)

theorem kernel_lists_invariant_witness:
  "\<exists>rs qs. kinv (kboot 0x80100000 0x80001000 blank_state) rs qs"
  by (rule kernel_lists_invariant [OF kreach.boot])

text \<open>
  C10. In every reachable state no kernel assertion of the scheduler, the sleep queue or the
  thread functions can fail and no list traversal runs for ever: the scheduler, both
  wake functions and thread creation return for every argument, and a running thread can go
  to sleep and end.
\<close>

theorem kernel_progress:
  assumes "kreach s"
  shows "(\<forall>c < CONFIG_MAX_CPUS. \<exists>s'. scheduler_schedule s c rnd = Inr s')
    \<and> (\<exists>s'. sleepq_wake s r = Some (Inr s')) \<and> (\<exists>s'. sleepq_wake_all s r = Some (Inr s'))
    \<and> (\<exists>t s'. thread_create stacks fin s func arg = Inr (t, s'))
    \<and> (\<forall>c. running s c \<and> r \<noteq> 0 \<longrightarrow> (\<exists>s'. sleepq_add s c 0 r = Some (Inr s')))
    \<and> (\<forall>c. running s c \<and> pagetable (th s (scheduler_current_thread s ! c)) = 0
         \<longrightarrow> (\<exists>s'. thread_finish s c intr rnd = Inr s'))"
proof -
  obtain rs qs where inv: "kinv s rs qs" using kreach_kinv [OF assms] by blast
  have "\<exists>s'. sleepq_wake s r = Some (Inr s')"
    using sleepq_wake_kinv [OF inv refl, of r] by (cases "waiting s qs r") auto
  moreover have "\<exists>s'. sleepq_add s c 0 r = Some (Inr s')" if "running s c" "r \<noteq> 0" for c
    using sleepq_add_kinv [OF inv, of c _ 0 r] that by (auto simp: running_def)
  moreover have "\<exists>s'. thread_finish s c intr rnd = Inr s'"
    if "running s c" "pagetable (th s (scheduler_current_thread s ! c)) = 0" for c
    using thread_finish_kinv [OF inv, of c _ intr rnd] that by (auto simp: running_def)
  ultimately show ?thesis
    using schedule_kinv [OF inv, of _ rnd] wake_all_kinv [OF inv, of r]
      thread_create_kinv [OF inv, of stacks fin func arg] by blast
qed

theorem kernel_progress_witness:
  "\<exists>s'. scheduler_schedule (kboot 0x80100000 0x80001000 blank_state) 0 5 = Inr s'"
  using kernel_progress [OF kreach.boot, where rnd = 5 and stacks = 0 and fin = 0 and func = 0 and arg = 0
      and intr = False and r = 1] by auto

text \<open>
  The scheduler is round-robin: a thread that was running and is neither sleeping nor dying
  goes to the end of the ready list, the first thread of the list gets the processor, the idle
  thread only when the list is empty, and the queues of sleepers do not change.
\<close>

theorem schedule_round_robin:
  assumes "kinv s rs qs" "c < CONFIG_MAX_CPUS"
  shows "\<exists>s'. scheduler_schedule s c rnd = Inr s' \<and> kinv s' (tl (requeued s c rs)) qs
    \<and> scheduler_current_thread s' =
        (scheduler_current_thread s)[c := if requeued s c rs = [] then IDLE_THREAD_TID else hd (requeued s c rs)]
    \<and> (\<forall>r. waiting s' qs r = waiting s qs r)"
  using schedule_kinv [OF assms, of rnd] waiting_same [OF assms(1)] by blast

theorem schedule_round_robin_witness:
  "\<exists>s'. scheduler_schedule (kboot 0x80100000 0x80001000 blank_state) 1 5 = Inr s' \<and> kinv s' [] (\<lambda>_. [])"
proof -
  let ?s = "kboot 0x80100000 0x80001000 blank_state"
  have "kinv ?s [] (\<lambda>_. [])" by (rule kboot_kinv)
  moreover have "requeued ?s 1 [] = []" by (simp add: requeued_def kboot_def scheduler_init_def)
  ultimately show ?thesis using schedule_round_robin [of ?s "[]" "\<lambda>_. []" 1 5] by auto
qed

text \<open>
  \<^verbatim>\<open>sleepq_wake\<close> takes the thread that has waited longest for the resource off its
  queue and, if it is already asleep, appends it to the ready list; the queues of all other
  resources, also those in the same bucket, stay as they are. With nobody waiting it changes
  nothing.
\<close>

theorem sleepq_wake_longest_waiting:
  assumes inv: "kinv s rs qs"
  shows "case waiting s qs r of
      [] \<Rightarrow> sleepq_wake s r = Some (Inr s)
    | w # ws \<Rightarrow> \<exists>s' qs'. sleepq_wake s r = Some (Inr s') \<and> kinv s' (rs @ woken s w) qs'
        \<and> waiting s' qs' r = ws \<and> (\<forall>r'. r' \<noteq> r \<longrightarrow> waiting s' qs' r' = waiting s qs r')"
proof (cases "waiting s qs r")
  case (Cons w ws)
  then show ?thesis
    using sleepq_wake_kinv [OF inv refl, of r] waiting_remove [OF inv Cons] by fastforce
qed (use sleepq_wake_kinv [OF inv refl, of r] in simp)

theorem sleepq_wake_longest_waiting_witness:
  "sleepq_wake (kboot 0x80100000 0x80001000 blank_state) 7 = Some (Inr (kboot 0x80100000 0x80001000 blank_state))"
  using sleepq_wake_longest_waiting [OF kboot_kinv, of "0x80100000" "0x80001000" blank_state 7]
  by (simp add: waiting_def)

text \<open>
  C5. No wake-up is lost: when a thread has registered with \<^verbatim>\<open>sleepq_add\<close> and is woken
  before it gives up the processor, it is ready, and not asleep, after it has given it up.
\<close>

theorem no_lost_wakeup:
  assumes inv: "kinv s rs qs" and run: "running s c" and r: "r \<noteq> 0" and first: "waiting s qs r = []"
    and t: "t = scheduler_current_thread s ! c"
  shows "\<exists>s1 s2 s3. sleepq_add s c 0 r = Some (Inr s1) \<and> sleepq_wake s1 r = Some (Inr s2)
    \<and> scheduler_schedule s2 c rnd = Inr s3
    \<and> (state (th s3 t) = THREAD_READY \<or> scheduler_current_thread s3 ! c = t)"
proof -
  have inv': "kinv_on s (scheduler_current_thread s) rs qs" using inv by (simp add: kinv_def)
  have c: "c < 4" "t \<noteq> 0" and st: "state (th s t) = THREAD_RUNNING" "sleeps_on (th s t) = 0"
    using run t by (auto simp: running_def)
  have lc: "length (scheduler_current_thread s) = 4" using inv' by (simp add: kinv_on_def kshape_def)
  then have tin: "t \<in> set (scheduler_current_thread s)" using c t by simp
  then have tok: "tid_ok t" using inv' c by (auto simp: kinv_on_def kshape_def)
  have out: "t \<notin> set (qs h)" if "h < 127" for h
    using kinv_thread [OF inv' tok] st that by (auto simp: kthread_def)
  obtain s1 where s1: "sleepq_add s c 0 r = Some (Inr s1)"
    "kinv s1 rs (qs(SLEEPQ_HASH r := qs (SLEEPQ_HASH r) @ [t]))"
    "\<And>u. 0 \<le> u \<Longrightarrow> u < 32 \<Longrightarrow> sleeps_on (th s1 u) = (if u = t then r else sleeps_on (th s u))"
    "scheduler_current_thread s1 = scheduler_current_thread s" "state (th s1 t) = THREAD_RUNNING"
    using sleepq_add_kinv [OF inv c(1) t [symmetric] c(2) st, of 0 r] r st(1) tok by (auto simp: tid_ok_def)
  have w1: "waiting s1 (qs(SLEEPQ_HASH r := qs (SLEEPQ_HASH r) @ [t])) r = [t]"
    using waiting_add [OF inv _ s1(3) out tok] out first by simp
  obtain s2 rs2 qs2 where s2: "sleepq_wake s1 r = Some (Inr s2)" "kinv s2 rs2 qs2"
    "scheduler_current_thread s2 = scheduler_current_thread s"
    "sleeps_on (th s2 t) = 0" "state (th s2 t) = THREAD_RUNNING"
    using sleepq_wake_kinv [OF s1(2) refl, of r] w1 s1(4,5) tok by (fastforce simp: tid_ok_def)
  then have rq: "requeued s2 c rs2 = rs2 @ [t]" using t c by (simp add: requeued_def Let_def)
  obtain s3 where s3: "scheduler_schedule s2 c rnd = Inr s3" "kinv s3 (tl (rs2 @ [t])) qs2"
    "scheduler_current_thread s3 = (scheduler_current_thread s2)[c := hd (rs2 @ [t])]"
    using schedule_kinv [OF s2(2) c(1), of rnd] rq by auto
  have "state (th s3 t) = THREAD_READY \<or> scheduler_current_thread s3 ! c = t"
  proof (cases rs2)
    case Nil
    then show ?thesis using s3(3) s2(3) c lc by simp
  next
    case (Cons u us)
    then have "t \<in> set (tl (rs2 @ [t]))" by simp
    then show ?thesis using kinv_on_ready s3(2) unfolding kinv_def by blast
  qed
  with s1(1) s2(1) s3(1) show ?thesis by blast
qed

text \<open>A state in which thread 1 runs on processor 0.\<close>

definition one_running :: kstate where
  "one_running = (kboot 0x80100000 0x80001000 blank_state)
     \<lparr>thread_table := (thread_table (kboot 0x80100000 0x80001000 blank_state))
        [1 := blank_thread\<lparr>state := THREAD_RUNNING\<rparr>], scheduler_current_thread := [1, 0, 0, 0]\<rparr>"

lemma one_running_kinv: "kinv one_running [] (\<lambda>_. [])"
proof -
  let ?b = "kboot 0x80100000 0x80001000 blank_state"
  have b: "kinv_on ?b (scheduler_current_thread ?b) [] (\<lambda>_. [])" using kboot_kinv by (simp add: kinv_def)
  have cur: "scheduler_current_thread ?b = replicate 4 0" by (simp add: kboot_def scheduler_init_def)
  have "kinv_but 1 ?b [1, 0, 0, 0] [] (\<lambda>_. [])"
    using b cur by (auto simp: kinv_but_def kinv_on_def kshape_def kthread_def tid_ok_def numeral_eq_Suc)
  then have "kinv_on (?b\<lparr>thread_table := (thread_table ?b)[nat 1 := blank_thread\<lparr>state := THREAD_RUNNING\<rparr>]\<rparr>)
      [1, 0, 0, 0] [] (\<lambda>_. [])"
    by (rule kinv_set) (auto simp: kthread_def blank_thread_def)
  then show ?thesis
    by (simp add: kinv_def one_running_def kinv_on_def kshape_def ready_queue_def)
qed

theorem no_lost_wakeup_witness:
  "\<exists>s1 s2 s3. sleepq_add one_running 0 0 9 = Some (Inr s1) \<and> sleepq_wake s1 9 = Some (Inr s2)
    \<and> scheduler_schedule s2 0 5 = Inr s3
    \<and> (state (th s3 1) = THREAD_READY \<or> scheduler_current_thread s3 ! 0 = 1)"
proof -
  have "thread_table one_running ! 1 = blank_thread\<lparr>state := THREAD_RUNNING\<rparr>"
    using kinv_table_length [of one_running] one_running_kinv by (simp add: kinv_def one_running_def)
  then have "running one_running 0"
    by (simp add: running_def one_running_def blank_thread_def)
  then show ?thesis
    using no_lost_wakeup [OF one_running_kinv, of 0 9 1 5] by (simp add: waiting_def one_running_def)
qed

end
