(* ===== verification/Semaphore.thy ===== *)
theory Semaphore
  imports Sleepq
begin

text \<open>
  \<^verbatim>\<open>kernel/semaphore.c\<close>. A semaphore is an index of the semaphore table; its address,
  \<open>sem_addr\<close>, is the resource that its waiters sleep on. A \<^verbatim>\<open>NULL\<close> pointer is \<open>None\<close>.

  \<open>semaphore_P\<close> ends with a call of the scheduler when it blocks. Its part under the
  semaphore's spinlock is \<open>P_locked\<close>; between that part and the call of the scheduler other
  processors may run, so the two are separate steps of the transition system \<open>semreach\<close>.
  It counts the calls of P and V on one semaphore. The value of a semaphore is a C integer, so
  that it wraps around (\<open>c_int\<close>).
\<close>

section \<open>The code\<close>

record semaphore_t =
  sem_value :: int
  creator :: int

record semstate =
  kern :: kstate
  semaphore_table :: "semaphore_t list"
  next_sem :: int

abbreviation (input) CONFIG_MAX_SEMAPHORES :: nat where
  "CONFIG_MAX_SEMAPHORES \<equiv> 128"

definition sem_addr :: "u32 \<Rightarrow> nat \<Rightarrow> u32" where
  "sem_addr base i = base + 12 * of_nat i"

definition semaphore_init :: "semstate \<Rightarrow> semstate" where
  "semaphore_init s = s\<lparr>semaphore_table := map (\<lambda>x. x\<lparr>creator := -1\<rparr>) (semaphore_table s)\<rparr>"

text \<open>The search loop: the identifier found, if any, and the state.\<close>

fun sem_search :: "semstate \<Rightarrow> nat \<Rightarrow> nat \<Rightarrow> (nat option \<times> semstate) res" where
  "sem_search s cpu 0 = Inr (None, s)"
| "sem_search s cpu (Suc n) =
     (let sem_id = next_sem s;
          s1 = s\<lparr>next_sem := (next_sem s + 1) mod int CONFIG_MAX_SEMAPHORES\<rparr>
      in rbind (aget (semaphore_table s1) sem_id) (\<lambda>x.
           if creator x = -1 then
             rbind (thread_get_current_thread (kern s1) cpu) (\<lambda>t.
             rbind (aset (semaphore_table s1) sem_id (x\<lparr>creator := t\<rparr>)) (\<lambda>tab.
               Inr (Some (nat sem_id), s1\<lparr>semaphore_table := tab\<rparr>)))
           else sem_search s1 cpu n))"

definition semaphore_create :: "semstate \<Rightarrow> nat \<Rightarrow> int \<Rightarrow> (nat option \<times> semstate) res" where
  "semaphore_create s cpu v =
     (if \<not> v \<ge> 0 then Inl Kernel_assert
      else rbind (sem_search s cpu CONFIG_MAX_SEMAPHORES) (\<lambda>(r, s1).
        case r of
          None \<Rightarrow> Inr (None, s1)
        | Some i \<Rightarrow> rbind (aget (semaphore_table s1) (int i)) (\<lambda>x.
            rbind (aset (semaphore_table s1) (int i) (x\<lparr>sem_value := v\<rparr>)) (\<lambda>tab.
              Inr (Some i, s1\<lparr>semaphore_table := tab\<rparr>)))))"

definition upd_sem :: "semstate \<Rightarrow> nat \<Rightarrow> (semaphore_t \<Rightarrow> semaphore_t) \<Rightarrow> semstate res" where
  "upd_sem s i f =
     rbind (aget (semaphore_table s) (int i)) (\<lambda>x.
     rbind (aset (semaphore_table s) (int i) (f x)) (\<lambda>tab. Inr (s\<lparr>semaphore_table := tab\<rparr>)))"

definition semaphore_destroy :: "semstate \<Rightarrow> nat \<Rightarrow> semstate res" where
  "semaphore_destroy s i = upd_sem s i (\<lambda>x. x\<lparr>creator := -1\<rparr>)"

text \<open>
  The part of \<open>semaphore_P\<close> under the spinlock, with interrupts disabled (interrupt status
  0); the flag tells whether the thread has to give up the processor.
\<close>

definition P_locked :: "u32 \<Rightarrow> semstate \<Rightarrow> nat \<Rightarrow> nat \<Rightarrow> (bool \<times> semstate) ores" where
  "P_locked base s cpu i =
     obind (Some (upd_sem s i (\<lambda>x. x\<lparr>sem_value := c_int (sem_value x - 1)\<rparr>))) (\<lambda>s1.
     obind (Some (aget (semaphore_table s1) (int i))) (\<lambda>x.
       if sem_value x < 0
       then obind (sleepq_add (kern s1) cpu 0 (sem_addr base i)) (\<lambda>k. Some (Inr (True, s1\<lparr>kern := k\<rparr>)))
       else Some (Inr (False, s1))))"

definition semaphore_P :: "u32 \<Rightarrow> semstate \<Rightarrow> nat \<Rightarrow> nat \<Rightarrow> u32 \<Rightarrow> semstate ores" where
  "semaphore_P base s cpu i rnd =
     obind (P_locked base s cpu i) (\<lambda>(blocked, s1).
       if blocked
       then Some (rbind (thread_switch (kern s1) cpu rnd) (\<lambda>k. Inr (s1\<lparr>kern := k\<rparr>)))
       else Some (Inr s1))"

definition semaphore_V :: "u32 \<Rightarrow> semstate \<Rightarrow> nat \<Rightarrow> semstate ores" where
  "semaphore_V base s i =
     obind (Some (upd_sem s i (\<lambda>x. x\<lparr>sem_value := c_int (sem_value x + 1)\<rparr>))) (\<lambda>s1.
     obind (Some (aget (semaphore_table s1) (int i))) (\<lambda>x.
       if sem_value x \<le> 0
       then obind (sleepq_wake (kern s1) (sem_addr base i)) (\<lambda>k. Some (Inr (s1\<lparr>kern := k\<rparr>)))
       else Some (Inr s1)))"

section \<open>The invariant\<close>

definition base_ok :: "u32 \<Rightarrow> bool" where
  "base_ok base \<longleftrightarrow> 0 < unat base \<and> unat base + 12 * CONFIG_MAX_SEMAPHORES \<le> 2 ^ 32"

definition sem_inv :: "u32 \<Rightarrow> semstate \<Rightarrow> int list \<Rightarrow> (nat \<Rightarrow> int list) \<Rightarrow> bool" where
  "sem_inv base s rs qs \<longleftrightarrow> kinv (kern s) rs qs \<and> length (semaphore_table s) = CONFIG_MAX_SEMAPHORES
     \<and> 0 \<le> next_sem s \<and> next_sem s < int CONFIG_MAX_SEMAPHORES
     \<and> (\<forall>i < CONFIG_MAX_SEMAPHORES. sem_value (semaphore_table s ! i) \<le> INT_MAX)
     \<and> (\<forall>i < CONFIG_MAX_SEMAPHORES.
          length (waiting (kern s) qs (sem_addr base i)) =
            (if creator (semaphore_table s ! i) = -1 then 0 else nat (- sem_value (semaphore_table s ! i))))"

lemma sem_addr_unat: "base_ok base \<Longrightarrow> i < 128 \<Longrightarrow> unat (sem_addr base i) = unat base + 12 * i"
  using unat_plus_less [of base "12 * i"] by (simp add: base_ok_def sem_addr_def)

lemma sem_addr_inj: "base_ok base \<Longrightarrow> i < 128 \<Longrightarrow> j < 128 \<Longrightarrow> sem_addr base i = sem_addr base j \<longleftrightarrow> i = j"
  using sem_addr_unat by (metis add_left_cancel mult_cancel1 zero_neq_numeral)

lemma sem_addr_nonzero: "base_ok base \<Longrightarrow> i < 128 \<Longrightarrow> sem_addr base i \<noteq> 0"
  using sem_addr_unat [of base i] by (auto simp: base_ok_def)

lemma upd_sem_eq:
  "i < length (semaphore_table s) \<Longrightarrow>
    upd_sem s i f = Inr (s\<lparr>semaphore_table := (semaphore_table s)[i := f (semaphore_table s ! i)]\<rparr>)"
  by (simp add: upd_sem_def)

lemma sem_inv_value:
  "sem_inv base s rs qs \<Longrightarrow> i < 128 \<Longrightarrow> creator (semaphore_table s ! i) \<noteq> -1 \<Longrightarrow>
    length (waiting (kern s) qs (sem_addr base i)) = nat (- sem_value (semaphore_table s ! i))"
  by (simp add: sem_inv_def)

text \<open>
  There are 31 threads besides the idle thread, so a semaphore has few waiters.
\<close>

lemma waiting_few:
  assumes "kinv k rs qs"
  shows "length (waiting k qs r) \<le> 31"
proof -
  have i: "kinv_on k (scheduler_current_thread k) rs qs" using assms by (simp add: kinv_def)
  have "chain (thread_table k) (sleepq_hashtable k ! SLEEPQ_HASH r) (qs (SLEEPQ_HASH r))" "distinct (qs (SLEEPQ_HASH r))"
    using kinv_bucket [OF i hash_less] by auto
  then have "distinct (qs (SLEEPQ_HASH r))" "\<forall>t \<in> set (qs (SLEEPQ_HASH r)). tid_ok t" using chain_tids by blast+
  then have "distinct (waiting k qs r)" "set (waiting k qs r) \<subseteq> {1..31}" by (auto simp: waiting_def tid_ok_def)
  then show ?thesis using card_mono [of "{1..31 :: int}" "set (waiting k qs r)"] distinct_card [of "waiting k qs r"] by simp
qed

text \<open>What P and V do, whatever the value of the semaphore is.\<close>

definition sem_put :: "nat \<Rightarrow> int \<Rightarrow> kstate \<Rightarrow> semstate \<Rightarrow> semstate" where
  "sem_put i v k s = s\<lparr>semaphore_table := (semaphore_table s)[i := (semaphore_table s ! i)\<lparr>sem_value := v\<rparr>], kern := k\<rparr>"

lemma sem_put_simps [simp]:
  "kern (sem_put i v k s) = k" "next_sem (sem_put i v k s) = next_sem s"
  "semaphore_table (sem_put i v k s) = (semaphore_table s)[i := (semaphore_table s ! i)\<lparr>sem_value := v\<rparr>]"
  by (simp_all add: sem_put_def)

text \<open>
  The invariant after a change of one semaphore and of the queues.
\<close>

lemma sem_inv_upd:
  assumes inv: "sem_inv base s rs qs" and i: "i < 128"
    and k: "kinv k rs' qs'"
    and w: "\<And>j. j < 128 \<Longrightarrow> j \<noteq> i \<Longrightarrow> waiting k qs' (sem_addr base j) = waiting (kern s) qs (sem_addr base j)"
    and x: "length (waiting k qs' (sem_addr base i)) = (if creator x = -1 then 0 else nat (- sem_value x))" "sem_value x \<le> INT_MAX"
  shows "sem_inv base (s\<lparr>semaphore_table := (semaphore_table s)[i := x], kern := k\<rparr>) rs' qs'"
  using assms by (auto simp: sem_inv_def nth_list_update)

section \<open>P and V\<close>

lemma kern_frame [simp]: "s\<lparr>semaphore_table := t, kern := kern s\<rparr> = s\<lparr>semaphore_table := t\<rparr>"
  by (cases s) simp

lemma add_waiting:
  assumes inv: "kinv k rs qs" and run: "running k c" and r: "r \<noteq> 0"
  shows "\<exists>k' qs'. sleepq_add k c 0 r = Some (Inr k') \<and> kinv k' rs qs'
    \<and> (\<forall>r'. waiting k' qs' r' = (if r' = r then waiting k qs r @ [scheduler_current_thread k ! c] else waiting k qs r'))"
proof -
  let ?t = "scheduler_current_thread k ! c"
  have inv': "kinv_on k (scheduler_current_thread k) rs qs" using inv by (simp add: kinv_def)
  have c: "c < 4" "?t \<noteq> 0" and st: "state (th k ?t) = THREAD_RUNNING" "sleeps_on (th k ?t) = 0"
    using run by (auto simp: running_def)
  have "length (scheduler_current_thread k) = 4" using inv' by (simp add: kinv_on_def kshape_def)
  then have tok: "tid_ok ?t" using inv' c nth_mem [of c "scheduler_current_thread k"]
    by (auto simp: kinv_on_def kshape_def)
  have out: "?t \<notin> set (qs h)" if "h < 127" for h
    using kinv_thread [OF inv' tok] st that by (auto simp: kthread_def)
  obtain k' where "sleepq_add k c 0 r = Some (Inr k')"
    "kinv k' rs (qs(SLEEPQ_HASH r := qs (SLEEPQ_HASH r) @ [?t]))"
    "\<And>u. 0 \<le> u \<Longrightarrow> u < 32 \<Longrightarrow> sleeps_on (th k' u) = (if u = ?t then r else sleeps_on (th k u))"
    using sleepq_add_kinv [OF inv c(1) refl c(2) st, of 0 r] r by auto
  then show ?thesis using waiting_add [OF inv _ _ out tok, of r k'] out by (intro exI) auto
qed

lemma sem_inv_int:
  assumes "sem_inv base s rs qs" "i < 128" "creator (semaphore_table s ! i) \<noteq> -1"
  shows "-31 \<le> sem_value (semaphore_table s ! i)" "sem_value (semaphore_table s ! i) \<le> INT_MAX"
proof -
  have "kinv (kern s) rs qs" "sem_value (semaphore_table s ! i) \<le> INT_MAX" using assms by (auto simp: sem_inv_def)
  then show "sem_value (semaphore_table s ! i) \<le> INT_MAX" "-31 \<le> sem_value (semaphore_table s ! i)"
    using waiting_few [of "kern s" rs qs "sem_addr base i"] sem_inv_value [OF assms] by auto
qed

lemma P_step:
  assumes k: "kinv (kern s) rs qs" and l: "length (semaphore_table s) = 128" "j < 128" and base: "base_ok base" and run: "running (kern s) c"
  defines "v \<equiv> c_int (sem_value (semaphore_table s ! j) - 1)"
  shows "\<exists>k' qs'. P_locked base s c j = Some (Inr (v < 0, sem_put j v k' s)) \<and> kinv k' rs qs'
    \<and> (\<forall>r. waiting k' qs' r = waiting (kern s) qs r @ (if v < 0 \<and> r = sem_addr base j then [scheduler_current_thread (kern s) ! c] else []))"
proof (cases "v < 0")
  case True
  from add_waiting [OF k run sem_addr_nonzero [OF base l(2)]] obtain k' qs' where
    k': "sleepq_add (kern s) c 0 (sem_addr base j) = Some (Inr k')" "kinv k' rs qs'"
    "\<forall>r. waiting k' qs' r = (if r = sem_addr base j then waiting (kern s) qs (sem_addr base j) @ [scheduler_current_thread (kern s) ! c] else waiting (kern s) qs r)" by blast
  then have "P_locked base s c j = Some (Inr (v < 0, sem_put j v k' s))"
    using True l by (simp add: P_locked_def upd_sem_eq v_def [symmetric] sem_put_def)
  then show ?thesis using k' True by (intro exI [of _ k'] exI [of _ qs']) auto
next
  case False
  then have "P_locked base s c j = Some (Inr (v < 0, sem_put j v (kern s) s))"
    using l by (simp add: P_locked_def upd_sem_eq v_def [symmetric] sem_put_def)
  then show ?thesis using k False by (intro exI [of _ "kern s"] exI [of _ qs]) auto
qed

lemma V_step:
  assumes k: "kinv (kern s) rs qs" and l: "length (semaphore_table s) = 128" "j < 128"
  defines "v \<equiv> c_int (sem_value (semaphore_table s ! j) + 1)"
  shows "\<exists>k' rs' qs'. semaphore_V base s j = Some (Inr (sem_put j v k' s)) \<and> kinv k' rs' qs'
    \<and> (\<forall>r. waiting k' qs' r = (if v \<le> 0 \<and> r = sem_addr base j then tl (waiting (kern s) qs r) else waiting (kern s) qs r))"
proof -
  let ?a = "sem_addr base j"
  have e: "semaphore_V base s j = (if v \<le> 0 then obind (sleepq_wake (kern s) ?a) (\<lambda>k. Some (Inr (sem_put j v k s))) else Some (Inr (sem_put j v (kern s) s)))"
    using l by (simp add: semaphore_V_def upd_sem_eq v_def [symmetric] sem_put_def)
  show ?thesis
  proof (cases "v \<le> 0")
    case True
    show ?thesis
    proof (cases "waiting (kern s) qs ?a")
      case Nil
      then have "sleepq_wake (kern s) ?a = Some (Inr (kern s))" using sleepq_wake_kinv [OF k refl, of ?a] by simp
      then show ?thesis using e True k Nil by (intro exI [of _ "kern s"] exI [of _ rs] exI [of _ qs]) auto
    next
      case (Cons w ws)
      then obtain k' where k': "sleepq_wake (kern s) ?a = Some (Inr k')"
        "kinv k' (rs @ woken (kern s) w) (qs(SLEEPQ_HASH ?a := remove1 w (qs (SLEEPQ_HASH ?a))))"
        "\<And>u. 0 \<le> u \<Longrightarrow> u < 32 \<Longrightarrow> sleeps_on (th k' u) = (if u = w then 0 else sleeps_on (th (kern s) u))"
        using sleepq_wake_kinv [OF k refl, of ?a] by auto
      note rm = waiting_remove [OF k Cons k'(3)]
      show ?thesis using e True k'(1,2) rm Cons
        by (intro exI [of _ k'] exI [of _ "rs @ woken (kern s) w"] exI [of _ "qs(SLEEPQ_HASH ?a := remove1 w (qs (SLEEPQ_HASH ?a)))"]) auto
    qed
  next
    case False
    then show ?thesis using e k by (intro exI [of _ "kern s"] exI [of _ rs] exI [of _ qs]) auto
  qed
qed

lemma P_spec:
  assumes inv: "sem_inv base s rs qs" and base: "base_ok base" and i: "i < 128" "creator (semaphore_table s ! i) \<noteq> -1"
    and run: "running (kern s) c"
  defines "x \<equiv> semaphore_table s ! i"
  defines "s1 \<equiv> s\<lparr>semaphore_table := (semaphore_table s)[i := x\<lparr>sem_value := sem_value x - 1\<rparr>]\<rparr>"
  shows "if 0 < sem_value x
         then P_locked base s c i = Some (Inr (False, s1)) \<and> sem_inv base s1 rs qs
         else \<exists>k qs'. P_locked base s c i = Some (Inr (True, s1\<lparr>kern := k\<rparr>)) \<and> sem_inv base (s1\<lparr>kern := k\<rparr>) rs qs'
           \<and> waiting k qs' (sem_addr base i) = waiting (kern s) qs (sem_addr base i) @ [scheduler_current_thread (kern s) ! c]"
proof -
  have k: "kinv (kern s) rs qs" and l: "length (semaphore_table s) = 128" using inv by (auto simp: sem_inv_def)
  have len: "length (waiting (kern s) qs (sem_addr base i)) = nat (- sem_value x)"
    using sem_inv_value [OF inv i] by (simp add: x_def)
  have ci: "c_int (sem_value (semaphore_table s ! i) - 1) = sem_value (semaphore_table s ! i) - 1"
    using sem_inv_int [OF inv i] by simp
  have le: "sem_value x - 1 \<le> INT_MAX" using sem_inv_int [OF inv i] by (simp add: x_def)
  show ?thesis
  proof (cases "0 < sem_value x")
    case True
    then have "P_locked base s c i = Some (Inr (False, s1))"
      using i l by (simp add: P_locked_def upd_sem_eq s1_def x_def ci)
    moreover have "sem_inv base (s\<lparr>semaphore_table := (semaphore_table s)[i := x\<lparr>sem_value := sem_value x - 1\<rparr>], kern := kern s\<rparr>) rs qs"
      using inv i(1) k by (rule sem_inv_upd) (use len True i le in \<open>auto simp: x_def\<close>)
    ultimately show ?thesis using True by (simp add: s1_def)
  next
    case False
    obtain k' qs' where k': "sleepq_add (kern s) c 0 (sem_addr base i) = Some (Inr k')" "kinv k' rs qs'"
      "\<forall>r'. waiting k' qs' r' = (if r' = sem_addr base i
         then waiting (kern s) qs (sem_addr base i) @ [scheduler_current_thread (kern s) ! c] else waiting (kern s) qs r')"
      using add_waiting [OF k run sem_addr_nonzero [OF base i(1)]] by blast
    have "sem_inv base (s\<lparr>semaphore_table := (semaphore_table s)[i := x\<lparr>sem_value := sem_value x - 1\<rparr>], kern := k'\<rparr>) rs qs'"
      using inv i(1) k'(2)
      by (rule sem_inv_upd) (use k'(3) len False i base le in \<open>auto simp: x_def sem_addr_inj\<close>)
    moreover have "P_locked base s c i = Some (Inr (True, s1\<lparr>kern := k'\<rparr>))"
      using False i l k'(1) by (simp add: P_locked_def upd_sem_eq s1_def x_def ci)
    moreover have "s\<lparr>semaphore_table := (semaphore_table s)[i := x\<lparr>sem_value := sem_value x - 1\<rparr>], kern := k'\<rparr> = s1\<lparr>kern := k'\<rparr>"
      by (simp add: s1_def)
    ultimately have "P_locked base s c i = Some (Inr (True, s1\<lparr>kern := k'\<rparr>)) \<and> sem_inv base (s1\<lparr>kern := k'\<rparr>) rs qs'"
      by metis
    then show ?thesis using False k'(3) by (simp only: if_False) (metis (no_types, lifting))
  qed
qed

lemma V_spec:
  assumes inv: "sem_inv base s rs qs" and base: "base_ok base" and i: "i < 128" "creator (semaphore_table s ! i) \<noteq> -1"
    and max: "sem_value (semaphore_table s ! i) < INT_MAX"
  defines "x \<equiv> semaphore_table s ! i"
  defines "s1 \<equiv> s\<lparr>semaphore_table := (semaphore_table s)[i := x\<lparr>sem_value := sem_value x + 1\<rparr>]\<rparr>"
  shows "if 0 \<le> sem_value x
         then semaphore_V base s i = Some (Inr s1) \<and> sem_inv base s1 rs qs
         else \<exists>k qs' w. semaphore_V base s i = Some (Inr (s1\<lparr>kern := k\<rparr>)) 
           \<and> waiting (kern s) qs (sem_addr base i) = w # waiting k qs' (sem_addr base i)
           \<and> sem_inv base (s1\<lparr>kern := k\<rparr>) (rs @ woken (kern s) w) qs'"
proof -
  have k: "kinv (kern s) rs qs" and l: "length (semaphore_table s) = 128" using inv by (auto simp: sem_inv_def)
  let ?a = "sem_addr base i"
  have len: "length (waiting (kern s) qs ?a) = nat (- sem_value x)"
    using sem_inv_value [OF inv i] by (simp add: x_def)
  let ?x = "x\<lparr>sem_value := sem_value x + 1\<rparr>"
  have ci: "c_int (sem_value (semaphore_table s ! i) + 1) = sem_value (semaphore_table s ! i) + 1"
    using sem_inv_int [OF inv i] max by simp
  have le: "sem_value x + 1 \<le> INT_MAX" using max by (simp add: x_def)
  show ?thesis
  proof (cases "waiting (kern s) qs ?a")
    case Nil
    then have ge: "0 \<le> sem_value x" using len by simp
    have wake: "sleepq_wake (kern s) ?a = Some (Inr (kern s))"
      using sleepq_wake_kinv [OF k refl, of ?a] Nil by simp
    have "semaphore_V base s i = Some (Inr s1)"
      using i l wake by (simp add: semaphore_V_def upd_sem_eq s1_def x_def ci)
    moreover have "sem_inv base (s\<lparr>semaphore_table := (semaphore_table s)[i := ?x], kern := kern s\<rparr>) rs qs"
      using inv i(1) k by (rule sem_inv_upd) (use len ge i le in \<open>auto simp: x_def\<close>)
    ultimately show ?thesis using ge by (simp add: s1_def)
  next
    case (Cons w ws)
    then have lt: "sem_value x < 0" using len by (cases "sem_value x < 0") auto
    obtain k' where k': "sleepq_wake (kern s) ?a = Some (Inr k')"
      "kinv k' (rs @ woken (kern s) w) (qs(SLEEPQ_HASH ?a := remove1 w (qs (SLEEPQ_HASH ?a))))"
      "\<And>u. 0 \<le> u \<Longrightarrow> u < 32 \<Longrightarrow> sleeps_on (th k' u) = (if u = w then 0 else sleeps_on (th (kern s) u))"
      using sleepq_wake_kinv [OF k refl, of ?a] Cons by auto
    let ?qs = "qs(SLEEPQ_HASH ?a := remove1 w (qs (SLEEPQ_HASH ?a)))"
    note rm = waiting_remove [OF k Cons k'(3)]
    have "sem_inv base (s\<lparr>semaphore_table := (semaphore_table s)[i := ?x], kern := k'\<rparr>) (rs @ woken (kern s) w) ?qs"
      using inv i(1) k'(2)
      by (rule sem_inv_upd) (use rm len lt Cons i base le in \<open>auto simp: x_def sem_addr_inj\<close>)
    moreover have "semaphore_V base s i = Some (Inr (s1\<lparr>kern := k'\<rparr>))"
      using lt i l k'(1) by (simp add: semaphore_V_def upd_sem_eq s1_def x_def ci)
    moreover have "waiting k' ?qs ?a = ws" using rm by simp
    ultimately show ?thesis
      using lt Cons by (simp add: s1_def) blast
  qed
qed

section \<open>Creation\<close>

lemma sem_search_spec:
  assumes "length (semaphore_table s) = 128" "0 \<le> next_sem s" "next_sem s < 128"
    and "thread_get_current_thread (kern s) c = Inr t"
  shows "\<exists>r nx. 0 \<le> nx \<and> nx < 128 \<and>
    (case r of
       None \<Rightarrow> sem_search s c n = Inr (None, s\<lparr>next_sem := nx\<rparr>)
         \<and> (\<forall>j < n. creator (semaphore_table s ! nat ((next_sem s + int j) mod 128)) \<noteq> -1)
     | Some i \<Rightarrow> i < 128 \<and> creator (semaphore_table s ! i) = -1 \<and>
         sem_search s c n = Inr (Some i, s\<lparr>next_sem := nx,
           semaphore_table := (semaphore_table s)[i := (semaphore_table s ! i)\<lparr>creator := t\<rparr>]\<rparr>))"
  using assms
proof (induction n arbitrary: s)
  case 0
  then show ?case by (intro exI [of _ None] exI [of _ "next_sem s"]) simp
next
  case (Suc n)
  let ?id = "next_sem s" and ?s1 = "s\<lparr>next_sem := (next_sem s + 1) mod 128\<rparr>"
  have get: "aget (semaphore_table s) ?id = Inr (semaphore_table s ! nat ?id)"
    using Suc.prems by (simp add: aget_def)
  show ?case
  proof (cases "creator (semaphore_table s ! nat ?id) = -1")
    case True
    then have "sem_search s c (Suc n) = Inr (Some (nat ?id), ?s1\<lparr>semaphore_table :=
        (semaphore_table s)[nat ?id := (semaphore_table s ! nat ?id)\<lparr>creator := t\<rparr>]\<rparr>)"
      using get Suc.prems by (simp add: Let_def aset_def)
    with True Suc.prems show ?thesis
      by (intro exI [of _ "Some (nat ?id)"] exI [of _ "(next_sem s + 1) mod 128"]) (auto simp: nat_less_iff)
  next
    case False
    then have step: "sem_search s c (Suc n) = sem_search ?s1 c n" using get by (simp add: Let_def)
    obtain r nx where IH: "0 \<le> nx" "nx < 128"
      "case r of
         None \<Rightarrow> sem_search ?s1 c n = Inr (None, ?s1\<lparr>next_sem := nx\<rparr>)
           \<and> (\<forall>j < n. creator (semaphore_table ?s1 ! nat ((next_sem ?s1 + int j) mod 128)) \<noteq> -1)
       | Some i \<Rightarrow> i < 128 \<and> creator (semaphore_table ?s1 ! i) = -1 \<and>
           sem_search ?s1 c n = Inr (Some i, ?s1\<lparr>next_sem := nx,
             semaphore_table := (semaphore_table ?s1)[i := (semaphore_table ?s1 ! i)\<lparr>creator := t\<rparr>]\<rparr>)"
      using Suc.IH [of ?s1] Suc.prems by auto
    have "creator (semaphore_table s ! nat ((next_sem s + int j) mod 128)) \<noteq> -1"
      if "j < Suc n" "\<forall>j < n. creator (semaphore_table s ! nat (((next_sem s + 1) mod 128 + int j) mod 128)) \<noteq> -1" for j
    proof (cases j)
      case 0
      then show ?thesis using False Suc.prems by simp
    next
      case (Suc m)
      have "((next_sem s + 1) mod 128 + int m) mod 128 = (next_sem s + int j) mod 128"
        using Suc by (simp add: mod_simps algebra_simps)
      then show ?thesis using that Suc by auto
    qed
    then show ?thesis
      using IH step by (intro exI [of _ r] exI [of _ nx]) (cases r; simp)
  qed
qed

lemma create_step:
  assumes k: "kinv (kern s) rs qs" and l: "length (semaphore_table s) = 128" "0 \<le> next_sem s" "next_sem s < 128" and c: "c < 4" and v: "0 \<le> v"
  shows "\<exists>r nx. 0 \<le> nx \<and> nx < 128
    \<and> (case r of
         None \<Rightarrow> semaphore_create s c v = Inr (None, s\<lparr>next_sem := nx\<rparr>) \<and> (\<forall>i < 128. creator (semaphore_table s ! i) \<noteq> -1)
       | Some i \<Rightarrow> i < 128 \<and> creator (semaphore_table s ! i) = -1
           \<and> (\<exists>t. t \<noteq> -1 \<and> semaphore_create s c v =
                Inr (Some i, s\<lparr>next_sem := nx, semaphore_table := (semaphore_table s)[i := (semaphore_table s ! i)\<lparr>creator := t, sem_value := v\<rparr>]\<rparr>)))"
proof -
  let ?cur = "scheduler_current_thread (kern s)"
  have lc: "length ?cur = 4" "\<forall>t \<in> set ?cur. t = 0 \<or> tid_ok t" using k by (auto simp: kinv_def kinv_on_def kshape_def)
  have cur: "thread_get_current_thread (kern s) c = Inr (?cur ! c)"
    using c lc by (simp add: thread_get_current_thread_def)
  have t: "?cur ! c \<noteq> -1"
  proof -
    have "?cur ! c \<in> set ?cur" using lc(1) c by simp
    then show ?thesis using lc(2) by (auto simp: tid_ok_def)
  qed
  obtain r nx where sp: "0 \<le> nx" "nx < 128"
    "case r of
       None \<Rightarrow> sem_search s c 128 = Inr (None, s\<lparr>next_sem := nx\<rparr>)
         \<and> (\<forall>j < 128. creator (semaphore_table s ! nat ((next_sem s + int j) mod 128)) \<noteq> -1)
     | Some i \<Rightarrow> i < 128 \<and> creator (semaphore_table s ! i) = -1 \<and>
         sem_search s c 128 = Inr (Some i, s\<lparr>next_sem := nx,
           semaphore_table := (semaphore_table s)[i := (semaphore_table s ! i)\<lparr>creator := ?cur ! c\<rparr>]\<rparr>)"
    using sem_search_spec [OF l cur, of 128] by blast
  show ?thesis
  proof (cases r)
    case None
    have "creator (semaphore_table s ! i) \<noteq> -1" if "i < 128" for i
    proof -
      define j where "j = nat ((int i - next_sem s) mod 128)"
      have "j < 128" "(next_sem s + int j) mod 128 = int i" using that by (auto simp: j_def mod_simps)
      then show ?thesis using sp(3) None by fastforce
    qed
    then show ?thesis using None sp v by (intro exI [of _ None] exI [of _ nx]) (simp add: semaphore_create_def)
  next
    case (Some i)
    then have "semaphore_create s c v = Inr (Some i, s\<lparr>next_sem := nx,
        semaphore_table := (semaphore_table s)[i := (semaphore_table s ! i)\<lparr>creator := ?cur ! c, sem_value := v\<rparr>]\<rparr>)"
      using sp v l by (simp add: semaphore_create_def)
    then show ?thesis using Some sp t by (intro exI [of _ "Some i"] exI [of _ nx]) auto
  qed
qed

lemma create_spec:
  assumes inv: "sem_inv base s rs qs" and c: "c < 4" and v: "0 \<le> v" "v \<le> INT_MAX"
  shows "\<exists>r s'. semaphore_create s c v = Inr (r, s') \<and> sem_inv base s' rs qs \<and> kern s' = kern s
    \<and> (case r of
         None \<Rightarrow> semaphore_table s' = semaphore_table s \<and> (\<forall>i < 128. creator (semaphore_table s ! i) \<noteq> -1)
       | Some i \<Rightarrow> i < 128 \<and> creator (semaphore_table s ! i) = -1
           \<and> (\<exists>t. t \<noteq> -1 \<and> semaphore_table s' = (semaphore_table s)[i := (semaphore_table s ! i)\<lparr>creator := t, sem_value := v\<rparr>]))"
proof -
  have k: "kinv (kern s) rs qs" and l: "length (semaphore_table s) = 128" "0 \<le> next_sem s" "next_sem s < 128"
    using inv by (auto simp: sem_inv_def)
  obtain r nx where sp: "0 \<le> nx" "nx < 128" "case r of
         None \<Rightarrow> semaphore_create s c v = Inr (None, s\<lparr>next_sem := nx\<rparr>) \<and> (\<forall>i < 128. creator (semaphore_table s ! i) \<noteq> -1)
       | Some i \<Rightarrow> i < 128 \<and> creator (semaphore_table s ! i) = -1
           \<and> (\<exists>t. t \<noteq> -1 \<and> semaphore_create s c v =
                Inr (Some i, s\<lparr>next_sem := nx, semaphore_table := (semaphore_table s)[i := (semaphore_table s ! i)\<lparr>creator := t, sem_value := v\<rparr>]\<rparr>))"
    using create_step [OF k l c v(1)] by blast
  show ?thesis
  proof (cases r)
    case None
    moreover have "sem_inv base (s\<lparr>next_sem := nx\<rparr>) rs qs" using inv sp by (simp add: sem_inv_def)
    ultimately show ?thesis using sp by (intro exI [of _ None] exI [of _ "s\<lparr>next_sem := nx\<rparr>"]) simp
  next
    case (Some i)
    with sp obtain t where i: "i < 128" "creator (semaphore_table s ! i) = -1" and t: "t \<noteq> -1"
      and e: "semaphore_create s c v = Inr (Some i, s\<lparr>next_sem := nx, semaphore_table := (semaphore_table s)[i := (semaphore_table s ! i)\<lparr>creator := t, sem_value := v\<rparr>]\<rparr>)"
      by auto
    let ?x = "(semaphore_table s ! i)\<lparr>creator := t, sem_value := v\<rparr>"
    let ?s' = "s\<lparr>next_sem := nx, semaphore_table := (semaphore_table s)[i := ?x]\<rparr>"
    have "length (waiting (kern s) qs (sem_addr base i)) = 0" using inv i by (simp add: sem_inv_def)
    then have "sem_inv base (s\<lparr>semaphore_table := (semaphore_table s)[i := ?x], kern := kern s\<rparr>) rs qs"
      using v by (intro sem_inv_upd [OF inv i(1) k]) auto
    then have "sem_inv base ?s' rs qs" using sp by (simp add: sem_inv_def)
    then show ?thesis using i t e by (intro exI [of _ "Some i"] exI [of _ ?s']) auto
  qed
qed

section \<open>All interleavings\<close>

text \<open>
  Steps of the rest of the kernel: \<open>kstep\<close> without the semaphores' own resources.
\<close>

inductive other_step :: "u32 \<Rightarrow> kstate \<Rightarrow> kstate \<Rightarrow> bool" for base where
  create: "thread_create stacks fin k func arg = Inr (t, k') \<Longrightarrow> other_step base k k'"
| run: "tid_ok t \<Longrightarrow> state (th k t) = THREAD_NONREADY \<Longrightarrow> thread_run k t = Inr k' \<Longrightarrow> other_step base k k'"
| switch: "c < CONFIG_MAX_CPUS \<Longrightarrow> thread_switch k c rnd = Inr k' \<Longrightarrow> other_step base k k'"
| sleep: "running k c \<Longrightarrow> r \<noteq> 0 \<Longrightarrow> \<forall>i < CONFIG_MAX_SEMAPHORES. r \<noteq> sem_addr base i
    \<Longrightarrow> sleepq_add k c 0 r = Some (Inr k') \<Longrightarrow> other_step base k k'"
| wake: "\<forall>i < CONFIG_MAX_SEMAPHORES. r \<noteq> sem_addr base i \<Longrightarrow> sleepq_wake k r = Some (Inr k') \<Longrightarrow> other_step base k k'"
| wake_all: "\<forall>i < CONFIG_MAX_SEMAPHORES. r \<noteq> sem_addr base i
    \<Longrightarrow> sleepq_wake_all k r = Some (Inr k') \<Longrightarrow> other_step base k k'"
| finish: "running k c \<Longrightarrow> pagetable (th k (scheduler_current_thread k ! c)) = 0
    \<Longrightarrow> thread_finish k c intr rnd = Inr k' \<Longrightarrow> other_step base k k'"

text \<open>
  \<open>semreach base i v0 s p v\<close>: the state \<open>s\<close> is reached from the creation of semaphore \<open>i\<close> with
  value \<open>v0\<close> by \<open>p\<close> calls of P and \<open>v\<close> calls of V on it, and any steps of others; V is not called
  when the value has reached the largest integer. The other semaphores may be raised, lowered,
  created and destroyed in every way, also above that limit or while threads wait for them.
\<close>

inductive semreach :: "u32 \<Rightarrow> nat \<Rightarrow> int \<Rightarrow> semstate \<Rightarrow> nat \<Rightarrow> nat \<Rightarrow> bool" for base i v0 where
  start: "sem_inv base s rs qs \<Longrightarrow> c < CONFIG_MAX_CPUS \<Longrightarrow> v0 \<le> INT_MAX \<Longrightarrow> semaphore_create s c v0 = Inr (Some i, s')
    \<Longrightarrow> semreach base i v0 s' 0 0"
| P: "semreach base i v0 s p v \<Longrightarrow> running (kern s) c \<Longrightarrow> P_locked base s c i = Some (Inr (b, s'))
    \<Longrightarrow> semreach base i v0 s' (Suc p) v"
| V: "semreach base i v0 s p v \<Longrightarrow> sem_value (semaphore_table s ! i) < INT_MAX \<Longrightarrow> semaphore_V base s i = Some (Inr s')
    \<Longrightarrow> semreach base i v0 s' p (Suc v)"
| P_other: "semreach base i v0 s p v \<Longrightarrow> j < CONFIG_MAX_SEMAPHORES \<Longrightarrow> j \<noteq> i \<Longrightarrow> running (kern s) c
    \<Longrightarrow> P_locked base s c j = Some (Inr (b, s')) \<Longrightarrow> semreach base i v0 s' p v"
| V_other: "semreach base i v0 s p v \<Longrightarrow> j < CONFIG_MAX_SEMAPHORES \<Longrightarrow> j \<noteq> i
    \<Longrightarrow> semaphore_V base s j = Some (Inr s') \<Longrightarrow> semreach base i v0 s' p v"
| create_other: "semreach base i v0 s p v \<Longrightarrow> c < CONFIG_MAX_CPUS \<Longrightarrow> semaphore_create s c w = Inr (r, s')
    \<Longrightarrow> semreach base i v0 s' p v"
| destroy_other: "semreach base i v0 s p v \<Longrightarrow> j \<noteq> i \<Longrightarrow> semaphore_destroy s j = Inr s' \<Longrightarrow> semreach base i v0 s' p v"
| kernel: "semreach base i v0 s p v \<Longrightarrow> other_step base (kern s) k \<Longrightarrow> semreach base i v0 (s\<lparr>kern := k\<rparr>) p v"

lemma other_step_waiting:
  assumes "other_step base k k'" "kinv k rs qs" "base_ok base"
  shows "\<exists>rs' qs'. kinv k' rs' qs' \<and> (\<forall>i < 128. waiting k' qs' (sem_addr base i) = waiting k qs (sem_addr base i))"
  using assms
proof (induction rule: other_step.induct)
  case (create stacks fin k func arg t k')
  then have "kinv k' rs qs" using thread_create_kinv [of k rs qs stacks fin func arg] by auto
  moreover have "waiting k' qs r = waiting k qs r" for r
    by (rule waiting_same [OF create(2)]) (rule create_sleeps [OF create(2,1)])
  ultimately show ?case by blast
next
  case (run t k k')
  then obtain "kinv k' (rs @ [t]) qs" "\<And>u. 0 \<le> u \<Longrightarrow> u < 32 \<Longrightarrow> sleeps_on (th k' u) = sleeps_on (th k u)"
    using kinv_add_ready [of k rs qs t] by (auto simp: thread_run_def)
  then show ?case using waiting_same [OF run(4)] by blast
next
  case (switch c k rnd k')
  then obtain rs' where "kinv k' rs' qs" "\<And>u. 0 \<le> u \<Longrightarrow> u < 32 \<Longrightarrow> sleeps_on (th k' u) = sleeps_on (th k u)"
    using schedule_kinv [of k rs qs c rnd] by (auto simp: thread_switch_def)
  then show ?case using waiting_same [OF switch(3)] by blast
next
  case (sleep k c r k')
  then show ?case using add_waiting [OF sleep(5,1,2)] by fastforce
next
  case (wake r k k')
  show ?case
  proof (cases "waiting k qs r")
    case Nil
    then show ?thesis using sleepq_wake_kinv [OF wake(3) refl, of r] wake by auto
  next
    case (Cons w ws)
    then obtain rs' qs' where h: "kinv k' rs' qs'" "qs' = qs(SLEEPQ_HASH r := remove1 w (qs (SLEEPQ_HASH r)))"
      "\<And>u. 0 \<le> u \<Longrightarrow> u < 32 \<Longrightarrow> sleeps_on (th k' u) = (if u = w then 0 else sleeps_on (th k u))"
      using sleepq_wake_kinv [OF wake(3) refl, of r] wake(2) by auto
    have "waiting k' qs' r' = (if r' = r then ws else waiting k qs r')" for r'
      unfolding h(2) by (rule waiting_remove [OF wake(3) Cons h(3)])
    then have "\<forall>i < 128. waiting k' qs' (sem_addr base i) = waiting k qs (sem_addr base i)" using wake(1) by auto
    with h(1) show ?thesis by blast
  qed
next
  case (wake_all r k k')
  then obtain rs' qs' where h: "kinv k' rs' qs'"
    "qs' = qs(SLEEPQ_HASH r := filter (\<lambda>t. sleeps_on (th k t) \<noteq> r) (qs (SLEEPQ_HASH r)))"
    "\<And>u. 0 \<le> u \<Longrightarrow> u < 32 \<Longrightarrow> sleeps_on (th k' u) =
       (if u \<in> set (qs (SLEEPQ_HASH r)) \<and> sleeps_on (th k u) = r then 0 else sleeps_on (th k u))"
    using wake_all_kinv [of k rs qs r] by auto
  have "waiting k' qs' (sem_addr base i) = waiting k qs (sem_addr base i)" if "i < 128" for i
    unfolding h(2)
    by (rule waiting_filter [OF wake_all(3) h(3)]) (use wake_all(1,4) that sem_addr_nonzero in auto)
  with h(1) show ?case by blast
next
  case (finish k c intr rnd k')
  then obtain rs' where "kinv k' rs' qs" "\<And>u. 0 \<le> u \<Longrightarrow> u < 32 \<Longrightarrow> sleeps_on (th k' u) = sleeps_on (th k u)"
    using thread_finish_kinv [of k rs qs c _ intr rnd] by (auto simp: running_def)
  then show ?case using waiting_same [OF finish(4)] by blast
qed

text \<open>
  The invariant of one semaphore that exists: its value is a C integer and the number of its waiters
  is the negative part of the value.
\<close>

definition sem_at :: "u32 \<Rightarrow> nat \<Rightarrow> semstate \<Rightarrow> int list \<Rightarrow> (nat \<Rightarrow> int list) \<Rightarrow> bool" where
  "sem_at base i s rs qs \<longleftrightarrow> kinv (kern s) rs qs \<and> length (semaphore_table s) = CONFIG_MAX_SEMAPHORES
     \<and> 0 \<le> next_sem s \<and> next_sem s < int CONFIG_MAX_SEMAPHORES
     \<and> i < CONFIG_MAX_SEMAPHORES \<and> creator (semaphore_table s ! i) \<noteq> -1 \<and> sem_value (semaphore_table s ! i) \<le> INT_MAX
     \<and> length (waiting (kern s) qs (sem_addr base i)) = nat (- sem_value (semaphore_table s ! i))"

definition sem_counts :: "u32 \<Rightarrow> nat \<Rightarrow> int \<Rightarrow> semstate \<Rightarrow> nat \<Rightarrow> nat \<Rightarrow> bool" where
  "sem_counts base i v0 s p v \<longleftrightarrow> sem_value (semaphore_table s ! i) = v0 + int v - int p \<and> (\<exists>rs qs. sem_at base i s rs qs)"

lemma sem_at_int: "sem_at base i s rs qs \<Longrightarrow> -31 \<le> sem_value (semaphore_table s ! i)"
  using waiting_few [of "kern s" rs qs "sem_addr base i"] by (auto simp: sem_at_def)

lemma sem_at_other:
  assumes at: "sem_at base i s rs qs" and base: "base_ok base" and j: "j < 128" "j \<noteq> i" and k: "kinv k rs' qs'"
    and w: "\<And>r. r \<noteq> sem_addr base j \<Longrightarrow> waiting k qs' r = waiting (kern s) qs r"
  shows "sem_at base i (sem_put j x k s) rs' qs'" "semaphore_table (sem_put j x k s) ! i = semaphore_table s ! i"
proof -
  have "waiting k qs' (sem_addr base i) = waiting (kern s) qs (sem_addr base i)"
    using at j w sem_addr_inj [OF base] by (simp add: sem_at_def)
  then show "sem_at base i (sem_put j x k s) rs' qs'" using at j k by (simp add: sem_at_def)
qed (use j in simp)

lemma counts_P:
  assumes c: "sem_counts base i v0 s p v" and base: "base_ok base" and run: "running (kern s) c" and P: "P_locked base s c i = Some (Inr (b, s'))"
  shows "sem_counts base i v0 s' (Suc p) v"
proof -
  obtain rs qs where at: "sem_at base i s rs qs" using c by (auto simp: sem_counts_def)
  let ?v = "sem_value (semaphore_table s ! i) - 1"
  have ci: "c_int ?v = ?v" using sem_at_int [OF at] at by (simp add: sem_at_def)
  have l: "length (semaphore_table s) = 128" "i < 128" "kinv (kern s) rs qs" using at by (simp_all add: sem_at_def)
  obtain k' qs' where k': "P_locked base s c i = Some (Inr (?v < 0, sem_put i ?v k' s))" "kinv k' rs qs'"
    "\<forall>r. waiting k' qs' r = waiting (kern s) qs r @ (if ?v < 0 \<and> r = sem_addr base i then [scheduler_current_thread (kern s) ! c] else [])"
    using P_step [OF l(3,1,2) base run] unfolding ci by blast
  have "sem_at base i (sem_put i ?v k' s) rs qs'" using at k'(2,3) by (auto simp: sem_at_def)
  then show ?thesis using c P k'(1) l by (auto simp: sem_counts_def)
qed

lemma counts_V:
  assumes c: "sem_counts base i v0 s p v" and max: "sem_value (semaphore_table s ! i) < INT_MAX" and V: "semaphore_V base s i = Some (Inr s')"
  shows "sem_counts base i v0 s' p (Suc v)"
proof -
  obtain rs qs where at: "sem_at base i s rs qs" using c by (auto simp: sem_counts_def)
  let ?v = "sem_value (semaphore_table s ! i) + 1"
  have ci: "c_int ?v = ?v" using sem_at_int [OF at] max by simp
  have l: "length (semaphore_table s) = 128" "i < 128" "kinv (kern s) rs qs" using at by (simp_all add: sem_at_def)
  obtain k' rs' qs' where k': "semaphore_V base s i = Some (Inr (sem_put i ?v k' s))" "kinv k' rs' qs'"
    "\<forall>r. waiting k' qs' r = (if ?v \<le> 0 \<and> r = sem_addr base i then tl (waiting (kern s) qs r) else waiting (kern s) qs r)"
    using V_step [OF l(3,1,2), of base] unfolding ci by blast
  have "sem_at base i (sem_put i ?v k' s) rs' qs'" using at k'(2,3) max by (auto simp: sem_at_def)
  then show ?thesis using c V k'(1) l by (auto simp: sem_counts_def)
qed

lemma counts_others:
  assumes c: "sem_counts base i v0 s p v" and base: "base_ok base" and j: "j < 128" "j \<noteq> i"
  shows "running (kern s) cpu \<Longrightarrow> P_locked base s cpu j = Some (Inr (b, s')) \<Longrightarrow> sem_counts base i v0 s' p v"
    "semaphore_V base s j = Some (Inr s') \<Longrightarrow> sem_counts base i v0 s' p v"
    "semaphore_destroy s j = Inr s' \<Longrightarrow> sem_counts base i v0 s' p v"
proof -
  obtain rs qs where at: "sem_at base i s rs qs" using c by (auto simp: sem_counts_def)
  have l: "kinv (kern s) rs qs" "length (semaphore_table s) = 128" using at by (simp_all add: sem_at_def)
  note other = sem_at_other [OF at base j]
  show "sem_counts base i v0 s' p v" if P: "running (kern s) cpu" "P_locked base s cpu j = Some (Inr (b, s'))"
    using P_step [OF l j(1) base P(1)] P(2) c other unfolding sem_counts_def by fastforce
  show "sem_counts base i v0 s' p v" if V: "semaphore_V base s j = Some (Inr s')"
    using V_step [OF l j(1), of base] V c other unfolding sem_counts_def by fastforce
  show "sem_counts base i v0 s' p v" if d: "semaphore_destroy s j = Inr s'"
  proof -
    have "s' = s\<lparr>semaphore_table := (semaphore_table s)[j := (semaphore_table s ! j)\<lparr>creator := -1\<rparr>]\<rparr>"
      using d j(1) l(2) by (simp add: semaphore_destroy_def upd_sem_eq)
    then have "sem_at base i s' rs qs" "semaphore_table s' ! i = semaphore_table s ! i" using at j by (simp_all add: sem_at_def)
    then show ?thesis using c by (auto simp: sem_counts_def)
  qed
qed

lemma counts_create:
  assumes c: "sem_counts base i v0 s p v" and cr: "cpu < 4" "semaphore_create s cpu w = Inr (r, s')"
  shows "sem_counts base i v0 s' p v"
proof -
  obtain rs qs where at: "sem_at base i s rs qs" using c by (auto simp: sem_counts_def)
  have w: "0 \<le> w" using cr(2) by (auto simp: semaphore_create_def split: if_splits)
  have l: "kinv (kern s) rs qs" "length (semaphore_table s) = 128" "0 \<le> next_sem s" "next_sem s < 128" using at by (simp_all add: sem_at_def)
  from create_step [OF l cr(1) w] obtain q nx where q: "0 \<le> nx" "nx < 128" "case q of
         None \<Rightarrow> semaphore_create s cpu w = Inr (None, s\<lparr>next_sem := nx\<rparr>) \<and> (\<forall>i < 128. creator (semaphore_table s ! i) \<noteq> -1)
       | Some i \<Rightarrow> i < 128 \<and> creator (semaphore_table s ! i) = -1
           \<and> (\<exists>t. t \<noteq> -1 \<and> semaphore_create s cpu w =
                Inr (Some i, s\<lparr>next_sem := nx, semaphore_table := (semaphore_table s)[i := (semaphore_table s ! i)\<lparr>creator := t, sem_value := w\<rparr>]\<rparr>))" by blast
  show ?thesis
  proof (cases q)
    case None
    then have "s' = s\<lparr>next_sem := nx\<rparr>" using q(3) cr(2) by simp
    then have "sem_at base i s' rs qs" "semaphore_table s' ! i = semaphore_table s ! i" using at q(1,2) by (simp_all add: sem_at_def)
    then show ?thesis using c by (auto simp: sem_counts_def)
  next
    case (Some m)
    then obtain t where m: "creator (semaphore_table s ! m) = -1"
      "s' = s\<lparr>next_sem := nx, semaphore_table := (semaphore_table s)[m := (semaphore_table s ! m)\<lparr>creator := t, sem_value := w\<rparr>]\<rparr>" using q(3) cr(2) by auto
    moreover have "m \<noteq> i" using m(1) at by (auto simp: sem_at_def)
    ultimately have "sem_at base i s' rs qs" "semaphore_table s' ! i = semaphore_table s ! i" using at q(1,2) by (simp_all add: sem_at_def)
    then show ?thesis using c by (auto simp: sem_counts_def)
  qed
qed

lemma semreach_counts:
  assumes "semreach base i v0 s p v" "base_ok base"
  shows "sem_counts base i v0 s p v"
  using assms
proof (induction rule: semreach.induct)
  case (start s rs qs c s')
  have v0: "0 \<le> v0" using start(4) by (auto simp: semaphore_create_def split: if_splits)
  have "length (semaphore_table s) = 128" using start(1) by (simp add: sem_inv_def)
  then have "sem_inv base s' rs qs" "i < 128" "creator (semaphore_table s' ! i) \<noteq> -1" "sem_value (semaphore_table s' ! i) = v0"
    using create_spec [OF start(1,2) v0 start(3)] start(4) by auto
  moreover from this start(3) have "sem_at base i s' rs qs" by (simp add: sem_at_def sem_inv_def)
  ultimately show ?case by (auto simp: sem_counts_def)
next
  case (P s p v c b s')
  then show ?case using counts_P by blast
next
  case (V s p v s')
  then show ?case using counts_V by blast
next
  case (P_other s p v j c b s')
  then show ?case using counts_others(1) by blast
next
  case (V_other s p v j s')
  then show ?case using counts_others(2) by blast
next
  case (create_other s p v c w r s')
  then show ?case using counts_create by blast
next
  case (destroy_other s p v j s')
  have "j < 128"
    using destroy_other.hyps(3) destroy_other.IH [OF destroy_other.prems]
    by (auto simp: semaphore_destroy_def upd_sem_def rbind_Inr_iff aget_Inr_iff sem_counts_def sem_at_def)
  then show ?case using counts_others(3) destroy_other by blast
next
  case (kernel s p v k)
  then obtain rs qs where at: "sem_at base i s rs qs" by (auto simp: sem_counts_def)
  then obtain rs' qs' where "kinv k rs' qs'" "\<forall>i < 128. waiting k qs' (sem_addr base i) = waiting (kern s) qs (sem_addr base i)"
    using other_step_waiting [OF kernel(2) _ kernel(4), of rs qs] by (auto simp: sem_at_def)
  then have "sem_at base i (s\<lparr>kern := k\<rparr>) rs' qs'" using at by (auto simp: sem_at_def)
  then show ?case using kernel by (auto simp: sem_counts_def)
qed

section \<open>Properties\<close>

text \<open>
  P on a semaphore with a positive value returns at once and takes one from the value. On
  any other value it appends the calling thread to the queue of the semaphore and gives up the
  processor. The number of waiters stays the negative part of the value.
\<close>

theorem semaphore_P_correct:
  assumes "sem_inv base s rs qs" "base_ok base" "i < CONFIG_MAX_SEMAPHORES"
    and "creator (semaphore_table s ! i) \<noteq> -1" "running (kern s) c"
  shows "if 0 < sem_value (semaphore_table s ! i)
         then \<exists>s'. semaphore_P base s c i rnd = Some (Inr s') \<and> sem_inv base s' rs qs \<and> kern s' = kern s
           \<and> sem_value (semaphore_table s' ! i) = sem_value (semaphore_table s ! i) - 1
         else \<exists>s' rs' qs'. semaphore_P base s c i rnd = Some (Inr s') \<and> sem_inv base s' rs' qs'
           \<and> sem_value (semaphore_table s' ! i) = sem_value (semaphore_table s ! i) - 1
           \<and> waiting (kern s') qs' (sem_addr base i)
               = waiting (kern s) qs (sem_addr base i) @ [scheduler_current_thread (kern s) ! c]"
proof -
  have l: "length (semaphore_table s) = 128" using assms(1) by (simp add: sem_inv_def)
  have c: "c < 4" using assms(5) by (simp add: running_def)
  let ?x = "semaphore_table s ! i"
  let ?s1 = "s\<lparr>semaphore_table := (semaphore_table s)[i := ?x\<lparr>sem_value := sem_value ?x - 1\<rparr>]\<rparr>"
  show ?thesis
  proof (cases "0 < sem_value ?x")
    case True
    then have "P_locked base s c i = Some (Inr (False, ?s1))" "sem_inv base ?s1 rs qs"
      using P_spec [OF assms] by auto
    with True l assms(3) show ?thesis by (simp add: semaphore_P_def)
  next
    case False
    then obtain k qs' where k: "P_locked base s c i = Some (Inr (True, ?s1\<lparr>kern := k\<rparr>))"
      "sem_inv base (?s1\<lparr>kern := k\<rparr>) rs qs'"
      "waiting k qs' (sem_addr base i) = waiting (kern s) qs (sem_addr base i) @ [scheduler_current_thread (kern s) ! c]"
      using P_spec [OF assms] by auto
    have kk: "kinv k rs qs'" using k(2) by (simp add: sem_inv_def)
    obtain k' rs' where k': "scheduler_schedule k c rnd = Inr k'" "kinv k' rs' qs'"
      "\<And>u. 0 \<le> u \<Longrightarrow> u < 32 \<Longrightarrow> sleeps_on (th k' u) = sleeps_on (th k u)"
      using schedule_kinv [OF kk c, of rnd] by blast
    have w: "waiting k' qs' r = waiting k qs' r" for r using waiting_same [OF kk k'(3)] .
    have "sem_inv base (?s1\<lparr>kern := k'\<rparr>) rs' qs'" using k(2) k'(2) w by (simp add: sem_inv_def)
    moreover have "semaphore_P base s c i rnd = Some (Inr (?s1\<lparr>kern := k'\<rparr>))"
      using k(1) k'(1) by (simp add: semaphore_P_def thread_switch_def)
    ultimately show ?thesis
      using False k(3) w l assms(3)
      by (simp only: if_False) (intro exI [of _ "?s1\<lparr>kern := k'\<rparr>"] exI [of _ rs'] exI [of _ qs'], simp)
  qed
qed

text \<open>
  V on a semaphore with waiters hands over to the thread that has waited longest and no
  other; without waiters it only adds one to the value.
\<close>

theorem semaphore_V_correct:
  assumes "sem_inv base s rs qs" "base_ok base" "i < CONFIG_MAX_SEMAPHORES"
    and "creator (semaphore_table s ! i) \<noteq> -1" "sem_value (semaphore_table s ! i) < INT_MAX"
  shows "case waiting (kern s) qs (sem_addr base i) of
      [] \<Rightarrow> \<exists>s'. semaphore_V base s i = Some (Inr s') \<and> sem_inv base s' rs qs \<and> kern s' = kern s
        \<and> sem_value (semaphore_table s' ! i) = sem_value (semaphore_table s ! i) + 1
    | w # ws \<Rightarrow> \<exists>s' qs'. semaphore_V base s i = Some (Inr s') \<and> sem_inv base s' (rs @ woken (kern s) w) qs'
        \<and> waiting (kern s') qs' (sem_addr base i) = ws
        \<and> sem_value (semaphore_table s' ! i) = sem_value (semaphore_table s ! i) + 1"
proof -
  have l: "length (semaphore_table s) = 128" using assms(1) by (simp add: sem_inv_def)
  have len: "length (waiting (kern s) qs (sem_addr base i)) = nat (- sem_value (semaphore_table s ! i))"
    using sem_inv_value [OF assms(1,3,4)] .
  note sp = V_spec [OF assms]
  show ?thesis
  proof (cases "waiting (kern s) qs (sem_addr base i)")
    case Nil
    then have "0 \<le> sem_value (semaphore_table s ! i)" using len by simp
    then show ?thesis using sp Nil l assms(3) by simp
  next
    case (Cons w ws)
    then have "\<not> 0 \<le> sem_value (semaphore_table s ! i)" using len by (cases "0 \<le> sem_value (semaphore_table s ! i)") auto
    then show ?thesis using sp Cons l assms(3) by (simp only: if_False) fastforce
  qed
qed

text \<open>
  C1. Under every interleaving of threads, processors and interrupts, and whatever happens to
  other semaphores (they may also be destroyed or overflow): of \<open>p\<close> calls of P at most \<open>v0 + v\<close>
  have gone through, where \<open>v0\<close> is the initial value and \<open>v\<close> the number of calls of V, and exactly
  that many when somebody waits, as long as V is not called on the largest integer.
\<close>

theorem semaphore_safety:
  assumes "semreach base i v0 s p v" "base_ok base"
  shows "\<exists>rs qs. sem_at base i s rs qs
    \<and> int p - int (length (waiting (kern s) qs (sem_addr base i))) \<le> v0 + int v
    \<and> (waiting (kern s) qs (sem_addr base i) \<noteq> []
         \<longrightarrow> int p - int (length (waiting (kern s) qs (sem_addr base i))) = v0 + int v)"
proof -
  obtain rs qs where h: "sem_at base i s rs qs" "sem_value (semaphore_table s ! i) = v0 + int v - int p"
    using semreach_counts [OF assms] by (auto simp: sem_counts_def)
  have len: "length (waiting (kern s) qs (sem_addr base i)) = nat (- (v0 + int v - int p))"
    using h by (simp add: sem_at_def)
  then have "waiting (kern s) qs (sem_addr base i) \<noteq> [] \<longrightarrow> 0 < - (v0 + int v - int p)"
    by (cases "v0 + int v < int p") auto
  with h(1) len show ?thesis by (intro exI [of _ rs] exI [of _ qs]) auto
qed

text \<open>
  The value of a semaphore overflows: after two calls of V on a semaphore whose value is the
  largest integer, its value is negative and the next caller of P is put to sleep.
\<close>

theorem semaphore_V_overflow:
  assumes "kinv (kern s) rs qs" "length (semaphore_table s) = CONFIG_MAX_SEMAPHORES" "i < CONFIG_MAX_SEMAPHORES" "base_ok base"
    and "sem_value (semaphore_table s ! i) = INT_MAX" "waiting (kern s) qs (sem_addr base i) = []" "running (kern s) c"
  shows "\<exists>s1 s2 s3. semaphore_V base s i = Some (Inr s1) \<and> semaphore_V base s1 i = Some (Inr s2)
    \<and> sem_value (semaphore_table s2 ! i) = INT_MIN + 1 \<and> P_locked base s2 c i = Some (Inr (True, s3))"
proof -
  have wake: "sleepq_wake (kern s) (sem_addr base i) = Some (Inr (kern s))" using sleepq_wake_kinv [OF assms(1) refl, of "sem_addr base i"] assms(6) by simp
  have w: "c_int (INT_MAX + 1) = INT_MIN" by (simp add: c_int_def)
  let ?s = "\<lambda>v. sem_put i v (kern s) s"
  have "semaphore_V base s i = Some (Inr (?s INT_MIN))" "semaphore_V base (?s INT_MIN) i = Some (Inr (?s (INT_MIN + 1)))"
    using assms(2,3,5) wake w by (simp_all add: semaphore_V_def upd_sem_eq sem_put_def)
  moreover have "sem_value (semaphore_table (?s (INT_MIN + 1)) ! i) = INT_MIN + 1" using assms(2,3) by simp
  moreover from this have "\<exists>s3. P_locked base (?s (INT_MIN + 1)) c i = Some (Inr (True, s3))"
    using P_step [of "?s (INT_MIN + 1)" rs qs i base c] assms by auto
  ultimately show ?thesis by blast
qed

text \<open>A semaphore table with nothing created.\<close>

definition ex_sems :: semstate where
  "ex_sems = \<lparr>kern = one_running, semaphore_table = replicate CONFIG_MAX_SEMAPHORES \<lparr>sem_value = 0, creator = -1\<rparr>,
     next_sem = 0\<rparr>"

abbreviation (input) ex_base :: u32 where
  "ex_base \<equiv> 0x80200000"

lemma ex_sems_inv: "sem_inv ex_base ex_sems [] (\<lambda>_. [])" "base_ok ex_base"
  using one_running_kinv by (auto simp: sem_inv_def ex_sems_def waiting_def base_ok_def)

definition ex_sems1 :: semstate where
  "ex_sems1 = ex_sems\<lparr>semaphore_table := (semaphore_table ex_sems)[0 := \<lparr>sem_value = 0, creator = 1\<rparr>], next_sem := 1\<rparr>"

lemma ex_sems1_inv: "sem_inv ex_base ex_sems1 [] (\<lambda>_. [])"
  using one_running_kinv by (auto simp: sem_inv_def ex_sems_def ex_sems1_def waiting_def nth_list_update)

lemma ex_running: "running (kern ex_sems1) 0"
proof -
  have "thread_table one_running ! 1 = blank_thread\<lparr>state := THREAD_RUNNING\<rparr>"
    using kinv_table_length [of one_running] one_running_kinv by (simp add: kinv_def one_running_def)
  then show ?thesis by (simp add: running_def ex_sems1_def ex_sems_def one_running_def blank_thread_def)
qed

theorem semaphore_P_correct_witness:
  "\<exists>s' rs' qs'. semaphore_P ex_base ex_sems1 0 0 5 = Some (Inr s') \<and> sem_inv ex_base s' rs' qs'
     \<and> waiting (kern s') qs' (sem_addr ex_base 0) = [1]"
proof -
  have "sem_value (semaphore_table ex_sems1 ! 0) = 0" "creator (semaphore_table ex_sems1 ! 0) \<noteq> -1"
    "scheduler_current_thread (kern ex_sems1) ! 0 = 1"
    by (simp_all add: ex_sems1_def ex_sems_def one_running_def)
  then show ?thesis
    using semaphore_P_correct [OF ex_sems1_inv ex_sems_inv(2) _ _ ex_running, of 0 5] by (auto simp: waiting_def)
qed

theorem semaphore_V_correct_witness:
  "\<exists>s'. semaphore_V ex_base ex_sems1 0 = Some (Inr s') \<and> sem_value (semaphore_table s' ! 0) = 1"
  using semaphore_V_correct [OF ex_sems1_inv ex_sems_inv(2), of 0]
  by (auto simp: ex_sems1_def ex_sems_def waiting_def)

lemma ex_sems1_reach: "semreach ex_base 0 0 ex_sems1 0 0"
proof -
  have "sem_search ex_sems 0 (Suc 127) = Inr (Some 0, ex_sems1)"
    by (subst sem_search.simps) (simp add: ex_sems_def ex_sems1_def thread_get_current_thread_def one_running_def aget_def aset_def)
  moreover have "aget (semaphore_table ex_sems1) 0 = Inr \<lparr>sem_value = 0, creator = 1\<rparr>"
    "aset (semaphore_table ex_sems1) 0 \<lparr>sem_value = 0, creator = 1\<rparr> = Inr (semaphore_table ex_sems1)"
    by (simp_all add: ex_sems_def ex_sems1_def aget_def aset_def)
  ultimately have "semaphore_create ex_sems 0 0 = Inr (Some 0, ex_sems1)"
    by (simp add: semaphore_create_def)
  then show ?thesis using ex_sems_inv(1) by (intro semreach.start) auto
qed

text \<open>
  A thread that has to wait, and then a call of V that lets it go on.
\<close>

theorem semaphore_safety_witness:
  "\<exists>s s' qs qs'. semreach ex_base 0 0 s 1 0 \<and> waiting (kern s) qs (sem_addr ex_base 0) = [1]
     \<and> int 1 - int (length (waiting (kern s) qs (sem_addr ex_base 0))) = 0 + int 0
     \<and> semreach ex_base 0 0 s' 1 1 \<and> int 1 - int (length (waiting (kern s') qs' (sem_addr ex_base 0))) \<le> 0 + int 1"
proof -
  have x: "semaphore_table ex_sems1 ! 0 = \<lparr>sem_value = 0, creator = 1\<rparr>" "length (semaphore_table ex_sems1) = 128" "scheduler_current_thread (kern ex_sems1) ! 0 = 1"
    by (simp_all add: ex_sems1_def ex_sems_def one_running_def)
  have k: "kinv (kern ex_sems1) [] (\<lambda>_. [])" using ex_sems1_inv by (simp add: sem_inv_def)
  obtain k' qs' where P: "P_locked ex_base ex_sems1 0 0 = Some (Inr (True, sem_put 0 (-1) k' ex_sems1))" "kinv k' [] qs'"
    "waiting k' qs' (sem_addr ex_base 0) = [1]"
    using P_step [OF k x(2) _ ex_sems_inv(2) ex_running, of 0] x by (auto simp: waiting_def)
  let ?s = "sem_put 0 (-1) k' ex_sems1"
  have s: "semreach ex_base 0 0 ?s 1 0" using semreach.P [OF ex_sems1_reach ex_running P(1)] by simp
  have v: "sem_value (semaphore_table ?s ! 0) = -1" "length (semaphore_table ?s) = 128" using x(2) by simp_all
  obtain s' where V: "semaphore_V ex_base ?s 0 = Some (Inr s')"
    using V_step [of ?s "[]" qs' 0 ex_base] P(2) v(2) by auto
  have s': "semreach ex_base 0 0 s' 1 1" using semreach.V [OF s _ V] v(1) by simp
  from semaphore_safety [OF s' ex_sems_inv(2)] obtain rs2 qs2 where
    "int 1 - int (length (waiting (kern s') qs2 (sem_addr ex_base 0))) \<le> 0 + int 1" by auto
  then show ?thesis using s s' P(3) by (intro exI [of _ ?s] exI [of _ s'] exI [of _ qs'] exI [of _ qs2]) simp
qed

theorem semaphore_V_overflow_witness:
  defines "s \<equiv> sem_put 0 2147483647 (kern ex_sems1) ex_sems1"
  shows "\<exists>s1 s2 s3. semaphore_V ex_base s 0 = Some (Inr s1) \<and> semaphore_V ex_base s1 0 = Some (Inr s2)
    \<and> sem_value (semaphore_table s2 ! 0) = -2147483647 \<and> P_locked ex_base s2 0 0 = Some (Inr (True, s3))"
proof -
  have "length (semaphore_table ex_sems1) = 128" by (simp add: ex_sems1_def ex_sems_def)
  moreover have "kinv (kern ex_sems1) [] (\<lambda>_. [])" using ex_sems1_inv by (simp add: sem_inv_def)
  ultimately show ?thesis using semaphore_V_overflow [of s "[]" "\<lambda>_. []" 0 ex_base 0] ex_sems_inv(2) ex_running by (simp add: s_def waiting_def)
qed

end
