(* ===== verification/Ksem.thy ===== *)
theory Ksem
  imports Semaphore
begin

text \<open>
  The semaphore table as seen by one thread that uses it: for every slot of the table either
  nothing (a free slot) or the value of the semaphore. The drivers and the filesystems are
  modelled over this view. A call of P that would have to wait is \<open>Blocked\<close> here.

  \<open>ksem_refines\<close> shows that the operations of \<^verbatim>\<open>kernel/semaphore.c\<close>, with the scheduler and
  the sleep queue below them, implement this view.
\<close>

record ksems =
  svals :: "int option list"
  snext :: int

fun ksem_search :: "int option list \<Rightarrow> int \<Rightarrow> nat \<Rightarrow> nat option \<times> int" where
  "ksem_search vs nx 0 = (None, nx)"
| "ksem_search vs nx (Suc n) =
     (if vs ! nat nx = None then (Some (nat nx), (nx + 1) mod 128) else ksem_search vs ((nx + 1) mod 128) n)"

definition ksem_create :: "ksems \<Rightarrow> int \<Rightarrow> nat option \<times> ksems" where
  "ksem_create k v =
     (case ksem_search (svals k) (snext k) 128 of
        (None, nx) \<Rightarrow> (None, k\<lparr>snext := nx\<rparr>)
      | (Some i, nx) \<Rightarrow> (Some i, k\<lparr>snext := nx, svals := (svals k)[i := Some v]\<rparr>))"

definition ksem_val :: "ksems \<Rightarrow> nat \<Rightarrow> int option" where
  "ksem_val k i = (if i < length (svals k) then svals k ! i else None)"

definition ksem_P :: "ksems \<Rightarrow> nat \<Rightarrow> ksems res" where
  "ksem_P k i =
     (case ksem_val k i of
        None \<Rightarrow> Inl Bad_access
      | Some v \<Rightarrow> if 0 < v then Inr (k\<lparr>svals := (svals k)[i := Some (v - 1)]\<rparr>) else Inl Blocked)"

definition ksem_V :: "ksems \<Rightarrow> nat \<Rightarrow> ksems res" where
  "ksem_V k i =
     (case ksem_val k i of
        None \<Rightarrow> Inl Bad_access
      | Some v \<Rightarrow> Inr (k\<lparr>svals := (svals k)[i := Some (c_int (v + 1))]\<rparr>))"

definition ksem_destroy :: "ksems \<Rightarrow> nat \<Rightarrow> ksems" where
  "ksem_destroy k i = k\<lparr>svals := (svals k)[i := None]\<rparr>"

definition ksem_ok :: "ksems \<Rightarrow> bool" where
  "ksem_ok k \<longleftrightarrow> length (svals k) = 128 \<and> 0 \<le> snext k \<and> snext k < 128"

definition ksem_free :: "ksems \<Rightarrow> bool" where
  "ksem_free k \<longleftrightarrow> None \<in> set (svals k)"

section \<open>The view on its own\<close>

lemma ksem_search_spec:
  assumes "0 \<le> nx" "nx < 128"
  shows "0 \<le> snd (ksem_search vs nx n) \<and> snd (ksem_search vs nx n) < 128 \<and>
    (case fst (ksem_search vs nx n) of
       None \<Rightarrow> \<forall>j < n. vs ! nat ((nx + int j) mod 128) \<noteq> None
     | Some i \<Rightarrow> i < 128 \<and> vs ! i = None)"
  using assms
proof (induction n arbitrary: nx)
  case (Suc n)
  have st: "((nx + 1) mod 128 + int j) mod 128 = (nx + int (Suc j)) mod 128" for j
    by (simp add: mod_simps algebra_simps)
  show ?case
  proof (cases "vs ! nat nx = None")
    case False
    have "vs ! nat ((nx + int j) mod 128) \<noteq> None"
      if "j < Suc n" "\<forall>j < n. vs ! nat (((nx + 1) mod 128 + int j) mod 128) \<noteq> None" for j
      using that False Suc.prems by (cases j) (auto simp: st)
    with Suc.IH [of "(nx + 1) mod 128"] False show ?thesis
      by (auto split: option.splits)
  qed (use Suc.prems in auto)
qed simp

lemma ksem_create_cases:
  assumes "ksem_ok k"
  shows "(\<exists>i k'. ksem_create k v = (Some i, k') \<and> i < 128 \<and> svals k ! i = None \<and> ksem_ok k'
            \<and> svals k' = (svals k)[i := Some v])
       \<or> (\<exists>k'. ksem_create k v = (None, k') \<and> \<not> ksem_free k \<and> ksem_ok k' \<and> svals k' = svals k)"
proof -
  obtain r nx where r: "ksem_search (svals k) (snext k) 128 = (r, nx)" by fastforce
  have sp: "0 \<le> nx" "nx < 128"
    "case r of None \<Rightarrow> \<forall>j < 128. svals k ! nat ((snext k + int j) mod 128) \<noteq> None
       | Some i \<Rightarrow> i < 128 \<and> svals k ! i = None"
    using ksem_search_spec [of "snext k" "svals k" 128] assms r by (auto simp: ksem_ok_def)
  show ?thesis
  proof (cases r)
    case None
    have "svals k ! i \<noteq> None" if "i < 128" for i
    proof -
      define j where "j = nat ((int i - snext k) mod 128)"
      have "j < 128" "(snext k + int j) mod 128 = int i" using that by (auto simp: j_def mod_simps)
      then show ?thesis using sp(3) None by fastforce
    qed
    then have "\<not> ksem_free k" using assms unfolding ksem_free_def ksem_ok_def in_set_conv_nth by metis
    then show ?thesis using None r sp assms by (simp add: ksem_create_def ksem_ok_def)
  next
    case (Some i)
    then show ?thesis using r sp assms by (simp add: ksem_create_def ksem_ok_def)
  qed
qed

lemma ksem_create_free:
  assumes "ksem_ok k" "ksem_free k"
  shows "\<exists>i k'. ksem_create k v = (Some i, k') \<and> i < 128 \<and> svals k ! i = None \<and> ksem_ok k'
            \<and> svals k' = (svals k)[i := Some v]"
  using ksem_create_cases [OF assms(1), of v] assms(2) by blast

lemma ksem_val_eq: "ksem_ok k \<Longrightarrow> i < 128 \<Longrightarrow> ksem_val k i = svals k ! i"
  by (simp add: ksem_val_def ksem_ok_def)

lemma ksem_val_Some: "ksem_ok k \<Longrightarrow> ksem_val k i = Some v \<Longrightarrow> i < 128 \<and> svals k ! i = Some v"
  by (auto simp: ksem_val_def ksem_ok_def split: if_splits)

lemma ksem_val_cong: "svals k' = svals k \<Longrightarrow> ksem_val k' i = ksem_val k i"
  by (simp add: ksem_val_def)

lemma ksem_free_cong: "svals k' = svals k \<Longrightarrow> ksem_free k' = ksem_free k"
  by (simp add: ksem_free_def)

text \<open>
  Taking and giving back a free semaphore.
\<close>

lemma ksem_P_V:
  assumes "ksem_ok k" "ksem_val k i = Some v" "0 < v"
  shows "\<exists>k'. ksem_P k i = Inr k' \<and> ksem_ok k' \<and> svals k' = (svals k)[i := Some (v - 1)]
    \<and> (ksem_free k \<longrightarrow> ksem_free k')"
proof -
  have i: "i < 128" "svals k ! i = Some v" using ksem_val_Some [OF assms(1,2)] by auto
  have "None \<in> set ((svals k)[i := Some (v - 1)])" if n: "None \<in> set (svals k)"
  proof -
    obtain j where "j < length (svals k)" "svals k ! j = None" using n by (auto simp: in_set_conv_nth)
    moreover from this i have "j \<noteq> i" by auto
    ultimately have "(svals k)[i := Some (v - 1)] ! j = None" "j < length ((svals k)[i := Some (v - 1)])" by auto
    then show ?thesis by (metis nth_mem)
  qed
  then show ?thesis using assms by (simp add: ksem_P_def ksem_ok_def ksem_free_def)
qed

lemma ksem_V_ok:
  assumes "ksem_ok k" "ksem_val k i = Some v"
  shows "\<exists>k'. ksem_V k i = Inr k' \<and> ksem_ok k' \<and> svals k' = (svals k)[i := Some (c_int (v + 1))]"
  using assms by (simp add: ksem_V_def ksem_ok_def)

section \<open>The semaphore table implements it\<close>

definition abs_sems :: "semstate \<Rightarrow> ksems" where
  "abs_sems s = \<lparr>svals = map (\<lambda>x. if creator x = -1 then None else Some (sem_value x)) (semaphore_table s),
     snext = next_sem s\<rparr>"

lemma search_refines:
  assumes "length (semaphore_table s) = 128" "0 \<le> next_sem s" "next_sem s < 128"
    and "thread_get_current_thread (kern s) c = Inr t"
  shows "sem_search s c n =
    (case ksem_search (svals (abs_sems s)) (next_sem s) n of
       (None, nx) \<Rightarrow> Inr (None, s\<lparr>next_sem := nx\<rparr>)
     | (Some i, nx) \<Rightarrow> Inr (Some i, s\<lparr>next_sem := nx,
           semaphore_table := (semaphore_table s)[i := (semaphore_table s ! i)\<lparr>creator := t\<rparr>]\<rparr>))"
  using assms
proof (induction n arbitrary: s)
  case (Suc n)
  let ?s1 = "s\<lparr>next_sem := (next_sem s + 1) mod 128\<rparr>"
  have "svals (abs_sems ?s1) = svals (abs_sems s)" by (simp add: abs_sems_def)
  then have IH: "sem_search ?s1 c n =
    (case ksem_search (svals (abs_sems s)) ((next_sem s + 1) mod 128) n of
       (None, nx) \<Rightarrow> Inr (None, s\<lparr>next_sem := nx\<rparr>)
     | (Some i, nx) \<Rightarrow> Inr (Some i, s\<lparr>next_sem := nx,
           semaphore_table := (semaphore_table s)[i := (semaphore_table s ! i)\<lparr>creator := t\<rparr>]\<rparr>))"
    using Suc.IH [of ?s1] Suc.prems by (simp split: option.splits prod.splits)
  have v: "svals (abs_sems s) ! nat (next_sem s) = None \<longleftrightarrow> creator (semaphore_table s ! nat (next_sem s)) = -1"
    using Suc.prems by (simp add: abs_sems_def nat_less_iff)
  show ?case
    using Suc.prems v IH by (auto simp: Let_def aget_def aset_def)
qed simp

lemma create_refines:
  assumes inv: "sem_inv base s rs qs" and c: "c < 4" and v: "0 \<le> v"
  shows "\<exists>r s'. semaphore_create s c v = Inr (r, s') \<and> ksem_create (abs_sems s) v = (r, abs_sems s') \<and> kern s' = kern s"
proof -
  have l: "length (semaphore_table s) = 128" "0 \<le> next_sem s" "next_sem s < 128"
    using inv by (auto simp: sem_inv_def)
  have "kinv (kern s) rs qs" using inv by (simp add: sem_inv_def)
  from create_step [OF this l c v] obtain r s' where create: "semaphore_create s c v = Inr (r, s')" and i: "kern s' = kern s"
    by (auto split: option.splits)
  let ?t = "scheduler_current_thread (kern s) ! c"
  have lc: "length (scheduler_current_thread (kern s)) = 4" "\<forall>t \<in> set (scheduler_current_thread (kern s)). t = 0 \<or> tid_ok t"
    using inv by (auto simp: sem_inv_def kinv_def kinv_on_def kshape_def)
  then have "?t = 0 \<or> tid_ok ?t" using c nth_mem [of c "scheduler_current_thread (kern s)"] by simp
  then have t: "?t \<noteq> -1" by (auto simp: tid_ok_def)
  have cur: "thread_get_current_thread (kern s) c = Inr ?t"
    using c lc by (simp add: thread_get_current_thread_def)
  obtain q nx where q: "ksem_search (svals (abs_sems s)) (next_sem s) 128 = (q, nx)" by fastforce
  have "ksem_create (abs_sems s) v = (r, abs_sems s')"
  proof (cases q)
    case None
    then have "semaphore_create s c v = Inr (None, s\<lparr>next_sem := nx\<rparr>)"
      using search_refines [OF l cur, of 128] q v by (simp add: semaphore_create_def)
    then show ?thesis using create None q by (auto simp: ksem_create_def abs_sems_def)
  next
    case (Some j)
    have j: "j < 128" using ksem_search_spec [of "next_sem s" "svals (abs_sems s)" 128] l q Some by auto
    have sr: "sem_search s c 128 = Inr (Some j, s\<lparr>next_sem := nx,
        semaphore_table := (semaphore_table s)[j := (semaphore_table s ! j)\<lparr>creator := ?t\<rparr>]\<rparr>)"
      using search_refines [OF l cur, of 128] q Some by simp
    then have "semaphore_create s c v = Inr (Some j, s\<lparr>next_sem := nx,
        semaphore_table := (semaphore_table s)[j := (semaphore_table s ! j)\<lparr>creator := ?t, sem_value := v\<rparr>]\<rparr>)"
      using v j l unfolding semaphore_create_def sr by simp
    then show ?thesis using create Some q t by (auto simp: ksem_create_def abs_sems_def map_update)
  qed
  then show ?thesis using create i by blast
qed

lemma val_refines:
  "length (semaphore_table s) = 128 \<Longrightarrow> ksem_val (abs_sems s) i = Some v \<longleftrightarrow>
    i < 128 \<and> creator (semaphore_table s ! i) \<noteq> -1 \<and> sem_value (semaphore_table s ! i) = v"
  by (auto simp: ksem_val_def abs_sems_def)

lemma abs_upd:
  assumes "length (semaphore_table s) = 128" "i < 128" "creator (semaphore_table s ! i) \<noteq> -1"
  shows "abs_sems (s\<lparr>semaphore_table := (semaphore_table s)[i := (semaphore_table s ! i)\<lparr>sem_value := v\<rparr>]\<rparr>)
    = (abs_sems s)\<lparr>svals := (svals (abs_sems s))[i := Some v]\<rparr>"
  using assms by (simp add: abs_sems_def map_update)

text \<open>
  C22. The semaphore operations of the kernel implement the table of values that the drivers and
  the filesystems see: creating a semaphore returns the same slot; P on a positive value takes
  one and returns at once, and is blocked exactly when the value is not positive; V on a
  semaphore that nobody waits for adds one (as C integers do); destroying frees the slot. None of them touches the
  threads.
\<close>

theorem ksem_refines:
  assumes inv: "sem_inv base s rs qs" and base: "base_ok base" and c: "c < 4" and run: "running (kern s) c"
  shows "(0 \<le> v \<longrightarrow> (\<exists>r s'. semaphore_create s c v = Inr (r, s')
            \<and> ksem_create (abs_sems s) v = (r, abs_sems s') \<and> kern s' = kern s))
    \<and> (ksem_P (abs_sems s) i = Inr k \<longrightarrow>
         (\<exists>s'. semaphore_P base s c i rnd = Some (Inr s') \<and> abs_sems s' = k \<and> kern s' = kern s))
    \<and> (ksem_P (abs_sems s) i = Inl Blocked \<longrightarrow> (\<exists>s'. P_locked base s c i = Some (Inr (True, s'))))
    \<and> (ksem_V (abs_sems s) i = Inr k \<and> (\<exists>v \<ge> 0. ksem_val (abs_sems s) i = Some v) \<longrightarrow>
         (\<exists>s'. semaphore_V base s i = Some (Inr s') \<and> abs_sems s' = k \<and> kern s' = kern s))
    \<and> (i < 128 \<longrightarrow> (\<exists>s'. semaphore_destroy s i = Inr s' \<and> abs_sems s' = ksem_destroy (abs_sems s) i))"
proof (intro conjI impI)
  have l: "length (semaphore_table s) = 128" using inv by (simp add: sem_inv_def)
  show "\<exists>r s'. semaphore_create s c v = Inr (r, s') \<and> ksem_create (abs_sems s) v = (r, abs_sems s') \<and> kern s' = kern s"
    if "0 \<le> v" using create_refines [OF inv c that] by blast
  show "\<exists>s'. semaphore_P base s c i rnd = Some (Inr s') \<and> abs_sems s' = k \<and> kern s' = kern s"
    if P: "ksem_P (abs_sems s) i = Inr k"
  proof -
    from P obtain u where u: "ksem_val (abs_sems s) i = Some u" "0 < u"
      "k = (abs_sems s)\<lparr>svals := (svals (abs_sems s))[i := Some (u - 1)]\<rparr>"
      by (auto simp: ksem_P_def split: option.splits if_splits)
    then have i: "i < 128" "creator (semaphore_table s ! i) \<noteq> -1" "sem_value (semaphore_table s ! i) = u"
      using val_refines [OF l] by auto
    show ?thesis
      using P_spec [OF inv base i(1,2) run] u i abs_upd [OF l i(1,2), of "u - 1"] by (auto simp: semaphore_P_def)
  qed
  show "\<exists>s'. P_locked base s c i = Some (Inr (True, s'))" if P: "ksem_P (abs_sems s) i = Inl Blocked"
  proof -
    from P obtain u where u: "ksem_val (abs_sems s) i = Some u" "\<not> 0 < u"
      by (auto simp: ksem_P_def split: option.splits if_splits)
    then have i: "i < 128" "creator (semaphore_table s ! i) \<noteq> -1" "sem_value (semaphore_table s ! i) = u"
      using val_refines [OF l] by auto
    show ?thesis using P_spec [OF inv base i(1,2) run] u i by (auto simp only: if_False)
  qed
  show "\<exists>s'. semaphore_V base s i = Some (Inr s') \<and> abs_sems s' = k \<and> kern s' = kern s"
    if V: "ksem_V (abs_sems s) i = Inr k \<and> (\<exists>v \<ge> 0. ksem_val (abs_sems s) i = Some v)"
  proof -
    from V obtain u where u: "ksem_val (abs_sems s) i = Some u" "0 \<le> u"
      "k = (abs_sems s)\<lparr>svals := (svals (abs_sems s))[i := Some (c_int (u + 1))]\<rparr>"
      by (auto simp: ksem_V_def)
    then have i: "i < 128" "creator (semaphore_table s ! i) \<noteq> -1" "sem_value (semaphore_table s ! i) = u"
      using val_refines [OF l] by auto
    have kk: "kinv (kern s) rs qs" using inv by (simp add: sem_inv_def)
    have "waiting (kern s) qs (sem_addr base i) = []" using sem_inv_value [OF inv i(1,2)] i(3) u(2) by simp
    then have "sleepq_wake (kern s) (sem_addr base i) = Some (Inr (kern s))" using sleepq_wake_kinv [OF kk refl, of "sem_addr base i"] by simp
    then have "semaphore_V base s i = Some (Inr (s\<lparr>semaphore_table := (semaphore_table s)[i := (semaphore_table s ! i)\<lparr>sem_value := c_int (u + 1)\<rparr>]\<rparr>))"
      using l i by (simp add: semaphore_V_def upd_sem_eq)
    then show ?thesis using u(3) abs_upd [OF l i(1,2), of "c_int (u + 1)"] by simp
  qed
  show "\<exists>s'. semaphore_destroy s i = Inr s' \<and> abs_sems s' = ksem_destroy (abs_sems s) i" if "i < 128"
    using that l by (simp add: semaphore_destroy_def upd_sem_eq ksem_destroy_def abs_sems_def map_update)
qed

theorem ksem_refines_witness:
  "\<exists>s'. semaphore_V ex_base ex_sems1 0 = Some (Inr s')
     \<and> abs_sems s' = (abs_sems ex_sems1)\<lparr>svals := (svals (abs_sems ex_sems1))[0 := Some 1]\<rparr>"
proof -
  let ?k = "(abs_sems ex_sems1)\<lparr>svals := (svals (abs_sems ex_sems1))[0 := Some 1]\<rparr>"
  have v: "ksem_val (abs_sems ex_sems1) 0 = Some 0"
    by (simp add: ksem_val_def abs_sems_def ex_sems1_def ex_sems_def)
  then have "ksem_V (abs_sems ex_sems1) 0 = Inr ?k" by (simp add: ksem_V_def)
  with v ksem_refines [OF ex_sems1_inv ex_sems_inv(2) _ ex_running, where v = 0 and i = 0 and rnd = 0 and k = ?k]
  show ?thesis by auto
qed

end
