(* ===== verification/Bitmap.thy ===== *)
theory Bitmap
  imports Prelude
begin

text \<open>
  \<^verbatim>\<open>lib/bitmap.c\<close>: bitmaps over 32-bit words. A \<^verbatim>\<open>bitmap_t *\<close>
  is the list of words it points to, so an access beyond the words allocated is
  \<open>Bad_access\<close>. C \<^verbatim>\<open>int\<close>s (positions and lengths, which the code
  asserts to be non-negative) are \<open>int\<close>; for these \<open>div\<close> and \<open>mod\<close> agree
  with C.

  The abstract view of a bitmap is the set of positions whose bit is one. The laws that
  clients rely on are the locale \<open>slot_bitmap\<close>.
\<close>

type_synonym bitmap_t = "u32 list"

definition bitmap_sizeof :: "int \<Rightarrow> int" where
  "bitmap_sizeof num_bits = ((num_bits + 31) div 32) * 4"

fun bitmap_init_loop :: "bitmap_t \<Rightarrow> nat \<Rightarrow> nat \<Rightarrow> bitmap_t res" where
  "bitmap_init_loop bm i 0 = Inr bm"
| "bitmap_init_loop bm i (Suc n) =
     rbind (aset bm (int i) 0) (\<lambda>bm'. bitmap_init_loop bm' (Suc i) n)"

definition bitmap_init :: "bitmap_t \<Rightarrow> int \<Rightarrow> bitmap_t res" where
  "bitmap_init bm n =
     (if \<not> n \<ge> 0 then Inl Kernel_assert
      else bitmap_init_loop bm 0 (nat ((n + 31) div 32)))"

definition bitmap_get :: "bitmap_t \<Rightarrow> int \<Rightarrow> u32 res" where
  "bitmap_get bm pos =
     (if \<not> pos \<ge> 0 then Inl Kernel_assert
      else let i = pos div 32; j = nat (pos mod 32)
           in rbind (aget bm i) (\<lambda>w. Inr (drop_bit j w AND 1)))"

definition bitmap_set :: "bitmap_t \<Rightarrow> int \<Rightarrow> int \<Rightarrow> bitmap_t res" where
  "bitmap_set bm pos value =
     (if \<not> pos \<ge> 0 then Inl Kernel_assert
      else let i = pos div 32; j = nat (pos mod 32)
           in if value = 0 then
                rbind (aget bm i) (\<lambda>w. aset bm i (w AND NOT (push_bit j 1)))
              else if value = 1 then
                rbind (aget bm i) (\<lambda>w. aset bm i (w OR push_bit j 1))
              else Inl Kernel_panic)"

text \<open>
  \<^verbatim>\<open>bitmap_findnset\<close>: the inner loop looks through the bits of one word (with
  \<open>n\<close> iterations left, starting at bit \<open>j\<close>); \<open>None\<close> says that it ran to its
  end. The outer loop goes through the words.
\<close>

fun findnset_word :: "bitmap_t \<Rightarrow> int \<Rightarrow> int \<Rightarrow> nat \<Rightarrow> nat \<Rightarrow> (int \<times> bitmap_t) option res" where
  "findnset_word bm l basepos j 0 = Inr None"
| "findnset_word bm l basepos j (Suc n) =
     rbind (bitmap_get bm (basepos + int j)) (\<lambda>b.
       if b = 0 then
         (if basepos + int j \<ge> l then Inr (Some (- 1, bm))
          else rbind (bitmap_set bm (basepos + int j) 1)
                 (\<lambda>bm'. Inr (Some (basepos + int j, bm'))))
       else findnset_word bm l basepos (Suc j) n)"

fun findnset_loop :: "bitmap_t \<Rightarrow> int \<Rightarrow> nat \<Rightarrow> nat \<Rightarrow> (int \<times> bitmap_t) res" where
  "findnset_loop bm l i 0 = Inr (- 1, bm)"
| "findnset_loop bm l i (Suc n) =
     rbind (aget bm (int i)) (\<lambda>w.
       if w \<noteq> 0xffffffff then
         rbind (findnset_word bm l (int i * 32) 0 32) (\<lambda>r.
           case r of Some x \<Rightarrow> Inr x | None \<Rightarrow> findnset_loop bm l (Suc i) n)
       else findnset_loop bm l (Suc i) n)"

definition bitmap_findnset :: "bitmap_t \<Rightarrow> int \<Rightarrow> (int \<times> bitmap_t) res" where
  "bitmap_findnset bm l =
     (if \<not> l \<ge> 0 then Inl Kernel_assert
      else findnset_loop bm l 0 (nat (bitmap_sizeof l div 4)))"

section \<open>The abstract view\<close>

definition bm_bit :: "bitmap_t \<Rightarrow> nat \<Rightarrow> bool" where
  "bm_bit bm p = bit (bm ! (p div 32)) (p mod 32)"

definition bm_covers :: "bitmap_t \<Rightarrow> nat \<Rightarrow> bool" where
  "bm_covers bm n \<longleftrightarrow> n \<le> 32 * length bm"

definition bm_put :: "bitmap_t \<Rightarrow> nat \<Rightarrow> bool \<Rightarrow> bitmap_t" where
  "bm_put bm p b = bm[p div 32 :=
     (if b then set_bit (p mod 32) (bm ! (p div 32)) else unset_bit (p mod 32) (bm ! (p div 32)))]"

lemma bm_covers_nth: "bm_covers bm n \<Longrightarrow> p < n \<Longrightarrow> p div 32 < length bm"
  by (auto simp: bm_covers_def)

lemma length_bm_put [simp]: "length (bm_put bm p b) = length bm"
  by (simp add: bm_put_def)

lemma bm_covers_put [simp]: "bm_covers (bm_put bm p b) n = bm_covers bm n"
  by (simp add: bm_covers_def)

lemma bm_bit_put:
  assumes "p div 32 < length bm"
  shows "bm_bit (bm_put bm p b) q = (if q = p then b else bm_bit bm q)"
proof (cases "q div 32 = p div 32")
  case True
  then have "q mod 32 = p mod 32 \<longleftrightarrow> q = p" by (metis div_mult_mod_eq)
  moreover have "possible_bit TYPE(32 word) (p mod 32)" by (simp add: possible_bit_def)
  ultimately show ?thesis using True assms
    by (simp add: bm_bit_def bm_put_def bit_set_bit_iff bit_unset_bit_iff eq_commute [of "p mod 32"])
next
  case False
  then have "q \<noteq> p" by blast
  with False show ?thesis by (simp add: bm_bit_def bm_put_def)
qed

lemma and_one_bit: "drop_bit j (w :: u32) AND 1 = of_bool (bit w j)"
  by (simp add: and_one_eq mod_2_eq_odd bit_iff_odd_drop_bit)

lemma bitmap_get_eq:
  "p div 32 < length bm \<Longrightarrow> bitmap_get bm (int p) = Inr (of_bool (bm_bit bm p))"
  by (simp add: bitmap_get_def bm_bit_def Let_def and_one_bit)

lemma bitmap_set_eq:
  "p div 32 < length bm \<Longrightarrow> bitmap_set bm (int p) (of_bool b) = Inr (bm_put bm p b)"
  by (simp add: bitmap_set_def bm_put_def Let_def set_bit_eq_or unset_bit_eq_and_not)

lemma bitmap_set_1:
  "p div 32 < length bm \<Longrightarrow> bitmap_set bm (int p) 1 = Inr (bm_put bm p True)"
  using bitmap_set_eq [of p bm True] by simp

lemma bitmap_set_0:
  "p div 32 < length bm \<Longrightarrow> bitmap_set bm (int p) 0 = Inr (bm_put bm p False)"
  using bitmap_set_eq [of p bm False] by simp

lemma full_word_bits: "(w :: u32) = 0xffffffff \<longleftrightarrow> (\<forall>k < 32. bit w k)"
proof -
  have m: "(0xffffffff :: u32) = mask 32" by (simp add: mask_eq_exp_minus_1)
  have "bit w k \<Longrightarrow> k < 32" for k using bit_imp_le_length [of w k] by simp
  then show ?thesis unfolding m bit_eq_iff bit_mask_iff by auto
qed

section \<open>Finding a zero bit\<close>

definition free_in_word :: "bitmap_t \<Rightarrow> nat \<Rightarrow> nat \<Rightarrow> nat \<Rightarrow> bool" where
  "free_in_word bm i j k \<longleftrightarrow> j \<le> k \<and> k < 32 \<and> \<not> bm_bit bm (32 * i + k)
     \<and> (\<forall>k'. j \<le> k' \<and> k' < k \<longrightarrow> bm_bit bm (32 * i + k'))"

lemma findnset_word_cases:
  assumes "i < length bm" "j + n = 32"
  shows "(\<exists>k. free_in_word bm i j k \<and>
            findnset_word bm l (int i * 32) j n =
              (if int (32 * i + k) \<ge> l then Inr (Some (- 1, bm))
               else Inr (Some (int (32 * i + k), bm_put bm (32 * i + k) True))))
       \<or> (\<forall>k. j \<le> k \<and> k < 32 \<longrightarrow> bm_bit bm (32 * i + k)) \<and>
         findnset_word bm l (int i * 32) j n = Inr None"
  using assms
proof (induction n arbitrary: j)
  case 0
  then show ?case by auto
next
  case (Suc n)
  let ?p = "32 * i + j"
  have d: "?p div 32 < length bm" using Suc.prems by auto
  have p: "int i * 32 + int j = int ?p" by simp
  show ?case
  proof (cases "bm_bit bm ?p")
    case True
    have step: "findnset_word bm l (int i * 32) j (Suc n) = findnset_word bm l (int i * 32) (Suc j) n"
      using True by (simp only: findnset_word.simps p bitmap_get_eq [OF d]) simp
    have widen: "free_in_word bm i (Suc j) k \<Longrightarrow> free_in_word bm i j k" for k
      using True by (auto simp: free_in_word_def) (metis Suc_leI le_neq_implies_less)
    have widen_all: "(\<forall>k. Suc j \<le> k \<and> k < 32 \<longrightarrow> bm_bit bm (32 * i + k)) \<Longrightarrow>
        (\<forall>k. j \<le> k \<and> k < 32 \<longrightarrow> bm_bit bm (32 * i + k))"
      using True by (metis Suc_leI le_neq_implies_less)
    have "Suc j + n = 32" using Suc.prems by simp
    from Suc.IH [OF Suc.prems(1) this] show ?thesis
      unfolding step using widen widen_all by blast
  next
    case False
    have "free_in_word bm i j j" using False Suc.prems by (auto simp: free_in_word_def)
    moreover have "findnset_word bm l (int i * 32) j (Suc n) =
        (if int ?p \<ge> l then Inr (Some (- 1, bm)) else Inr (Some (int ?p, bm_put bm ?p True)))"
      using False by (simp only: findnset_word.simps p bitmap_get_eq [OF d] bitmap_set_1 [OF d]) simp
    ultimately show ?thesis by blast
  qed
qed

definition bm_first_zero :: "bitmap_t \<Rightarrow> nat \<Rightarrow> nat" where
  "bm_first_zero bm l = first_index (\<lambda>p. \<not> bm_bit bm p) [0..<l]"

lemma bm_first_zero_unique:
  "p < l \<Longrightarrow> \<not> bm_bit bm p \<Longrightarrow> (\<And>q. q < p \<Longrightarrow> bm_bit bm q) \<Longrightarrow> bm_first_zero bm l = p"
  unfolding bm_first_zero_def by (rule first_index_unique) auto

lemma bm_first_zero_none:
  "(\<And>q. q < l \<Longrightarrow> bm_bit bm q) \<Longrightarrow> bm_first_zero bm l = l"
  unfolding bm_first_zero_def
  using first_index_eq_length_iff [of "\<lambda>p. \<not> bm_bit bm p" "[0..<l]"] by auto

lemma bm_first_zero_le: "bm_first_zero bm l \<le> l"
  unfolding bm_first_zero_def
  using first_index_le [of "\<lambda>p. \<not> bm_bit bm p" "[0..<l]"] by simp

lemma bm_first_zero_hit: "bm_first_zero bm l < l \<Longrightarrow> \<not> bm_bit bm (bm_first_zero bm l)"
  unfolding bm_first_zero_def
  using first_index_hit [of "\<lambda>p. \<not> bm_bit bm p" "[0..<l]"] by simp

lemma bm_first_zero_before: "q < bm_first_zero bm l \<Longrightarrow> bm_bit bm q"
  using first_index_before [of q "\<lambda>p. \<not> bm_bit bm p" "[0..<l]"] bm_first_zero_le [of bm l]
  unfolding bm_first_zero_def by simp

lemma findnset_loop_eq:
  assumes "\<And>q. q < 32 * i \<Longrightarrow> bm_bit bm q"
    and "i + n = (l + 31) div 32" and "bm_covers bm l"
  shows "findnset_loop bm (int l) i n =
    Inr (if bm_first_zero bm l < l then (int (bm_first_zero bm l), bm_put bm (bm_first_zero bm l) True)
         else (- 1, bm))"
  using assms(1,2)
proof (induction n arbitrary: i)
  case 0
  then have "bm_first_zero bm l = l" by (intro bm_first_zero_none) auto
  then show ?case by simp
next
  case (Suc n)
  have i: "i < length bm" using Suc.prems(2) assms(3) by (auto simp: bm_covers_def)
  have il: "32 * i < l" using Suc.prems(2) by auto
  have bits: "bm_bit bm (32 * i + k) \<longleftrightarrow> bit (bm ! i) k" if "k < 32" for k
    using that by (simp add: bm_bit_def)
  have next_word: "findnset_loop bm (int l) (Suc i) n =
      Inr (if bm_first_zero bm l < l then (int (bm_first_zero bm l), bm_put bm (bm_first_zero bm l) True)
           else (- 1, bm))" if full: "\<And>k. k < 32 \<Longrightarrow> bm_bit bm (32 * i + k)"
  proof (rule Suc.IH)
    fix q assume "q < 32 * Suc i"
    then show "bm_bit bm q"
      using Suc.prems(1) [of q] full [of "q - 32 * i"] by (cases "q < 32 * i") auto
  next
    show "Suc i + n = (l + 31) div 32" using Suc.prems(2) by simp
  qed
  show ?case
  proof (cases "bm ! i = 0xffffffff")
    case True
    then have "bm_bit bm (32 * i + k)" if "k < 32" for k
      using that bits full_word_bits by blast
    from next_word [OF this] True i show ?thesis by simp
  next
    case False
    then obtain k0 where k0: "k0 < 32" "\<not> bm_bit bm (32 * i + k0)"
      using bits full_word_bits by blast
    from findnset_word_cases [OF i, of 0 32 "int l"] k0
    obtain k where k: "free_in_word bm i 0 k"
      and r: "findnset_word bm (int l) (int i * 32) 0 32 =
          (if int (32 * i + k) \<ge> int l then Inr (Some (- 1, bm))
           else Inr (Some (int (32 * i + k), bm_put bm (32 * i + k) True)))"
      by auto
    have before: "bm_bit bm q" if "q < 32 * i + k" for q
      using that k Suc.prems(1) [of q] by (cases "q < 32 * i") (auto simp: free_in_word_def dest: spec [of _ "q - 32 * i"])
    have zero: "\<not> bm_bit bm (32 * i + k)" using k by (simp add: free_in_word_def)
    show ?thesis
    proof (cases "32 * i + k < l")
      case True
      then have "bm_first_zero bm l = 32 * i + k" using zero before by (intro bm_first_zero_unique)
      with True False i r show ?thesis by simp
    next
      case out: False
      then have "bm_first_zero bm l = l" using before by (intro bm_first_zero_none) auto
      with out False i r show ?thesis by simp
    qed
  qed
qed

lemma bitmap_findnset_eq:
  assumes "bm_covers bm l"
  shows "bitmap_findnset bm (int l) =
    Inr (if bm_first_zero bm l < l then (int (bm_first_zero bm l), bm_put bm (bm_first_zero bm l) True)
         else (- 1, bm))"
proof -
  have "nat (bitmap_sizeof (int l) div 4) = (l + 31) div 32"
    by (simp add: bitmap_sizeof_def nat_div_distrib nat_add_distrib)
  then show ?thesis
    using findnset_loop_eq [of 0 bm "(l + 31) div 32" l] assms
    by (simp add: bitmap_findnset_def)
qed

lemma bitmap_init_loop_eq:
  "i + n \<le> length bm \<Longrightarrow>
   bitmap_init_loop bm i n = Inr (take i bm @ replicate n 0 @ drop (i + n) bm)"
proof (induction n arbitrary: bm i)
  case 0
  then show ?case by simp
next
  case (Suc n)
  have "take (Suc i) (bm[i := 0]) = take i bm @ [0]"
    using Suc.prems by (simp add: take_Suc_conv_app_nth)
  then show ?case using Suc.prems Suc.IH [of "Suc i" "bm[i := 0]"] by simp
qed

lemma bitmap_init_eq:
  "n \<le> 32 * length bm \<Longrightarrow> bitmap_init bm (int n) =
     Inr (replicate ((n + 31) div 32) 0 @ drop ((n + 31) div 32) bm)"
  using bitmap_init_loop_eq [of 0 "(n + 31) div 32" bm]
  by (simp add: bitmap_init_def nat_div_distrib nat_add_distrib)

lemma bitmap_init_zero:
  assumes "bm_covers bm n"
  shows "\<exists>bm'. bitmap_init bm (int n) = Inr bm' \<and> length bm' = length bm
           \<and> (\<forall>p < n. \<not> bm_bit bm' p)"
proof -
  have w: "p div 32 < (n + 31) div 32" if "p < n" for p using that by linarith
  have "(n + 31) div 32 \<le> length bm" using assms by (auto simp: bm_covers_def)
  then show ?thesis
    using assms w by (auto simp: bitmap_init_eq bm_covers_def bm_bit_def nth_append)
qed

section \<open>What clients of a bitmap rely on\<close>

text \<open>
  The page pool and the file system reach bitmaps through three operations only. The locale
  states what these promise for a bitmap that covers \<open>n\<close> slots, and derives the
  counting facts both clients need.
\<close>

locale slot_bitmap =
  fixes get :: "'b \<Rightarrow> int \<Rightarrow> u32 res"
    and put :: "'b \<Rightarrow> int \<Rightarrow> int \<Rightarrow> 'b res"
    and claim :: "'b \<Rightarrow> int \<Rightarrow> (int \<times> 'b) res"
    and covers :: "'b \<Rightarrow> nat \<Rightarrow> bool"
    and used :: "'b \<Rightarrow> nat \<Rightarrow> bool"
  assumes get_law: "covers b n \<Longrightarrow> p < n \<Longrightarrow> get b (int p) = Inr (of_bool (used b p))"
    and put_law: "covers b n \<Longrightarrow> p < n \<Longrightarrow>
      \<exists>b'. put b (int p) (of_bool v) = Inr b' \<and> (\<forall>m. covers b' m = covers b m)
         \<and> (\<forall>q. used b' q = (if q = p then v else used b q))"
    and claim_law: "covers b n \<Longrightarrow>
      (\<exists>p b'. p < n \<and> \<not> used b p \<and> (\<forall>q < p. used b q) \<and> claim b (int n) = Inr (int p, b')
         \<and> (\<forall>m. covers b' m = covers b m) \<and> (\<forall>q. used b' q = (q = p \<or> used b q)))
      \<or> (\<forall>p < n. used b p) \<and> claim b (int n) = Inr (- 1, b)"
begin

definition free_slots :: "'b \<Rightarrow> nat \<Rightarrow> nat set" where
  "free_slots b n = {p. p < n \<and> \<not> used b p}"

definition free_count :: "'b \<Rightarrow> nat \<Rightarrow> nat" where
  "free_count b n = card (free_slots b n)"

lemma finite_free_slots [simp]: "finite (free_slots b n)"
  by (simp add: free_slots_def)

lemma free_count_zero_iff: "free_count b n = 0 \<longleftrightarrow> (\<forall>p < n. used b p)"
  by (auto simp: free_count_def free_slots_def)

lemma claim_ok:
  assumes "covers b n" "0 < free_count b n"
  shows "\<exists>p b'. claim b (int n) = Inr (int p, b') \<and> p < n \<and> \<not> used b p
      \<and> (\<forall>m. covers b' m = covers b m)
      \<and> (\<forall>q. used b' q = (q = p \<or> used b q)) \<and> free_count b' n = free_count b n - 1"
proof -
  have "\<not> (\<forall>p < n. used b p)" using assms(2) free_count_zero_iff [of b n] by auto
  with claim_law [OF assms(1)] obtain p b' where
    pb: "p < n" "\<not> used b p" "claim b (int n) = Inr (int p, b')" "\<forall>m. covers b' m = covers b m"
      "\<forall>q. used b' q = (q = p \<or> used b q)"
    by blast
  have "free_slots b' n = free_slots b n - {p}" using pb(5) by (auto simp: free_slots_def)
  moreover have "p \<in> free_slots b n" using pb(1,2) by (simp add: free_slots_def)
  ultimately have "free_count b' n = free_count b n - 1" by (simp add: free_count_def)
  with pb show ?thesis by blast
qed

lemma claim_full:
  "covers b n \<Longrightarrow> free_count b n = 0 \<Longrightarrow> claim b (int n) = Inr (- 1, b)"
  using claim_law [of b n] free_count_zero_iff by blast

lemma put_free:
  assumes "covers b n" "p < n" "used b p"
  shows "\<exists>b'. put b (int p) 0 = Inr b' \<and> (\<forall>m. covers b' m = covers b m)
     \<and> (\<forall>q. used b' q = (q \<noteq> p \<and> used b q)) \<and> free_slots b' n = insert p (free_slots b n)
     \<and> free_count b' n = Suc (free_count b n)"
proof -
  from put_law [OF assms(1,2), of False] obtain b' where
    b': "put b (int p) 0 = Inr b'" "\<forall>m. covers b' m = covers b m"
      "\<forall>q. used b' q = (if q = p then False else used b q)" by auto
  have ins: "free_slots b' n = insert p (free_slots b n)" using b'(3) assms(2) by (auto simp: free_slots_def)
  moreover have "p \<notin> free_slots b n" using assms(3) by (simp add: free_slots_def)
  ultimately have "free_count b' n = Suc (free_count b n)" by (simp add: free_count_def)
  with b' ins show ?thesis by auto
qed

lemma put_take:
  assumes "covers b n" "p < n" "\<not> used b p"
  shows "\<exists>b'. put b (int p) 1 = Inr b' \<and> (\<forall>m. covers b' m = covers b m)
     \<and> (\<forall>q. used b' q = (q = p \<or> used b q)) \<and> free_count b' n = free_count b n - 1"
proof -
  from put_law [OF assms(1,2), of True] obtain b' where
    b': "put b (int p) 1 = Inr b'" "\<forall>m. covers b' m = covers b m"
      "\<forall>q. used b' q = (if q = p then True else used b q)" by auto
  have "free_slots b' n = free_slots b n - {p}" using b'(3) by (auto simp: free_slots_def)
  moreover have "p \<in> free_slots b n" using assms(2,3) by (simp add: free_slots_def)
  ultimately have "free_count b' n = free_count b n - 1" by (simp add: free_count_def)
  with b' show ?thesis by auto
qed

end

lemma bitmap_claim_cases:
  assumes "bm_covers bm n"
  shows "(\<exists>p bm'. p < n \<and> \<not> bm_bit bm p \<and> (\<forall>q < p. bm_bit bm q)
            \<and> bitmap_findnset bm (int n) = Inr (int p, bm')
            \<and> (\<forall>m. bm_covers bm' m = bm_covers bm m) \<and> (\<forall>q. bm_bit bm' q = (q = p \<or> bm_bit bm q)))
       \<or> (\<forall>p < n. bm_bit bm p) \<and> bitmap_findnset bm (int n) = Inr (- 1, bm)"
proof (cases "bm_first_zero bm n < n")
  case True
  let ?p = "bm_first_zero bm n"
  have d: "?p div 32 < length bm" using assms True bm_covers_nth by blast
  have "bitmap_findnset bm (int n) = Inr (int ?p, bm_put bm ?p True)"
    using bitmap_findnset_eq [OF assms] True by simp
  then show ?thesis
    using True bm_first_zero_hit [OF True] bm_first_zero_before [of _ bm n] bm_bit_put [OF d, of True]
    by (intro disjI1 exI [of _ ?p] exI [of _ "bm_put bm ?p True"]) auto
next
  case False
  then have l: "bm_first_zero bm n = n" using bm_first_zero_le [of bm n] by simp
  then have "\<forall>p < n. bm_bit bm p" using bm_first_zero_before [of _ bm n] by auto
  with l show ?thesis using bitmap_findnset_eq [OF assms] by simp
qed

interpretation bm: slot_bitmap bitmap_get bitmap_set bitmap_findnset bm_covers bm_bit
proof (unfold_locales, goal_cases)
  case (1 b n p)
  then show ?case by (simp add: bitmap_get_eq bm_covers_nth)
next
  case (2 b n p v)
  then have "p div 32 < length b" by (rule bm_covers_nth)
  then show ?case by (simp add: bitmap_set_eq bm_bit_put)
next
  case (3 b n)
  then show ?case by (rule bitmap_claim_cases)
qed

section \<open>Properties\<close>

text \<open>
  \<^verbatim>\<open>bitmap_findnset\<close> on a bitmap that has room for \<open>l\<close> bits: when
  some of the first \<open>l\<close> bits is zero it returns the least such position and sets
  exactly that bit; otherwise it returns \<open>-1\<close> and leaves the bitmap as it was. It never
  reads outside the bitmap.
\<close>

theorem bitmap_findnset_least:
  assumes "l \<le> 32 * length bm"
  shows "(\<exists>p < l. \<not> bm_bit bm p \<and> (\<forall>q < p. bm_bit bm q)
            \<and> (\<exists>bm'. bitmap_findnset bm (int l) = Inr (int p, bm')
                  \<and> (\<forall>q. bm_bit bm' q = (q = p \<or> bm_bit bm q))))
       \<or> (\<forall>p < l. bm_bit bm p) \<and> bitmap_findnset bm (int l) = Inr (- 1, bm)"
proof -
  have "bm_covers bm l" using assms by (simp add: bm_covers_def)
  from bm.claim_law [OF this] show ?thesis by blast
qed

theorem bitmap_findnset_least_witness:
  "bitmap_findnset [0xffffffff, 5] 40 = Inr (33, [0xffffffff, 7])
   \<and> bitmap_findnset [0xffffffff, 0xff] 40 = Inr (- 1, [0xffffffff, 0xff])
   \<and> ((\<exists>p < 40. \<not> bm_bit [0xffffffff, 5] p \<and> (\<forall>q < p. bm_bit [0xffffffff, 5] q)
            \<and> (\<exists>bm'. bitmap_findnset [0xffffffff, 5] (int 40) = Inr (int p, bm')
                  \<and> (\<forall>q. bm_bit bm' q = (q = p \<or> bm_bit [0xffffffff, 5] q))))
       \<or> (\<forall>p < 40. bm_bit [0xffffffff, 5] p)
         \<and> bitmap_findnset [0xffffffff, 5] (int 40) = Inr (- 1, [0xffffffff, 5]))"
proof (intro conjI)
  show "bitmap_findnset [0xffffffff, 5] 40 = Inr (33, [0xffffffff, 7])" by code_simp
  show "bitmap_findnset [0xffffffff, 0xff] 40 = Inr (- 1, [0xffffffff, 0xff])" by code_simp
qed (rule bitmap_findnset_least, simp)

end
