(* ===== verification/Kmalloc.thy ===== *)
theory Kmalloc
  imports Prelude
begin

text \<open>
  \<^verbatim>\<open>kernel/kmalloc.c\<close>: permanent kernel memory, handed out upwards from the
  end of the kernel image. The two static variables are the record \<open>kmalloc_state\<close>;
  addresses are 32-bit words, so the check against the end of memory can wrap as it does in
  the code.
\<close>

record kmalloc_state =
  free_area_start :: u32
  memory_end :: u32

definition kmalloc_get_numpages :: "io_descriptor_t list \<Rightarrow> (u32 \<Rightarrow> u32) \<Rightarrow> int res" where
  "kmalloc_get_numpages descs io =
     (let ds = take YAMS_MAX_DEVICES descs;
          i = first_index (\<lambda>d. desc_type d = 0x101) ds;
          num_pages = (if i < length ds then io (io_area_base (ds ! i)) else 0)
      in if num_pages = 0 then Inl Kernel_panic else Inr (sint num_pages))"

definition kmalloc_get_reserved_pages :: "kmalloc_state \<Rightarrow> int" where
  "kmalloc_get_reserved_pages st =
     (let size = free_area_start st - 0x80000000;
          num_res_pages = sint (size div PAGE_SIZE)
      in if size mod PAGE_SIZE \<noteq> 0 then num_res_pages + 1 else num_res_pages)"

definition kmalloc_disable :: "kmalloc_state \<Rightarrow> kmalloc_state" where
  "kmalloc_disable st = st\<lparr>free_area_start := 0xffffffff\<rparr>"

text \<open>The alignment step that \<^verbatim>\<open>kmalloc_init\<close> and \<^verbatim>\<open>kmalloc\<close> share.\<close>

definition word_align :: "u32 \<Rightarrow> u32" where
  "word_align a = (if a AND 0x03 \<noteq> 0 then (a + 4) AND 0xfffffffc else a)"

definition kmalloc_init :: "io_descriptor_t list \<Rightarrow> (u32 \<Rightarrow> u32) \<Rightarrow> u32 \<Rightarrow> kmalloc_state res" where
  "kmalloc_init descs io KERNEL_ENDS_HERE =
     rbind (kmalloc_get_numpages descs io) (\<lambda>n.
       let system_memory_size = word_of_int (n * PAGE_SIZE)
       in Inr \<lparr>free_area_start = word_align KERNEL_ENDS_HERE,
               memory_end = 0x80000000 + system_memory_size\<rparr>)"

definition kmalloc :: "kmalloc_state \<Rightarrow> int \<Rightarrow> (u32 \<times> kmalloc_state) res" where
  "kmalloc st bytes =
     (if free_area_start st = 0xffffffff then Inl Kernel_panic
      else if free_area_start st = 0 then Inl Kernel_panic
      else if bytes < 0 then Inl Kernel_panic
      else if free_area_start st + word_of_int bytes > memory_end st then Inl Kernel_panic
      else let res = free_area_start st
           in Inr (res, st\<lparr>free_area_start := word_align (free_area_start st + word_of_int bytes)\<rparr>))"

section \<open>Alignment\<close>

lemma three_mask: "(3 :: u32) = mask 2" "(0xfffffffc :: u32) = NOT (mask 2)"
  by (simp_all add: mask_eq_exp_minus_1)

lemma aligned_iff: "a AND 3 = 0 \<longleftrightarrow> 4 dvd unat (a :: u32)"
  using and_mask_dvd_nat [of 2 a] by (simp add: three_mask)

lemma word_align_unat:
  assumes "unat a + 3 < 2 ^ 32"
  shows "unat (word_align a) = 4 * ((unat a + 3) div 4)"
proof (cases "a AND 3 = 0")
  case True
  then have "4 dvd unat a" by (simp add: aligned_iff)
  with True show ?thesis by (auto simp: word_align_def elim!: dvdE)
next
  case False
  then have r: "unat a mod 4 \<noteq> 0" by (simp add: aligned_iff dvd_eq_mod_eq_0)
  show ?thesis
  proof (cases "unat a + 4 < 2 ^ 32")
    case True
    then have "unat (a + 4) = unat a + 4" using unat_plus_less [of a 4] by simp
    then have "unat (word_align a) = unat a + 4 - (unat a + 4) mod 4"
      using False unat_and_not_mask [of "a + 4" 2] by (simp add: word_align_def three_mask)
    also have "\<dots> = 4 * ((unat a + 3) div 4)" using r by presburger
    finally show ?thesis .
  next
    case last: False
    with assms have "unat a = 2 ^ 32 - 4" by simp
    with r show ?thesis by simp
  qed
qed

lemma word_align_aligned: "4 dvd unat (word_align a)"
proof (cases "a AND 3 = 0")
  case True
  then show ?thesis by (simp add: word_align_def aligned_iff)
next
  case False
  have "unat ((a + 4) AND NOT (mask 2)) = unat (a + 4) - unat (a + 4) mod 4"
    using unat_and_not_mask [of "a + 4" 2] by simp
  then show ?thesis using False by (simp add: word_align_def three_mask dvd_eq_mod_eq_0 minus_mod_eq_mult_div)
qed

section \<open>One allocation\<close>

text \<open>A request that stays clear of the end of the address space.\<close>

definition kmalloc_ready :: "kmalloc_state \<Rightarrow> bool" where
  "kmalloc_ready st \<longleftrightarrow> free_area_start st \<noteq> 0 \<and> 4 dvd unat (free_area_start st)
     \<and> 4 dvd unat (memory_end st) \<and> free_area_start st \<le> memory_end st"

lemma kmalloc_fits:
  assumes "kmalloc_ready st" "unat (free_area_start st) + n \<le> unat (memory_end st)"
  shows "\<exists>st'. kmalloc st (int n) = Inr (free_area_start st, st') \<and> kmalloc_ready st'
      \<and> memory_end st' = memory_end st
      \<and> unat (free_area_start st') = 4 * ((unat (free_area_start st) + n + 3) div 4)"
proof -
  let ?s = "free_area_start st" and ?e = "memory_end st"
  have me: "unat ?e + 3 < 2 ^ 32"
    using assms(1) u32_less [of ?e] by (auto simp: kmalloc_ready_def elim!: dvdE)
  have sum: "unat (?s + word_of_int (int n)) = unat ?s + n"
    using assms(2) me unat_plus_less [of ?s n] by simp
  have up: "4 * ((unat ?s + n + 3) div 4) \<le> unat ?e"
  proof -
    obtain k where "unat ?e = 4 * k" using assms(1) by (auto simp: kmalloc_ready_def elim!: dvdE)
    with assms(2) have "(unat ?s + n + 3) div 4 \<le> k" by linarith
    with \<open>unat ?e = 4 * k\<close> show ?thesis by simp
  qed
  have al: "unat (word_align (?s + word_of_int (int n))) = 4 * ((unat ?s + n + 3) div 4)"
    using word_align_unat [of "?s + word_of_int (int n)"] sum assms(2) me by simp
  have "?s \<noteq> 0xffffffff" using assms(1) by (auto simp: kmalloc_ready_def)
  moreover have "\<not> ?s + word_of_int (int n) > ?e" using sum assms(2) by (simp add: word_less_nat_alt)
  moreover have "word_align (?s + word_of_int (int n)) \<noteq> 0"
  proof
    assume "word_align (?s + word_of_int (int n)) = 0"
    with al have "unat ?s = 0" by simp
    with assms(1) show False by (simp add: kmalloc_ready_def unat_eq_0)
  qed
  ultimately show ?thesis using assms(1) al up
    by (auto simp: kmalloc_def kmalloc_ready_def Let_def word_le_nat_alt word_align_aligned)
qed

section \<open>Sequences of allocations\<close>

fun kmalloc_all :: "kmalloc_state \<Rightarrow> nat list \<Rightarrow> (u32 list \<times> kmalloc_state) res" where
  "kmalloc_all st [] = Inr ([], st)"
| "kmalloc_all st (n # ns) =
     rbind (kmalloc st (int n)) (\<lambda>(a, st').
       rbind (kmalloc_all st' ns) (\<lambda>(as, st''). Inr (a # as, st'')))"

definition round4 :: "nat \<Rightarrow> nat" where
  "round4 n = 4 * ((n + 3) div 4)"

lemma le_round4: "n \<le> round4 n"
  unfolding round4_def by presburger

lemma round4_add: "4 dvd m \<Longrightarrow> 4 * ((m + n + 3) div 4) = m + round4 n"
  unfolding round4_def by presburger

lemma kmalloc_all_ok:
  "kmalloc_ready st \<Longrightarrow>
   unat (free_area_start st) + sum_list (map round4 ns) \<le> unat (memory_end st) \<Longrightarrow>
   \<exists>as st'. kmalloc_all st ns = Inr (as, st') \<and> length as = length ns
     \<and> (\<forall>i < length ns. 4 dvd unat (as ! i) \<and> unat (free_area_start st) \<le> unat (as ! i)
          \<and> unat (as ! i) + ns ! i \<le> unat (memory_end st))
     \<and> (\<forall>i j. i < j \<and> j < length ns \<longrightarrow> unat (as ! i) + ns ! i \<le> unat (as ! j))"
proof (induction ns arbitrary: st)
  case Nil
  then show ?case by simp
next
  case (Cons n ns)
  let ?s = "free_area_start st"
  have "unat ?s + n \<le> unat (memory_end st)"
    using Cons.prems(2) le_round4 [of n] by simp
  with Cons.prems(1) obtain st1 where
    st1: "kmalloc st (int n) = Inr (?s, st1)" "kmalloc_ready st1" "memory_end st1 = memory_end st"
      "unat (free_area_start st1) = unat ?s + round4 n"
    using kmalloc_fits round4_add by (metis kmalloc_ready_def)
  have "unat (free_area_start st1) + sum_list (map round4 ns) \<le> unat (memory_end st1)"
    using Cons.prems(2) st1(3,4) by simp
  from Cons.IH [OF st1(2) this] obtain as st' where
    as: "kmalloc_all st1 ns = Inr (as, st')" "length as = length ns"
      "\<forall>i < length ns. 4 dvd unat (as ! i) \<and> unat ?s + round4 n \<le> unat (as ! i)
          \<and> unat (as ! i) + ns ! i \<le> unat (memory_end st)"
      "\<forall>i j. i < j \<and> j < length ns \<longrightarrow> unat (as ! i) + ns ! i \<le> unat (as ! j)"
    unfolding st1(3,4) by blast
  have al: "4 dvd unat ?s" using Cons.prems(1) by (simp add: kmalloc_ready_def)
  have each: "4 dvd unat ((?s # as) ! i) \<and> unat ?s \<le> unat ((?s # as) ! i)
      \<and> unat ((?s # as) ! i) + (n # ns) ! i \<le> unat (memory_end st)" if "i < length (n # ns)" for i
    using that al as(3) \<open>unat ?s + n \<le> unat (memory_end st)\<close> by (cases i) (auto dest!: spec)
  have pairs: "unat ((?s # as) ! i) + (n # ns) ! i \<le> unat ((?s # as) ! j)"
    if "i < j" "j < length (n # ns)" for i j
  proof -
    obtain j' where j: "j = Suc j'" "j' < length ns" using \<open>i < j\<close> \<open>j < length (n # ns)\<close> by (cases j) auto
    show ?thesis
    proof (cases i)
      case 0
      then show ?thesis using j as(3) le_round4 [of n] by (auto dest!: spec [of _ j'])
    next
      case (Suc i')
      then show ?thesis using that j as(4) by auto
    qed
  qed
  have "kmalloc_all st (n # ns) = Inr (?s # as, st')" using st1(1) as(1) by simp
  then show ?case using as(2) each pairs
    by (intro exI [of _ "?s # as"] exI [of _ st']) auto
qed

section \<open>Properties\<close>

text \<open>
  A sequence of \<^verbatim>\<open>kmalloc\<close> requests whose sizes, rounded up to words, fit
  below the end of memory never panics. Every block returned is word aligned and lies between
  the first free address and the end of memory, and the blocks are pairwise disjoint, in
  increasing order.
\<close>

theorem kmalloc_disjoint:
  assumes "kmalloc_ready st"
    and "unat (free_area_start st) + sum_list (map round4 ns) \<le> unat (memory_end st)"
  shows "\<exists>as st'. kmalloc_all st ns = Inr (as, st') \<and> length as = length ns
     \<and> (\<forall>i < length ns. 4 dvd unat (as ! i) \<and> unat (free_area_start st) \<le> unat (as ! i)
          \<and> unat (as ! i) + ns ! i \<le> unat (memory_end st))
     \<and> (\<forall>i j. i < j \<and> j < length ns \<longrightarrow> unat (as ! i) + ns ! i \<le> unat (as ! j))"
  using assms by (rule kmalloc_all_ok)

theorem kmalloc_disjoint_witness:
  "kmalloc_ready \<lparr>free_area_start = 0x80020000, memory_end = 0x80400000\<rparr>
   \<and> kmalloc_all \<lparr>free_area_start = 0x80020000, memory_end = 0x80400000\<rparr> [5, 4096]
     = Inr ([0x80020000, 0x80020008], \<lparr>free_area_start = 0x80021008, memory_end = 0x80400000\<rparr>)
   \<and> (\<exists>as st'. kmalloc_all \<lparr>free_area_start = 0x80020000, memory_end = 0x80400000\<rparr> [5, 4096] = Inr (as, st')
       \<and> length as = length [5, 4096 :: nat])"
proof (intro conjI)
  show r: "kmalloc_ready \<lparr>free_area_start = 0x80020000, memory_end = 0x80400000\<rparr>"
    by (simp add: kmalloc_ready_def)
  show "kmalloc_all \<lparr>free_area_start = 0x80020000, memory_end = 0x80400000\<rparr> [5, 4096]
     = Inr ([0x80020000, 0x80020008], \<lparr>free_area_start = 0x80021008, memory_end = 0x80400000\<rparr>)"
    by code_simp
  show "\<exists>as st'. kmalloc_all \<lparr>free_area_start = 0x80020000, memory_end = 0x80400000\<rparr> [5, 4096] = Inr (as, st')
       \<and> length as = length [5, 4096 :: nat]"
    using kmalloc_disjoint [OF r, of "[5, 4096]"] by (auto simp: round4_def)
qed

text \<open>
  The check against the end of memory is done in 32-bit arithmetic and wraps: with a free
  area at \<open>0x80020000\<close>, a request of \<open>0x7fffffff\<close> bytes (far beyond the 4 MB of
  memory) is granted and moves the free area to \<open>0x00020000\<close>, below the kernel.
\<close>

theorem kmalloc_wraps:
  "kmalloc \<lparr>free_area_start = 0x80020000, memory_end = 0x80400000\<rparr> 0x7fffffff
   = Inr (0x80020000, \<lparr>free_area_start = 0x00020000, memory_end = 0x80400000\<rparr>)"
  by code_simp

end
