(* ===== verification/Pagepool.thy ===== *)
theory Pagepool
  imports Bitmap Kmalloc
begin

text \<open>
  \<^verbatim>\<open>vm/pagepool.c\<close>: the pool of physical pages. The static variables of the file
  are the record \<open>pagepool\<close>. The functions run with interrupts disabled and the pool's
  spinlock held, so each is one step.

  The abstract view is the set of free page numbers; the promises made to the users of pages
  are the locale \<open>page_allocator\<close>.
\<close>

record pagepool =
  pagepool_free_pages :: bitmap_t
  pagepool_num_pages :: int
  pagepool_num_free_pages :: int
  pagepool_static_end :: int

fun reserve_loop :: "bitmap_t \<Rightarrow> nat \<Rightarrow> nat \<Rightarrow> bitmap_t res" where
  "reserve_loop bm i 0 = Inr bm"
| "reserve_loop bm i (Suc n) = rbind (bitmap_set bm (int i) 1) (\<lambda>bm'. reserve_loop bm' (Suc i) n)"

text \<open>
  \<open>ram\<close> gives the words found in the memory that \<^verbatim>\<open>kmalloc\<close> returns for the
  bitmap.
\<close>

definition pagepool_init ::
  "io_descriptor_t list \<Rightarrow> (u32 \<Rightarrow> u32) \<Rightarrow> (u32 \<Rightarrow> nat \<Rightarrow> u32) \<Rightarrow> kmalloc_state
     \<Rightarrow> (pagepool \<times> kmalloc_state) res" where
  "pagepool_init descs io ram km =
     rbind (kmalloc_get_numpages descs io) (\<lambda>num_pages.
     rbind (kmalloc km (bitmap_sizeof num_pages)) (\<lambda>(addr, km').
     rbind (bitmap_init (map (ram addr) [0..<nat (bitmap_sizeof num_pages div 4)]) num_pages) (\<lambda>bm.
       let num_res_pages = kmalloc_get_reserved_pages km'
       in rbind (reserve_loop bm 0 (nat num_res_pages)) (\<lambda>bm'.
            Inr (\<lparr>pagepool_free_pages = bm', pagepool_num_pages = num_pages,
                  pagepool_num_free_pages = num_pages - num_res_pages,
                  pagepool_static_end = num_res_pages\<rparr>, km')))))"

definition pagepool_get_phys_page :: "pagepool \<Rightarrow> (u32 \<times> pagepool) res" where
  "pagepool_get_phys_page pp =
     (if pagepool_num_free_pages pp > 0 then
        rbind (bitmap_findnset (pagepool_free_pages pp) (pagepool_num_pages pp)) (\<lambda>(i, bm).
          let pp' = pp\<lparr>pagepool_free_pages := bm,
                       pagepool_num_free_pages := pagepool_num_free_pages pp - 1\<rparr>
          in if \<not> (i \<ge> 0 \<and> pagepool_num_free_pages pp' \<ge> 0) then Inl Kernel_assert
             else Inr (word_of_int (i * PAGE_SIZE), pp'))
      else Inr (0, pp))"

definition pagepool_free_phys_page :: "pagepool \<Rightarrow> u32 \<Rightarrow> pagepool res" where
  "pagepool_free_phys_page pp phys_addr =
     (let i = uint (phys_addr div PAGE_SIZE)
      in if \<not> i \<ge> pagepool_static_end pp then Inl Kernel_assert
         else rbind (bitmap_get (pagepool_free_pages pp) i) (\<lambda>b.
                if \<not> b = 1 then Inl Kernel_assert
                else rbind (bitmap_set (pagepool_free_pages pp) i 0) (\<lambda>bm.
                       Inr (pp\<lparr>pagepool_free_pages := bm,
                               pagepool_num_free_pages := pagepool_num_free_pages pp + 1\<rparr>))))"

definition ADDR_PHYS_TO_KERNEL :: "u32 \<Rightarrow> u32" where
  "ADDR_PHYS_TO_KERNEL a = a OR 0x80000000"

definition ADDR_KERNEL_TO_PHYS :: "u32 \<Rightarrow> u32" where
  "ADDR_KERNEL_TO_PHYS a = a AND 0x7fffffff"

section \<open>Invariant and abstract view\<close>

abbreviation pp_pages :: "pagepool \<Rightarrow> nat" where
  "pp_pages pp \<equiv> nat (pagepool_num_pages pp)"

lemma kernel_phys_inverse: "a < 0x80000000 \<Longrightarrow> ADDR_KERNEL_TO_PHYS (ADDR_PHYS_TO_KERNEL a) = a"
proof -
  assume "a < 0x80000000"
  then have small: "unat a < 2 ^ 31" by (simp add: word_less_nat_alt)
  have m: "(0x7fffffff :: u32) = mask 31" and e: "(0x80000000 :: u32) = 2 ^ 31" by (simp_all add: mask_eq_exp_minus_1)
  have high: "\<not> bit a n" if "31 \<le> n" for n
  proof -
    have "take_bit 31 (unat a) = unat a" using small by (simp add: take_bit_nat_eq_self_iff)
    then have "\<not> bit (unat a) n" using that by (metis bit_take_bit_iff not_le)
    then show ?thesis by (simp add: bit_unsigned_iff)
  qed
  show ?thesis
    unfolding ADDR_KERNEL_TO_PHYS_def ADDR_PHYS_TO_KERNEL_def m e
  proof (rule bit_word_eqI)
    fix n assume "n < LENGTH(32)"
    show "bit ((a OR 2 ^ 31) AND mask 31) n = bit a n"
      by (cases "n < 31") (simp_all add: bit_and_iff bit_or_iff bit_mask_iff bit_exp_iff high
          del: power_numeral)
  qed
qed

text \<open>
  The counter of free pages agrees with the bitmap, the pages reserved for the kernel (page 0
  is always one of them) are marked, and every page has a 32-bit address.
\<close>

definition pp_inv :: "pagepool \<Rightarrow> bool" where
  "pp_inv pp \<longleftrightarrow> 0 \<le> pagepool_num_pages pp \<and> pp_pages pp \<le> 2 ^ 20
     \<and> bm_covers (pagepool_free_pages pp) (pp_pages pp)
     \<and> 1 \<le> pagepool_static_end pp \<and> pagepool_static_end pp \<le> pagepool_num_pages pp
     \<and> (\<forall>p < nat (pagepool_static_end pp). bm_bit (pagepool_free_pages pp) p)
     \<and> pagepool_num_free_pages pp = int (bm.free_count (pagepool_free_pages pp) (pp_pages pp))"

definition pp_free :: "pagepool \<Rightarrow> nat set" where
  "pp_free pp = bm.free_slots (pagepool_free_pages pp) (pp_pages pp)"

lemma pp_free_iff: "p \<in> pp_free pp \<longleftrightarrow> p < pp_pages pp \<and> \<not> bm_bit (pagepool_free_pages pp) p"
  by (simp add: pp_free_def bm.free_slots_def)

lemma finite_pp_free [simp]: "finite (pp_free pp)"
  by (simp add: pp_free_def)

lemma pp_num_free: "pp_inv pp \<Longrightarrow> pagepool_num_free_pages pp = int (card (pp_free pp))"
  by (simp add: pp_inv_def pp_free_def bm.free_count_def)

lemma pp_free_bounds: "pp_inv pp \<Longrightarrow> p \<in> pp_free pp \<Longrightarrow> 1 \<le> p \<and> p < 2 ^ 20"
  by (force simp: pp_inv_def pp_free_iff intro!: Suc_leI gr0I)

definition page_addr :: "nat \<Rightarrow> u32" where
  "page_addr p = word_of_int (int p * PAGE_SIZE)"

lemma page_unat:
  assumes "p < 2 ^ 20"
  shows "unat (page_addr p) = p * PAGE_SIZE"
proof -
  have "unat (word_of_nat (p * PAGE_SIZE) :: u32) = p * PAGE_SIZE"
    using assms by (simp only: unat_of_nat) simp
  then show ?thesis by (simp add: page_addr_def)
qed

lemma page_number:
  assumes "p < 2 ^ 20"
  shows "uint (page_addr p div PAGE_SIZE) = int p"
proof -
  have "unat (page_addr p div PAGE_SIZE) = p"
    using page_unat [OF assms] by (simp only: unat_div_distrib) simp
  then show ?thesis by (simp only: uint_nat)
qed

lemma page_addr_inj: "p < 2 ^ 20 \<Longrightarrow> q < 2 ^ 20 \<Longrightarrow> page_addr p = page_addr q \<longleftrightarrow> p = q"
  by (metis page_number of_nat_eq_iff)

lemma page_addr_nonzero: "1 \<le> p \<Longrightarrow> p < 2 ^ 20 \<Longrightarrow> page_addr p \<noteq> 0"
  using page_unat [of p] by fastforce

lemma pp_inv_update:
  assumes "pp_inv pp" "bm_covers bm (pp_pages pp)"
    and "\<And>p. p < nat (pagepool_static_end pp) \<Longrightarrow> bm_bit bm p"
    and "nf = int (bm.free_count bm (pp_pages pp))"
  shows "pp_inv (pp\<lparr>pagepool_free_pages := bm, pagepool_num_free_pages := nf\<rparr>)"
  using assms by (simp add: pp_inv_def)

lemma get_phys_page_some:
  assumes "pp_inv pp" "pp_free pp \<noteq> {}"
  shows "\<exists>p pp'. pagepool_get_phys_page pp = Inr (page_addr p, pp')
    \<and> p \<in> pp_free pp \<and> (\<forall>q \<in> pp_free pp. p \<le> q) \<and> pp_inv pp' \<and> pp_free pp' = pp_free pp - {p}"
proof -
  let ?bm = "pagepool_free_pages pp" and ?n = "pp_pages pp"
  have cov: "bm_covers ?bm ?n" and n: "pagepool_num_pages pp = int ?n"
    using assms(1) by (auto simp: pp_inv_def)
  have pos: "0 < bm.free_count ?bm ?n"
    using assms(2) by (simp add: pp_free_def bm.free_count_def card_gt_0_iff)
  from bm.claim_law [OF cov] pos obtain p bm' where
    p: "p < ?n" "\<not> bm_bit ?bm p" "\<forall>q < p. bm_bit ?bm q" "bitmap_findnset ?bm (int ?n) = Inr (int p, bm')"
      "\<forall>m. bm_covers bm' m = bm_covers ?bm m" "\<forall>q. bm_bit bm' q = (q = p \<or> bm_bit ?bm q)"
    using bm.free_count_zero_iff [of ?bm ?n] by auto
  have free: "bm.free_slots bm' ?n = bm.free_slots ?bm ?n - {p}" "p \<in> bm.free_slots ?bm ?n"
    using p by (auto simp: bm.free_slots_def)
  then have cnt: "int (bm.free_count bm' ?n) = int (bm.free_count ?bm ?n) - 1"
    using pos by (simp add: bm.free_count_def)
  let ?pp = "pp\<lparr>pagepool_free_pages := bm', pagepool_num_free_pages := pagepool_num_free_pages pp - 1\<rparr>"
  have num: "pagepool_num_free_pages pp = int (bm.free_count ?bm ?n)"
    using assms(1) by (simp add: pp_inv_def)
  have "pagepool_get_phys_page pp = Inr (page_addr p, ?pp)"
    using p(4) num pos n by (simp add: pagepool_get_phys_page_def page_addr_def)
  moreover have "pp_inv ?pp"
    using assms(1) p(5,6) cnt num cov by (intro pp_inv_update) (simp_all add: pp_inv_def)
  moreover have "pp_free ?pp = pp_free pp - {p}" using free(1) by (simp add: pp_free_def)
  moreover have "\<forall>q \<in> pp_free pp. p \<le> q" using p(3) by (force simp: pp_free_iff not_less [symmetric])
  ultimately show ?thesis using free(2) by (auto simp: pp_free_def)
qed

lemma get_phys_page_none:
  "pp_inv pp \<Longrightarrow> pp_free pp = {} \<Longrightarrow> pagepool_get_phys_page pp = Inr (0, pp)"
  using pp_num_free [of pp] by (simp add: pagepool_get_phys_page_def)

lemma free_phys_page_ok:
  assumes "pp_inv pp" "p < pp_pages pp" "nat (pagepool_static_end pp) \<le> p" "p \<notin> pp_free pp"
  shows "\<exists>pp'. pagepool_free_phys_page pp (page_addr p) = Inr pp'
     \<and> pp_inv pp' \<and> pp_free pp' = insert p (pp_free pp)"
proof -
  let ?bm = "pagepool_free_pages pp" and ?n = "pp_pages pp"
  have cov: "bm_covers ?bm ?n" using assms(1) by (simp add: pp_inv_def)
  have used: "bm_bit ?bm p" using assms(2,4) by (simp add: pp_free_iff)
  from bm.put_free [OF cov assms(2) used] obtain bm' where
    bm': "bitmap_set ?bm (int p) 0 = Inr bm'" "\<forall>m. bm_covers bm' m = bm_covers ?bm m"
      "\<forall>q. bm_bit bm' q = (q \<noteq> p \<and> bm_bit ?bm q)"
      "bm.free_slots bm' ?n = insert p (bm.free_slots ?bm ?n)"
      "bm.free_count bm' ?n = Suc (bm.free_count ?bm ?n)" by blast
  have i: "uint (page_addr p div PAGE_SIZE) = int p"
    using assms(1,2) by (intro page_number) (simp add: pp_inv_def)
  let ?pp = "pp\<lparr>pagepool_free_pages := bm', pagepool_num_free_pages := pagepool_num_free_pages pp + 1\<rparr>"
  have se: "pagepool_static_end pp \<le> int p" using assms(3) by simp
  have "pagepool_free_phys_page pp (page_addr p) = Inr ?pp"
    using bm'(1) used bm.get_law [OF cov assms(2)] se
    by (simp add: pagepool_free_phys_page_def i Let_def)
  moreover have "pp_inv ?pp"
    using assms(1,3) bm'(2,3,5) cov by (intro pp_inv_update) (simp_all add: pp_inv_def)
  moreover have "pp_free ?pp = insert p (pp_free pp)"
    using bm'(4) by (simp add: pp_free_def)
  ultimately show ?thesis by blast
qed

lemma get_phys_page_frame:
  "pagepool_get_phys_page pp = Inr (a, pp') \<Longrightarrow>
    pagepool_num_pages pp' = pagepool_num_pages pp \<and> pagepool_static_end pp' = pagepool_static_end pp"
  by (auto simp: pagepool_get_phys_page_def res_simps Let_def split: if_splits sum.splits)

lemma page_kernel_phys:
  assumes "p < 2 ^ 19"
  shows "ADDR_KERNEL_TO_PHYS (ADDR_PHYS_TO_KERNEL (page_addr p)) = page_addr p"
proof -
  have "unat (page_addr p) = p * 4096" using page_unat [of p] assms by simp
  then have "page_addr p < 0x80000000" using assms by (simp add: word_less_nat_alt)
  then show ?thesis by (rule kernel_phys_inverse)
qed

text \<open>
  A page that was allocated can be freed, which gives the pool the pages it had.
\<close>

lemma page_return:
  assumes "pp_inv pp" "pp_free pp \<noteq> {}" "pp_pages pp \<le> 2 ^ 19"
  shows "\<exists>p pp'. pagepool_get_phys_page pp = Inr (page_addr p, pp') \<and> page_addr p \<noteq> 0 \<and> p \<in> pp_free pp
    \<and> pp_inv pp' \<and> pp_free pp' = pp_free pp - {p}
    \<and> (\<exists>pp''. pagepool_free_phys_page pp' (ADDR_KERNEL_TO_PHYS (ADDR_PHYS_TO_KERNEL (page_addr p))) = Inr pp''
        \<and> pp_inv pp'' \<and> pp_free pp'' = pp_free pp)"
proof -
  obtain p pp' where p: "pagepool_get_phys_page pp = Inr (page_addr p, pp')" "p \<in> pp_free pp" "pp_inv pp'"
    "pp_free pp' = pp_free pp - {p}" using get_phys_page_some [OF assms(1,2)] by blast
  have b: "p < pp_pages pp" "nat (pagepool_static_end pp) \<le> p" "page_addr p \<noteq> 0"
    using p(2) assms(1) pp_free_bounds [OF assms(1) p(2)] page_addr_nonzero
    by (auto simp: pp_free_iff pp_inv_def not_less [symmetric])
  then obtain pp'' where "pagepool_free_phys_page pp' (page_addr p) = Inr pp''" "pp_inv pp''" "pp_free pp'' = insert p (pp_free pp')"
    using free_phys_page_ok [OF p(3), of p] get_phys_page_frame [OF p(1)] p(4) by auto
  moreover from this p(2,4) have "pp_free pp'' = pp_free pp" by auto
  ultimately show ?thesis using p b page_kernel_phys [of p] assms(3) by auto
qed

lemma free_phys_page_reject:
  assumes "pp_inv pp" "p < pp_pages pp" "p < nat (pagepool_static_end pp) \<or> p \<in> pp_free pp"
  shows "pagepool_free_phys_page pp (page_addr p) = Inl Kernel_assert"
proof -
  have i: "uint (page_addr p div PAGE_SIZE) = int p"
    using assms(1,2) by (intro page_number) (simp add: pp_inv_def)
  have cov: "bm_covers (pagepool_free_pages pp) (pp_pages pp)" using assms(1) by (simp add: pp_inv_def)
  show ?thesis
  proof (cases "p < nat (pagepool_static_end pp)")
    case True
    then have "\<not> pagepool_static_end pp \<le> int p" by simp
    then show ?thesis by (simp add: pagepool_free_phys_page_def i Let_def)
  next
    case False
    then have "\<not> bm_bit (pagepool_free_pages pp) p" using assms(3) by (simp add: pp_free_iff)
    with False show ?thesis using bm.get_law [OF cov assms(2)]
      by (simp add: pagepool_free_phys_page_def i Let_def)
  qed
qed

section \<open>What users of pages rely on\<close>

text \<open>
  \<open>avail\<close> is the set of pages that may be handed out; a page number \<open>p\<close> stands for
  the address \<open>page_addr p\<close>. Taking pages repeatedly never returns the same page twice.
\<close>

locale page_allocator =
  fixes get_page :: "'s \<Rightarrow> (u32 \<times> 's) res"
    and free_page :: "'s \<Rightarrow> u32 \<Rightarrow> 's res"
    and ok :: "'s \<Rightarrow> bool"
    and avail :: "'s \<Rightarrow> nat set"
  assumes get_some: "ok s \<Longrightarrow> avail s \<noteq> {} \<Longrightarrow>
      \<exists>p s'. get_page s = Inr (page_addr p, s') \<and> p \<in> avail s \<and> ok s' \<and> avail s' = avail s - {p}"
    and get_none: "ok s \<Longrightarrow> avail s = {} \<Longrightarrow> get_page s = Inr (0, s)"
    and avail_range: "ok s \<Longrightarrow> p \<in> avail s \<Longrightarrow> 1 \<le> p \<and> p < 2 ^ 20"
    and avail_finite: "ok s \<Longrightarrow> finite (avail s)"
begin

lemma get_total: "ok s \<Longrightarrow> \<exists>a s'. get_page s = Inr (a, s') \<and> ok s'"
  using get_some get_none by blast

lemma get_nonzero_iff:
  assumes "ok s" "get_page s = Inr (a, s')"
  shows "a \<noteq> 0 \<longleftrightarrow> avail s \<noteq> {}"
proof (cases "avail s = {}")
  case True
  then show ?thesis using assms get_none by simp
next
  case False
  with get_some [OF assms(1)] assms(2) obtain p where "p \<in> avail s" "a = page_addr p" by auto
  moreover from this have "page_addr p \<noteq> 0"
    using avail_range [OF assms(1)] page_addr_nonzero by blast
  ultimately show ?thesis using False by simp
qed

lemma get_page_taken:
  assumes "ok s" "get_page s = Inr (a, s')" "a \<noteq> 0"
  shows "\<exists>p. a = page_addr p \<and> p \<in> avail s \<and> avail s' = avail s - {p} \<and> ok s' \<and> 1 \<le> p \<and> p < 2 ^ 20"
proof -
  have "avail s \<noteq> {}" using assms get_nonzero_iff by blast
  with get_some [OF assms(1)] assms(2) obtain p where
    "a = page_addr p" "p \<in> avail s" "ok s'" "avail s' = avail s - {p}" by auto
  then show ?thesis using avail_range [OF assms(1)] by blast
qed

lemma get_page_monotone: "ok s \<Longrightarrow> get_page s = Inr (a, s') \<Longrightarrow> avail s' \<subseteq> avail s"
  using get_some [of s] get_none [of s] by fastforce

lemma two_gets_distinct:
  assumes "ok s" "get_page s = Inr (a, s1)" "a \<noteq> 0" "get_page s1 = Inr (b, s2)" "b \<noteq> 0"
  shows "a \<noteq> b"
proof -
  from get_page_taken [OF assms(1-3)] obtain p where
    p: "a = page_addr p" "avail s1 = avail s - {p}" "ok s1" "p < 2 ^ 20" by blast
  from get_page_taken [OF p(3) assms(4,5)] obtain q where
    q: "b = page_addr q" "q \<in> avail s1" "q < 2 ^ 20" by blast
  have "p \<noteq> q" using p(2) q(2) by blast
  then show ?thesis using p q page_addr_inj by blast
qed

end

interpretation pool: page_allocator pagepool_get_phys_page pagepool_free_phys_page pp_inv pp_free
proof (unfold_locales, goal_cases)
  case (1 s)
  from get_phys_page_some [OF this] show ?case by blast
next
  case (2 s)
  then show ?case by (rule get_phys_page_none)
next
  case (3 s p)
  then show ?case by (rule pp_free_bounds)
next
  case (4 s)
  show ?case by simp
qed

section \<open>Properties\<close>

text \<open>
  C20. \<^verbatim>\<open>pagepool_get_phys_page\<close> in a consistent pool never trips its assertion.
  If some page is free, it returns the address of the lowest free page, which is not \<open>0\<close>,
  and that page alone stops being free; if none is free it returns \<open>0\<close> and changes
  nothing. The pool stays consistent.
\<close>

theorem pagepool_get_correct:
  assumes "pp_inv pp"
  shows "\<exists>a pp'. pagepool_get_phys_page pp = Inr (a, pp') \<and> pp_inv pp'
     \<and> (if pp_free pp = {} then a = 0 \<and> pp' = pp
        else a \<noteq> 0 \<and> a = page_addr (Min (pp_free pp)) \<and> pp_free pp' = pp_free pp - {Min (pp_free pp)})"
proof (cases "pp_free pp = {}")
  case True
  then show ?thesis using assms pool.get_none by simp
next
  case False
  from get_phys_page_some [OF assms False] obtain p pp' where
    p: "pagepool_get_phys_page pp = Inr (page_addr p, pp')" "p \<in> pp_free pp"
      "\<forall>q \<in> pp_free pp. p \<le> q" "pp_inv pp'" "pp_free pp' = pp_free pp - {p}" by blast
  have "Min (pp_free pp) = p" using p(2,3) by (intro Min_eqI) auto
  moreover have "page_addr p \<noteq> 0"
    using pool.get_nonzero_iff [OF assms p(1)] False by simp
  ultimately show ?thesis using p False by auto
qed

definition small_pool :: pagepool where
  "small_pool = \<lparr>pagepool_free_pages = [0x13], pagepool_num_pages = 6,
     pagepool_num_free_pages = 3, pagepool_static_end = 2\<rparr>"

lemma small_pool_free: "pp_free small_pool = {2, 3, 5}"
proof -
  have "pp_free small_pool = set (filter (\<lambda>p. \<not> bm_bit [0x13] p) [0..<6])"
    by (auto simp: pp_free_iff small_pool_def)
  also have "filter (\<lambda>p. \<not> bm_bit [0x13] p) [0..<6] = [2, 3, 5]" by code_simp
  finally show ?thesis by simp
qed

lemma small_pool_inv: "pp_inv small_pool"
proof -
  have "bm.free_slots (pagepool_free_pages small_pool) (pp_pages small_pool) = {2, 3, 5}"
    using small_pool_free by (simp add: pp_free_def)
  then have c: "bm.free_count (pagepool_free_pages small_pool) (pp_pages small_pool) = 3"
    by (simp add: bm.free_count_def)
  have "\<forall>p \<in> set [0..<2]. bm_bit [0x13] p" by code_simp
  then show ?thesis unfolding pp_inv_def c by (simp add: small_pool_def bm_covers_def)
qed

theorem pagepool_get_correct_witness:
  "pp_inv small_pool \<and> pp_free small_pool \<noteq> {}
   \<and> (\<exists>a pp'. pagepool_get_phys_page small_pool = Inr (a, pp') \<and> a \<noteq> 0 \<and> pp_free pp' = {3, 5})"
proof -
  have m: "Min (pp_free small_pool) = 2" by (simp add: small_pool_free)
  show ?thesis
    using pagepool_get_correct [OF small_pool_inv] small_pool_inv
    by (auto simp: m) (auto simp: small_pool_free)
qed

text \<open>
  Freeing a page: a page that is reserved and not one of the kernel's static pages becomes
  free and the pool stays consistent. Freeing a static page, or a page that is already free,
  fails an assertion (so a double free is always caught).
\<close>

theorem pagepool_free_correct:
  assumes "pp_inv pp" and "p < pp_pages pp"
  shows "if nat (pagepool_static_end pp) \<le> p \<and> p \<notin> pp_free pp
         then \<exists>pp'. pagepool_free_phys_page pp (page_addr p) = Inr pp' \<and> pp_inv pp'
                 \<and> pp_free pp' = insert p (pp_free pp)
                 \<and> pagepool_free_phys_page pp' (page_addr p) = Inl Kernel_assert
         else pagepool_free_phys_page pp (page_addr p) = Inl Kernel_assert"
proof (cases "nat (pagepool_static_end pp) \<le> p \<and> p \<notin> pp_free pp")
  case True
  from free_phys_page_ok [OF assms] True obtain pp' where
    pp': "pagepool_free_phys_page pp (page_addr p) = Inr pp'" "pp_inv pp'"
      "pp_free pp' = insert p (pp_free pp)" by blast
  have "p < pp_pages pp'" using pp'(3) by (metis insertI1 pp_free_iff)
  with pp' have "pagepool_free_phys_page pp' (page_addr p) = Inl Kernel_assert"
    by (intro free_phys_page_reject) auto
  with True pp' show ?thesis by auto
next
  case False
  then show ?thesis using free_phys_page_reject [OF assms] by auto
qed

theorem pagepool_free_correct_witness:
  "pp_inv small_pool \<and> (4::nat) < pp_pages small_pool \<and> 4 \<notin> pp_free small_pool
   \<and> (\<exists>pp'. pagepool_free_phys_page small_pool (page_addr 4) = Inr pp' \<and> pp_free pp' = {2, 3, 4, 5})"
proof -
  have n: "(4::nat) < pp_pages small_pool" "nat (pagepool_static_end small_pool) \<le> 4"
    by (simp_all add: small_pool_def)
  have f: "(4::nat) \<notin> pp_free small_pool" by (simp add: small_pool_free)
  have "insert 4 {2, 3, 5} = {2, 3, 4, 5 :: nat}" by auto
  with pagepool_free_correct [OF small_pool_inv n(1)] n f small_pool_inv show ?thesis
    by (auto simp: small_pool_free)
qed

end
