(* ===== verification/Gbd.thy ===== *)
theory Gbd
  imports Ksem Pagepool
begin

text \<open>
  \<^verbatim>\<open>drivers/gbd.h\<close>: the interface of generic block devices. The filesystems reach a disk
  through the function pointers of \<^verbatim>\<open>gbd_t\<close>; here they are the fields of a record of
  functions on the kernel's resources, \<open>kworld\<close>. A call with a null semaphore in the request
  (the only kind that the filesystems make) returns when the transfer is done; \<open>read_block\<close>
  takes the contents of the buffer before the call and gives those after it.

  What the filesystems rely on is the locale \<open>block_device\<close>; the disk driver provides it.
\<close>

record 'd kworld =
  sems :: ksems
  pool :: pagepool
  dev :: 'd

record 'd gbd_t =
  read_block :: "'d kworld \<Rightarrow> u32 \<Rightarrow> u8 list \<Rightarrow> (int \<times> u8 list \<times> 'd kworld) res"
  write_block :: "'d kworld \<Rightarrow> u32 \<Rightarrow> u8 list \<Rightarrow> (int \<times> 'd kworld) res"
  block_size :: "'d kworld \<Rightarrow> u32 \<times> 'd kworld"
  total_blocks :: "'d kworld \<Rightarrow> u32 \<times> 'd kworld"

locale block_device =
  fixes gbd :: "'d gbd_t"
    and ready :: "'d \<Rightarrow> bool"
    and content :: "'d \<Rightarrow> nat \<Rightarrow> u8 list"
    and nblocks :: nat
    and bsize :: nat
  assumes content_length: "ready d \<Longrightarrow> i < nblocks \<Longrightarrow> length (content d i) = bsize"
    and read_law: "ready (dev w) \<Longrightarrow> ksem_ok (sems w) \<Longrightarrow> ksem_free (sems w) \<Longrightarrow> unat b < nblocks \<Longrightarrow>
      length bf = bsize \<Longrightarrow>
      \<exists>w'. read_block gbd w b bf = Inr (1, content (dev w) (unat b), w') \<and> ready (dev w') \<and> ksem_ok (sems w')
        \<and> svals (sems w') = svals (sems w) \<and> pool w' = pool w \<and> content (dev w') = content (dev w)"
    and write_law: "ready (dev w) \<Longrightarrow> ksem_ok (sems w) \<Longrightarrow> ksem_free (sems w) \<Longrightarrow> unat b < nblocks \<Longrightarrow>
      length bf = bsize \<Longrightarrow>
      \<exists>w'. write_block gbd w b bf = Inr (1, w') \<and> ready (dev w') \<and> ksem_ok (sems w')
        \<and> svals (sems w') = svals (sems w) \<and> pool w' = pool w
        \<and> content (dev w') = (content (dev w))(unat b := bf)"
    and no_semaphore: "ready (dev w) \<Longrightarrow> ksem_ok (sems w) \<Longrightarrow> \<not> ksem_free (sems w) \<Longrightarrow> length bf = bsize \<Longrightarrow>
      (\<exists>w'. read_block gbd w b bf = Inr (0, bf, w') \<and> ready (dev w') \<and> ksem_ok (sems w')
        \<and> svals (sems w') = svals (sems w) \<and> pool w' = pool w \<and> content (dev w') = content (dev w))
      \<and> (\<exists>w'. write_block gbd w b bf = Inr (0, w') \<and> ready (dev w') \<and> ksem_ok (sems w')
        \<and> svals (sems w') = svals (sems w) \<and> pool w' = pool w \<and> content (dev w') = content (dev w))"
    and size_law: "ready (dev w) \<Longrightarrow> \<exists>d. block_size gbd w = (of_nat bsize, w\<lparr>dev := d\<rparr>) \<and> ready d \<and> content d = content (dev w)"
    and total_law: "ready (dev w) \<Longrightarrow> \<exists>d. total_blocks gbd w = (of_nat nblocks, w\<lparr>dev := d\<rparr>) \<and> ready d \<and> content d = content (dev w)"
    and small: "bsize < 2 ^ 32" "nblocks < 2 ^ 32"
begin

text \<open>A block that has been written is read back, whatever other blocks are written in between.\<close>

fun write_all :: "'d kworld \<Rightarrow> (u32 \<times> u8 list) list \<Rightarrow> 'd kworld res" where
  "write_all w [] = Inr w"
| "write_all w ((b, bf) # ps) = rbind (write_block gbd w b bf) (\<lambda>(_, w'). write_all w' ps)"

lemma write_all_content:
  "ready (dev w) \<Longrightarrow> ksem_ok (sems w) \<Longrightarrow> ksem_free (sems w) \<Longrightarrow>
    (\<And>b bf. (b, bf) \<in> set ps \<Longrightarrow> unat b < nblocks \<and> length bf = bsize) \<Longrightarrow>
    \<exists>w'. write_all w ps = Inr w' \<and> ready (dev w') \<and> ksem_ok (sems w') \<and> ksem_free (sems w')
      \<and> (\<forall>b. b \<notin> (\<lambda>p. unat (fst p)) ` set ps \<longrightarrow> content (dev w') b = content (dev w) b)"
proof (induction ps arbitrary: w)
  case (Cons p ps)
  obtain b bf where p: "p = (b, bf)" by (cases p)
  have "unat b < nblocks" "length bf = bsize" using Cons.prems(4) [of b bf] p by auto
  from write_law [OF Cons.prems(1-3) this] obtain w1 where w1: "write_block gbd w b bf = Inr (1, w1)"
    "ready (dev w1)" "ksem_ok (sems w1)" "svals (sems w1) = svals (sems w)"
    "content (dev w1) = (content (dev w))(unat b := bf)" by blast
  then have "ksem_free (sems w1)" using Cons.prems(3) ksem_free_cong by blast
  from Cons.IH [OF w1(2,3) this] Cons.prems(4) obtain w2 where "write_all w1 ps = Inr w2" "ready (dev w2)"
    "ksem_ok (sems w2)" "ksem_free (sems w2)"
    "\<forall>b. b \<notin> (\<lambda>p. unat (fst p)) ` set ps \<longrightarrow> content (dev w2) b = content (dev w1) b" by auto
  then show ?case using w1 p by (intro exI [of _ w2]) auto
qed simp

end

end
