(* ===== verification/Libc.thy ===== *)
theory Libc
  imports Prelude
begin

text \<open>
  The string and memory routines of \<^verbatim>\<open>lib/libc.c\<close>.

  A \<^verbatim>\<open>char\<close> is a byte; it is signed on the MIPS, so differences are taken with
  \<open>sint\<close>. A \<^verbatim>\<open>char *\<close> is the list of bytes from the pointer to the end of the object
  it points into; reading past that end is \<open>Bad_access\<close>. The routines that the kernel
  also uses to move data between overlapping or user regions (\<open>memcopy\<close>,
  \<open>memoryset\<close>) work on the flat memory \<open>u32 \<Rightarrow> u8\<close> instead. The polling terminal is the list of
  characters still to be typed and the list of characters printed.
\<close>

type_synonym mem = "u32 \<Rightarrow> u8"

section \<open>The code\<close>

fun kwrite :: "u8 list \<Rightarrow> u8 list \<Rightarrow> u8 list res" where
  "kwrite [] out = Inl Bad_access"
| "kwrite (c # s) out = (if c \<noteq> 0 then kwrite s (out @ [c]) else Inr out)"

text \<open>
  The loop of \<open>kread\<close>. With no character left in \<open>typed\<close>, the driver waits for ever.
\<close>

fun kread_loop :: "u8 list \<Rightarrow> u8 list \<Rightarrow> int \<Rightarrow> int \<Rightarrow> (u8 list \<times> u8 list) res" where
  "kread_loop [] s count len = Inl Blocked"
| "kread_loop (ch # typed) s count len =
     (if ch \<noteq> 10 \<and> count < len - 1
      then rbind (aset s count ch) (\<lambda>s'. kread_loop typed s' (count + 1) len)
      else rbind (aset s count 0) (\<lambda>s'. Inr (s', typed)))"

definition kread :: "u8 list \<Rightarrow> u8 list \<Rightarrow> int \<Rightarrow> (u8 list \<times> u8 list) res" where
  "kread typed s len = kread_loop typed s 0 len"

fun stringcmp :: "u8 list \<Rightarrow> u8 list \<Rightarrow> int res" where
  "stringcmp (c1 # str1) (c2 # str2) =
     (if c1 = 0 \<and> c2 = 0 then Inr 0
      else if c1 = 0 \<or> c2 = 0 \<or> c1 \<noteq> c2 then Inr (sint c1 - sint c2)
      else stringcmp str1 str2)"
| "stringcmp _ _ = Inl Bad_access"

text \<open>
  \<open>stringcopy\<close>: the pointers advance with \<open>i\<close>, so \<open>i\<close> is the index of
  \<^verbatim>\<open>*target\<close> and \<^verbatim>\<open>*source\<close>. In the inner loop only the counter
  advances and the target pointer stays at \<open>pos\<close>.
\<close>

function stringcopy_pad :: "u8 list \<Rightarrow> int \<Rightarrow> int \<Rightarrow> int \<Rightarrow> u8 list res" where
  "stringcopy_pad target pos i buflen =
     (if i < buflen then rbind (aset target pos 0) (\<lambda>t. stringcopy_pad t pos (i + 1) buflen)
      else Inr target)"
  by pat_completeness auto
termination by (relation "measure (\<lambda>(_, _, i, buflen). nat (buflen - i))") auto

function stringcopy_loop :: "u8 list \<Rightarrow> u8 list \<Rightarrow> int \<Rightarrow> int \<Rightarrow> u8 list res" where
  "stringcopy_loop target source i buflen =
     (if i < buflen - 1 then
        rbind (aget source i) (\<lambda>c.
        rbind (aset target i c) (\<lambda>t.
          if c = 0 then stringcopy_pad t i (i + 1) buflen
          else stringcopy_loop t source (i + 1) buflen))
      else aset target i 0)"
  by pat_completeness auto
termination by (relation "measure (\<lambda>(_, _, i, buflen). nat (buflen - i))") auto

declare stringcopy_pad.simps [simp del] stringcopy_loop.simps [simp del]

definition stringcopy :: "u8 list \<Rightarrow> u8 list \<Rightarrow> int \<Rightarrow> u8 list res" where
  "stringcopy target source buflen = stringcopy_loop target source 0 buflen"

fun copy_bytes :: "nat \<Rightarrow> mem \<Rightarrow> u32 \<Rightarrow> u32 \<Rightarrow> mem" where
  "copy_bytes 0 m t s = m"
| "copy_bytes (Suc n) m t s = copy_bytes n (m(t := m s)) (t + 1) (s + 1)"

definition store_word :: "mem \<Rightarrow> u32 \<Rightarrow> u8 \<times> u8 \<times> u8 \<times> u8 \<Rightarrow> mem" where
  "store_word m a w = (case w of (b0, b1, b2, b3) \<Rightarrow> m(a := b0, a + 1 := b1, a + 2 := b2, a + 3 := b3))"

definition load_word :: "mem \<Rightarrow> u32 \<Rightarrow> u8 \<times> u8 \<times> u8 \<times> u8" where
  "load_word m a = (m a, m (a + 1), m (a + 2), m (a + 3))"

fun copy_words :: "nat \<Rightarrow> mem \<Rightarrow> u32 \<Rightarrow> u32 \<Rightarrow> mem" where
  "copy_words 0 m t s = m"
| "copy_words (Suc n) m t s = copy_words n (store_word m t (load_word m s)) (t + 4) (s + 4)"

text \<open>C's \<open>/\<close> and \<open>%\<close> of a negative length give counts that are not positive, so \<open>nat\<close> makes them 0.\<close>

definition memcopy :: "int \<Rightarrow> mem \<Rightarrow> u32 \<Rightarrow> u32 \<Rightarrow> mem" where
  "memcopy buflen m target source =
     (if unat target mod 4 \<noteq> 0 \<or> unat source mod 4 \<noteq> 0
      then copy_bytes (nat buflen) m target source
      else let words = nat buflen div 4
           in copy_bytes (nat buflen mod 4) (copy_words words m target source)
                (target + 4 * of_nat words) (source + 4 * of_nat words))"

fun memoryset_loop :: "nat \<Rightarrow> mem \<Rightarrow> u32 \<Rightarrow> u8 \<Rightarrow> mem" where
  "memoryset_loop 0 m t v = m"
| "memoryset_loop (Suc n) m t v = memoryset_loop n (m(t := v)) (t + 1) v"

definition memoryset :: "mem \<Rightarrow> u32 \<Rightarrow> u8 \<Rightarrow> int \<Rightarrow> mem" where
  "memoryset m target v len = memoryset_loop (nat len) m target v"

fun skip_space :: "u8 list \<Rightarrow> u8 list res" where
  "skip_space [] = Inl Bad_access"
| "skip_space (c # s) =
     (if c \<noteq> 0 \<and> (c = 32 \<or> c = 9 \<or> c = 13 \<or> c = 10) then skip_space s else Inr (c # s))"

fun atoi_digits :: "u32 \<Rightarrow> u32 \<Rightarrow> u8 list \<Rightarrow> u32 res" where
  "atoi_digits sg v [] = Inl Bad_access"
| "atoi_digits sg v (c # s) =
     (if 48 \<le> c \<and> c \<le> 57 then atoi_digits sg (10 * v + sg * (ucast c - 48)) s else Inr v)"

definition atoi :: "u8 list \<Rightarrow> u32 res" where
  "atoi s = rbind (skip_space s) (\<lambda>s. rbind (aget s 0) (\<lambda>c.
     if c = 0 then Inr 0
     else if c = 45 then atoi_digits (- 1) 0 (tl s)
     else if c = 43 then atoi_digits 1 0 (tl s)
     else atoi_digits 1 0 s))"

fun strlen :: "u8 list \<Rightarrow> nat res" where
  "strlen [] = Inl Bad_access"
| "strlen (c # str) = (if c \<noteq> 0 then rbind (strlen str) (\<lambda>l. Inr (Suc l)) else Inr 0)"

section \<open>C strings\<close>

text \<open>\<open>cstr w b\<close>: the bytes \<open>b\<close> start with the string \<open>w\<close> and its terminator.\<close>

definition cstr :: "u8 list \<Rightarrow> u8 list \<Rightarrow> bool" where
  "cstr w b \<longleftrightarrow> 0 \<notin> set w \<and> (\<exists>rest. b = w @ 0 # rest)"

lemma cstr_Nil [simp]: "\<not> cstr w []"
  by (simp add: cstr_def)

lemma cstr_Cons [simp]:
  "cstr w (c # b) \<longleftrightarrow> (if c = 0 then w = [] else (\<exists>w'. w = c # w' \<and> cstr w' b))"
  by (cases w) (auto simp: cstr_def)

lemma cstr_length: "cstr w b \<Longrightarrow> length w < length b"
  by (auto simp: cstr_def)

lemma cstr_unique: "cstr w b \<Longrightarrow> cstr w' b \<Longrightarrow> w = w'"
  by (induction b arbitrary: w w') (auto split: if_splits)

lemma cstr_nth: "cstr w b \<Longrightarrow> i < length w \<Longrightarrow> b ! i = w ! i \<and> w ! i \<noteq> 0"
  by (auto simp: cstr_def nth_append dest: nth_mem)

lemma cstr_end: "cstr w b \<Longrightarrow> b ! length w = 0"
  by (auto simp: cstr_def)

lemma kwrite_cstr: "cstr w s \<Longrightarrow> kwrite s out = Inr (out @ w)"
  by (induction s arbitrary: w out) (auto split: if_splits)

lemma strlen_cstr: "cstr w s \<Longrightarrow> strlen s = Inr (length w)"
  by (induction s arbitrary: w) (auto split: if_splits)

lemma stringcmp_total: "cstr v a \<Longrightarrow> cstr w b \<Longrightarrow> \<exists>d. stringcmp a b = Inr d"
  by (induction a b arbitrary: v w rule: stringcmp.induct) (auto split: if_splits)

lemma sint_eq: "sint (a :: u8) = sint b \<longleftrightarrow> a = b"
  using signed_word_eqI by blast

lemma sint_eq_0: "sint (a :: u8) = 0 \<longleftrightarrow> a = 0"
  using sint_eq [of a 0] by simp

lemma stringcmp_eq: "cstr v a \<Longrightarrow> cstr w b \<Longrightarrow> stringcmp a b = Inr 0 \<longleftrightarrow> v = w"
  by (induction a b arbitrary: v w rule: stringcmp.induct)
    (auto simp: sint_eq sint_eq_0 split: if_splits)

text \<open>The order that \<open>stringcmp\<close> decides: lexicographic, on signed characters.\<close>

fun str_less :: "u8 list \<Rightarrow> u8 list \<Rightarrow> bool" where
  "str_less [] [] = False"
| "str_less [] (y # ys) = (0 < sint y)"
| "str_less (x # xs) [] = (sint x < 0)"
| "str_less (x # xs) (y # ys) = (if x = y then str_less xs ys else sint x < sint y)"

lemma stringcmp_less: "cstr v a \<Longrightarrow> cstr w b \<Longrightarrow> stringcmp a b = Inr d \<Longrightarrow> d < 0 \<longleftrightarrow> str_less v w"
  by (induction a b arbitrary: v w rule: stringcmp.induct) (auto split: if_splits)

text \<open>
  On terminated strings \<^verbatim>\<open>stringcmp\<close> never reads past the terminators, returns 0
  exactly for equal strings, and a negative value exactly when the first string comes first in
  the lexicographic order of signed characters.
\<close>

theorem stringcmp_correct:
  assumes "cstr v a" "cstr w b"
  shows "\<exists>d. stringcmp a b = Inr d \<and> (d = 0 \<longleftrightarrow> v = w) \<and> (d < 0 \<longleftrightarrow> str_less v w)"
proof -
  obtain d where d: "stringcmp a b = Inr d" using stringcmp_total [OF assms] by blast
  then show ?thesis using stringcmp_eq [OF assms] stringcmp_less [OF assms d] by auto
qed

theorem stringcmp_correct_witness:
  "stringcmp [97, 0, 98] [97, 0, 99] = Inr 0"
  using stringcmp_correct [of "[97]" "[97, 0, 98]" "[97]" "[97, 0, 99]"] by simp

section \<open>Copying strings\<close>

lemma stringcopy_pad_done:
  "0 \<le> pos \<Longrightarrow> pos < int (length t) \<Longrightarrow> t ! nat pos = 0 \<Longrightarrow> stringcopy_pad t pos i n = Inr t"
proof (induction t pos i n rule: stringcopy_pad.induct)
  case (1 t pos i n)
  then have "t[nat pos := 0] = t" by (metis list_update_id)
  with 1 show ?case by (subst stringcopy_pad.simps) (simp add: aset_def)
qed

lemma stringcopy_loop_cstr:
  assumes "cstr w src" "i \<le> length w" "int i < n" "n \<le> int (length t)"
  shows "stringcopy_loop t src (int i) n =
     Inr (take i t @ take (nat n - 1 - i) (drop i w) @ 0 # drop (Suc (min (nat n - 1) (length w))) t)"
  using assms
proof (induction "nat n - i" arbitrary: i t)
  case 0
  then show ?case by simp
next
  case (Suc k)
  note step = stringcopy_loop.simps [of t src "int i" n]
  have il: "i < length t" using Suc.prems by linarith
  have src: "i < length src" using Suc.prems cstr_length by fastforce
  show ?case
  proof (cases "int i < n - 1")
    case False
    then have n: "nat n = Suc i" using Suc.prems by simp
    show ?thesis using False il Suc.prems(2) by (simp add: step n upd_conv_take_nth_drop)
  next
    case True
    show ?thesis
    proof (cases "i = length w")
      case True
      then have "src ! i = 0" using Suc.prems(1) cstr_end by blast
      then have "stringcopy_loop t src (int i) n = Inr (t[i := 0])"
        using \<open>int i < n - 1\<close> il src by (simp add: step stringcopy_pad_done)
      moreover have "min (nat n - 1) (length w) = i" using True \<open>int i < n - 1\<close> by linarith
      ultimately show ?thesis using True il by (simp add: upd_conv_take_nth_drop)
    next
      case False
      with Suc.prems(2) have iw: "i < length w" by simp
      then have c: "src ! i = w ! i" "w ! i \<noteq> 0" using cstr_nth Suc.prems(1) by blast+
      have "stringcopy_loop t src (int i) n = stringcopy_loop (t[i := w ! i]) src (int (Suc i)) n"
        using True c il src by (simp add: step add.commute)
      also have "\<dots> = Inr (take (Suc i) (t[i := w ! i]) @ take (nat n - 1 - Suc i) (drop (Suc i) w)
          @ 0 # drop (Suc (min (nat n - 1) (length w))) (t[i := w ! i]))"
        using Suc.hyps(2) Suc.prems True iw by (intro Suc.hyps(1)) auto
      also have "take (Suc i) (t[i := w ! i]) = take i t @ [w ! i]"
        using il by (simp add: take_Suc_conv_app_nth)
      also have "drop (Suc (min (nat n - 1) (length w))) (t[i := w ! i]) = drop (Suc (min (nat n - 1) (length w))) t"
        using True iw by (simp add: min_def)
      also have "take (nat n - 1 - i) (drop i w) = w ! i # take (nat n - 1 - Suc i) (drop (Suc i) w)"
      proof -
        have "nat n - 1 - i = Suc (nat n - 1 - Suc i)" using True by linarith
        then show ?thesis using iw by (simp add: Cons_nth_drop_Suc [symmetric])
      qed
      ultimately show ?thesis by simp
    qed
  qed
qed

lemma stringcopy_total:
  assumes "cstr w src" "0 < n" "n \<le> int (length t)"
  shows "\<exists>t'. stringcopy t src n = Inr t' \<and> cstr (take (nat n - 1) w) t' \<and> length t' = length t"
proof -
  have "min (nat n - 1) (length w) + 1 \<le> length t" using assms(2,3) by linarith
  then show ?thesis using stringcopy_loop_cstr [of w src 0 n t] assms
    by (auto simp: stringcopy_def cstr_def min.commute dest: in_set_takeD)
qed

lemma cstr_append: "cstr w b \<Longrightarrow> cstr w (b @ c)"
  by (auto simp: cstr_def)

text \<open>
  \<^verbatim>\<open>stringcopy\<close> to a buffer of at least \<^verbatim>\<open>buflen\<close> bytes copies the longest
  prefix of the source that fits, terminates it, and leaves the rest of the buffer as it was.
\<close>

theorem stringcopy_correct:
  assumes "cstr w src" "0 < n" "n \<le> int (length t)"
  shows "stringcopy t src n = Inr (take (nat n - 1) w @ 0 # drop (Suc (min (nat n - 1) (length w))) t)
    \<and> cstr (take (nat n - 1) w) (take (nat n - 1) w @ 0 # drop (Suc (min (nat n - 1) (length w))) t)"
  using stringcopy_loop_cstr [of w src 0 n t] assms
  by (auto simp: stringcopy_def cstr_def dest: in_set_takeD)

theorem stringcopy_correct_witness:
  "stringcopy [1, 2, 3] [97, 98, 99, 100, 0] 3 = Inr [97, 98, 0]"
  using stringcopy_correct [of "[97, 98, 99, 100]" "[97, 98, 99, 100, 0]" 3 "[1, 2, 3]"]
  by (simp add: cstr_def)

text \<open>
  The comment of \<^verbatim>\<open>stringcopy\<close> promises that a short string is padded with
  null bytes; the padding loop does not advance the pointer and the old bytes stay.
\<close>

theorem stringcopy_not_padded:
  "stringcopy [1, 2, 3, 4, 5] [97, 0] 5 = Inr [97, 0, 3, 4, 5]"
  by code_simp

section \<open>Copying memory\<close>

text \<open>What a copy of \<open>n\<close> bytes means; \<open>a - t\<close> is the offset of \<open>a\<close> in the target.\<close>

definition copied :: "mem \<Rightarrow> nat \<Rightarrow> u32 \<Rightarrow> u32 \<Rightarrow> mem" where
  "copied m n t s = (\<lambda>a. if unat (a - t) < n then m (s + (a - t)) else m a)"

text \<open>The target does not begin inside the source, behind its first byte.\<close>

definition noclobber :: "nat \<Rightarrow> u32 \<Rightarrow> u32 \<Rightarrow> bool" where
  "noclobber n t s \<longleftrightarrow> t = s \<or> n \<le> unat (t - s)"

lemma unat_diff_u32:
  "unat ((x :: u32) - y) = (if unat y \<le> unat x then unat x - unat y else 4294967296 + unat x - unat y)"
  using unat_sub_if' [of x y] by (auto simp: word_le_nat_alt)

lemma shift_behind:
  assumes "p \<le> unat (d :: u32)" "unat d < n" "k = 0 \<or> n \<le> unat k"
  shows "p \<le> unat (d - k)"
  using assms u32_less [of k] u32_less [of d] by (auto simp: unat_diff_u32)

lemma copied_copied:
  assumes nc: "noclobber n t s" and p: "p \<le> n" "n < 4294967296"
  shows "copied (copied m p t s) (n - p) (t + of_nat p) (s + of_nat p) = copied m n t s"
proof
  fix a
  define d where "d = a - t"
  have up: "unat (of_nat p :: u32) = p" using p by (simp add: unat_of_nat)
  have in_iff: "unat (a - (t + of_nat p)) < n - p \<longleftrightarrow> p \<le> unat d \<and> unat d < n"
  proof -
    have "a - (t + of_nat p) = d - of_nat p" by (simp add: d_def)
    then have "unat (a - (t + of_nat p)) = (if p \<le> unat d then unat d - p else 4294967296 + unat d - p)"
      by (simp only: unat_diff_u32 [of d] up)
    then show ?thesis using p u32_less [of d] by auto
  qed
  show "copied (copied m p t s) (n - p) (t + of_nat p) (s + of_nat p) a = copied m n t s a"
  proof (cases "p \<le> unat d \<and> unat d < n")
    case True
    have "(t - s = 0) \<or> n \<le> unat (t - s)" using nc by (auto simp: noclobber_def)
    then have "p \<le> unat (d - (t - s))" using True shift_behind by blast
    moreover have "s + of_nat p + (a - (t + of_nat p)) = s + d" by (simp add: d_def)
    moreover have "s + d - t = d - (t - s)" by simp
    ultimately have "copied m p t s (s + of_nat p + (a - (t + of_nat p))) = m (s + d)"
      by (simp only: copied_def) (simp add: not_less)
    moreover have "copied (copied m p t s) (n - p) (t + of_nat p) (s + of_nat p) a =
        copied m p t s (s + of_nat p + (a - (t + of_nat p)))"
      using True in_iff by (simp only: copied_def [of "copied m p t s"]) simp
    ultimately show ?thesis using True by (simp add: copied_def [of m n] d_def)
  next
    case False
    then have "copied (copied m p t s) (n - p) (t + of_nat p) (s + of_nat p) a = copied m p t s a"
      using in_iff by (simp only: copied_def [of "copied m p t s"]) simp
    then show ?thesis using False p by (auto simp: copied_def d_def)
  qed
qed

lemma copied_0 [simp]: "copied m 0 t s = m"
  by (simp add: copied_def)

lemma noclobber_shift: "noclobber n t s \<Longrightarrow> k \<le> n \<Longrightarrow> noclobber k (t + p) (s + p)"
  by (auto simp: noclobber_def)

lemma copied_1: "copied m (Suc 0) t s = m(t := m s)"
  by (auto simp: copied_def fun_eq_iff unat_eq_0)

lemma copy_bytes_copied:
  "noclobber n t s \<Longrightarrow> n < 4294967296 \<Longrightarrow> copy_bytes n m t s = copied m n t s"
proof (induction n arbitrary: m t s)
  case (Suc n)
  have "copy_bytes (Suc n) m t s = copied (copied m 1 t s) (Suc n - 1) (t + of_nat 1) (s + of_nat 1)"
    using Suc.IH [of "t + 1" "s + 1"] noclobber_shift [OF Suc.prems(1), of n 1] Suc.prems(2)
    by (simp add: copied_1)
  then show ?case using copied_copied [OF Suc.prems(1), of 1 m] Suc.prems(2) by simp
qed simp

lemma store_load_word: "store_word m t (load_word m s) = copied m 4 t s"
proof
  fix a
  have "unat (a - t) < 4 \<longleftrightarrow> a = t \<or> a = t + 1 \<or> a = t + 2 \<or> a = t + 3"
  proof -
    have "unat (a - t) < 4 \<longleftrightarrow> a - t \<in> {0, 1, 2, 3}"
      by (auto simp: word_unat_eq_iff)
    then show ?thesis by (auto simp: algebra_simps)
  qed
  then show "store_word m t (load_word m s) a = copied m 4 t s a"
    by (auto simp: store_word_def load_word_def copied_def)
qed

lemma copy_words_copied:
  "noclobber (4 * n) t s \<Longrightarrow> 4 * n < 4294967296 \<Longrightarrow> copy_words n m t s = copied m (4 * n) t s"
proof (induction n arbitrary: m t s)
  case (Suc n)
  have "copy_words (Suc n) m t s
      = copied (copied m 4 t s) (4 * Suc n - 4) (t + of_nat 4) (s + of_nat 4)"
    using Suc.IH [of "t + 4" "s + 4"] noclobber_shift [OF Suc.prems(1), of "4 * n" 4] Suc.prems(2)
    by (simp add: store_load_word)
  then show ?case using copied_copied [OF Suc.prems(1), of 4 m] Suc.prems(2) by simp
qed simp

lemma memcopy_eq:
  assumes "0 \<le> n" "n < 2 ^ 31" "noclobber (nat n) t s"
  shows "memcopy n m t s a = (if unat (a - t) < nat n then m (s + (a - t)) else m a)"
proof -
  have bound: "nat n < 4294967296" using assms(1,2) by simp
  have "memcopy n m t s = copied m (nat n) t s"
  proof (cases "unat t mod 4 \<noteq> 0 \<or> unat s mod 4 \<noteq> 0")
    case True
    then show ?thesis using copy_bytes_copied assms(3) bound by (auto simp: memcopy_def)
  next
    case False
    define w where "w = nat n div 4"
    have w: "4 * w \<le> nat n" "nat n mod 4 = nat n - 4 * w"
      by (simp_all add: w_def minus_mult_div_eq_mod)
    have "copy_words w m t s = copied m (4 * w) t s"
      using copy_words_copied noclobber_shift [OF assms(3) w(1), of 0] w(1) bound by simp
    then have "memcopy n m t s
        = copied (copied m (4 * w) t s) (nat n - 4 * w) (t + of_nat (4 * w)) (s + of_nat (4 * w))"
      using False copy_bytes_copied [of "nat n - 4 * w" "t + 4 * of_nat w" "s + 4 * of_nat w"]
        noclobber_shift [OF assms(3), of "nat n - 4 * w" "4 * of_nat w"] bound w(2)
      by (simp add: memcopy_def w_def [symmetric] Let_def)
    then show ?thesis using copied_copied [OF assms(3) w(1) bound] by simp
  qed
  then show ?thesis by (simp add: copied_def)
qed

text \<open>
  C21. \<^verbatim>\<open>memcopy\<close>, with its word-wise copy of aligned buffers, has the effect of copying
  all bytes at once, and touches nothing else, whenever the target does not begin inside the
  source region (so also when it overlaps it from below).
\<close>

theorem memcopy_correct:
  assumes "0 \<le> n" "n < 2 ^ 31" "noclobber (nat n) t s"
  shows "memcopy n m t s a = (if unat (a - t) < nat n then m (s + (a - t)) else m a)"
  using assms by (rule memcopy_eq)

theorem memcopy_correct_witness:
  "memcopy 6 (\<lambda>a. ucast a) 0x80000000 0x80000004 0x80000005 = 9"
  using memcopy_correct [of 6 "0x80000000" "0x80000004" "\<lambda>a. ucast a" "0x80000005"]
  by (simp add: noclobber_def)

lemma memoryset_loop_eq:
  "n < 4294967296 \<Longrightarrow> memoryset_loop n m t v = (\<lambda>a. if unat (a - t) < n then v else m a)"
proof (induction n arbitrary: m t)
  case (Suc n)
  have split_off: "unat (a - t) < Suc n \<longleftrightarrow> a = t \<or> unat (a - (t + 1)) < n" for a
  proof -
    have "a - (t + 1) = (a - t) - 1" by simp
    then have "unat (a - (t + 1)) = (if 1 \<le> unat (a - t) then unat (a - t) - 1 else 4294967295)"
      by (simp only: unat_diff_u32 [of "a - t" 1]) simp
    moreover have "unat (a - t) = 0 \<longleftrightarrow> a = t" by (simp add: unat_eq_0)
    ultimately show ?thesis using Suc.prems by (cases "a = t") auto
  qed
  have "memoryset_loop (Suc n) m t v = (\<lambda>a. if unat (a - (t + 1)) < n then v else (m(t := v)) a)"
    using Suc.IH Suc.prems by simp
  then show ?case by (simp only: split_off) (auto simp: fun_eq_iff)
qed simp

lemma memoryset_eq:
  "0 \<le> n \<Longrightarrow> n < 2 ^ 31 \<Longrightarrow> memoryset m t v n = (\<lambda>a. if unat (a - t) < nat n then v else m a)"
  by (simp add: memoryset_def memoryset_loop_eq)

section \<open>Numbers and the terminal\<close>

definition digits_value :: "u8 list \<Rightarrow> nat \<Rightarrow> nat" where
  "digits_value ds v = foldl (\<lambda>v d. 10 * v + (unat d - 48)) v ds"

definition is_digit :: "u8 \<Rightarrow> bool" where
  "is_digit c \<longleftrightarrow> 48 \<le> c \<and> c \<le> 57"

lemma digit_value: "is_digit c \<Longrightarrow> (ucast c - 48 :: u32) = of_nat (unat c - 48)"
proof -
  assume "is_digit c"
  then have "48 \<le> unat c" by (simp add: is_digit_def word_le_nat_alt)
  then have "(of_nat (unat c - 48) :: u32) = of_nat (unat c) - 48" by (simp add: of_nat_diff)
  then show ?thesis by simp
qed

lemma atoi_digits_value:
  assumes "\<forall>c \<in> set ds. is_digit c" "\<not> is_digit e"
  shows "atoi_digits sg (sg * of_nat v) (ds @ e # rest) = Inr (sg * of_nat (digits_value ds v))"
  using assms
proof (induction ds arbitrary: v)
  case Nil
  then show ?case by (auto simp: is_digit_def digits_value_def)
next
  case (Cons d ds)
  have "(ucast d - 48 :: u32) = of_nat (unat d - 48)" using Cons.prems(1) by (simp add: digit_value)
  then have "10 * (sg * of_nat v) + sg * (ucast d - 48) = sg * of_nat (10 * v + (unat d - 48))"
    by (simp add: algebra_simps)
  then show ?case
    using Cons.IH [of "10 * v + (unat d - 48)"] Cons.prems
    by (simp add: is_digit_def [of d] digits_value_def)
qed

definition is_space :: "u8 \<Rightarrow> bool" where
  "is_space c \<longleftrightarrow> c = 32 \<or> c = 9 \<or> c = 13 \<or> c = 10"

lemma skip_space_app: "\<forall>c \<in> set ws. is_space c \<Longrightarrow> \<not> is_space c' \<Longrightarrow> skip_space (ws @ c' # r) = Inr (c' # r)"
  by (induction ws) (auto simp: is_space_def)

text \<open>
  \<^verbatim>\<open>atoi\<close> of white space, a minus sign and digits, up to the first character
  that is not a digit, is the negated value of the digits modulo \<open>2\<^sup>3\<^sup>2\<close>; without the sign it is
  their value.
\<close>

theorem atoi_correct:
  assumes "\<forall>c \<in> set ws. is_space c" "\<forall>c \<in> set ds. is_digit c" "ds \<noteq> []" "\<not> is_digit e"
  shows "atoi (ws @ ds @ e # rest) = Inr (of_nat (digits_value ds 0))
    \<and> atoi (ws @ 45 # ds @ e # rest) = Inr (- of_nat (digits_value ds 0))"
proof -
  obtain d ds' where ds: "ds = d # ds'" using assms(3) by (cases ds) auto
  with assms(2) have "is_digit d" by simp
  then have d: "\<not> is_space d" "d \<noteq> 0" "d \<noteq> 45" "d \<noteq> 43"
    by (auto simp: is_digit_def is_space_def)
  have "skip_space (ws @ ds @ e # rest) = Inr (ds @ e # rest)"
    using skip_space_app [OF assms(1) d(1)] ds by simp
  then have "atoi (ws @ ds @ e # rest) = atoi_digits 1 0 (ds @ e # rest)"
    using d ds by (simp add: atoi_def aget_def)
  moreover have "skip_space (ws @ 45 # ds @ e # rest) = Inr (45 # ds @ e # rest)"
    by (rule skip_space_app [OF assms(1)]) (simp add: is_space_def)
  then have "atoi (ws @ 45 # ds @ e # rest) = atoi_digits (- 1) 0 (ds @ e # rest)"
    by (simp add: atoi_def aget_def)
  ultimately show ?thesis
    using atoi_digits_value [OF assms(2,4), of 1 0 rest] atoi_digits_value [OF assms(2,4), of "- 1" 0 rest]
    by simp
qed

theorem atoi_correct_witness: "atoi [32, 45, 50, 51, 97, 0] = Inr (- 23)"
proof -
  have "atoi ([32] @ 45 # [50, 51] @ 97 # [0]) = Inr (- of_nat (digits_value [50, 51] 0))"
    by (rule conjunct2 [OF atoi_correct]) (auto simp: is_space_def is_digit_def)
  then show ?thesis by (simp add: digits_value_def)
qed

lemma kread_loop_line:
  assumes "\<forall>c \<in> set line. c \<noteq> 10" "int (count + length line) < n" "n \<le> int (length s)"
  shows "kread_loop (line @ 10 # typed) s (int count) n
    = Inr (take count s @ line @ 0 # drop (Suc (count + length line)) s, typed)"
  using assms
proof (induction line arbitrary: s count)
  case Nil
  then show ?case by (simp add: upd_conv_take_nth_drop)
next
  case (Cons c line)
  then have "kread_loop ((c # line) @ 10 # typed) s (int count) n
      = kread_loop (line @ 10 # typed) (s[count := c]) (int (Suc count)) n"
    by (simp add: add.commute)
  then show ?case
    using Cons.IH [of "Suc count" "s[count := c]"] Cons.prems by (simp add: take_Suc_conv_app_nth)
qed

lemma kread_line:
  assumes "\<forall>c \<in> set line. c \<noteq> 10" "int (length line) < n" "n \<le> int (length s)"
  shows "kread (line @ 10 # typed) s n = Inr (line @ 0 # drop (Suc (length line)) s, typed)"
  using kread_loop_line [of line 0 n s typed] assms by (simp add: kread_def)

end
