(* ===== verification/Bytes.thy ===== *)
theory Bytes
  imports Prelude
begin

text \<open>
  Words in memory. YAMS is big-endian: the first of the four bytes of a word is its most
  significant one. \<open>rd32\<close> and \<open>wr32\<close> access the word at a byte offset of an object;
  \<open>words_of\<close> and \<open>bytes_of\<close> see a whole object as an array of words.
\<close>

definition word_of_bytes :: "u8 \<Rightarrow> u8 \<Rightarrow> u8 \<Rightarrow> u8 \<Rightarrow> u32" where
  "word_of_bytes b0 b1 b2 b3 =
     push_bit 24 (ucast b0) OR push_bit 16 (ucast b1) OR push_bit 8 (ucast b2) OR ucast b3"

definition bytes_of_word :: "u32 \<Rightarrow> u8 list" where
  "bytes_of_word w = [ucast (drop_bit 24 w), ucast (drop_bit 16 w), ucast (drop_bit 8 w), ucast w]"

definition rd32 :: "u8 list \<Rightarrow> nat \<Rightarrow> u32" where
  "rd32 bs o' = word_of_bytes (bs ! o') (bs ! (o' + 1)) (bs ! (o' + 2)) (bs ! (o' + 3))"

definition wr32 :: "u8 list \<Rightarrow> nat \<Rightarrow> u32 \<Rightarrow> u8 list" where
  "wr32 bs o' w = take o' bs @ bytes_of_word w @ drop (o' + 4) bs"

fun words_of :: "u8 list \<Rightarrow> u32 list" where
  "words_of (b0 # b1 # b2 # b3 # bs) = word_of_bytes b0 b1 b2 b3 # words_of bs"
| "words_of _ = []"

definition bytes_of :: "u32 list \<Rightarrow> u8 list" where
  "bytes_of ws = concat (map bytes_of_word ws)"

text \<open>A copy of \<open>n\<close> bytes between two objects that do not overlap.\<close>

definition blit :: "int \<Rightarrow> u8 list \<Rightarrow> int \<Rightarrow> u8 list \<Rightarrow> int \<Rightarrow> u8 list res" where
  "blit n dst i src j =
     (if n \<le> 0 then Inr dst
      else if 0 \<le> i \<and> i + n \<le> int (length dst) \<and> 0 \<le> j \<and> j + n \<le> int (length src)
      then Inr (take (nat i) dst @ take (nat n) (drop (nat j) src) @ drop (nat (i + n)) dst)
      else Inl Bad_access)"

section \<open>Round trips\<close>

lemma length_bytes_of_word [simp]: "length (bytes_of_word w) = 4"
  by (simp add: bytes_of_word_def)

lemma bytes_word_bytes: "bytes_of_word (word_of_bytes b0 b1 b2 b3) = [b0, b1, b2, b3]"
  unfolding bytes_of_word_def word_of_bytes_def
  by (auto simp: bit_eq_iff bit_simps dest: bit_imp_le_length)

lemma word_bytes_word:
  "word_of_bytes (ucast (drop_bit 24 w)) (ucast (drop_bit 16 w)) (ucast (drop_bit 8 w)) (ucast w) = w"
proof (rule bit_word_eqI)
  fix n assume "n < LENGTH(32)"
  then consider "n < 8" | "8 \<le> n" "n < 16" | "16 \<le> n" "n < 24" | "24 \<le> n" "n < 32" by force
  then show "bit (word_of_bytes (ucast (drop_bit 24 w)) (ucast (drop_bit 16 w)) (ucast (drop_bit 8 w)) (ucast w)) n = bit w n"
    by cases (auto simp: word_of_bytes_def bit_simps)
qed

lemma rd32_wr32_same: "o' + 4 \<le> length bs \<Longrightarrow> rd32 (wr32 bs o' w) o' = w"
  by (simp add: rd32_def wr32_def bytes_of_word_def nth_append word_bytes_word)

lemma length_wr32 [simp]: "o' + 4 \<le> length bs \<Longrightarrow> length (wr32 bs o' w) = length bs"
  by (simp add: wr32_def)

lemma nth_wr32_other:
  "o' + 4 \<le> length bs \<Longrightarrow> i < o' \<or> o' + 4 \<le> i \<Longrightarrow> i < length bs \<Longrightarrow> wr32 bs o' w ! i = bs ! i"
  by (auto simp: wr32_def nth_append)

lemma rd32_wr32_other:
  assumes "o' + 4 \<le> length bs" "p + 4 \<le> o' \<or> o' + 4 \<le> p" "p + 4 \<le> length bs"
  shows "rd32 (wr32 bs o' w) p = rd32 bs p"
proof -
  have "wr32 bs o' w ! (p + k) = bs ! (p + k)" if "k < 4" for k
    using assms that by (intro nth_wr32_other) auto
  from this [of 0] this [of 1] this [of 2] this [of 3] show ?thesis by (simp add: rd32_def)
qed

lemma rd32_append: "o' + 4 \<le> length bs \<Longrightarrow> rd32 (bs @ cs) o' = rd32 bs o'"
  by (simp add: rd32_def nth_append)

lemma length_bytes_of [simp]: "length (bytes_of ws) = 4 * length ws"
  by (induction ws) (simp_all add: bytes_of_def)

lemma length_words_of [simp]: "length (words_of bs) = length bs div 4"
  by (induction bs rule: words_of.induct) auto

lemma words_of_bytes_of [simp]: "words_of (bytes_of ws) = ws"
  by (induction ws) (simp_all add: bytes_of_def bytes_of_word_def word_bytes_word)

lemma bytes_of_words_of: "length bs mod 4 = 0 \<Longrightarrow> bytes_of (words_of bs) = bs"
  by (induction bs rule: words_of.induct) (auto simp: bytes_of_def bytes_word_bytes)

lemma words_of_nth: "4 * i + 4 \<le> length bs \<Longrightarrow> words_of bs ! i = rd32 bs (4 * i)"
proof (induction bs arbitrary: i rule: words_of.induct)
  case (1 b0 b1 b2 b3 bs)
  then show ?case by (cases i) (simp_all add: rd32_def add.commute)
qed auto

lemma rd32_bytes_of: "i < length ws \<Longrightarrow> rd32 (bytes_of ws) (4 * i) = ws ! i"
  using words_of_nth [of i "bytes_of ws"] by simp

lemma wr32_words: "4 * i + 4 \<le> length bs \<Longrightarrow> words_of (wr32 bs (4 * i) w) = (words_of bs)[i := w]"
proof (rule nth_equalityI)
  assume i: "4 * i + 4 \<le> length bs"
  then show "length (words_of (wr32 bs (4 * i) w)) = length ((words_of bs)[i := w])" by simp
  fix j assume "j < length (words_of (wr32 bs (4 * i) w))"
  then have j: "4 * j + 4 \<le> length bs" using i by simp
  then show "words_of (wr32 bs (4 * i) w) ! j = (words_of bs)[i := w] ! j"
  proof (cases "j = i")
    case False
    then have "4 * j + 4 \<le> 4 * i \<or> 4 * i + 4 \<le> 4 * j" by linarith
    then show ?thesis using False i j by (simp add: words_of_nth rd32_wr32_other)
  qed (use i in \<open>simp add: words_of_nth rd32_wr32_same\<close>)
qed

lemma blit_ok:
  assumes "0 < n" "i + n \<le> length dst" "j + n \<le> length src"
  shows "blit (int n) dst (int i) src (int j) = Inr (take i dst @ take n (drop j src) @ drop (i + n) dst)"
proof -
  have "nat (int i + int n) = i + n" by (metis nat_int of_nat_add)
  then show ?thesis using assms by (simp add: blit_def)
qed

end
