(* ===== verification/Tfs.thy ===== *)
theory Tfs
  imports Gbd Libc Bytes "HOL-Library.Signed_Division"
begin

text \<open>
  \<^verbatim>\<open>fs/tfs.c\<close>: the trivial filesystem. Block 0 of the disk is the header, block 1 the
  allocation bitmap, block 2 the only directory (25 entries of an inode number and a name of 16
  bytes); an inode block holds the size of the file and up to 127 block numbers.

  \<open>tfs_t\<close> is the structure of the same name, with its three block buffers, next to the
  resources of the kernel. The buffers are arrays of 512 bytes that lie one behind the other in
  the page that \<open>tfs_init\<close> allocates; \<open>inode_block\<close> reads the block table through that layout.
  C \<^verbatim>\<open>int\<close>s are \<open>int\<close>; the conversions between \<^verbatim>\<open>int\<close> and \<^verbatim>\<open>uint32_t\<close> are
  \<open>sint\<close> and \<open>word_of_int\<close>, and \<open>sdiv\<close> is C's division. Copies between the buffers and the
  caller's memory, which are disjoint, are \<open>blit\<close>.
\<close>

section \<open>The code\<close>

abbreviation (input) VFS_OK :: int where "VFS_OK \<equiv> 0"
abbreviation (input) VFS_ERROR :: int where "VFS_ERROR \<equiv> -2"
abbreviation (input) VFS_INVALID_PARAMS :: int where "VFS_INVALID_PARAMS \<equiv> -3"
abbreviation (input) VFS_NOT_OPEN :: int where "VFS_NOT_OPEN \<equiv> -4"
abbreviation (input) VFS_NOT_FOUND :: int where "VFS_NOT_FOUND \<equiv> -5"
abbreviation (input) VFS_NO_SUCH_FS :: int where "VFS_NO_SUCH_FS \<equiv> -6"
abbreviation (input) VFS_LIMIT :: int where "VFS_LIMIT \<equiv> -7"
abbreviation (input) VFS_IN_USE :: int where "VFS_IN_USE \<equiv> -8"
abbreviation (input) VFS_UNUSABLE :: int where "VFS_UNUSABLE \<equiv> -9"

abbreviation (input) TFS_BLOCK_SIZE :: "'a::numeral" where "TFS_BLOCK_SIZE \<equiv> 512"
abbreviation (input) TFS_MAGIC :: u32 where "TFS_MAGIC \<equiv> 3745"
abbreviation (input) TFS_HEADER_BLOCK :: u32 where "TFS_HEADER_BLOCK \<equiv> 0"
abbreviation (input) TFS_ALLOCATION_BLOCK :: u32 where "TFS_ALLOCATION_BLOCK \<equiv> 1"
abbreviation (input) TFS_DIRECTORY_BLOCK :: u32 where "TFS_DIRECTORY_BLOCK \<equiv> 2"
abbreviation (input) TFS_VOLUMENAME_MAX :: int where "TFS_VOLUMENAME_MAX \<equiv> 16"
abbreviation (input) TFS_FILENAME_MAX :: int where "TFS_FILENAME_MAX \<equiv> 16"
abbreviation (input) TFS_BLOCKS_MAX :: nat where "TFS_BLOCKS_MAX \<equiv> 127"
abbreviation (input) TFS_MAX_FILES :: nat where "TFS_MAX_FILES \<equiv> 25"
abbreviation (input) VFS_NAME_LENGTH :: int where "VFS_NAME_LENGTH \<equiv> 16"

record 'd tfs_t =
  tw :: "'d kworld"
  totalblocks :: u32
  lock :: nat
  fs_page :: u32
  buffer_inode :: "u8 list"
  buffer_bat :: "u8 list"
  buffer_md :: "u8 list"

text \<open>
  The fields of the blocks: \<^verbatim>\<open>buffer_md[i].inode\<close>, the pointer
  \<^verbatim>\<open>buffer_md[i].name\<close>, \<^verbatim>\<open>buffer_inode->filesize\<close> and
  \<^verbatim>\<open>buffer_inode->block[i]\<close>.
\<close>

definition dir_inode :: "u8 list \<Rightarrow> nat \<Rightarrow> u32" where
  "dir_inode md i = rd32 md (20 * i)"

definition dir_name :: "u8 list \<Rightarrow> nat \<Rightarrow> u8 list" where
  "dir_name md i = drop (20 * i + 4) md"

definition inode_filesize :: "u8 list \<Rightarrow> u32" where
  "inode_filesize ib = rd32 ib 0"

definition inode_block :: "'d tfs_t \<Rightarrow> int \<Rightarrow> u32 res" where
  "inode_block s i = aget (words_of (buffer_inode s @ buffer_bat s @ buffer_md s)) (i + 1)"

text \<open>Operations on the lock, and one transfer between a block and a buffer.\<close>

definition tfs_P :: "'d tfs_t \<Rightarrow> 'd tfs_t res" where
  "tfs_P s = rbind (ksem_P (sems (tw s)) (lock s)) (\<lambda>k. Inr (s\<lparr>tw := (tw s)\<lparr>sems := k\<rparr>\<rparr>))"

definition tfs_V :: "'d tfs_t \<Rightarrow> 'd tfs_t res" where
  "tfs_V s = rbind (ksem_V (sems (tw s)) (lock s)) (\<lambda>k. Inr (s\<lparr>tw := (tw s)\<lparr>sems := k\<rparr>\<rparr>))"

definition rd_inode :: "'d gbd_t \<Rightarrow> u32 \<Rightarrow> 'd tfs_t \<Rightarrow> (int \<times> 'd tfs_t) res" where
  "rd_inode g b s = rbind (read_block g (tw s) b (buffer_inode s)) (\<lambda>(r, bf, w). Inr (r, s\<lparr>tw := w, buffer_inode := bf\<rparr>))"

definition rd_bat :: "'d gbd_t \<Rightarrow> u32 \<Rightarrow> 'd tfs_t \<Rightarrow> (int \<times> 'd tfs_t) res" where
  "rd_bat g b s = rbind (read_block g (tw s) b (buffer_bat s)) (\<lambda>(r, bf, w). Inr (r, s\<lparr>tw := w, buffer_bat := bf\<rparr>))"

definition rd_md :: "'d gbd_t \<Rightarrow> u32 \<Rightarrow> 'd tfs_t \<Rightarrow> (int \<times> 'd tfs_t) res" where
  "rd_md g b s = rbind (read_block g (tw s) b (buffer_md s)) (\<lambda>(r, bf, w). Inr (r, s\<lparr>tw := w, buffer_md := bf\<rparr>))"

definition wr_blk :: "'d gbd_t \<Rightarrow> u32 \<Rightarrow> u8 list \<Rightarrow> 'd tfs_t \<Rightarrow> (int \<times> 'd tfs_t) res" where
  "wr_blk g b bf s = rbind (write_block g (tw s) b bf) (\<lambda>(r, w). Inr (r, s\<lparr>tw := w\<rparr>))"

text \<open>\<^verbatim>\<open>semaphore_V(tfs->lock); return r;\<close>, and the check of a transfer.\<close>

definition leave :: "int \<Rightarrow> 'd tfs_t \<Rightarrow> (int \<times> 'd tfs_t) res" where
  "leave r s = rbind (tfs_V s) (\<lambda>s'. Inr (r, s'))"

definition leave_buf :: "int \<Rightarrow> u8 list \<Rightarrow> 'd tfs_t \<Rightarrow> (int \<times> u8 list \<times> 'd tfs_t) res" where
  "leave_buf r bf s = rbind (tfs_V s) (\<lambda>s'. Inr (r, bf, s'))"

definition io_step ::
  "(int \<times> 'd tfs_t) res \<Rightarrow> ('d tfs_t \<Rightarrow> 'a res) \<Rightarrow> ('d tfs_t \<Rightarrow> 'a res) \<Rightarrow> 'a res" where
  "io_step m err k = rbind m (\<lambda>(r, s). if r = 0 then err s else k s)"

text \<open>
  \<open>tfs_init\<close>: \<open>page\<close> is what the allocated page of memory holds, \<open>name\<close> the uninitialised
  array on the stack. The structures \<^verbatim>\<open>fs_t\<close> (52 bytes) and \<^verbatim>\<open>tfs_t\<close> (24 bytes) are
  at the start of the page, the buffers follow. The macro \<^verbatim>\<open>MIN\<close> asks the disk for its
  size a second time when the disk is not larger than the bitmap.
\<close>

definition tfs_init ::
  "'d gbd_t \<Rightarrow> 'd kworld \<Rightarrow> u8 list \<Rightarrow> u8 list \<Rightarrow> (((u8 list \<times> 'd tfs_t) option) \<times> 'd kworld) res" where
  "tfs_init g w0 page name =
     (let (bs, w) = block_size g w0 in
      if bs \<noteq> TFS_BLOCK_SIZE then Inr (None, w)
      else
        let (sm, k) = ksem_create (sems w) 1; w = w\<lparr>sems := k\<rparr> in
        (case sm of
           None \<Rightarrow> Inr (None, w)
         | Some sm \<Rightarrow>
             rbind (pagepool_get_phys_page (pool w)) (\<lambda>(phys, p).
               let w = w\<lparr>pool := p\<rparr> in
               if phys = 0 then Inr (None, w\<lparr>sems := ksem_destroy (sems w) sm\<rparr>)
               else
                 let addr = ADDR_PHYS_TO_KERNEL phys in
                 rbind (read_block g w TFS_HEADER_BLOCK (take 512 page)) (\<lambda>(r, hdr, w).
                   let page1 = hdr @ drop 512 page in
                   if r = 0 \<or> rd32 page1 0 \<noteq> TFS_MAGIC then
                     rbind (pagepool_free_phys_page (pool w) (ADDR_KERNEL_TO_PHYS addr)) (\<lambda>p.
                       Inr (None, w\<lparr>sems := ksem_destroy (sems w) sm, pool := p\<rparr>))
                   else
                     rbind (stringcopy name (drop 4 page1) TFS_VOLUMENAME_MAX) (\<lambda>name.
                       let (tb, w) = total_blocks g w;
                           (tb, w) = (if tb > 8 * TFS_BLOCK_SIZE then (8 * TFS_BLOCK_SIZE, w) else total_blocks g w) in
                       rbind (stringcopy (take 16 (drop 4 page1)) name VFS_NAME_LENGTH) (\<lambda>volume_name.
                         Inr (Some (volume_name,
                           \<lparr>tw = w, totalblocks = tb, lock = sm, fs_page = addr,
                            buffer_inode = take 512 (drop 76 page1),
                            buffer_bat = take 512 (drop 588 page1),
                            buffer_md = take 512 (drop 1100 page1)\<rparr>), w)))))))"

definition tfs_unmount :: "'d tfs_t \<Rightarrow> (int \<times> 'd kworld) res" where
  "tfs_unmount s =
     rbind (tfs_P s) (\<lambda>s.
     rbind (pagepool_free_phys_page (pool (tw s)) (ADDR_KERNEL_TO_PHYS (fs_page s))) (\<lambda>p.
       Inr (VFS_OK, (tw s)\<lparr>sems := ksem_destroy (sems (tw s)) (lock s), pool := p\<rparr>)))"

text \<open>The search for a name in the directory block: the index of the first entry with that name.\<close>

definition dir_search :: "u8 list \<Rightarrow> u8 list \<Rightarrow> nat res" where
  "dir_search md filename =
     first_indexR (\<lambda>i. rbind (stringcmp (dir_name md i) filename) (\<lambda>d. Inr (d = 0))) [0..<TFS_MAX_FILES]"

definition tfs_open :: "'d gbd_t \<Rightarrow> 'd tfs_t \<Rightarrow> u8 list \<Rightarrow> (int \<times> 'd tfs_t) res" where
  "tfs_open g s filename =
     rbind (tfs_P s) (\<lambda>s.
     io_step (rd_md g TFS_DIRECTORY_BLOCK s) (leave VFS_ERROR) (\<lambda>s.
     rbind (dir_search (buffer_md s) filename) (\<lambda>i.
       if i < TFS_MAX_FILES then leave (sint (dir_inode (buffer_md s) i)) s
       else leave VFS_NOT_FOUND s)))"

definition tfs_close :: "'d tfs_t \<Rightarrow> int \<Rightarrow> (int \<times> 'd tfs_t) res" where
  "tfs_close s fileid = Inr (VFS_OK, s)"

text \<open>
  The loop of \<open>tfs_create\<close> over the directory: \<open>None\<close> when the name exists, otherwise the value
  of \<^verbatim>\<open>index\<close> at the end.
\<close>

fun create_scan :: "u8 list \<Rightarrow> u8 list \<Rightarrow> nat \<Rightarrow> nat \<Rightarrow> int \<Rightarrow> int option res" where
  "create_scan md filename i 0 index = Inr (Some index)"
| "create_scan md filename i (Suc n) index =
     rbind (stringcmp (dir_name md i) filename) (\<lambda>d.
       if d = 0 then Inr None
       else create_scan md filename (Suc i) n (if dir_inode md i = 0 then int i else index))"

text \<open>
  The allocation loop of \<open>tfs_create\<close>: whether every block was found, the bitmap and the inode.
\<close>

fun alloc_loop :: "bitmap_t \<Rightarrow> u32 \<Rightarrow> u8 list \<Rightarrow> nat \<Rightarrow> nat \<Rightarrow> (bool \<times> bitmap_t \<times> u8 list) res" where
  "alloc_loop bat tb ib i 0 = Inr (True, bat, ib)"
| "alloc_loop bat tb ib i (Suc n) =
     rbind (bitmap_findnset bat (sint tb)) (\<lambda>(p, bat').
       let ib' = wr32 ib (4 * (i + 1)) (word_of_int p) in
       if p = -1 then Inr (False, bat', ib') else alloc_loop bat' tb ib' (Suc i) n)"

fun clear_rest :: "u8 list \<Rightarrow> nat \<Rightarrow> nat \<Rightarrow> u8 list" where
  "clear_rest ib i 0 = ib"
| "clear_rest ib i (Suc n) = clear_rest (wr32 ib (4 * (i + 1)) 0) (Suc i) n"

fun zero_blocks :: "'d gbd_t \<Rightarrow> 'd tfs_t \<Rightarrow> nat \<Rightarrow> nat \<Rightarrow> (int \<times> 'd tfs_t) res" where
  "zero_blocks g s i 0 = leave VFS_OK s"
| "zero_blocks g s i (Suc n) =
     rbind (inode_block s (int i)) (\<lambda>b.
     io_step (wr_blk g b (buffer_bat s) s) (leave VFS_ERROR) (\<lambda>s. zero_blocks g s (Suc i) n))"

definition create_numblocks :: "int \<Rightarrow> u32" where
  "create_numblocks sz = word_of_int (sint (word_of_int (sz + TFS_BLOCK_SIZE - 1) :: u32) sdiv TFS_BLOCK_SIZE)"

text \<open>Writing the changed blocks back, and clearing the new blocks.\<close>

definition create_write :: "'d gbd_t \<Rightarrow> 'd tfs_t \<Rightarrow> nat \<Rightarrow> nat \<Rightarrow> (int \<times> 'd tfs_t) res" where
  "create_write g s index numblocks =
     io_step (wr_blk g TFS_ALLOCATION_BLOCK (buffer_bat s) s) (leave VFS_ERROR) (\<lambda>s.
     io_step (wr_blk g TFS_DIRECTORY_BLOCK (buffer_md s) s) (leave VFS_ERROR) (\<lambda>s.
     io_step (wr_blk g (dir_inode (buffer_md s) index) (buffer_inode s) s) (leave VFS_ERROR) (\<lambda>s.
       zero_blocks g (s\<lparr>buffer_bat := replicate TFS_BLOCK_SIZE 0\<rparr>) 0 numblocks)))"

definition put_name :: "u8 list \<Rightarrow> nat \<Rightarrow> u8 list \<Rightarrow> u8 list res" where
  "put_name md i filename =
     rbind (stringcopy (dir_name md i) filename TFS_FILENAME_MAX) (\<lambda>nm. Inr (take (20 * i + 4) md @ nm))"

definition create_alloc :: "'d gbd_t \<Rightarrow> 'd tfs_t \<Rightarrow> nat \<Rightarrow> int \<Rightarrow> nat \<Rightarrow> (int \<times> 'd tfs_t) res" where
  "create_alloc g s index sz numblocks =
     rbind (bitmap_findnset (words_of (buffer_bat s)) (sint (totalblocks s))) (\<lambda>(p, bat).
       let s = s\<lparr>buffer_md := wr32 (buffer_md s) (20 * index) (word_of_int p), buffer_bat := bytes_of bat\<rparr> in
       if p = -1 then leave VFS_ERROR s
       else
         rbind (alloc_loop bat (totalblocks s) (wr32 (buffer_inode s) 0 (word_of_int sz)) 0 numblocks) (\<lambda>(ok, bat, ib).
           let s = s\<lparr>buffer_bat := bytes_of bat, buffer_inode := ib\<rparr> in
           if \<not> ok then leave VFS_ERROR s
           else create_write g (s\<lparr>buffer_inode := clear_rest ib numblocks (TFS_BLOCKS_MAX - numblocks)\<rparr>) index numblocks))"

definition tfs_create :: "'d gbd_t \<Rightarrow> 'd tfs_t \<Rightarrow> u8 list \<Rightarrow> int \<Rightarrow> (int \<times> 'd tfs_t) res" where
  "tfs_create g s filename sz =
     (let numblocks = create_numblocks sz in
      rbind (tfs_P s) (\<lambda>s.
      if numblocks > of_nat TFS_BLOCKS_MAX then leave VFS_ERROR s
      else
        io_step (rd_md g TFS_DIRECTORY_BLOCK s) (leave VFS_ERROR) (\<lambda>s.
        rbind (create_scan (buffer_md s) filename 0 TFS_MAX_FILES (-1)) (\<lambda>r.
          case r of
            None \<Rightarrow> leave VFS_ERROR s
          | Some index \<Rightarrow>
              if index = -1 then leave VFS_ERROR s
              else
                rbind (put_name (buffer_md s) (nat index) filename) (\<lambda>md.
                io_step (rd_bat g TFS_ALLOCATION_BLOCK (s\<lparr>buffer_md := md\<rparr>)) (leave VFS_ERROR) (\<lambda>s.
                  create_alloc g s (nat index) sz (unat numblocks)))))))"

text \<open>
  The loop of \<open>tfs_remove\<close> over the block table, with \<open>n\<close> entries left. When the table is full
  the loop test also reads the word behind it, which lies in the next buffer, before it finds
  that \<open>i\<close> is too large.
\<close>

fun free_loop :: "bitmap_t \<Rightarrow> u8 list \<Rightarrow> nat \<Rightarrow> nat \<Rightarrow> bitmap_t res" where
  "free_loop bat ib i 0 = Inr bat"
| "free_loop bat ib i (Suc n) =
     (let b = rd32 ib (4 * (i + 1)) in
      if b \<noteq> 0 then rbind (bitmap_set bat (sint b) 0) (\<lambda>bat'. free_loop bat' ib (Suc i) n)
      else Inr bat)"

definition tfs_remove :: "'d gbd_t \<Rightarrow> 'd tfs_t \<Rightarrow> u8 list \<Rightarrow> (int \<times> 'd tfs_t) res" where
  "tfs_remove g s filename =
     rbind (tfs_P s) (\<lambda>s.
     io_step (rd_md g TFS_DIRECTORY_BLOCK s) (leave VFS_ERROR) (\<lambda>s.
     rbind (dir_search (buffer_md s) filename) (\<lambda>index.
       if \<not> index < TFS_MAX_FILES then leave VFS_NOT_FOUND s
       else
         io_step (rd_bat g TFS_ALLOCATION_BLOCK s) (leave VFS_ERROR) (\<lambda>s.
         io_step (rd_inode g (dir_inode (buffer_md s) index) s) (leave VFS_ERROR) (\<lambda>s.
         rbind (bitmap_set (words_of (buffer_bat s)) (sint (dir_inode (buffer_md s) index)) 0) (\<lambda>bat.
         rbind (free_loop bat (buffer_inode s) 0 TFS_BLOCKS_MAX) (\<lambda>bat.
           let s = s\<lparr>buffer_bat := bytes_of bat,
                     buffer_md := (wr32 (buffer_md s) (20 * index) 0)[20 * index + 4 := 0]\<rparr> in
           io_step (wr_blk g TFS_ALLOCATION_BLOCK (buffer_bat s) s) (leave VFS_ERROR) (\<lambda>s.
           io_step (wr_blk g TFS_DIRECTORY_BLOCK (buffer_md s) s) (leave VFS_ERROR) (\<lambda>s.
             leave VFS_OK s)))))))))"

text \<open>
  The loops of \<open>tfs_read\<close> and \<open>tfs_write\<close> after the first block; \<open>pos\<close> is how far the buffer
  pointer has advanced.
\<close>

function read_loop ::
  "'d gbd_t \<Rightarrow> 'd tfs_t \<Rightarrow> u8 list \<Rightarrow> int \<Rightarrow> int \<Rightarrow> int \<Rightarrow> int \<Rightarrow> int \<Rightarrow> (int \<times> u8 list \<times> 'd tfs_t) res" where
  "read_loop g s buffer pos b1 b2 bufsize n =
     (if b1 \<le> b2 then
        rbind (inode_block s b1) (\<lambda>b.
        io_step (rd_bat g b s) (leave_buf VFS_ERROR buffer) (\<lambda>s.
          if b1 = b2 then
            rbind (blit (bufsize - n) buffer pos (buffer_bat s) 0) (\<lambda>buffer'.
              read_loop g s buffer' pos (b1 + 1) b2 bufsize (n + (bufsize - n)))
          else
            rbind (blit TFS_BLOCK_SIZE buffer pos (buffer_bat s) 0) (\<lambda>buffer'.
              read_loop g s buffer' (pos + TFS_BLOCK_SIZE) (b1 + 1) b2 bufsize (n + TFS_BLOCK_SIZE))))
      else leave_buf n buffer s)"
  by pat_completeness auto
termination by (relation "measure (\<lambda>(_, _, _, _, b1, b2, _, _). nat (b2 + 1 - b1))") auto

definition tfs_read ::
  "'d gbd_t \<Rightarrow> 'd tfs_t \<Rightarrow> int \<Rightarrow> u8 list \<Rightarrow> int \<Rightarrow> int \<Rightarrow> (int \<times> u8 list \<times> 'd tfs_t) res" where
  "tfs_read g s fileid buffer bufsize offset =
     rbind (tfs_P s) (\<lambda>s.
     if fileid < 2 \<or> fileid > sint (totalblocks s) then leave_buf VFS_ERROR buffer s
     else
       io_step (rd_inode g (word_of_int fileid) s) (leave_buf VFS_ERROR buffer) (\<lambda>s.
         let filesize = sint (inode_filesize (buffer_inode s)) in
         if offset < 0 \<or> offset > filesize then leave_buf VFS_ERROR buffer s
         else
           let bufsize = min bufsize (filesize - offset) in
           if bufsize = 0 then leave_buf 0 buffer s
           else
             let b1 = offset sdiv TFS_BLOCK_SIZE; b2 = (offset + bufsize - 1) sdiv TFS_BLOCK_SIZE in
             rbind (inode_block s b1) (\<lambda>b.
             io_step (rd_bat g b s) (leave_buf VFS_ERROR buffer) (\<lambda>s.
               let n = min (TFS_BLOCK_SIZE - offset smod TFS_BLOCK_SIZE) bufsize in
               rbind (blit n buffer 0 (buffer_bat s) (offset smod TFS_BLOCK_SIZE)) (\<lambda>buffer'.
                 read_loop g s buffer' n (b1 + 1) b2 bufsize n)))))"

function write_loop ::
  "'d gbd_t \<Rightarrow> 'd tfs_t \<Rightarrow> u8 list \<Rightarrow> int \<Rightarrow> int \<Rightarrow> int \<Rightarrow> int \<Rightarrow> int \<Rightarrow> (int \<times> 'd tfs_t) res" where
  "write_loop g s buffer pos b1 b2 datasize written =
     (if b1 \<le> b2 then
        if b1 = b2 then
          io_step (if datasize - written < TFS_BLOCK_SIZE then rbind (inode_block s b1) (\<lambda>b. rd_bat g b s) else Inr (1, s))
            (leave VFS_ERROR) (\<lambda>s.
          rbind (blit (datasize - written) (buffer_bat s) 0 buffer pos) (\<lambda>bat.
            let s = s\<lparr>buffer_bat := bat\<rparr> in
            rbind (inode_block s b1) (\<lambda>b.
            io_step (wr_blk g b (buffer_bat s) s) (leave VFS_ERROR) (\<lambda>s.
              write_loop g s buffer pos (b1 + 1) b2 datasize datasize))))
        else
          rbind (blit TFS_BLOCK_SIZE (buffer_bat s) 0 buffer pos) (\<lambda>bat.
            let s = s\<lparr>buffer_bat := bat\<rparr> in
            rbind (inode_block s b1) (\<lambda>b.
            io_step (wr_blk g b (buffer_bat s) s) (leave VFS_ERROR) (\<lambda>s.
              write_loop g s buffer (pos + TFS_BLOCK_SIZE) (b1 + 1) b2 datasize (written + TFS_BLOCK_SIZE))))
      else leave written s)"
  by pat_completeness auto
termination by (relation "measure (\<lambda>(_, _, _, _, b1, b2, _, _). nat (b2 + 1 - b1))") auto

definition tfs_write ::
  "'d gbd_t \<Rightarrow> 'd tfs_t \<Rightarrow> int \<Rightarrow> u8 list \<Rightarrow> int \<Rightarrow> int \<Rightarrow> (int \<times> 'd tfs_t) res" where
  "tfs_write g s fileid buffer datasize offset =
     rbind (tfs_P s) (\<lambda>s.
     if fileid < 2 \<or> fileid > sint (totalblocks s) then leave VFS_ERROR s
     else
       io_step (rd_inode g (word_of_int fileid) s) (leave VFS_ERROR) (\<lambda>s.
         let filesize = sint (inode_filesize (buffer_inode s)) in
         if offset < 0 \<or> offset > filesize then leave VFS_ERROR s
         else
           let datasize = min datasize (filesize - offset) in
           if datasize = 0 then leave 0 s
           else
             let b1 = offset sdiv TFS_BLOCK_SIZE; b2 = (offset + datasize - 1) sdiv TFS_BLOCK_SIZE;
                 written = min (TFS_BLOCK_SIZE - offset smod TFS_BLOCK_SIZE) datasize in
             io_step (if written < TFS_BLOCK_SIZE then rbind (inode_block s b1) (\<lambda>b. rd_bat g b s) else Inr (1, s))
               (leave VFS_ERROR) (\<lambda>s.
             rbind (blit written (buffer_bat s) (offset smod TFS_BLOCK_SIZE) buffer 0) (\<lambda>bat.
               let s = s\<lparr>buffer_bat := bat\<rparr> in
               rbind (inode_block s b1) (\<lambda>b.
               io_step (wr_blk g b (buffer_bat s) s) (leave VFS_ERROR) (\<lambda>s.
                 write_loop g s buffer written (b1 + 1) b2 datasize written))))))"

fun count_loop :: "bitmap_t \<Rightarrow> nat \<Rightarrow> nat \<Rightarrow> int \<Rightarrow> int res" where
  "count_loop bat i 0 allocated = Inr allocated"
| "count_loop bat i (Suc n) allocated =
     rbind (bitmap_get bat (int i)) (\<lambda>b. count_loop bat (Suc i) n (allocated + sint b))"

definition tfs_getfree :: "'d gbd_t \<Rightarrow> 'd tfs_t \<Rightarrow> (int \<times> 'd tfs_t) res" where
  "tfs_getfree g s =
     rbind (tfs_P s) (\<lambda>s.
     io_step (rd_bat g TFS_ALLOCATION_BLOCK s) (leave VFS_ERROR) (\<lambda>s.
     rbind (count_loop (words_of (buffer_bat s)) 0 (unat (totalblocks s)) 0) (\<lambda>allocated.
       leave (sint ((totalblocks s - word_of_int allocated) * TFS_BLOCK_SIZE)) s)))"

declare read_loop.simps [simp del] write_loop.simps [simp del]

end
