(* ===== verification/Device.thy ===== *)
theory Device
  imports Kmalloc
begin

text \<open>
  \<^verbatim>\<open>drivers/device.c\<close>: the table of the devices found at boot. \<open>device_table\<close> is the used
  part of the array. The drivers come as a table of type codes and init functions on the state
  \<open>'w\<close> of the machine, whose last entry has type code 0.
\<close>

abbreviation (input) YAMS_TYPECODE_TTY :: u32 where "YAMS_TYPECODE_TTY \<equiv> 0x201"
abbreviation (input) YAMS_TYPECODE_DISK :: u32 where "YAMS_TYPECODE_DISK \<equiv> 0x301"
abbreviation (input) YAMS_TYPECODE_CPUSTATUS :: u32 where "YAMS_TYPECODE_CPUSTATUS \<equiv> 0xc00"
abbreviation (input) YAMS_TYPECODE_CPUMASK :: u32 where "YAMS_TYPECODE_CPUMASK \<equiv> 0xffffff00"
abbreviation (input) CONFIG_MAX_DEVICES :: nat where "CONFIG_MAX_DEVICES \<equiv> 128"

record 'g device_t =
  generic_device :: "'g option"
  io_address :: u32
  type_of :: u32

record ('g, 'w) drivers_available_t =
  typecode :: u32
  initfunc :: "io_descriptor_t \<Rightarrow> 'w \<Rightarrow> ('g device_t option \<times> 'w) res"

fun find_driver_loop :: "('g, 'w) drivers_available_t list \<Rightarrow> u32 \<Rightarrow> ('g, 'w) drivers_available_t option res" where
  "find_driver_loop [] tc = Inl Bad_access"
| "find_driver_loop (d # ds) tc =
     (if typecode d \<noteq> 0 then if typecode d = tc then Inr (Some d) else find_driver_loop ds tc
      else Inr None)"

definition find_driver :: "('g, 'w) drivers_available_t list \<Rightarrow> u32 \<Rightarrow> ('g, 'w) drivers_available_t option res" where
  "find_driver drivers tc =
     find_driver_loop drivers (if tc AND YAMS_TYPECODE_CPUMASK = YAMS_TYPECODE_CPUSTATUS then YAMS_TYPECODE_CPUSTATUS else tc)"

fun device_init_loop ::
  "('g, 'w) drivers_available_t list \<Rightarrow> io_descriptor_t list \<Rightarrow> 'g device_t list \<Rightarrow> 'w \<Rightarrow> ('g device_t list \<times> 'w) res" where
  "device_init_loop drivers [] tbl w = Inr (tbl, w)"
| "device_init_loop drivers (desc # descs) tbl w =
     (if desc_type desc = 0 then device_init_loop drivers descs tbl w
      else rbind (find_driver drivers (desc_type desc)) (\<lambda>r.
        case r of
          None \<Rightarrow> device_init_loop drivers descs tbl w
        | Some driver \<Rightarrow>
            rbind (initfunc driver desc w) (\<lambda>(d, w).
              case d of
                None \<Rightarrow> device_init_loop drivers descs tbl w
              | Some d \<Rightarrow>
                  if length tbl + 1 \<ge> CONFIG_MAX_DEVICES then Inr (tbl @ [d], w)
                  else device_init_loop drivers descs (tbl @ [d]) w)))"

definition device_init ::
  "('g, 'w) drivers_available_t list \<Rightarrow> io_descriptor_t list \<Rightarrow> 'w \<Rightarrow> ('g device_t list \<times> 'w) res" where
  "device_init drivers descs w = device_init_loop drivers (take YAMS_MAX_DEVICES descs) [] w"

fun device_get :: "'g device_t list \<Rightarrow> u32 \<Rightarrow> nat \<Rightarrow> 'g device_t option" where
  "device_get [] tc n = None"
| "device_get (d # ds) tc n =
     (if type_of d = tc then if n = 0 then Some d else device_get ds tc (n - 1)
      else device_get ds tc n)"

section \<open>Properties\<close>

text \<open>
  \<^verbatim>\<open>device_get\<close> enumerates the devices of one type: the \<open>n\<close>-th call result is the \<open>n\<close>-th
  device of the table with that type, and NULL exactly when there are not that many.
\<close>

theorem device_get_correct:
  "device_get tbl tc n =
     (if n < length (filter (\<lambda>d. type_of d = tc) tbl) then Some (filter (\<lambda>d. type_of d = tc) tbl ! n) else None)"
  by (induction tbl tc n rule: device_get.induct) (auto simp: nth_Cons split: nat.splits)

end
