(* ===== verification/Vfs.thy ===== *)
theory Vfs
  imports Tfs Device
begin

text \<open>
  \<^verbatim>\<open>fs/vfs.c\<close> and \<^verbatim>\<open>fs/filesystems.c\<close>: the virtual filesystem layer.

  A filesystem driver is the record \<open>fs_t\<close> of functions on the resources of the kernel; VFS
  holds pointers (addresses, 0 is NULL) to such records, and \<open>F a\<close> is the one at address \<open>a\<close>.
  \<open>vfs_t\<close> has the static variables of \<^verbatim>\<open>vfs.c\<close> next to these resources. A semaphore that
  could not be created is \<open>None\<close>. Each operation is one thread's view: waiting for a
  semaphore that nobody will release is \<open>Blocked\<close>. Only \<open>vfs_deinit\<close> waits for other threads:
  what they do in the meantime is its argument \<open>others\<close>. Messages to the console are left out.
\<close>

section \<open>The code\<close>

abbreviation (input) CONFIG_MAX_FILESYSTEMS :: nat where "CONFIG_MAX_FILESYSTEMS \<equiv> 8"
abbreviation (input) CONFIG_MAX_OPEN_FILES :: nat where "CONFIG_MAX_OPEN_FILES \<equiv> 512"

record 'x fs_t =
  volume_name :: "'x kworld \<Rightarrow> u8 list"
  fs_unmount :: "'x kworld \<Rightarrow> (int \<times> 'x kworld) res"
  fs_open :: "'x kworld \<Rightarrow> u8 list \<Rightarrow> (int \<times> 'x kworld) res"
  fs_close :: "'x kworld \<Rightarrow> int \<Rightarrow> (int \<times> 'x kworld) res"
  fs_read :: "'x kworld \<Rightarrow> int \<Rightarrow> u8 list \<Rightarrow> int \<Rightarrow> int \<Rightarrow> (int \<times> u8 list \<times> 'x kworld) res"
  fs_write :: "'x kworld \<Rightarrow> int \<Rightarrow> u8 list \<Rightarrow> int \<Rightarrow> int \<Rightarrow> (int \<times> 'x kworld) res"
  fs_create :: "'x kworld \<Rightarrow> u8 list \<Rightarrow> int \<Rightarrow> (int \<times> 'x kworld) res"
  fs_remove :: "'x kworld \<Rightarrow> u8 list \<Rightarrow> (int \<times> 'x kworld) res"
  fs_getfree :: "'x kworld \<Rightarrow> (int \<times> 'x kworld) res"

record vfs_entry_t =
  e_filesystem :: u32
  mountpoint :: "u8 list"

record openfile_entry_t =
  o_filesystem :: u32
  fileid :: int
  seek_position :: int

record 'x vfs_t =
  vk :: "'x kworld"
  vfs_table_sem :: "nat option"
  filesystems :: "vfs_entry_t list"
  openfile_table_sem :: "nat option"
  files :: "openfile_entry_t list"
  vfs_op_sem :: "nat option"
  vfs_unmount_sem :: "nat option"
  vfs_ops :: int
  vfs_usable :: int

definition sem_P :: "nat option \<Rightarrow> 'x vfs_t \<Rightarrow> 'x vfs_t res" where
  "sem_P sm v =
     (case sm of None \<Rightarrow> Inl Bad_access
      | Some i \<Rightarrow> rbind (ksem_P (sems (vk v)) i) (\<lambda>k. Inr (v\<lparr>vk := (vk v)\<lparr>sems := k\<rparr>\<rparr>)))"

definition sem_V :: "nat option \<Rightarrow> 'x vfs_t \<Rightarrow> 'x vfs_t res" where
  "sem_V sm v =
     (case sm of None \<Rightarrow> Inl Bad_access
      | Some i \<Rightarrow> rbind (ksem_V (sems (vk v)) i) (\<lambda>k. Inr (v\<lparr>vk := (vk v)\<lparr>sems := k\<rparr>\<rparr>)))"

definition sem_create :: "int \<Rightarrow> 'x vfs_t \<Rightarrow> nat option \<times> 'x vfs_t" where
  "sem_create i v = (let (sm, k) = ksem_create (sems (vk v)) i in (sm, v\<lparr>vk := (vk v)\<lparr>sems := k\<rparr>\<rparr>))"

definition vfs_init :: "'x vfs_t \<Rightarrow> 'x vfs_t res" where
  "vfs_init v =
     (let (s1, v) = sem_create 1 v; (s2, v) = sem_create 1 v in
      if s1 = None \<or> s2 = None then Inl Kernel_assert
      else
        let v = v\<lparr>vfs_table_sem := s1, openfile_table_sem := s2,
                  filesystems := map (\<lambda>e. e\<lparr>e_filesystem := 0\<rparr>) (filesystems v),
                  files := map (\<lambda>f. f\<lparr>o_filesystem := 0\<rparr>) (files v)\<rparr>;
            (s3, v) = sem_create 1 v; (s4, v) = sem_create 0 v in
        Inr (v\<lparr>vfs_op_sem := s3, vfs_unmount_sem := s4, vfs_ops := 0, vfs_usable := 1\<rparr>))"

text \<open>A call of a driver.\<close>

definition in_fs :: "('x kworld \<Rightarrow> (int \<times> 'x kworld) res) \<Rightarrow> 'x vfs_t \<Rightarrow> (int \<times> 'x vfs_t) res" where
  "in_fs m v = rbind (m (vk v)) (\<lambda>(r, w). Inr (r, v\<lparr>vk := w\<rparr>))"

fun unmount_rows :: "(u32 \<Rightarrow> 'x fs_t) \<Rightarrow> nat \<Rightarrow> nat \<Rightarrow> 'x vfs_t \<Rightarrow> 'x vfs_t res" where
  "unmount_rows F row 0 v = Inr v"
| "unmount_rows F row (Suc n) v =
     rbind (aget (filesystems v) (int row)) (\<lambda>e.
       if e_filesystem e \<noteq> 0 then
         rbind (in_fs (fs_unmount (F (e_filesystem e))) v) (\<lambda>(_, v).
           unmount_rows F (Suc row) n (v\<lparr>filesystems := (filesystems v)[row := e\<lparr>e_filesystem := 0\<rparr>]\<rparr>))
       else unmount_rows F (Suc row) n v)"

definition vfs_deinit :: "(u32 \<Rightarrow> 'x fs_t) \<Rightarrow> ('x vfs_t \<Rightarrow> 'x vfs_t res) \<Rightarrow> 'x vfs_t \<Rightarrow> 'x vfs_t res" where
  "vfs_deinit F others v =
     rbind (sem_P (vfs_op_sem v) v) (\<lambda>v.
     let v = v\<lparr>vfs_usable := 0\<rparr> in
     rbind (if vfs_ops v > 0 then
              rbind (sem_V (vfs_op_sem v) v) (\<lambda>v.
              rbind (others v) (\<lambda>v.
              rbind (sem_P (vfs_unmount_sem v) v) (\<lambda>v.
              rbind (sem_P (vfs_op_sem v) v) (\<lambda>v.
                if vfs_ops v = 0 then Inr v else Inl Kernel_assert))))
            else Inr v) (\<lambda>v.
     rbind (sem_P (vfs_table_sem v) v) (\<lambda>v.
     rbind (sem_P (openfile_table_sem v) v) (\<lambda>v.
     rbind (unmount_rows F 0 CONFIG_MAX_FILESYSTEMS v) (\<lambda>v.
     rbind (sem_V (openfile_table_sem v) v) (\<lambda>v.
     rbind (sem_V (vfs_table_sem v) v) (\<lambda>v.
       sem_V (vfs_op_sem v) v)))))))"

text \<open>The row of the mount table with a given name, 8 when there is none.\<close>

definition mount_row :: "'x vfs_t \<Rightarrow> u8 list \<Rightarrow> nat res" where
  "mount_row v name =
     first_indexR (\<lambda>e. rbind (stringcmp (mountpoint e) name) (\<lambda>d. Inr (d = 0))) (filesystems v)"

definition vfs_get_filesystem :: "'x vfs_t \<Rightarrow> u8 list \<Rightarrow> u32 res" where
  "vfs_get_filesystem v name =
     rbind (mount_row v name) (\<lambda>row.
       if row < CONFIG_MAX_FILESYSTEMS then Inr (e_filesystem (filesystems v ! row)) else Inr 0)"

text \<open>
  \<open>vfs_parse_pathname\<close>: the first loop gives either an early return or the rest of the path, the
  volume buffer and the position of its end; \<open>i\<close> is the loop counter and the position in the
  buffer, \<open>n\<close> the iterations left. On an error the buffers are not used by any caller.
\<close>

fun parse_volume :: "u8 list \<Rightarrow> u8 list \<Rightarrow> nat \<Rightarrow> nat \<Rightarrow> (int + u8 list \<times> u8 list \<times> nat) res" where
  "parse_volume p vb i 0 = Inr (Inl VFS_INVALID_PARAMS)"
| "parse_volume p vb i (Suc n) =
     rbind (aget p 0) (\<lambda>c.
       if c = 0 then Inr (Inl VFS_ERROR)
       else if c = 93 then Inr (Inr (drop 1 p, vb, i))
       else rbind (aset vb (int i) c) (\<lambda>vb. parse_volume (drop 1 p) vb (Suc i) n))"

fun parse_filename :: "u8 list \<Rightarrow> u8 list \<Rightarrow> nat \<Rightarrow> nat \<Rightarrow> (int \<times> u8 list) res" where
  "parse_filename p fb i 0 = Inr (VFS_INVALID_PARAMS, fb)"
| "parse_filename p fb i (Suc n) =
     rbind (aget p 0) (\<lambda>c.
     rbind (aset fb (int i) c) (\<lambda>fb.
       if c = 0 then Inr (if i = 0 then VFS_INVALID_PARAMS else VFS_OK, fb)
       else parse_filename (drop 1 p) fb (Suc i) n))"

definition vfs_parse_pathname :: "u8 list \<Rightarrow> u8 list \<Rightarrow> u8 list \<Rightarrow> (int \<times> u8 list \<times> u8 list) res" where
  "vfs_parse_pathname pathname volumebuf filenamebuf =
     rbind (aget pathname 0) (\<lambda>c.
     rbind (if c = 91 then parse_volume (drop 1 pathname) volumebuf 0 15 else Inr (Inr (pathname, volumebuf, 0))) (\<lambda>r.
       case r of
         Inl e \<Rightarrow> Inr (e, volumebuf, filenamebuf)
       | Inr (p, vb, i) \<Rightarrow>
           rbind (aset vb (int i) 0) (\<lambda>vb.
           rbind (parse_filename p filenamebuf 0 16) (\<lambda>(e, fb). Inr (e, vb, fb)))))"

definition vfs_start_op :: "'x vfs_t \<Rightarrow> (int \<times> 'x vfs_t) res" where
  "vfs_start_op v =
     rbind (sem_P (vfs_op_sem v) v) (\<lambda>v.
     let (ret, v) = (if vfs_usable v \<noteq> 0 then (VFS_OK, v\<lparr>vfs_ops := c_int (vfs_ops v + 1)\<rparr>) else (VFS_UNUSABLE, v)) in
     rbind (sem_V (vfs_op_sem v) v) (\<lambda>v. Inr (ret, v)))"

definition vfs_end_op :: "'x vfs_t \<Rightarrow> 'x vfs_t res" where
  "vfs_end_op v =
     rbind (sem_P (vfs_op_sem v) v) (\<lambda>v.
     let v = v\<lparr>vfs_ops := c_int (vfs_ops v - 1)\<rparr> in
     if \<not> vfs_ops v \<ge> 0 then Inl Kernel_assert
     else
       rbind (if vfs_usable v = 0 \<and> vfs_ops v = 0 then sem_V (vfs_unmount_sem v) v else Inr v) (\<lambda>v.
         sem_V (vfs_op_sem v) v))"

text \<open>\<^verbatim>\<open>vfs_end_op(); return r;\<close>\<close>

definition vfs_return :: "int \<Rightarrow> 'x vfs_t \<Rightarrow> (int \<times> 'x vfs_t) res" where
  "vfs_return r v = rbind (vfs_end_op v) (\<lambda>v. Inr (r, v))"

text \<open>\<^verbatim>\<open>if (vfs_start_op() != VFS_OK) return VFS_UNUSABLE;\<close>\<close>

definition vfs_begin :: "'x vfs_t \<Rightarrow> ('x vfs_t \<Rightarrow> (int \<times> 'x vfs_t) res) \<Rightarrow> (int \<times> 'x vfs_t) res" where
  "vfs_begin v k = rbind (vfs_start_op v) (\<lambda>(r, v). if r \<noteq> VFS_OK then Inr (VFS_UNUSABLE, v) else k v)"

definition vfs_mount :: "'x vfs_t \<Rightarrow> u32 \<Rightarrow> u8 list \<Rightarrow> (int \<times> 'x vfs_t) res" where
  "vfs_mount v fs name =
     rbind (aget name 0) (\<lambda>c.
     if c = 0 then Inl Kernel_assert
     else vfs_begin v (\<lambda>v.
       rbind (sem_P (vfs_table_sem v) v) (\<lambda>v.
       let row = first_index (\<lambda>e. e_filesystem e = 0) (filesystems v) in
       if row \<ge> CONFIG_MAX_FILESYSTEMS then rbind (sem_V (vfs_table_sem v) v) (vfs_return VFS_LIMIT)
       else
         rbind (mount_row v name) (\<lambda>i.
         if i < CONFIG_MAX_FILESYSTEMS then rbind (sem_V (vfs_table_sem v) v) (vfs_return VFS_ERROR)
         else
           rbind (stringcopy (mountpoint (filesystems v ! row)) name VFS_NAME_LENGTH) (\<lambda>mp.
             let v = v\<lparr>filesystems := (filesystems v)[row := \<lparr>e_filesystem = fs, mountpoint = mp\<rparr>]\<rparr> in
             rbind (sem_V (vfs_table_sem v) v) (vfs_return VFS_OK))))))"

text \<open>
  \<open>filesystems_try_all\<close> over the table of drivers, each an init function that takes the disk.
\<close>

fun filesystems_try_all ::
  "('g \<Rightarrow> 'x kworld \<Rightarrow> (u32 \<times> 'x kworld) res) list \<Rightarrow> 'g \<Rightarrow> 'x kworld \<Rightarrow> (u32 \<times> 'x kworld) res" where
  "filesystems_try_all [] disk w = Inr (0, w)"
| "filesystems_try_all (init # drivers) disk w =
     rbind (init disk w) (\<lambda>(fs, w). if fs \<noteq> 0 then Inr (fs, w) else filesystems_try_all drivers disk w)"

definition vfs_mount_fs ::
  "(u32 \<Rightarrow> 'x fs_t) \<Rightarrow> ('g \<Rightarrow> 'x kworld \<Rightarrow> (u32 \<times> 'x kworld) res) list \<Rightarrow> 'x vfs_t \<Rightarrow> 'g \<Rightarrow> u8 list option
     \<Rightarrow> (int \<times> 'x vfs_t) res" where
  "vfs_mount_fs F drivers v disk volumename =
     rbind (filesystems_try_all drivers disk (vk v)) (\<lambda>(fs, w).
     let v = v\<lparr>vk := w\<rparr> in
     if fs = 0 then Inr (VFS_NO_SUCH_FS, v)
     else
       let vname = (case volumename of None \<Rightarrow> volume_name (F fs) w | Some n \<Rightarrow> n) in
       rbind (aget vname 0) (\<lambda>c.
       if c = 0 then rbind (in_fs (fs_unmount (F fs)) v) (\<lambda>(_, v). Inr (VFS_INVALID_PARAMS, v))
       else
         rbind (vfs_mount v fs vname) (\<lambda>(ret, v).
           if ret = VFS_OK then Inr (ret, v)
           else rbind (in_fs (fs_unmount (F fs)) v) (\<lambda>(_, v). Inr (ret, v)))))"

fun mount_all_loop ::
  "(u32 \<Rightarrow> 'x fs_t) \<Rightarrow> ('g \<Rightarrow> 'x kworld \<Rightarrow> (u32 \<times> 'x kworld) res) list \<Rightarrow> 'g device_t list \<Rightarrow> nat \<Rightarrow> nat \<Rightarrow> 'x vfs_t \<Rightarrow> 'x vfs_t res" where
  "mount_all_loop F drivers devs i 0 v = Inr v"
| "mount_all_loop F drivers devs i (Suc n) v =
     (case device_get devs YAMS_TYPECODE_DISK i of
        None \<Rightarrow> Inr v
      | Some d \<Rightarrow>
          (case generic_device d of
             None \<Rightarrow> mount_all_loop F drivers devs (Suc i) n v
           | Some gbd \<Rightarrow>
               rbind (vfs_mount_fs F drivers v gbd None) (\<lambda>(_, v). mount_all_loop F drivers devs (Suc i) n v)))"

definition vfs_mount_all ::
  "(u32 \<Rightarrow> 'x fs_t) \<Rightarrow> ('g \<Rightarrow> 'x kworld \<Rightarrow> (u32 \<times> 'x kworld) res) list \<Rightarrow> 'g device_t list \<Rightarrow> 'x vfs_t \<Rightarrow> 'x vfs_t res" where
  "vfs_mount_all F drivers devs v = mount_all_loop F drivers devs 0 CONFIG_MAX_FILESYSTEMS v"

definition vfs_unmount :: "(u32 \<Rightarrow> 'x fs_t) \<Rightarrow> 'x vfs_t \<Rightarrow> u8 list \<Rightarrow> (int \<times> 'x vfs_t) res" where
  "vfs_unmount F v name =
     vfs_begin v (\<lambda>v.
     rbind (sem_P (vfs_table_sem v) v) (\<lambda>v.
     rbind (mount_row v name) (\<lambda>row.
     let fs = (if row < CONFIG_MAX_FILESYSTEMS then e_filesystem (filesystems v ! row) else 0) in
     if fs = 0 then rbind (sem_V (vfs_table_sem v) v) (vfs_return VFS_NOT_FOUND)
     else
       rbind (sem_P (openfile_table_sem v) v) (\<lambda>v.
       if \<exists>f \<in> set (files v). o_filesystem f = fs then
         rbind (sem_V (openfile_table_sem v) v) (\<lambda>v.
         rbind (sem_V (vfs_table_sem v) v) (vfs_return VFS_IN_USE))
       else
         rbind (in_fs (fs_unmount (F fs)) v) (\<lambda>(_, v).
         let v = v\<lparr>filesystems := (filesystems v)[row := (filesystems v ! row)\<lparr>e_filesystem := 0\<rparr>]\<rparr> in
         rbind (sem_V (openfile_table_sem v) v) (\<lambda>v.
         rbind (sem_V (vfs_table_sem v) v) (vfs_return VFS_OK)))))))"

text \<open>
  \<open>vb\<close> and \<open>fb\<close> are what the uninitialised arrays \<^verbatim>\<open>volumename\<close> and \<^verbatim>\<open>filename\<close> on
  the stack hold.
\<close>

definition vfs_open :: "(u32 \<Rightarrow> 'x fs_t) \<Rightarrow> u8 list \<Rightarrow> u8 list \<Rightarrow> 'x vfs_t \<Rightarrow> u8 list \<Rightarrow> (int \<times> 'x vfs_t) res" where
  "vfs_open F vb fb v pathname =
     vfs_begin v (\<lambda>v.
     rbind (vfs_parse_pathname pathname vb fb) (\<lambda>(e, volumename, filename).
     if e \<noteq> VFS_OK then vfs_return VFS_INVALID_PARAMS v
     else
       rbind (sem_P (vfs_table_sem v) v) (\<lambda>v.
       rbind (sem_P (openfile_table_sem v) v) (\<lambda>v.
       let file = first_index (\<lambda>f. o_filesystem f = 0) (files v) in
       if file \<ge> CONFIG_MAX_OPEN_FILES then
         rbind (sem_V (openfile_table_sem v) v) (\<lambda>v.
         rbind (sem_V (vfs_table_sem v) v) (vfs_return VFS_LIMIT))
       else
         rbind (vfs_get_filesystem v volumename) (\<lambda>fs.
         if fs = 0 then
           rbind (sem_V (openfile_table_sem v) v) (\<lambda>v.
           rbind (sem_V (vfs_table_sem v) v) (vfs_return VFS_NO_SUCH_FS))
         else
           let v = v\<lparr>files := (files v)[file := (files v ! file)\<lparr>o_filesystem := fs\<rparr>]\<rparr> in
           rbind (sem_V (openfile_table_sem v) v) (\<lambda>v.
           rbind (sem_V (vfs_table_sem v) v) (\<lambda>v.
           rbind (in_fs (\<lambda>w. fs_open (F fs) w filename) v) (\<lambda>(fid, v).
             if fid < 0 then
               rbind (sem_P (openfile_table_sem v) v) (\<lambda>v.
               let v = v\<lparr>files := (files v)[file := (files v ! file)\<lparr>o_filesystem := 0\<rparr>]\<rparr> in
               rbind (sem_V (openfile_table_sem v) v) (vfs_return fid))
             else
               let v = v\<lparr>files := (files v)[file := (files v ! file)\<lparr>fileid := fid, seek_position := 0\<rparr>]\<rparr> in
               vfs_return (int file) v))))))))"

definition vfs_verify_open :: "'x vfs_t \<Rightarrow> int \<Rightarrow> nat option" where
  "vfs_verify_open v file =
     (if file < 0 \<or> file \<ge> int CONFIG_MAX_OPEN_FILES then None
      else if o_filesystem (files v ! nat file) = 0 then None
      else Some (nat file))"

text \<open>
  The common start of the operations on an open file: when the file is not open they release the
  table and return, without ending the operation.
\<close>

definition with_open :: "'x vfs_t \<Rightarrow> int \<Rightarrow> ('x vfs_t \<Rightarrow> nat \<Rightarrow> (int \<times> 'x vfs_t) res) \<Rightarrow> (int \<times> 'x vfs_t) res" where
  "with_open v file k =
     rbind (sem_P (openfile_table_sem v) v) (\<lambda>v.
       case vfs_verify_open v file of
         None \<Rightarrow> rbind (sem_V (openfile_table_sem v) v) (\<lambda>v. Inr (VFS_NOT_OPEN, v))
       | Some h \<Rightarrow> k v h)"

definition vfs_close :: "(u32 \<Rightarrow> 'x fs_t) \<Rightarrow> 'x vfs_t \<Rightarrow> int \<Rightarrow> (int \<times> 'x vfs_t) res" where
  "vfs_close F v file =
     vfs_begin v (\<lambda>v. with_open v file (\<lambda>v h.
       rbind (in_fs (\<lambda>w. fs_close (F (o_filesystem (files v ! h))) w (fileid (files v ! h))) v) (\<lambda>(ret, v).
       let v = v\<lparr>files := (files v)[h := (files v ! h)\<lparr>o_filesystem := 0\<rparr>]\<rparr> in
       rbind (sem_V (openfile_table_sem v) v) (vfs_return ret))))"

definition vfs_seek :: "'x vfs_t \<Rightarrow> int \<Rightarrow> int \<Rightarrow> (int \<times> 'x vfs_t) res" where
  "vfs_seek v file pos =
     vfs_begin v (\<lambda>v.
       if \<not> pos \<ge> 0 then Inl Kernel_assert
       else with_open v file (\<lambda>v h.
         let v = v\<lparr>files := (files v)[h := (files v ! h)\<lparr>seek_position := pos\<rparr>]\<rparr> in
         rbind (sem_V (openfile_table_sem v) v) (vfs_return VFS_OK)))"

definition vfs_tell :: "'x vfs_t \<Rightarrow> int \<Rightarrow> (int \<times> 'x vfs_t) res" where
  "vfs_tell v file =
     vfs_begin v (\<lambda>v. with_open v file (\<lambda>v h.
       rbind (sem_V (openfile_table_sem v) v) (vfs_return (seek_position (files v ! h)))))"

text \<open>
  Reads and writes; a buffer that is NULL is \<open>None\<close>. The position advances by the number of
  bytes transferred. \<open>vfs_read\<close> also returns the buffer.
\<close>

definition advance :: "'x vfs_t \<Rightarrow> nat \<Rightarrow> int \<Rightarrow> 'x vfs_t res" where
  "advance v h ret =
     (if ret > 0 then
        rbind (sem_P (openfile_table_sem v) v) (\<lambda>v.
        let v = v\<lparr>files := (files v)[h := (files v ! h)\<lparr>seek_position := seek_position (files v ! h) + ret\<rparr>]\<rparr> in
        sem_V (openfile_table_sem v) v)
      else Inr v)"

definition read_in_fs ::
  "('x kworld \<Rightarrow> (int \<times> u8 list \<times> 'x kworld) res) \<Rightarrow> 'x vfs_t \<Rightarrow> (int \<times> u8 list \<times> 'x vfs_t) res" where
  "read_in_fs m v = rbind (m (vk v)) (\<lambda>(r, bf, w). Inr (r, bf, v\<lparr>vk := w\<rparr>))"

definition vfs_read ::
  "(u32 \<Rightarrow> 'x fs_t) \<Rightarrow> 'x vfs_t \<Rightarrow> int \<Rightarrow> u8 list option \<Rightarrow> int \<Rightarrow> (int \<times> u8 list option \<times> 'x vfs_t) res" where
  "vfs_read F v file buffer bufsize =
     (case buffer of
        None \<Rightarrow> Inr (VFS_INVALID_PARAMS, None, v)
      | Some bf \<Rightarrow>
          if bufsize < 0 then Inr (VFS_INVALID_PARAMS, Some bf, v)
          else
            rbind (vfs_start_op v) (\<lambda>(r, v).
            if r \<noteq> VFS_OK then Inr (VFS_UNUSABLE, Some bf, v)
            else
              rbind (sem_P (openfile_table_sem v) v) (\<lambda>v.
              case vfs_verify_open v file of
                None \<Rightarrow> rbind (sem_V (openfile_table_sem v) v) (\<lambda>v. Inr (VFS_NOT_OPEN, Some bf, v))
              | Some h \<Rightarrow>
                  let f = files v ! h in
                  rbind (sem_V (openfile_table_sem v) v) (\<lambda>v.
                  rbind (read_in_fs (\<lambda>w. fs_read (F (o_filesystem f)) w (fileid f) bf bufsize (seek_position f)) v) (\<lambda>(ret, bf, v).
                  rbind (advance v h ret) (\<lambda>v.
                  rbind (vfs_end_op v) (\<lambda>v. Inr (ret, Some bf, v))))))))"

definition vfs_write ::
  "(u32 \<Rightarrow> 'x fs_t) \<Rightarrow> 'x vfs_t \<Rightarrow> int \<Rightarrow> u8 list option \<Rightarrow> int \<Rightarrow> (int \<times> 'x vfs_t) res" where
  "vfs_write F v file buffer datasize =
     (case buffer of
        None \<Rightarrow> Inr (VFS_INVALID_PARAMS, v)
      | Some bf \<Rightarrow>
          if datasize < 0 then Inr (VFS_INVALID_PARAMS, v)
          else vfs_begin v (\<lambda>v. with_open v file (\<lambda>v h.
            let f = files v ! h in
            rbind (sem_V (openfile_table_sem v) v) (\<lambda>v.
            rbind (in_fs (\<lambda>w. fs_write (F (o_filesystem f)) w (fileid f) bf datasize (seek_position f)) v) (\<lambda>(ret, v).
            rbind (advance v h ret) (vfs_return ret))))))"

text \<open>The common part of the operations on a named file, under the lock of the mount table.\<close>

definition with_volume :: "'x vfs_t \<Rightarrow> u8 list \<Rightarrow> (u32 \<Rightarrow> 'x kworld \<Rightarrow> (int \<times> 'x kworld) res) \<Rightarrow> (int \<times> 'x vfs_t) res" where
  "with_volume v volumename call =
     rbind (sem_P (vfs_table_sem v) v) (\<lambda>v.
     rbind (vfs_get_filesystem v volumename) (\<lambda>fs.
     if fs = 0 then rbind (sem_V (vfs_table_sem v) v) (vfs_return VFS_NO_SUCH_FS)
     else
       rbind (in_fs (call fs) v) (\<lambda>(ret, v).
       rbind (sem_V (vfs_table_sem v) v) (vfs_return ret))))"

definition vfs_create :: "(u32 \<Rightarrow> 'x fs_t) \<Rightarrow> u8 list \<Rightarrow> u8 list \<Rightarrow> 'x vfs_t \<Rightarrow> u8 list \<Rightarrow> int \<Rightarrow> (int \<times> 'x vfs_t) res" where
  "vfs_create F vb fb v pathname sz =
     (if \<not> sz \<ge> 0 then Inl Kernel_assert
      else vfs_begin v (\<lambda>v.
        rbind (vfs_parse_pathname pathname vb fb) (\<lambda>(e, volumename, filename).
        if e \<noteq> VFS_OK then vfs_return VFS_INVALID_PARAMS v
        else with_volume v volumename (\<lambda>fs w. fs_create (F fs) w filename sz))))"

definition vfs_remove :: "(u32 \<Rightarrow> 'x fs_t) \<Rightarrow> u8 list \<Rightarrow> u8 list \<Rightarrow> 'x vfs_t \<Rightarrow> u8 list \<Rightarrow> (int \<times> 'x vfs_t) res" where
  "vfs_remove F vb fb v pathname =
     vfs_begin v (\<lambda>v.
        rbind (vfs_parse_pathname pathname vb fb) (\<lambda>(e, volumename, filename).
        if e \<noteq> VFS_OK then vfs_return VFS_INVALID_PARAMS v
        else with_volume v volumename (\<lambda>fs w. fs_remove (F fs) w filename)))"

definition vfs_getfree :: "(u32 \<Rightarrow> 'x fs_t) \<Rightarrow> 'x vfs_t \<Rightarrow> u8 list \<Rightarrow> (int \<times> 'x vfs_t) res" where
  "vfs_getfree F v filesystem = vfs_begin v (\<lambda>v. with_volume v filesystem (\<lambda>fs w. fs_getfree (F fs) w))"

end
