(* ===== verification/Tfs_Fs.thy ===== *)
theory Tfs_Fs
  imports Tfs
begin

text \<open>
  What the blocks of a TFS volume mean: the invariant \<open>fs_ok\<close> of the volume and the abstract
  view \<open>fs_map\<close>, a map from file names to contents. The lemmas here are about block contents
  alone; \<open>Tfs_Correct\<close> puts the operations on top of them.
\<close>

type_synonym blocks = "nat \<Rightarrow> u8 list"

definition used :: "blocks \<Rightarrow> nat \<Rightarrow> bool" where
  "used C i \<longleftrightarrow> dir_inode (C 2) i \<noteq> 0"

definition inode_of :: "blocks \<Rightarrow> nat \<Rightarrow> nat" where
  "inode_of C i = unat (dir_inode (C 2) i)"

definition name_bytes :: "blocks \<Rightarrow> nat \<Rightarrow> u8 list" where
  "name_bytes C i = take 16 (dir_name (C 2) i)"

definition entry_name :: "blocks \<Rightarrow> nat \<Rightarrow> u8 list" where
  "entry_name C i = takeWhile (\<lambda>c. c \<noteq> 0) (name_bytes C i)"

definition fsize :: "blocks \<Rightarrow> nat \<Rightarrow> nat" where
  "fsize C b = unat (inode_filesize (C b))"

definition nblk :: "nat \<Rightarrow> nat" where
  "nblk sz = (sz + 511) div 512"

definition blkw :: "u8 list \<Rightarrow> nat \<Rightarrow> u32" where
  "blkw ib j = rd32 ib (4 + 4 * j)"

definition blk :: "blocks \<Rightarrow> nat \<Rightarrow> nat \<Rightarrow> nat" where
  "blk C b j = unat (blkw (C b) j)"

text \<open>
  The blocks that an inode lists, up to the first zero; the contents of the file are in the first of
  them. There may be more blocks than the size of the file needs.
\<close>

definition alloc_blocks :: "blocks \<Rightarrow> nat \<Rightarrow> nat list" where
  "alloc_blocks C b = takeWhile (\<lambda>x. x \<noteq> 0) (map (blk C b) [0..<127])"

definition file_blocks :: "blocks \<Rightarrow> nat \<Rightarrow> nat list" where
  "file_blocks C b = take (nblk (fsize C b)) (alloc_blocks C b)"

definition file_data :: "blocks \<Rightarrow> nat \<Rightarrow> u8 list" where
  "file_data C b = take (fsize C b) (concat (map C (file_blocks C b)))"

definition owned :: "blocks \<Rightarrow> nat \<Rightarrow> nat list" where
  "owned C i = inode_of C i # alloc_blocks C (inode_of C i)"

definition entry_ok :: "nat \<Rightarrow> blocks \<Rightarrow> nat \<Rightarrow> bool" where
  "entry_ok tb C i \<longleftrightarrow> 0 \<in> set (name_bytes C i) \<and> entry_name C i \<noteq> [] \<and> fsize C (inode_of C i) \<le> 65024
     \<and> (\<forall>b \<in> set (owned C i). 3 \<le> b \<and> b < tb) \<and> distinct (owned C i)
     \<and> nblk (fsize C (inode_of C i)) \<le> length (alloc_blocks C (inode_of C i))"

definition fs_ok :: "nat \<Rightarrow> blocks \<Rightarrow> bool" where
  "fs_ok tb C \<longleftrightarrow> 3 \<le> tb \<and> tb \<le> 4096 \<and> (\<forall>b < tb. length (C b) = 512)
     \<and> (\<forall>i < 25. if used C i then entry_ok tb C i else C 2 ! (20 * i + 4) = 0)
     \<and> (\<forall>i < 25. \<forall>j < 25. used C i \<and> used C j \<and> i \<noteq> j \<longrightarrow>
          set (owned C i) \<inter> set (owned C j) = {} \<and> entry_name C i \<noteq> entry_name C j)
     \<and> (\<forall>b < tb. bm_bit (words_of (C 1)) b \<longleftrightarrow> b < 3 \<or> (\<exists>i < 25. used C i \<and> b \<in> set (owned C i)))"

definition fs_map :: "blocks \<Rightarrow> u8 list \<Rightarrow> u8 list option" where
  "fs_map C nm = map_option (\<lambda>i. file_data C (inode_of C i))
     (find (\<lambda>i. used C i \<and> entry_name C i = nm) [0..<25])"

text \<open>The blocks that no file uses.\<close>

definition fs_free :: "nat \<Rightarrow> blocks \<Rightarrow> nat set" where
  "fs_free tb C = {b. b < tb \<and> \<not> bm_bit (words_of (C 1)) b}"

section \<open>Looking files up\<close>

lemma fs_okD:
  assumes "fs_ok tb C"
  shows "3 \<le> tb" "tb \<le> 4096" "b < tb \<Longrightarrow> length (C b) = 512"
    "i < 25 \<Longrightarrow> used C i \<Longrightarrow> entry_ok tb C i" "i < 25 \<Longrightarrow> \<not> used C i \<Longrightarrow> C 2 ! (20 * i + 4) = 0"
    "i < 25 \<Longrightarrow> j < 25 \<Longrightarrow> used C i \<Longrightarrow> used C j \<Longrightarrow> i \<noteq> j \<Longrightarrow> set (owned C i) \<inter> set (owned C j) = {}"
    "i < 25 \<Longrightarrow> j < 25 \<Longrightarrow> used C i \<Longrightarrow> used C j \<Longrightarrow> entry_name C i = entry_name C j \<Longrightarrow> i = j"
    "b < tb \<Longrightarrow> bm_bit (words_of (C 1)) b \<longleftrightarrow> b < 3 \<or> (\<exists>i < 25. used C i \<and> b \<in> set (owned C i))"
proof -
  have 1: "3 \<le> tb" "tb \<le> 4096" "\<forall>b < tb. length (C b) = 512"
    and 2: "\<forall>i < 25. if used C i then entry_ok tb C i else C 2 ! (20 * i + 4) = 0"
    and 3: "\<forall>i < 25. \<forall>j < 25. used C i \<and> used C j \<and> i \<noteq> j \<longrightarrow>
          set (owned C i) \<inter> set (owned C j) = {} \<and> entry_name C i \<noteq> entry_name C j"
    and 4: "\<forall>b < tb. bm_bit (words_of (C 1)) b \<longleftrightarrow> b < 3 \<or> (\<exists>i < 25. used C i \<and> b \<in> set (owned C i))"
    using assms unfolding fs_ok_def by blast+
  show "3 \<le> tb" "tb \<le> 4096" "b < tb \<Longrightarrow> length (C b) = 512" using 1 by simp_all
  show "i < 25 \<Longrightarrow> used C i \<Longrightarrow> entry_ok tb C i" "i < 25 \<Longrightarrow> \<not> used C i \<Longrightarrow> C 2 ! (20 * i + 4) = 0"
    using spec [OF 2, of i] by simp_all
  show "i < 25 \<Longrightarrow> j < 25 \<Longrightarrow> used C i \<Longrightarrow> used C j \<Longrightarrow> i \<noteq> j \<Longrightarrow> set (owned C i) \<inter> set (owned C j) = {}"
    "i < 25 \<Longrightarrow> j < 25 \<Longrightarrow> used C i \<Longrightarrow> used C j \<Longrightarrow> entry_name C i = entry_name C j \<Longrightarrow> i = j"
    using spec [OF 3, of i] by blast+
  show "b < tb \<Longrightarrow> bm_bit (words_of (C 1)) b \<longleftrightarrow> b < 3 \<or> (\<exists>i < 25. used C i \<and> b \<in> set (owned C i))"
    using 4 by blast
qed

lemma find_eq_Some:
  assumes "i < n" "P i" "\<And>j. j < n \<Longrightarrow> P j \<Longrightarrow> j = i"
  shows "find P [0..<n] = Some i"
proof -
  obtain j where "find P [0..<n] = Some j"
    using assms(1,2) by (cases "find P [0..<n]") (auto simp: find_None_iff)
  moreover from this have "j < n" "P j" by (auto simp: find_Some_iff)
  ultimately show ?thesis using assms(3) by blast
qed

lemma fs_map_Some:
  assumes "fs_ok tb C" "i < 25" "used C i" "entry_name C i = nm"
  shows "fs_map C nm = Some (file_data C (inode_of C i))"
proof -
  have "find (\<lambda>i. used C i \<and> entry_name C i = nm) [0..<25] = Some i"
    using assms fs_okD(7) [OF assms(1)] by (intro find_eq_Some) auto
  then show ?thesis by (simp add: fs_map_def)
qed

lemma fs_map_None: "fs_map C nm = None \<longleftrightarrow> (\<forall>i < 25. used C i \<longrightarrow> entry_name C i \<noteq> nm)"
  by (auto simp: fs_map_def find_None_iff)

lemma fs_map_cases:
  assumes "fs_ok tb C"
  obtains i where "i < 25" "used C i" "entry_name C i = nm" "fs_map C nm = Some (file_data C (inode_of C i))"
  | "fs_map C nm = None" "\<forall>i < 25. used C i \<longrightarrow> entry_name C i \<noteq> nm"
  using fs_map_Some [OF assms] fs_map_None by (metis not_None_eq)

lemma cstr_takeWhile: "0 \<in> set (take n b) \<Longrightarrow> cstr (takeWhile (\<lambda>c. c \<noteq> 0) (take n b)) b"
proof (induction b arbitrary: n)
  case (Cons c b)
  then show ?case by (cases n) (auto split: if_splits)
qed simp

lemma dir_name_cstr:
  assumes ok: "fs_ok tb C" and i: "i < 25"
  shows "cstr (if used C i then entry_name C i else []) (dir_name (C 2) i)"
proof (cases "used C i")
  case True
  then show ?thesis using fs_okD(4) [OF ok i] cstr_takeWhile
    by (simp add: entry_ok_def entry_name_def name_bytes_def)
next
  case False
  have "length (C 2) = 512" using fs_okD(1,3) [OF ok] by simp
  then have "drop (20 * i + 4) (C 2) = C 2 ! (20 * i + 4) # drop (Suc (20 * i + 4)) (C 2)"
    using i by (intro Cons_nth_drop_Suc [symmetric]) simp
  then have "dir_name (C 2) i = 0 # drop (Suc (20 * i + 4)) (C 2)"
    using fs_okD(5) [OF ok i False] by (simp add: dir_name_def)
  then show ?thesis using False by simp
qed

lemma dir_compare:
  assumes ok: "fs_ok tb C" and i: "i < 25" and nm: "cstr nm fname" "nm \<noteq> []"
  shows "\<exists>d. stringcmp (dir_name (C 2) i) fname = Inr d \<and> (d = 0 \<longleftrightarrow> used C i \<and> entry_name C i = nm)"
proof -
  note c = dir_name_cstr [OF ok i]
  obtain d where d: "stringcmp (dir_name (C 2) i) fname = Inr d" using stringcmp_total [OF c nm(1)] by blast
  moreover have "d = 0 \<longleftrightarrow> (if used C i then entry_name C i else []) = nm"
    using stringcmp_eq [OF c nm(1)] d by simp
  ultimately show ?thesis using nm(2) by auto
qed

lemma dir_search_eq:
  assumes ok: "fs_ok tb C" and nm: "cstr nm fname" "nm \<noteq> []"
  shows "dir_search (C 2) fname = Inr (first_index (\<lambda>i. used C i \<and> entry_name C i = nm) [0..<25])"
  unfolding dir_search_def
proof (rule first_indexR_total)
  fix i assume "i \<in> set [0..<25]"
  then have "i < 25" by simp
  from dir_compare [OF ok this nm] obtain d where
    "stringcmp (dir_name (C 2) i) fname = Inr d" "d = 0 \<longleftrightarrow> used C i \<and> entry_name C i = nm" by blast
  then show "rbind (stringcmp (dir_name (C 2) i) fname) (\<lambda>d. Inr (d = 0)) = Inr (used C i \<and> entry_name C i = nm)"
    by simp
qed

lemma dir_search_found:
  assumes ok: "fs_ok tb C" and nm: "cstr nm fname" "nm \<noteq> []" and i: "i < 25" "used C i" "entry_name C i = nm"
  shows "dir_search (C 2) fname = Inr i"
proof -
  have "first_index (\<lambda>i. used C i \<and> entry_name C i = nm) [0..<25] = i"
  proof (rule first_index_unique)
    fix j assume "j < i"
    then show "\<not> (used C ([0..<25] ! j) \<and> entry_name C ([0..<25] ! j) = nm)"
      using i fs_okD(7) [OF ok, of j i] by auto
  qed (use i in auto)
  then show ?thesis using dir_search_eq [OF ok nm] by simp
qed

lemma dir_search_none:
  assumes ok: "fs_ok tb C" and nm: "cstr nm fname" "nm \<noteq> []" and n: "fs_map C nm = None"
  shows "dir_search (C 2) fname = Inr 25"
proof -
  have "first_index (\<lambda>i. used C i \<and> entry_name C i = nm) [0..<25] = length [0..<25::nat]"
    using n by (subst first_index_eq_length_iff) (auto simp: fs_map_None)
  then show ?thesis using dir_search_eq [OF ok nm] by simp
qed

lemma create_scan_eq:
  assumes ok: "fs_ok tb C" and nm: "cstr nm fname" "nm \<noteq> []"
  shows "i + n = 25 \<Longrightarrow> create_scan (C 2) fname i n ix =
    Inr (if \<exists>j. i \<le> j \<and> j < 25 \<and> used C j \<and> entry_name C j = nm then None
         else Some (foldl (\<lambda>ix j. if used C j then ix else int j) ix [i..<25]))"
proof (induction n arbitrary: i ix)
  case (Suc n)
  then have i: "i < 25" by simp
  from dir_compare [OF ok this nm] obtain d where d:
    "stringcmp (dir_name (C 2) i) fname = Inr d" "d = 0 \<longleftrightarrow> used C i \<and> entry_name C i = nm" by blast
  have u: "dir_inode (C 2) i = 0 \<longleftrightarrow> \<not> used C i" by (simp add: used_def)
  have split: "(\<exists>j. i \<le> j \<and> j < 25 \<and> used C j \<and> entry_name C j = nm) \<longleftrightarrow>
      (used C i \<and> entry_name C i = nm) \<or> (\<exists>j. Suc i \<le> j \<and> j < 25 \<and> used C j \<and> entry_name C j = nm)"
    using i by (metis Suc_le_eq le_eq_less_or_eq)
  have fold: "foldl (\<lambda>ix j. if used C j then ix else int j) ix [i..<25] =
      foldl (\<lambda>ix j. if used C j then ix else int j) (if \<not> used C i then int i else ix) [Suc i..<25]"
    using i by (subst upt_conv_Cons) auto
  show ?case
    using d Suc.IH [of "Suc i"] Suc.prems unfolding split fold by (auto simp: u)
qed simp

text \<open>The directory slot that \<open>tfs_create\<close> picks is the last free one.\<close>

definition last_free :: "blocks \<Rightarrow> int" where
  "last_free C = foldl (\<lambda>ix j. if used C j then ix else int j) (-1) [0..<25]"

lemma last_free_cases:
  "(\<exists>i < 25. last_free C = int i \<and> \<not> used C i) \<or> (last_free C = -1 \<and> (\<forall>i < 25. used C i))"
proof -
  have "(\<exists>i < n. foldl (\<lambda>ix j. if used C j then ix else int j) (-1) [0..<n] = int i \<and> \<not> used C i)
      \<or> (foldl (\<lambda>ix j. if used C j then ix else int j) (-1) [0..<n] = -1 \<and> (\<forall>i < n. used C i))" for n
    by (induction n) (auto simp: less_Suc_eq)
  from this [of 25] show ?thesis by (simp add: last_free_def)
qed

section \<open>What an entry depends on\<close>

lemma alloc_blocks_le: "length (alloc_blocks C b) \<le> 127"
  using length_takeWhile_le [of "\<lambda>x. x \<noteq> 0" "map (blk C b) [0..<127]"] by (simp add: alloc_blocks_def)

lemma alloc_blocks_nth: "j < length (alloc_blocks C b) \<Longrightarrow> alloc_blocks C b ! j = blk C b j"
  using alloc_blocks_le [of C b] takeWhile_nth [of j "\<lambda>x. x \<noteq> 0" "map (blk C b) [0..<127]"]
  by (simp add: alloc_blocks_def)

lemma set_alloc_blocks: "set (alloc_blocks C b) = blk C b ` {0..<length (alloc_blocks C b)}"
proof -
  have "map (blk C b) [0..<length (alloc_blocks C b)] = alloc_blocks C b"
    using alloc_blocks_nth [of _ C b] by (intro nth_equalityI) simp_all
  then show ?thesis by (metis list.set_map set_upt)
qed

lemma alloc_blocks_end: "length (alloc_blocks C b) < 127 \<Longrightarrow> blk C b (length (alloc_blocks C b)) = 0"
  using nth_length_takeWhile [of "\<lambda>x. x \<noteq> 0" "map (blk C b) [0..<127]"] by (simp add: alloc_blocks_def)

lemma alloc_blocks_eq:
  assumes "length bl \<le> 127" "\<And>j. j < length bl \<Longrightarrow> blk C b j = bl ! j" "0 \<notin> set bl" "length bl < 127 \<Longrightarrow> blk C b (length bl) = 0"
  shows "alloc_blocks C b = bl"
proof -
  have "[0..<127] = [0..<length bl] @ [length bl..<127]"
    using assms(1) upt_add_eq_append [of 0 "length bl" "127 - length bl"] by simp
  moreover have "map (blk C b) [0..<length bl] = bl" using assms(2) by (auto intro!: nth_equalityI)
  ultimately have "map (blk C b) [0..<127] = bl @ map (blk C b) [length bl..<127]" by (metis map_append)
  moreover have "takeWhile (\<lambda>x. x \<noteq> 0) (map (blk C b) [length bl..<127]) = []"
    using assms(1,4) by (cases "length bl < 127") (simp_all add: upt_conv_Cons)
  moreover have "takeWhile (\<lambda>x. x \<noteq> 0) (bl @ xs) = bl @ takeWhile (\<lambda>x. x \<noteq> 0) xs" for xs
    using assms(3) by (intro takeWhile_append2) (auto intro: gr0I)
  ultimately show ?thesis by (simp add: alloc_blocks_def)
qed

lemma alloc_blocks_cong: "C' b = C b \<Longrightarrow> alloc_blocks C' b = alloc_blocks C b"
  by (simp add: alloc_blocks_def blk_def [abs_def])

lemma file_blocks_sub: "set (file_blocks C b) \<subseteq> set (alloc_blocks C b)"
  by (auto simp: file_blocks_def dest: in_set_takeD)

lemma file_blocks_nth:
  assumes "nblk (fsize C b) \<le> length (alloc_blocks C b)"
  shows "length (file_blocks C b) = nblk (fsize C b)" "j < nblk (fsize C b) \<Longrightarrow> file_blocks C b ! j = blk C b j"
  using assms alloc_blocks_nth [of j C b] by (simp_all add: file_blocks_def)

lemma entry_frame:
  assumes e: "dir_inode (C' 2) i = dir_inode (C 2) i" "name_bytes C' i = name_bytes C i"
    and b: "\<And>b. b \<in> set (owned C i) \<Longrightarrow> C' b = C b"
  shows "used C' i = used C i" "inode_of C' i = inode_of C i" "entry_name C' i = entry_name C i"
    "owned C' i = owned C i" "file_data C' (inode_of C i) = file_data C (inode_of C i)" "entry_ok tb C' i = entry_ok tb C i"
proof -
  show u: "used C' i = used C i" and i: "inode_of C' i = inode_of C i" and nm: "entry_name C' i = entry_name C i"
    using e by (simp_all add: used_def inode_of_def entry_name_def)
  have ib: "C' (inode_of C i) = C (inode_of C i)" using b by (simp add: owned_def)
  then have ab: "alloc_blocks C' (inode_of C i) = alloc_blocks C (inode_of C i)" by (rule alloc_blocks_cong)
  then have fb: "file_blocks C' (inode_of C i) = file_blocks C (inode_of C i)"
    by (simp add: file_blocks_def fsize_def ib)
  show o: "owned C' i = owned C i" using i ab by (simp add: owned_def)
  have "map C' (file_blocks C (inode_of C i)) = map C (file_blocks C (inode_of C i))"
    using b file_blocks_sub [of C "inode_of C i"] by (auto simp: owned_def)
  then show "file_data C' (inode_of C i) = file_data C (inode_of C i)"
    unfolding file_data_def fsize_def fb ib by (rule arg_cong)
  show "entry_ok tb C' i = entry_ok tb C i"
    using e(2) o i ib nm ab by (simp add: entry_ok_def fsize_def)
qed


text \<open>\<open>same_entry\<close>: entry \<open>j\<close> reads the same in both volumes.\<close>

definition same_entry :: "blocks \<Rightarrow> blocks \<Rightarrow> nat \<Rightarrow> bool" where
  "same_entry C C' j \<longleftrightarrow> dir_inode (C' 2) j = dir_inode (C 2) j \<and> name_bytes C' j = name_bytes C j
     \<and> (used C j \<longrightarrow> (\<forall>b \<in> set (owned C j). C' b = C b))"

lemma same_entryD:
  assumes "same_entry C C' j"
  shows "used C' j = used C j" "inode_of C' j = inode_of C j" "entry_name C' j = entry_name C j"
    "used C j \<Longrightarrow> owned C' j = owned C j"
    "used C j \<Longrightarrow> file_data C' (inode_of C' j) = file_data C (inode_of C j)"
    "used C j \<Longrightarrow> entry_ok tb C' j = entry_ok tb C j"
proof -
  show u: "used C' j = used C j" and i: "inode_of C' j = inode_of C j" and "entry_name C' j = entry_name C j"
    using assms by (simp_all add: same_entry_def used_def inode_of_def entry_name_def)
  assume "used C j"
  with assms have "dir_inode (C' 2) j = dir_inode (C 2) j" "name_bytes C' j = name_bytes C j"
    "\<And>b. b \<in> set (owned C j) \<Longrightarrow> C' b = C b" by (auto simp: same_entry_def)
  note f = entry_frame [OF this]
  show "owned C' j = owned C j" by (rule f)
  show "entry_ok tb C' j = entry_ok tb C j" by (rule f)
  show "file_data C' (inode_of C' j) = file_data C (inode_of C j)" unfolding i by (rule f)
qed

lemma same_entry_first:
  assumes "name_bytes C' j = name_bytes C j" "length (C 2) = 512" "length (C' 2) = 512" "j < 25"
  shows "C' 2 ! (20 * j + 4) = C 2 ! (20 * j + 4)"
proof -
  have "name_bytes C' j ! 0 = C' 2 ! (20 * j + 4)" "name_bytes C j ! 0 = C 2 ! (20 * j + 4)"
    using assms(2-4) by (simp_all add: name_bytes_def dir_name_def)
  then show ?thesis using assms(1) by simp
qed

text \<open>
  Changing one entry of a volume.
\<close>

lemma fs_ok_change:
  assumes ok: "fs_ok tb C" and i: "i < 25"
    and same: "\<And>j. j < 25 \<Longrightarrow> j \<noteq> i \<Longrightarrow> same_entry C C' j"
    and len: "\<And>b. b < tb \<Longrightarrow> length (C' b) = 512"
    and new: "if used C' i then entry_ok tb C' i \<and> (\<forall>j < 25. j \<noteq> i \<and> used C j \<longrightarrow>
        set (owned C' i) \<inter> set (owned C j) = {} \<and> entry_name C' i \<noteq> entry_name C j)
      else C' 2 ! (20 * i + 4) = 0"
    and bits: "\<And>b. b < tb \<Longrightarrow> bm_bit (words_of (C' 1)) b \<longleftrightarrow>
      b < 3 \<or> (\<exists>j < 25. j \<noteq> i \<and> used C j \<and> b \<in> set (owned C j)) \<or> (used C' i \<and> b \<in> set (owned C' i))"
  shows "fs_ok tb C'"
  unfolding fs_ok_def
proof (intro conjI allI impI)
  show "3 \<le> tb" "tb \<le> 4096" using fs_okD [OF ok] by auto
  show "length (C' b) = 512" if "b < tb" for b using len that .
  show "if used C' j then entry_ok tb C' j else C' 2 ! (20 * j + 4) = 0" if j: "j < 25" for j
  proof (cases "j = i")
    case False
    note s = same [OF j False]
    have l: "length (C 2) = 512" "length (C' 2) = 512" using fs_okD(1,3) [OF ok] len by auto
    show ?thesis
      using same_entryD [OF s] same_entry_first [of C' j C] l j s fs_okD(4,5) [OF ok j] by (auto simp: same_entry_def)
  qed (use new in simp)
  fix j k assume j: "j < 25" and k: "k < 25" and jk: "used C' j \<and> used C' k \<and> j \<noteq> k"
  have "set (owned C' j) \<inter> set (owned C' k) = {} \<and> entry_name C' j \<noteq> entry_name C' k"
    if "j \<noteq> i" "k \<noteq> i"
    using same_entryD [OF same [OF j that(1)]] same_entryD [OF same [OF k that(2)]] jk
      fs_okD(6,7) [OF ok j k] by auto
  moreover have "set (owned C' j) \<inter> set (owned C' k) = {} \<and> entry_name C' j \<noteq> entry_name C' k"
    if "j = i"
    using that new same_entryD [OF same [OF k]] jk k by auto
  moreover have "set (owned C' j) \<inter> set (owned C' k) = {} \<and> entry_name C' j \<noteq> entry_name C' k"
    if "k = i"
  proof -
    have "j \<noteq> i" using jk that by simp
    note s = same_entryD [OF same [OF j this]]
    then have "set (owned C' i) \<inter> set (owned C j) = {} \<and> entry_name C' i \<noteq> entry_name C j"
      using new jk j that \<open>j \<noteq> i\<close> by simp
    then show ?thesis using s jk that by auto
  qed
  ultimately show "set (owned C' j) \<inter> set (owned C' k) = {}" "entry_name C' j \<noteq> entry_name C' k" by blast+
next
  fix b assume b: "b < tb"
  have "(\<exists>j < 25. used C' j \<and> b \<in> set (owned C' j)) \<longleftrightarrow>
      (\<exists>j < 25. j \<noteq> i \<and> used C j \<and> b \<in> set (owned C j)) \<or> (used C' i \<and> b \<in> set (owned C' i))"
    using i same_entryD [OF same] by metis
  then show "bm_bit (words_of (C' 1)) b \<longleftrightarrow> b < 3 \<or> (\<exists>j < 25. used C' j \<and> b \<in> set (owned C' j))"
    using bits [OF b] by blast
qed

lemma fs_map_change:
  assumes ok: "fs_ok tb C" "fs_ok tb C'" and i: "i < 25"
    and same: "\<And>j. j < 25 \<Longrightarrow> j \<noteq> i \<Longrightarrow> same_entry C C' j"
    and nm: "used C i \<Longrightarrow> entry_name C i = nm" "used C' i \<Longrightarrow> entry_name C' i = nm"
    and other: "\<And>j. j < 25 \<Longrightarrow> j \<noteq> i \<Longrightarrow> used C j \<Longrightarrow> entry_name C j \<noteq> nm"
  shows "fs_map C' = (fs_map C)(nm := if used C' i then Some (file_data C' (inode_of C' i)) else None)"
proof
  fix x
  show "fs_map C' x = ((fs_map C)(nm := if used C' i then Some (file_data C' (inode_of C' i)) else None)) x"
  proof (cases "x = nm")
    case True
    have "entry_name C' j \<noteq> nm" if "j < 25" "j \<noteq> i" "used C' j" for j
      using other that same_entryD [OF same [OF that(1,2)]] by simp
    then have "fs_map C' nm = None" if "\<not> used C' i" using that by (auto simp: fs_map_None)
    moreover have "fs_map C' nm = Some (file_data C' (inode_of C' i))" if "used C' i"
      using fs_map_Some [OF ok(2) i that] nm(2) that by simp
    ultimately show ?thesis using True by simp
  next
    case False
    show ?thesis
    proof (rule fs_map_cases [OF ok(1), of x])
      fix j assume j: "j < 25" "used C j" "entry_name C j = x" "fs_map C x = Some (file_data C (inode_of C j))"
      then have "j \<noteq> i" using nm False by blast
      note s = same_entryD [OF same [OF j(1) this]]
      have "fs_map C' x = Some (file_data C' (inode_of C' j))"
        using s j by (intro fs_map_Some [OF ok(2) j(1)]) auto
      then show ?thesis using s(5) j False by simp
    next
      assume n: "fs_map C x = None" "\<forall>j < 25. used C j \<longrightarrow> entry_name C j \<noteq> x"
      have "entry_name C' j \<noteq> x" if "j < 25" "used C' j" for j
        using that n(2) False nm(2) same_entryD [OF same [OF that(1)]] by (cases "j = i") auto
      then have "fs_map C' x = None" by (simp add: fs_map_None)
      then show ?thesis using n(1) False by simp
    qed
  qed
qed

text \<open>
  A volume without files.
\<close>

lemma fs_ok_empty:
  assumes "3 \<le> tb" "tb \<le> 4096" "\<And>b. b < tb \<Longrightarrow> length (C b) = 512" "C 2 = replicate 512 0"
    and "\<And>b. b < tb \<Longrightarrow> bm_bit (words_of (C 1)) b = (b < 3)"
  shows "fs_ok tb C" "fs_map C = Map.empty"
proof -
  have "rd32 (replicate 512 0) (20 * i) = 0" if "i < 25" for i :: nat
    using that by (simp add: rd32_def word_of_bytes_def)
  then have un: "\<not> used C i" if "i < 25" for i using that assms(4) by (simp add: used_def dir_inode_def)
  then show "fs_ok tb C" using assms unfolding fs_ok_def by auto
  show "fs_map C = Map.empty" using un by (intro ext) (simp add: fs_map_None)
qed

section \<open>Changes of the directory block\<close>

definition outside_entry :: "u8 list \<Rightarrow> u8 list \<Rightarrow> nat \<Rightarrow> bool" where
  "outside_entry md md' i \<longleftrightarrow> length md' = 512 \<and> (\<forall>k < 512. k < 20 * i \<or> 20 * i + 20 \<le> k \<longrightarrow> md' ! k = md ! k)"

lemma outside_entry_trans:
  "outside_entry md md' i \<Longrightarrow> outside_entry md' md'' i \<Longrightarrow> outside_entry md md'' i"
  by (simp add: outside_entry_def)

lemma outside_entry_wr32: "length md = 512 \<Longrightarrow> i < 25 \<Longrightarrow> outside_entry md (wr32 md (20 * i) w) i"
  by (simp add: outside_entry_def nth_wr32_other)

lemma outside_entry_same:
  assumes "length (C 2) = 512" "outside_entry (C 2) (C' 2) i" "j < 25" "j \<noteq> i"
  shows "dir_inode (C' 2) j = dir_inode (C 2) j" "name_bytes C' j = name_bytes C j"
proof -
  have e: "C' 2 ! (20 * j + k) = C 2 ! (20 * j + k)" if "k < 20" for k
  proof -
    have "20 * j + k < 20 * i \<or> 20 * i + 20 \<le> 20 * j + k" "20 * j + k < 512" using assms(3,4) that by linarith+
    then show ?thesis using assms(2) unfolding outside_entry_def by blast
  qed
  from e [of 0] e [of 1] e [of 2] e [of 3] show "dir_inode (C' 2) j = dir_inode (C 2) j"
    by (simp add: dir_inode_def rd32_def)
  have l: "length (C' 2) = 512" using assms(2) by (simp add: outside_entry_def)
  have "20 * j + 4 + k = 20 * j + (4 + k)" for k by simp
  then show "name_bytes C' j = name_bytes C j"
    using e assms(1,3) l unfolding name_bytes_def dir_name_def
    by (intro nth_equalityI) (auto simp: add.assoc)
qed

lemma put_name_eq:
  assumes md: "length md = 512" "i < 25" and nm: "cstr nm fname" "length nm \<le> 15"
  shows "\<exists>md'. put_name md i fname = Inr md' \<and> outside_entry md md' i \<and> dir_inode md' i = dir_inode md i
    \<and> take (Suc (length nm)) (dir_name md' i) = nm @ [0]"
proof -
  have l: "length (dir_name md i) = 508 - 20 * i" using md by (simp add: dir_name_def)
  then have ge: "16 \<le> length (dir_name md i)" using md by simp
  have "stringcopy (dir_name md i) fname 16 = Inr (nm @ 0 # drop (Suc (length nm)) (dir_name md i))"
    using stringcopy_loop_cstr [of nm fname 0 16 "dir_name md i"] nm ge by (simp add: stringcopy_def)
  then have p: "put_name md i fname = Inr (take (20 * i + 4) md @ nm @ 0 # drop (Suc (length nm)) (dir_name md i))"
    (is "_ = Inr ?md") by (simp add: put_name_def)
  have lt: "length (take (20 * i + 4) md) = 20 * i + 4" using md by simp
  have "?md ! k = md ! k" if "k < 20 * i + 4 \<or> 20 * i + 20 \<le> k" "k < 512" for k
  proof (cases "k < 20 * i + 4")
    case False
    with that have k: "20 * i + 20 \<le> k" by simp
    then obtain d where d: "k = 20 * i + 4 + (Suc (length nm) + d)" using nm(2) le_Suc_ex [of "20 * i + 4 + Suc (length nm)" k] by auto
    have "?md ! k = (nm @ 0 # drop (Suc (length nm)) (dir_name md i)) ! (Suc (length nm) + d)"
      unfolding d using nth_append_length_plus [of "take (20 * i + 4) md"] lt by metis
    also have "\<dots> = drop (Suc (length nm)) (dir_name md i) ! d" by (simp add: nth_append)
    also have "\<dots> = md ! k" using md d that(2) by (simp add: dir_name_def add.commute add.left_commute)
    finally show ?thesis .
  qed (use md that in \<open>simp add: nth_append\<close>)
  moreover have "length ?md = 512" using md nm(2) l by simp
  ultimately have out: "outside_entry md ?md i" and pre: "\<And>k. k < 4 \<Longrightarrow> ?md ! (20 * i + k) = md ! (20 * i + k)"
    using md(2) by (simp_all add: outside_entry_def)
  have "dir_inode ?md i = dir_inode md i"
    using pre [of 0] pre [of 1] pre [of 2] pre [of 3] unfolding dir_inode_def rd32_def by simp
  moreover have "take (Suc (length nm)) (dir_name ?md i) = nm @ [0]"
    unfolding dir_name_def using lt by simp
  ultimately show ?thesis using p out by blast
qed

lemma entry_name_eq:
  assumes "take (Suc (length nm)) (dir_name (C 2) i) = nm @ [0]" "0 \<notin> set nm" "length nm \<le> 15"
  shows "entry_name C i = nm" "0 \<in> set (name_bytes C i)"
proof -
  obtain rest where r: "dir_name (C 2) i = nm @ 0 # rest"
    using assms(1) append_take_drop_id [of "Suc (length nm)" "dir_name (C 2) i"] by (metis append.assoc append_Cons append_Nil)
  have "name_bytes C i = nm @ 0 # take (15 - length nm) rest"
    using assms(3) by (simp add: name_bytes_def r take_Cons' Suc_diff_le)
  moreover have "takeWhile (\<lambda>c. c \<noteq> 0) (nm @ 0 # take (15 - length nm) rest) = nm"
    using assms(2) by (subst takeWhile_append2) auto
  ultimately show "entry_name C i = nm" "0 \<in> set (name_bytes C i)"
    by (simp_all add: entry_name_def)
qed


section \<open>Allocating and freeing blocks\<close>

lemma sint_small: "unat (x :: u32) < 2 ^ 31 \<Longrightarrow> sint x = int (unat x)"
proof -
  assume "unat x < 2 ^ 31"
  then have "int (unat x) < int (2 ^ 31)" by (simp only: of_nat_less_iff)
  then have "uint x < 2 ^ 31" by simp
  moreover have "- (2 ^ 31) \<le> uint x" by (rule order_trans [OF _ unsigned_greater_eq]) simp
  ultimately have "signed_take_bit 31 (uint x) = uint x" by (intro signed_take_bit_int_eq_self)
  then show ?thesis by (simp add: sint_uint)
qed

lemma sint_of_nat: "n < 2 ^ 31 \<Longrightarrow> sint (of_nat n :: u32) = int n"
  by (subst sint_small) (simp_all add: unat_of_nat)

lemma covers_length: "(\<And>m. bm_covers b' m = bm_covers b m) \<Longrightarrow> length b' = length b"
  unfolding bm_covers_def by (metis le_refl mult_le_cancel1 order_antisym zero_less_numeral)

lemma blkw_wr32:
  assumes "length ib = 512" "i < 127" "j < 127"
  shows "blkw (wr32 ib (4 + 4 * i) w) j = (if j = i then w else blkw ib j)"
proof (cases "j = i")
  case False
  then have "(4 + 4 * j) + 4 \<le> 4 + 4 * i \<or> (4 + 4 * i) + 4 \<le> 4 + 4 * j" by arith
  then show ?thesis using False assms by (simp add: blkw_def rd32_wr32_other)
qed (use assms in \<open>simp add: blkw_def rd32_wr32_same\<close>)

lemma size_wr32: "length ib = 512 \<Longrightarrow> i < 127 \<Longrightarrow> rd32 (wr32 ib (4 + 4 * i) w) 0 = rd32 ib 0"
  by (simp add: rd32_wr32_other)

lemma claim_step:
  assumes "bm_covers bat tb" "0 < bm.free_count bat tb"
  shows "\<exists>p bat'. bitmap_findnset bat (int tb) = Inr (int p, bat') \<and> p \<in> bm.free_slots bat tb
    \<and> bm_covers bat' tb \<and> length bat' = length bat \<and> (\<forall>q. bm_bit bat' q = (q = p \<or> bm_bit bat q))
    \<and> bm.free_slots bat' tb = bm.free_slots bat tb - {p} \<and> bm.free_count bat' tb = bm.free_count bat tb - 1"
proof -
  from bm.claim_ok [OF assms] obtain p bat' where *: "bitmap_findnset bat (int tb) = Inr (int p, bat')" "p < tb" "\<not> bm_bit bat p"
    "\<forall>m. bm_covers bat' m = bm_covers bat m" "\<forall>q. bm_bit bat' q = (q = p \<or> bm_bit bat q)"
    "bm.free_count bat' tb = bm.free_count bat tb - 1" by blast
  then have "length bat' = length bat" using covers_length by blast
  with * assms(1) show ?thesis
    by (intro exI [of _ p] exI [of _ bat']) (auto simp: bm.free_slots_def)
qed

lemma alloc_loop_ok:
  assumes "bm_covers bat tb" "tb \<le> 4096" "length ib = 512" "i + n \<le> 127" "n \<le> bm.free_count bat tb"
  shows "\<exists>bl bat' ib'. alloc_loop bat (of_nat tb) ib i n = Inr (True, bat', ib') \<and> length bl = n \<and> distinct bl
    \<and> set bl \<subseteq> bm.free_slots bat tb \<and> length bat' = length bat \<and> (\<forall>q. bm_bit bat' q = (q \<in> set bl \<or> bm_bit bat q))
    \<and> length ib' = 512 \<and> rd32 ib' 0 = rd32 ib 0
    \<and> (\<forall>j < 127. blkw ib' j = (if i \<le> j \<and> j < i + n then of_nat (bl ! (j - i)) else blkw ib j))"
  using assms
proof (induction n arbitrary: bat ib i)
  case 0
  then show ?case by auto
next
  case (Suc n)
  obtain p bat1 where p: "bitmap_findnset bat (int tb) = Inr (int p, bat1)" "p \<in> bm.free_slots bat tb"
    "bm_covers bat1 tb" "length bat1 = length bat" "\<forall>q. bm_bit bat1 q = (q = p \<or> bm_bit bat q)"
    "bm.free_slots bat1 tb = bm.free_slots bat tb - {p}" "bm.free_count bat1 tb = bm.free_count bat tb - 1"
    using claim_step [OF Suc.prems(1)] Suc.prems(5) by auto
  let ?ib = "wr32 ib (4 + 4 * i) (of_nat p)"
  have ib: "length ?ib = 512" "rd32 ?ib 0 = rd32 ib 0"
    "\<And>j. j < 127 \<Longrightarrow> blkw ?ib j = (if j = i then of_nat p else blkw ib j)"
    using Suc.prems by (simp_all add: size_wr32 blkw_wr32)
  obtain bl bat' ib' where IH: "alloc_loop bat1 (of_nat tb) ?ib (Suc i) n = Inr (True, bat', ib')" "length bl = n" "distinct bl"
    "set bl \<subseteq> bm.free_slots bat1 tb" "length bat' = length bat1" "\<forall>q. bm_bit bat' q = (q \<in> set bl \<or> bm_bit bat1 q)"
    "length ib' = 512" "rd32 ib' 0 = rd32 ?ib 0"
    "\<forall>j < 127. blkw ib' j = (if Suc i \<le> j \<and> j < Suc i + n then of_nat (bl ! (j - Suc i)) else blkw ?ib j)"
  proof -
    have "Suc i + n \<le> 127" "n \<le> bm.free_count bat1 tb" using Suc.prems p(7) by simp_all
    from Suc.IH [OF p(3) Suc.prems(2) ib(1) this] show thesis using that by blast
  qed
  have "alloc_loop bat (of_nat tb) ib i (Suc n) = Inr (True, bat', ib')"
    using p(1) IH(1) Suc.prems(2) by (simp add: sint_of_nat Let_def)
  moreover have "blkw ib' j = (if i \<le> j \<and> j < i + Suc n then of_nat ((p # bl) ! (j - i)) else blkw ib j)" if "j < 127" for j
  proof (cases "j \<le> i")
    case False
    then have "j - i = Suc (j - Suc i)" by simp
    then show ?thesis using IH(9) ib(3) that False by simp
  qed (use IH(9) ib(3) that in auto)
  ultimately show ?case
    using IH p ib(2) by (intro exI [of _ "p # bl"] exI [of _ bat'] exI [of _ ib']) auto
qed

lemma alloc_loop_full:
  assumes "bm_covers bat tb" "tb \<le> 4096" "length ib = 512" "i + n \<le> 127" "bm.free_count bat tb < n"
  shows "\<exists>bat' ib'. alloc_loop bat (of_nat tb) ib i n = Inr (False, bat', ib') \<and> length bat' = length bat \<and> length ib' = 512"
  using assms
proof (induction n arbitrary: bat ib i)
  case (Suc n)
  let ?ib = "\<lambda>p. wr32 ib (4 + 4 * i) (word_of_int p)"
  have ib: "length (?ib p) = 512" for p using Suc.prems by simp
  show ?case
  proof (cases "bm.free_count bat tb = 0")
    case True
    then show ?thesis using bm.claim_full [OF Suc.prems(1)] Suc.prems(2) ib [of "-1"]
      by (simp add: sint_of_nat Let_def)
  next
    case False
    then obtain p bat1 where p: "bitmap_findnset bat (int tb) = Inr (int p, bat1)"
      "bm_covers bat1 tb" "length bat1 = length bat" "bm.free_count bat1 tb = bm.free_count bat tb - 1"
      using claim_step [OF Suc.prems(1)] by auto
    then have "bm.free_count bat1 tb < n" using Suc.prems(5) False by simp
    with Suc.IH [OF p(2) Suc.prems(2) ib, of "Suc i" "int p"] Suc.prems(4) p False show ?thesis
      by (simp add: sint_of_nat Let_def Suc.prems(2)) (use Suc.prems(2) in \<open>simp add: sint_of_nat\<close>)
  qed
qed simp

lemma clear_rest_eq:
  "length ib = 512 \<Longrightarrow> i + n = 127 \<Longrightarrow> length (clear_rest ib i n) = 512 \<and> rd32 (clear_rest ib i n) 0 = rd32 ib 0
    \<and> (\<forall>j < 127. blkw (clear_rest ib i n) j = (if i \<le> j then 0 else blkw ib j))"
proof (induction n arbitrary: ib i)
  case (Suc n)
  let ?ib = "wr32 ib (4 + 4 * i) 0"
  have ib: "length ?ib = 512" "rd32 ?ib 0 = rd32 ib 0" "\<And>j. j < 127 \<Longrightarrow> blkw ?ib j = (if j = i then 0 else blkw ib j)"
    using Suc.prems by (simp_all add: size_wr32 blkw_wr32)
  from Suc.IH [OF ib(1), of "Suc i"] Suc.prems(2) ib show ?case by auto
qed auto

text \<open>
  Freeing the blocks of an inode.
\<close>

lemma bitmap_clear:
  assumes "p < 4096" "length bat = 128"
  shows "\<exists>bat'. bitmap_set bat (int p) 0 = Inr bat' \<and> length bat' = 128 \<and> (\<forall>q. bm_bit bat' q = (q \<noteq> p \<and> bm_bit bat q))"
proof -
  have "p div 32 < length bat" using assms by simp
  then show ?thesis using bitmap_set_0 [of p bat] bm_bit_put [of p bat False] assms(2) by auto
qed

lemma free_loop_Suc:
  "free_loop bat ib i (Suc n) =
    (if blkw ib i \<noteq> 0 then rbind (bitmap_set bat (sint (blkw ib i)) 0) (\<lambda>bat'. free_loop bat' ib (Suc i) n)
     else Inr bat)"
  by (simp add: blkw_def Let_def)

lemma free_loop_eq:
  assumes "length bat = 128" "i + n = 127" "m \<le> 127" "i \<le> m" "\<And>j. i \<le> j \<Longrightarrow> j < m \<Longrightarrow> 0 < unat (blkw ib j) \<and> unat (blkw ib j) < 4096"
    "m < 127 \<Longrightarrow> blkw ib m = 0"
  shows "\<exists>bat'. free_loop bat ib i n = Inr bat' \<and> length bat' = 128
    \<and> (\<forall>q. bm_bit bat' q = (q \<notin> (\<lambda>j. unat (blkw ib j)) ` {i..<m} \<and> bm_bit bat q))"
  using assms
proof (induction n arbitrary: bat i)
  case (Suc n)
  show ?case
  proof (cases "i < m")
    case True
    have b: "0 < unat (blkw ib i)" "unat (blkw ib i) < 4096" using Suc.prems(5) [of i] True by auto
    then have nz: "blkw ib i \<noteq> 0" and si: "sint (blkw ib i) = int (unat (blkw ib i))"
      by (auto simp: sint_small)
    obtain bat1 where b1: "bitmap_set bat (int (unat (blkw ib i))) 0 = Inr bat1" "length bat1 = 128"
      "\<forall>q. bm_bit bat1 q = (q \<noteq> unat (blkw ib i) \<and> bm_bit bat q)" using bitmap_clear [OF b(2) Suc.prems(1)] by blast
    obtain bat' where "free_loop bat1 ib (Suc i) n = Inr bat'" "length bat' = 128"
      "\<forall>q. bm_bit bat' q = (q \<notin> (\<lambda>j. unat (blkw ib j)) ` {Suc i..<m} \<and> bm_bit bat1 q)"
      using Suc.IH [OF b1(2), of "Suc i"] Suc.prems True by auto
    moreover have "{i..<m} = insert i {Suc i..<m}" using True by auto
    ultimately show ?thesis using b1 nz si by (auto simp: free_loop_Suc simp del: free_loop.simps)
  next
    case False
    then have "i = m" "m < 127" using Suc.prems(2,4) by simp_all
    then have "blkw ib i = 0" using Suc.prems(6) by simp
    then show ?thesis using False Suc.prems(1) by (simp add: free_loop_Suc del: free_loop.simps)
  qed
qed auto


section \<open>Changes of the volume\<close>

lemma owned_not_system:
  assumes "fs_ok tb C" "i < 25" "used C i" "b \<in> set (owned C i)"
  shows "3 \<le> b" "b < tb"
  using fs_okD(4) [OF assms(1-3)] assms(4) by (auto simp: entry_ok_def)

lemma free_not_owned:
  assumes "fs_ok tb C" "b \<in> fs_free tb C" "i < 25" "used C i"
  shows "b \<notin> set (owned C i)" "3 \<le> b" "b < tb"
  using assms fs_okD(8) [OF assms(1), of b] by (auto simp: fs_free_def)

text \<open>
  Freeing the blocks of a file, and clearing its entry in the directory.
\<close>

lemma free_file:
  assumes ok: "fs_ok tb C" and i: "i < 25" "used C i" and bat: "length bat = 128"
  shows "\<exists>bat'. free_loop bat (C (inode_of C i)) 0 127 = Inr bat' \<and> length bat' = 128
    \<and> (\<forall>q. bm_bit bat' q = (q \<notin> set (alloc_blocks C (inode_of C i)) \<and> bm_bit bat q))"
proof -
  let ?ino = "inode_of C i" and ?m = "length (alloc_blocks C (inode_of C i))"
  have "0 < unat (blkw (C ?ino) j) \<and> unat (blkw (C ?ino) j) < 4096" if "j < ?m" for j
  proof -
    have "blk C ?ino j \<in> set (owned C i)" using that alloc_blocks_nth [OF that] nth_mem by (fastforce simp: owned_def)
    then show ?thesis using owned_not_system [OF ok i, of "blk C ?ino j"] fs_okD(2) [OF ok] by (simp add: blk_def)
  qed
  moreover have "blkw (C ?ino) ?m = 0" if "?m < 127" using alloc_blocks_end [OF that] by (simp add: blk_def unat_eq_0)
  ultimately show ?thesis
    using free_loop_eq [OF bat, of 0 127 ?m "C ?ino"] alloc_blocks_le [of C ?ino] set_alloc_blocks [of C ?ino] by (simp add: blk_def [abs_def])
qed

lemma clear_entry:
  assumes "length md = 512" "i < 25"
  defines "md' \<equiv> (wr32 md (20 * i) 0)[20 * i + 4 := 0]"
  shows "length md' = 512" "outside_entry md md' i" "dir_inode md' i = 0" "md' ! (20 * i + 4) = 0"
proof -
  have l: "length (wr32 md (20 * i) 0) = 512" using assms by simp
  then show "length md' = 512" "md' ! (20 * i + 4) = 0" using assms by (simp_all add: md'_def)
  show "outside_entry md md' i" using outside_entry_wr32 [OF assms(1,2), of 0] assms(2) l by (auto simp: outside_entry_def md'_def nth_list_update)
  show "dir_inode md' i = 0" using assms(1,2) rd32_wr32_same [of "20 * i" md 0] by (simp add: dir_inode_def rd32_def md'_def)
qed

lemma nblk_le: "sz \<le> 65024 \<Longrightarrow> nblk sz \<le> 127"
  by (simp add: nblk_def)

lemma concat_zeros: "concat (replicate n (replicate 512 0)) = replicate (512 * n) 0"
  by (induction n) (simp_all add: replicate_add)

text \<open>
  A new file.
\<close>

lemma add_content:
  assumes ok: "fs_ok tb C" and i: "i < 25" "\<not> used C i" and fresh: "fs_map C nm = None"
    and nm: "nm \<noteq> []" "entry_name C' i = nm" "0 \<in> set (name_bytes C' i)"
    and dir: "outside_entry (C 2) (C' 2) i" "dir_inode (C' 2) i = of_nat p"
    and blocks: "distinct (p # bl)" "set (p # bl) \<subseteq> fs_free tb C" "nblk sz \<le> length bl" "length bl \<le> 127" "sz \<le> 65024"
    and ib: "length (C' p) = 512" "inode_filesize (C' p) = of_nat sz"
      "\<And>j. j < 127 \<Longrightarrow> blkw (C' p) j = (if j < length bl then of_nat (bl ! j) else 0)"
    and data: "\<And>b. b \<in> set bl \<Longrightarrow> length (C' b) = 512"
    and bat: "length (C' 1) = 512" "\<And>b. b < tb \<Longrightarrow> bm_bit (words_of (C' 1)) b \<longleftrightarrow> b \<in> set (p # bl) \<or> bm_bit (words_of (C 1)) b"
    and rest: "\<And>b. b \<notin> {1, 2} \<union> set (p # bl) \<Longrightarrow> C' b = C b"
  shows "fs_ok tb C'" "fs_map C' = (fs_map C)(nm \<mapsto> take sz (concat (map C' (take (nblk sz) bl))))"
proof -
  have free: "3 \<le> b" "b < tb" "b < 4096" if "b \<in> set (p # bl)" for b
  proof -
    have "b \<in> fs_free tb C" using that blocks(2) by blast
    then show "3 \<le> b" "b < tb" using fs_okD(8) [OF ok, of b] by (auto simp: fs_free_def)
    then show "b < 4096" using fs_okD(2) [OF ok] by simp
  qed
  have p: "p < 4096" "3 \<le> p" using free [of p] by auto
  have tb: "3 \<le> tb" "tb \<le> 4096" and l2: "length (C 2) = 512" using fs_okD(1-3) [OF ok] by auto
  have io: "inode_of C' i = p" "used C' i" using dir(2) p unfolding inode_of_def used_def
    by (auto simp: unat_of_nat of_nat_eq_0_iff dest: arg_cong [of _ _ unat])
  have sz: "fsize C' p = sz" using ib(2) blocks(5) by (simp add: fsize_def unat_of_nat)
  have bj: "blk C' p j = bl ! j" if "j < length bl" for j
    using that ib(3) blocks(4) free [of "bl ! j"] by (simp add: blk_def unat_of_nat)
  have ab: "alloc_blocks C' p = bl"
    using blocks(4) bj ib(3) [of "length bl"] free [of 0] by (intro alloc_blocks_eq) (auto simp: blk_def)
  then have ow: "owned C' i = p # bl" by (simp add: owned_def io)
  have fd: "file_data C' p = take sz (concat (map C' (take (nblk sz) bl)))" by (simp add: file_data_def file_blocks_def ab sz)
  have other: "b \<notin> {1, 2} \<union> set (p # bl)" if "j < 25" "used C j" "b \<in> set (owned C j)" for j b
    using owned_not_system [OF ok that] free_not_owned(1) [OF ok _ that(1,2), of b] blocks(2) that(3) by auto
  have same: "same_entry C C' j" if "j < 25" "j \<noteq> i" for j
    using outside_entry_same [of C C' i j] l2 dir(1) that other [OF that(1)] rest by (auto simp: same_entry_def)
  have e: "entry_ok tb C' i"
    unfolding entry_ok_def io ow sz ab
    using nm blocks free by auto
  have names: "entry_name C j \<noteq> nm" if "j < 25" "used C j" for j using fresh that by (auto simp: fs_map_None)
  show ok': "fs_ok tb C'"
  proof (rule fs_ok_change [OF ok i(1) same])
    show "length (C' b) = 512" if "b < tb" for b
    proof (cases "b \<in> {1, 2} \<union> set (p # bl)")
      case True
      then show ?thesis using bat(1) ib(1) data dir(1) by (auto simp: outside_entry_def)
    next
      case False
      then show ?thesis using rest fs_okD(3) [OF ok that] by simp
    qed
    have "set (owned C' i) \<inter> set (owned C j) = {}" if "j < 25" "used C j" for j
      unfolding ow using other [OF that] by blast
    then show "if used C' i then entry_ok tb C' i \<and> (\<forall>j < 25. j \<noteq> i \<and> used C j \<longrightarrow>
        set (owned C' i) \<inter> set (owned C j) = {} \<and> entry_name C' i \<noteq> entry_name C j)
      else C' 2 ! (20 * i + 4) = 0"
      using e io nm(2) names by (simp only: if_True) metis
    show "bm_bit (words_of (C' 1)) b \<longleftrightarrow>
      b < 3 \<or> (\<exists>j < 25. j \<noteq> i \<and> used C j \<and> b \<in> set (owned C j)) \<or> (used C' i \<and> b \<in> set (owned C' i))" if "b < tb" for b
      using bat(2) [OF that] fs_okD(8) [OF ok that] io(2) i(2) unfolding ow by blast
  qed
  have "fs_map C' = (fs_map C)(nm := if used C' i then Some (file_data C' (inode_of C' i)) else None)"
    by (rule fs_map_change [OF ok ok' i(1) same]) (use i nm names in auto)
  then show "fs_map C' = (fs_map C)(nm \<mapsto> take sz (concat (map C' (take (nblk sz) bl))))" using io fd by simp
qed

lemma zeros_content:
  assumes "\<And>b. b \<in> set bl \<Longrightarrow> C b = replicate 512 0" "length bl = nblk sz"
  shows "take sz (concat (map C (take (nblk sz) bl))) = replicate sz 0"
proof -
  have "map C bl = map (\<lambda>_. replicate 512 0) bl" using assms(1) by simp
  then have "concat (map C bl) = replicate (512 * length bl) 0" using concat_zeros by (simp add: map_replicate_const)
  moreover have "sz \<le> 512 * length bl" unfolding assms(2) nblk_def by simp
  ultimately show ?thesis by (simp add: assms(2))
qed

text \<open>
  Removing a file.
\<close>

lemma remove_content:
  assumes ok: "fs_ok tb C" and i: "i < 25" "used C i" "entry_name C i = nm"
    and dir: "outside_entry (C 2) (C' 2) i" "dir_inode (C' 2) i = 0" "C' 2 ! (20 * i + 4) = 0"
    and bat: "length (C' 1) = 512" "\<And>b. b < tb \<Longrightarrow> bm_bit (words_of (C' 1)) b \<longleftrightarrow> b \<notin> set (owned C i) \<and> bm_bit (words_of (C 1)) b"
    and rest: "\<And>b. b \<notin> {1, 2} \<Longrightarrow> C' b = C b"
  shows "fs_ok tb C'" "fs_map C' = (fs_map C)(nm := None)"
proof -
  have l2: "length (C 2) = 512" using fs_okD(1,3) [OF ok] by auto
  have un: "\<not> used C' i" using dir(2) by (simp add: used_def)
  have same: "same_entry C C' j" if "j < 25" "j \<noteq> i" for j
  proof -
    have "C' b = C b" if "used C j" "b \<in> set (owned C j)" for b
      using owned_not_system(1) [OF ok \<open>j < 25\<close> that] by (intro rest) auto
    then show ?thesis using outside_entry_same [of C C' i j] l2 dir(1) that by (simp add: same_entry_def)
  qed
  show ok': "fs_ok tb C'"
  proof (rule fs_ok_change [OF ok i(1) same])
    show "length (C' b) = 512" if "b < tb" for b
      using bat(1) dir(1) rest [of b] fs_okD(3) [OF ok that] by (cases "b \<in> {1, 2}") (auto simp: outside_entry_def)
    show "bm_bit (words_of (C' 1)) b \<longleftrightarrow>
      b < 3 \<or> (\<exists>j < 25. j \<noteq> i \<and> used C j \<and> b \<in> set (owned C j)) \<or> (used C' i \<and> b \<in> set (owned C' i))" if "b < tb" for b
    proof -
      have "b \<notin> set (owned C i)" if "b < 3" using that owned_not_system(1) [OF ok i(1,2)] by fastforce
      moreover have "b \<notin> set (owned C i)" if "j < 25" "j \<noteq> i" "used C j" "b \<in> set (owned C j)" for j
        using fs_okD(6) [OF ok that(1) i(1) that(3) i(2) that(2)] that(4) by blast
      ultimately show ?thesis using bat(2) [OF that] fs_okD(8) [OF ok that] un by blast
    qed
  qed (use un dir in auto)
  have "fs_map C' = (fs_map C)(nm := if used C' i then Some (file_data C' (inode_of C' i)) else None)"
    by (rule fs_map_change [OF ok ok' i(1) same]) (use i un fs_okD(7) [OF ok] in auto)
  then show "fs_map C' = (fs_map C)(nm := None)" using un by simp
qed

text \<open>
  Writing into the blocks of a file.
\<close>

lemma write_content:
  assumes ok: "fs_ok tb C" and i: "i < 25" "used C i" "entry_name C i = nm"
    and len: "\<And>b. b \<in> set (file_blocks C (inode_of C i)) \<Longrightarrow> length (C' b) = 512"
    and rest: "\<And>b. b \<notin> set (file_blocks C (inode_of C i)) \<Longrightarrow> C' b = C b"
  shows "fs_ok tb C'" "fs_map C' = (fs_map C)(nm \<mapsto> file_data C' (inode_of C i))"
    "file_blocks C' (inode_of C i) = file_blocks C (inode_of C i)" "fsize C' (inode_of C i) = fsize C (inode_of C i)"
proof -
  note e = fs_okD(4) [OF ok i(1,2)]
  have sub: "set (file_blocks C (inode_of C i)) \<subseteq> set (owned C i)" using file_blocks_sub by (auto simp: owned_def)
  have "inode_of C i \<notin> set (file_blocks C (inode_of C i))" using e file_blocks_sub by (auto simp: entry_ok_def owned_def)
  then have ib: "C' (inode_of C i) = C (inode_of C i)" by (rule rest)
  have sys: "C' 2 = C 2" "C' 1 = C 1"
    using owned_not_system(1) [OF ok i(1,2), of 2] owned_not_system(1) [OF ok i(1,2), of 1] sub
    by (auto intro!: rest)
  then have dirs: "dir_inode (C' 2) j = dir_inode (C 2) j" "name_bytes C' j = name_bytes C j" for j
    by (simp_all add: name_bytes_def)
  have same: "same_entry C C' j" if "j < 25" "j \<noteq> i" for j
  proof -
    have "C' b = C b" if "used C j" "b \<in> set (owned C j)" for b
      using fs_okD(6) [OF ok \<open>j < 25\<close> i(1) that(1) i(2) \<open>j \<noteq> i\<close>] that sub by (intro rest) blast
    then show ?thesis using dirs by (simp add: same_entry_def)
  qed
  have io: "inode_of C' i = inode_of C i" "used C' i" "entry_name C' i = nm"
    using i dirs by (simp_all add: inode_of_def used_def entry_name_def)
  show sz: "fsize C' (inode_of C i) = fsize C (inode_of C i)" by (simp add: fsize_def ib)
  have ab: "alloc_blocks C' (inode_of C i) = alloc_blocks C (inode_of C i)" using ib by (rule alloc_blocks_cong)
  then show fb: "file_blocks C' (inode_of C i) = file_blocks C (inode_of C i)"
    by (simp add: file_blocks_def sz)
  have ow: "owned C' i = owned C i" by (simp add: owned_def io ab)
  have e': "entry_ok tb C' i" using e dirs(2) [of i] by (simp add: entry_ok_def io i(3) ow sz ab)
  show ok': "fs_ok tb C'"
  proof (rule fs_ok_change [OF ok i(1) same])
    show "length (C' b) = 512" if "b < tb" for b
      using len rest [of b] fs_okD(3) [OF ok that] by (cases "b \<in> set (file_blocks C (inode_of C i))") auto
    show "if used C' i then entry_ok tb C' i \<and> (\<forall>j < 25. j \<noteq> i \<and> used C j \<longrightarrow>
        set (owned C' i) \<inter> set (owned C j) = {} \<and> entry_name C' i \<noteq> entry_name C j)
      else C' 2 ! (20 * i + 4) = 0"
      using io(2) e' fs_okD(6,7) [OF ok i(1) _ i(2)] i(3) unfolding ow io(3) by (simp only: if_True) blast
    show "bm_bit (words_of (C' 1)) b \<longleftrightarrow>
      b < 3 \<or> (\<exists>j < 25. j \<noteq> i \<and> used C j \<and> b \<in> set (owned C j)) \<or> (used C' i \<and> b \<in> set (owned C' i))" if "b < tb" for b
      using fs_okD(8) [OF ok that] i io(2) unfolding ow sys by blast
  qed
  have "fs_map C' = (fs_map C)(nm := if used C' i then Some (file_data C' (inode_of C' i)) else None)"
    by (rule fs_map_change [OF ok ok' i(1) same]) (use i io fs_okD(7) [OF ok] in auto)
  then show "fs_map C' = (fs_map C)(nm \<mapsto> file_data C' (inode_of C i))" using io by simp
qed

text \<open>
  The file id of a name is the number of its inode. It does not depend on other directory entries.
\<close>

definition file_id :: "blocks \<Rightarrow> u8 list \<Rightarrow> int \<Rightarrow> bool" where
  "file_id C nm fid \<longleftrightarrow> (\<exists>i < 25. used C i \<and> entry_name C i = nm \<and> fid = int (inode_of C i))"

lemma file_id_outside:
  assumes "length (C 2) = 512" "outside_entry (C 2) (C' 2) i" "used C i \<Longrightarrow> entry_name C i = nm" "x \<noteq> nm" "file_id C x f"
  shows "file_id C' x f"
proof -
  obtain j where j: "j < 25" "used C j" "entry_name C j = x" "f = int (inode_of C j)" using assms(5) by (auto simp: file_id_def)
  then have "j \<noteq> i" using assms(3,4) by auto
  from outside_entry_same [where C = C and C' = C' and i = i and j = j, OF assms(1,2) j(1) this] j show ?thesis
    by (auto simp: file_id_def used_def inode_of_def entry_name_def)
qed

end
