(* ===== verification/Tfs_Correct.thy ===== *)
theory Tfs_Correct
  imports Tfs_Fs
begin

text \<open>
  The operations of \<^verbatim>\<open>fs/tfs.c\<close> on a block device that keeps the laws of \<open>block_device\<close>:
  each of them keeps the volume well-formed and acts on the abstract map of files as its
  description says, and each gives the lock back on every path.
\<close>

section \<open>Replacing a part of a list\<close>

definition put_at :: "'a list \<Rightarrow> nat \<Rightarrow> 'a list \<Rightarrow> 'a list" where
  "put_at A k xs = take k A @ xs @ drop (k + length xs) A"

lemma length_put_at [simp]: "k + length xs \<le> length A \<Longrightarrow> length (put_at A k xs) = length A"
  by (simp add: put_at_def)

lemma put_at_Nil [simp]: "put_at A k [] = A"
  by (simp add: put_at_def)

lemma put_at_whole: "length xs = length A \<Longrightarrow> put_at A 0 xs = xs"
  by (simp add: put_at_def)

lemma put_at_put_at:
  "k + length xs \<le> length A \<Longrightarrow> put_at (put_at A k xs) (k + length xs) ys = put_at A k (xs @ ys)"
  by (simp add: put_at_def ac_simps)

lemma take_drop_add: "take m (drop k A) @ take j (drop (k + m) A) = take (m + j) (drop k A)"
  unfolding take_add drop_drop by (simp only: add.commute [of m k])

lemma sdiv_512 [simp]: "int a sdiv 512 = int (a div 512)"
  using zdiv_int [of a 512] by (cases "a = 0") (simp_all add: signed_divide_int_def)

lemma smod_512 [simp]: "int a smod 512 = int (a mod 512)"
  using zmod_int [of a 512] by (cases "a = 0") (simp_all add: signed_modulo_int_def)

lemma take_put_at:
  "k + length xs \<le> sz \<Longrightarrow> sz \<le> length A \<Longrightarrow> take sz (put_at A k xs) = put_at (take sz A) k xs"
  by (simp add: put_at_def drop_take min_absorb1)

lemma blit_put_at:
  assumes "i + n \<le> length dst" "j + n \<le> length src"
  shows "blit (int n) dst (int i) src (int j) = Inr (put_at dst i (take n (drop j src)))"
proof (cases "n = 0")
  case False
  then show ?thesis using blit_ok [of n i dst j src] assms by (simp add: put_at_def)
qed (simp add: blit_def)

lemma take_block:
  assumes "\<And>b. b \<in> set fb \<Longrightarrow> length (C b) = 512" "k < length fb" "j + r \<le> 512"
  shows "take r (drop j (C (fb ! k))) = take r (drop (512 * k + j) (concat (map C fb)))"
  using assms
proof (induction fb arbitrary: k)
  case (Cons b fb)
  show ?case
  proof (cases k)
    case 0
    then show ?thesis using Cons.prems by simp
  next
    case (Suc k')
    then have "take r (drop j (C (fb ! k'))) = take r (drop (512 * k' + j) (concat (map C fb)))"
      using Cons by simp
    then show ?thesis using Cons.prems(1) Suc by simp
  qed
qed simp

lemma length_concat_blocks:
  "(\<And>b. b \<in> set fb \<Longrightarrow> length (C b) = 512) \<Longrightarrow> length (concat (map C fb)) = 512 * length fb"
  by (induction fb) simp_all

lemma put_at_block:
  assumes "distinct fb" "\<And>b. b \<in> set fb \<Longrightarrow> length (C b) = 512" "k < length fb" "j + length ys \<le> 512"
  shows "concat (map (C(fb ! k := put_at (C (fb ! k)) j ys)) fb) = put_at (concat (map C fb)) (512 * k + j) ys"
  using assms
proof (induction fb arbitrary: k)
  case (Cons b fb)
  show ?case
  proof (cases k)
    case 0
    have "map (C(b := put_at (C b) j ys)) fb = map C fb" using Cons.prems(1) by simp
    then have "concat (map (C(b := put_at (C b) j ys)) (b # fb)) = put_at (C b) j ys @ concat (map C fb)"
      by (simp only: list.map concat.simps fun_upd_same)
    moreover have "put_at (C b) j ys @ concat (map C fb) = put_at (concat (map C (b # fb))) (512 * 0 + j) ys"
      using Cons.prems by (simp add: put_at_def)
    ultimately show ?thesis unfolding 0 nth_Cons_0 by (rule trans)
  next
    case (Suc k')
    then have nb: "fb ! k' \<noteq> b" using Cons.prems by auto
    have IH: "concat (map (C(fb ! k' := put_at (C (fb ! k')) j ys)) fb) = put_at (concat (map C fb)) (512 * k' + j) ys"
      by (rule Cons.IH) (use Cons.prems Suc in auto)
    let ?F = "C(fb ! k' := put_at (C (fb ! k')) j ys)"
    have "concat (map ?F (b # fb)) = C b @ concat (map ?F fb)" using nb by (simp del: fun_upd_apply add: fun_upd_other)
    also have "\<dots> = C b @ put_at (concat (map C fb)) (512 * k' + j) ys" by (simp only: IH)
    also have "\<dots> = put_at (concat (map C (b # fb))) (512 * Suc k' + j) ys"
      using Cons.prems(2) [of b] by (simp add: put_at_def add.assoc)
    finally show ?thesis unfolding Suc nth_Cons_Suc .
  qed
qed simp

section \<open>Transfers under the lock\<close>

definition tfs_ready :: "('d \<Rightarrow> bool) \<Rightarrow> nat \<Rightarrow> 'd tfs_t \<Rightarrow> bool" where
  "tfs_ready ready tb s \<longleftrightarrow> ready (dev (tw s)) \<and> ksem_ok (sems (tw s)) \<and> ksem_free (sems (tw s))
     \<and> ksem_val (sems (tw s)) (lock s) = Some 1 \<and> totalblocks s = of_nat tb
     \<and> length (buffer_inode s) = 512 \<and> length (buffer_bat s) = 512 \<and> length (buffer_md s) = 512"

text \<open>\<open>tfs_same s s'\<close>: apart from buffers and the device, the state after the call is the one before it.\<close>

definition tfs_same :: "'d tfs_t \<Rightarrow> 'd tfs_t \<Rightarrow> bool" where
  "tfs_same s s' \<longleftrightarrow> svals (sems (tw s')) = svals (sems (tw s)) \<and> pool (tw s') = pool (tw s)
     \<and> lock s' = lock s \<and> totalblocks s' = totalblocks s \<and> fs_page s' = fs_page s"

text \<open>In the middle of an operation that started in \<open>s0\<close>: the lock is taken.\<close>

definition tfs_locked :: "('d \<Rightarrow> bool) \<Rightarrow> 'd tfs_t \<Rightarrow> 'd tfs_t \<Rightarrow> bool" where
  "tfs_locked ready s0 s \<longleftrightarrow> ready (dev (tw s)) \<and> ksem_ok (sems (tw s)) \<and> ksem_free (sems (tw s))
     \<and> svals (sems (tw s)) = (svals (sems (tw s0)))[lock s0 := Some 0] \<and> pool (tw s) = pool (tw s0)
     \<and> lock s = lock s0 \<and> totalblocks s = totalblocks s0 \<and> fs_page s = fs_page s0
     \<and> length (buffer_inode s) = 512 \<and> length (buffer_bat s) = 512 \<and> length (buffer_md s) = 512"

lemma locked_buffers [simp]:
  "tfs_locked ready s0 s \<Longrightarrow> length bf = 512 \<Longrightarrow> tfs_locked ready s0 (s\<lparr>buffer_inode := bf\<rparr>)"
  "tfs_locked ready s0 s \<Longrightarrow> length bf = 512 \<Longrightarrow> tfs_locked ready s0 (s\<lparr>buffer_bat := bf\<rparr>)"
  "tfs_locked ready s0 s \<Longrightarrow> length bf = 512 \<Longrightarrow> tfs_locked ready s0 (s\<lparr>buffer_md := bf\<rparr>)"
  by (simp_all add: tfs_locked_def)

lemma lockedD:
  assumes "tfs_locked ready s0 s"
  shows "length (buffer_inode s) = 512" "length (buffer_bat s) = 512" "length (buffer_md s) = 512"
    "totalblocks s = totalblocks s0"
  using assms by (simp_all add: tfs_locked_def)

lemma io_step_ok [simp]: "io_step (Inr (1, s)) err k = k s"
  by (simp add: io_step_def)

lemma inode_block_eq:
  assumes "length (buffer_inode s) = 512" "j < 127"
  shows "inode_block s (int j) = Inr (blkw (buffer_inode s) j)"
proof -
  let ?m = "buffer_inode s @ buffer_bat s @ buffer_md s"
  have l: "Suc j < length (words_of ?m)" using assms by simp
  have "aget (words_of ?m) (int (Suc j)) = Inr (words_of ?m ! Suc j)" using l by (rule aget_nat)
  moreover have "words_of ?m ! Suc j = rd32 ?m (4 * Suc j)" using assms by (intro words_of_nth) simp
  moreover have "rd32 ?m (4 * Suc j) = rd32 (buffer_inode s) (4 * Suc j)" using assms by (intro rd32_append) simp
  ultimately show ?thesis by (simp add: inode_block_def blkw_def add.commute)
qed

lemma sint_word_of_int: "- (2 ^ 31) \<le> x \<Longrightarrow> x < 2 ^ 31 \<Longrightarrow> sint (word_of_int x :: u32) = x"
  by (simp add: sint_sbintrunc' signed_take_bit_int_eq_self)

lemma sint_word_of_int_wrap:
  assumes "2 ^ 31 \<le> x" "x < 2 ^ 32"
  shows "sint (word_of_int x :: u32) = x - 2 ^ 32"
proof -
  have "(word_of_int x :: u32) = word_of_int (x - 2 ^ 32)" by (simp add: word_of_int_eq_iff take_bit_eq_mod)
  moreover have "sint (word_of_int (x - 2 ^ 32) :: u32) = x - 2 ^ 32"
    by (rule sint_word_of_int) (use assms in auto)
  ultimately show ?thesis by (simp only:)
qed

lemma create_numblocks_small:
  assumes "sz \<le> 65024"
  shows "unat (create_numblocks (int sz)) = nblk sz"
proof -
  have "sint (word_of_int (int sz + 512 - 1) :: u32) = int sz + 511" using assms by (subst sint_word_of_int) auto
  then have "sint (word_of_int (int sz + 512 - 1) :: u32) sdiv 512 = int (nblk sz)"
    by (simp add: signed_divide_int_def nblk_def zdiv_int)
  moreover have "nblk sz \<le> 127" using assms by (rule nblk_le)
  ultimately show ?thesis by (simp add: create_numblocks_def unat_of_nat)
qed

lemma create_numblocks_big:
  assumes "65024 < sz" "sz < 2 ^ 31"
  shows "127 < create_numblocks sz"
proof (cases "sz + 511 < 2 ^ 31")
  case True
  then have "sint (word_of_int (sz + 512 - 1) :: u32) = sz + 511" using assms(1) by (subst sint_word_of_int) auto
  then have d: "sint (word_of_int (sz + 512 - 1) :: u32) sdiv 512 = (sz + 511) div 512"
    using assms(1) by (simp add: signed_divide_int_def)
  have "sz + 511 < 2147483648" using True by simp
  then have "127 < (sz + 511) div 512" "(sz + 511) div 512 < 4294967296" using assms(1) by linarith+
  then have "uint (word_of_int ((sz + 511) div 512) :: u32) = (sz + 511) div 512"
    by (simp add: uint_word_of_int_eq take_bit_int_eq_self)
  then show ?thesis using \<open>127 < (sz + 511) div 512\<close> unfolding create_numblocks_def d word_less_def by simp
next
  case False
  define y where "y = 2 ^ 32 - (sz + 511)"
  have y: "0 < y" "y \<le> 2 ^ 31" using assms False by (simp_all add: y_def)
  have "sint (word_of_int (sz + 512 - 1) :: u32) = - y"
    using assms False by (subst sint_word_of_int_wrap) (auto simp: y_def)
  then have d: "sint (word_of_int (sz + 512 - 1) :: u32) sdiv 512 = - (y div 512)"
    using y by (simp add: signed_divide_int_def)
  have "y \<le> 2147483648" using y by simp
  then have b: "0 \<le> y div 512" "y div 512 \<le> 4194304" using y(1) by linarith+
  have "512 \<le> y" using assms(2) by (simp add: y_def)
  then have pos: "0 < y div 512" by linarith
  have "(word_of_int (- (y div 512)) :: u32) = word_of_int (2 ^ 32 - y div 512)"
    by (simp add: word_of_int_eq_iff take_bit_eq_mod)
  moreover have "uint (word_of_int (2 ^ 32 - y div 512) :: u32) = 2 ^ 32 - y div 512"
    unfolding uint_word_of_int_eq by (rule take_bit_int_eq_self) (use b pos in auto)
  ultimately have "uint (create_numblocks sz) = 2 ^ 32 - y div 512" unfolding create_numblocks_def d by (simp only:)
  then show ?thesis using b by (simp add: word_less_def)
qed

locale tfs_volume = block_device g ready content nblocks 512
  for g :: "'d gbd_t" and ready content nblocks +
  fixes tb :: nat
  assumes tb: "tb \<le> nblocks"
begin

lemma P_ok:
  assumes "tfs_ready ready tb s"
  shows "\<exists>s1. tfs_P s = Inr s1 \<and> tfs_locked ready s s1 \<and> content (dev (tw s1)) = content (dev (tw s))"
proof -
  from ksem_P_V [of "sems (tw s)" "lock s" 1] assms obtain k where
    "ksem_P (sems (tw s)) (lock s) = Inr k" "ksem_ok k" "svals k = (svals (sems (tw s)))[lock s := Some 0]" "ksem_free k"
    by (auto simp: tfs_ready_def)
  then show ?thesis using assms by (simp add: tfs_P_def tfs_locked_def tfs_ready_def)
qed

lemma V_ok:
  assumes "tfs_ready ready tb s0" "tfs_locked ready s0 s"
  shows "\<exists>s1. tfs_V s = Inr s1 \<and> tfs_ready ready tb s1 \<and> tfs_same s0 s1 \<and> content (dev (tw s1)) = content (dev (tw s))"
proof -
  have l: "lock s0 < 128" "svals (sems (tw s0)) ! lock s0 = Some 1" "length (svals (sems (tw s0))) = 128"
    using assms(1) ksem_val_Some [of "sems (tw s0)" "lock s0" 1] by (auto simp: tfs_ready_def ksem_ok_def)
  have sv: "svals (sems (tw s)) = (svals (sems (tw s0)))[lock s0 := Some 0]" "lock s = lock s0"
    using assms(2) by (auto simp: tfs_locked_def)
  then have "ksem_val (sems (tw s)) (lock s) = Some 0" using l by (simp add: ksem_val_def)
  then have V: "ksem_V (sems (tw s)) (lock s) = Inr ((sems (tw s))\<lparr>svals := svals (sems (tw s0))\<rparr>)"
    using sv l by (simp add: ksem_V_def) (metis list_update_id list_update_overwrite)
  then show ?thesis
    using assms l by (simp add: tfs_V_def tfs_ready_def tfs_same_def tfs_locked_def ksem_ok_def ksem_free_def ksem_val_def)
qed

lemma leave_ok:
  assumes "tfs_ready ready tb s0" "tfs_locked ready s0 s"
  shows "\<exists>s1. leave r s = Inr (r, s1) \<and> tfs_ready ready tb s1 \<and> tfs_same s0 s1 \<and> content (dev (tw s1)) = content (dev (tw s))"
  using V_ok [OF assms] by (auto simp: leave_def)

lemma leave_buf_ok:
  assumes "tfs_ready ready tb s0" "tfs_locked ready s0 s"
  shows "\<exists>s1. leave_buf r bf s = Inr (r, bf, s1) \<and> tfs_ready ready tb s1 \<and> tfs_same s0 s1
    \<and> content (dev (tw s1)) = content (dev (tw s))"
  using V_ok [OF assms] by (auto simp: leave_buf_def)

lemma read_locked:
  assumes "tfs_locked ready s0 s" "unat b < tb" "length bf = 512"
  shows "\<exists>w. read_block g (tw s) b bf = Inr (1, content (dev (tw s)) (unat b), w)
    \<and> tfs_locked ready s0 (s\<lparr>tw := w\<rparr>) \<and> content (dev w) = content (dev (tw s))
    \<and> length (content (dev (tw s)) (unat b)) = 512"
proof -
  have w: "ready (dev (tw s))" "ksem_ok (sems (tw s))" "ksem_free (sems (tw s))" "unat b < nblocks"
    using assms tb by (auto simp: tfs_locked_def)
  from read_law [OF w assms(3)] obtain w' where
    "read_block g (tw s) b bf = Inr (1, content (dev (tw s)) (unat b), w')" "ready (dev w')" "ksem_ok (sems w')"
    "svals (sems w') = svals (sems (tw s))" "pool w' = pool (tw s)" "content (dev w') = content (dev (tw s))" by blast
  then show ?thesis using assms(1) w content_length [OF w(1,4)] ksem_free_cong [of "sems w'" "sems (tw s)"]
    by (auto simp: tfs_locked_def)
qed

lemma rd_inode_ok:
  assumes "tfs_locked ready s0 s" "unat b < tb"
  shows "\<exists>s1. rd_inode g b s = Inr (1, s1) \<and> tfs_locked ready s0 s1 \<and> content (dev (tw s1)) = content (dev (tw s))
    \<and> buffer_inode s1 = content (dev (tw s)) (unat b) \<and> buffer_bat s1 = buffer_bat s \<and> buffer_md s1 = buffer_md s"
  using read_locked [OF assms, of "buffer_inode s"] lockedD [OF assms(1)] by (auto simp: rd_inode_def)

lemma rd_bat_ok:
  assumes "tfs_locked ready s0 s" "unat b < tb"
  shows "\<exists>s1. rd_bat g b s = Inr (1, s1) \<and> tfs_locked ready s0 s1 \<and> content (dev (tw s1)) = content (dev (tw s))
    \<and> buffer_bat s1 = content (dev (tw s)) (unat b) \<and> buffer_inode s1 = buffer_inode s \<and> buffer_md s1 = buffer_md s"
  using read_locked [OF assms, of "buffer_bat s"] lockedD [OF assms(1)] by (auto simp: rd_bat_def)

lemma rd_md_ok:
  assumes "tfs_locked ready s0 s" "unat b < tb"
  shows "\<exists>s1. rd_md g b s = Inr (1, s1) \<and> tfs_locked ready s0 s1 \<and> content (dev (tw s1)) = content (dev (tw s))
    \<and> buffer_md s1 = content (dev (tw s)) (unat b) \<and> buffer_inode s1 = buffer_inode s \<and> buffer_bat s1 = buffer_bat s"
  using read_locked [OF assms, of "buffer_md s"] lockedD [OF assms(1)] by (auto simp: rd_md_def)

lemma wr_blk_ok:
  assumes "tfs_locked ready s0 s" "unat b < tb" "length bf = 512"
  shows "\<exists>s1. wr_blk g b bf s = Inr (1, s1) \<and> tfs_locked ready s0 s1
    \<and> content (dev (tw s1)) = (content (dev (tw s)))(unat b := bf)
    \<and> buffer_inode s1 = buffer_inode s \<and> buffer_bat s1 = buffer_bat s \<and> buffer_md s1 = buffer_md s"
proof -
  have w: "ready (dev (tw s))" "ksem_ok (sems (tw s))" "ksem_free (sems (tw s))" "unat b < nblocks"
    using assms tb by (auto simp: tfs_locked_def)
  from write_law [OF w assms(3)] obtain w' where
    "write_block g (tw s) b bf = Inr (1, w')" "ready (dev w')" "ksem_ok (sems w')"
    "svals (sems w') = svals (sems (tw s))" "pool w' = pool (tw s)"
    "content (dev w') = (content (dev (tw s)))(unat b := bf)" by blast
  then show ?thesis using assms(1) ksem_free_cong [of "sems w'" "sems (tw s)"] w
    by (simp add: wr_blk_def tfs_locked_def)
qed


section \<open>Opening and counting\<close>

lemma open_ok:
  assumes s: "tfs_ready ready tb s" and ok: "fs_ok tb (content (dev (tw s)))" and nm: "cstr nm fname" "nm \<noteq> []"
  shows "\<exists>r s'. tfs_open g s fname = Inr (r, s') \<and> tfs_ready ready tb s' \<and> tfs_same s s'
    \<and> content (dev (tw s')) = content (dev (tw s))
    \<and> (case fs_map (content (dev (tw s))) nm of
         None \<Rightarrow> r = -5
       | Some data \<Rightarrow> (\<exists>i < 25. used (content (dev (tw s))) i \<and> entry_name (content (dev (tw s))) i = nm
           \<and> r = int (inode_of (content (dev (tw s))) i)))"
proof -
  let ?C = "content (dev (tw s))"
  obtain s1 where s1: "tfs_P s = Inr s1" "tfs_locked ready s s1" "content (dev (tw s1)) = ?C" using P_ok [OF s] by blast
  have "unat (2 :: u32) < tb" using fs_okD(1) [OF ok] by simp
  from rd_md_ok [OF s1(2) this] obtain s2 where s2: "rd_md g 2 s1 = Inr (1, s2)" "tfs_locked ready s s2"
    "content (dev (tw s2)) = ?C" "buffer_md s2 = ?C 2" using s1(3) by auto
  have op: "tfs_open g s fname = rbind (dir_search (?C 2) fname) (\<lambda>i.
      if i < 25 then leave (sint (dir_inode (?C 2) i)) s2 else leave (- 5) s2)"
    using s1(1) s2(1,4) by (simp add: tfs_open_def cong: if_cong)
  show ?thesis
  proof (rule fs_map_cases [OF ok, of nm])
    fix i assume i: "i < 25" "used ?C i" "entry_name ?C i = nm" "fs_map ?C nm = Some (file_data ?C (inode_of ?C i))"
    have "inode_of ?C i < tb" using owned_not_system(2) [OF ok i(1,2)] by (simp add: owned_def)
    then have "unat (dir_inode (?C 2) i) < 2 ^ 31" using fs_okD(2) [OF ok] by (simp add: inode_of_def)
    then have "sint (dir_inode (?C 2) i) = int (inode_of ?C i)" by (simp add: sint_small inode_of_def)
    then show ?thesis
      using op dir_search_found [OF ok nm i(1-3)] i leave_ok [OF s s2(2), of "int (inode_of ?C i)"] s2(3) by auto
  next
    assume "fs_map ?C nm = None"
    then show ?thesis using op dir_search_none [OF ok nm] leave_ok [OF s s2(2), of "-5"] s2(3) by auto
  qed
qed

lemma count_loop_eq:
  "bm_covers bat (i + n) \<Longrightarrow> count_loop bat i n a = Inr (a + int (card {b. i \<le> b \<and> b < i + n \<and> bm_bit bat b}))"
proof (induction n arbitrary: i a)
  case (Suc n)
  let ?S = "\<lambda>i n. {b. i \<le> b \<and> b < i + n \<and> bm_bit bat b}"
  have get: "bitmap_get bat (int i) = Inr (of_bool (bm_bit bat i))"
    using bm.get_law [OF Suc.prems, of i] by simp
  have "sint (of_bool c :: u32) = of_bool c" for c by (cases c) simp_all
  then have st: "count_loop bat i (Suc n) a = count_loop bat (Suc i) n (a + of_bool (bm_bit bat i))"
    using get by simp
  have "?S i (Suc n) = (if bm_bit bat i then {i} else {}) \<union> ?S (Suc i) n"
    by (auto simp: Suc_le_eq le_less)
  moreover have "finite (?S (Suc i) n)" by simp
  ultimately have "card (?S i (Suc n)) = of_bool (bm_bit bat i) + card (?S (Suc i) n)" by simp
  then show ?case using st Suc.IH [of "Suc i"] Suc.prems by simp
qed simp

lemma getfree_ok:
  assumes s: "tfs_ready ready tb s" and ok: "fs_ok tb (content (dev (tw s)))"
  shows "\<exists>s'. tfs_getfree g s = Inr (512 * int (card (fs_free tb (content (dev (tw s))))), s')
    \<and> tfs_ready ready tb s' \<and> tfs_same s s' \<and> content (dev (tw s')) = content (dev (tw s))"
proof -
  let ?C = "content (dev (tw s))"
  obtain s1 where s1: "tfs_P s = Inr s1" "tfs_locked ready s s1" "content (dev (tw s1)) = ?C" using P_ok [OF s] by blast
  have tb3: "unat (1 :: u32) < tb" "tb \<le> 4096" using fs_okD(1,2) [OF ok] by simp_all
  from rd_bat_ok [OF s1(2) tb3(1)] obtain s2 where s2: "rd_bat g 1 s1 = Inr (1, s2)" "tfs_locked ready s s2"
    "content (dev (tw s2)) = ?C" "buffer_bat s2 = ?C 1" using s1(3) by auto
  let ?bat = "words_of (?C 1)" and ?A = "{b. b < tb \<and> bm_bit (words_of (?C 1)) b}"
  have "length (?C 1) = 512" using fs_okD(3) [OF ok, of 1] tb3 by simp
  then have cov: "bm_covers ?bat (0 + tb)" using tb3 by (simp add: bm_covers_def)
  have t: "totalblocks s2 = of_nat tb" using lockedD(4) [OF s2(2)] s by (simp add: tfs_ready_def)
  have n: "unat (of_nat tb :: u32) = tb" using tb3 by (simp add: unat_of_nat)
  have cnt: "count_loop ?bat 0 tb 0 = Inr (int (card ?A))" using count_loop_eq [OF cov, of 0] by simp
  have "card ?A + card (fs_free tb ?C) = tb"
  proof -
    have "{..<tb} = ?A \<union> fs_free tb ?C" "?A \<inter> fs_free tb ?C = {}" by (auto simp: fs_free_def)
    moreover have "finite ?A" "finite (fs_free tb ?C)" by (simp_all add: fs_free_def)
    ultimately show ?thesis by (metis card_Un_disjoint card_lessThan)
  qed
  then have "(of_nat tb - word_of_int (int (card ?A))) * 512 = (of_nat (512 * card (fs_free tb ?C)) :: u32)"
  proof -
    assume "card ?A + card (fs_free tb ?C) = tb"
    then have "(of_nat tb :: u32) = of_nat (card ?A) + of_nat (card (fs_free tb ?C))" by (metis of_nat_add)
    then show ?thesis by simp
  qed
  moreover have "sint (of_nat (512 * card (fs_free tb ?C)) :: u32) = int (512 * card (fs_free tb ?C))"
    using \<open>card ?A + card (fs_free tb ?C) = tb\<close> tb3 by (intro sint_of_nat) simp
  ultimately have "tfs_getfree g s = leave (512 * int (card (fs_free tb ?C))) s2"
    using s1(1) s2 cnt by (simp add: tfs_getfree_def t n)
  then show ?thesis using leave_ok [OF s s2(2), of "512 * int (card (fs_free tb ?C))"] s2(3) by auto
qed

section \<open>Removing\<close>

lemma remove_ok:
  assumes s: "tfs_ready ready tb s" and ok: "fs_ok tb (content (dev (tw s)))" and nm: "cstr nm fname" "nm \<noteq> []"
  shows "\<exists>r s'. tfs_remove g s fname = Inr (r, s') \<and> tfs_ready ready tb s' \<and> tfs_same s s'
    \<and> fs_ok tb (content (dev (tw s')))
    \<and> fs_map (content (dev (tw s'))) = (fs_map (content (dev (tw s))))(nm := None)
    \<and> r = (if fs_map (content (dev (tw s))) nm = None then -5 else 0)
    \<and> (\<forall>x f. x \<noteq> nm \<and> file_id (content (dev (tw s))) x f \<longrightarrow> file_id (content (dev (tw s'))) x f)"
proof -
  let ?C = "content (dev (tw s))"
  obtain s1 where s1: "tfs_P s = Inr s1" "tfs_locked ready s s1" "content (dev (tw s1)) = ?C" using P_ok [OF s] by blast
  have tb3: "3 \<le> tb" "tb \<le> 4096" "unat (1 :: u32) < tb" "unat (2 :: u32) < tb" using fs_okD(1,2) [OF ok] by simp_all
  have l: "length (?C 1) = 512" "length (?C 2) = 512" using fs_okD(3) [OF ok] tb3 by auto
  from rd_md_ok [OF s1(2) tb3(4)] obtain s2 where s2: "rd_md g 2 s1 = Inr (1, s2)" "tfs_locked ready s s2"
    "content (dev (tw s2)) = ?C" "buffer_md s2 = ?C 2" using s1(3) by auto
  show ?thesis
  proof (rule fs_map_cases [OF ok, of nm])
    assume n: "fs_map ?C nm = None"
    then have "(fs_map ?C)(nm := None) = fs_map ?C" by (metis fun_upd_triv)
    moreover have "tfs_remove g s fname = leave (- 5) s2"
      using s1(1) s2(1,4) dir_search_none [OF ok nm n] by (simp add: tfs_remove_def)
    ultimately show ?thesis using leave_ok [OF s s2(2), of "-5"] s2(3) ok n by auto
  next
    fix i assume i: "i < 25" "used ?C i" "entry_name ?C i = nm" "fs_map ?C nm = Some (file_data ?C (inode_of ?C i))"
    let ?ino = "inode_of ?C i"
    have ino: "?ino < tb" "?ino < 4096" using owned_not_system(2) [OF ok i(1,2), of ?ino] tb3(2) by (simp_all add: owned_def)
    have d: "unat (dir_inode (?C 2) i) = ?ino" "sint (dir_inode (?C 2) i) = int ?ino"
      using ino by (simp_all add: inode_of_def sint_small)
    from rd_bat_ok [OF s2(2) tb3(3)] obtain s3 where s3: "rd_bat g 1 s2 = Inr (1, s3)" "tfs_locked ready s s3"
      "content (dev (tw s3)) = ?C" "buffer_bat s3 = ?C 1" "buffer_md s3 = ?C 2" using s2 by auto
    from rd_inode_ok [OF s3(2), of "dir_inode (?C 2) i"] obtain s4 where
      s4: "rd_inode g (dir_inode (?C 2) i) s3 = Inr (1, s4)" "tfs_locked ready s s4" "content (dev (tw s4)) = ?C"
      "buffer_inode s4 = ?C ?ino" "buffer_bat s4 = ?C 1" "buffer_md s4 = ?C 2" using s3 d ino by auto
    obtain b1 where b1: "bitmap_set (words_of (?C 1)) (int ?ino) 0 = Inr b1" "length b1 = 128"
      "\<forall>q. bm_bit b1 q = (q \<noteq> ?ino \<and> bm_bit (words_of (?C 1)) q)"
      using bitmap_clear [OF ino(2), of "words_of (?C 1)"] l by auto
    obtain b2 where b2: "free_loop b1 (?C ?ino) 0 127 = Inr b2" "length b2 = 128"
      "\<forall>q. bm_bit b2 q = (q \<notin> set (alloc_blocks ?C ?ino) \<and> bm_bit b1 q)"
      using free_file [OF ok i(1,2) b1(2)] by blast
    let ?md = "(wr32 (?C 2) (20 * i) 0)[20 * i + 4 := 0]"
    define s5 where "s5 = s4\<lparr>buffer_bat := bytes_of b2, buffer_md := ?md\<rparr>"
    note ce = clear_entry [OF l(2) i(1)]
    have lm: "length ?md = 512" by (rule ce)
    have s5: "tfs_locked ready s s5" "content (dev (tw s5)) = ?C" "buffer_bat s5 = bytes_of b2" "buffer_md s5 = ?md"
      using s4 b2(2) lm by (simp_all add: s5_def)
    from wr_blk_ok [OF s5(1) tb3(3), of "bytes_of b2"] obtain s6 where s6: "wr_blk g 1 (bytes_of b2) s5 = Inr (1, s6)"
      "tfs_locked ready s s6" "content (dev (tw s6)) = ?C(1 := bytes_of b2)" "buffer_md s6 = ?md" using s5 b2(2) by auto
    from wr_blk_ok [OF s6(2) tb3(4), of ?md] obtain s7 where s7: "wr_blk g 2 ?md s6 = Inr (1, s7)"
      "tfs_locked ready s s7" "content (dev (tw s7)) = ?C(1 := bytes_of b2, 2 := ?md)" using s6 lm by auto
    have rm: "tfs_remove g s fname = leave 0 s7"
      using s1(1) s2(1,4) s3(1,5) s4 d(2) b1(1) b2(1) dir_search_found [OF ok nm i(1-3)] i(1) s6(1,4) s7(1) s5(3,4)
      by (simp add: tfs_remove_def Let_def s5_def [symmetric])
    let ?C' = "?C(1 := bytes_of b2, 2 := ?md)"
    have out: "outside_entry (?C 2) (?C' 2) i" "dir_inode (?C' 2) i = 0" "?C' 2 ! (20 * i + 4) = 0" using ce by simp_all
    have ow: "set (owned ?C i) = insert ?ino (set (alloc_blocks ?C ?ino))" by (simp add: owned_def)
    have "fs_ok tb ?C'" "fs_map ?C' = (fs_map ?C)(nm := None)"
      by (rule remove_content [where C = ?C and C' = ?C', OF ok i(1-3) out]; use lm b2 b1(3) ow in auto)+
    moreover have "\<forall>x f. x \<noteq> nm \<and> file_id ?C x f \<longrightarrow> file_id ?C' x f"
      using file_id_outside [where C = ?C and C' = ?C', OF l(2) out(1)] i(3) by blast
    ultimately show ?thesis using rm leave_ok [OF s s7(2), of 0] s7(3) i(4) by auto
  qed
qed


section \<open>Creating\<close>

lemma zero_blocks_ok:
  assumes "tfs_ready ready tb s0" "tfs_locked ready s0 s" "i + n \<le> 127"
    and "\<And>j. i \<le> j \<Longrightarrow> j < i + n \<Longrightarrow> unat (blkw (buffer_inode s) j) < tb"
  shows "\<exists>s'. zero_blocks g s i n = Inr (0, s') \<and> tfs_ready ready tb s' \<and> tfs_same s0 s'
    \<and> content (dev (tw s')) = (\<lambda>b. if b \<in> (\<lambda>j. unat (blkw (buffer_inode s) j)) ` {i..<i + n} then buffer_bat s
        else content (dev (tw s)) b)"
  using assms(2-4)
proof (induction n arbitrary: s i)
  case 0
  then show ?case using leave_ok [OF assms(1) 0(1), of 0] by auto
next
  case (Suc n)
  let ?b = "blkw (buffer_inode s) i"
  have bl: "inode_block s (int i) = Inr ?b"
    using Suc.prems lockedD [OF Suc.prems(1)] by (intro inode_block_eq) auto
  from wr_blk_ok [OF Suc.prems(1), of ?b "buffer_bat s"] obtain s1 where s1: "wr_blk g ?b (buffer_bat s) s = Inr (1, s1)"
    "tfs_locked ready s0 s1" "content (dev (tw s1)) = (content (dev (tw s)))(unat ?b := buffer_bat s)"
    "buffer_inode s1 = buffer_inode s" "buffer_bat s1 = buffer_bat s" using Suc.prems lockedD [OF Suc.prems(1)] by auto
  obtain s' where s': "zero_blocks g s1 (Suc i) n = Inr (0, s')" "tfs_ready ready tb s'" "tfs_same s0 s'"
    "content (dev (tw s')) = (\<lambda>b. if b \<in> (\<lambda>j. unat (blkw (buffer_inode s) j)) ` {Suc i..<Suc i + n} then buffer_bat s
        else content (dev (tw s1)) b)"
  proof -
    have "Suc i + n \<le> 127" "\<And>j. Suc i \<le> j \<Longrightarrow> j < Suc i + n \<Longrightarrow> unat (blkw (buffer_inode s1) j) < tb"
      using Suc.prems(2,3) s1(4) by auto
    from Suc.IH [OF s1(2) this] show thesis using that unfolding s1(4,5) by blast
  qed
  have "{i..<i + Suc n} = insert i {Suc i..<Suc i + n}" by auto
  then have "content (dev (tw s')) = (\<lambda>b. if b \<in> (\<lambda>j. unat (blkw (buffer_inode s) j)) ` {i..<i + Suc n} then buffer_bat s
        else content (dev (tw s)) b)"
    using s'(4) s1(3) by (auto simp: fun_eq_iff)
  then show ?case using bl s1(1) s' by auto
qed

text \<open>
  Writing back the blocks of a new file.
\<close>

lemma create_write_ok:
  assumes s0: "tfs_ready ready tb s0" and s: "tfs_locked ready s0 s" and tb3: "3 \<le> tb"
    and p: "unat (dir_inode (buffer_md s) i) = p" "p < tb" "p \<notin> {1, 2}"
    and bl: "\<And>j. j < n \<Longrightarrow> unat (blkw (buffer_inode s) j) = bl ! j" "set bl \<subseteq> {3..<tb} - {p}" "length bl = n" "n \<le> 127"
  shows "\<exists>s'. create_write g s i n = Inr (0, s') \<and> tfs_ready ready tb s' \<and> tfs_same s0 s'
    \<and> content (dev (tw s')) = (\<lambda>b. if b \<in> set bl then replicate 512 0 else if b = p then buffer_inode s
         else if b = 2 then buffer_md s else if b = 1 then buffer_bat s else content (dev (tw s)) b)"
proof -
  note l = lockedD [OF s]
  have u: "unat (1 :: u32) < tb" "unat (2 :: u32) < tb" using tb3 by simp_all
  from wr_blk_ok [OF s u(1) l(2)] obtain s1 where s1: "wr_blk g 1 (buffer_bat s) s = Inr (1, s1)" "tfs_locked ready s0 s1"
    "content (dev (tw s1)) = (content (dev (tw s)))(1 := buffer_bat s)" "buffer_inode s1 = buffer_inode s"
    "buffer_md s1 = buffer_md s" by auto
  from wr_blk_ok [OF s1(2) u(2), of "buffer_md s"] obtain s2 where s2: "wr_blk g 2 (buffer_md s) s1 = Inr (1, s2)"
    "tfs_locked ready s0 s2" "content (dev (tw s2)) = (content (dev (tw s1)))(2 := buffer_md s)"
    "buffer_inode s2 = buffer_inode s" "buffer_md s2 = buffer_md s" using s1 l by auto
  from wr_blk_ok [OF s2(2), of "dir_inode (buffer_md s) i" "buffer_inode s"] obtain s3 where
    s3: "wr_blk g (dir_inode (buffer_md s) i) (buffer_inode s) s2 = Inr (1, s3)" "tfs_locked ready s0 s3"
    "content (dev (tw s3)) = (content (dev (tw s2)))(p := buffer_inode s)" "buffer_inode s3 = buffer_inode s"
    using s2 l p by auto
  let ?s = "s3\<lparr>buffer_bat := replicate 512 0\<rparr>"
  have st: "create_write g s i n = zero_blocks g ?s 0 n"
    using s1 s2 s3 by (simp add: create_write_def)
  have im: "(\<lambda>j. unat (blkw (buffer_inode s) j)) ` {0..<n} = set bl"
    using bl(1,3) by (force simp: set_conv_nth image_iff)
  have "unat (blkw (buffer_inode ?s) j) < tb" if "j < n" for j
  proof -
    have "bl ! j \<in> set bl" using that bl(3) by simp
    then show ?thesis using bl(1,2) that s3(4) by auto
  qed
  with zero_blocks_ok [OF s0, of ?s 0 n] s3(2) bl(4) obtain s' where
    s': "zero_blocks g ?s 0 n = Inr (0, s')" "tfs_ready ready tb s'" "tfs_same s0 s'"
    "content (dev (tw s')) = (\<lambda>b. if b \<in> (\<lambda>j. unat (blkw (buffer_inode ?s) j)) ` {0..<0 + n} then buffer_bat ?s
        else content (dev (tw ?s)) b)" by auto
  have "content (dev (tw s')) = (\<lambda>b. if b \<in> set bl then replicate 512 0 else if b = p then buffer_inode s
         else if b = 2 then buffer_md s else if b = 1 then buffer_bat s else content (dev (tw s)) b)"
    using s'(4) s3(3,4) s2(3) s1(3) im p(3) by (auto simp: fun_eq_iff)
  then show ?thesis using st s' by auto
qed


text \<open>
  Allocation succeeds exactly when there is a block for the inode and enough for the data.
\<close>

lemma create_alloc_ok:
  assumes s0: "tfs_ready ready tb s0" and s: "tfs_locked ready s0 s" and tb3: "3 \<le> tb" "tb \<le> 4096"
    and i: "i < 25" and sz: "sz \<le> 65024"
    and bat: "\<And>b. b < 3 \<Longrightarrow> bm_bit (words_of (buffer_bat s)) b"
    and enough: "nblk sz + 1 \<le> bm.free_count (words_of (buffer_bat s)) tb"
  shows "\<exists>s' p bl bat ib md. create_alloc g s i (int sz) (nblk sz) = Inr (0, s') \<and> tfs_ready ready tb s' \<and> tfs_same s0 s'
    \<and> distinct (p # bl) \<and> set (p # bl) \<subseteq> bm.free_slots (words_of (buffer_bat s)) tb \<and> length bl = nblk sz
    \<and> length ib = 512 \<and> rd32 ib 0 = of_nat sz
    \<and> (\<forall>j < 127. blkw ib j = (if j < nblk sz then of_nat (bl ! j) else 0))
    \<and> length bat = 512 \<and> (\<forall>b. bm_bit (words_of bat) b = (b \<in> set (p # bl) \<or> bm_bit (words_of (buffer_bat s)) b))
    \<and> md = wr32 (buffer_md s) (20 * i) (of_nat p)
    \<and> content (dev (tw s')) = (\<lambda>b. if b \<in> set bl then replicate 512 0 else if b = p then ib
         else if b = 2 then md else if b = 1 then bat else content (dev (tw s)) b)"
proof -
  note l = lockedD [OF s]
  let ?bat = "words_of (buffer_bat s)"
  have t: "totalblocks s = of_nat tb" using l(4) s0 by (simp add: tfs_ready_def)
  have cov: "bm_covers ?bat tb" using l tb3(2) by (simp add: bm_covers_def)
  obtain p bat1 where p: "bitmap_findnset ?bat (int tb) = Inr (int p, bat1)" "p \<in> bm.free_slots ?bat tb" "bm_covers bat1 tb"
    "length bat1 = length ?bat" "\<forall>q. bm_bit bat1 q = (q = p \<or> bm_bit ?bat q)"
    "bm.free_slots bat1 tb = bm.free_slots ?bat tb - {p}" "bm.free_count bat1 tb = bm.free_count ?bat tb - 1"
    using claim_step [OF cov] enough by auto
  let ?ib = "wr32 (buffer_inode s) 0 (word_of_int (int sz))"
  have ib: "length ?ib = 512" "rd32 ?ib 0 = of_nat sz" using l rd32_wr32_same [of 0 "buffer_inode s"] by simp_all
  have n: "nblk sz \<le> 127" "nblk sz \<le> bm.free_count bat1 tb" using nblk_le [OF sz] enough p(7) by simp_all
  obtain bl bat2 ib2 where a: "alloc_loop bat1 (of_nat tb) ?ib 0 (nblk sz) = Inr (True, bat2, ib2)" "length bl = nblk sz" "distinct bl"
    "set bl \<subseteq> bm.free_slots bat1 tb" "length bat2 = length bat1" "\<forall>q. bm_bit bat2 q = (q \<in> set bl \<or> bm_bit bat1 q)"
    "length ib2 = 512" "rd32 ib2 0 = rd32 ?ib 0"
    "\<forall>j < 127. blkw ib2 j = (if 0 \<le> j \<and> j < 0 + nblk sz then of_nat (bl ! (j - 0)) else blkw ?ib j)"
    using alloc_loop_ok [OF p(3) tb3(2) ib(1), of 0 "nblk sz"] n by auto
  let ?ib3 = "clear_rest ib2 (nblk sz) (127 - nblk sz)" and ?md = "wr32 (buffer_md s) (20 * i) (of_nat p)"
  have c: "length ?ib3 = 512" "rd32 ?ib3 0 = of_nat sz"
    "\<forall>j < 127. blkw ?ib3 j = (if j < nblk sz then of_nat (bl ! j) else 0)"
    using clear_rest_eq [OF a(7), of "nblk sz" "127 - nblk sz"] n a(8,9) ib(2) by auto
  have fs: "b < tb" "3 \<le> b" "b < 4096" if "b \<in> set (p # bl)" for b
  proof -
    have "b \<in> bm.free_slots ?bat tb" using that p(2,6) a(4) by auto
    then show "b < tb" "3 \<le> b" "b < 4096" using bat [of b] tb3(2) by (auto simp: bm.free_slots_def not_le [symmetric])
  qed
  define s1 where "s1 = s\<lparr>buffer_md := ?md, buffer_bat := bytes_of bat2, buffer_inode := ?ib3\<rparr>"
  have lm: "length ?md = 512" using l i by simp
  have lb: "length bat2 = 128" using a(5) p(4) l by simp
  have s1: "tfs_locked ready s0 s1" "buffer_md s1 = ?md" "buffer_bat s1 = bytes_of bat2" "buffer_inode s1 = ?ib3"
    "content (dev (tw s1)) = content (dev (tw s))"
    using s lm lb c(1) by (simp_all add: s1_def)
  have st: "create_alloc g s i (int sz) (nblk sz) = create_write g s1 i (nblk sz)"
  proof -
    have "s\<lparr>buffer_md := ?md, buffer_bat := bytes_of bat1, buffer_bat := bytes_of bat2, buffer_inode := ib2, buffer_inode := ?ib3\<rparr> = s1"
      by (simp add: s1_def)
    then show ?thesis
      using p(1) a(1) tb3(2) by (simp add: create_alloc_def t sint_of_nat Let_def)
  qed
  have di: "unat (dir_inode (buffer_md s1) i) = p"
    using l i fs [of p] rd32_wr32_same [of "20 * i" "buffer_md s"] by (simp add: s1(2) dir_inode_def unat_of_nat)
  have bj: "unat (blkw (buffer_inode s1) j) = bl ! j" if "j < nblk sz" for j
    using c(3) that n(1) fs [of "bl ! j"] a(2) by (simp add: s1(4) unat_of_nat)
  have disj: "p \<notin> set bl" using a(4) p(6) by auto
  from create_write_ok [OF s0 s1(1) tb3(1) di, of "nblk sz" bl] obtain s' where
    s': "create_write g s1 i (nblk sz) = Inr (0, s')" "tfs_ready ready tb s'" "tfs_same s0 s'"
    "content (dev (tw s')) = (\<lambda>b. if b \<in> set bl then replicate 512 0 else if b = p then buffer_inode s1
         else if b = 2 then buffer_md s1 else if b = 1 then buffer_bat s1 else content (dev (tw s1)) b)"
    using fs bj a(2) n(1) disj by fastforce
  have "create_alloc g s i (int sz) (nblk sz) = Inr (0, s')" using st s'(1) by simp
  moreover have "distinct (p # bl)" "set (p # bl) \<subseteq> bm.free_slots ?bat tb" using disj a(3,4) p(2,6) by auto
  moreover have "length (bytes_of bat2) = 512" using lb by simp
  moreover have "\<forall>b. bm_bit (words_of (bytes_of bat2)) b = (b \<in> set (p # bl) \<or> bm_bit ?bat b)" using a(6) p(5) by auto
  moreover have "content (dev (tw s')) = (\<lambda>b. if b \<in> set bl then replicate 512 0 else if b = p then ?ib3
         else if b = 2 then ?md else if b = 1 then bytes_of bat2 else content (dev (tw s)) b)"
    unfolding s'(4) s1(2-5) by (rule refl)
  ultimately show ?thesis using s'(2,3) a(2) c by blast
qed

lemma create_alloc_full:
  assumes s0: "tfs_ready ready tb s0" and s: "tfs_locked ready s0 s" and tb3: "tb \<le> 4096" and i: "i < 25" and sz: "sz \<le> 65024"
    and full: "bm.free_count (words_of (buffer_bat s)) tb < nblk sz + 1"
  shows "\<exists>s'. create_alloc g s i (int sz) (nblk sz) = Inr (-2, s') \<and> tfs_ready ready tb s' \<and> tfs_same s0 s'
    \<and> content (dev (tw s')) = content (dev (tw s))"
proof -
  note l = lockedD [OF s]
  let ?bat = "words_of (buffer_bat s)"
  have t: "totalblocks s = of_nat tb" using l(4) s0 by (simp add: tfs_ready_def)
  have cov: "bm_covers ?bat tb" using l tb3 by (simp add: bm_covers_def)
  have leave: "\<exists>s'. leave (-2) (s\<lparr>buffer_md := md, buffer_bat := bat, buffer_inode := ib\<rparr>) = Inr (-2, s') \<and> tfs_ready ready tb s' \<and> tfs_same s0 s'
    \<and> content (dev (tw s')) = content (dev (tw s))" if "length md = 512" "length bat = 512" "length ib = 512" for md bat ib
    using leave_ok [OF s0, of "s\<lparr>buffer_md := md, buffer_bat := bat, buffer_inode := ib\<rparr>" "-2"] s that by simp
  show ?thesis
  proof (cases "bm.free_count ?bat tb = 0")
    case True
    let ?s = "s\<lparr>buffer_md := wr32 (buffer_md s) (20 * i) (- 1), buffer_bat := bytes_of ?bat\<rparr>"
    have "create_alloc g s i (int sz) (nblk sz) = leave (-2) ?s"
      using bm.claim_full [OF cov True] tb3 by (simp add: create_alloc_def t sint_of_nat Let_def)
    moreover have "tfs_locked ready s0 ?s" using s l i by simp
    ultimately show ?thesis using leave_ok [OF s0, of ?s "-2"] by simp
  next
    case False
    then obtain p bat1 where p: "bitmap_findnset ?bat (int tb) = Inr (int p, bat1)" "bm_covers bat1 tb"
      "length bat1 = length ?bat" "bm.free_count bat1 tb = bm.free_count ?bat tb - 1" using claim_step [OF cov] by auto
    then have f: "bm.free_count bat1 tb < nblk sz" using full False by simp
    obtain bat2 ib2 where "alloc_loop bat1 (of_nat tb) (wr32 (buffer_inode s) 0 (word_of_int (int sz))) 0 (nblk sz) = Inr (False, bat2, ib2)"
      "length bat2 = length bat1" "length ib2 = 512"
      using alloc_loop_full [OF p(2) tb3, of "wr32 (buffer_inode s) 0 (word_of_int (int sz))" 0 "nblk sz"] f nblk_le [OF sz] l by auto
    then show ?thesis
      using p tb3 l(1-3) i leave [of "wr32 (buffer_md s) (20 * i) (of_nat p)" "bytes_of bat2" ib2]
      by (simp add: create_alloc_def t sint_of_nat Let_def)
  qed
qed


lemma create_ok:
  fixes s :: "'d tfs_t" and sz :: int
  defines "C \<equiv> content (dev (tw s))"
  assumes s: "tfs_ready ready tb s" and ok: "fs_ok tb C" and nm: "cstr nm fname" "nm \<noteq> []" "length nm \<le> 15"
    and sz: "0 \<le> sz" "sz < 2 ^ 31"
  shows "\<exists>r s'. tfs_create g s fname sz = Inr (r, s') \<and> tfs_ready ready tb s' \<and> tfs_same s s'
    \<and> fs_ok tb (content (dev (tw s')))
    \<and> (if sz \<le> 65024 \<and> fs_map C nm = None \<and> (\<exists>i < 25. \<not> used C i) \<and> nblk (nat sz) + 1 \<le> card (fs_free tb C)
       then r = 0 \<and> fs_map (content (dev (tw s'))) = (fs_map C)(nm \<mapsto> replicate (nat sz) 0)
         \<and> (\<forall>x f. x \<noteq> nm \<and> file_id C x f \<longrightarrow> file_id (content (dev (tw s'))) x f)
       else r = -2 \<and> content (dev (tw s')) = C)"
proof -
  have tb3: "3 \<le> tb" "tb \<le> 4096" "unat (1 :: u32) < tb" "unat (2 :: u32) < tb" using fs_okD(1,2) [OF ok] by simp_all
  have l: "length (C 1) = 512" "length (C 2) = 512" using fs_okD(3) [OF ok] tb3 by auto
  obtain s1 where s1: "tfs_P s = Inr s1" "tfs_locked ready s s1" "content (dev (tw s1)) = C"
    using P_ok [OF s] C_def by blast
  have fail: ?thesis if "tfs_create g s fname sz = leave (-2) s'" "tfs_locked ready s s'" "content (dev (tw s')) = C"
      "\<not> (sz \<le> 65024 \<and> fs_map C nm = None \<and> (\<exists>i < 25. \<not> used C i) \<and> nblk (nat sz) + 1 \<le> card (fs_free tb C))" for s'
    using that leave_ok [OF s that(2), of "-2"] ok by auto
  show ?thesis
  proof (cases "sz \<le> 65024")
    case False
    then have "tfs_create g s fname sz = leave (-2) s1"
      using s1(1) create_numblocks_big [of sz] sz(2) by (simp add: tfs_create_def Let_def)
    then show ?thesis using fail [OF _ s1(2,3)] False by blast
  next
    case True
    define n where "n = nat sz"
    have n: "sz = int n" "n \<le> 65024" using True sz(1) by (simp_all add: n_def)
    have nb: "unat (create_numblocks sz) = nblk n" "\<not> 127 < create_numblocks sz"
      using create_numblocks_small [OF n(2)] nblk_le [OF n(2)] by (simp_all add: n(1) word_less_nat_alt)
    from rd_md_ok [OF s1(2) tb3(4)] obtain s2 where s2: "rd_md g 2 s1 = Inr (1, s2)" "tfs_locked ready s s2"
      "content (dev (tw s2)) = C" "buffer_md s2 = C 2" using s1(3) by auto
    have scan: "create_scan (C 2) fname 0 25 (-1) = Inr (if fs_map C nm = None then Some (last_free C) else None)"
      using create_scan_eq [OF ok nm(1,2), of 0 25 "-1"] by (auto simp: fs_map_None last_free_def)
    have cr: "tfs_create g s fname sz =
      (case (if fs_map C nm = None then Some (last_free C) else None) of
            None \<Rightarrow> leave (-2) s2
          | Some index \<Rightarrow>
              if index = -1 then leave (-2) s2
              else
                rbind (put_name (C 2) (nat index) fname) (\<lambda>md.
                io_step (rd_bat g 1 (s2\<lparr>buffer_md := md\<rparr>)) (leave (-2)) (\<lambda>s.
                  create_alloc g s (nat index) sz (nblk n))))"
      using s1(1) s2(1,4) nb scan by (simp add: tfs_create_def Let_def)
    show ?thesis
    proof (cases "fs_map C nm = None \<and> (\<exists>i < 25. \<not> used C i)")
      case False
      then have "tfs_create g s fname sz = leave (-2) s2" using cr last_free_cases [of C] by auto
      then show ?thesis using fail [OF _ s2(2,3)] False by blast
    next
      case True
      then obtain i where i: "i < 25" "last_free C = int i" "\<not> used C i" using last_free_cases [of C] by auto
      obtain md where md: "put_name (C 2) i fname = Inr md" "outside_entry (C 2) md i" "dir_inode md i = dir_inode (C 2) i"
        "take (Suc (length nm)) (dir_name md i) = nm @ [0]" using put_name_eq [OF l(2) i(1) nm(1,3)] by blast
      have lm: "length md = 512" using md(2) by (simp add: outside_entry_def)
      from rd_bat_ok [OF locked_buffers(3) [OF s2(2) lm] tb3(3)] obtain s3 where
        s3: "rd_bat g 1 (s2\<lparr>buffer_md := md\<rparr>) = Inr (1, s3)" "tfs_locked ready s s3" "content (dev (tw s3)) = C"
        "buffer_bat s3 = C 1" "buffer_md s3 = md" using s2(3) by auto
      have cr': "tfs_create g s fname sz = create_alloc g s3 i (int n) (nblk n)"
        using cr True i md(1) s3(1) n(1) by simp
      have fc: "bm.free_slots (words_of (C 1)) tb = fs_free tb C" by (auto simp: bm.free_slots_def fs_free_def)
      then have cd: "bm.free_count (words_of (buffer_bat s3)) tb = card (fs_free tb C)" by (simp add: bm.free_count_def s3(4))
      show ?thesis
      proof (cases "nblk n + 1 \<le> card (fs_free tb C)")
        case False
        then have "bm.free_count (words_of (buffer_bat s3)) tb < nblk n + 1" using cd by simp
        from create_alloc_full [OF s s3(2) tb3(2) i(1) n(2) this] False show ?thesis
          using cr' s3(3) ok by (auto simp: n_def)
      next
        case enough: True
        have bits: "bm_bit (words_of (buffer_bat s3)) b" if "b < 3" for b
          using fs_okD(8) [OF ok, of b] tb3(1) that by (simp add: s3(4))
        from create_alloc_ok [OF s s3(2) tb3(1,2) i(1) n(2) bits] enough cd obtain s' p bl bat ib md2 where
          c: "create_alloc g s3 i (int n) (nblk n) = Inr (0, s')" "tfs_ready ready tb s'" "tfs_same s s'"
          "distinct (p # bl)" "set (p # bl) \<subseteq> fs_free tb C" "length bl = nblk n" "length ib = 512" "rd32 ib 0 = of_nat n"
          "\<forall>j < 127. blkw ib j = (if j < nblk n then of_nat (bl ! j) else 0)" "length bat = 512"
          "\<forall>b. bm_bit (words_of bat) b = (b \<in> set (p # bl) \<or> bm_bit (words_of (C 1)) b)"
          "md2 = wr32 md (20 * i) (of_nat p)"
          "content (dev (tw s')) = (\<lambda>b. if b \<in> set bl then replicate 512 0 else if b = p then ib
             else if b = 2 then md2 else if b = 1 then bat else C b)"
          using fc s3 by auto
        let ?C' = "content (dev (tw s'))"
        have f3: "3 \<le> b" if "b \<in> set (p # bl)" for b
        proof -
          have "b \<in> fs_free tb C" using that c(5) by blast
          then show ?thesis using fs_okD(8) [OF ok, of b] by (auto simp: fs_free_def not_le [symmetric])
        qed
        have C': "?C' 2 = md2" "?C' 1 = bat" "?C' p = ib" "\<And>b. b \<in> set bl \<Longrightarrow> ?C' b = replicate 512 0"
          "\<And>b. b \<notin> {1, 2} \<union> set (p # bl) \<Longrightarrow> ?C' b = C b"
          using c(4,13) f3 [of 1] f3 [of 2] f3 [of p] by auto
        have out: "outside_entry (C 2) (?C' 2) i"
          using outside_entry_trans [OF md(2) outside_entry_wr32 [OF lm i(1)]] by (simp add: C'(1) c(12))
        have di: "dir_inode (?C' 2) i = of_nat p"
          using rd32_wr32_same [of "20 * i" md] lm i(1) by (simp add: C'(1) c(12) dir_inode_def)
        have "drop (20 * i + 4) md2 = drop (20 * i + 4) md" using lm i(1) by (simp add: c(12) wr32_def)
        then have "take (Suc (length nm)) (dir_name (?C' 2) i) = nm @ [0]" using md(4) by (simp add: C'(1) dir_name_def)
        then have en: "entry_name ?C' i = nm" "0 \<in> set (name_bytes ?C' i)"
          using entry_name_eq [of nm ?C' i] nm(1,3) by (auto simp: cstr_def)
        have fresh: "fs_map C nm = None" using True by blast
        have ib: "length (?C' p) = 512" "inode_filesize (?C' p) = of_nat n"
          "\<And>j. j < 127 \<Longrightarrow> blkw (?C' p) j = (if j < nblk n then of_nat (bl ! j) else 0)"
          unfolding C'(3) using c(7-9) by (simp_all add: inode_filesize_def)
        have bat: "length (?C' 1) = 512"
          "\<And>b. b < tb \<Longrightarrow> bm_bit (words_of (?C' 1)) b = (b \<in> set (p # bl) \<or> bm_bit (words_of (C 1)) b)"
          unfolding C'(2) using c(10,11) by blast+
        have nl: "nblk n \<le> length bl" "length bl \<le> 127" using c(6) nblk_le [OF n(2)] by simp_all
        have len: "\<And>b. b \<in> set bl \<Longrightarrow> length (?C' b) = 512" using C'(4) by simp
        note new = add_content [where C = C and C' = ?C' and bl = bl and p = p and sz = n,
          OF ok i(1,3) fresh nm(2) en out di c(4,5) nl n(2) ib(1,2) ib(3) [folded c(6)] len bat C'(5)]
        have "fs_ok tb ?C'" by (rule new)
        moreover have "fs_map ?C' = (fs_map C)(nm \<mapsto> replicate n 0)"
          using new(2) zeros_content [where C = ?C' and bl = bl, OF C'(4) c(6)] by simp
        moreover have "sz \<le> 65024 \<and> fs_map C nm = None \<and> (\<exists>i < 25. \<not> used C i) \<and> nblk n + 1 \<le> card (fs_free tb C)"
          using True enough \<open>sz \<le> 65024\<close> by blast
        moreover have "\<forall>x f. x \<noteq> nm \<and> file_id C x f \<longrightarrow> file_id ?C' x f"
          using file_id_outside [where C = C and C' = ?C', OF l(2) out] i(3) by blast
        ultimately show ?thesis
          unfolding n_def [symmetric] using cr' c(1-3) by (intro exI [of _ 0] exI [of _ s']) (simp only: if_True simp_thms)
      qed
    qed
  qed
qed


section \<open>Reading\<close>

text \<open>
  \<open>file_at s fb\<close>: the inode in the buffer lists the blocks \<open>fb\<close>, all of them data blocks of
  the volume.
\<close>

definition file_at :: "'d tfs_t \<Rightarrow> nat list \<Rightarrow> bool" where
  "file_at s fb \<longleftrightarrow> length fb \<le> 127 \<and> (\<forall>j < length fb. unat (blkw (buffer_inode s) j) = fb ! j)
     \<and> (\<forall>b \<in> set fb. b < tb \<and> length (content (dev (tw s)) b) = 512)"

lemma file_atD:
  assumes "file_at s fb" "tfs_locked ready s0 s" "k < length fb"
  shows "inode_block s (int k) = Inr (blkw (buffer_inode s) k)" "unat (blkw (buffer_inode s) k) = fb ! k" "fb ! k < tb"
    "length (content (dev (tw s)) (fb ! k)) = 512"
  using assms nth_mem [OF assms(3)] lockedD(1) [OF assms(2)] by (auto simp: file_at_def inode_block_eq)

lemma file_at_length:
  "file_at s fb \<Longrightarrow> length (concat (map (content (dev (tw s))) fb)) = 512 * length fb"
  by (rule length_concat_blocks) (simp add: file_at_def)

lemma read_loop_ok:
  assumes s0: "tfs_ready ready tb s0"
    and b2: "b2 < length fb" "512 * b2 < off + n" "off + n \<le> 512 * (b2 + 1)" and n: "n \<le> length bf0"
    and A: "A = concat (map C fb)"
  shows "tfs_locked ready s0 s \<Longrightarrow> file_at s fb \<Longrightarrow> content (dev (tw s)) = C \<Longrightarrow> b1 \<le> b2 + 1 \<Longrightarrow>
    (b1 \<le> b2 \<Longrightarrow> 512 * b1 = off + m \<and> pos = int m) \<Longrightarrow> (b1 = b2 + 1 \<Longrightarrow> m = n) \<Longrightarrow> m \<le> n \<Longrightarrow>
    bf = put_at bf0 0 (take m (drop off A)) \<Longrightarrow>
    \<exists>s'. read_loop g s bf pos (int b1) (int b2) (int n) (int m) = Inr (int n, put_at bf0 0 (take n (drop off A)), s')
      \<and> tfs_ready ready tb s' \<and> tfs_same s0 s' \<and> content (dev (tw s')) = C"
proof (induction "b2 + 1 - b1" arbitrary: s b1 m pos bf)
  case 0
  then have "b1 = b2 + 1" by simp
  then have "read_loop g s bf pos (int b1) (int b2) (int n) (int m) = leave_buf (int n) bf s" "m = n"
    using 0 by (simp_all add: read_loop.simps)
  then show ?case using leave_buf_ok [OF s0 0(2), of "int n" bf] 0 by auto
next
  case (Suc d)
  then have le: "b1 \<le> b2" by simp
  then have b1: "512 * b1 = off + m" "pos = int m" "b1 < length fb" using Suc.prems(5) b2(1) by auto
  note f = file_atD [OF Suc.prems(2,1) b1(3)]
  have lA: "length A = 512 * length fb" using file_at_length [OF Suc.prems(2)] Suc.prems(3) A by simp
  have onA: "off + n \<le> length A" using lA b2 by simp
  have ltm: "length (take m (drop off A)) = m" using onA Suc.prems(7) by simp
  have lbf: "length bf = length bf0" using Suc.prems(7,8) n ltm by simp
  from rd_bat_ok [OF Suc.prems(1), of "blkw (buffer_inode s) b1"] f Suc.prems(3) obtain s1 where
    s1: "rd_bat g (blkw (buffer_inode s) b1) s = Inr (1, s1)" "tfs_locked ready s0 s1" "content (dev (tw s1)) = C"
    "buffer_bat s1 = C (fb ! b1)" "buffer_inode s1 = buffer_inode s" by auto
  have fa: "file_at s1 fb" using Suc.prems(2,3) s1(3,5) by (simp add: file_at_def)
  have more: "put_at bf m (take k (drop 0 (C (fb ! b1)))) = put_at bf0 0 (take (m + k) (drop off A))" if "k \<le> 512" "m + k \<le> n" for k
  proof -
    have "take k (drop 0 (C (fb ! b1))) = take k (drop (512 * b1 + 0) (concat (map C fb)))"
      by (rule take_block) (use Suc.prems(2,3) b1(3) that in \<open>auto simp: file_at_def\<close>)
    then have "take k (drop 0 (C (fb ! b1))) = take k (drop (off + m) A)" using b1(1) A by simp
    then show ?thesis
      using put_at_put_at [of 0 "take m (drop off A)" bf0 "take k (drop (off + m) A)"] Suc.prems(7,8) n ltm
      by (simp add: take_drop_add)
  qed
  have lc: "length (C (fb ! b1)) = 512" using f(4) Suc.prems(3) by simp
  show ?case
  proof (cases "b1 = b2")
    case True
    have k: "n - m \<le> 512" using b2(3) b1(1) True by simp
    have bl: "blit (int n - int m) bf pos (C (fb ! b1)) 0 = Inr (put_at bf0 0 (take n (drop off A)))"
      using blit_put_at [of m "n - m" bf 0 "C (fb ! b1)"] more [of "n - m"] k Suc.prems(7) lbf lc n b1(2)
      by (simp add: of_nat_diff)
    have "read_loop g s bf pos (int b1) (int b2) (int n) (int m) =
        read_loop g s1 (put_at bf0 0 (take n (drop off A))) pos (int (b1 + 1)) (int b2) (int n) (int n)"
      using True f(1) s1(1,4) bl by (subst read_loop.simps) (simp add: add.commute)
    moreover have "d = b2 + 1 - (b1 + 1)" using Suc.hyps(2) by simp
    ultimately show ?thesis
      using Suc.hyps(1) [of "b1 + 1" s1 n pos "put_at bf0 0 (take n (drop off A))"] s1(2,3) fa True by simp
  next
    case False
    then have lt: "b1 < b2" using le by simp
    then have "512 * (b1 + 1) \<le> 512 * b2" by simp
    then have m: "m + 512 \<le> n" using b2(2) b1(1) by simp
    have bl: "blit 512 bf pos (C (fb ! b1)) 0 = Inr (put_at bf0 0 (take (m + 512) (drop off A)))"
      using blit_put_at [of m 512 bf 0 "C (fb ! b1)"] more [of 512] m lbf lc n b1(2) by simp
    have "read_loop g s bf pos (int b1) (int b2) (int n) (int m) =
        read_loop g s1 (put_at bf0 0 (take (m + 512) (drop off A))) (int (m + 512)) (int (b1 + 1)) (int b2) (int n) (int (m + 512))"
      using le False f(1) s1(1,4) bl b1(2) by (subst read_loop.simps) (simp add: add.commute)
    moreover have "d = b2 + 1 - (b1 + 1)" using Suc.hyps(2) by simp
    ultimately show ?thesis
      using Suc.hyps(1) [of "b1 + 1" s1 "m + 512" "int (m + 512)" "put_at bf0 0 (take (m + 512) (drop off A))"] s1(2,3) fa lt m b1(1)
      by simp
  qed
qed


text \<open>
  Every access to a file starts by reading its inode.
\<close>

lemma inode_access:
  fixes s :: "'d tfs_t"
  defines "C \<equiv> content (dev (tw s))"
  assumes s: "tfs_ready ready tb s" and ok: "fs_ok tb C" and i: "i < 25" "used C i"
  obtains s1 s2 where "tfs_P s = Inr s1" "\<not> (int (inode_of C i) < 2 \<or> int (inode_of C i) > sint (totalblocks s1))"
    "rd_inode g (word_of_int (int (inode_of C i))) s1 = Inr (1, s2)" "tfs_locked ready s s2" "content (dev (tw s2)) = C"
    "sint (inode_filesize (buffer_inode s2)) = int (fsize C (inode_of C i))" "file_at s2 (file_blocks C (inode_of C i))"
    "fsize C (inode_of C i) \<le> 512 * length (file_blocks C (inode_of C i))"
    "length (file_blocks C (inode_of C i)) = nblk (fsize C (inode_of C i))"
proof -
  let ?ino = "inode_of C i" and ?fb = "file_blocks C (inode_of C i)"
  note e = fs_okD(4) [OF ok i]
  have tb3: "tb \<le> 4096" using fs_okD(2) [OF ok] .
  have ino: "3 \<le> ?ino" "?ino < tb" using owned_not_system [OF ok i, of ?ino] by (simp_all add: owned_def)
  obtain s1 where s1: "tfs_P s = Inr s1" "tfs_locked ready s s1" "content (dev (tw s1)) = C"
    using P_ok [OF s] C_def by blast
  have t: "sint (totalblocks s1) = int tb"
    using lockedD(4) [OF s1(2)] s tb3 by (simp add: tfs_ready_def sint_of_nat)
  have u: "unat (of_nat ?ino :: u32) = ?ino" using ino tb3 by (simp add: unat_of_nat)
  with rd_inode_ok [OF s1(2), of "of_nat ?ino"] ino s1(3) obtain s2 where
    s2: "rd_inode g (of_nat ?ino) s1 = Inr (1, s2)" "tfs_locked ready s s2" "content (dev (tw s2)) = C" "buffer_inode s2 = C ?ino"
    by auto
  have sz: "fsize C ?ino \<le> 65024" using e by (simp add: entry_ok_def)
  have "nblk (fsize C ?ino) \<le> length (alloc_blocks C ?ino)" using e by (simp add: entry_ok_def)
  note fb = file_blocks_nth [OF this]
  have "sint (inode_filesize (C ?ino)) = int (fsize C ?ino)" using sz by (simp add: sint_small fsize_def)
  moreover have "file_at s2 ?fb"
  proof -
    have "b < tb \<and> length (C b) = 512" if "b \<in> set ?fb" for b
      using owned_not_system(2) [OF ok i, of b] fs_okD(3) [OF ok, of b] that file_blocks_sub [of C ?ino] by (auto simp: owned_def)
    moreover have "length ?fb \<le> 127" using nblk_le [OF sz] fb(1) by simp
    ultimately show ?thesis
      by (simp add: file_at_def s2(3,4)) (simp add: fb blk_def)
  qed
  moreover have "fsize C ?ino \<le> 512 * length ?fb" by (simp add: fb(1) nblk_def)
  ultimately show thesis using that [OF s1(1) _ _ s2(2,3)] s2 ino t fb(1) by simp
qed

lemma read_ok:
  fixes s :: "'d tfs_t" and i bufsize off :: nat
  defines "C \<equiv> content (dev (tw s))"
  defines "data \<equiv> file_data C (inode_of C i)"
  defines "n \<equiv> min bufsize (length data - off)"
  assumes s: "tfs_ready ready tb s" and ok: "fs_ok tb C" and i: "i < 25" "used C i" and bf: "n \<le> length bf"
  shows "\<exists>s'. tfs_read g s (int (inode_of C i)) bf (int bufsize) (int off) =
      Inr (if off \<le> length data then (int n, put_at bf 0 (take n (drop off data)), s') else (-2, bf, s'))
    \<and> tfs_ready ready tb s' \<and> tfs_same s s' \<and> content (dev (tw s')) = C"
proof -
  let ?ino = "inode_of C i" and ?fb = "file_blocks C (inode_of C i)" and ?A = "concat (map C (file_blocks C (inode_of C i)))"
  have ok': "fs_ok tb (content (dev (tw s)))" and i': "used (content (dev (tw s))) i" using ok i C_def by simp_all
  obtain s1 s2 where a: "tfs_P s = Inr s1" "\<not> (int ?ino < 2 \<or> int ?ino > sint (totalblocks s1))"
    "rd_inode g (word_of_int (int ?ino)) s1 = Inr (1, s2)" "tfs_locked ready s s2" "content (dev (tw s2)) = C"
    "sint (inode_filesize (buffer_inode s2)) = int (fsize C ?ino)" "file_at s2 ?fb"
    "fsize C ?ino \<le> 512 * length ?fb"
    using inode_access [OF s ok' i(1) i', folded C_def] by blast
  have lA: "length ?A = 512 * length ?fb" using file_at_length [OF a(7)] a(5) by simp
  have ld: "length data = fsize C ?ino" using a(8) lA by (simp add: data_def file_data_def)
  show ?thesis
  proof (cases "off \<le> fsize C ?ino")
    case False
    then have "tfs_read g s (int ?ino) bf (int bufsize) (int off) = leave_buf (-2) bf s2"
      using a by (simp add: tfs_read_def Let_def)
    then show ?thesis using leave_buf_ok [OF s a(4), of "-2" bf] False ld a(5) by auto
  next
    case True
    have nn: "min (int bufsize) (int (fsize C ?ino) - int off) = int n" using True by (simp add: n_def ld of_nat_diff)
    show ?thesis
    proof (cases "n = 0")
      case n0: True
      have "tfs_read g s (int ?ino) bf (int bufsize) (int off) = leave_buf 0 bf s2"
        using a(1-3,6) True nn n0 by (simp add: tfs_read_def Let_def)
      then show ?thesis using leave_buf_ok [OF s a(4), of 0 bf] True ld a(5) n0 by auto
    next
      case False
      define b1 b2 where "b1 = off div 512" and "b2 = (off + n - 1) div 512"
      have on: "off + n \<le> fsize C ?ino" using True by (simp add: n_def ld)
      have b2: "b2 < length ?fb" "512 * b2 < off + n" "off + n \<le> 512 * (b2 + 1)" "b1 + 1 \<le> b2 + 1"
        using on a(8) False unfolding b1_def b2_def by (linarith | simp add: div_le_mono)+
      have "int off + int n - 1 = int (off + n - 1)" using False by simp
      then have b2i: "int off sdiv 512 = int b1" "(int off + int n - 1) sdiv 512 = int b2" by (simp_all only: sdiv_512 b1_def b2_def)
      have b1: "b1 < length ?fb" "512 * b1 + off mod 512 = off" using b2 by (simp_all add: b1_def)
      note f = file_atD [OF a(7,4) b1(1)]
      from rd_bat_ok [OF a(4), of "blkw (buffer_inode s2) b1"] f a(5) obtain s3 where
        s3: "rd_bat g (blkw (buffer_inode s2) b1) s2 = Inr (1, s3)" "tfs_locked ready s s3" "content (dev (tw s3)) = C"
        "buffer_bat s3 = C (?fb ! b1)" "buffer_inode s3 = buffer_inode s2" by auto
      have fa: "file_at s3 ?fb" using a(5,7) s3(3,5) by (simp add: file_at_def)
      define m where "m = min (512 - off mod 512) n"
      have mi: "min (512 - int off smod 512) (int n) = int m" by (simp add: m_def of_nat_diff)
      have m: "m \<le> n" "off mod 512 + m \<le> 512" by (simp_all add: m_def)
      have first: "take m (drop (off mod 512) (C (?fb ! b1))) = take m (drop off ?A)"
        using take_block [of ?fb C b1 "off mod 512" m] a(5,7) b1 m(2) by (simp add: file_at_def)
      have bl: "blit (int m) bf 0 (C (?fb ! b1)) (int off smod 512) = Inr (put_at bf 0 (take m (drop off ?A)))"
        using blit_put_at [of 0 m bf "off mod 512" "C (?fb ! b1)"] first m bf f(4) a(5) by simp
      have st: "tfs_read g s (int ?ino) bf (int bufsize) (int off) =
          read_loop g s3 (put_at bf 0 (take m (drop off ?A))) (int m) (int b1 + 1) (int b2) (int n) (int m)"
        using a(1-3,6) True nn False f(1) s3(1,4) mi bl
        by (simp add: tfs_read_def Let_def b2i del: smod_512 sdiv_512)
      have p2: "512 * (b1 + 1) = off + m \<and> int m = int m" if "b1 + 1 \<le> b2"
      proof -
        have "512 * (b1 + 1) \<le> 512 * b2" using that by simp
        then show ?thesis using b2(2) b1(2) by (simp add: m_def)
      qed
      have p3: "m = n" if "b1 + 1 = b2 + 1" using that b2(3) b1(2) by (simp add: m_def)
      have e: "int (b1 + 1) = int b1 + 1" by simp
      have d: "take n (drop off ?A) = take n (drop off data)"
        using on by (simp add: data_def file_data_def drop_take min_absorb1)
      from read_loop_ok [OF s b2(1-3) bf refl s3(2) fa s3(3) b2(4) p2 p3 m(1) refl, unfolded e] st True ld d
      show ?thesis by auto
    qed
  qed
qed


section \<open>Writing\<close>

lemma file_at_bat [simp]: "file_at (s\<lparr>buffer_bat := bf\<rparr>) fb = file_at s fb"
  by (simp add: file_at_def)

text \<open>
  Writing a block of the file changes the contents of the file at one place.
\<close>

lemma block_write:
  assumes s: "tfs_locked ready s0 s" "file_at s fb" and fb: "distinct fb" "k < length fb" and ys: "j + length ys \<le> 512"
    and bat: "bat = put_at (content (dev (tw s)) (fb ! k)) j ys"
  shows "\<exists>s1. rbind (inode_block (s\<lparr>buffer_bat := bat\<rparr>) (int k)) (\<lambda>b.
      io_step (wr_blk g b (buffer_bat (s\<lparr>buffer_bat := bat\<rparr>)) (s\<lparr>buffer_bat := bat\<rparr>)) err cont) = cont s1
    \<and> tfs_locked ready s0 s1 \<and> file_at s1 fb \<and> (\<forall>b. b \<notin> set fb \<longrightarrow> content (dev (tw s1)) b = content (dev (tw s)) b)
    \<and> concat (map (content (dev (tw s1))) fb) = put_at (concat (map (content (dev (tw s))) fb)) (512 * k + j) ys"
proof -
  let ?C = "content (dev (tw s))" and ?s = "s\<lparr>buffer_bat := bat\<rparr>"
  note f = file_atD [OF s(2,1) fb(2)]
  have lb: "length bat = 512" using bat ys f(4) by simp
  have ls: "tfs_locked ready s0 ?s" using s(1) lb by simp
  have ib: "inode_block ?s (int k) = Inr (blkw (buffer_inode s) k)"
    using file_atD(1) [of ?s fb s0 k] s(2) ls fb(2) by simp
  from wr_blk_ok [OF ls, of "blkw (buffer_inode s) k" bat] f(2,3) lb obtain s1 where
    s1: "wr_blk g (blkw (buffer_inode s) k) bat ?s = Inr (1, s1)" "tfs_locked ready s0 s1"
    "content (dev (tw s1)) = ?C(fb ! k := bat)" "buffer_inode s1 = buffer_inode s" by auto
  have "file_at s1 fb" using s(2) s1(3,4) lb by (auto simp: file_at_def)
  moreover have "concat (map (?C(fb ! k := bat)) fb) = put_at (concat (map ?C fb)) (512 * k + j) ys"
    unfolding bat by (rule put_at_block) (use fb ys s(2) in \<open>auto simp: file_at_def\<close>)
  moreover have "(?C(fb ! k := bat)) b = ?C b" if "b \<notin> set fb" for b using that fb(2) by auto
  ultimately show ?thesis using ib s1 by (intro exI [of _ s1]) simp
qed

text \<open>
  The contents of the buffer before a block is written: read from the disk unless all of it is replaced.
\<close>

lemma fill_buffer:
  assumes s: "tfs_locked ready s0 s" "file_at s fb" and k: "k < length fb" and r: "j + length ys \<le> 512" "r = int (length ys)"
  shows "\<exists>s1. io_step (if r < 512 then rbind (inode_block s (int k)) (\<lambda>b. rd_bat g b s) else Inr (1, s)) err cont = cont s1
    \<and> tfs_locked ready s0 s1 \<and> file_at s1 fb \<and> content (dev (tw s1)) = content (dev (tw s))
    \<and> put_at (buffer_bat s1) j ys = put_at (content (dev (tw s)) (fb ! k)) j ys"
proof (cases "r < 512")
  case True
  note f = file_atD [OF s(2,1) k]
  from rd_bat_ok [OF s(1), of "blkw (buffer_inode s) k"] f obtain s1 where
    "rd_bat g (blkw (buffer_inode s) k) s = Inr (1, s1)" "tfs_locked ready s0 s1"
    "content (dev (tw s1)) = content (dev (tw s))" "buffer_bat s1 = content (dev (tw s)) (fb ! k)"
    "buffer_inode s1 = buffer_inode s" by auto
  moreover from this have "file_at s1 fb" using s(2) by (simp add: file_at_def)
  ultimately show ?thesis using True f(1) by (intro exI [of _ s1]) simp
next
  case False
  then have j: "j = 0" "length ys = 512" using r by simp_all
  have "length (buffer_bat s) = 512" "length (content (dev (tw s)) (fb ! k)) = 512"
    using lockedD [OF s(1)] file_atD(4) [OF s(2,1) k] by simp_all
  then show ?thesis using False s j by (intro exI [of _ s]) (simp add: put_at_whole)
qed

lemma write_loop_ok:
  assumes s0: "tfs_ready ready tb s0" and fb: "distinct fb"
    and b2: "b2 < length fb" "512 * b2 < off + n" "off + n \<le> 512 * (b2 + 1)" and n: "n \<le> length bf" and A: "length A = 512 * length fb"
  shows "tfs_locked ready s0 s \<Longrightarrow> file_at s fb \<Longrightarrow> (\<forall>b. b \<notin> set fb \<longrightarrow> content (dev (tw s)) b = C b) \<Longrightarrow> b1 \<le> b2 + 1 \<Longrightarrow>
    (b1 \<le> b2 \<Longrightarrow> 512 * b1 = off + m \<and> pos = int m) \<Longrightarrow> (b1 = b2 + 1 \<Longrightarrow> m = n) \<Longrightarrow> m \<le> n \<Longrightarrow>
    concat (map (content (dev (tw s))) fb) = put_at A off (take m bf) \<Longrightarrow>
    \<exists>s'. write_loop g s bf pos (int b1) (int b2) (int n) (int m) = Inr (int n, s')
      \<and> tfs_ready ready tb s' \<and> tfs_same s0 s' \<and> (\<forall>b. b \<notin> set fb \<longrightarrow> content (dev (tw s')) b = C b)
      \<and> (\<forall>b \<in> set fb. length (content (dev (tw s')) b) = 512)
      \<and> concat (map (content (dev (tw s'))) fb) = put_at A off (take n bf)"
proof (induction "b2 + 1 - b1" arbitrary: s b1 m pos)
  case 0
  then have "b1 = b2 + 1" by simp
  then have "write_loop g s bf pos (int b1) (int b2) (int n) (int m) = leave (int n) s" "m = n"
    using 0 by (simp_all add: write_loop.simps)
  then show ?case using leave_ok [OF s0 0(2), of "int n"] 0 by (auto simp: file_at_def)
next
  case (Suc d)
  then have le: "b1 \<le> b2" by simp
  then have b1: "512 * b1 = off + m" "pos = int m" "b1 < length fb" using Suc.prems(5) b2(1) by auto
  have more: "put_at (put_at A off (take m bf)) (512 * b1 + 0) (take k (drop m bf)) = put_at A off (take (m + k) bf)" if "m + k \<le> n" for k
    using put_at_put_at [of off "take m bf" A "take k (drop m bf)"] A b2 n that b1(1) by (simp add: take_add)
  have d: "d = b2 + 1 - (b1 + 1)" using Suc.hyps(2) by simp
  show ?case
  proof (cases "b1 = b2")
    case True
    let ?ys = "take (n - m) (drop m bf)"
    have k: "0 + length ?ys \<le> 512" "int n - int m = int (length ?ys)" "length ?ys = n - m"
      using b2(3) b1(1) True Suc.prems(7) n by (simp_all add: of_nat_diff)
    let ?cont = "\<lambda>s. write_loop g s bf pos (int b1 + 1) (int b2) (int n) (int n)"
    let ?rest = "\<lambda>s. rbind (blit (int n - int m) (buffer_bat s) 0 bf pos) (\<lambda>bat.
        rbind (inode_block (s\<lparr>buffer_bat := bat\<rparr>) (int b1)) (\<lambda>b.
          io_step (wr_blk g b (buffer_bat (s\<lparr>buffer_bat := bat\<rparr>)) (s\<lparr>buffer_bat := bat\<rparr>)) (leave (-2)) ?cont))"
    from fill_buffer [OF Suc.prems(1,2) b1(3) k(1,2), where err = "leave (-2)" and cont = ?rest] obtain s1 where
      s1: "io_step (if int n - int m < 512 then rbind (inode_block s (int b1)) (\<lambda>b. rd_bat g b s) else Inr (1, s)) (leave (-2)) ?rest = ?rest s1"
      "tfs_locked ready s0 s1" "file_at s1 fb" "content (dev (tw s1)) = content (dev (tw s))"
      "put_at (buffer_bat s1) 0 ?ys = put_at (content (dev (tw s1)) (fb ! b1)) 0 ?ys" by auto
    have bl: "blit (int n - int m) (buffer_bat s1) 0 bf pos = Inr (put_at (buffer_bat s1) 0 ?ys)"
    proof -
      have nm: "int n - int m = int (n - m)" using Suc.prems(7) by (simp add: of_nat_diff)
      have "blit (int (n - m)) (buffer_bat s1) (int 0) bf (int m) = Inr (put_at (buffer_bat s1) 0 ?ys)"
        by (rule blit_put_at) (use lockedD(2) [OF s1(2)] k(1,3) n Suc.prems(7) in simp_all)
      then show ?thesis unfolding nm b1(2) by (simp only: int_ops(1))
    qed
    from block_write [OF s1(2,3) fb b1(3) k(1) s1(5), where err = "leave (-2)" and cont = ?cont] obtain s2 where
      s2: "?rest s1 = ?cont s2" "tfs_locked ready s0 s2" "file_at s2 fb" "\<forall>b. b \<notin> set fb \<longrightarrow> content (dev (tw s2)) b = C b"
      "concat (map (content (dev (tw s2))) fb) = put_at A off (take n bf)"
      using bl s1(4) Suc.prems(3,8) more [of "n - m"] Suc.prems(7) by auto
    have "write_loop g s bf pos (int b1) (int b2) (int n) (int m) = ?cont s2"
      using True s1(1) s2(1) by (subst write_loop.simps) (simp add: Let_def)
    then show ?thesis using Suc.hyps(1) [OF d s2(2-4), of n pos] True s2(5) by (simp add: add.commute)
  next
    case False
    then have lt: "b1 < b2" using le by simp
    then have "512 * (b1 + 1) \<le> 512 * b2" by simp
    then have m: "m + 512 \<le> n" using b2(2) b1(1) by simp
    let ?ys = "take 512 (drop m bf)"
    have ys: "length ?ys = 512" using m n by simp
    let ?cont = "\<lambda>s. write_loop g s bf (pos + 512) (int b1 + 1) (int b2) (int n) (int m + 512)"
    have bl: "blit 512 (buffer_bat s) 0 bf pos = Inr ?ys"
      using blit_put_at [of 0 512 "buffer_bat s" m bf] lockedD(2) [OF Suc.prems(1)] ys n m b1(2) by (simp add: put_at_whole)
    have "?ys = put_at (content (dev (tw s)) (fb ! b1)) 0 ?ys"
      using put_at_whole [of ?ys] file_atD(4) [OF Suc.prems(2,1) b1(3)] ys by simp
    from block_write [OF Suc.prems(1,2) fb b1(3) _ this, where err = "leave (-2)" and cont = ?cont] ys obtain s2 where
      s2: "rbind (inode_block (s\<lparr>buffer_bat := ?ys\<rparr>) (int b1)) (\<lambda>b.
          io_step (wr_blk g b (buffer_bat (s\<lparr>buffer_bat := ?ys\<rparr>)) (s\<lparr>buffer_bat := ?ys\<rparr>)) (leave (-2)) ?cont) = ?cont s2"
      "tfs_locked ready s0 s2" "file_at s2 fb" "\<forall>b. b \<notin> set fb \<longrightarrow> content (dev (tw s2)) b = C b"
      "concat (map (content (dev (tw s2))) fb) = put_at A off (take (m + 512) bf)"
      using Suc.prems(3,8) more [OF m] by auto
    have st: "write_loop g s bf pos (int b1) (int b2) (int n) (int m) = ?cont s2"
      using le False bl s2(1) by (subst write_loop.simps) (simp add: Let_def)
    have e: "int (b1 + 1) = int b1 + 1" "int (m + 512) = int m + 512" by simp_all
    have "512 * (b1 + 1) = off + (m + 512) \<and> pos + 512 = int (m + 512)" using b1 by simp
    with Suc.hyps(1) [OF d s2(2-4), of "m + 512" "pos + 512", unfolded e] st lt m s2(5) show ?thesis by simp
  qed
qed


lemma write_ok:
  fixes s :: "'d tfs_t" and i datasize off :: nat
  defines "C \<equiv> content (dev (tw s))"
  defines "data \<equiv> file_data C (inode_of C i)"
  defines "n \<equiv> min datasize (length data - off)"
  assumes s: "tfs_ready ready tb s" and ok: "fs_ok tb C" and i: "i < 25" "used C i" and bf: "n \<le> length bf"
  shows "\<exists>s'. tfs_write g s (int (inode_of C i)) bf (int datasize) (int off) =
      Inr (if off \<le> length data then int n else -2, s')
    \<and> tfs_ready ready tb s' \<and> tfs_same s s' \<and> fs_ok tb (content (dev (tw s')))
    \<and> content (dev (tw s')) 2 = C 2 \<and> content (dev (tw s')) 1 = C 1
    \<and> fs_map (content (dev (tw s'))) =
        (fs_map C)(entry_name C i \<mapsto> if off \<le> length data then put_at data off (take n bf) else data)"
proof -
  let ?ino = "inode_of C i" and ?fb = "file_blocks C (inode_of C i)" and ?A = "concat (map C (file_blocks C (inode_of C i)))"
  have ok': "fs_ok tb (content (dev (tw s)))" and i': "used (content (dev (tw s))) i" using ok i C_def by simp_all
  obtain s1 s2 where a: "tfs_P s = Inr s1" "\<not> (int ?ino < 2 \<or> int ?ino > sint (totalblocks s1))"
    "rd_inode g (word_of_int (int ?ino)) s1 = Inr (1, s2)" "tfs_locked ready s s2" "content (dev (tw s2)) = C"
    "sint (inode_filesize (buffer_inode s2)) = int (fsize C ?ino)" "file_at s2 ?fb"
    "fsize C ?ino \<le> 512 * length ?fb"
    using inode_access [OF s ok' i(1) i', folded C_def] by blast
  have lA: "length ?A = 512 * length ?fb" using file_at_length [OF a(7)] a(5) by simp
  have ld: "length data = fsize C ?ino" using a(8) lA by (simp add: data_def file_data_def)
  have fb: "distinct ?fb" using fs_okD(4) [OF ok i] by (simp add: entry_ok_def owned_def file_blocks_def)
  have "fs_map C (entry_name C i) = Some data" using fs_map_Some [OF ok i refl] by (simp add: data_def)
  then have unch: "(fs_map C)(entry_name C i \<mapsto> data) = fs_map C" by (rule map_upd_triv)
  show ?thesis
  proof (cases "off \<le> fsize C ?ino")
    case False
    then have "tfs_write g s (int ?ino) bf (int datasize) (int off) = leave (-2) s2"
      using a by (simp add: tfs_write_def Let_def)
    then show ?thesis using leave_ok [OF s a(4), of "-2"] False ld a(5) ok unch by auto
  next
    case True
    have nn: "min (int datasize) (int (fsize C ?ino) - int off) = int n" using True by (simp add: n_def ld of_nat_diff)
    show ?thesis
    proof (cases "n = 0")
      case n0: True
      have "tfs_write g s (int ?ino) bf (int datasize) (int off) = leave 0 s2"
        using a(1-3,6) True nn n0 by (simp add: tfs_write_def Let_def)
      then show ?thesis using leave_ok [OF s a(4), of 0] True ld a(5) n0 ok unch by auto
    next
      case False
      define b1 b2 where "b1 = off div 512" and "b2 = (off + n - 1) div 512"
      have on: "off + n \<le> fsize C ?ino" using True by (simp add: n_def ld)
      have b2: "b2 < length ?fb" "512 * b2 < off + n" "off + n \<le> 512 * (b2 + 1)" "b1 + 1 \<le> b2 + 1"
        using on a(8) False unfolding b1_def b2_def by (linarith | simp add: div_le_mono)+
      have "int off + int n - 1 = int (off + n - 1)" using False by simp
      then have b2i: "int off sdiv 512 = int b1" "(int off + int n - 1) sdiv 512 = int b2" by (simp_all only: sdiv_512 b1_def b2_def)
      have b1: "b1 < length ?fb" "512 * b1 + off mod 512 = off" using b2 by (simp_all add: b1_def)
      define m where "m = min (512 - off mod 512) n"
      have mi: "min (512 - int off smod 512) (int n) = int m" by (simp add: m_def of_nat_diff)
      let ?ys = "take m bf"
      have m: "m \<le> n" "length ?ys = m" "off mod 512 + length ?ys \<le> 512" "int m = int (length ?ys)"
        using bf by (simp_all add: m_def)
      let ?cont = "\<lambda>s. write_loop g s bf (int m) (int b1 + 1) (int b2) (int n) (int m)"
      let ?rest = "\<lambda>s. rbind (blit (int m) (buffer_bat s) (int off smod 512) bf 0) (\<lambda>bat.
        rbind (inode_block (s\<lparr>buffer_bat := bat\<rparr>) (int b1)) (\<lambda>b.
          io_step (wr_blk g b (buffer_bat (s\<lparr>buffer_bat := bat\<rparr>)) (s\<lparr>buffer_bat := bat\<rparr>)) (leave (-2)) ?cont))"
      from fill_buffer [OF a(4,7) b1(1) m(3,4), where err = "leave (-2)" and cont = ?rest] obtain s3 where
        s3: "io_step (if int m < 512 then rbind (inode_block s2 (int b1)) (\<lambda>b. rd_bat g b s2) else Inr (1, s2)) (leave (-2)) ?rest = ?rest s3"
        "tfs_locked ready s s3" "file_at s3 ?fb" "content (dev (tw s3)) = C"
        "put_at (buffer_bat s3) (off mod 512) ?ys = put_at (content (dev (tw s3)) (?fb ! b1)) (off mod 512) ?ys"
        using a(5) by auto
      have bl: "blit (int m) (buffer_bat s3) (int off smod 512) bf 0 = Inr (put_at (buffer_bat s3) (off mod 512) ?ys)"
      proof -
        have "blit (int m) (buffer_bat s3) (int (off mod 512)) bf (int 0) = Inr (put_at (buffer_bat s3) (off mod 512) (take m (drop 0 bf)))"
          by (rule blit_put_at) (use lockedD(2) [OF s3(2)] m(1-3) bf in simp_all)
        then show ?thesis by (simp only: smod_512 int_ops(1) drop_0)
      qed
      from block_write [OF s3(2,3) fb b1(1) m(3) s3(5), where err = "leave (-2)" and cont = ?cont] obtain s4 where
        s4: "?rest s3 = ?cont s4" "tfs_locked ready s s4" "file_at s4 ?fb" "\<forall>b. b \<notin> set ?fb \<longrightarrow> content (dev (tw s4)) b = C b"
        "concat (map (content (dev (tw s4))) ?fb) = put_at ?A off (take m bf)"
        using bl s3(4) b1(2) by auto
      have st: "tfs_write g s (int ?ino) bf (int datasize) (int off) = ?cont s4"
        using a(1-3,6) True nn False mi s3(1) s4(1)
        by (simp add: tfs_write_def Let_def b2i del: smod_512 sdiv_512)
      have p2: "512 * (b1 + 1) = off + m \<and> int m = int m" if "b1 + 1 \<le> b2"
      proof -
        have "512 * (b1 + 1) \<le> 512 * b2" using that by simp
        then show ?thesis using b2(2) b1(2) by (simp add: m_def)
      qed
      have p3: "m = n" if "b1 + 1 = b2 + 1" using that b2(3) b1(2) by (simp add: m_def)
      have e: "int (b1 + 1) = int b1 + 1" by simp
      from write_loop_ok [OF s fb b2(1-3) bf lA s4(2-4) b2(4) p2 p3 m(1) s4(5), unfolded e] st obtain s' where
        s': "tfs_write g s (int ?ino) bf (int datasize) (int off) = Inr (int n, s')" "tfs_ready ready tb s'" "tfs_same s s'"
        "\<forall>b. b \<notin> set ?fb \<longrightarrow> content (dev (tw s')) b = C b" "\<forall>b \<in> set ?fb. length (content (dev (tw s')) b) = 512"
        "concat (map (content (dev (tw s'))) ?fb) = put_at ?A off (take n bf)" by auto
      let ?C' = "content (dev (tw s'))"
      have len': "\<And>b. b \<in> set ?fb \<Longrightarrow> length (?C' b) = 512" and rest': "\<And>b. b \<notin> set ?fb \<Longrightarrow> ?C' b = C b"
        using s'(4,5) by blast+
      note w = write_content [where C = C and C' = ?C', OF ok i refl len' rest']
      have dir: "?C' 2 = C 2" "?C' 1 = C 1"
        using owned_not_system(1) [OF ok i, of 2] owned_not_system(1) [OF ok i, of 1] file_blocks_sub [of C ?ino]
        by (auto intro!: rest' simp: owned_def)
      have lt: "length (take n bf) = n" using bf by simp
      have "file_data ?C' ?ino = take (fsize C ?ino) (put_at ?A off (take n bf))"
        by (simp add: file_data_def w(3,4) s'(6))
      also have "\<dots> = put_at data off (take n bf)"
        unfolding data_def file_data_def by (rule take_put_at) (use on lt lA a(8) in simp_all)
      finally show ?thesis using s'(1-3) w(1,2) True ld dir by auto
    qed
  qed
qed

end

end
