(* ===== verification/Vfs_Correct.thy ===== *)
theory Vfs_Correct
  imports Vfs Tfs_Correct
begin

text \<open>
  Correctness of the virtual filesystem layer: parsing of path names, the operations on top of
  drivers that keep the contract \<open>fs_driver\<close>, and shutting down.
\<close>

section \<open>Path names\<close>

text \<open>
  What a path name means: an optional volume name in brackets of at most 14 characters, and a
  file name of 1 to 15 characters.
\<close>

definition split_path :: "u8 list \<Rightarrow> (u8 list \<times> u8 list) option" where
  "split_path p =
     (let (vol, file) = (if p \<noteq> [] \<and> hd p = 91 then (takeWhile (\<lambda>c. c \<noteq> 93) (tl p), drop 1 (dropWhile (\<lambda>c. c \<noteq> 93) (tl p)))
                         else ([], p)) in
      if p \<noteq> [] \<and> (hd p = 91 \<longrightarrow> 93 \<in> set (tl p)) \<and> length vol \<le> 14 \<and> file \<noteq> [] \<and> length file \<le> 15
      then Some (vol, file) else None)"

lemma cstr_aget: "cstr w p \<Longrightarrow> aget p 0 = Inr (if w = [] then 0 else hd w)"
  by (cases p) (auto simp: aget_def split: if_splits)

lemma cstr_drop1: "cstr (c # w) p \<Longrightarrow> cstr w (drop 1 p)"
  by (cases p) (auto split: if_splits)

lemma cstr_zero: "cstr w p \<Longrightarrow> 0 \<notin> set w"
  by (auto simp: cstr_def)

lemma parse_volume_eq:
  assumes "cstr w p" "length vb = 16" "i + n = 15"
  shows "\<exists>e vb' p'. parse_volume p vb i n =
      Inr (if 93 \<in> set w \<and> length (takeWhile (\<lambda>c. c \<noteq> 93) w) < n
           then Inr (p', vb', i + length (takeWhile (\<lambda>c. c \<noteq> 93) w)) else Inl e)
    \<and> (93 \<in> set w \<and> length (takeWhile (\<lambda>c. c \<noteq> 93) w) < n \<longrightarrow>
        cstr (drop 1 (dropWhile (\<lambda>c. c \<noteq> 93) w)) p' \<and> length vb' = 16
        \<and> take (i + length (takeWhile (\<lambda>c. c \<noteq> 93) w)) vb' = take i vb @ takeWhile (\<lambda>c. c \<noteq> 93) w)
    \<and> e < 0"
  using assms
proof (induction n arbitrary: w p vb i)
  case (Suc n)
  show ?case
  proof (cases w)
    case Nil
    then show ?thesis using cstr_aget [OF Suc.prems(1)] by (auto intro!: exI [of _ "-2"])
  next
    case (Cons c w')
    then have c: "c \<noteq> 0" and p: "cstr w' (drop 1 p)" using Suc.prems(1) cstr_zero cstr_drop1 by fastforce+
    show ?thesis
    proof (cases "c = 93")
      case True
      then show ?thesis using cstr_aget [OF Suc.prems(1)] Cons p Suc.prems(2) by (auto intro!: exI [of _ "-2"])
    next
      case False
      let ?vb = "vb[i := c]"
      have i: "i < length vb" using Suc.prems by simp
      have "parse_volume p vb i (Suc n) = parse_volume (drop 1 p) ?vb (Suc i) n"
        using cstr_aget [OF Suc.prems(1)] Cons c False i by simp
      moreover have "take (Suc i) ?vb = take i vb @ [c]" using i by (simp add: take_Suc_conv_app_nth)
      ultimately show ?thesis using Suc.IH [OF p, of ?vb "Suc i"] Suc.prems(2,3) Cons False by auto
    qed
  qed
qed (auto intro!: exI [of _ "-3"])

lemma parse_filename_eq:
  assumes "cstr w p" "length fb = 16" "i + n = 16"
  shows "\<exists>e fb'. parse_filename p fb i n = Inr (e, fb')
    \<and> (if length w < n \<and> 0 < i + length w then e = 0 \<and> take (i + length w + 1) fb' = take i fb @ w @ [0] else e < 0)"
  using assms
proof (induction n arbitrary: w p fb i)
  case (Suc n)
  have i: "i < length fb" using Suc.prems by simp
  show ?case
  proof (cases w)
    case Nil
    have "take (Suc i) (fb[i := 0]) = take i fb @ [0]" using i by (simp add: take_Suc_conv_app_nth)
    then show ?thesis using cstr_aget [OF Suc.prems(1)] Nil i by simp
  next
    case (Cons c w')
    then have c: "c \<noteq> 0" and p: "cstr w' (drop 1 p)" using Suc.prems(1) cstr_zero cstr_drop1 by fastforce+
    have "parse_filename p fb i (Suc n) = parse_filename (drop 1 p) (fb[i := c]) (Suc i) n"
      using cstr_aget [OF Suc.prems(1)] Cons c i by simp
    moreover have "take (Suc i) (fb[i := c]) = take i fb @ [c]" using i by (simp add: take_Suc_conv_app_nth)
    moreover obtain e fb' where "parse_filename (drop 1 p) (fb[i := c]) (Suc i) n = Inr (e, fb')"
      "if length w' < n \<and> 0 < Suc i + length w' then e = 0 \<and> take (Suc i + length w' + 1) fb' = take (Suc i) (fb[i := c]) @ w' @ [0] else e < 0"
      using Suc.IH [OF p, of "fb[i := c]" "Suc i"] Suc.prems(2,3) by auto
    ultimately show ?thesis using Cons by (intro exI [of _ e] exI [of _ fb']) auto
  qed
qed auto

lemma take_cstr: "take (Suc (length w)) b = w @ [0] \<Longrightarrow> 0 \<notin> set w \<Longrightarrow> cstr w b"
  unfolding cstr_def by (metis append.assoc append_Cons append_Nil append_take_drop_id)

lemma parse_pathname_eq:
  assumes "cstr w pathname" "length vb = 16" "length fb = 16"
  shows "\<exists>e vb' fb'. vfs_parse_pathname pathname vb fb = Inr (e, vb', fb') \<and>
    (case split_path w of None \<Rightarrow> e < 0 | Some (vol, file) \<Rightarrow> e = 0 \<and> cstr vol vb' \<and> cstr file fb' \<and> file \<noteq> [] \<and> length file \<le> 15)"
proof -
  have files: ?thesis
    if p: "cstr w' p" and vb: "length vb' = 16" "take i vb' = vol" "i \<le> 14" "length vol = i" "0 \<notin> set vol"
      and eq: "vfs_parse_pathname pathname vb fb = rbind (aset vb' (int i) 0) (\<lambda>vb'.
           rbind (parse_filename p fb 0 16) (\<lambda>(e, fb'). Inr (e, vb', fb')))"
      and sp: "split_path w = (if w' \<noteq> [] \<and> length w' \<le> 15 then Some (vol, w') else None)" for w' p vb' i vol
  proof -
    obtain e fb' where f: "parse_filename p fb 0 16 = Inr (e, fb')"
      "if length w' < 16 \<and> 0 < 0 + length w' then e = 0 \<and> take (0 + length w' + 1) fb' = take 0 fb @ w' @ [0] else e < 0"
      using parse_filename_eq [OF p assms(3), of 0 16] by auto
    have "take (Suc i) (vb'[i := 0]) = vol @ [0]" using vb by (simp add: take_Suc_conv_app_nth)
    then have "cstr vol (vb'[i := 0])" using vb(4,5) by (intro take_cstr) simp_all
    moreover have "cstr w' fb'" if "w' \<noteq> []" "length w' \<le> 15" using f(2) that cstr_zero [OF p] by (intro take_cstr) auto
    ultimately show ?thesis using f eq sp vb by auto
  qed
  show ?thesis
  proof (cases "w \<noteq> [] \<and> hd w = 91")
    case False
    then have "aget pathname 0 = Inr (if w = [] then 0 else hd w)" "(if w = [] then 0 else hd w) \<noteq> 91"
      using cstr_aget [OF assms(1)] by auto
    then show ?thesis using False assms(2)
      by (intro files [OF assms(1,2), of 0 "[]"]) (auto simp: vfs_parse_pathname_def split_path_def)
  next
    case True
    then obtain w' where w: "w = 91 # w'" by (cases w) auto
    then have p: "cstr w' (drop 1 pathname)" using assms(1) cstr_drop1 by blast
    let ?v = "takeWhile (\<lambda>c. c \<noteq> 93) w'"
    have c: "aget pathname 0 = Inr 91" using cstr_aget [OF assms(1)] w by simp
    obtain e vb' p' where v: "parse_volume (drop 1 pathname) vb 0 15 =
        Inr (if 93 \<in> set w' \<and> length ?v < 15 then Inr (p', vb', 0 + length ?v) else Inl e)"
      "93 \<in> set w' \<and> length ?v < 15 \<longrightarrow> cstr (drop 1 (dropWhile (\<lambda>c. c \<noteq> 93) w')) p' \<and> length vb' = 16
        \<and> take (0 + length ?v) vb' = take 0 vb @ ?v" "e < 0"
      using parse_volume_eq [OF p assms(2), of 0 15] by auto
    show ?thesis
    proof (cases "93 \<in> set w' \<and> length ?v < 15")
      case False
      then show ?thesis using c v(1,3) w by (auto simp: vfs_parse_pathname_def split_path_def)
    next
      case t: True
      have z: "0 \<notin> set ?v" using cstr_zero [OF p] set_takeWhileD by fastforce
      show ?thesis
        by (rule files [of "drop 1 (dropWhile (\<lambda>c. c \<noteq> 93) w')" p' vb' "length ?v" ?v])
          (use c v t w z in \<open>auto simp: vfs_parse_pathname_def split_path_def\<close>)
    qed
  qed
qed


section \<open>Locks\<close>

text \<open>
  The value of a semaphore, and the state with another value; taking and releasing a lock are
  rewriting rules on these.
\<close>

definition sem_val :: "'x vfs_t \<Rightarrow> nat option \<Rightarrow> int option" where
  "sem_val v sm = (case sm of None \<Rightarrow> None | Some i \<Rightarrow> ksem_val (sems (vk v)) i)"

lemma upd_order:
  "v\<lparr>files := y, vk := w\<rparr> = v\<lparr>vk := w, files := y\<rparr>" "v\<lparr>filesystems := z, vk := w\<rparr> = v\<lparr>vk := w, filesystems := z\<rparr>"
  "v\<lparr>vfs_ops := x, vk := w\<rparr> = v\<lparr>vk := w, vfs_ops := x\<rparr>"
  "v\<lparr>vfs_ops := x, files := y\<rparr> = v\<lparr>files := y, vfs_ops := x\<rparr>"
  "v\<lparr>vfs_ops := x, filesystems := z\<rparr> = v\<lparr>filesystems := z, vfs_ops := x\<rparr>"
  by (cases v; simp)+

definition set_sem :: "nat option \<Rightarrow> int \<Rightarrow> 'x vfs_t \<Rightarrow> 'x vfs_t" where
  "set_sem sm x v =
     (case sem_val v sm of None \<Rightarrow> v
      | Some _ \<Rightarrow> v\<lparr>vk := (vk v)\<lparr>sems := (sems (vk v))\<lparr>svals := (svals (sems (vk v)))[the sm := Some x]\<rparr>\<rparr>\<rparr>)"

lemma sem_P_eq:
  "sem_P sm v = (case sem_val v sm of None \<Rightarrow> Inl Bad_access
     | Some x \<Rightarrow> if 0 < x then Inr (set_sem sm (x - 1) v) else Inl Blocked)"
  by (auto simp: sem_P_def sem_val_def set_sem_def ksem_P_def split: option.splits)

lemma sem_V_eq:
  "sem_V sm v = (case sem_val v sm of None \<Rightarrow> Inl Bad_access | Some x \<Rightarrow> Inr (set_sem sm (c_int (x + 1)) v))"
  by (auto simp: sem_V_def sem_val_def set_sem_def ksem_V_def split: option.splits)

lemma sem_val_upd [simp]:
  "sem_val (v\<lparr>vfs_table_sem := x1\<rparr>) = sem_val v" "sem_val (v\<lparr>filesystems := x2\<rparr>) = sem_val v"
  "sem_val (v\<lparr>files := x3\<rparr>) = sem_val v" "sem_val (v\<lparr>vfs_ops := x4\<rparr>) = sem_val v"
  "sem_val (v\<lparr>vfs_usable := x5\<rparr>) = sem_val v"
  by (simp_all add: fun_eq_iff sem_val_def split: option.splits)

lemma sem_val_world: "svals (sems w) = svals (sems (vk v)) \<Longrightarrow> sem_val (v\<lparr>vk := w\<rparr>) = sem_val v"
  by (simp add: fun_eq_iff sem_val_def ksem_val_def split: option.splits)

lemma set_sem_fields [simp]:
  "vfs_table_sem (set_sem sm x v) = vfs_table_sem v" "filesystems (set_sem sm x v) = filesystems v"
  "openfile_table_sem (set_sem sm x v) = openfile_table_sem v" "files (set_sem sm x v) = files v"
  "vfs_op_sem (set_sem sm x v) = vfs_op_sem v" "vfs_unmount_sem (set_sem sm x v) = vfs_unmount_sem v"
  "vfs_ops (set_sem sm x v) = vfs_ops v" "vfs_usable (set_sem sm x v) = vfs_usable v"
  by (simp_all add: set_sem_def split: option.splits)

lemma set_sem_upd [simp]:
  "set_sem sm x (v\<lparr>filesystems := x2\<rparr>) = (set_sem sm x v)\<lparr>filesystems := x2\<rparr>"
  "set_sem sm x (v\<lparr>files := x3\<rparr>) = (set_sem sm x v)\<lparr>files := x3\<rparr>"
  "set_sem sm x (v\<lparr>vfs_ops := x4\<rparr>) = (set_sem sm x v)\<lparr>vfs_ops := x4\<rparr>"
  "set_sem sm x (v\<lparr>vfs_usable := x5\<rparr>) = (set_sem sm x v)\<lparr>vfs_usable := x5\<rparr>"
  by (simp_all add: set_sem_def split: option.splits)

lemma set_sem_vk [simp]: "(set_sem sm x v)\<lparr>vk := w\<rparr> = v\<lparr>vk := w\<rparr>" "v\<lparr>vk := vk (set_sem sm x v)\<rparr> = set_sem sm x v"
  by (simp_all add: set_sem_def split: option.splits)

lemma sem_val_set [simp]:
  "sem_val (set_sem sm x v) sm' = (if sm' = sm \<and> sem_val v sm \<noteq> None then Some x else sem_val v sm')"
  by (auto simp: sem_val_def set_sem_def ksem_val_def split: option.splits if_splits)

lemma set_sem_twice [simp]: "set_sem sm y (set_sem sm x v) = set_sem sm y v"
  by (auto simp: sem_val_def set_sem_def ksem_val_def split: option.splits if_splits)

lemma set_sem_same: "sem_val v sm = Some x \<Longrightarrow> set_sem sm x v = v"
  by (auto simp: sem_val_def set_sem_def ksem_val_def split: option.splits if_splits)
    (metis (no_types, lifting) list_update_id vfs_t.surjective vfs_t.update_convs(1) kworld.surjective kworld.update_convs(1)
      ksems.surjective ksems.update_convs(1))

lemma set_sem_swap:
  assumes "sm \<noteq> sm'"
  shows "set_sem sm x (set_sem sm' y v) = set_sem sm' y (set_sem sm x v)"
proof (cases "sem_val v sm = None \<or> sem_val v sm' = None")
  case True
  have "set_sem sm'' z u = u" if "sem_val u sm'' = None" for sm'' z and u :: "'a vfs_t" using that by (simp add: set_sem_def)
  then show ?thesis using True assms by auto
next
  case False
  then obtain i j a b where "sm = Some i" "sm' = Some j" "ksem_val (sems (vk v)) i = Some a" "ksem_val (sems (vk v)) j = Some b"
    by (auto simp: sem_val_def split: option.splits)
  then show ?thesis using assms by (simp add: set_sem_def sem_val_def ksem_val_def list_update_swap split: if_splits)
qed

text \<open>The four semaphores are different and have these values.\<close>

definition vfs_locks :: "'x vfs_t \<Rightarrow> bool" where
  "vfs_locks v \<longleftrightarrow> distinct [vfs_table_sem v, openfile_table_sem v, vfs_op_sem v, vfs_unmount_sem v]
     \<and> sem_val v (vfs_table_sem v) = Some 1 \<and> sem_val v (openfile_table_sem v) = Some 1
     \<and> sem_val v (vfs_op_sem v) = Some 1 \<and> sem_val v (vfs_unmount_sem v) = Some 0"

lemma vfs_locksD:
  assumes "vfs_locks v"
  shows "sem_val v (vfs_table_sem v) = Some 1" "sem_val v (openfile_table_sem v) = Some 1"
    "sem_val v (vfs_op_sem v) = Some 1" "sem_val v (vfs_unmount_sem v) = Some 0"
    "openfile_table_sem v \<noteq> vfs_table_sem v" "vfs_table_sem v \<noteq> openfile_table_sem v"
    "vfs_op_sem v \<noteq> vfs_table_sem v" "vfs_op_sem v \<noteq> openfile_table_sem v" "vfs_op_sem v \<noteq> vfs_unmount_sem v"
    "vfs_unmount_sem v \<noteq> vfs_op_sem v" "vfs_table_sem v \<noteq> vfs_op_sem v" "openfile_table_sem v \<noteq> vfs_op_sem v"
    "vfs_unmount_sem v \<noteq> vfs_table_sem v" "vfs_unmount_sem v \<noteq> openfile_table_sem v"
  using assms by (auto simp: vfs_locks_def)

lemma vfs_locks_upd [simp]:
  "vfs_locks (v\<lparr>filesystems := x2\<rparr>) = vfs_locks v" "vfs_locks (v\<lparr>files := x3\<rparr>) = vfs_locks v"
  "vfs_locks (v\<lparr>vfs_ops := x4\<rparr>) = vfs_locks v" "vfs_locks (v\<lparr>vfs_usable := x5\<rparr>) = vfs_locks v"
  by (simp_all add: vfs_locks_def)

text \<open>The counter of operations does not overflow as long as it is below the largest integer.\<close>

definition ops_ok :: "int \<Rightarrow> bool" where
  "ops_ok n \<longleftrightarrow> 0 \<le> n \<and> n < INT_MAX"

lemma ops_ok_0 [simp]: "ops_ok 0"
  by (simp add: ops_ok_def)

lemma ops_okD: "ops_ok n \<Longrightarrow> 0 \<le> n" "ops_ok n \<Longrightarrow> n < INT_MAX"
  by (simp_all add: ops_ok_def)

lemma start_op_wraps: "vfs_locks v \<Longrightarrow> vfs_start_op v =
    Inr (if vfs_usable v \<noteq> 0 then (0, v\<lparr>vfs_ops := c_int (vfs_ops v + 1)\<rparr>) else (-9, v))"
  by (simp add: vfs_start_op_def sem_P_eq sem_V_eq vfs_locks_def set_sem_same)

lemma start_op_eq: "vfs_locks v \<Longrightarrow> ops_ok (vfs_ops v) \<Longrightarrow> vfs_start_op v =
    Inr (if vfs_usable v \<noteq> 0 then (0, v\<lparr>vfs_ops := vfs_ops v + 1\<rparr>) else (-9, v))"
  by (simp add: start_op_wraps ops_ok_def)

lemma end_op_eq: "vfs_locks v \<Longrightarrow> vfs_usable v \<noteq> 0 \<Longrightarrow> 0 < vfs_ops v \<Longrightarrow> vfs_ops v \<le> INT_MAX \<Longrightarrow>
    vfs_end_op v = Inr (v\<lparr>vfs_ops := vfs_ops v - 1\<rparr>)"
  by (simp add: vfs_end_op_def sem_P_eq sem_V_eq vfs_locks_def set_sem_same)


lemma not_open_wraps:
  assumes "vfs_locks v" "vfs_usable v \<noteq> 0" "vfs_verify_open v file = None"
  shows "vfs_begin v (\<lambda>v. with_open v file k) = Inr (-4, v\<lparr>vfs_ops := c_int (vfs_ops v + 1)\<rparr>)"
proof -
  have "vfs_verify_open (set_sem sm x (v\<lparr>vfs_ops := y\<rparr>)) file = None" for sm x y
    using assms(3) by (auto simp: vfs_verify_open_def split: if_splits)
  then show ?thesis using assms start_op_wraps [OF assms(1)]
    by (auto simp: vfs_begin_def with_open_def sem_P_eq sem_V_eq vfs_locks_def set_sem_same vfs_verify_open_def)
qed

lemma not_open_eq:
  assumes "vfs_locks v" "vfs_usable v \<noteq> 0" "vfs_verify_open v file = None" "ops_ok (vfs_ops v)"
  shows "vfs_begin v (\<lambda>v. with_open v file k) = Inr (-4, v\<lparr>vfs_ops := vfs_ops v + 1\<rparr>)"
    "vfs_read F v file (Some bf) n = Inr (if n < 0 then (-3, Some bf, v) else (-4, Some bf, v\<lparr>vfs_ops := vfs_ops v + 1\<rparr>))"
proof -
  have "vfs_verify_open (set_sem sm x (v\<lparr>vfs_ops := y\<rparr>)) file = None" for sm x y
    using assms(3) by (auto simp: vfs_verify_open_def split: if_splits)
  then show "vfs_begin v (\<lambda>v. with_open v file k) = Inr (-4, v\<lparr>vfs_ops := vfs_ops v + 1\<rparr>)"
    "vfs_read F v file (Some bf) n = Inr (if n < 0 then (-3, Some bf, v) else (-4, Some bf, v\<lparr>vfs_ops := vfs_ops v + 1\<rparr>))"
    using assms(1,2) start_op_eq [OF assms(1,4)] assms(3)
    by (auto simp: vfs_begin_def with_open_def vfs_read_def sem_P_eq sem_V_eq vfs_locks_def set_sem_same vfs_verify_open_def)
qed

lemma deinit_blocked:
  assumes "vfs_locks v" "0 < vfs_ops v"
  shows "vfs_deinit F Inr v = Inl Blocked"
  using assms by (simp add: vfs_deinit_def sem_P_eq sem_V_eq vfs_locks_def set_sem_same)

text \<open>The other threads: \<open>n\<close> operations that are in progress end.\<close>

fun end_ops :: "nat \<Rightarrow> 'x vfs_t \<Rightarrow> 'x vfs_t res" where
  "end_ops 0 v = Inr v"
| "end_ops (Suc n) v = rbind (vfs_end_op v) (end_ops n)"

lemma end_op_unusable:
  assumes "vfs_locks v" "vfs_usable v = 0" "0 < vfs_ops v" "vfs_ops v \<le> INT_MAX"
  shows "vfs_end_op v = Inr (if vfs_ops v = 1 then set_sem (vfs_unmount_sem v) 1 (v\<lparr>vfs_ops := 0\<rparr>) else v\<lparr>vfs_ops := vfs_ops v - 1\<rparr>)"
proof -
  note l = vfs_locksD [OF assms(1)]
  have "set_sem (vfs_op_sem v) 1 (set_sem (vfs_unmount_sem v) 1 (set_sem (vfs_op_sem v) 0 v)) = set_sem (vfs_unmount_sem v) 1 v"
    using set_sem_swap [OF l(10), of 1 0 v] l(3,9) by (simp add: set_sem_same)
  then show ?thesis using l assms(2-4) by (simp add: vfs_end_op_def sem_P_eq sem_V_eq set_sem_same Let_def)
qed

lemma end_ops_eq:
  assumes "vfs_locks v" "vfs_usable v = 0" "vfs_ops v = int (n + m)" "int (n + m) \<le> INT_MAX"
  shows "end_ops n v = Inr (if 0 < n \<and> m = 0 then set_sem (vfs_unmount_sem v) 1 (v\<lparr>vfs_ops := 0\<rparr>) else v\<lparr>vfs_ops := int m\<rparr>)"
  using assms
proof (induction n arbitrary: v)
  case 0
  then show ?case by (cases v) simp
next
  case (Suc n)
  show ?case
  proof (cases "n + m = 0")
    case True
    then show ?thesis using end_op_unusable [OF Suc.prems(1,2)] Suc.prems(3,4) by simp
  next
    case False
    then have "vfs_ops v \<noteq> 1" "0 < vfs_ops v" "vfs_ops v - 1 = int (n + m)" using Suc.prems(3) by linarith+
    then have "vfs_end_op v = Inr (v\<lparr>vfs_ops := int (n + m)\<rparr>)" using end_op_unusable [OF Suc.prems(1,2)] Suc.prems(3,4) by simp
    then show ?thesis using Suc.IH [of "v\<lparr>vfs_ops := int (n + m)\<rparr>"] Suc.prems False by (cases "n = 0") auto
  qed
qed

section \<open>The mount table\<close>

definition mname :: "vfs_entry_t \<Rightarrow> u8 list" where
  "mname e = takeWhile (\<lambda>c. c \<noteq> 0) (mountpoint e)"

text \<open>The filesystem that is mounted under a name. Names and filesystems are mounted once.\<close>

definition mounted :: "'x vfs_t \<Rightarrow> u8 list \<Rightarrow> u32 option" where
  "mounted v vol =
     (case find (\<lambda>e. mname e = vol) (filesystems v) of
        None \<Rightarrow> None | Some e \<Rightarrow> if e_filesystem e = 0 then None else Some (e_filesystem e))"

definition mounts_ok :: "'x vfs_t \<Rightarrow> bool" where
  "mounts_ok v \<longleftrightarrow> length (filesystems v) = 8 \<and> (\<forall>e \<in> set (filesystems v). length (mountpoint e) = 16 \<and> cstr (mname e) (mountpoint e))
     \<and> (\<forall>i < 8. \<forall>j < 8. i \<noteq> j \<and> (mname (filesystems v ! i) = mname (filesystems v ! j)
          \<or> e_filesystem (filesystems v ! i) = e_filesystem (filesystems v ! j)) \<longrightarrow> e_filesystem (filesystems v ! i) = 0)"

lemma find_as_index: "find P xs = (if first_index P xs < length xs then Some (xs ! first_index P xs) else None)"
  by (induction xs) auto

lemma mount_row_eq:
  assumes "mounts_ok v" "cstr nm name"
  shows "mount_row v name = Inr (first_index (\<lambda>e. mname e = nm) (filesystems v))"
  unfolding mount_row_def
proof (rule first_indexR_total)
  fix e assume "e \<in> set (filesystems v)"
  then have m: "cstr (mname e) (mountpoint e)" using assms(1) by (simp add: mounts_ok_def)
  show "rbind (stringcmp (mountpoint e) name) (\<lambda>d. Inr (d = 0)) = Inr (mname e = nm)"
    using stringcmp_total [OF m assms(2)] stringcmp_eq [OF m assms(2)] by auto
qed

lemma get_filesystem_eq:
  assumes "mounts_ok v" "cstr nm name"
  shows "vfs_get_filesystem v name = Inr (case mounted v nm of None \<Rightarrow> 0 | Some a \<Rightarrow> a)"
  using assms mount_row_eq [OF assms]
  by (auto simp: vfs_get_filesystem_def mounted_def find_as_index mounts_ok_def)

lemma mounts_ok_upd [simp]:
  "mounts_ok (v\<lparr>files := x3\<rparr>) = mounts_ok v" "mounts_ok (v\<lparr>vfs_ops := x4\<rparr>) = mounts_ok v"
  "mounts_ok (v\<lparr>vk := x5\<rparr>) = mounts_ok v" "mounts_ok (set_sem sm x v) = mounts_ok v"
  by (simp_all add: mounts_ok_def)

lemma mounted_upd [simp]:
  "mounted (v\<lparr>files := x3\<rparr>) = mounted v" "mounted (v\<lparr>vfs_ops := x4\<rparr>) = mounted v"
  "mounted (v\<lparr>vk := x5\<rparr>) = mounted v" "mounted (set_sem sm x v) = mounted v"
  by (simp_all add: mounted_def fun_eq_iff)

lemma mounted_SomeD: "mounted v vol = Some a \<Longrightarrow> a \<noteq> 0 \<and> a \<in> e_filesystem ` set (filesystems v)"
  by (auto simp: mounted_def find_Some_iff split: option.splits if_splits)

lemma mounted_name: "mounted v vol = Some a \<Longrightarrow> vol \<in> mname ` set (filesystems v)"
  by (auto simp: mounted_def find_Some_iff split: option.splits if_splits)

lemma mounts_okD:
  assumes "mounts_ok v"
  shows "length (filesystems v) = 8" "i < 8 \<Longrightarrow> length (mountpoint (filesystems v ! i)) = 16"
    "i < 8 \<Longrightarrow> j < 8 \<Longrightarrow> mname (filesystems v ! i) = mname (filesystems v ! j) \<or>
      e_filesystem (filesystems v ! i) = e_filesystem (filesystems v ! j) \<Longrightarrow> i \<noteq> j \<Longrightarrow> e_filesystem (filesystems v ! i) = 0"
  using assms by (auto simp: mounts_ok_def)

lemma mounted_iff:
  assumes "mounts_ok v" "a \<noteq> 0"
  shows "mounted v vol = Some a \<longleftrightarrow> (\<exists>i < 8. mname (filesystems v ! i) = vol \<and> e_filesystem (filesystems v ! i) = a)"
proof
  assume "mounted v vol = Some a"
  then show "\<exists>i < 8. mname (filesystems v ! i) = vol \<and> e_filesystem (filesystems v ! i) = a"
    using mounts_okD(1) [OF assms(1)] by (auto simp: mounted_def find_Some_iff split: option.splits if_splits)
next
  assume "\<exists>i < 8. mname (filesystems v ! i) = vol \<and> e_filesystem (filesystems v ! i) = a"
  then obtain i where i: "i < 8" "mname (filesystems v ! i) = vol" "e_filesystem (filesystems v ! i) = a" by blast
  have "first_index (\<lambda>e. mname e = vol) (filesystems v) = i"
  proof (rule first_index_unique)
    fix j assume "j < i"
    then show "\<not> mname (filesystems v ! j) = vol" using mounts_okD(3) [OF assms(1), of i j] i assms(2) by auto
  qed (use i mounts_okD(1) [OF assms(1)] in auto)
  then show "mounted v vol = Some a" using i assms(2) mounts_okD(1) [OF assms(1)] by (simp add: mounted_def find_as_index)
qed

lemma mname_cstr: "cstr w b \<Longrightarrow> takeWhile (\<lambda>c. c \<noteq> 0) b = w"
  by (auto simp: cstr_def takeWhile_append)

lemma first_index_map: "first_index (\<lambda>x. P (f x)) xs = first_index P (map f xs)"
  by (induction xs) auto

lemma mounted_clear:
  assumes "mounts_ok v" "row < 8" "e_filesystem (filesystems v ! row) \<noteq> 0"
  shows "map mname ((filesystems v)[row := (filesystems v ! row)\<lparr>e_filesystem := 0\<rparr>]) = map mname (filesystems v)"
    "mounted (v\<lparr>filesystems := (filesystems v)[row := (filesystems v ! row)\<lparr>e_filesystem := 0\<rparr>]\<rparr>) = (mounted v)(mname (filesystems v ! row) := None)"
proof -
  let ?g = "(filesystems v)[row := (filesystems v ! row)\<lparr>e_filesystem := 0\<rparr>]"
  note l = mounts_okD(1) [OF assms(1)]
  have "mname ((filesystems v ! row)\<lparr>e_filesystem := 0\<rparr>) = mname (filesystems v ! row)" by (simp add: mname_def)
  then show m: "map mname ?g = map mname (filesystems v)" using assms(2) l by (simp add: map_update) (metis length_map list_update_id nth_map)
  show "mounted (v\<lparr>filesystems := ?g\<rparr>) = (mounted v)(mname (filesystems v ! row) := None)"
  proof
    fix vol
    define i where "i = first_index (\<lambda>e. mname e = vol) (filesystems v)"
    have i: "first_index (\<lambda>e. mname e = vol) ?g = i"
      using first_index_map [of "\<lambda>n. n = vol" mname ?g] first_index_map [of "\<lambda>n. n = vol" mname "filesystems v"] m by (simp add: i_def)
    have ir: "i = row" if "vol = mname (filesystems v ! row)"
      unfolding i_def
    proof (rule first_index_unique)
      show "\<not> mname (filesystems v ! j) = vol" if "j < row" for j
        using mounts_okD(3) [OF assms(1), of row j] assms(2,3) that \<open>vol = _\<close> by auto
    qed (use assms(2) l that in auto)
    have vi: "mname (filesystems v ! i) = vol" if "i < 8"
      using first_index_hit [of "\<lambda>e. mname e = vol" "filesystems v"] that l by (simp add: i_def)
    show "mounted (v\<lparr>filesystems := ?g\<rparr>) vol = ((mounted v)(mname (filesystems v ! row) := None)) vol"
    proof (cases "i < 8")
      case False
      then show ?thesis using i l by (simp add: mounted_def find_as_index i_def [symmetric])
    next
      case True
      then show ?thesis using i ir vi l by (cases "i = row") (auto simp add: mounted_def find_as_index i_def [symmetric])
    qed
  qed
qed

text \<open>
  Setting a row of the table.
\<close>

lemma mounts_ok_row:
  assumes ok: "mounts_ok v" and e: "length (mountpoint e) = 16" "cstr (mname e) (mountpoint e)" "row < 8"
    and u: "e_filesystem e \<noteq> 0 \<Longrightarrow> mname e \<notin> mname ` set (filesystems v) \<and> e_filesystem e \<notin> e_filesystem ` set (filesystems v)"
    and u0: "e_filesystem e = 0 \<Longrightarrow> mname e = mname (filesystems v ! row)"
  shows "mounts_ok (v\<lparr>filesystems := (filesystems v)[row := e]\<rparr>)"
proof -
  note l = mounts_okD(1) [OF ok]
  let ?g = "(filesystems v)[row := e]"
  have "e_filesystem (?g ! i) = 0" if ij: "i < 8" "j < 8" "i \<noteq> j"
      "mname (?g ! i) = mname (?g ! j) \<or> e_filesystem (?g ! i) = e_filesystem (?g ! j)" for i j
  proof (cases "e_filesystem e = 0")
    case True
    show ?thesis using ij l True u0 mounts_okD(3) [OF ok, of i j] mounts_okD(3) [OF ok, of i row] e(3)
      by (auto simp: nth_list_update split: if_splits)
  next
    case False
    have n: "mname (filesystems v ! k) \<noteq> mname e" "e_filesystem (filesystems v ! k) \<noteq> e_filesystem e" if "k < 8" for k
      using u [OF False] that l by (metis imageI nth_mem)+
    show ?thesis
    proof (cases "i = row \<or> j = row")
      case True
      then show ?thesis using ij n [of i] n [of j] l by (auto simp: nth_list_update)
    next
      case False
      then show ?thesis using ij mounts_okD(3) [OF ok, of i j] by simp
    qed
  qed
  then show ?thesis using ok e l unfolding mounts_ok_def
    by (auto dest: set_update_subset_insert [THEN subsetD])
qed

section \<open>Drivers\<close>

text \<open>
  What VFS relies on. \<open>good w\<close>: the drivers can run; \<open>live w\<close>: the mounted filesystems;
  \<open>priv w\<close>: the semaphores that belong to them; \<open>view w a\<close>: the files of filesystem \<open>a\<close>;
  \<open>fid w a nm fd\<close>: \<open>fd\<close> is the file id of the file \<open>nm\<close>. A call leaves all semaphores as it found
  them.
\<close>

definition fs_kept ::
  "('x kworld \<Rightarrow> bool) \<Rightarrow> ('x kworld \<Rightarrow> u32 set) \<Rightarrow> ('x kworld \<Rightarrow> nat set) \<Rightarrow> 'x kworld \<Rightarrow> 'x kworld \<Rightarrow> bool" where
  "fs_kept good live priv w w' \<longleftrightarrow> good w' \<and> svals (sems w') = svals (sems w) \<and> live w' = live w \<and> priv w' = priv w"

text \<open>
  The state of VFS between operations: the locks are free and do not belong to a driver, the
  tables are well-formed, and mounted filesystems and the filesystems of open files are live.
\<close>

definition vfs_wf :: "('x kworld \<Rightarrow> bool) \<Rightarrow> ('x kworld \<Rightarrow> u32 set) \<Rightarrow> ('x kworld \<Rightarrow> nat set) \<Rightarrow> 'x vfs_t \<Rightarrow> bool" where
  "vfs_wf good live priv v \<longleftrightarrow> vfs_locks v \<and> vfs_usable v \<noteq> 0 \<and> ops_ok (vfs_ops v) \<and> good (vk v)
     \<and> {vfs_table_sem v, openfile_table_sem v, vfs_op_sem v, vfs_unmount_sem v} \<inter> Some ` priv (vk v) = {}
     \<and> mounts_ok v \<and> length (files v) = 512
     \<and> (\<forall>e \<in> set (filesystems v). e_filesystem e \<noteq> 0 \<longrightarrow> e_filesystem e \<in> live (vk v))
     \<and> (\<forall>f \<in> set (files v). o_filesystem f \<noteq> 0 \<longrightarrow> o_filesystem f \<in> live (vk v))"

text \<open>Open file \<open>h\<close> is the file \<open>nm\<close> of filesystem \<open>a\<close>, at position \<open>pos\<close>.\<close>

definition vfs_handle :: "('x kworld \<Rightarrow> u32 \<Rightarrow> u8 list \<Rightarrow> int \<Rightarrow> bool) \<Rightarrow> 'x vfs_t \<Rightarrow> nat \<Rightarrow> u32 \<Rightarrow> u8 list \<Rightarrow> nat \<Rightarrow> bool" where
  "vfs_handle fid v h a nm pos \<longleftrightarrow> h < 512 \<and> o_filesystem (files v ! h) = a \<and> a \<noteq> 0
     \<and> fid (vk v) a nm (fileid (files v ! h)) \<and> seek_position (files v ! h) = int pos"

locale fs_driver =
  fixes F :: "u32 \<Rightarrow> 'x fs_t"
    and good :: "'x kworld \<Rightarrow> bool"
    and live :: "'x kworld \<Rightarrow> u32 set"
    and priv :: "'x kworld \<Rightarrow> nat set"
    and view :: "'x kworld \<Rightarrow> u32 \<Rightarrow> u8 list \<Rightarrow> u8 list option"
    and fid :: "'x kworld \<Rightarrow> u32 \<Rightarrow> u8 list \<Rightarrow> int \<Rightarrow> bool"
    and room :: "'x kworld \<Rightarrow> u32 \<Rightarrow> int \<Rightarrow> bool"
  assumes frame: "good w \<Longrightarrow> i \<notin> priv w \<Longrightarrow> ksem_val (sems w) i \<noteq> None \<Longrightarrow>
      w' = w\<lparr>sems := (sems w)\<lparr>svals := (svals (sems w))[i := Some x]\<rparr>\<rparr> \<Longrightarrow>
      good w' \<and> live w' = live w \<and> priv w' = priv w \<and> view w' = view w \<and> fid w' = fid w \<and> room w' = room w"
    and live_nonzero: "good w \<Longrightarrow> 0 \<notin> live w"
    and fid_view: "good w \<Longrightarrow> fid w a nm fd \<Longrightarrow> view w a nm \<noteq> None"
    and open_law: "good w \<Longrightarrow> a \<in> live w \<Longrightarrow> cstr nm fn \<Longrightarrow> nm \<noteq> [] \<Longrightarrow>
      \<exists>r w'. fs_open (F a) w fn = Inr (r, w') \<and> fs_kept good live priv w w' \<and> view w' = view w \<and> fid w' = fid w
        \<and> (if view w a nm = None then r = VFS_NOT_FOUND else 0 \<le> r \<and> fid w a nm r)"
    and close_law: "good w \<Longrightarrow> a \<in> live w \<Longrightarrow> fs_close (F a) w fd = Inr (VFS_OK, w)"
    and read_law: "good w \<Longrightarrow> a \<in> live w \<Longrightarrow> fid w a nm fd \<Longrightarrow> view w a nm = Some data \<Longrightarrow>
      min n (length data - off) \<le> length bf \<Longrightarrow>
      \<exists>w'. fs_read (F a) w fd bf (int n) (int off) =
          Inr (if off \<le> length data then (int (min n (length data - off)), put_at bf 0 (take n (drop off data)), w')
               else (VFS_ERROR, bf, w'))
        \<and> fs_kept good live priv w w' \<and> view w' = view w \<and> fid w' = fid w"
    and write_law: "good w \<Longrightarrow> a \<in> live w \<Longrightarrow> fid w a nm fd \<Longrightarrow> view w a nm = Some data \<Longrightarrow>
      min n (length data - off) \<le> length bf \<Longrightarrow>
      \<exists>w'. fs_write (F a) w fd bf (int n) (int off) =
          Inr (if off \<le> length data then int (min n (length data - off)) else VFS_ERROR, w')
        \<and> fs_kept good live priv w w' \<and> fid w' = fid w
        \<and> view w' = (view w)(a := (view w a)(nm \<mapsto>
            if off \<le> length data then put_at data off (take (min n (length data - off)) bf) else data))"
    and create_law: "good w \<Longrightarrow> a \<in> live w \<Longrightarrow> cstr nm fn \<Longrightarrow> nm \<noteq> [] \<Longrightarrow> length nm \<le> 15 \<Longrightarrow> 0 \<le> sz \<Longrightarrow> sz < 2 ^ 31 \<Longrightarrow>
      \<exists>r w'. fs_create (F a) w fn sz = Inr (r, w') \<and> fs_kept good live priv w w'
        \<and> (if view w a nm = None \<and> room w a sz then r = VFS_OK \<and> view w' = (view w)(a := (view w a)(nm \<mapsto> replicate (nat sz) 0))
           else r < 0 \<and> view w' = view w)
        \<and> (\<forall>b x f. fid w b x f \<longrightarrow> fid w' b x f)"
    and remove_law: "good w \<Longrightarrow> a \<in> live w \<Longrightarrow> cstr nm fn \<Longrightarrow> nm \<noteq> [] \<Longrightarrow>
      \<exists>r w'. fs_remove (F a) w fn = Inr (r, w') \<and> fs_kept good live priv w w'
        \<and> view w' = (view w)(a := (view w a)(nm := None)) \<and> r = (if view w a nm = None then VFS_NOT_FOUND else VFS_OK)
        \<and> (\<forall>b x f. fid w b x f \<and> (b \<noteq> a \<or> x \<noteq> nm) \<longrightarrow> fid w' b x f)"
    and getfree_law: "good w \<Longrightarrow> a \<in> live w \<Longrightarrow>
      \<exists>r w'. fs_getfree (F a) w = Inr (r, w') \<and> fs_kept good live priv w w' \<and> view w' = view w \<and> fid w' = fid w \<and> 0 \<le> r"
    and unmount_law: "good w \<Longrightarrow> a \<in> live w \<Longrightarrow>
      \<exists>w'. fs_unmount (F a) w = Inr (VFS_OK, w') \<and> good w' \<and> live w' = live w - {a} \<and> priv w' \<subseteq> priv w
        \<and> (\<forall>b. b \<noteq> a \<longrightarrow> view w' b = view w b \<and> fid w' b = fid w b) \<and> (\<forall>i. i \<notin> priv w \<longrightarrow> ksem_val (sems w') i = ksem_val (sems w) i)"
begin

lemma set_sem_good:
  assumes "good (vk v)" "sm \<notin> Some ` priv (vk v)"
  shows "good (vk (set_sem sm x v))" "live (vk (set_sem sm x v)) = live (vk v)" "priv (vk (set_sem sm x v)) = priv (vk v)"
    "view (vk (set_sem sm x v)) = view (vk v)" "fid (vk (set_sem sm x v)) = fid (vk v)" "room (vk (set_sem sm x v)) = room (vk v)"
proof -
  have "vk (set_sem sm x v) = vk v \<or> (\<exists>i. sm = Some i \<and> ksem_val (sems (vk v)) i \<noteq> None
      \<and> vk (set_sem sm x v) = (vk v)\<lparr>sems := (sems (vk v))\<lparr>svals := (svals (sems (vk v)))[i := Some x]\<rparr>\<rparr>)"
    by (auto simp: set_sem_def sem_val_def split: option.splits)
  then have "good (vk (set_sem sm x v)) \<and> live (vk (set_sem sm x v)) = live (vk v) \<and> priv (vk (set_sem sm x v)) = priv (vk v)
    \<and> view (vk (set_sem sm x v)) = view (vk v) \<and> fid (vk (set_sem sm x v)) = fid (vk v) \<and> room (vk (set_sem sm x v)) = room (vk v)"
    using assms frame by (metis image_eqI)
  then show "good (vk (set_sem sm x v))" "live (vk (set_sem sm x v)) = live (vk v)" "priv (vk (set_sem sm x v)) = priv (vk v)"
    "view (vk (set_sem sm x v)) = view (vk v)" "fid (vk (set_sem sm x v)) = fid (vk v)" "room (vk (set_sem sm x v)) = room (vk v)" by auto
qed


lemma set_sem_own:
  assumes "good (vk v)" "S \<inter> Some ` priv (vk v) = {}" "sm \<in> S"
  shows "good (vk (set_sem sm x v))" "S \<inter> Some ` priv (vk (set_sem sm x v)) = {}"
    "live (vk (set_sem sm x v)) = live (vk v)" "priv (vk (set_sem sm x v)) = priv (vk v)"
proof -
  have "sm \<notin> Some ` priv (vk v)" using assms(2,3) by blast
  from set_sem_good [OF assms(1) this] assms(2) show "good (vk (set_sem sm x v))" "S \<inter> Some ` priv (vk (set_sem sm x v)) = {}"
    "live (vk (set_sem sm x v)) = live (vk v)" "priv (vk (set_sem sm x v)) = priv (vk v)" by simp_all
qed

abbreviation vfs_ok :: "'x vfs_t \<Rightarrow> bool" where
  "vfs_ok \<equiv> vfs_wf good live priv"

lemmas vfs_ok_def = vfs_wf_def [of good live priv]

lemma vfs_okD:
  assumes "vfs_ok v"
  shows "vfs_locks v" "vfs_usable v \<noteq> 0" "ops_ok (vfs_ops v)" "good (vk v)" "mounts_ok v" "length (files v) = 512"
    "vfs_table_sem v \<notin> Some ` priv (vk v)" "openfile_table_sem v \<notin> Some ` priv (vk v)"
    "mounted v vol = Some a \<Longrightarrow> a \<in> live (vk v)"
    "h < 512 \<Longrightarrow> o_filesystem (files v ! h) \<noteq> 0 \<Longrightarrow> o_filesystem (files v ! h) \<in> live (vk v)"
  using assms mounted_SomeD [of v vol a] by (auto simp: vfs_ok_def)

text \<open>
  A call of a driver, and the end of the operation after it.
\<close>

lemma vfs_ok_world:
  assumes "vfs_ok v" "fs_kept good live priv (vk v) w"
  shows "vfs_ok (v\<lparr>vk := w\<rparr>)"
  using assms sem_val_world [of w v] by (auto simp: vfs_ok_def vfs_locks_def fs_kept_def mounts_ok_def)

lemma vfs_ok_ops: "vfs_ok v \<Longrightarrow> 0 \<le> n \<Longrightarrow> n < INT_MAX \<Longrightarrow> vfs_ok (v\<lparr>vfs_ops := n\<rparr>)"
  by (simp add: vfs_ok_def ops_ok_def)

lemma vfs_ok_files:
  assumes "vfs_ok v" "o_filesystem f \<noteq> 0 \<Longrightarrow> o_filesystem f \<in> live (vk v)"
  shows "vfs_ok (v\<lparr>files := (files v)[h := f]\<rparr>)"
  using assms by (auto simp: vfs_ok_def mounts_ok_def dest: set_update_subset_insert [THEN subsetD])

lemma return_ok: "vfs_ok v \<Longrightarrow> vfs_return r (v\<lparr>vfs_ops := vfs_ops v + 1\<rparr>) = Inr (r, v)"
  using end_op_eq [of "v\<lparr>vfs_ops := vfs_ops v + 1\<rparr>"] by (simp add: vfs_return_def vfs_ok_def ops_ok_def)

lemma begin_ok: "vfs_ok v \<Longrightarrow> vfs_begin v k = k (v\<lparr>vfs_ops := vfs_ops v + 1\<rparr>)"
  by (simp add: vfs_begin_def start_op_eq vfs_okD)


lemma open_ok:
  assumes ok: "vfs_ok v" and w: "cstr p pathname" "length vb = 16" "length fb = 16"
  defines "h \<equiv> first_index (\<lambda>f. o_filesystem f = 0) (files v)"
  shows "\<exists>r v'. vfs_open F vb fb v pathname = Inr (r, v') \<and> vfs_ok v' \<and> vfs_ops v' = vfs_ops v
    \<and> filesystems v' = filesystems v \<and> view (vk v') = view (vk v) \<and> fid (vk v') = fid (vk v)
    \<and> (case split_path p of None \<Rightarrow> r = -3 \<and> files v' = files v
       | Some (vol, nm) \<Rightarrow>
           if 512 \<le> h then r = -7 \<and> files v' = files v
           else (case mounted v vol of None \<Rightarrow> r = -6 \<and> files v' = files v
             | Some a \<Rightarrow>
                 if view (vk v) a nm = None then r = -5 \<and> files v' = files v
                 else r = int h \<and> (\<exists>fd. fid (vk v) a nm fd
                   \<and> files v' = (files v)[h := \<lparr>o_filesystem = a, fileid = fd, seek_position = 0\<rparr>])))"
proof -
  note l = vfs_locksD [OF vfs_okD(1) [OF ok]]
  note sims = vfs_open_def begin_ok [OF ok] sem_P_eq sem_V_eq set_sem_same Let_def return_ok [OF ok]
  obtain e vb' fb' where e: "vfs_parse_pathname pathname vb fb = Inr (e, vb', fb')"
    "case split_path p of None \<Rightarrow> e < 0 | Some (vol, nm) \<Rightarrow> e = 0 \<and> cstr vol vb' \<and> cstr nm fb' \<and> nm \<noteq> [] \<and> length nm \<le> 15"
    using parse_pathname_eq [OF w] by blast
  show ?thesis
  proof (cases "split_path p")
    case None
    then have "e \<noteq> 0" using e(2) by simp
    then have "vfs_open F vb fb v pathname = Inr (-3, v)" using e(1) by (simp add: sims)
    then show ?thesis using None ok by simp
  next
    case (Some vf)
    obtain vol nm where vf: "vf = (vol, nm)" by force
    then have f: "e = 0" "cstr vol vb'" "cstr nm fb'" "nm \<noteq> []" using e(2) Some by auto
    have g: "vfs_get_filesystem (set_sem sm x (set_sem sm' x' (v\<lparr>vfs_ops := y\<rparr>))) vb' =
        Inr (case mounted v vol of None \<Rightarrow> 0 | Some a \<Rightarrow> a)" for sm x sm' x' y
      using get_filesystem_eq [OF _ f(2), of "set_sem sm x (set_sem sm' x' (v\<lparr>vfs_ops := y\<rparr>))"] vfs_okD(5) [OF ok] by simp
    show ?thesis
    proof (cases "512 \<le> h")
      case True
      then have "vfs_open F vb fb v pathname = Inr (-7, v)" using e(1) f(1) l by (simp add: sims h_def)
      then show ?thesis using Some vf ok True by simp
    next
      case False
      then have h: "o_filesystem (files v ! h) = 0" "h < length (files v)"
        using first_index_hit [of "\<lambda>f. o_filesystem f = 0" "files v"] vfs_okD(6) [OF ok] unfolding h_def by simp_all
      show ?thesis
      proof (cases "mounted v vol")
        case None
        then have "vfs_open F vb fb v pathname = Inr (-6, v)" using e(1) f(1) l g False by (simp add: sims h_def [symmetric])
        then show ?thesis using Some vf ok False None by simp
      next
        case m: (Some a)
        then have a: "a \<noteq> 0" "a \<in> live (vk v)" using mounted_SomeD vfs_okD(9) [OF ok] by blast+
        obtain fd w' where fd: "fs_open (F a) (vk v) fb' = Inr (fd, w')" "fs_kept good live priv (vk v) w'"
          "view w' = view (vk v)" "fid w' = fid (vk v)" "if view (vk v) a nm = None then fd = -5 else 0 \<le> fd \<and> fid (vk v) a nm fd"
          using open_law [OF vfs_okD(4) [OF ok] a(2) f(3,4)] by auto
        note ok' = vfs_ok_world [OF ok fd(2)]
        note l' = vfs_locksD [OF vfs_okD(1) [OF ok']]
        show ?thesis
        proof (cases "view (vk v) a nm = None")
          case True
          have "(files v ! h)\<lparr>o_filesystem := 0\<rparr> = files v ! h" using h(1) by (cases "files v ! h") simp
          then have st: "v\<lparr>vk := w', files := (files v)[h := (files v ! h)\<lparr>o_filesystem := 0\<rparr>], vfs_ops := vfs_ops v + 1\<rparr> =
              v\<lparr>vk := w', vfs_ops := vfs_ops v + 1\<rparr>"
            by (cases v) simp
          have "vfs_open F vb fb v pathname =
              vfs_return (-5) (v\<lparr>vk := w', files := (files v)[h := (files v ! h)\<lparr>o_filesystem := 0\<rparr>], vfs_ops := vfs_ops v + 1\<rparr>)"
            using e(1) f(1) l l' g False m a fd h True
            by (simp add: sims h_def [symmetric] in_fs_def upd_order)
          then have "vfs_open F vb fb v pathname = Inr (-5, v\<lparr>vk := w'\<rparr>)"
            unfolding st using return_ok [OF ok', of "-5"] by simp
          then show ?thesis using Some vf ok' False m True fd by simp
        next
          case t: False
          let ?f = "\<lparr>o_filesystem = a, fileid = fd, seek_position = 0\<rparr>"
          have ef: "(files v ! h)\<lparr>o_filesystem := a, fileid := fd, seek_position := 0\<rparr> = ?f" by (cases "files v ! h") simp
          have ok2: "vfs_ok (v\<lparr>vk := w', files := (files v)[h := ?f]\<rparr>)"
            using vfs_ok_files [OF ok', of ?f h] a(2) fd(2) by (simp add: fs_kept_def)
          have "vfs_open F vb fb v pathname = vfs_return (int h) (v\<lparr>vk := w',
              files := (files v)[h := (files v ! h)\<lparr>o_filesystem := a, fileid := fd, seek_position := 0\<rparr>], vfs_ops := vfs_ops v + 1\<rparr>)"
            using e(1) f(1) l l' g False m a fd h t
            by (simp add: sims h_def [symmetric] in_fs_def upd_order)
          then have "vfs_open F vb fb v pathname = Inr (int h, v\<lparr>vk := w', files := (files v)[h := ?f]\<rparr>)"
            unfolding ef using return_ok [OF ok2, of "int h"] by simp
          then show ?thesis using Some vf ok2 False m t fd by auto
        qed
      qed
    qed
  qed
qed


abbreviation handle :: "'x vfs_t \<Rightarrow> nat \<Rightarrow> u32 \<Rightarrow> u8 list \<Rightarrow> nat \<Rightarrow> bool" where
  "handle \<equiv> vfs_handle fid"

lemmas handle_def = vfs_handle_def [of fid]

lemma handle_verify: "handle v h a nm pos \<Longrightarrow> vfs_verify_open (set_sem sm x (v\<lparr>vfs_ops := y\<rparr>)) (int h) = Some h"
  by (simp add: vfs_verify_open_def handle_def)

lemma with_open_ok:
  "vfs_ok v \<Longrightarrow> handle v h a nm pos \<Longrightarrow>
    vfs_begin v (\<lambda>v. with_open v (int h) k) = k ((set_sem (openfile_table_sem v) 0 v)\<lparr>vfs_ops := vfs_ops v + 1\<rparr>) h"
  using vfs_locksD [OF vfs_okD(1), of v] handle_verify [of v h a nm pos "openfile_table_sem v" 0 "vfs_ops v + 1"]
  by (simp add: begin_ok with_open_def sem_P_eq)

lemma advance_eq: "vfs_locks v \<Longrightarrow> advance v h ret =
    Inr (if 0 < ret then v\<lparr>files := (files v)[h := (files v ! h)\<lparr>seek_position := seek_position (files v ! h) + ret\<rparr>]\<rparr> else v)"
  using vfs_locksD [of v] by (simp add: advance_def sem_P_eq sem_V_eq set_sem_same Let_def)

text \<open>
  The end of a read or a write, after the driver has returned \<open>ret\<close> and the world \<open>w\<close>.
\<close>

lemma transfer_end:
  assumes ok: "vfs_ok v" and h: "handle v h a nm pos" and w: "fs_kept good live priv (vk v) w" "fid w = fid (vk v)"
  shows "\<exists>v'. rbind (advance (v\<lparr>vk := w, vfs_ops := vfs_ops v + 1\<rparr>) h ret) vfs_end_op = Inr v'
    \<and> vfs_ok v' \<and> vfs_ops v' = vfs_ops v \<and> filesystems v' = filesystems v \<and> vk v' = w
    \<and> files v' = (files v)[h := (files v ! h)\<lparr>seek_position := int pos + max ret 0\<rparr>]"
proof -
  note ok' = vfs_ok_world [OF ok w(1)]
  have h': "h < length (files v)" "seek_position (files v ! h) = int pos" using h vfs_okD(6) [OF ok] by (simp_all add: handle_def)
  let ?f = "(files v ! h)\<lparr>seek_position := int pos + max ret 0\<rparr>"
  let ?v = "v\<lparr>vk := w, files := (files v)[h := ?f]\<rparr>"
  have "o_filesystem ?f \<in> live w" using h w(1) vfs_okD(10) [OF ok, of h] by (simp add: handle_def fs_kept_def)
  then have ok2: "vfs_ok ?v" using vfs_ok_files [OF ok', of ?f h] by simp
  have "(files v ! h)\<lparr>seek_position := int pos\<rparr> = files v ! h" using h'(2) by (cases "files v ! h") simp
  then have same: "(files v)[h := (files v ! h)\<lparr>seek_position := int pos\<rparr>] = files v" by simp
  have "advance (v\<lparr>vk := w, vfs_ops := vfs_ops v + 1\<rparr>) h ret = Inr (?v\<lparr>vfs_ops := vfs_ops v + 1\<rparr>)"
  proof (cases "0 < ret")
    case True
    then show ?thesis using vfs_okD(1) [OF ok'] h'(2) by (simp add: advance_eq upd_order)
  next
    case False
    then have "(files v)[h := ?f] = files v" using same by simp
    then have "?v = v\<lparr>vk := w\<rparr>" by (cases v) simp
    then show ?thesis using vfs_okD(1) [OF ok'] False by (simp add: advance_eq)
  qed
  then show ?thesis using end_op_eq [of "?v\<lparr>vfs_ops := vfs_ops v + 1\<rparr>"] ok2 vfs_okD(1-3) [OF ok2] by (simp add: ops_ok_def)
qed

lemma write_ok:
  fixes datasize pos :: nat
  assumes ok: "vfs_ok v" and h: "handle v h a nm pos" and data: "view (vk v) a nm = Some data"
  defines "n \<equiv> min datasize (length data - pos)"
  assumes bf: "n \<le> length bf"
  shows "\<exists>v'. vfs_write F v (int h) (Some bf) (int datasize) = Inr (if pos \<le> length data then int n else -2, v')
    \<and> vfs_ok v' \<and> vfs_ops v' = vfs_ops v \<and> filesystems v' = filesystems v \<and> fid (vk v') = fid (vk v)
    \<and> files v' = (files v)[h := (files v ! h)\<lparr>seek_position := int (pos + (if pos \<le> length data then n else 0))\<rparr>]
    \<and> view (vk v') = (view (vk v))(a := (view (vk v) a)(nm \<mapsto> if pos \<le> length data then put_at data pos (take n bf) else data))"
proof -
  have hd: "a \<in> live (vk v)" "fid (vk v) a nm (fileid (files v ! h))" "o_filesystem (files v ! h) = a" "seek_position (files v ! h) = int pos"
    using h vfs_okD(10) [OF ok, of h] by (auto simp: handle_def)
  obtain w where w: "fs_write (F a) (vk v) (fileid (files v ! h)) bf (int datasize) (int pos) =
      Inr (if pos \<le> length data then int n else -2, w)" "fs_kept good live priv (vk v) w" "fid w = fid (vk v)"
    "view w = (view (vk v))(a := (view (vk v) a)(nm \<mapsto> if pos \<le> length data then put_at data pos (take n bf) else data))"
    using write_law [OF vfs_okD(4) [OF ok] hd(1,2) data, of datasize pos bf] bf unfolding n_def by blast
  let ?r = "if pos \<le> length data then int n else -2"
  obtain v' where v': "rbind (advance (v\<lparr>vk := w, vfs_ops := vfs_ops v + 1\<rparr>) h ?r) vfs_end_op = Inr v'"
    "vfs_ok v'" "vfs_ops v' = vfs_ops v" "filesystems v' = filesystems v" "vk v' = w"
    "files v' = (files v)[h := (files v ! h)\<lparr>seek_position := int pos + max ?r 0\<rparr>]"
    using transfer_end [OF ok h w(2,3), of ?r] by blast
  have "vfs_write F v (int h) (Some bf) (int datasize) = Inr (?r, v')"
    using v'(1) w(1) hd(3,4) vfs_locksD [OF vfs_okD(1) [OF ok]]
    by (auto simp: vfs_write_def with_open_ok [OF ok h] sem_V_eq set_sem_same in_fs_def vfs_return_def res_simps upd_order)
  then show ?thesis using v'(2-6) w(3,4) by simp
qed

lemma read_ok:
  fixes bufsize pos :: nat
  assumes ok: "vfs_ok v" and h: "handle v h a nm pos" and data: "view (vk v) a nm = Some data"
  defines "n \<equiv> min bufsize (length data - pos)"
  assumes bf: "n \<le> length bf"
  shows "\<exists>v'. vfs_read F v (int h) (Some bf) (int bufsize) =
      Inr (if pos \<le> length data then (int n, Some (put_at bf 0 (take bufsize (drop pos data))), v') else (-2, Some bf, v'))
    \<and> vfs_ok v' \<and> vfs_ops v' = vfs_ops v \<and> filesystems v' = filesystems v \<and> fid (vk v') = fid (vk v)
    \<and> files v' = (files v)[h := (files v ! h)\<lparr>seek_position := int (pos + (if pos \<le> length data then n else 0))\<rparr>]
    \<and> view (vk v') = view (vk v)"
proof -
  have hd: "a \<in> live (vk v)" "fid (vk v) a nm (fileid (files v ! h))" "o_filesystem (files v ! h) = a" "seek_position (files v ! h) = int pos"
    using h vfs_okD(10) [OF ok, of h] by (auto simp: handle_def)
  obtain w where w: "fs_read (F a) (vk v) (fileid (files v ! h)) bf (int bufsize) (int pos) =
      Inr (if pos \<le> length data then (int n, put_at bf 0 (take bufsize (drop pos data)), w) else (-2, bf, w))"
    "fs_kept good live priv (vk v) w" "fid w = fid (vk v)" "view w = view (vk v)"
    using read_law [OF vfs_okD(4) [OF ok] hd(1,2) data, of bufsize pos bf] bf unfolding n_def by blast
  let ?r = "if pos \<le> length data then int n else -2"
  obtain v' where v': "rbind (advance (v\<lparr>vk := w, vfs_ops := vfs_ops v + 1\<rparr>) h ?r) vfs_end_op = Inr v'"
    "vfs_ok v'" "vfs_ops v' = vfs_ops v" "filesystems v' = filesystems v" "vk v' = w"
    "files v' = (files v)[h := (files v ! h)\<lparr>seek_position := int pos + max ?r 0\<rparr>]"
    using transfer_end [OF ok h w(2,3), of ?r] by blast
  have "vfs_read F v (int h) (Some bf) (int bufsize) =
      Inr (if pos \<le> length data then (int n, Some (put_at bf 0 (take bufsize (drop pos data))), v') else (-2, Some bf, v'))"
    using v'(1) w(1) hd(3,4) vfs_locksD [OF vfs_okD(1) [OF ok]] handle_verify [OF h, of "openfile_table_sem v" 0 "vfs_ops v + 1"]
    by (auto simp: vfs_read_def start_op_eq vfs_okD [OF ok] sem_P_eq sem_V_eq set_sem_same read_in_fs_def res_simps upd_order Let_def)
  then show ?thesis using v'(2-6) w(3,4) by simp
qed


lemma seek_ok:
  assumes ok: "vfs_ok v" and h: "handle v h a nm pos"
  shows "\<exists>v'. vfs_seek v (int h) (int p) = Inr (0, v') \<and> vfs_ok v' \<and> vfs_ops v' = vfs_ops v
    \<and> filesystems v' = filesystems v \<and> vk v' = vk v \<and> files v' = (files v)[h := (files v ! h)\<lparr>seek_position := int p\<rparr>]"
proof -
  let ?v = "v\<lparr>files := (files v)[h := (files v ! h)\<lparr>seek_position := int p\<rparr>]\<rparr>"
  have "o_filesystem ((files v ! h)\<lparr>seek_position := int p\<rparr>) \<in> live (vk v)" using h vfs_okD(10) [OF ok, of h] by (simp add: handle_def)
  then have ok2: "vfs_ok ?v" using vfs_ok_files [OF ok] by blast
  have "vfs_seek v (int h) (int p) = Inr (0, ?v)"
    using vfs_locksD [OF vfs_okD(1) [OF ok]] return_ok [OF ok2, of 0]
    by (simp add: vfs_seek_def with_open_ok [OF ok h] sem_V_eq set_sem_same upd_order Let_def)
  then show ?thesis using ok2 by simp
qed

lemma tell_ok: "vfs_ok v \<Longrightarrow> handle v h a nm pos \<Longrightarrow> vfs_tell v (int h) = Inr (int pos, v)"
  using vfs_locksD [OF vfs_okD(1), of v] return_ok [of v "int pos"] handle_def [of v h a nm pos]
  by (simp add: vfs_tell_def with_open_ok sem_V_eq set_sem_same)

lemma close_ok:
  assumes ok: "vfs_ok v" and h: "handle v h a nm pos"
  shows "\<exists>v'. vfs_close F v (int h) = Inr (0, v') \<and> vfs_ok v' \<and> vfs_ops v' = vfs_ops v
    \<and> filesystems v' = filesystems v \<and> view (vk v') = view (vk v) \<and> fid (vk v') = fid (vk v)
    \<and> files v' = (files v)[h := (files v ! h)\<lparr>o_filesystem := 0\<rparr>]"
proof -
  let ?v = "v\<lparr>files := (files v)[h := (files v ! h)\<lparr>o_filesystem := 0\<rparr>]\<rparr>"
  have ok2: "vfs_ok ?v" using vfs_ok_files [OF ok, of "(files v ! h)\<lparr>o_filesystem := 0\<rparr>" h] by simp
  let ?u = "set_sem (openfile_table_sem v) 0 v"
  have a: "a \<in> live (vk v)" "o_filesystem (files v ! h) = a" using h vfs_okD(10) [OF ok, of h] by (auto simp: handle_def)
  note u = set_sem_good [OF vfs_okD(4,8) [OF ok], where x = 0]
  have c: "fs_close (F a) (vk ?u) (fileid (files v ! h)) = Inr (0, vk ?u)" using close_law u(1,2) a(1) by simp
  have same: "?u\<lparr>vk := vk ?u\<rparr> = ?u" by simp
  have "vfs_close F v (int h) = Inr (0, ?v)"
    using vfs_locksD [OF vfs_okD(1) [OF ok]] return_ok [OF ok2, of 0] a(2) c
    by (simp add: vfs_close_def with_open_ok [OF ok h] in_fs_def sem_V_eq set_sem_same upd_order Let_def)
  then show ?thesis using ok2 by simp
qed

text \<open>
  An operation of a driver under the lock of the mount table.
\<close>

lemma with_volume_ok:
  assumes ok: "vfs_ok v" and vol: "cstr vol volname"
    and call: "\<And>a w. mounted v vol = Some a \<Longrightarrow> good w \<Longrightarrow> a \<in> live w \<Longrightarrow> room w = room (vk v) \<Longrightarrow>
      \<exists>r w'. call a w = Inr (r, w') \<and> fs_kept good live priv w w' \<and> Q a (view w) (fid w) r (view w') (fid w')"
  shows "\<exists>r v'. vfs_begin v (\<lambda>v. with_volume v volname call) = Inr (r, v') \<and> vfs_ok v' \<and> vfs_ops v' = vfs_ops v
    \<and> filesystems v' = filesystems v \<and> files v' = files v
    \<and> (case mounted v vol of None \<Rightarrow> r = -6 \<and> vk v' = vk v
       | Some a \<Rightarrow> Q a (view (vk v)) (fid (vk v)) r (view (vk v')) (fid (vk v')))"
proof -
  note l = vfs_locksD [OF vfs_okD(1) [OF ok]]
  let ?u = "set_sem (vfs_table_sem v) 0 v"
  have g: "vfs_get_filesystem (?u\<lparr>vfs_ops := vfs_ops v + 1\<rparr>) volname = Inr (case mounted v vol of None \<Rightarrow> 0 | Some a \<Rightarrow> a)"
    using get_filesystem_eq [OF _ vol, of "?u\<lparr>vfs_ops := vfs_ops v + 1\<rparr>"] vfs_okD(5) [OF ok] by simp
  show ?thesis
  proof (cases "mounted v vol")
    case None
    then have "vfs_begin v (\<lambda>v. with_volume v volname call) = Inr (-6, v)"
      using l g return_ok [OF ok] by (simp add: begin_ok [OF ok] with_volume_def sem_P_eq sem_V_eq set_sem_same)
    then show ?thesis using None ok by simp
  next
    case (Some a)
    then have a: "a \<noteq> 0" "a \<in> live (vk v)" using mounted_SomeD vfs_okD(9) [OF ok] by blast+
    note u = set_sem_good [OF vfs_okD(4,7) [OF ok], where x = 0]
    obtain r w where w: "call a (vk ?u) = Inr (r, w)" "fs_kept good live priv (vk ?u) w"
      "Q a (view (vk v)) (fid (vk v)) r (view w) (fid w)"
      using call [OF Some u(1)] a(2) u by auto
    let ?v = "set_sem (vfs_table_sem v) 1 (v\<lparr>vk := w\<rparr>)"
    have sv: "sem_val (v\<lparr>vk := w\<rparr>) = sem_val ?u" using sem_val_world [of w ?u] w(2) by (simp add: fs_kept_def)
    have np: "vfs_table_sem v \<notin> Some ` priv w" using vfs_okD(7) [OF ok] w(2) u(3) by (simp add: fs_kept_def)
    have gw: "good (vk (v\<lparr>vk := w\<rparr>))" using w(2) by (simp add: fs_kept_def)
    note w' = set_sem_good [OF gw, of "vfs_table_sem v" 1, simplified, OF np]
    have ok2: "vfs_ok ?v"
      using ok w(2) w' sv u l by (auto simp: vfs_ok_def vfs_locks_def fs_kept_def mounts_ok_def)
    have "vfs_begin v (\<lambda>v. with_volume v volname call) = Inr (r, ?v)"
      using l g return_ok [OF ok2, of r] Some a(1) w(1) sv
      by (simp add: begin_ok [OF ok] with_volume_def sem_P_eq sem_V_eq in_fs_def upd_order)
    then show ?thesis using ok2 Some w(3) w' by simp
  qed
qed


text \<open>
  Creating and removing files.
\<close>

lemma named_eq:
  assumes "vfs_ok v" "vfs_parse_pathname pathname vb fb = Inr (e, vb', fb')"
  shows "0 \<le> sz \<Longrightarrow> vfs_create F vb fb v pathname sz =
      (if e \<noteq> 0 then Inr (-3, v) else vfs_begin v (\<lambda>v. with_volume v vb' (\<lambda>a w. fs_create (F a) w fb' sz)))"
    "vfs_remove F vb fb v pathname =
      (if e \<noteq> 0 then Inr (-3, v) else vfs_begin v (\<lambda>v. with_volume v vb' (\<lambda>a w. fs_remove (F a) w fb')))"
  using assms return_ok [OF assms(1), of "-3"] by (simp_all add: vfs_create_def vfs_remove_def begin_ok [OF assms(1)])

lemma create_ok:
  assumes ok: "vfs_ok v" and w: "cstr p pathname" "length vb = 16" "length fb = 16" and sz: "0 \<le> sz" "sz < 2 ^ 31"
  shows "\<exists>r v'. vfs_create F vb fb v pathname sz = Inr (r, v') \<and> vfs_ok v' \<and> vfs_ops v' = vfs_ops v
    \<and> filesystems v' = filesystems v \<and> files v' = files v
    \<and> (case split_path p of None \<Rightarrow> r = -3 \<and> vk v' = vk v
       | Some (vol, nm) \<Rightarrow>
           (case mounted v vol of None \<Rightarrow> r = -6 \<and> vk v' = vk v
            | Some a \<Rightarrow>
                (if view (vk v) a nm = None \<and> room (vk v) a sz
                 then r = 0 \<and> view (vk v') = (view (vk v))(a := (view (vk v) a)(nm \<mapsto> replicate (nat sz) 0))
                 else r < 0 \<and> view (vk v') = view (vk v))
                \<and> (\<forall>b x f. fid (vk v) b x f \<longrightarrow> fid (vk v') b x f)))"
proof -
  obtain e vb' fb' where e: "vfs_parse_pathname pathname vb fb = Inr (e, vb', fb')"
    "case split_path p of None \<Rightarrow> e < 0 | Some (vol, nm) \<Rightarrow> e = 0 \<and> cstr vol vb' \<and> cstr nm fb' \<and> nm \<noteq> [] \<and> length nm \<le> 15"
    using parse_pathname_eq [OF w] by blast
  show ?thesis
  proof (cases "split_path p")
    case None
    then show ?thesis using named_eq(1) [OF ok e(1) sz(1)] e(2) ok by auto
  next
    case (Some vf)
    obtain vol nm where vf: "vf = (vol, nm)" by force
    then have f: "e = 0" "cstr vol vb'" "cstr nm fb'" "nm \<noteq> []" "length nm \<le> 15" using e(2) Some by auto
    let ?Q = "\<lambda>a vw fi r vw' fi'. (if vw a nm = None \<and> room (vk v) a sz then r = 0 \<and> vw' = vw(a := (vw a)(nm \<mapsto> replicate (nat sz) 0))
      else r < 0 \<and> vw' = vw) \<and> (\<forall>b x f. fi b x f \<longrightarrow> fi' b x f)"
    have "\<exists>r w'. fs_create (F a) w fb' sz = Inr (r, w') \<and> fs_kept good live priv w w' \<and> ?Q a (view w) (fid w) r (view w') (fid w')"
      if "good w" "a \<in> live w" "room w = room (vk v)" for a w using create_law [OF that(1,2) f(3-5) sz] unfolding that(3) by blast
    from with_volume_ok [where Q = ?Q and call = "\<lambda>a w. fs_create (F a) w fb' sz", OF ok f(2) this]
    show ?thesis using named_eq(1) [OF ok e(1) sz(1)] f(1) Some vf by (simp only: simp_thms if_False option.case prod.case)
  qed
qed

lemma remove_ok:
  assumes ok: "vfs_ok v" and w: "cstr p pathname" "length vb = 16" "length fb = 16"
  shows "\<exists>r v'. vfs_remove F vb fb v pathname = Inr (r, v') \<and> vfs_ok v' \<and> vfs_ops v' = vfs_ops v
    \<and> filesystems v' = filesystems v \<and> files v' = files v
    \<and> (case split_path p of None \<Rightarrow> r = -3 \<and> vk v' = vk v
       | Some (vol, nm) \<Rightarrow>
           (case mounted v vol of None \<Rightarrow> r = -6 \<and> vk v' = vk v
            | Some a \<Rightarrow> view (vk v') = (view (vk v))(a := (view (vk v) a)(nm := None)) \<and> r = (if view (vk v) a nm = None then -5 else 0)
                \<and> (\<forall>b x f. fid (vk v) b x f \<and> (b \<noteq> a \<or> x \<noteq> nm) \<longrightarrow> fid (vk v') b x f)))"
proof -
  obtain e vb' fb' where e: "vfs_parse_pathname pathname vb fb = Inr (e, vb', fb')"
    "case split_path p of None \<Rightarrow> e < 0 | Some (vol, nm) \<Rightarrow> e = 0 \<and> cstr vol vb' \<and> cstr nm fb' \<and> nm \<noteq> [] \<and> length nm \<le> 15"
    using parse_pathname_eq [OF w] by blast
  show ?thesis
  proof (cases "split_path p")
    case None
    then show ?thesis using named_eq(2) [OF ok e(1)] e(2) ok by auto
  next
    case (Some vf)
    obtain vol nm where vf: "vf = (vol, nm)" by force
    then have f: "e = 0" "cstr vol vb'" "cstr nm fb'" "nm \<noteq> []" using e(2) Some by auto
    let ?Q = "\<lambda>a vw fi r vw' fi'. vw' = vw(a := (vw a)(nm := None)) \<and> r = (if vw a nm = None then -5 else 0 :: int)
      \<and> (\<forall>b x f. fi b x f \<and> (b \<noteq> a \<or> x \<noteq> nm) \<longrightarrow> fi' b x f)"
    have "\<exists>r w'. fs_remove (F a) w fb' = Inr (r, w') \<and> fs_kept good live priv w w' \<and> ?Q a (view w) (fid w) r (view w') (fid w')"
      if "good w" "a \<in> live w" for a w using remove_law [OF that f(3,4)] by blast
    from with_volume_ok [where Q = ?Q and call = "\<lambda>a w. fs_remove (F a) w fb'", OF ok f(2) this]
    show ?thesis using named_eq(2) [OF ok e(1)] f(1) Some vf by (simp only: simp_thms if_False option.case prod.case)
  qed
qed

lemma getfree_ok:
  assumes ok: "vfs_ok v" and "cstr vol name"
  shows "\<exists>r v'. vfs_getfree F v name = Inr (r, v') \<and> vfs_ok v' \<and> vfs_ops v' = vfs_ops v
    \<and> filesystems v' = filesystems v \<and> files v' = files v \<and> view (vk v') = view (vk v) \<and> fid (vk v') = fid (vk v)
    \<and> (if mounted v vol = None then r = -6 else 0 \<le> r)"
proof -
  let ?Q = "\<lambda>a vw fi r vw' fi'. vw' = vw \<and> fi' = fi \<and> 0 \<le> (r :: int)"
  have "\<exists>r w'. fs_getfree (F a) w = Inr (r, w') \<and> fs_kept good live priv w w' \<and> ?Q a (view w) (fid w) r (view w') (fid w')"
    if "good w" "a \<in> live w" for a w using getfree_law [OF that] by blast
  from with_volume_ok [where Q = ?Q and call = "\<lambda>a w. fs_getfree (F a) w", OF ok assms(2) this]
  show ?thesis by (auto simp: vfs_getfree_def split: option.splits)
qed


text \<open>
  Mounting. A name that any row of the table has had since the row was last used is rejected.
\<close>

lemma mount_rows:
  assumes "mounts_ok v"
  shows "first_index (\<lambda>e. e_filesystem e = 0) (filesystems v) < 8 \<longleftrightarrow> 0 \<in> e_filesystem ` set (filesystems v)"
    "first_index (\<lambda>e. mname e = nm) (filesystems v) < 8 \<longleftrightarrow> nm \<in> mname ` set (filesystems v)"
  using first_index_less_iff [of "\<lambda>e. e_filesystem e = 0" "filesystems v"] first_index_less_iff [of "\<lambda>e. mname e = nm" "filesystems v"]
    mounts_okD(1) [OF assms] by (force simp: image_iff)+

lemma mount_refused:
  assumes ok: "vfs_ok v" and nm: "cstr nm name" "nm \<noteq> []" and no: "0 \<notin> e_filesystem ` set (filesystems v) \<or> nm \<in> mname ` set (filesystems v)"
  shows "vfs_mount v fs name = Inr (if 0 \<in> e_filesystem ` set (filesystems v) then -2 else -7, v)"
proof -
  note l = vfs_locksD [OF vfs_okD(1) [OF ok]] and mo = vfs_okD(5) [OF ok]
  note sims = vfs_mount_def begin_ok [OF ok] sem_P_eq sem_V_eq set_sem_same Let_def return_ok [OF ok]
  have c: "aget name 0 = Inr (hd nm)" "hd nm \<noteq> 0" using cstr_aget [OF nm(1)] nm(2) cstr_zero [OF nm(1)] by (cases nm; auto)+
  define row where "row = first_index (\<lambda>e. e_filesystem e = 0) (filesystems v)"
  have mr: "mount_row ((set_sem sm x v)\<lparr>vfs_ops := y\<rparr>) name = Inr (first_index (\<lambda>e. mname e = nm) (filesystems v))" for sm x y
    using mount_row_eq [OF _ nm(1), of "(set_sem sm x v)\<lparr>vfs_ops := y\<rparr>"] mo by simp
  note rows = mount_rows(1) [OF mo, folded row_def] mount_rows(2) [OF mo, of nm]
  show ?thesis using no c l mr rows by (cases "row < 8") (simp_all add: sims row_def [symmetric])
qed

lemma mount_ok:
  assumes ok: "vfs_ok v" and nm: "cstr nm name" "nm \<noteq> []" "length nm \<le> 15"
    and fs: "fs \<noteq> 0" "fs \<in> live (vk v)" "fs \<notin> e_filesystem ` set (filesystems v)"
  shows "\<exists>r v'. vfs_mount v fs name = Inr (r, v') \<and> vfs_ok v' \<and> vfs_ops v' = vfs_ops v \<and> files v' = files v \<and> vk v' = vk v
    \<and> (if 0 \<notin> e_filesystem ` set (filesystems v) then r = -7 \<and> filesystems v' = filesystems v
       else if nm \<in> mname ` set (filesystems v) then r = -2 \<and> filesystems v' = filesystems v
       else r = 0 \<and> mounted v' = (mounted v)(nm \<mapsto> fs))"
proof -
  note l = vfs_locksD [OF vfs_okD(1) [OF ok]] and mo = vfs_okD(5) [OF ok]
  note sims = vfs_mount_def begin_ok [OF ok] sem_P_eq sem_V_eq set_sem_same Let_def return_ok [OF ok]
  have c: "aget name 0 = Inr (hd nm)" "hd nm \<noteq> 0" using cstr_aget [OF nm(1)] nm(2) cstr_zero [OF nm(1)] by (cases nm; auto)+
  define row where "row = first_index (\<lambda>e. e_filesystem e = 0) (filesystems v)"
  have mr: "mount_row ((set_sem sm x v)\<lparr>vfs_ops := y\<rparr>) name = Inr (first_index (\<lambda>e. mname e = nm) (filesystems v))" for sm x y
    using mount_row_eq [OF _ nm(1), of "(set_sem sm x v)\<lparr>vfs_ops := y\<rparr>"] mo by simp
  note rows = mount_rows(1) [OF mo, folded row_def] mount_rows(2) [OF mo, of nm]
  show ?thesis
  proof (cases "row < 8 \<and> nm \<notin> mname ` set (filesystems v)")
    case False
    then show ?thesis using mount_refused [OF ok nm(1,2), of fs] ok rows by auto
  next
    case True
    obtain mp where mp: "stringcopy (mountpoint (filesystems v ! row)) name 16 = Inr mp" "cstr nm mp" "length mp = 16"
      using stringcopy_total [OF nm(1), of 16 "mountpoint (filesystems v ! row)"] mounts_okD(2) [OF mo] True nm(3) by auto
    let ?e = "\<lparr>e_filesystem = fs, mountpoint = mp\<rparr>"
    let ?v = "v\<lparr>filesystems := (filesystems v)[row := ?e]\<rparr>"
    have e: "mname ?e = nm" using mname_cstr [OF mp(2)] by (simp add: mname_def)
    have mo2: "mounts_ok ?v" using True mp e fs by (intro mounts_ok_row [OF mo]) auto
    have ok2: "vfs_ok ?v" using ok mo2 fs(2) unfolding vfs_ok_def by (auto dest: set_update_subset_insert [THEN subsetD])
    have "vfs_mount v fs name = Inr (0, ?v)"
      using c l mr rows True mp(1) return_ok [OF ok2, of 0] by (simp add: sims row_def [symmetric] upd_order)
    moreover have "mounted ?v = (mounted v)(nm \<mapsto> fs)"
    proof
      fix vol
      have "mounted ?v vol = Some a \<longleftrightarrow> ((mounted v)(nm \<mapsto> fs)) vol = Some a" for a
      proof (cases "a = 0")
        case False
        have r0: "e_filesystem (filesystems v ! row) = 0"
          using first_index_hit [of "\<lambda>e. e_filesystem e = 0" "filesystems v"] True mounts_okD(1) [OF mo] unfolding row_def by simp
        have n: "i < 8 \<Longrightarrow> mname (filesystems v ! i) \<noteq> nm" for i using True mounts_okD(1) [OF mo] by (metis imageI nth_mem)
        have "(\<exists>i < 8. P ((filesystems v)[row := ?e] ! i)) \<longleftrightarrow> P ?e \<or> (\<exists>i < 8. i \<noteq> row \<and> P (filesystems v ! i))" for P
          using True mounts_okD(1) [OF mo] by (metis nth_list_update_eq nth_list_update_neq)
        from this [of "\<lambda>x. mname x = vol \<and> e_filesystem x = a"]
        have "mounted ?v vol = Some a \<longleftrightarrow> vol = nm \<and> a = fs \<or> (\<exists>i < 8. i \<noteq> row \<and> mname (filesystems v ! i) = vol \<and> e_filesystem (filesystems v ! i) = a)"
          using mounted_iff [OF mo2 False, of vol] e by auto
        also have "\<dots> \<longleftrightarrow> vol = nm \<and> a = fs \<or> mounted v vol = Some a"
          unfolding mounted_iff [OF mo False] using r0 False by auto
        finally show ?thesis using n mounted_iff [OF mo False, of vol] by auto
      qed (use mounted_SomeD fs(1) in auto)
      then show "mounted ?v vol = ((mounted v)(nm \<mapsto> fs)) vol" by (metis option.exhaust)
    qed
    ultimately show ?thesis using ok2 rows(1) True by auto
  qed
qed


text \<open>
  A driver's unmount leaves the semaphores of VFS alone.
\<close>

lemma disjoint_image_mono: "S \<inter> f ` A = {} \<Longrightarrow> B \<subseteq> A \<Longrightarrow> S \<inter> f ` B = {}"
  by blast

lemma sem_val_unmount:
  assumes "\<forall>i. i \<notin> priv (vk v) \<longrightarrow> ksem_val (sems w) i = ksem_val (sems (vk v)) i" "sm \<notin> Some ` priv (vk v)"
  shows "sem_val (v\<lparr>vk := w\<rparr>) sm = sem_val v sm"
  using assms by (auto simp: sem_val_def split: option.splits)

lemma unmount_ok:
  assumes ok: "vfs_ok v" and nm: "cstr nm name"
  shows "\<exists>r v'. vfs_unmount F v name = Inr (r, v') \<and> vfs_ok v' \<and> vfs_ops v' = vfs_ops v \<and> files v' = files v
    \<and> (case mounted v nm of None \<Rightarrow> r = -5 \<and> filesystems v' = filesystems v \<and> vk v' = vk v
       | Some a \<Rightarrow> if a \<in> o_filesystem ` set (files v) then r = -8 \<and> filesystems v' = filesystems v \<and> vk v' = vk v
           else r = 0 \<and> mounted v' = (mounted v)(nm := None) \<and> live (vk v') = live (vk v) - {a}
             \<and> (\<forall>b. b \<noteq> a \<longrightarrow> view (vk v') b = view (vk v) b \<and> fid (vk v') b = fid (vk v) b) \<and> map mname (filesystems v') = map mname (filesystems v))"
proof -
  note l = vfs_locksD [OF vfs_okD(1) [OF ok]] and mo = vfs_okD(5) [OF ok]
  note sims = vfs_unmount_def begin_ok [OF ok] sem_P_eq sem_V_eq set_sem_same Let_def return_ok [OF ok]
  define row where "row = first_index (\<lambda>e. mname e = nm) (filesystems v)"
  have mr: "mount_row ((set_sem sm x v)\<lparr>vfs_ops := y\<rparr>) name = Inr row" for sm x y
    using mount_row_eq [OF _ nm(1), of "(set_sem sm x v)\<lparr>vfs_ops := y\<rparr>"] mo by (simp add: row_def)
  have m: "mounted v nm = (let fs = if row < 8 then e_filesystem (filesystems v ! row) else 0 in if fs = 0 then None else Some fs)"
    using mounts_okD(1) [OF mo] by (simp add: mounted_def find_as_index row_def Let_def)
  show ?thesis
  proof (cases "mounted v nm")
    case None
    then have "vfs_unmount F v name = Inr (-5, v)" using l mr m by (simp add: sims split: if_splits)
    then show ?thesis using None ok by simp
  next
    case (Some a)
    then have a: "row < 8" "e_filesystem (filesystems v ! row) = a" "a \<noteq> 0" "a \<in> live (vk v)"
      using m vfs_okD(9) [OF ok] by (auto simp: Let_def split: if_splits)
    show ?thesis
    proof (cases "a \<in> o_filesystem ` set (files v)")
      case True
      then have "vfs_unmount F v name = Inr (-8, v)" using l mr a by (auto simp: sims image_iff)
      then show ?thesis using Some ok True by simp
    next
      case False
      let ?u = "set_sem (openfile_table_sem v) 0 (set_sem (vfs_table_sem v) 0 v)"
      note g1 = set_sem_good [OF vfs_okD(4,7) [OF ok], where x = 0]
      have o1: "openfile_table_sem v \<notin> Some ` priv (vk (set_sem (vfs_table_sem v) 0 v))" using vfs_okD(8) [OF ok] g1(3) by simp
      note g2 = set_sem_good [OF g1(1) o1, where x = 0, unfolded g1]
      obtain w where w: "fs_unmount (F a) (vk ?u) = Inr (0, w)" "good w" "live w = live (vk v) - {a}" "priv w \<subseteq> priv (vk v)"
        "\<forall>b. b \<noteq> a \<longrightarrow> view w b = view (vk v) b \<and> fid w b = fid (vk v) b" "\<forall>i. i \<notin> priv (vk v) \<longrightarrow> ksem_val (sems w) i = ksem_val (sems (vk ?u)) i"
        using unmount_law [OF g2(1), of a] a(4) g2 by auto
      let ?e = "(filesystems v ! row)\<lparr>e_filesystem := 0\<rparr>"
      let ?w = "v\<lparr>vk := w, filesystems := (filesystems v)[row := ?e]\<rparr>"
      let ?v = "set_sem (vfs_table_sem v) 1 (set_sem (openfile_table_sem v) 1 ?w)"
      have np: "sm \<notin> Some ` priv (vk v)" if "sm \<in> {vfs_table_sem v, openfile_table_sem v, vfs_op_sem v, vfs_unmount_sem v}" for sm
        using ok that unfolding vfs_ok_def by blast
      have sv: "sem_val ?w sm = sem_val ?u sm" if "sm \<in> {vfs_table_sem v, openfile_table_sem v, vfs_op_sem v, vfs_unmount_sem v}" for sm
        using sem_val_unmount [of ?u w sm] w(6) np [OF that] g2(3) by simp
      have gw: "good (vk ?w)" "openfile_table_sem v \<notin> Some ` priv (vk ?w)" using w(2,4) np [of "openfile_table_sem v"] by auto
      note g3 = set_sem_good [OF gw, where x = 1]
      have t3: "vfs_table_sem v \<notin> Some ` priv (vk (set_sem (openfile_table_sem v) 1 ?w))" using w(4) np [of "vfs_table_sem v"] g3(3) by auto
      note g4 = set_sem_good [OF g3(1) t3, where x = 1, unfolded g3, simplified]
      have me: "mname ?e = mname (filesystems v ! row)" by (simp add: mname_def)
      have "filesystems v ! row \<in> set (filesystems v)" using a(1) mounts_okD(1) [OF mo] by simp
      then have mo2: "mounts_ok (v\<lparr>filesystems := (filesystems v)[row := ?e]\<rparr>)"
        using mo a(1) me by (intro mounts_ok_row [OF mo]) (auto simp: mounts_ok_def)
      have live: "e_filesystem e \<in> live (vk v) - {a}" if el: "e \<in> set ((filesystems v)[row := ?e])" "e_filesystem e \<noteq> 0" for e
      proof -
        obtain i where i: "i < 8" "e = (filesystems v)[row := ?e] ! i" using el(1) mounts_okD(1) [OF mo] by (auto simp: in_set_conv_nth)
        with el(2) have ir: "i \<noteq> row" "e = filesystems v ! i" using a(1) mounts_okD(1) [OF mo] by (auto simp: nth_list_update split: if_splits)
        then have "e \<in> set (filesystems v)" using i(1) mounts_okD(1) [OF mo] by simp
        then have "e_filesystem e \<in> live (vk v)" using ok that(2) by (auto simp: vfs_ok_def)
        then show ?thesis using mounts_okD(3) [OF mo, of i row] i(1) ir a that(2) by auto
      qed
      have own: "{vfs_table_sem v, openfile_table_sem v, vfs_op_sem v, vfs_unmount_sem v} \<inter> Some ` priv (vk v) = {}"
        using ok by (simp only: vfs_ok_def)
      have fields: "vfs_table_sem ?v = vfs_table_sem v" "openfile_table_sem ?v = openfile_table_sem v"
        "vfs_op_sem ?v = vfs_op_sem v" "vfs_unmount_sem ?v = vfs_unmount_sem v" by simp_all
      have pr: "priv (vk ?v) \<subseteq> priv (vk v)" using w(4) g4(3) by simp
      have ok2: "vfs_ok ?v"
        unfolding vfs_ok_def
      proof (intro conjI)
        show "vfs_locks ?v" using vfs_okD(1) [OF ok] sv l by (simp add: vfs_locks_def)
        show "{vfs_table_sem ?v, openfile_table_sem ?v, vfs_op_sem ?v, vfs_unmount_sem ?v} \<inter> Some ` priv (vk ?v) = {}"
          unfolding fields by (rule disjoint_image_mono [OF own pr])
        show "mounts_ok ?v" using mo2 by (simp add: mounts_ok_def)
        show "\<forall>e \<in> set (filesystems ?v). e_filesystem e \<noteq> 0 \<longrightarrow> e_filesystem e \<in> live (vk ?v)" using live w(3) g4(2) by simp
        show "\<forall>f \<in> set (files ?v). o_filesystem f \<noteq> 0 \<longrightarrow> o_filesystem f \<in> live (vk ?v)"
          using ok False w(3) g4(2) by (auto simp: vfs_ok_def image_iff)
      qed (use ok g4(1) in \<open>simp_all add: vfs_ok_def\<close>)
      have "vfs_unmount F v name = Inr (0, ?v)"
        using l mr a w(1) False sv return_ok [OF ok2, of 0] by (auto simp: sims image_iff in_fs_def upd_order)
      moreover have "mname (filesystems v ! row) = nm"
        using first_index_hit [of "\<lambda>e. mname e = nm" "filesystems v"] a(1) mounts_okD(1) [OF mo] unfolding row_def by simp
      then have "mounted ?v = (mounted v)(nm := None)" "map mname (filesystems ?v) = map mname (filesystems v)"
        using mounted_clear [OF mo a(1)] a(2,3) by (simp_all add: mounted_def fun_eq_iff)
      ultimately show ?thesis using ok2 Some False g4 w(3,5) by simp
    qed
  qed
qed


text \<open>
  Shutting down.
\<close>

lemma replaced_row:
  "row < length xs \<Longrightarrow> insert (f (xs ! row)) (f ` set (xs[row := e])) = insert (f e) (f ` set xs)"
  by (auto simp: set_conv_nth nth_list_update)

lemma diff_replaced: "insert a A = insert z B \<Longrightarrow> z \<notin> L \<Longrightarrow> L - {a} - A = L - B"
  by (metis Diff_insert0 Diff_insert2)

lemma unmount_rows_ok:
  assumes "good (vk v)" "length (filesystems v) = 8" "row + n = 8"
    and "S \<inter> Some ` priv (vk v) = {}"
    and "\<And>i. i < row \<Longrightarrow> e_filesystem (filesystems v ! i) = 0"
    and "\<And>i. i < 8 \<Longrightarrow> e_filesystem (filesystems v ! i) \<noteq> 0 \<Longrightarrow> e_filesystem (filesystems v ! i) \<in> live (vk v)"
    and "\<And>i j. i < 8 \<Longrightarrow> j < 8 \<Longrightarrow> i \<noteq> j \<Longrightarrow> e_filesystem (filesystems v ! i) = e_filesystem (filesystems v ! j) \<Longrightarrow> e_filesystem (filesystems v ! i) = 0"
  shows "\<exists>v'. unmount_rows F row n v = Inr v' \<and> good (vk v') \<and> priv (vk v') \<subseteq> priv (vk v) \<and> (\<forall>e \<in> set (filesystems v'). e_filesystem e = 0)
    \<and> live (vk v') = live (vk v) - e_filesystem ` set (filesystems v)
    \<and> (\<forall>sm \<in> S. sem_val v' sm = sem_val v sm) \<and> vfs_table_sem v' = vfs_table_sem v \<and> openfile_table_sem v' = openfile_table_sem v
    \<and> vfs_op_sem v' = vfs_op_sem v \<and> vfs_unmount_sem v' = vfs_unmount_sem v \<and> files v' = files v \<and> vfs_ops v' = vfs_ops v \<and> vfs_usable v' = vfs_usable v"
  using assms
proof (induction n arbitrary: row v)
  case 0
  then have e: "\<forall>e \<in> set (filesystems v). e_filesystem e = 0" by (auto simp: in_set_conv_nth)
  then have "live (vk v) = live (vk v) - e_filesystem ` set (filesystems v)" using live_nonzero [OF 0(1)] by auto
  then show ?case using 0 e by simp
next
  case (Suc n)
  let ?e = "filesystems v ! row"
  have row: "row < 8" using Suc.prems(3) by simp
  have ag: "aget (filesystems v) (int row) = Inr ?e" using row Suc.prems(2) by simp
  show ?case
  proof (cases "e_filesystem ?e = 0")
    case True
    then have un: "unmount_rows F row (Suc n) v = unmount_rows F (Suc row) n v" using ag by simp
    show ?thesis unfolding un
    proof (rule Suc.IH)
      show "e_filesystem (filesystems v ! i) = 0" if "i < Suc row" for i
        using that True Suc.prems(5) by (auto simp: less_Suc_eq)
    qed (use Suc.prems in auto)
  next
    case False
    then have live: "e_filesystem ?e \<in> live (vk v)" using Suc.prems(6) row by blast
    obtain w where w: "fs_unmount (F (e_filesystem ?e)) (vk v) = Inr (0, w)" "good w" "live w = live (vk v) - {e_filesystem ?e}" "priv w \<subseteq> priv (vk v)"
      "\<forall>i. i \<notin> priv (vk v) \<longrightarrow> ksem_val (sems w) i = ksem_val (sems (vk v)) i"
      using unmount_law [OF Suc.prems(1) live] by blast
    let ?v = "v\<lparr>vk := w, filesystems := (filesystems v)[row := ?e\<lparr>e_filesystem := 0\<rparr>]\<rparr>"
    have un: "unmount_rows F row (Suc n) v = unmount_rows F (Suc row) n ?v" using ag False w(1) by (simp add: in_fs_def)
    have sv: "sem_val ?v sm = sem_val v sm" if "sm \<in> S" for sm
      using sem_val_unmount [OF w(5), of sm] that Suc.prems(4) by auto
    have fs: "e_filesystem (filesystems ?v ! i) = (if i = row then 0 else e_filesystem (filesystems v ! i))" if "i < 8" for i
      using that Suc.prems(2) by (simp add: nth_list_update)
    have p4: "S \<inter> Some ` priv (vk ?v) = {}" using disjoint_image_mono [OF Suc.prems(4) w(4)] by simp
    have p5: "e_filesystem (filesystems ?v ! i) = 0" if "i < Suc row" for i
      using fs [of i] that Suc.prems(3,5) by (cases "i = row") auto
    have p6: "e_filesystem (filesystems ?v ! i) \<in> live (vk ?v)" if "i < 8" "e_filesystem (filesystems ?v ! i) \<noteq> 0" for i
    proof (cases "i = row")
      case ir: False
      then have "e_filesystem (filesystems v ! i) \<in> live (vk v)" "e_filesystem (filesystems v ! i) \<noteq> e_filesystem ?e"
        using that fs [of i] Suc.prems(6) [of i] Suc.prems(7) [of i row] row False by auto
      then show ?thesis using fs [OF that(1)] ir w(3) by simp
    qed (use that fs [of i] in simp)
    have p7: "e_filesystem (filesystems ?v ! i) = 0"
      if "i < 8" "j < 8" "i \<noteq> j" "e_filesystem (filesystems ?v ! i) = e_filesystem (filesystems ?v ! j)" for i j
      using that fs [of i] fs [of j] Suc.prems(7) [of i j] by (auto split: if_splits)
    have "\<exists>v'. unmount_rows F (Suc row) n ?v = Inr v' \<and> good (vk v') \<and> priv (vk v') \<subseteq> priv (vk ?v) \<and> (\<forall>e \<in> set (filesystems v'). e_filesystem e = 0)
      \<and> live (vk v') = live (vk ?v) - e_filesystem ` set (filesystems ?v)
      \<and> (\<forall>sm \<in> S. sem_val v' sm = sem_val ?v sm) \<and> vfs_table_sem v' = vfs_table_sem ?v \<and> openfile_table_sem v' = openfile_table_sem ?v
      \<and> vfs_op_sem v' = vfs_op_sem ?v \<and> vfs_unmount_sem v' = vfs_unmount_sem ?v \<and> files v' = files ?v \<and> vfs_ops v' = vfs_ops ?v \<and> vfs_usable v' = vfs_usable ?v"
    proof (rule Suc.IH)
      show "e_filesystem (filesystems ?v ! i) = 0"
        if "i < 8" "j < 8" "i \<noteq> j" "e_filesystem (filesystems ?v ! i) = e_filesystem (filesystems ?v ! j)" for i j
        using p7 [OF that] .
    qed (use w(2) Suc.prems(2,3) p4 p5 p6 in \<open>simp_all (no_asm_use)\<close>)
    then obtain v' where "unmount_rows F (Suc row) n ?v = Inr v' \<and> good (vk v') \<and> priv (vk v') \<subseteq> priv (vk ?v) \<and> (\<forall>e \<in> set (filesystems v'). e_filesystem e = 0)
      \<and> live (vk v') = live (vk ?v) - e_filesystem ` set (filesystems ?v)
      \<and> (\<forall>sm \<in> S. sem_val v' sm = sem_val ?v sm) \<and> vfs_table_sem v' = vfs_table_sem ?v \<and> openfile_table_sem v' = openfile_table_sem ?v
      \<and> vfs_op_sem v' = vfs_op_sem ?v \<and> vfs_unmount_sem v' = vfs_unmount_sem ?v \<and> files v' = files ?v \<and> vfs_ops v' = vfs_ops ?v \<and> vfs_usable v' = vfs_usable ?v" by blast
    moreover have "live (vk ?v) - e_filesystem ` set (filesystems ?v) = live (vk v) - e_filesystem ` set (filesystems v)"
      using diff_replaced [OF replaced_row [of row "filesystems v" e_filesystem "?e\<lparr>e_filesystem := 0\<rparr>"]] row Suc.prems(2) w(3) live_nonzero [OF Suc.prems(1)] by simp
    ultimately show ?thesis unfolding un using sv w(4) by (intro exI [of _ v']) auto
  qed
qed

lemma deinit_ok:
  assumes ok: "vfs_ok v"
  shows "\<exists>v'. vfs_deinit F (end_ops (nat (vfs_ops v))) v = Inr v' \<and> vfs_locks v' \<and> vfs_usable v' = 0 \<and> vfs_ops v' = 0
    \<and> files v' = files v \<and> good (vk v') \<and> (\<forall>e \<in> set (filesystems v'). e_filesystem e = 0)
    \<and> live (vk v') = live (vk v) - e_filesystem ` set (filesystems v)"
proof -
  note l = vfs_locksD [OF vfs_okD(1) [OF ok]] and mo = vfs_okD(5) [OF ok]
  let ?u = "v\<lparr>vfs_usable := 0, vfs_ops := 0\<rparr>"
  have lu: "vfs_locks ?u" using vfs_okD(1) [OF ok] by simp
  let ?p = "set_sem (openfile_table_sem v) 0 (set_sem (vfs_table_sem v) 0 (set_sem (vfs_op_sem v) 0 v))"
  let ?q = "?p\<lparr>vfs_usable := 0, vfs_ops := 0\<rparr>"
  let ?S = "{vfs_table_sem v, openfile_table_sem v, vfs_op_sem v, vfs_unmount_sem v}"
  have own: "?S \<inter> Some ` priv (vk v) = {}" using ok by (simp only: vfs_ok_def)
  have inS: "vfs_op_sem v \<in> ?S" "vfs_table_sem v \<in> ?S" "openfile_table_sem v \<in> ?S" by simp_all
  note s1 = set_sem_own [OF vfs_okD(4) [OF ok] own inS(1), where x = 0]
  note s2 = set_sem_own [OF s1(1,2) inS(2), where x = 0]
  note s3 = set_sem_own [OF s2(1,2) inS(3), where x = 0]
  from s1 s2 s3 have g: "good (vk ?q)" "live (vk ?q) = live (vk v)" "priv (vk ?q) = priv (vk v)" by simp_all
  have fl: "e_filesystem (filesystems v ! i) \<in> live (vk v)" if "i < 8" "e_filesystem (filesystems v ! i) \<noteq> 0" for i
    using ok that mounts_okD(1) [OF mo] by (auto simp: vfs_ok_def)
  obtain v1 where v1: "unmount_rows F 0 8 ?q = Inr v1" "good (vk v1)" "priv (vk v1) \<subseteq> priv (vk v)" "\<forall>e \<in> set (filesystems v1). e_filesystem e = 0"
    "\<forall>sm \<in> ?S. sem_val v1 sm = sem_val ?q sm" "vfs_table_sem v1 = vfs_table_sem v" "openfile_table_sem v1 = openfile_table_sem v"
    "vfs_op_sem v1 = vfs_op_sem v" "vfs_unmount_sem v1 = vfs_unmount_sem v" "files v1 = files v" "vfs_ops v1 = 0" "vfs_usable v1 = 0"
    "live (vk v1) = live (vk v) - e_filesystem ` set (filesystems v)"
    using unmount_rows_ok [of ?q 0 8 ?S] g own mounts_okD [OF mo] fl by auto
  let ?v1 = "set_sem (vfs_op_sem v) 1 (set_sem (vfs_table_sem v) 1 (set_sem (openfile_table_sem v) 1 v1))"
  have sv: "sem_val v1 (vfs_table_sem v) = Some 0" "sem_val v1 (openfile_table_sem v) = Some 0"
    "sem_val v1 (vfs_op_sem v) = Some 0" "sem_val v1 (vfs_unmount_sem v) = Some 0" using v1(5) l by simp_all
  have own1: "?S \<inter> Some ` priv (vk v1) = {}" by (rule disjoint_image_mono [OF own v1(3)])
  note t1 = set_sem_own [OF v1(2) own1 inS(3), where x = 1]
  note t2 = set_sem_own [OF t1(1,2) inS(2), where x = 1]
  note t3 = set_sem_own [OF t2(1,2) inS(1), where x = 1]
  have g1: "good (vk ?v1)" by (rule t3(1))
  have lv: "live (vk ?v1) = live (vk v) - e_filesystem ` set (filesystems v)" using t1 t2 t3 v1(13) by simp
  have lk: "vfs_locks ?v1" using sv l v1(6-9) vfs_okD(1) [OF ok] by (simp add: vfs_locks_def)
  have tail: "rbind (sem_P (vfs_table_sem v) ((set_sem (vfs_op_sem v) 0 v)\<lparr>vfs_usable := 0, vfs_ops := 0\<rparr>)) (\<lambda>v.
     rbind (sem_P (openfile_table_sem v) v) (\<lambda>v.
     rbind (unmount_rows F 0 CONFIG_MAX_FILESYSTEMS v) (\<lambda>v.
     rbind (sem_V (openfile_table_sem v) v) (\<lambda>v.
     rbind (sem_V (vfs_table_sem v) v) (\<lambda>v.
       sem_V (vfs_op_sem v) v))))) = Inr ?v1"
    using l v1(1) sv v1(6-8) by (simp add: sem_P_eq sem_V_eq)
  have "vfs_deinit F (end_ops (nat (vfs_ops v))) v = Inr ?v1"
  proof (cases "vfs_ops v = 0")
    case True
    then have z: "(set_sem (vfs_op_sem v) 0 v)\<lparr>vfs_usable := 0, vfs_ops := 0\<rparr> = (set_sem (vfs_op_sem v) 0 v)\<lparr>vfs_usable := 0\<rparr>"
      by (simp add: set_sem_def split: option.splits)
    show ?thesis using tail [unfolded z] True l by (simp add: vfs_deinit_def sem_P_eq [of "vfs_op_sem v"] Let_def)
  next
    case False
    then have n: "0 < vfs_ops v" "vfs_ops v < INT_MAX" using vfs_okD(3) [OF ok] by (simp_all add: ops_ok_def)
    have "end_ops (nat (vfs_ops v)) (v\<lparr>vfs_usable := 0\<rparr>) = Inr (set_sem (vfs_unmount_sem v) 1 ?u)"
      using end_ops_eq [of "v\<lparr>vfs_usable := 0\<rparr>" "nat (vfs_ops v)" 0] vfs_okD(1) [OF ok] n by simp
    then show ?thesis using tail n l
      by (simp add: vfs_deinit_def sem_P_eq [of "vfs_op_sem v"] sem_P_eq [of "vfs_unmount_sem v"] sem_V_eq [of "vfs_op_sem v"] set_sem_same Let_def)
  qed
  then show ?thesis using g1 lk lv v1 by simp
qed

end

end
