(* ===== verification/Vfs_Safe.thy ===== *)
theory Vfs_Safe
  imports Vfs_Correct
begin

text \<open>
  Sequences of calls of the virtual filesystem. A call is well formed when its strings are
  terminated and its buffers have the size it states; \<open>vfs_inv\<close> is the invariant that every
  well-formed call keeps, whatever it returns, and under which no call fails an assertion, reads
  outside an object or blocks.
\<close>

datatype vfs_call =
    Open "u8 list"
  | Close int
  | Seek int int
  | Tell int
  | Read int "u8 list" int
  | Write int "u8 list" int
  | Create "u8 list" int
  | Remove "u8 list"
  | Getfree "u8 list"
  | Unmount "u8 list"

text \<open>The result of a call and the state after it; \<open>vb\<close> and \<open>fb\<close> are uninitialised stack memory.\<close>

fun vfs_exec :: "(u32 \<Rightarrow> 'x fs_t) \<Rightarrow> u8 list \<Rightarrow> u8 list \<Rightarrow> vfs_call \<Rightarrow> 'x vfs_t \<Rightarrow> (int \<times> 'x vfs_t) res" where
  "vfs_exec F vb fb (Open path) v = vfs_open F vb fb v path"
| "vfs_exec F vb fb (Close h) v = vfs_close F v h"
| "vfs_exec F vb fb (Seek h pos) v = vfs_seek v h pos"
| "vfs_exec F vb fb (Tell h) v = vfs_tell v h"
| "vfs_exec F vb fb (Read h bf n) v = rbind (vfs_read F v h (Some bf) n) (\<lambda>(r, _, v). Inr (r, v))"
| "vfs_exec F vb fb (Write h bf n) v = vfs_write F v h (Some bf) n"
| "vfs_exec F vb fb (Create path sz) v = vfs_create F vb fb v path sz"
| "vfs_exec F vb fb (Remove path) v = vfs_remove F vb fb v path"
| "vfs_exec F vb fb (Getfree vol) v = vfs_getfree F v vol"
| "vfs_exec F vb fb (Unmount vol) v = vfs_unmount F v vol"

text \<open>
  The conditions on the caller. The kernel asserts that positions and sizes are not negative, and
  TFS does not keep track of open files: a file that is removed must not be open.
\<close>

fun call_ok :: "('x kworld \<Rightarrow> u32 \<Rightarrow> u8 list \<Rightarrow> int \<Rightarrow> bool) \<Rightarrow> 'x vfs_t \<Rightarrow> vfs_call \<Rightarrow> bool" where
  "call_ok fid v (Open path) \<longleftrightarrow> 0 \<in> set path"
| "call_ok fid v (Seek h pos) \<longleftrightarrow> 0 \<le> pos"
| "call_ok fid v (Read h bf n) \<longleftrightarrow> n \<le> int (length bf)"
| "call_ok fid v (Write h bf n) \<longleftrightarrow> n \<le> int (length bf)"
| "call_ok fid v (Create path sz) \<longleftrightarrow> 0 \<in> set path \<and> 0 \<le> sz \<and> sz < 2 ^ 31"
| "call_ok fid v (Remove path) \<longleftrightarrow> 0 \<in> set path \<and>
     (\<forall>vol nm a. split_path (takeWhile (\<lambda>c. c \<noteq> 0) path) = Some (vol, nm) \<and> mounted v vol = Some a \<longrightarrow>
        (\<forall>h < 512. o_filesystem (files v ! h) = a \<longrightarrow> \<not> fid (vk v) a nm (fileid (files v ! h))))"
| "call_ok fid v (Getfree vol) \<longleftrightarrow> 0 \<in> set vol"
| "call_ok fid v (Unmount vol) \<longleftrightarrow> 0 \<in> set vol"
| "call_ok fid v _ \<longleftrightarrow> True"

text \<open>The invariant: the tables are well formed, and every open file is a file of its volume.\<close>

definition vfs_inv where
  "vfs_inv good live priv fid v \<longleftrightarrow> vfs_wf good live priv v
     \<and> (\<forall>h < 512. o_filesystem (files v ! h) \<noteq> 0 \<longrightarrow>
          (\<exists>nm pos. vfs_handle fid v h (o_filesystem (files v ! h)) nm pos))"

text \<open>
  The states that well-formed calls reach, with the number of calls that have returned
  \<^verbatim>\<open>VFS_NOT_OPEN\<close>: each of them leaves the counter of operations one too high.
\<close>

inductive vfs_reach for F fid vb fb v0 where
  start: "vfs_reach F fid vb fb v0 v0 0"
| call: "vfs_reach F fid vb fb v0 v n \<Longrightarrow> call_ok fid v c \<Longrightarrow> vfs_exec F vb fb c v = Inr (r, v')
    \<Longrightarrow> vfs_reach F fid vb fb v0 v' (if r = VFS_NOT_OPEN then Suc n else n)"

lemma cstr_whole: "0 \<in> set b \<Longrightarrow> cstr (takeWhile (\<lambda>c. c \<noteq> 0) b) b"
  by (induction b) (auto simp: cstr_def)

lemma not_open_close_seek:
  assumes "vfs_locks v" "vfs_usable v \<noteq> 0" "vfs_verify_open v h = None" "ops_ok (vfs_ops v)"
  shows "vfs_close F v h = Inr (-4, v\<lparr>vfs_ops := vfs_ops v + 1\<rparr>)" "vfs_tell v h = Inr (-4, v\<lparr>vfs_ops := vfs_ops v + 1\<rparr>)"
    "0 \<le> pos \<Longrightarrow> vfs_seek v h pos = Inr (-4, v\<lparr>vfs_ops := vfs_ops v + 1\<rparr>)"
    "0 \<le> n \<Longrightarrow> vfs_write F v h (Some bf) n = Inr (-4, v\<lparr>vfs_ops := vfs_ops v + 1\<rparr>)"
  using not_open_eq(1) [OF assms] by (simp_all add: vfs_close_def vfs_tell_def vfs_seek_def vfs_write_def)

context fs_driver
begin

abbreviation inv where "inv \<equiv> vfs_inv good live priv fid"

lemma inv_files:
  assumes "inv v" "vfs_ok v'" "fid (vk v') = fid (vk v)" "h < 512"
    and f: "files v' = (files v)[h := f]" "o_filesystem f \<noteq> 0 \<Longrightarrow> \<exists>nm pos. fid (vk v) (o_filesystem f) nm (fileid f) \<and> seek_position f = int pos"
  shows "inv v'"
proof -
  have "\<exists>nm pos. vfs_handle fid v' k (o_filesystem (files v' ! k)) nm pos" if k: "k < 512" "o_filesystem (files v' ! k) \<noteq> 0" for k
  proof (cases "k = h")
    case True
    have "h < length (files v)" using assms(1,4) by (simp add: vfs_inv_def vfs_wf_def)
    then show ?thesis using f k True assms(3) by (auto simp: vfs_handle_def)
  next
    case False
    then show ?thesis using k f(1) assms(1,3) by (auto simp: vfs_inv_def vfs_handle_def)
  qed
  then show ?thesis using assms(2) by (simp add: vfs_inv_def)
qed

lemma inv_same_files:
  assumes "inv v" "vfs_ok v'" "files v' = files v"
    and "\<And>h nm. h < 512 \<Longrightarrow> o_filesystem (files v ! h) \<noteq> 0 \<Longrightarrow> fid (vk v) (o_filesystem (files v ! h)) nm (fileid (files v ! h)) \<Longrightarrow>
      fid (vk v') (o_filesystem (files v ! h)) nm (fileid (files v ! h))"
  shows "inv v'"
  using assms unfolding vfs_inv_def vfs_handle_def by metis

lemma inv_leak: "inv v \<Longrightarrow> vfs_ops v + 1 < INT_MAX \<Longrightarrow> inv (v\<lparr>vfs_ops := vfs_ops v + 1\<rparr>)"
  using ops_okD(1) [OF vfs_okD(3)] by (simp add: vfs_inv_def vfs_handle_def vfs_ok_ops)

text \<open>
  What is claimed of a call: it returns and keeps the invariant and the counter, or the file was not
  open and only the counter has changed.
\<close>

definition safe where
  "safe vb fb c v \<longleftrightarrow> (\<exists>r v'. vfs_exec F vb fb c v = Inr (r, v') \<and>
     (inv v' \<and> vfs_ops v' = vfs_ops v \<or> r = VFS_NOT_OPEN \<and> v' = v\<lparr>vfs_ops := vfs_ops v + 1\<rparr>))"

lemma safeI: "vfs_exec F vb fb c v = Inr (r, v') \<Longrightarrow> inv v' \<Longrightarrow> vfs_ops v' = vfs_ops v \<Longrightarrow> safe vb fb c v"
  by (auto simp: safe_def)

lemma safe_leak: "vfs_exec F vb fb c v = Inr (-4, v\<lparr>vfs_ops := vfs_ops v + 1\<rparr>) \<Longrightarrow> safe vb fb c v"
  by (simp add: safe_def)

lemma inv_ok: "inv v \<Longrightarrow> vfs_ok v"
  by (simp add: vfs_inv_def)

text \<open>
  The operations on an open file: either the file is not open, or it is a file of a volume.
\<close>

lemma handle_cases:
  assumes "inv v"
  obtains "vfs_verify_open v h = None"
  | k nm pos data where "h = int k" "k < 512" "handle v k (o_filesystem (files v ! k)) nm pos" "view (vk v) (o_filesystem (files v ! k)) nm = Some data"
proof (cases "vfs_verify_open v h")
  case (Some k)
  then have k: "h = int k" "k < 512" "o_filesystem (files v ! k) \<noteq> 0" by (auto simp: vfs_verify_open_def split: if_splits)
  then obtain nm pos where n: "handle v k (o_filesystem (files v ! k)) nm pos" using assms by (auto simp: vfs_inv_def)
  then obtain data where "view (vk v) (o_filesystem (files v ! k)) nm = Some data"
    using fid_view [OF vfs_okD(4) [OF inv_ok [OF assms]]] unfolding vfs_handle_def by blast
  then show ?thesis using that(2) k n by blast
qed (use that in blast)

lemma safe_open_file:
  assumes v: "inv v" "call_ok fid v c" and c: "c = Close h \<or> c = Seek h p \<or> c = Tell h \<or> c = Read h bf n \<or> c = Write h bf n"
  shows "safe vb fb c v"
proof (rule handle_cases [OF v(1), of h])
  assume "vfs_verify_open v h = None"
  note no = not_open_close_seek [OF vfs_okD(1,2) [OF inv_ok [OF v(1)]] this vfs_okD(3) [OF inv_ok [OF v(1)]]]
    not_open_eq(2) [OF vfs_okD(1,2) [OF inv_ok [OF v(1)]] this vfs_okD(3) [OF inv_ok [OF v(1)]]]
  show ?thesis
  proof (cases "n < 0")
    case True
    then show ?thesis using c v no by (elim disjE) (auto simp: vfs_write_def safe_def)
  next
    case False
    then show ?thesis using c v no by (elim disjE) (auto intro!: safe_leak)
  qed
next
  fix k nm pos data
  let ?a = "o_filesystem (files v ! k)"
  assume h: "h = int k" "k < 512" "handle v k ?a nm pos" "view (vk v) ?a nm = Some data"
  note ok = inv_ok [OF v(1)]
  have f: "\<exists>nm' p'. fid (vk v) (o_filesystem f) nm' (fileid f) \<and> seek_position f = int p'"
    if "f = (files v ! k)\<lparr>seek_position := int q\<rparr>" for f q using that h(3) by (auto simp: vfs_handle_def)
  note upd = inv_files [OF v(1) _ _ h(2)]
  consider "c = Close h" | "c = Seek h p" | "c = Tell h" | "n < 0" "c = Read h bf n \<or> c = Write h bf n"
    | "0 \<le> n" "c = Read h bf n" | "0 \<le> n" "c = Write h bf n" using c by linarith
  then show ?thesis
  proof cases
    case 1
    then show ?thesis using close_ok [OF ok h(3)] h(1) upd by (fastforce intro: safeI)
  next
    case 2
    then obtain q where "p = int q" using v(2) nonneg_int_cases by (metis call_ok.simps(2))
    then show ?thesis using 2 seek_ok [OF ok h(3), of q] h(1) upd f by (fastforce intro: safeI)
  next
    case 3
    then show ?thesis using tell_ok [OF ok h(3)] h(1) v(1) by (auto intro: safeI)
  next
    case 4
    then show ?thesis using v(1) by (auto simp: vfs_read_def vfs_write_def intro!: safeI)
  next
    case 5
    then obtain m where m: "n = int m" "min m (length data - pos) \<le> length bf" using v(2) nonneg_int_cases by (metis call_ok.simps(3) min.coboundedI1 of_nat_le_iff)
    from read_ok [OF ok h(3,4) m(2)] obtain r bf' v' where
      r: "vfs_read F v h (Some bf) n = Inr (r, bf', v')" "vfs_ok v'" "fid (vk v') = fid (vk v)"
      "files v' = (files v)[k := (files v ! k)\<lparr>seek_position := int (pos + (if pos \<le> length data then min m (length data - pos) else 0))\<rparr>]" "vfs_ops v' = vfs_ops v"
      unfolding h(1) m(1) by (auto split: if_splits)
    have "inv v'" by (rule upd [OF r(2-4)]) (rule f [OF refl])
    then show ?thesis using 5 r(1,5) by (auto intro!: safeI)
  next
    case 6
    then obtain m where m: "n = int m" "min m (length data - pos) \<le> length bf" using v(2) nonneg_int_cases by (metis call_ok.simps(4) min.coboundedI1 of_nat_le_iff)
    from write_ok [OF ok h(3,4) m(2)] obtain r v' where
      r: "vfs_write F v h (Some bf) n = Inr (r, v')" "vfs_ok v'" "fid (vk v') = fid (vk v)"
      "files v' = (files v)[k := (files v ! k)\<lparr>seek_position := int (pos + (if pos \<le> length data then min m (length data - pos) else 0))\<rparr>]" "vfs_ops v' = vfs_ops v"
      unfolding h(1) m(1) by blast
    have "inv v'" by (rule upd [OF r(2-4)]) (rule f [OF refl])
    then show ?thesis using 6 r(1,5) by (auto intro!: safeI)
  qed
qed

lemma safe_call:
  assumes v: "inv v" "call_ok fid v c" and b: "length vb = 16" "length fb = 16"
  shows "safe vb fb c v"
proof (cases c)
  case (Open path)
  then have p: "cstr (takeWhile (\<lambda>c. c \<noteq> 0) path) path" using v(2) cstr_whole by simp
  let ?h = "first_index (\<lambda>f. o_filesystem f = 0) (files v)"
  from open_ok [OF inv_ok [OF v(1)] p b] obtain r v' where
    o: "vfs_open F vb fb v path = Inr (r, v')" "vfs_ok v'" "fid (vk v') = fid (vk v)"
    "files v' = files v \<or> (\<exists>a fd nm. ?h < 512 \<and> fid (vk v) a nm fd \<and> files v' = (files v)[?h := \<lparr>o_filesystem = a, fileid = fd, seek_position = 0\<rparr>])"
    "vfs_ops v' = vfs_ops v"
    by (fastforce split: option.splits if_splits prod.splits)
  from o(4) show ?thesis
  proof
    assume "files v' = files v"
    then show ?thesis using inv_same_files [OF v(1) o(2)] o Open by (auto intro!: safeI)
  next
    assume "\<exists>a fd nm. ?h < 512 \<and> fid (vk v) a nm fd \<and> files v' = (files v)[?h := \<lparr>o_filesystem = a, fileid = fd, seek_position = 0\<rparr>]"
    then obtain a fd nm where f: "?h < 512" "fid (vk v) a nm fd" "files v' = (files v)[?h := \<lparr>o_filesystem = a, fileid = fd, seek_position = int 0\<rparr>]" by auto
    then show ?thesis using inv_files [OF v(1) o(2,3) f(1,3)] o(1,5) Open by (auto intro!: safeI)
  qed
next
  case (Create path sz)
  then have p: "cstr (takeWhile (\<lambda>c. c \<noteq> 0) path) path" "0 \<le> sz" "sz < 2 ^ 31" using v(2) cstr_whole by simp_all
  from create_ok [OF inv_ok [OF v(1)] p(1) b p(2,3)] obtain r v' where
    c: "vfs_create F vb fb v path sz = Inr (r, v')" "vfs_ok v'" "files v' = files v" "\<forall>b x f. fid (vk v) b x f \<longrightarrow> fid (vk v') b x f" "vfs_ops v' = vfs_ops v"
    by (fastforce split: option.splits prod.splits)
  then show ?thesis using inv_same_files [OF v(1) c(2,3)] Create by (auto intro!: safeI)
next
  case (Remove path)
  let ?p = "takeWhile (\<lambda>c. c \<noteq> 0) path"
  have p: "cstr ?p path" using v(2) cstr_whole Remove by simp
  from remove_ok [OF inv_ok [OF v(1)] p b] obtain r v' where
    c: "vfs_remove F vb fb v path = Inr (r, v')" "vfs_ok v'" "files v' = files v"
    "fid (vk v') = fid (vk v) \<or> (\<exists>vol nm a. split_path ?p = Some (vol, nm) \<and> mounted v vol = Some a
        \<and> (\<forall>b x f. fid (vk v) b x f \<and> (b \<noteq> a \<or> x \<noteq> nm) \<longrightarrow> fid (vk v') b x f))" "vfs_ops v' = vfs_ops v"
    by (fastforce split: option.splits prod.splits)
  have "inv v'"
  proof (rule inv_same_files [OF v(1) c(2,3)])
    fix h x assume h: "h < 512" "fid (vk v) (o_filesystem (files v ! h)) x (fileid (files v ! h))"
    from c(4) show "fid (vk v') (o_filesystem (files v ! h)) x (fileid (files v ! h))"
    proof
      assume "\<exists>vol nm a. split_path ?p = Some (vol, nm) \<and> mounted v vol = Some a
        \<and> (\<forall>b x f. fid (vk v) b x f \<and> (b \<noteq> a \<or> x \<noteq> nm) \<longrightarrow> fid (vk v') b x f)"
      then obtain vol nm a where s: "split_path ?p = Some (vol, nm)" "mounted v vol = Some a"
        "\<And>b x f. fid (vk v) b x f \<Longrightarrow> b \<noteq> a \<or> x \<noteq> nm \<Longrightarrow> fid (vk v') b x f" by blast
      moreover have "o_filesystem (files v ! h) \<noteq> a \<or> x \<noteq> nm" using v(2) Remove s(1,2) h by auto
      ultimately show ?thesis using h(2) by blast
    qed (use h(2) in simp)
  qed
  then show ?thesis using c(1,5) Remove by (auto intro!: safeI)
next
  case (Getfree vol)
  then have "cstr (takeWhile (\<lambda>c. c \<noteq> 0) vol) vol" using v(2) cstr_whole by simp
  from getfree_ok [OF inv_ok [OF v(1)] this] show ?thesis using inv_same_files [OF v(1)] Getfree by (fastforce intro: safeI)
next
  case (Unmount vol)
  let ?m = "mounted v (takeWhile (\<lambda>c. c \<noteq> 0) vol)"
  have p: "cstr (takeWhile (\<lambda>c. c \<noteq> 0) vol) vol" using v(2) cstr_whole Unmount by simp
  obtain r v' where c: "vfs_unmount F v vol = Inr (r, v')" "vfs_ok v'" "files v' = files v"
    "vk v' = vk v \<or> (\<exists>a. a \<notin> o_filesystem ` set (files v) \<and> (\<forall>b. b \<noteq> a \<longrightarrow> fid (vk v') b = fid (vk v) b))" "vfs_ops v' = vfs_ops v"
  proof (cases ?m)
    case None
    then show ?thesis using unmount_ok [OF inv_ok [OF v(1)] p] that by auto
  next
    case (Some a)
    then show ?thesis using unmount_ok [OF inv_ok [OF v(1)] p] that
      by (cases "a \<in> o_filesystem ` set (files v)") (simp_all, metis+)
  qed
  have "inv v'"
  proof (rule inv_same_files [OF v(1) c(2,3)])
    fix h nm assume h: "h < 512" "fid (vk v) (o_filesystem (files v ! h)) nm (fileid (files v ! h))"
    then have "o_filesystem (files v ! h) \<in> o_filesystem ` set (files v)" using vfs_okD(6) [OF inv_ok [OF v(1)]] by simp
    then show "fid (vk v') (o_filesystem (files v ! h)) nm (fileid (files v ! h))" using c(4) h(2) by metis
  qed
  then show ?thesis using c(1,5) Unmount by (auto intro!: safeI)
qed (use safe_open_file [OF v] in blast)+

lemma safe_reach:
  assumes "vfs_reach F fid vb fb v0 v n" "inv v0" "length vb = 16" "length fb = 16" "vfs_ops v0 + int n < INT_MAX"
  shows "inv v \<and> vfs_ops v \<le> vfs_ops v0 + int n"
  using assms(1,5)
proof induction
  case (call v n c r v')
  then have IH: "inv v" "vfs_ops v \<le> vfs_ops v0 + int n" by (auto split: if_splits)
  from safe_call [OF IH(1) call.hyps(2) assms(3,4)] call.hyps(3)
  have "inv v' \<and> vfs_ops v' = vfs_ops v \<or> r = VFS_NOT_OPEN \<and> v' = v\<lparr>vfs_ops := vfs_ops v + 1\<rparr>" by (auto simp: safe_def)
  then show ?case using IH call.prems inv_leak [OF IH(1)] by auto
qed (use assms(2) in simp)

lemma safe_next:
  assumes "vfs_reach F fid vb fb v0 v n" "inv v0" "call_ok fid v c" "length vb = 16" "length fb = 16" "vfs_ops v0 + int n + 1 < INT_MAX"
  shows "\<exists>r v'. vfs_exec F vb fb c v = Inr (r, v') \<and> inv v'"
proof -
  have v: "inv v" "vfs_ops v + 1 < INT_MAX" using safe_reach [OF assms(1,2,4,5)] assms(6) by auto
  then show ?thesis using safe_call [OF v(1) assms(3,4,5)] inv_leak [OF v] by (auto simp: safe_def)
qed

end

end
