(* ===== verification/Disk.thy ===== *)
theory Disk
  imports Gbd
begin

text \<open>
  \<^verbatim>\<open>drivers/disk.c\<close> and \<^verbatim>\<open>drivers/disksched.c\<close>: the driver of the YAMS disk, with its queue
  of requests.

  The hardware is a parameter: \<open>yams_io\<close> holds the accesses to the disk's registers (a state of
  the hardware is a value of the type \<open>'y\<close>) and to the memory that the disk transfers to and
  from. Its documented behaviour is the locale \<open>yams_disk\<close>: an idle disk starts a transfer on
  a command, a busy one finishes it and raises an interrupt, and acknowledging the interrupt
  makes it idle again.

  Request structures live in a memory indexed by their addresses, and the queue is linked
  through them. \<open>disk_submit_request\<close> waits for the interrupt handler; what the machine does
  in the meantime is its argument \<open>wait\<close>.
\<close>

section \<open>The code\<close>

record 'y yams_io =
  io_status :: "'y \<Rightarrow> u32"
  io_command :: "'y \<Rightarrow> u32 \<Rightarrow> 'y"
  io_data :: "'y \<Rightarrow> u32"
  io_tsector :: "'y \<Rightarrow> u32 \<Rightarrow> 'y"
  io_dmaaddr :: "'y \<Rightarrow> u32 \<Rightarrow> 'y"
  ram_get :: "'y \<Rightarrow> u32 \<Rightarrow> u8 list"
  ram_put :: "'y \<Rightarrow> u32 \<Rightarrow> u8 list \<Rightarrow> 'y"

abbreviation (input) DISK_COMMAND_READ :: u32 where "DISK_COMMAND_READ \<equiv> 1"
abbreviation (input) DISK_COMMAND_WRITE :: u32 where "DISK_COMMAND_WRITE \<equiv> 2"
abbreviation (input) DISK_COMMAND_RIRQ :: u32 where "DISK_COMMAND_RIRQ \<equiv> 3"
abbreviation (input) DISK_COMMAND_WIRQ :: u32 where "DISK_COMMAND_WIRQ \<equiv> 4"
abbreviation (input) DISK_COMMAND_BLOCKS :: u32 where "DISK_COMMAND_BLOCKS \<equiv> 5"
abbreviation (input) DISK_COMMAND_BLOCKSIZE :: u32 where "DISK_COMMAND_BLOCKSIZE \<equiv> 6"

definition DISK_STATUS_RBUSY :: "u32 \<Rightarrow> u32" where "DISK_STATUS_RBUSY s = s AND 0x1"
definition DISK_STATUS_WBUSY :: "u32 \<Rightarrow> u32" where "DISK_STATUS_WBUSY s = s AND 0x2"
definition DISK_STATUS_RIRQ :: "u32 \<Rightarrow> u32" where "DISK_STATUS_RIRQ s = s AND 0x4"
definition DISK_STATUS_WIRQ :: "u32 \<Rightarrow> u32" where "DISK_STATUS_WIRQ s = s AND 0x8"
definition DISK_STATUS_ERRORS :: "u32 \<Rightarrow> u32" where "DISK_STATUS_ERRORS s = s AND 0xf8000000"

abbreviation (input) GBD_OPERATION_READ :: u32 where "GBD_OPERATION_READ \<equiv> 0"
abbreviation (input) GBD_OPERATION_WRITE :: u32 where "GBD_OPERATION_WRITE \<equiv> 1"

record gbd_request_t =
  block :: u32
  buf :: u32
  sem :: "nat option"
  operation :: u32
  internal :: u32
  next_r :: u32
  return_value :: int

record 'y disk_real_device_t =
  request_queue :: u32
  request_served :: u32
  reqs :: "u32 \<Rightarrow> gbd_request_t"
  hw :: 'y

definition upd_req :: "'y disk_real_device_t \<Rightarrow> u32 \<Rightarrow> (gbd_request_t \<Rightarrow> gbd_request_t) \<Rightarrow> 'y disk_real_device_t" where
  "upd_req d r f = d\<lparr>reqs := (reqs d)(r := f (reqs d r))\<rparr>"

text \<open>The loop of \<open>disksched_schedule\<close>: the last request of the queue.\<close>

partial_function (option) sched_last :: "(u32 \<Rightarrow> gbd_request_t) \<Rightarrow> u32 \<Rightarrow> u32 option" where
  "sched_last rs q = (if next_r (rs q) \<noteq> 0 then sched_last rs (next_r (rs q)) else Some q)"

definition disksched_schedule :: "'y disk_real_device_t \<Rightarrow> u32 \<Rightarrow> 'y disk_real_device_t ores" where
  "disksched_schedule d request =
     (if request_queue d \<noteq> 0 then
        Option.bind (sched_last (reqs d) (request_queue d)) (\<lambda>q.
          Some (Inr (upd_req d q (\<lambda>x. x\<lparr>next_r := request\<rparr>))))
      else Some (Inr (d\<lparr>request_queue := request\<rparr>)))"

definition disk_next_request :: "'y yams_io \<Rightarrow> 'y disk_real_device_t \<Rightarrow> 'y disk_real_device_t res" where
  "disk_next_request io d =
     (if DISK_STATUS_RBUSY (io_status io (hw d)) \<noteq> 0 \<or> DISK_STATUS_WBUSY (io_status io (hw d)) \<noteq> 0
      then Inl Kernel_assert
      else if request_served d \<noteq> 0 then Inl Kernel_assert
      else let req = request_queue d in
        if req = 0 then Inr d
        else
          let d1 = upd_req (d\<lparr>request_queue := next_r (reqs d req)\<rparr>) req (\<lambda>x. x\<lparr>next_r := 0\<rparr>);
              d2 = d1\<lparr>request_served := req\<rparr>;
              y = io_dmaaddr io (io_tsector io (hw d2) (block (reqs d2 req))) (buf (reqs d2 req))
          in rbind
               (if operation (reqs d2 req) = GBD_OPERATION_READ then Inr (io_command io y DISK_COMMAND_READ)
                else if operation (reqs d2 req) = GBD_OPERATION_WRITE then Inr (io_command io y DISK_COMMAND_WRITE)
                else Inl Kernel_panic)
               (\<lambda>y'. if DISK_STATUS_ERRORS (io_status io y') \<noteq> 0 then Inl Kernel_panic
                     else Inr (d2\<lparr>hw := y'\<rparr>)))"

definition disk_interrupt_handle ::
  "'y yams_io \<Rightarrow> 'y disk_real_device_t kworld \<Rightarrow> 'y disk_real_device_t kworld res" where
  "disk_interrupt_handle io w =
     (let d = dev w; st = io_status io (hw d) in
      if \<not> (DISK_STATUS_RIRQ st \<noteq> 0 \<or> DISK_STATUS_WIRQ st \<noteq> 0) then Inr w
      else
        let d1 = d\<lparr>hw := io_command io (io_command io (hw d) DISK_COMMAND_WIRQ) DISK_COMMAND_RIRQ\<rparr> in
        if request_served d1 = 0 then Inl Kernel_assert
        else
          let served = request_served d1;
              d2 = upd_req d1 served (\<lambda>x. x\<lparr>return_value := 0\<rparr>)
          in (case sem (reqs d2 served) of
                None \<Rightarrow> Inl Bad_access
              | Some i \<Rightarrow> rbind (ksem_V (sems w) i) (\<lambda>k.
                  rbind (disk_next_request io (d2\<lparr>request_served := 0\<rparr>)) (\<lambda>d3.
                    Inr (w\<lparr>sems := k, dev := d3\<rparr>)))))"

text \<open>
  \<open>disk_submit_request\<close> up to the point where it waits. The result is \<open>None\<close> when no semaphore
  could be created, and otherwise tells whether the request is synchronous.
\<close>

definition disk_submit_begin ::
  "'y yams_io \<Rightarrow> 'y disk_real_device_t kworld \<Rightarrow> u32 \<Rightarrow> (bool option \<times> 'y disk_real_device_t kworld) ores" where
  "disk_submit_begin io w request =
     (let d = upd_req (dev w) request (\<lambda>x. x\<lparr>internal := 0, next_r := 0, return_value := -1\<rparr>);
          sem_null = (sem (reqs d request) = None);
          (s, k) = (if sem_null then ksem_create (sems w) 0 else (sem (reqs d request), sems w));
          d1 = upd_req d request (\<lambda>x. x\<lparr>sem := s\<rparr>)
      in if s = None then Some (Inr (None, w\<lparr>sems := k, dev := d1\<rparr>))
         else obind (disksched_schedule d1 request) (\<lambda>d2.
              obind (if request_served d2 = 0 then Some (disk_next_request io d2) else Some (Inr d2)) (\<lambda>d3.
                Some (Inr (Some sem_null, w\<lparr>sems := k, dev := d3\<rparr>)))))"

text \<open>The rest of a synchronous request.\<close>

definition disk_submit_end :: "'y disk_real_device_t kworld \<Rightarrow> u32 \<Rightarrow> (int \<times> 'y disk_real_device_t kworld) res" where
  "disk_submit_end w request =
     (case sem (reqs (dev w) request) of
        None \<Rightarrow> Inl Bad_access
      | Some i \<Rightarrow> rbind (ksem_P (sems w) i) (\<lambda>k.
          let d = upd_req (dev w) request (\<lambda>x. x\<lparr>sem := None\<rparr>)
          in Inr (if return_value (reqs d request) = 0 then 1 else 0,
                  w\<lparr>sems := ksem_destroy k i, dev := d\<rparr>)))"

definition disk_submit_request ::
  "'y yams_io \<Rightarrow> ('y disk_real_device_t kworld \<Rightarrow> 'y disk_real_device_t kworld res)
     \<Rightarrow> 'y disk_real_device_t kworld \<Rightarrow> u32 \<Rightarrow> (int \<times> 'y disk_real_device_t kworld) ores" where
  "disk_submit_request io wait w request =
     obind (disk_submit_begin io w request) (\<lambda>(r, w1).
       case r of
         None \<Rightarrow> Some (Inr (0, w1))
       | Some sem_null \<Rightarrow>
           if sem_null then Some (rbind (wait w1) (\<lambda>w2. disk_submit_end w2 request))
           else Some (Inr (1, w1)))"

definition disk_read_block ::
  "'y yams_io \<Rightarrow> ('y disk_real_device_t kworld \<Rightarrow> 'y disk_real_device_t kworld res)
     \<Rightarrow> 'y disk_real_device_t kworld \<Rightarrow> u32 \<Rightarrow> (int \<times> 'y disk_real_device_t kworld) ores" where
  "disk_read_block io wait w request =
     disk_submit_request io wait
       (w\<lparr>dev := upd_req (dev w) request (\<lambda>x. x\<lparr>operation := GBD_OPERATION_READ\<rparr>)\<rparr>) request"

definition disk_write_block ::
  "'y yams_io \<Rightarrow> ('y disk_real_device_t kworld \<Rightarrow> 'y disk_real_device_t kworld res)
     \<Rightarrow> 'y disk_real_device_t kworld \<Rightarrow> u32 \<Rightarrow> (int \<times> 'y disk_real_device_t kworld) ores" where
  "disk_write_block io wait w request =
     disk_submit_request io wait
       (w\<lparr>dev := upd_req (dev w) request (\<lambda>x. x\<lparr>operation := GBD_OPERATION_WRITE\<rparr>)\<rparr>) request"

definition disk_block_size :: "'y yams_io \<Rightarrow> 'y disk_real_device_t kworld \<Rightarrow> u32 \<times> 'y disk_real_device_t kworld" where
  "disk_block_size io w =
     (let y = io_command io (hw (dev w)) DISK_COMMAND_BLOCKSIZE
      in (io_data io y, w\<lparr>dev := (dev w)\<lparr>hw := y\<rparr>\<rparr>))"

definition disk_total_blocks :: "'y yams_io \<Rightarrow> 'y disk_real_device_t kworld \<Rightarrow> u32 \<times> 'y disk_real_device_t kworld" where
  "disk_total_blocks io w =
     (let y = io_command io (hw (dev w)) DISK_COMMAND_BLOCKS
      in (io_data io y, w\<lparr>dev := (dev w)\<lparr>hw := y\<rparr>\<rparr>))"

text \<open>
  A synchronous call as the filesystems make it: the request structure \<open>rq\<close> is on the stack
  of the caller with the block, the buffer \<open>ba\<close> and a null semaphore filled in. While the
  caller waits, the disk finishes its work and raises its interrupt.
\<close>

definition disk_completes ::
  "'y yams_io \<Rightarrow> ('y \<Rightarrow> 'y) \<Rightarrow> 'y disk_real_device_t kworld \<Rightarrow> 'y disk_real_device_t kworld res" where
  "disk_completes io finish w = disk_interrupt_handle io (w\<lparr>dev := (dev w)\<lparr>hw := finish (hw (dev w))\<rparr>\<rparr>)"

definition sync_request :: "'y yams_io \<Rightarrow> 'y disk_real_device_t kworld \<Rightarrow> u32 \<Rightarrow> u32 \<Rightarrow> u32 \<Rightarrow> u8 list \<Rightarrow> 'y disk_real_device_t kworld" where
  "sync_request io w rq ba b bf =
     (let d = upd_req (dev w) rq (\<lambda>x. x\<lparr>block := b, buf := ba, sem := None\<rparr>)
      in w\<lparr>dev := d\<lparr>hw := ram_put io (hw d) ba bf\<rparr>\<rparr>)"

definition returned :: "'a ores \<Rightarrow> 'a res" where
  "returned m = (case m of None \<Rightarrow> Inl Blocked | Some r \<Rightarrow> r)"

definition disk_gbd :: "'y yams_io \<Rightarrow> ('y \<Rightarrow> 'y) \<Rightarrow> u32 \<Rightarrow> u32 \<Rightarrow> 'y disk_real_device_t gbd_t" where
  "disk_gbd io finish rq ba = \<lparr>
     read_block = (\<lambda>w b bf.
       rbind (returned (disk_read_block io (disk_completes io finish) (sync_request io w rq ba b bf) rq)) (\<lambda>(r, w').
         Inr (r, ram_get io (hw (dev w')) ba, w'))),
     write_block = (\<lambda>w b bf.
       returned (disk_write_block io (disk_completes io finish) (sync_request io w rq ba b bf) rq)),
     block_size = disk_block_size io,
     total_blocks = disk_total_blocks io\<rparr>"

section \<open>The hardware\<close>

locale yams_disk =
  fixes io :: "'y yams_io"
    and finish :: "'y \<Rightarrow> 'y"
    and idle :: "'y \<Rightarrow> bool"
    and busy :: "'y \<Rightarrow> u32 \<Rightarrow> u32 \<Rightarrow> u32 \<Rightarrow> bool"
    and stored :: "'y \<Rightarrow> nat \<Rightarrow> u8 list"
    and nblocks :: nat
    and bsize :: nat
  assumes idle_status: "idle y \<Longrightarrow> DISK_STATUS_RBUSY (io_status io y) = 0 \<and> DISK_STATUS_WBUSY (io_status io y) = 0"
    and start: "idle y \<Longrightarrow> c = 1 \<or> c = 2 \<Longrightarrow> unat b < nblocks \<Longrightarrow>
      busy (io_command io (io_dmaaddr io (io_tsector io y b) a) c) c b a
      \<and> stored (io_command io (io_dmaaddr io (io_tsector io y b) a) c) = stored y
      \<and> ram_get io (io_command io (io_dmaaddr io (io_tsector io y b) a) c) = ram_get io y"
    and busy_status: "busy y c b a \<Longrightarrow> DISK_STATUS_ERRORS (io_status io y) = 0
      \<and> DISK_STATUS_RIRQ (io_status io y) = 0 \<and> DISK_STATUS_WIRQ (io_status io y) = 0"
    and finished: "busy y c b a \<Longrightarrow>
      DISK_STATUS_RIRQ (io_status io (finish y)) \<noteq> 0 \<or> DISK_STATUS_WIRQ (io_status io (finish y)) \<noteq> 0"
    and acknowledged: "busy y c b a \<Longrightarrow> idle (io_command io (io_command io (finish y) 4) 3)"
    and read_effect: "busy y 1 b a \<Longrightarrow>
      stored (io_command io (io_command io (finish y) 4) 3) = stored y
      \<and> ram_get io (io_command io (io_command io (finish y) 4) 3) a = stored y (unat b)"
    and write_effect: "busy y 2 b a \<Longrightarrow>
      stored (io_command io (io_command io (finish y) 4) 3) = (stored y)(unat b := ram_get io y a)"
    and ram_law: "length bf = bsize \<Longrightarrow> idle (ram_put io y a bf) = idle y
      \<and> stored (ram_put io y a bf) = stored y \<and> ram_get io (ram_put io y a bf) a = bf"
    and query: "idle y \<Longrightarrow> c = 5 \<or> c = 6 \<Longrightarrow> idle (io_command io y c) \<and> stored (io_command io y c) = stored y
      \<and> io_data io (io_command io y c) = of_nat (if c = 5 then nblocks else bsize)"
    and stored_length: "idle y \<Longrightarrow> i < nblocks \<Longrightarrow> length (stored y i) = bsize"
    and bounds: "bsize < 2 ^ 32" "nblocks < 2 ^ 32"

definition disk_ready :: "('y \<Rightarrow> bool) \<Rightarrow> 'y disk_real_device_t \<Rightarrow> bool" where
  "disk_ready idle d \<longleftrightarrow> request_queue d = 0 \<and> request_served d = 0 \<and> idle (hw d)"


lemma upd_req_simps [simp]:
  "request_queue (upd_req d r f) = request_queue d" "request_served (upd_req d r f) = request_served d"
  "hw (upd_req d r f) = hw d" "reqs (upd_req d r f) = (reqs d)(r := f (reqs d r))"
  by (simp_all add: upd_req_def)

context yams_disk
begin

text \<open>
  Starting the first request of the queue on an idle disk.
\<close>

lemma next_request_starts:
  assumes "idle (hw d)" "request_served d = 0" "request_queue d = r" "r \<noteq> 0"
    and "unat (block (reqs d r)) < nblocks" "operation (reqs d r) = 0 \<or> operation (reqs d r) = 1"
  shows "\<exists>y. disk_next_request io d = Inr (d\<lparr>request_queue := next_r (reqs d r), request_served := r,
        reqs := (reqs d)(r := (reqs d r)\<lparr>next_r := 0\<rparr>), hw := y\<rparr>)
      \<and> busy y (operation (reqs d r) + 1) (block (reqs d r)) (buf (reqs d r))
      \<and> stored y = stored (hw d) \<and> ram_get io y = ram_get io (hw d)"
proof -
  let ?y = "io_command io (io_dmaaddr io (io_tsector io (hw d) (block (reqs d r))) (buf (reqs d r))) (operation (reqs d r) + 1)"
  have "operation (reqs d r) + 1 = 1 \<or> operation (reqs d r) + 1 = 2" using assms(6) by auto
  note st = start [OF assms(1) this assms(5), of "buf (reqs d r)"]
  moreover have "disk_next_request io d = Inr (d\<lparr>request_queue := next_r (reqs d r), request_served := r,
        reqs := (reqs d)(r := (reqs d r)\<lparr>next_r := 0\<rparr>), hw := ?y\<rparr>)"
    using assms idle_status [OF assms(1)] conjunct1 [OF busy_status [OF conjunct1 [OF st]]]
    by (auto simp: disk_next_request_def Let_def upd_req_def)
  ultimately show ?thesis by blast
qed

lemma next_request_none:
  "idle (hw d) \<Longrightarrow> request_served d = 0 \<Longrightarrow> request_queue d = 0 \<Longrightarrow> disk_next_request io d = Inr d"
  using idle_status [of "hw d"] by (simp add: disk_next_request_def)

text \<open>
  The interrupt at the end of a transfer.
\<close>

lemma interrupt_done:
  assumes "busy (hw d) c b a" "request_served d = r" "r \<noteq> 0" "sem (reqs d r) = Some i"
  shows "disk_interrupt_handle io (w\<lparr>dev := d\<lparr>hw := finish (hw d)\<rparr>\<rparr>) =
    rbind (ksem_V (sems w) i) (\<lambda>k.
      rbind (disk_next_request io (d\<lparr>hw := io_command io (io_command io (finish (hw d)) 4) 3,
          reqs := (reqs d)(r := (reqs d r)\<lparr>return_value := 0\<rparr>), request_served := 0\<rparr>)) (\<lambda>d'.
        Inr (w\<lparr>sems := k, dev := d'\<rparr>)))"
  using finished [OF assms(1)] assms(2-4)
  by (auto simp: disk_interrupt_handle_def Let_def upd_req_def)

lemma sync_submit:
  assumes ready: "disk_ready idle (dev w)" and k: "ksem_ok (sems w)" "ksem_free (sems w)"
    and r: "r \<noteq> 0" "sem (reqs (dev w) r) = None" "operation (reqs (dev w) r) = op" "op = 0 \<or> op = 1"
    and b: "block (reqs (dev w) r) = b" "unat b < nblocks" and a: "buf (reqs (dev w) r) = a"
  shows "\<exists>w'. disk_submit_request io (disk_completes io finish) w r = Some (Inr (1, w'))
    \<and> disk_ready idle (dev w') \<and> ksem_ok (sems w') \<and> svals (sems w') = svals (sems w) \<and> pool w' = pool w
    \<and> (op = 0 \<longrightarrow> stored (hw (dev w')) = stored (hw (dev w))
          \<and> ram_get io (hw (dev w')) a = stored (hw (dev w)) (unat b))
    \<and> (op = 1 \<longrightarrow> stored (hw (dev w')) = (stored (hw (dev w)))(unat b := ram_get io (hw (dev w)) a))"
proof -
  let ?d = "dev w"
  obtain i k1 where k1: "ksem_create (sems w) 0 = (Some i, k1)" "i < 128" "svals (sems w) ! i = None" "ksem_ok k1"
    "svals k1 = (svals (sems w))[i := Some 0]" using ksem_create_free [OF k, of 0] by blast
  have d: "request_queue ?d = 0" "request_served ?d = 0" "idle (hw ?d)" using ready by (auto simp: disk_ready_def)
  define x where "x = (reqs ?d r)\<lparr>internal := 0, next_r := 0, return_value := -1, sem := Some i\<rparr>"
  define d1 where "d1 = ?d\<lparr>reqs := (reqs ?d)(r := x), request_queue := r\<rparr>"
  obtain y where y: "disk_next_request io d1 = Inr (d1\<lparr>request_queue := 0, request_served := r, reqs := (reqs ?d)(r := x), hw := y\<rparr>)"
    "busy y (op + 1) b a" "stored y = stored (hw ?d)" "ram_get io y = ram_get io (hw ?d)"
  proof -
    have x: "next_r x = 0" "x\<lparr>next_r := 0\<rparr> = x" "operation x = op" "block x = b" "buf x = a"
      using r b a by (simp_all add: x_def)
    have d1: "reqs d1 r = x" "(reqs d1)(r := x) = (reqs ?d)(r := x)" "hw d1 = hw ?d" by (simp_all add: d1_def)
    have "\<exists>y. disk_next_request io d1 = Inr (d1\<lparr>request_queue := next_r x, request_served := r,
        reqs := (reqs d1)(r := x\<lparr>next_r := 0\<rparr>), hw := y\<rparr>)
      \<and> busy y (operation x + 1) (block x) (buf x) \<and> stored y = stored (hw d1) \<and> ram_get io y = ram_get io (hw d1)"
      using next_request_starts [of d1 r] d r b x(3,4) by (simp add: d1 d1_def)
    then show thesis using that unfolding x d1 by blast
  qed
  define d2 where "d2 = d1\<lparr>request_queue := 0, request_served := r, reqs := (reqs ?d)(r := x), hw := y\<rparr>"
  have bgn: "disk_submit_begin io w r = Some (Inr (Some True, w\<lparr>sems := k1, dev := d2\<rparr>))"
  proof -
    have "upd_req (upd_req ?d r (\<lambda>x. x\<lparr>internal := 0, next_r := 0, return_value := -1\<rparr>)) r (\<lambda>x. x\<lparr>sem := Some i\<rparr>)
        = ?d\<lparr>reqs := (reqs ?d)(r := x)\<rparr>" by (simp add: upd_req_def x_def)
    moreover have "?d\<lparr>reqs := (reqs ?d)(r := x), request_queue := r\<rparr> = d1" by (simp add: d1_def)
    ultimately show ?thesis
      using k1(1) r(2) d y(1) by (simp add: disk_submit_begin_def Let_def disksched_schedule_def d1_def d2_def)
  qed
  have i1: "ksem_val k1 i = Some 0" using k1 k(1) by (simp add: ksem_val_def ksem_ok_def)
  then obtain k2 where k2: "ksem_V k1 i = Inr k2" "ksem_ok k2" "svals k2 = (svals k1)[i := Some 1]"
    using ksem_V_ok [OF k1(4)] by fastforce
  let ?y = "io_command io (io_command io (finish y) 4) 3"
  define d3 where "d3 = d2\<lparr>hw := ?y, reqs := (reqs ?d)(r := x\<lparr>return_value := 0\<rparr>), request_served := 0\<rparr>"
  have id: "idle ?y" using acknowledged [OF y(2)] .
  have compl: "disk_completes io finish (w\<lparr>sems := k1, dev := d2\<rparr>) = Inr (w\<lparr>sems := k2, dev := d3\<rparr>)"
  proof -
    have n: "disk_next_request io d3 = Inr d3" using id by (intro next_request_none) (simp_all add: d3_def d2_def)
    have "disk_interrupt_handle io ((w\<lparr>sems := k1, dev := d2\<rparr>)\<lparr>dev := d2\<lparr>hw := finish (hw d2)\<rparr>\<rparr>) =
        rbind (ksem_V k1 i) (\<lambda>k. rbind (disk_next_request io d3) (\<lambda>d'. Inr (w\<lparr>sems := k, dev := d'\<rparr>)))"
      using y(2) r(1) by (subst interrupt_done [where r = r and i = i]) (auto simp: d2_def d3_def x_def)
    then show ?thesis using n k2(1) by (simp add: disk_completes_def)
  qed
  have v2: "ksem_val k2 i = Some 1" using k2 k1 k(1) by (simp add: ksem_val_def ksem_ok_def)
  then obtain k3 where k3: "ksem_P k2 i = Inr k3" "ksem_ok k3" "svals k3 = (svals k2)[i := Some 0]"
    using ksem_P_V [OF k2(2)] by fastforce
  define d4 where "d4 = upd_req d3 r (\<lambda>x. x\<lparr>sem := None\<rparr>)"
  have fin: "disk_submit_end (w\<lparr>sems := k2, dev := d3\<rparr>) r = Inr (1, w\<lparr>sems := ksem_destroy k3 i, dev := d4\<rparr>)"
    using k3(1) by (simp add: disk_submit_end_def d3_def d4_def x_def)
  have "svals (ksem_destroy k3 i) = svals (sems w)"
    using k3 k2 k1 by (simp add: ksem_destroy_def) (metis list_update_id)
  moreover have "ksem_ok (ksem_destroy k3 i)" using k3(2) by (simp add: ksem_destroy_def ksem_ok_def)
  moreover have "disk_submit_request io (disk_completes io finish) w r = Some (Inr (1, w\<lparr>sems := ksem_destroy k3 i, dev := d4\<rparr>))"
    using bgn compl fin by (simp add: disk_submit_request_def)
  moreover have "disk_ready idle d4" using id by (simp add: disk_ready_def d4_def d3_def d2_def)
  moreover have "hw d4 = ?y" by (simp add: d4_def d3_def)
  ultimately show ?thesis
    using r(4) y(2-4) read_effect [of y b a] write_effect [of y b a] by (intro exI) auto
qed

lemma no_semaphore_submit:
  assumes k: "ksem_ok (sems w)" "\<not> ksem_free (sems w)" and r: "sem (reqs (dev w) r) = None"
  shows "\<exists>w'. disk_submit_request io wt w r = Some (Inr (0, w')) \<and> request_queue (dev w') = request_queue (dev w)
    \<and> request_served (dev w') = request_served (dev w) \<and> hw (dev w') = hw (dev w)
    \<and> ksem_ok (sems w') \<and> svals (sems w') = svals (sems w) \<and> pool w' = pool w"
proof -
  obtain k1 where k1: "ksem_create (sems w) 0 = (None, k1)" "ksem_ok k1" "svals k1 = svals (sems w)"
    using ksem_create_cases [OF k(1), of 0] k unfolding ksem_free_def ksem_ok_def by (metis nth_mem)
  then show ?thesis
    using r by (simp add: disk_submit_request_def disk_submit_begin_def Let_def)
qed

end

text \<open>A caller with its request structure and its buffer.\<close>

locale disk_client = yams_disk io finish idle busy stored nblocks bsize
  for io :: "'y yams_io" and finish idle busy stored nblocks bsize +
  fixes rq :: u32 and ba :: u32
  assumes rq: "rq \<noteq> 0"
begin

lemma sync_read:
  assumes "disk_ready idle (dev w)" "ksem_ok (sems w)" "ksem_free (sems w)" "unat b < nblocks" "length bf = bsize"
  shows "\<exists>w'. read_block (disk_gbd io finish rq ba) w b bf = Inr (1, stored (hw (dev w)) (unat b), w')
    \<and> disk_ready idle (dev w') \<and> ksem_ok (sems w') \<and> svals (sems w') = svals (sems w) \<and> pool w' = pool w
    \<and> stored (hw (dev w')) = stored (hw (dev w))"
proof -
  note ram = ram_law [OF assms(5), of "hw (dev w)" ba]
  let ?w = "sync_request io w rq ba b bf"
  have "\<exists>w'. disk_read_block io (disk_completes io finish) ?w rq = Some (Inr (1, w'))
    \<and> disk_ready idle (dev w') \<and> ksem_ok (sems w') \<and> svals (sems w') = svals (sems w) \<and> pool w' = pool w
    \<and> stored (hw (dev w')) = stored (hw (dev w)) \<and> ram_get io (hw (dev w')) ba = stored (hw (dev w)) (unat b)"
    unfolding disk_read_block_def
    using sync_submit [of "?w\<lparr>dev := upd_req (dev ?w) rq (\<lambda>x. x\<lparr>operation := 0\<rparr>)\<rparr>" rq 0 b ba] assms rq ram
    by (simp add: sync_request_def disk_ready_def)
  then show ?thesis by (auto simp: disk_gbd_def returned_def)
qed

lemma sync_write:
  assumes "disk_ready idle (dev w)" "ksem_ok (sems w)" "ksem_free (sems w)" "unat b < nblocks" "length bf = bsize"
  shows "\<exists>w'. write_block (disk_gbd io finish rq ba) w b bf = Inr (1, w')
    \<and> disk_ready idle (dev w') \<and> ksem_ok (sems w') \<and> svals (sems w') = svals (sems w) \<and> pool w' = pool w
    \<and> stored (hw (dev w')) = (stored (hw (dev w)))(unat b := bf)"
proof -
  note ram = ram_law [OF assms(5), of "hw (dev w)" ba]
  let ?w = "sync_request io w rq ba b bf"
  have "\<exists>w'. disk_write_block io (disk_completes io finish) ?w rq = Some (Inr (1, w'))
    \<and> disk_ready idle (dev w') \<and> ksem_ok (sems w') \<and> svals (sems w') = svals (sems w) \<and> pool w' = pool w
    \<and> stored (hw (dev w')) = (stored (hw (dev w)))(unat b := bf)"
    unfolding disk_write_block_def
    using sync_submit [of "?w\<lparr>dev := upd_req (dev ?w) rq (\<lambda>x. x\<lparr>operation := 1\<rparr>)\<rparr>" rq 1 b ba] assms rq ram
    by (simp add: sync_request_def disk_ready_def)
  then show ?thesis by (auto simp: disk_gbd_def returned_def)
qed

lemma sync_no_semaphore:
  assumes "disk_ready idle (dev w)" "ksem_ok (sems w)" "\<not> ksem_free (sems w)" "length bf = bsize"
  shows "(\<exists>w'. read_block (disk_gbd io finish rq ba) w b bf = Inr (0, bf, w')
      \<and> disk_ready idle (dev w') \<and> ksem_ok (sems w') \<and> svals (sems w') = svals (sems w) \<and> pool w' = pool w
      \<and> stored (hw (dev w')) = stored (hw (dev w)))
    \<and> (\<exists>w'. write_block (disk_gbd io finish rq ba) w b bf = Inr (0, w')
      \<and> disk_ready idle (dev w') \<and> ksem_ok (sems w') \<and> svals (sems w') = svals (sems w) \<and> pool w' = pool w
      \<and> stored (hw (dev w')) = stored (hw (dev w)))"
proof -
  note ram = ram_law [OF assms(4), of "hw (dev w)" ba]
  let ?w = "sync_request io w rq ba b bf"
  have "\<exists>w'. disk_submit_request io (disk_completes io finish) (?w\<lparr>dev := upd_req (dev ?w) rq (\<lambda>x. x\<lparr>operation := c\<rparr>)\<rparr>) rq
      = Some (Inr (0, w')) \<and> disk_ready idle (dev w') \<and> ksem_ok (sems w') \<and> svals (sems w') = svals (sems w)
      \<and> pool w' = pool w \<and> hw (dev w') = ram_put io (hw (dev w)) ba bf" for c
    using no_semaphore_submit [of "?w\<lparr>dev := upd_req (dev ?w) rq (\<lambda>x. x\<lparr>operation := c\<rparr>)\<rparr>" rq "disk_completes io finish"] assms ram
    by (fastforce simp: sync_request_def disk_ready_def)
  from this [of 0] this [of 1] ram show ?thesis
    by (fastforce simp: disk_gbd_def returned_def disk_read_block_def disk_write_block_def)
qed

end

sublocale disk_client \<subseteq> gbd: block_device "disk_gbd io finish rq ba" "disk_ready idle" "\<lambda>d. stored (hw d)" nblocks bsize
proof (unfold_locales, goal_cases)
  case (1 d i)
  then show ?case using stored_length by (simp add: disk_ready_def)
next
  case (2 w b bf)
  then show ?case by (rule sync_read)
next
  case (3 w b bf)
  then show ?case by (rule sync_write)
next
  case (4 w bf b)
  then show ?case by (rule sync_no_semaphore)
next
  case (5 w)
  then show ?case using query [of "hw (dev w)" 6]
    by (intro exI [of _ "(dev w)\<lparr>hw := io_command io (hw (dev w)) 6\<rparr>"])
      (simp add: disk_gbd_def disk_block_size_def disk_ready_def Let_def)
next
  case (6 w)
  then show ?case using query [of "hw (dev w)" 5]
    by (intro exI [of _ "(dev w)\<lparr>hw := io_command io (hw (dev w)) 5\<rparr>"])
      (simp add: disk_gbd_def disk_total_blocks_def disk_ready_def Let_def)
qed (use bounds in auto)


section \<open>The queue of requests\<close>

fun rchain :: "(u32 \<Rightarrow> gbd_request_t) \<Rightarrow> u32 \<Rightarrow> u32 list \<Rightarrow> bool" where
  "rchain rs q [] = (q = 0)"
| "rchain rs q (r # xs) = (q = r \<and> r \<noteq> 0 \<and> rchain rs (next_r (rs r)) xs)"

lemma rchain_nonzero: "rchain rs q xs \<Longrightarrow> 0 \<notin> set xs"
  by (induction xs arbitrary: q) auto

lemma rchain_unique: "rchain rs q xs \<Longrightarrow> rchain rs q ys \<Longrightarrow> xs = ys"
proof (induction xs arbitrary: q ys)
  case Nil
  then show ?case by (cases ys) auto
next
  case (Cons x xs)
  then show ?case by (cases ys) auto
qed

lemma rchain_frame:
  "rchain rs q xs \<Longrightarrow> (\<And>r. r \<in> set xs \<Longrightarrow> next_r (rs' r) = next_r (rs r)) \<Longrightarrow> rchain rs' q xs"
  by (induction xs arbitrary: q) auto

lemma sched_last_chain: "rchain rs q xs \<Longrightarrow> xs \<noteq> [] \<Longrightarrow> sched_last rs q = Some (last xs)"
proof (induction xs arbitrary: q)
  case (Cons x xs)
  then show ?case by (cases xs) (auto simp: sched_last.simps [of rs x])
qed simp

lemma rchain_append:
  assumes "rchain rs q xs" "distinct (xs @ [r])" "r \<noteq> 0" "next_r (rs r) = 0" "xs \<noteq> []"
  shows "rchain (rs(last xs := (rs (last xs))\<lparr>next_r := r\<rparr>)) q (xs @ [r])"
  using assms
proof (induction xs arbitrary: q)
  case (Cons x xs)
  show ?case
  proof (cases "xs = []")
    case True
    then show ?thesis using Cons.prems by simp
  next
    case False
    then have "last xs \<in> set xs" by simp
    then have "last xs \<noteq> x" using Cons.prems(2) by auto
    then show ?thesis using Cons.IH [of "next_r (rs x)"] Cons.prems False by simp
  qed
qed simp

lemma schedule_appends:
  assumes "rchain (reqs d) (request_queue d) xs" "distinct (xs @ [r])" "r \<noteq> 0" "next_r (reqs d r) = 0"
  shows "\<exists>d'. disksched_schedule d r = Some (Inr d') \<and> rchain (reqs d') (request_queue d') (xs @ [r])
    \<and> request_served d' = request_served d \<and> hw d' = hw d
    \<and> (\<forall>u. \<exists>n. reqs d' u = (reqs d u)\<lparr>next_r := n\<rparr>)"
proof (cases "xs = []")
  case True
  have "(reqs d u)\<lparr>next_r := next_r (reqs d u)\<rparr> = reqs d u" for u by simp
  then have "\<forall>u. \<exists>n. reqs d u = (reqs d u)\<lparr>next_r := n\<rparr>" by metis
  then show ?thesis using True assms by (simp add: disksched_schedule_def)
next
  case False
  have q: "request_queue d \<noteq> 0" using assms(1) False by (cases xs) auto
  have "(reqs d u)\<lparr>next_r := next_r (reqs d u)\<rparr> = reqs d u" for u by simp
  then have "\<forall>u. \<exists>n. ((reqs d)(last xs := (reqs d (last xs))\<lparr>next_r := r\<rparr>)) u = (reqs d u)\<lparr>next_r := n\<rparr>"
    by (metis fun_upd_apply)
  then show ?thesis
    using q sched_last_chain [OF assms(1) False] rchain_append [OF assms False]
    by (simp add: disksched_schedule_def)
qed

text \<open>
  The life of the driver: requests with a semaphore of their own are submitted (a request
  structure is reused only after its request has been completed), the disk finishes transfers
  and raises interrupts, interrupts of other devices on the same line come in, and semaphores
  change. The lists are the requests accepted and those completed so far, in order.
\<close>

inductive dreach ::
  "'y yams_io \<Rightarrow> ('y \<Rightarrow> 'y) \<Rightarrow> ('y \<Rightarrow> bool) \<Rightarrow> nat \<Rightarrow> 'y disk_real_device_t kworld \<Rightarrow> u32 list \<Rightarrow> u32 list \<Rightarrow> bool"
  for io finish idle n where
  start: "disk_ready idle (dev w) \<Longrightarrow> ksem_ok (sems w) \<Longrightarrow> dreach io finish idle n w [] []"
| submit: "dreach io finish idle n w subm compl \<Longrightarrow> r \<noteq> 0 \<Longrightarrow> r \<notin> set (drop (length compl) subm) \<Longrightarrow>
    unat b < n \<Longrightarrow> ksem_val (sems w) i \<noteq> None \<Longrightarrow>
    w1 = w\<lparr>dev := upd_req (dev w) r (\<lambda>x. x\<lparr>block := b, buf := a, sem := Some i\<rparr>)\<rparr> \<Longrightarrow>
    disk_read_block io wt w1 r = Some (Inr (v, w')) \<or> disk_write_block io wt w1 r = Some (Inr (v, w')) \<Longrightarrow>
    dreach io finish idle n w' (subm @ [r]) compl"
| complete: "dreach io finish idle n w subm compl \<Longrightarrow> request_served (dev w) = r \<Longrightarrow> r \<noteq> 0 \<Longrightarrow>
    disk_completes io finish w = Inr w' \<Longrightarrow> dreach io finish idle n w' subm (compl @ [r])"
| spurious: "dreach io finish idle n w subm compl \<Longrightarrow>
    \<not> (DISK_STATUS_RIRQ (io_status io (hw (dev w))) \<noteq> 0 \<or> DISK_STATUS_WIRQ (io_status io (hw (dev w))) \<noteq> 0) \<Longrightarrow>
    disk_interrupt_handle io w = Inr w' \<Longrightarrow> dreach io finish idle n w' subm compl"
| other: "dreach io finish idle n w subm compl \<Longrightarrow> ksem_ok k \<Longrightarrow>
    (\<And>i. ksem_val (sems w) i \<noteq> None \<Longrightarrow> ksem_val k i \<noteq> None) \<Longrightarrow> dreach io finish idle n (w\<lparr>sems := k\<rparr>) subm compl"

definition req_ok :: "ksems \<Rightarrow> nat \<Rightarrow> gbd_request_t \<Rightarrow> bool" where
  "req_ok k n x \<longleftrightarrow> (operation x = 0 \<or> operation x = 1) \<and> unat (block x) < n \<and> (\<exists>i. sem x = Some i \<and> ksem_val k i \<noteq> None)"

text \<open>
  Accepted requests are completed ones, then the one being served, then the queue; the disk is
  busy with the request being served, and it is idle only when nothing is left to do.
\<close>

definition dinv ::
  "('y \<Rightarrow> bool) \<Rightarrow> ('y \<Rightarrow> u32 \<Rightarrow> u32 \<Rightarrow> u32 \<Rightarrow> bool) \<Rightarrow> nat \<Rightarrow> 'y disk_real_device_t kworld \<Rightarrow> u32 list \<Rightarrow> u32 list \<Rightarrow> bool" where
  "dinv idle busy n w subm compl \<longleftrightarrow> ksem_ok (sems w) \<and> (\<exists>q. rchain (reqs (dev w)) (request_queue (dev w)) q \<and>
     (if request_served (dev w) = 0 then q = [] \<and> subm = compl \<and> idle (hw (dev w))
      else subm = compl @ request_served (dev w) # q \<and> distinct (request_served (dev w) # q)
        \<and> busy (hw (dev w)) (operation (reqs (dev w) (request_served (dev w))) + 1)
            (block (reqs (dev w) (request_served (dev w)))) (buf (reqs (dev w) (request_served (dev w))))
        \<and> (\<forall>r \<in> set (request_served (dev w) # q). req_ok (sems w) n (reqs (dev w) r))))"

lemma req_ok_next [simp]: "req_ok k n (x\<lparr>next_r := q\<rparr>) = req_ok k n x"
  by (simp add: req_ok_def)


context yams_disk
begin

lemma submit_async:
  assumes inv: "dinv idle busy nblocks w subm compl" and r: "r \<noteq> 0" "r \<notin> set (drop (length compl) subm)"
    and x: "x = (reqs (dev w) r)\<lparr>block := b, buf := a, sem := Some i, operation := c, internal := 0, next_r := 0, return_value := -1\<rparr>"
    and c: "c = 0 \<or> c = 1" and b: "unat b < nblocks" and i: "ksem_val (sems w) i \<noteq> None"
  shows "\<exists>d'. obind (disksched_schedule ((dev w)\<lparr>reqs := (reqs (dev w))(r := x)\<rparr>) r) (\<lambda>d2.
      if request_served d2 = 0 then Some (disk_next_request io d2) else Some (Inr d2)) = Some (Inr d')
    \<and> dinv idle busy nblocks (w\<lparr>dev := d'\<rparr>) (subm @ [r]) compl"
proof -
  let ?d1 = "(dev w)\<lparr>reqs := (reqs (dev w))(r := x)\<rparr>"
  have ok: "req_ok (sems w) nblocks x" using c b i by (simp add: req_ok_def x)
  have x0: "next_r x = 0" "operation x = c" "block x = b" by (simp_all add: x)
  obtain q where q: "rchain (reqs (dev w)) (request_queue (dev w)) q" and k: "ksem_ok (sems w)"
    using inv by (auto simp: dinv_def)
  show ?thesis
  proof (cases "request_served (dev w) = 0")
    case True
    with inv have e: "request_queue (dev w) = 0" "subm = compl" "idle (hw (dev w))" by (auto simp: dinv_def)
    let ?d2 = "?d1\<lparr>request_queue := r\<rparr>"
    have "disksched_schedule ?d1 r = Some (Inr ?d2)" using e by (simp add: disksched_schedule_def)
    moreover obtain y where "disk_next_request io ?d2 = Inr (?d2\<lparr>request_queue := 0, request_served := r,
        reqs := (reqs ?d2)(r := x\<lparr>next_r := 0\<rparr>), hw := y\<rparr>)" "busy y (c + 1) b (buf x)"
      using next_request_starts [of ?d2 r] e True r b c x0 by auto
    ultimately show ?thesis
      using True r ok k x0 e by (intro exI) (auto simp: dinv_def)
  next
    case False
    let ?s = "request_served (dev w)"
    from inv q False have i: "subm = compl @ ?s # q" "distinct (?s # q)"
      "busy (hw (dev w)) (operation (reqs (dev w) ?s) + 1) (block (reqs (dev w) ?s)) (buf (reqs (dev w) ?s))"
      "\<forall>u \<in> set (?s # q). req_ok (sems w) nblocks (reqs (dev w) u)"
    proof -
      obtain q' where q': "rchain (reqs (dev w)) (request_queue (dev w)) q'" "subm = compl @ ?s # q'" "distinct (?s # q')"
        "busy (hw (dev w)) (operation (reqs (dev w) ?s) + 1) (block (reqs (dev w) ?s)) (buf (reqs (dev w) ?s))"
        "\<forall>u \<in> set (?s # q'). req_ok (sems w) nblocks (reqs (dev w) u)" using inv False by (auto simp: dinv_def)
      have "q = q'" using q q'(1) by (rule rchain_unique)
      then show "subm = compl @ ?s # q" "distinct (?s # q)"
        "busy (hw (dev w)) (operation (reqs (dev w) ?s) + 1) (block (reqs (dev w) ?s)) (buf (reqs (dev w) ?s))"
        "\<forall>u \<in> set (?s # q). req_ok (sems w) nblocks (reqs (dev w) u)" using q' by auto
    qed
    then have r': "r \<noteq> ?s" "r \<notin> set q" using r by auto
    have "rchain (reqs ?d1) (request_queue ?d1) q" using r'(2) by (auto intro: rchain_frame [OF q])
    from schedule_appends [OF this, of r] i(2) r' r x0 obtain d' where
      d': "disksched_schedule ?d1 r = Some (Inr d')" "rchain (reqs d') (request_queue d') (q @ [r])"
      "request_served d' = ?s" "hw d' = hw (dev w)" "\<forall>u. \<exists>n. reqs d' u = (reqs ?d1 u)\<lparr>next_r := n\<rparr>" by auto
    have fld: "operation (reqs d' u) = operation (reqs ?d1 u)" "block (reqs d' u) = block (reqs ?d1 u)"
      "buf (reqs d' u) = buf (reqs ?d1 u)" "req_ok (sems w) nblocks (reqs d' u) = req_ok (sems w) nblocks (reqs ?d1 u)" for u
    proof -
      obtain n where "reqs d' u = (reqs ?d1 u)\<lparr>next_r := n\<rparr>" using d'(5) by blast
      then show "operation (reqs d' u) = operation (reqs ?d1 u)" "block (reqs d' u) = block (reqs ?d1 u)"
        "buf (reqs d' u) = buf (reqs ?d1 u)" "req_ok (sems w) nblocks (reqs d' u) = req_ok (sems w) nblocks (reqs ?d1 u)"
        by simp_all
    qed
    have "dinv idle busy nblocks (w\<lparr>dev := d'\<rparr>) (subm @ [r]) compl"
      unfolding dinv_def using k d'(2) False i r' ok
      by (intro conjI exI [of _ "q @ [r]"]) (auto simp: d'(3,4) fld)
    then show ?thesis using d' False by simp
  qed
qed

lemma submit_dinv:
  assumes inv: "dinv idle busy nblocks w subm compl" and r: "r \<noteq> 0" "r \<notin> set (drop (length compl) subm)"
    and w1: "w1 = w\<lparr>dev := upd_req (dev w) r (\<lambda>x. x\<lparr>block := b, buf := a, sem := Some i, operation := c\<rparr>)\<rparr>"
    and c: "c = 0 \<or> c = 1" and b: "unat b < nblocks" and i: "ksem_val (sems w) i \<noteq> None"
  shows "\<exists>w'. disk_submit_request io wt w1 r = Some (Inr (1, w')) \<and> dinv idle busy nblocks w' (subm @ [r]) compl"
proof -
  let ?x = "(reqs (dev w) r)\<lparr>block := b, buf := a, sem := Some i, operation := c, internal := 0, next_r := 0, return_value := -1\<rparr>"
  let ?d1 = "(dev w)\<lparr>reqs := (reqs (dev w))(r := ?x)\<rparr>"
  from submit_async [OF inv r refl c b i] obtain d' where
    d': "obind (disksched_schedule ?d1 r) (\<lambda>d2.
      if request_served d2 = 0 then Some (disk_next_request io d2) else Some (Inr d2)) = Some (Inr d')"
    "dinv idle busy nblocks (w\<lparr>dev := d'\<rparr>) (subm @ [r]) compl" by blast
  have e: "upd_req (upd_req (dev w1) r (\<lambda>x. x\<lparr>internal := 0, next_r := 0, return_value := -1\<rparr>)) r (\<lambda>x. x\<lparr>sem := Some i\<rparr>) = ?d1"
    by (cases "reqs (dev w) r") (simp add: w1 upd_req_def)
  have "disk_submit_begin io w1 r = Some (Inr (Some False, w\<lparr>dev := d'\<rparr>))"
  proof -
    obtain d2 where d2: "disksched_schedule ?d1 r = Some (Inr d2)"
      "(if request_served d2 = 0 then Some (disk_next_request io d2) else Some (Inr d2)) = Some (Inr d')"
      using d'(1) by (cases "disksched_schedule ?d1 r"; cases "the (disksched_schedule ?d1 r)") auto
    have "w1\<lparr>sems := sems w1, dev := d'\<rparr> = w\<lparr>dev := d'\<rparr>" by (simp add: w1)
    with e d2 show ?thesis unfolding disk_submit_begin_def Let_def by (simp add: w1)
  qed
  with d'(2) show ?thesis by (simp add: disk_submit_request_def)
qed

lemma complete_dinv:
  assumes inv: "dinv idle busy nblocks w subm compl" and r: "request_served (dev w) = r" "r \<noteq> 0"
  shows "\<exists>w' i v. disk_completes io finish w = Inr w' \<and> dinv idle busy nblocks w' subm (compl @ [r])
    \<and> return_value (reqs (dev w') r) = 0 \<and> sem (reqs (dev w) r) = Some i
    \<and> ksem_val (sems w) i = Some v \<and> svals (sems w') = (svals (sems w))[i := Some (c_int (v + 1))]"
proof -
  obtain q where q: "rchain (reqs (dev w)) (request_queue (dev w)) q" "subm = compl @ r # q" "distinct (r # q)"
    "busy (hw (dev w)) (operation (reqs (dev w) r) + 1) (block (reqs (dev w) r)) (buf (reqs (dev w) r))"
    "\<forall>u \<in> set (r # q). req_ok (sems w) nblocks (reqs (dev w) u)" and k: "ksem_ok (sems w)"
    using inv r by (auto simp: dinv_def)
  obtain i v where i: "sem (reqs (dev w) r) = Some i" "ksem_val (sems w) i = Some v"
    using q(5) by (auto simp: req_ok_def)
  obtain k' where k': "ksem_V (sems w) i = Inr k'" "ksem_ok k'" "svals k' = (svals (sems w))[i := Some (c_int (v + 1))]"
    using ksem_V_ok [OF k i(2)] by blast
  have keep: "ksem_val k' j \<noteq> None" if "ksem_val (sems w) j \<noteq> None" for j
    using that k'(3) by (cases "j = i") (auto simp: ksem_val_def split: if_splits)
  let ?y = "io_command io (io_command io (finish (hw (dev w))) 4) 3"
  let ?rs = "(reqs (dev w))(r := (reqs (dev w) r)\<lparr>return_value := 0\<rparr>)"
  let ?d = "(dev w)\<lparr>hw := ?y, reqs := ?rs, request_served := 0\<rparr>"
  have id: "idle ?y" using acknowledged [OF q(4)] .
  have step: "disk_completes io finish w = rbind (disk_next_request io ?d) (\<lambda>d'. Inr (w\<lparr>sems := k', dev := d'\<rparr>))"
    unfolding disk_completes_def using interrupt_done [OF q(4) r i(1), of w] k'(1) by simp
  have ch: "rchain ?rs (request_queue (dev w)) q" using rchain_frame [OF q(1)] by simp
  have ok: "req_ok k' nblocks (?rs u)" if "u \<in> set q" for u
  proof -
    have "req_ok (sems w) nblocks (reqs (dev w) u)" "u \<noteq> r" using q that by auto
    then show ?thesis using keep by (auto simp: req_ok_def)
  qed
  show ?thesis
  proof (cases q)
    case Nil
    then have "disk_next_request io ?d = Inr ?d" using ch id by (intro next_request_none) auto
    moreover have "dinv idle busy nblocks (w\<lparr>sems := k', dev := ?d\<rparr>) subm (compl @ [r])"
      using Nil ch id k' q(2) by (simp add: dinv_def)
    ultimately show ?thesis using step k' i by (intro exI [of _ "w\<lparr>sems := k', dev := ?d\<rparr>"]) auto
  next
    case (Cons u us)
    then have u: "request_queue (dev w) = u" "u \<noteq> 0" "rchain ?rs (next_r (?rs u)) us" "u \<noteq> r" "u \<notin> set us"
      using ch q(3) by auto
    have oku: "req_ok k' nblocks (?rs u)" using ok Cons by simp
    let ?d' = "\<lambda>y. ?d\<lparr>request_queue := next_r (?rs u), request_served := u, reqs := ?rs(u := (?rs u)\<lparr>next_r := 0\<rparr>), hw := y\<rparr>"
    obtain y where y: "disk_next_request io ?d = Inr (?d' y)"
      "busy y (operation (?rs u) + 1) (block (?rs u)) (buf (?rs u))"
    proof -
      have "\<exists>y. disk_next_request io ?d = Inr (?d' y) \<and> busy y (operation (?rs u) + 1) (block (?rs u)) (buf (?rs u))"
        using next_request_starts [of ?d u] id u oku unfolding req_ok_def by auto
      then show thesis using that by blast
    qed
    have "rchain (?rs(u := (?rs u)\<lparr>next_r := 0\<rparr>)) (next_r (?rs u)) us"
      by (rule rchain_frame [OF u(3)]) (use u(5) in auto)
    moreover have "\<forall>z \<in> set (u # us). req_ok k' nblocks ((?rs(u := (?rs u)\<lparr>next_r := 0\<rparr>)) z)"
      using ok oku Cons by (auto simp del: fun_upd_apply simp: fun_upd_apply [of _ u])
    ultimately have "dinv idle busy nblocks (w\<lparr>sems := k', dev := ?d' y\<rparr>) subm (compl @ [r])"
      using k' y q(2,3) Cons u(2) by (simp add: dinv_def)
    then show ?thesis using step y k' i u(4) by (intro exI [of _ "w\<lparr>sems := k', dev := ?d' y\<rparr>"]) auto
  qed
qed

lemma dreach_dinv: "dreach io finish idle nblocks w subm compl \<Longrightarrow> dinv idle busy nblocks w subm compl"
proof (induction rule: dreach.induct)
  case (start w)
  then show ?case by (simp add: dinv_def disk_ready_def)
next
  case (submit w subm compl r b i w1 a wt v w')
  let ?w = "\<lambda>c. w\<lparr>dev := upd_req (dev w) r (\<lambda>x. x\<lparr>block := b, buf := a, sem := Some i, operation := c\<rparr>)\<rparr>"
  have "w1\<lparr>dev := upd_req (dev w1) r (\<lambda>x. x\<lparr>operation := c\<rparr>)\<rparr> = ?w c" for c
    using submit.hyps by (simp add: upd_req_def)
  then have "disk_submit_request io wt (?w 0) r = Some (Inr (v, w')) \<or> disk_submit_request io wt (?w 1) r = Some (Inr (v, w'))"
    using submit.hyps(7) unfolding disk_read_block_def disk_write_block_def by simp
  then show ?case
    using submit_dinv [OF submit.IH _ _ refl, of r 0 b i wt a] submit_dinv [OF submit.IH _ _ refl, of r 1 b i wt a] submit.hyps by auto
next
  case (complete w subm compl r w')
  then show ?case using complete_dinv by fastforce
next
  case (spurious w subm compl w')
  then show ?case by (simp add: disk_interrupt_handle_def Let_def)
next
  case (other w subm compl k)
  have "req_ok k nblocks x" if "req_ok (sems w) nblocks x" for x using other.hyps that by (auto simp: req_ok_def)
  then show ?case using other by (auto simp: dinv_def)
qed

lemma fifo_service:
  assumes reach: "dreach io finish idle nblocks w subm compl"
  shows "(\<exists>q. rchain (reqs (dev w)) (request_queue (dev w)) q \<and>
      subm = compl @ (if request_served (dev w) = 0 then [] else [request_served (dev w)]) @ q \<and>
      (request_served (dev w) = 0 \<longrightarrow> q = [] \<and> idle (hw (dev w))))
    \<and> (request_served (dev w) \<noteq> 0 \<longrightarrow>
        (\<exists>w' i v. disk_completes io finish w = Inr w' \<and> dreach io finish idle nblocks w' subm (compl @ [request_served (dev w)])
           \<and> return_value (reqs (dev w') (request_served (dev w))) = 0
           \<and> sem (reqs (dev w) (request_served (dev w))) = Some i \<and> ksem_val (sems w) i = Some v
           \<and> svals (sems w') = (svals (sems w))[i := Some (c_int (v + 1))]))"
proof
  show "\<exists>q. rchain (reqs (dev w)) (request_queue (dev w)) q \<and>
      subm = compl @ (if request_served (dev w) = 0 then [] else [request_served (dev w)]) @ q \<and>
      (request_served (dev w) = 0 \<longrightarrow> q = [] \<and> idle (hw (dev w)))"
    using dreach_dinv [OF reach] by (auto simp: dinv_def)
  show "request_served (dev w) \<noteq> 0 \<longrightarrow>
        (\<exists>w' i v. disk_completes io finish w = Inr w' \<and> dreach io finish idle nblocks w' subm (compl @ [request_served (dev w)])
           \<and> return_value (reqs (dev w') (request_served (dev w))) = 0
           \<and> sem (reqs (dev w) (request_served (dev w))) = Some i \<and> ksem_val (sems w) i = Some v
           \<and> svals (sems w') = (svals (sems w))[i := Some (c_int (v + 1))])"
    using complete_dinv [OF dreach_dinv [OF reach] refl] dreach.complete [OF reach refl] by blast
qed

end


section \<open>A disk\<close>

text \<open>
  A disk of 16 blocks with the behaviour that \<open>yams_disk\<close> asks for; memory is flat, so that a
  transfer moves 512 bytes at the address in the register.
\<close>

record ydisk =
  y_status :: u32
  y_data :: u32
  y_sector :: u32
  y_dma :: u32
  y_ram :: "u32 \<Rightarrow> u8"
  y_blocks :: "nat \<Rightarrow> u8 list"

definition y_get :: "ydisk \<Rightarrow> u32 \<Rightarrow> u8 list" where
  "y_get y a = map (\<lambda>i. y_ram y (a + of_nat i)) [0..<512]"

definition y_put :: "ydisk \<Rightarrow> u32 \<Rightarrow> u8 list \<Rightarrow> ydisk" where
  "y_put y a bs = y\<lparr>y_ram := (\<lambda>x. if unat (x - a) < length bs then bs ! unat (x - a) else y_ram y x)\<rparr>"

definition y_command :: "ydisk \<Rightarrow> u32 \<Rightarrow> ydisk" where
  "y_command y c =
     (if c = 1 \<or> c = 2 then y\<lparr>y_status := (if unat (y_sector y) < 16 then c else 0x08000000)\<rparr>
      else if c = 3 then y\<lparr>y_status := y_status y AND NOT 4\<rparr>
      else if c = 4 then y\<lparr>y_status := y_status y AND NOT 8\<rparr>
      else if c = 5 then y\<lparr>y_data := 16\<rparr>
      else if c = 6 then y\<lparr>y_data := 512\<rparr>
      else y\<lparr>y_status := 0x20000000\<rparr>)"

definition y_finish :: "ydisk \<Rightarrow> ydisk" where
  "y_finish y =
     (if y_status y = 1 then (y_put y (y_dma y) (y_blocks y (unat (y_sector y))))\<lparr>y_status := 4\<rparr>
      else if y_status y = 2 then y\<lparr>y_blocks := (y_blocks y)(unat (y_sector y) := y_get y (y_dma y)), y_status := 8\<rparr>
      else y)"

definition yio :: "ydisk yams_io" where
  "yio = \<lparr>io_status = y_status, io_command = y_command, io_data = y_data,
     io_tsector = (\<lambda>y b. y\<lparr>y_sector := b\<rparr>), io_dmaaddr = (\<lambda>y a. y\<lparr>y_dma := a\<rparr>), ram_get = y_get, ram_put = y_put\<rparr>"

definition y_sound :: "ydisk \<Rightarrow> bool" where
  "y_sound y \<longleftrightarrow> (\<forall>i < 16. length (y_blocks y i) = 512)"

definition y_idle :: "ydisk \<Rightarrow> bool" where
  "y_idle y \<longleftrightarrow> y_sound y \<and> y_status y = 0"

definition y_busy :: "ydisk \<Rightarrow> u32 \<Rightarrow> u32 \<Rightarrow> u32 \<Rightarrow> bool" where
  "y_busy y c b a \<longleftrightarrow> y_sound y \<and> (c = 1 \<or> c = 2) \<and> y_status y = c \<and> y_sector y = b \<and> y_dma y = a \<and> unat b < 16"

lemma y_get_put: "length bs = 512 \<Longrightarrow> y_get (y_put y a bs) a = bs"
  by (rule nth_equalityI) (auto simp: y_get_def y_put_def unat_of_nat)

lemma length_y_get [simp]: "length (y_get y a) = 512"
  by (simp add: y_get_def)

lemma y_get_frame: "y_ram y' = y_ram y \<Longrightarrow> y_get y' = y_get y"
  by (simp add: y_get_def fun_eq_iff)

lemma y_frame [simp]:
  "y_ram (y_command y c) = y_ram y" "y_blocks (y_command y c) = y_blocks y" "y_blocks (y_put y a bs) = y_blocks y"
  "y_status (y_put y a bs) = y_status y"
  by (simp_all add: y_command_def y_put_def)

lemmas y_defs = yio_def y_idle_def y_busy_def DISK_STATUS_RBUSY_def DISK_STATUS_WBUSY_def DISK_STATUS_RIRQ_def
  DISK_STATUS_WIRQ_def DISK_STATUS_ERRORS_def

lemma y_ack:
  assumes "y_busy y c b a"
  shows "y_status (y_command (y_command (y_finish y) 4) 3) = 0"
    and "c = 1 \<Longrightarrow> y_blocks (y_command (y_command (y_finish y) 4) 3) = y_blocks y
      \<and> y_get (y_command (y_command (y_finish y) 4) 3) a = y_blocks y (unat b)"
    and "c = 2 \<Longrightarrow> y_blocks (y_command (y_command (y_finish y) 4) 3) = (y_blocks y)(unat b := y_get y a)"
proof -
  show "y_status (y_command (y_command (y_finish y) 4) 3) = 0"
    using assms by (auto simp: y_busy_def y_finish_def y_command_def)
  show "c = 1 \<Longrightarrow> y_blocks (y_command (y_command (y_finish y) 4) 3) = y_blocks y
      \<and> y_get (y_command (y_command (y_finish y) 4) 3) a = y_blocks y (unat b)"
    using assms y_get_put [of "y_blocks y (unat b)" y a]
    by (auto simp: y_busy_def y_finish_def y_sound_def y_get_def)
  show "c = 2 \<Longrightarrow> y_blocks (y_command (y_command (y_finish y) 4) 3) = (y_blocks y)(unat b := y_get y a)"
    using assms by (auto simp: y_busy_def y_finish_def)
qed

lemma y_ack_idle: "y_busy y c b a \<Longrightarrow> y_idle (y_command (y_command (y_finish y) 4) 3)"
  using y_ack [of y c b a] by (auto simp: y_idle_def y_sound_def y_busy_def)

interpretation ydisk: disk_client yio y_finish y_idle y_busy y_blocks 16 512 "0x80001000" "0x00002000"
proof (unfold_locales, goal_cases)
  case (2 y c b a)
  then show ?case by (auto simp: y_defs y_sound_def y_command_def y_get_def fun_eq_iff)
next
  case (4 y c b a)
  then show ?case by (auto simp: y_defs y_finish_def)
next
  case (5 y c b a)
  then show ?case using y_ack_idle by (simp add: yio_def)
next
  case (6 y b a)
  then show ?case using y_ack(2) by (simp add: yio_def)
next
  case (7 y b a)
  then show ?case using y_ack(3) by (simp add: yio_def)
next
  case (8 bf y a)
  then show ?case using y_get_put by (auto simp: yio_def y_idle_def y_sound_def)
qed (auto simp: y_defs y_sound_def y_command_def)

section \<open>Properties\<close>

text \<open>
  C18. For a disk that behaves as YAMS documents it: a synchronous read through the driver
  returns 1 with the contents of the block in the buffer and leaves the disk as it was; a
  synchronous write returns 1 and changes exactly the block named. In both cases the driver
  ends idle and the temporary semaphore is given back. When no semaphore can be created both
  return 0 and nothing is transferred.
\<close>

theorem disk_sync_correct:
  assumes "yams_disk io finish idle busy stored nblocks bsize" "rq \<noteq> 0"
    and "disk_ready idle (dev w)" "ksem_ok (sems w)" "unat b < nblocks" "length bf = bsize"
  shows "\<exists>r data w1 w2. read_block (disk_gbd io finish rq ba) w b bf = Inr (r, data, w1)
    \<and> write_block (disk_gbd io finish rq ba) w b bf = Inr (r, w2)
    \<and> disk_ready idle (dev w1) \<and> disk_ready idle (dev w2)
    \<and> svals (sems w1) = svals (sems w) \<and> svals (sems w2) = svals (sems w)
    \<and> stored (hw (dev w1)) = stored (hw (dev w))
    \<and> (if ksem_free (sems w)
       then r = 1 \<and> data = stored (hw (dev w)) (unat b) \<and> stored (hw (dev w2)) = (stored (hw (dev w)))(unat b := bf)
       else r = 0 \<and> data = bf \<and> stored (hw (dev w2)) = stored (hw (dev w)))"
proof -
  have cl: "disk_client io finish idle busy stored nblocks bsize rq"
    using assms(1,2) by (simp add: disk_client_def disk_client_axioms_def)
  show ?thesis
  proof (cases "ksem_free (sems w)")
    case True
    then show ?thesis
      using disk_client.sync_read [OF cl assms(3,4) True assms(5,6), of ba]
        disk_client.sync_write [OF cl assms(3,4) True assms(5,6), of ba] by auto
  next
    case False
    then show ?thesis using disk_client.sync_no_semaphore [OF cl assms(3,4) False assms(6), of ba b] by auto
  qed
qed

definition ex_disk :: "ydisk disk_real_device_t kworld" where
  "ex_disk = \<lparr>sems = \<lparr>svals = replicate 128 None, snext = 0\<rparr>, pool = small_pool,
     dev = \<lparr>request_queue = 0, request_served = 0,
       reqs = (\<lambda>_. \<lparr>block = 0, buf = 0, sem = None, operation = 0, internal = 0, next_r = 0, return_value = 0\<rparr>),
       hw = \<lparr>y_status = 0, y_data = 0, y_sector = 0, y_dma = 0, y_ram = (\<lambda>_. 0), y_blocks = (\<lambda>_. replicate 512 7)\<rparr>\<rparr>\<rparr>"

lemma ex_disk_ready:
  "disk_ready y_idle (dev ex_disk)" "ksem_ok (sems ex_disk)" "ksem_free (sems ex_disk)"
  "stored_block = y_blocks (hw (dev ex_disk)) b \<Longrightarrow> stored_block = replicate 512 7"
  by (simp_all add: ex_disk_def disk_ready_def y_idle_def y_sound_def ksem_ok_def ksem_free_def)

theorem disk_sync_correct_witness:
  "\<exists>w1. read_block (disk_gbd yio y_finish 0x80001000 0x2000) ex_disk 3 (replicate 512 1) = Inr (1, replicate 512 7, w1)"
  using disk_sync_correct [OF ydisk.yams_disk_axioms, of "0x80001000" ex_disk 3 "replicate 512 1" "0x2000"] ex_disk_ready
  by fastforce

text \<open>
  C19. For such a disk, however submissions, interrupts and the use of semaphores interleave:
  requests are completed in the order they were submitted and none is lost; the disk is idle
  only when no request is left; and when the disk finishes, the interrupt handler completes the
  request being served without failing, sets its return value to 0 and signals its semaphore
  exactly once.
\<close>

theorem disk_fifo:
  assumes "yams_disk io finish idle busy stored nblocks bsize" "dreach io finish idle nblocks w subm compl"
  shows "(\<exists>q. rchain (reqs (dev w)) (request_queue (dev w)) q \<and>
      subm = compl @ (if request_served (dev w) = 0 then [] else [request_served (dev w)]) @ q \<and>
      (request_served (dev w) = 0 \<longrightarrow> q = [] \<and> idle (hw (dev w))))
    \<and> (request_served (dev w) \<noteq> 0 \<longrightarrow>
        (\<exists>w' i v. disk_completes io finish w = Inr w' \<and> dreach io finish idle nblocks w' subm (compl @ [request_served (dev w)])
           \<and> return_value (reqs (dev w') (request_served (dev w))) = 0
           \<and> sem (reqs (dev w) (request_served (dev w))) = Some i \<and> ksem_val (sems w) i = Some v
           \<and> svals (sems w') = (svals (sems w))[i := Some (c_int (v + 1))]))"
  using assms by (rule yams_disk.fifo_service)

theorem disk_fifo_witness: "\<exists>w'. dreach yio y_finish y_idle 16 w' [5] [5]"
proof -
  let ?w = "ex_disk\<lparr>sems := (sems ex_disk)\<lparr>svals := (svals (sems ex_disk))[0 := Some 0]\<rparr>\<rparr>"
  have st: "dreach yio y_finish y_idle 16 ?w [] []"
    using ex_disk_ready by (intro dreach.start) (simp_all add: ksem_ok_def)
  have v: "ksem_val (sems ?w) 0 \<noteq> None" by (simp add: ksem_val_def ex_disk_def)
  let ?w1 = "?w\<lparr>dev := upd_req (dev ?w) 5 (\<lambda>x. x\<lparr>block := 3, buf := 0x2000, sem := Some 0\<rparr>)\<rparr>"
  have e: "?w1\<lparr>dev := upd_req (dev ?w1) 5 (\<lambda>x. x\<lparr>operation := 0\<rparr>)\<rparr> =
      ?w\<lparr>dev := upd_req (dev ?w) 5 (\<lambda>x. x\<lparr>block := 3, buf := 0x2000, sem := Some 0, operation := 0\<rparr>)\<rparr>"
    by (simp add: upd_req_def)
  obtain w2 where w2: "disk_read_block yio (\<lambda>w. Inr w) ?w1 5 = Some (Inr (1, w2))"
    using ydisk.submit_dinv [OF ydisk.dreach_dinv [OF st] _ _ refl _ _ v, where r = 5 and c = 0 and b = 3 and wt = "\<lambda>w. Inr w" and a = "0x2000"]
    unfolding disk_read_block_def e by auto
  have re: "dreach yio y_finish y_idle 16 w2 [5] []"
    using dreach.submit [OF st _ _ _ v refl, where r = 5 and b = 3 and a = "0x2000" and wt = "\<lambda>w. Inr w" and v = 1 and w' = w2] w2 by simp
  note f = disk_fifo [OF ydisk.yams_disk_axioms re]
  then have "request_served (dev w2) = 5" by (auto split: if_splits)
  with f show ?thesis by auto
qed

end
