(* ===== verification/Tfs_Driver.thy ===== *)
theory Tfs_Driver
  imports Tfs_Correct Disk
begin

text \<open>
  TFS on the disk driver: the properties of the filesystem, stated for the code of
  \<^verbatim>\<open>fs/tfs.c\<close> running on the code of \<^verbatim>\<open>drivers/disk.c\<close> and any disk that behaves as
  the locale \<open>yams_disk\<close> says. A volume is seen as the map \<open>fs_map\<close> from file names to
  contents; \<open>file_id\<close> relates a name to the number that \<open>tfs_open\<close> hands out.
\<close>

locale tfs_disk = disk_client io finish idle busy stored nblocks 512 rq ba
  for io :: "'y yams_io" and finish idle busy stored nblocks rq ba +
  fixes tb :: nat
  assumes tb_le: "tb \<le> nblocks"

sublocale tfs_disk \<subseteq> vol: tfs_volume "disk_gbd io finish rq ba" "disk_ready idle" "\<lambda>d. stored (hw d)" nblocks tb
  by unfold_locales (rule tb_le)

context tfs_disk
begin

lemma volume: "tfs_volume (disk_gbd io finish rq ba) (disk_ready idle) (\<lambda>d. stored (hw d)) nblocks tb"
  by unfold_locales

end

lemma file_id_map: "fs_ok tb C \<Longrightarrow> file_id C nm fid \<Longrightarrow> fs_map C nm = Some (file_data C (nat fid))"
  by (auto simp: file_id_def fs_map_Some)

lemma file_id_cong: "C' 2 = C 2 \<Longrightarrow> file_id C' nm fid = file_id C nm fid"
  by (simp add: file_id_def used_def inode_of_def entry_name_def name_bytes_def)


lemma file_id_exists: "fs_map C nm \<noteq> None \<Longrightarrow> \<exists>fid. file_id C nm fid"
  using fs_map_None [of C nm] by (auto simp: file_id_def)

lemma open_file_id:
  assumes "\<exists>r s'. open_call = Inr (r, s') \<and> R1 s' \<and> R2 s' \<and> R3 s' \<and> (case fs_map C nm of None \<Rightarrow> r = -5
      | Some data \<Rightarrow> (\<exists>i < 25. used C i \<and> entry_name C i = nm \<and> r = int (inode_of C i)))"
    and "fs_ok tb C"
  shows "\<exists>r s'. open_call = Inr (r, s') \<and> R1 s' \<and> R2 s' \<and> R3 s' \<and> (if fs_map C nm = None then r = -5
      else 2 < r \<and> file_id C nm r)"
proof -
  have "2 < int (inode_of C i)" if "i < 25" "used C i" for i
    using fs_okD(4) [OF assms(2) that] by (simp add: entry_ok_def owned_def)
  then show ?thesis using assms(1) by (fastforce simp: file_id_def split: option.splits if_splits)
qed

context disk_client
begin

lemma device: "block_device (disk_gbd io finish rq ba) (disk_ready idle) (\<lambda>d. stored (hw d)) nblocks bsize"
  by unfold_locales

end

lemma disk_device_intro:
  "yams_disk io finish idle busy stored nblocks bsize \<Longrightarrow> rq \<noteq> 0 \<Longrightarrow>
    block_device (disk_gbd io finish rq ba) (disk_ready idle) (\<lambda>d. stored (hw d)) nblocks bsize"
  by (intro disk_client.device disk_client.intro disk_client_axioms.intro)

lemma tfs_disk_intro:
  "yams_disk io finish idle busy stored nblocks 512 \<Longrightarrow> rq \<noteq> 0 \<Longrightarrow> tb \<le> nblocks \<Longrightarrow>
    tfs_volume (disk_gbd io finish rq ba) (disk_ready idle) (\<lambda>d. stored (hw d)) nblocks tb"
  by (intro tfs_disk.volume tfs_disk.intro disk_client.intro disk_client_axioms.intro tfs_disk_axioms.intro)

section \<open>Mounting\<close>

definition two_free :: "ksems \<Rightarrow> bool" where
  "two_free k \<longleftrightarrow> (\<exists>i < 128. \<exists>j < 128. i \<noteq> j \<and> svals k ! i = None \<and> svals k ! j = None)"

lemma ksem_free_after_create:
  assumes "ksem_ok k" "i < 128" "svals k ! i = None" "svals k' = (svals k)[i := Some v]"
  shows "ksem_free k' \<longleftrightarrow> two_free k"
proof -
  have l: "length (svals k) = 128" using assms(1) by (simp add: ksem_ok_def)
  then have "ksem_free k' \<longleftrightarrow> (\<exists>j < 128. j \<noteq> i \<and> svals k ! j = None)"
    unfolding ksem_free_def assms(4) in_set_conv_nth using assms(2) by (auto simp: nth_list_update)
  then show ?thesis using assms(2,3) unfolding two_free_def by metis
qed

definition mountable :: "('d \<Rightarrow> blocks) \<Rightarrow> nat \<Rightarrow> 'd kworld \<Rightarrow> bool" where
  "mountable content bsize w \<longleftrightarrow> bsize = 512 \<and> two_free (sems w) \<and> pp_free (pool w) \<noteq> {} \<and> rd32 (content (dev w) 0) 0 = 3745"

context block_device
begin

lemma total_twice:
  assumes "ready (dev w)"
  shows "\<exists>d. (let (tb, w1) = total_blocks gbd w in if tb > 4096 then (4096, w1) else total_blocks gbd w1) =
      (of_nat (min nblocks 4096), w\<lparr>dev := d\<rparr>) \<and> ready d \<and> content d = content (dev w)"
proof -
  obtain d where d: "total_blocks gbd w = (of_nat nblocks, w\<lparr>dev := d\<rparr>)" "ready d" "content d = content (dev w)"
    using total_law [OF assms] by blast
  obtain d' where d': "total_blocks gbd (w\<lparr>dev := d\<rparr>) = (of_nat nblocks, w\<lparr>dev := d'\<rparr>)" "ready d'" "content d' = content d"
    using total_law [of "w\<lparr>dev := d\<rparr>"] d(2) by auto
  have "(of_nat nblocks :: u32) > 4096 \<longleftrightarrow> 4096 < nblocks"
    using small(2) by (simp add: word_less_nat_alt unat_of_nat take_bit_nat_eq_self)
  then show ?thesis using d d' by (auto simp: Let_def min_def)
qed

text \<open>
  The start of \<open>tfs_init\<close>, up to the read of the header.
\<close>

lemma init_start:
  assumes w: "ready (dev w)" "ksem_ok (sems w)"
  obtains (size) d where "bsize \<noteq> 512" "tfs_init gbd w page name = Inr (None, w\<lparr>dev := d\<rparr>)" "ready d" "content d = content (dev w)"
  | (sem) d k where "\<not> two_free (sems w)" "tfs_init gbd w page name = Inr (None, w\<lparr>dev := d, sems := k\<rparr>)" "ready d"
      "content d = content (dev w)" "svals k = svals (sems w)"
  | (ok) d i k where "bsize = 512" "i < 128" "svals (sems w) ! i = None" "ksem_ok k" "svals k = (svals (sems w))[i := Some 1]"
      "ready d" "content d = content (dev w)" "block_size gbd w = (512, w\<lparr>dev := d\<rparr>)" "ksem_create (sems w) 1 = (Some i, k)"
proof -
  obtain d where d: "block_size gbd w = (of_nat bsize, w\<lparr>dev := d\<rparr>)" "ready d" "content d = content (dev w)"
    using size_law [OF w(1)] by blast
  have bs: "(of_nat bsize :: u32) = 512 \<longleftrightarrow> bsize = 512"
    using small(1) by (simp add: word_unat_eq_iff unat_of_nat take_bit_nat_eq_self)
  consider "bsize \<noteq> 512" | k where "bsize = 512" "ksem_create (sems w) 1 = (None, k)" "\<not> ksem_free (sems w)" "svals k = svals (sems w)"
    | i k where "bsize = 512" "ksem_create (sems w) 1 = (Some i, k)" "i < 128" "svals (sems w) ! i = None" "ksem_ok k"
        "svals k = (svals (sems w))[i := Some 1]"
    using ksem_create_cases [OF w(2), of 1] by blast
  then show thesis
  proof cases
    case 1
    then show thesis using size d bs by (auto simp: tfs_init_def)
  next
    case 2
    then have "\<not> two_free (sems w)" using w(2) unfolding two_free_def ksem_free_def ksem_ok_def by (metis nth_mem)
    then show thesis using sem 2 d bs by (auto simp: tfs_init_def)
  next
    case 3
    then show thesis using ok d bs by simp
  qed
qed

lemma init_fail:
  assumes w: "ready (dev w)" "ksem_ok (sems w)" "pp_inv (pool w)" "pp_pages (pool w) \<le> 2 ^ 19" and l: "length page = 4096" "0 < nblocks"
    and "\<not> mountable content bsize w"
  shows "\<exists>w'. tfs_init gbd w page name = Inr (None, w') \<and> ready (dev w') \<and> content (dev w') = content (dev w)
    \<and> svals (sems w') = svals (sems w) \<and> pp_free (pool w') = pp_free (pool w)"
proof (rule init_start [OF w(1,2)])
  fix d i k assume k: "bsize = 512" "i < 128" "svals (sems w) ! i = None" "ksem_ok k" "svals k = (svals (sems w))[i := Some 1]"
      "ready d" "content d = content (dev w)" "block_size gbd w = (512, w\<lparr>dev := d\<rparr>)" "ksem_create (sems w) 1 = (Some i, k)"
  note free = ksem_free_after_create [OF w(2) k(2,3,5)]
  have restored: "(svals (sems w))[i := None] = svals (sems w)" using k(3) by (metis list_update_id)
  show ?thesis
  proof (cases "pp_free (pool w) = {}")
    case True
    then show ?thesis using k restored get_phys_page_none [OF w(3)] by (auto simp: tfs_init_def ksem_destroy_def)
  next
    case False
    from page_return [OF w(3) False w(4)] obtain p pp pp' where
      p: "pagepool_get_phys_page (pool w) = Inr (page_addr p, pp)" "page_addr p \<noteq> 0"
      "pagepool_free_phys_page pp (ADDR_KERNEL_TO_PHYS (ADDR_PHYS_TO_KERNEL (page_addr p))) = Inr pp'" "pp_free pp' = pp_free (pool w)"
      by blast
    let ?w1 = "w\<lparr>dev := d, sems := k, pool := pp\<rparr>"
    have len: "length (take 512 page) = bsize" using l(1) k(1) by simp
    have "\<exists>r hdr w2. read_block gbd ?w1 0 (take 512 page) = Inr (r, hdr, w2) \<and> (r = 0 \<or> rd32 (hdr @ drop 512 page) 0 \<noteq> 3745)
      \<and> ready (dev w2) \<and> svals (sems w2) = svals k \<and> pool w2 = pp \<and> content (dev w2) = content (dev w)"
    proof (cases "two_free (sems w)")
      case t: False
      then show ?thesis using no_semaphore [of ?w1 "take 512 page" 0] k(4,6,7) free len by auto
    next
      case t: True
      then have "rd32 (content (dev w) 0) 0 \<noteq> 3745" using assms(7) k(1) False by (simp add: mountable_def)
      moreover have "rd32 (content (dev w) 0 @ drop 512 page) 0 = rd32 (content (dev w) 0) 0"
        using content_length [OF w(1) l(2)] k(1) by (intro rd32_append) simp
      ultimately show ?thesis using read_law [of ?w1 0 "take 512 page"] k(4,6,7) free len l(2) t by auto
    qed
    then show ?thesis using k p restored by (auto simp: tfs_init_def ksem_destroy_def Let_def)
  qed
qed (use assms in auto)

lemma init_success:
  assumes w: "ready (dev w)" "ksem_ok (sems w)" "pp_inv (pool w)" "pp_pages (pool w) \<le> 2 ^ 19"
    and l: "length page = 4096" "length name = 16" "0 < nblocks" and vn: "cstr vn (drop 4 (content (dev w) 0))" and m: "mountable content bsize w"
  shows "\<exists>vol s p. tfs_init gbd w page name = Inr (Some (vol, s), tw s) \<and> ready (dev (tw s)) \<and> content (dev (tw s)) = content (dev w)
    \<and> cstr (take 15 vn) vol \<and> tfs_ready ready (min nblocks 4096) s
    \<and> lock s < 128 \<and> svals (sems w) ! lock s = None \<and> svals (sems (tw s)) = (svals (sems w))[lock s := Some 1]
    \<and> fs_page s = ADDR_PHYS_TO_KERNEL (page_addr p) \<and> p \<in> pp_free (pool w) \<and> page_addr p \<noteq> 0
    \<and> pagepool_get_phys_page (pool w) = Inr (page_addr p, pool (tw s))"
proof (rule init_start [OF w(1,2)])
  fix d i k assume k: "bsize = 512" "i < 128" "svals (sems w) ! i = None" "ksem_ok k" "svals k = (svals (sems w))[i := Some 1]"
      "ready d" "content d = content (dev w)" "block_size gbd w = (512, w\<lparr>dev := d\<rparr>)" "ksem_create (sems w) 1 = (Some i, k)"
  have mm: "two_free (sems w)" "pp_free (pool w) \<noteq> {}" "rd32 (content (dev w) 0) 0 = 3745" using m by (simp_all add: mountable_def)
  then have free: "ksem_free k" using ksem_free_after_create [OF w(2) k(2,3,5)] by simp
  from page_return [OF w(3) mm(2) w(4)] obtain p pp where
    p: "pagepool_get_phys_page (pool w) = Inr (page_addr p, pp)" "page_addr p \<noteq> 0" "p \<in> pp_free (pool w)" by blast
  let ?w1 = "w\<lparr>dev := d, sems := k, pool := pp\<rparr>"
  have c0: "length (content (dev w) 0) = 512" using content_length [OF w(1) l(3)] k(1) by simp
  from read_law [of ?w1 0 "take 512 page"] obtain w2 where
    w2: "read_block gbd ?w1 0 (take 512 page) = Inr (1, content (dev w) 0, w2)" "ready (dev w2)" "ksem_ok (sems w2)"
    "svals (sems w2) = svals k" "pool w2 = pp" "content (dev w2) = content (dev w)"
    using k(1,4,6,7) free l by auto
  let ?page = "content (dev w) 0 @ drop 512 page"
  have hd: "rd32 ?page 0 = 3745" using rd32_append [of 0 "content (dev w) 0"] c0 mm(3) by simp
  obtain nm where nm: "stringcopy name (drop 4 ?page) 16 = Inr nm" "cstr (take 15 vn) nm"
    using stringcopy_total [of vn "drop 4 ?page" 16 name] cstr_append [OF vn] l(2) c0 by auto
  obtain vol where vol: "stringcopy (take 16 (drop 4 ?page)) nm 16 = Inr vol" "cstr (take 15 vn) vol"
    using stringcopy_total [OF nm(2), of 16 "take 16 (drop 4 ?page)"] l(1) c0 by auto
  obtain e where e: "(let (tb, w1) = total_blocks gbd w2 in if tb > 4096 then (4096, w1) else total_blocks gbd w1) =
    (of_nat (min nblocks 4096), w2\<lparr>dev := e\<rparr>)" "ready e" "content e = content (dev w)"
    using total_twice [OF w2(2)] w2(6) by auto
  let ?s = "\<lparr>tw = w2\<lparr>dev := e\<rparr>, totalblocks = of_nat (min nblocks 4096), lock = i, fs_page = ADDR_PHYS_TO_KERNEL (page_addr p),
    buffer_inode = take 512 (drop 76 ?page), buffer_bat = take 512 (drop 588 ?page), buffer_md = take 512 (drop 1100 ?page)\<rparr>"
  have "tfs_init gbd w page name = Inr (Some (vol, ?s), tw ?s)"
    using k(8,9) p(1,2) w2(1) hd nm(1) vol(1) e(1) by (simp add: tfs_init_def Let_def case_prod_beta split: if_splits)
  moreover have "ksem_val (sems w2) i = Some 1" using w2(3,4) k(2,5) w(2) by (simp add: ksem_val_eq ksem_ok_def)
  then have "tfs_ready ready (min nblocks 4096) ?s"
    using e(2) w2(3,4) free l(1) c0 by (simp add: tfs_ready_def ksem_free_cong [of "sems w2" k])
  ultimately show ?thesis using vol(2) e(2,3) k(2,3,5) w2(4,5) p by (intro exI [of _ vol] exI [of _ ?s] exI [of _ p]) simp
qed (use m in \<open>simp_all add: mountable_def\<close>)

text \<open>
  Unmounting gives back what mounting took.
\<close>

lemma init_unmount:
  assumes w: "ksem_ok (sems w)" "pp_inv (pool w)" "pp_pages (pool w) \<le> 2 ^ 19" and s: "tfs_ready ready tb s"
    and k: "svals (sems w) ! lock s = None" "svals (sems (tw s)) = (svals (sems w))[lock s := Some 1]"
    and p: "fs_page s = ADDR_PHYS_TO_KERNEL (page_addr p)" "p \<in> pp_free (pool w)" "pagepool_get_phys_page (pool w) = Inr (page_addr p, pool (tw s))"
  shows "\<exists>w'. tfs_unmount s = Inr (0, w') \<and> svals (sems w') = svals (sems w) \<and> pp_free (pool w') = pp_free (pool w)"
proof -
  have "pp_free (pool w) \<noteq> {}" using p(2) by blast
  from page_return [OF w(2) this w(3)] p(3) obtain q pp where
    q: "page_addr q = page_addr p" "pagepool_free_phys_page (pool (tw s)) (ADDR_KERNEL_TO_PHYS (ADDR_PHYS_TO_KERNEL (page_addr q))) = Inr pp"
    "pp_free pp = pp_free (pool w)" by auto
  have v: "ksem_ok (sems (tw s))" "ksem_val (sems (tw s)) (lock s) = Some 1" using s by (simp_all add: tfs_ready_def)
  have "(svals (sems w))[lock s := None] = svals (sems w)" using k(1) by (metis list_update_id)
  then show ?thesis using ksem_P_V [OF v] k(2) q p(1) by (auto simp: tfs_unmount_def tfs_P_def ksem_destroy_def)
qed

end

section \<open>A small volume\<close>

text \<open>
  A formatted disk of 16 blocks: the header, the bitmap with the first three blocks in use, an empty directory.
\<close>

definition ex_blocks :: blocks where
  "ex_blocks b = (if b = 0 then [0, 0, 0x0E, 0xA1, 100, 105, 115, 107] @ replicate 504 0
     else if b = 1 then [0, 0, 0, 7] @ replicate 508 0 else replicate 512 0)"

lemma ex_blocks_ok: "fs_ok 16 ex_blocks" "fs_map ex_blocks = Map.empty"
proof -
  have b1: "words_of (ex_blocks 1) ! 0 = 7"
    by (simp add: words_of_nth ex_blocks_def rd32_def word_of_bytes_def)
  have "bm_bit (words_of (ex_blocks 1)) b = (b < 3)" if "b < 16" for b
  proof -
    have "b \<in> set [0..<16]" using that by simp
    then show ?thesis unfolding bm_bit_def using that b1 by (auto simp: upt_rec)
  qed
  then show "fs_ok 16 ex_blocks" "fs_map ex_blocks = Map.empty"
    using fs_ok_empty [of 16 ex_blocks] by (simp_all add: ex_blocks_def)
qed


interpretation yvol: tfs_disk yio y_finish y_idle y_busy y_blocks 16 "0x80001000" "0x00002000" 16
  by unfold_locales simp

definition ex_tfs :: "ydisk disk_real_device_t tfs_t" where
  "ex_tfs = \<lparr>tw = ex_disk\<lparr>sems := \<lparr>svals = Some 1 # replicate 127 None, snext = 1\<rparr>,
       dev := (dev ex_disk)\<lparr>hw := (hw (dev ex_disk))\<lparr>y_blocks := ex_blocks\<rparr>\<rparr>\<rparr>,
     totalblocks = 16, lock = 0, fs_page = 0x80003000,
     buffer_inode = replicate 512 0, buffer_bat = replicate 512 0, buffer_md = replicate 512 0\<rparr>"

lemma ex_tfs_ready: "tfs_ready (disk_ready y_idle) 16 ex_tfs" "y_blocks (hw (dev (tw ex_tfs))) = ex_blocks"
  by (simp_all add: tfs_ready_def ex_tfs_def ex_disk_def disk_ready_def y_idle_def y_sound_def ksem_ok_def
      ksem_free_def ksem_val_def ex_blocks_def)

section \<open>Properties\<close>

text \<open>
  C13. On a sound volume \<^verbatim>\<open>tfs_create\<close> always returns with the lock released and the volume
  sound. It succeeds exactly when the size is at most 65024 bytes, the name is new, the directory
  has a free entry and there are blocks for the inode and the data: then the volume has the new
  file, filled with zeros, and every other file is as it was. Otherwise it returns VFS_ERROR and
  the disk is unchanged.
\<close>

theorem tfs_create_correct:
  assumes "yams_disk io finish idle busy stored nblocks 512" "rq \<noteq> 0" "tb \<le> nblocks"
    and "tfs_ready (disk_ready idle) tb s" "fs_ok tb (stored (hw (dev (tw s))))"
    and "cstr nm filename" "nm \<noteq> []" "length nm \<le> 15" "0 \<le> sz" "sz < 2 ^ 31"
  shows "\<exists>r s'. tfs_create (disk_gbd io finish rq ba) s filename sz = Inr (r, s')
    \<and> tfs_ready (disk_ready idle) tb s' \<and> tfs_same s s' \<and> fs_ok tb (stored (hw (dev (tw s'))))
    \<and> (if sz \<le> 65024 \<and> fs_map (stored (hw (dev (tw s)))) nm = None
          \<and> (\<exists>i < 25. \<not> used (stored (hw (dev (tw s)))) i)
          \<and> nblk (nat sz) + 1 \<le> card (fs_free tb (stored (hw (dev (tw s)))))
       then r = VFS_OK \<and> fs_map (stored (hw (dev (tw s')))) = (fs_map (stored (hw (dev (tw s)))))(nm \<mapsto> replicate (nat sz) 0)
       else r = VFS_ERROR \<and> stored (hw (dev (tw s'))) = stored (hw (dev (tw s))))"
  using tfs_volume.create_ok [OF tfs_disk_intro [OF assms(1-3), of ba] assms(4-10)] by meson

lemma ex_create_fits:
  "300 \<le> (65024::int)" "\<exists>i < 25. \<not> used ex_blocks i" "nblk (nat 300) + 1 \<le> card (fs_free 16 ex_blocks)"
proof -
  have un: "\<not> used ex_blocks i" if "i < 25" for i
    using that ex_blocks_ok(2) fs_map_None [of ex_blocks "entry_name ex_blocks i"] by auto
  then show "\<exists>i < 25. \<not> used ex_blocks i" by (intro exI [of _ 0]) simp
  have "{3..<16} \<subseteq> fs_free 16 ex_blocks"
    using fs_okD(8) [OF ex_blocks_ok(1)] un by (auto simp: fs_free_def)
  then have "card {3..<16::nat} \<le> card (fs_free 16 ex_blocks)" by (rule card_mono [rotated]) (simp add: fs_free_def)
  then show "nblk (nat 300) + 1 \<le> card (fs_free 16 ex_blocks)" by (simp add: nblk_def)
qed simp

theorem tfs_create_correct_witness:
  "\<exists>s'. tfs_create (disk_gbd yio y_finish 0x80001000 0x2000) ex_tfs [97, 0] 300 = Inr (0, s')
     \<and> fs_map (y_blocks (hw (dev (tw s')))) = [[97] \<mapsto> replicate 300 0]"
  using tfs_create_correct [OF ydisk.yams_disk_axioms, of "0x80001000" 16 ex_tfs "[97]" "[97, 0]" 300 "0x2000"]
    ex_tfs_ready ex_blocks_ok ex_create_fits by (auto simp: cstr_def)


lemma ex_file_state:
  "\<exists>s'. tfs_ready (disk_ready y_idle) 16 s' \<and> fs_ok 16 (y_blocks (hw (dev (tw s'))))
     \<and> fs_map (y_blocks (hw (dev (tw s')))) = [[97] \<mapsto> replicate 300 0]"
  using yvol.vol.create_ok [of ex_tfs "[97]" "[97, 0]" 300] ex_tfs_ready ex_blocks_ok ex_create_fits
  by (auto simp: cstr_def)

text \<open>
  \<^verbatim>\<open>tfs_remove\<close> of a non-empty name removes exactly that file, or returns
  VFS_NOT_FOUND when there is none. The volume stays sound: the bitmap marks exactly the blocks
  of the remaining files.
\<close>

theorem tfs_remove_correct:
  assumes "yams_disk io finish idle busy stored nblocks 512" "rq \<noteq> 0" "tb \<le> nblocks"
    and "tfs_ready (disk_ready idle) tb s" "fs_ok tb (stored (hw (dev (tw s))))" "cstr nm filename" "nm \<noteq> []"
  shows "\<exists>r s'. tfs_remove (disk_gbd io finish rq ba) s filename = Inr (r, s')
    \<and> tfs_ready (disk_ready idle) tb s' \<and> tfs_same s s' \<and> fs_ok tb (stored (hw (dev (tw s'))))
    \<and> fs_map (stored (hw (dev (tw s')))) = (fs_map (stored (hw (dev (tw s)))))(nm := None)
    \<and> r = (if fs_map (stored (hw (dev (tw s)))) nm = None then VFS_NOT_FOUND else VFS_OK)"
  using tfs_volume.remove_ok [OF tfs_disk_intro [OF assms(1-3), of ba] assms(4-7)] by blast

theorem tfs_remove_correct_witness:
  "\<exists>s s'. fs_map (y_blocks (hw (dev (tw s)))) [97] \<noteq> None
     \<and> tfs_remove (disk_gbd yio y_finish 0x80001000 0x2000) s [97, 0] = Inr (0, s')
     \<and> fs_map (y_blocks (hw (dev (tw s')))) = Map.empty"
proof -
  obtain s where s: "tfs_ready (disk_ready y_idle) 16 s" "fs_ok 16 (y_blocks (hw (dev (tw s))))"
    "fs_map (y_blocks (hw (dev (tw s)))) = [[97] \<mapsto> replicate 300 0]" using ex_file_state by blast
  then show ?thesis
    using tfs_remove_correct [OF ydisk.yams_disk_axioms, of "0x80001000" 16 s "[97]" "[97, 0]" "0x2000"]
    by (simp add: cstr_def) (metis fun_upd_same)
qed

text \<open>
  \<^verbatim>\<open>tfs_open\<close> of a non-empty name returns the file id of the file with that name, a
  number above 2, or VFS_NOT_FOUND when there is none, and leaves the disk unchanged.
\<close>

theorem tfs_open_correct:
  assumes "yams_disk io finish idle busy stored nblocks 512" "rq \<noteq> 0" "tb \<le> nblocks"
    and "tfs_ready (disk_ready idle) tb s" "fs_ok tb (stored (hw (dev (tw s))))" "cstr nm filename" "nm \<noteq> []"
  shows "\<exists>r s'. tfs_open (disk_gbd io finish rq ba) s filename = Inr (r, s')
    \<and> tfs_ready (disk_ready idle) tb s' \<and> tfs_same s s' \<and> stored (hw (dev (tw s'))) = stored (hw (dev (tw s)))
    \<and> (if fs_map (stored (hw (dev (tw s)))) nm = None then r = VFS_NOT_FOUND
       else 2 < r \<and> file_id (stored (hw (dev (tw s)))) nm r)"
  by (rule open_file_id [OF tfs_volume.open_ok [OF tfs_disk_intro]]) (use assms in simp_all)

theorem tfs_open_correct_witness:
  "\<exists>s r s'. tfs_open (disk_gbd yio y_finish 0x80001000 0x2000) s [97, 0] = Inr (r, s') \<and> 2 < r"
proof -
  obtain s where s: "tfs_ready (disk_ready y_idle) 16 s" "fs_ok 16 (y_blocks (hw (dev (tw s))))"
    "fs_map (y_blocks (hw (dev (tw s)))) = [[97] \<mapsto> replicate 300 0]" using ex_file_state by blast
  then show ?thesis
    using tfs_open_correct [OF ydisk.yams_disk_axioms, of "0x80001000" 16 s "[97]" "[97, 0]" "0x2000"]
    by (simp add: cstr_def) blast
qed

text \<open>
  \<^verbatim>\<open>tfs_read\<close> at a file id copies to the buffer the bytes of the file from the offset on,
  as many as were asked for or are left, returns their number and touches nothing else of the
  buffer or the disk; an offset behind the end of the file gives VFS_ERROR.
\<close>

theorem tfs_read_correct:
  fixes bufsize off :: nat
  assumes "yams_disk io finish idle busy stored nblocks 512" "rq \<noteq> 0" "tb \<le> nblocks"
    and "tfs_ready (disk_ready idle) tb s" "fs_ok tb (stored (hw (dev (tw s))))"
    and "file_id (stored (hw (dev (tw s)))) nm fid" "fs_map (stored (hw (dev (tw s)))) nm = Some data"
    and "min bufsize (length data - off) \<le> length buffer"
  shows "\<exists>s'. tfs_read (disk_gbd io finish rq ba) s fid buffer (int bufsize) (int off) =
      Inr (if off \<le> length data
           then (int (min bufsize (length data - off)), put_at buffer 0 (take bufsize (drop off data)), s')
           else (VFS_ERROR, buffer, s'))
    \<and> tfs_ready (disk_ready idle) tb s' \<and> tfs_same s s' \<and> stored (hw (dev (tw s'))) = stored (hw (dev (tw s)))"
proof -
  obtain i where i: "i < 25" "used (stored (hw (dev (tw s)))) i" "fid = int (inode_of (stored (hw (dev (tw s)))) i)"
    "data = file_data (stored (hw (dev (tw s)))) (inode_of (stored (hw (dev (tw s)))) i)"
    using assms(5-7) fs_map_Some [OF assms(5)] by (auto simp: file_id_def)
  have t: "take (min bufsize (length data - off)) (drop off data) = take bufsize (drop off data)"
    by (metis length_drop min.commute take_all_iff min_def nat_le_linear)
  show ?thesis
    using tfs_volume.read_ok [OF tfs_disk_intro [OF assms(1-3), of ba] assms(4,5) i(1,2), where bufsize = bufsize and off = off and bf = buffer]
    unfolding i(4) [symmetric] i(3) [symmetric] t using assms(8) by blast
qed

theorem tfs_read_correct_witness:
  "\<exists>s fid s'. tfs_read (disk_gbd yio y_finish 0x80001000 0x2000) s fid [1, 2, 3] (int 2) (int 100) = Inr (2, [0, 0, 3], s')"
proof -
  obtain s where s: "tfs_ready (disk_ready y_idle) 16 s" "fs_ok 16 (y_blocks (hw (dev (tw s))))"
    "fs_map (y_blocks (hw (dev (tw s)))) = [[97] \<mapsto> replicate 300 0]" using ex_file_state by blast
  then obtain fid where fid: "file_id (y_blocks (hw (dev (tw s)))) [97] fid" using file_id_exists by fastforce
  have "put_at [1, 2, 3] 0 (take 2 (drop 100 (replicate 300 0))) = [0, 0, 3 :: u8]" by (simp add: put_at_def numeral_2_eq_2)
  then show ?thesis
    using tfs_read_correct [OF ydisk.yams_disk_axioms _ _ s(1,2) fid, of "0x80001000" "replicate 300 0" 2 100 "[1, 2, 3]" "0x2000"] s(3)
    by simp blast
qed

text \<open>
  C14. \<^verbatim>\<open>tfs_write\<close> at a file id replaces exactly the bytes of that file from the offset on,
  as many as were given or fit (a file never grows), and returns their number; an offset behind
  the end gives VFS_ERROR and changes no file. Files keep their ids, the volume stays sound.
\<close>

theorem tfs_write_correct:
  fixes datasize off :: nat
  assumes "yams_disk io finish idle busy stored nblocks 512" "rq \<noteq> 0" "tb \<le> nblocks"
    and "tfs_ready (disk_ready idle) tb s" "fs_ok tb (stored (hw (dev (tw s))))"
    and "file_id (stored (hw (dev (tw s)))) nm fid" "fs_map (stored (hw (dev (tw s)))) nm = Some data"
    and "min datasize (length data - off) \<le> length buffer"
  shows "\<exists>s'. tfs_write (disk_gbd io finish rq ba) s fid buffer (int datasize) (int off) =
      Inr (if off \<le> length data then int (min datasize (length data - off)) else VFS_ERROR, s')
    \<and> tfs_ready (disk_ready idle) tb s' \<and> tfs_same s s' \<and> fs_ok tb (stored (hw (dev (tw s'))))
    \<and> file_id (stored (hw (dev (tw s')))) = file_id (stored (hw (dev (tw s))))
    \<and> fs_map (stored (hw (dev (tw s')))) = (fs_map (stored (hw (dev (tw s)))))(nm \<mapsto>
        if off \<le> length data then put_at data off (take (min datasize (length data - off)) buffer) else data)"
proof -
  obtain i where i: "i < 25" "used (stored (hw (dev (tw s)))) i" "fid = int (inode_of (stored (hw (dev (tw s)))) i)"
    "data = file_data (stored (hw (dev (tw s)))) (inode_of (stored (hw (dev (tw s)))) i)" "entry_name (stored (hw (dev (tw s)))) i = nm"
    using assms(5-7) fs_map_Some [OF assms(5)] by (auto simp: file_id_def)
  have e: "file_id C' = file_id (stored (hw (dev (tw s))))" if "C' 2 = stored (hw (dev (tw s))) 2" for C'
    using that by (intro ext file_id_cong)
  show ?thesis
    using tfs_volume.write_ok [OF tfs_disk_intro [OF assms(1-3), of ba] assms(4,5) i(1,2), where datasize = datasize and off = off and bf = buffer]
    unfolding i(4) [symmetric] i(3) [symmetric] i(5) using assms(8) e by blast
qed

theorem tfs_write_correct_witness:
  "\<exists>s fid s'. tfs_write (disk_gbd yio y_finish 0x80001000 0x2000) s fid [1, 2, 3] (int 3) (int 298) = Inr (2, s')
     \<and> fs_map (y_blocks (hw (dev (tw s')))) [97] = Some (replicate 298 0 @ [1, 2])"
proof -
  obtain s where s: "tfs_ready (disk_ready y_idle) 16 s" "fs_ok 16 (y_blocks (hw (dev (tw s))))"
    "fs_map (y_blocks (hw (dev (tw s)))) = [[97] \<mapsto> replicate 300 0]" using ex_file_state by blast
  then obtain fid where fid: "file_id (y_blocks (hw (dev (tw s)))) [97] fid" using file_id_exists by fastforce
  have "put_at (replicate 300 0) 298 (take 2 [1, 2, 3]) = replicate 298 0 @ [1, 2 :: u8]" by (simp add: put_at_def numeral_2_eq_2)
  then show ?thesis
    using tfs_write_correct [OF ydisk.yams_disk_axioms _ _ s(1,2) fid, of "0x80001000" "replicate 300 0" 3 298 "[1, 2, 3]" "0x2000"] s(3)
    by simp (metis fun_upd_same)
qed

text \<open>
  \<^verbatim>\<open>tfs_getfree\<close> returns the size of the blocks that no file uses, in bytes.
\<close>

theorem tfs_getfree_correct:
  assumes "yams_disk io finish idle busy stored nblocks 512" "rq \<noteq> 0" "tb \<le> nblocks"
    and "tfs_ready (disk_ready idle) tb s" "fs_ok tb (stored (hw (dev (tw s))))"
  shows "\<exists>s'. tfs_getfree (disk_gbd io finish rq ba) s = Inr (512 * int (card (fs_free tb (stored (hw (dev (tw s)))))), s')
    \<and> tfs_ready (disk_ready idle) tb s' \<and> tfs_same s s' \<and> stored (hw (dev (tw s'))) = stored (hw (dev (tw s)))"
  by (rule tfs_volume.getfree_ok [OF tfs_disk_intro]) (use assms in simp_all)

theorem tfs_getfree_correct_witness:
  "\<exists>s'. tfs_getfree (disk_gbd yio y_finish 0x80001000 0x2000) ex_tfs = Inr (512 * int (card (fs_free 16 ex_blocks)), s')"
  using tfs_getfree_correct [OF ydisk.yams_disk_axioms, of "0x80001000" 16 ex_tfs "0x2000"] ex_tfs_ready ex_blocks_ok by auto


text \<open>
  \<^verbatim>\<open>tfs_init\<close> recognises a TFS volume: it succeeds exactly when the block size is 512,
  a semaphore for the lock and one for the transfers are available, there is a free page, and
  the header has the magic number. The volume name is then the first 15 characters of the name
  in the header, the filesystem is ready, and \<^verbatim>\<open>tfs_unmount\<close> gives back the semaphore and
  the page. When \<^verbatim>\<open>tfs_init\<close> fails it has given back what it allocated. The disk is not
  changed.
\<close>

theorem tfs_init_correct:
  assumes "yams_disk io finish idle busy stored nblocks bsize" "rq \<noteq> 0" "0 < nblocks"
    and "disk_ready idle (dev w)" "ksem_ok (sems w)" "pp_inv (pool w)" "pp_pages (pool w) \<le> 2 ^ 19"
    and "length page = 4096" "length name = 16" "cstr vn (drop 4 (stored (hw (dev w)) 0))"
  shows "\<exists>r w'. tfs_init (disk_gbd io finish rq ba) w page name = Inr (r, w')
    \<and> disk_ready idle (dev w') \<and> stored (hw (dev w')) = stored (hw (dev w))
    \<and> (if bsize = 512 \<and> two_free (sems w) \<and> pp_free (pool w) \<noteq> {} \<and> rd32 (stored (hw (dev w)) 0) 0 = TFS_MAGIC
       then \<exists>volume_name s. r = Some (volume_name, s) \<and> tw s = w' \<and> cstr (take 15 vn) volume_name
          \<and> tfs_ready (disk_ready idle) (min nblocks 4096) s
          \<and> (\<exists>w''. tfs_unmount s = Inr (VFS_OK, w'') \<and> svals (sems w'') = svals (sems w) \<and> pp_free (pool w'') = pp_free (pool w))
       else r = None \<and> svals (sems w') = svals (sems w) \<and> pp_free (pool w') = pp_free (pool w))"
proof -
  note d = disk_device_intro [OF assms(1,2), of ba]
  show ?thesis
  proof (cases "bsize = 512 \<and> two_free (sems w) \<and> pp_free (pool w) \<noteq> {} \<and> rd32 (stored (hw (dev w)) 0) 0 = TFS_MAGIC")
    case True
    then obtain volume_name s p where "tfs_init (disk_gbd io finish rq ba) w page name = Inr (Some (volume_name, s), tw s)"
      "disk_ready idle (dev (tw s))" "stored (hw (dev (tw s))) = stored (hw (dev w))" "cstr (take 15 vn) volume_name" "tfs_ready (disk_ready idle) (min nblocks 4096) s"
      "svals (sems w) ! lock s = None" "svals (sems (tw s)) = (svals (sems w))[lock s := Some 1]"
      "fs_page s = ADDR_PHYS_TO_KERNEL (page_addr p)" "p \<in> pp_free (pool w)" "pagepool_get_phys_page (pool w) = Inr (page_addr p, pool (tw s))"
      using block_device.init_success [OF d assms(4-9) assms(3,10)] by (auto simp: mountable_def)
    then show ?thesis using True block_device.init_unmount [OF d assms(5-7)] by auto
  next
    case False
    then show ?thesis using block_device.init_fail [OF d assms(4-8) assms(3)] by (auto simp: mountable_def)
  qed
qed

theorem tfs_init_correct_witness:
  "\<exists>volume_name s w'. tfs_init (disk_gbd yio y_finish 0x80001000 0x2000)
     (ex_disk\<lparr>dev := (dev ex_disk)\<lparr>hw := (hw (dev ex_disk))\<lparr>y_blocks := ex_blocks\<rparr>\<rparr>\<rparr>) (replicate 4096 9) (replicate 16 8) =
       Inr (Some (volume_name, s), w') \<and> cstr [100, 105, 115, 107] volume_name"
proof -
  let ?w = "ex_disk\<lparr>dev := (dev ex_disk)\<lparr>hw := (hw (dev ex_disk))\<lparr>y_blocks := ex_blocks\<rparr>\<rparr>\<rparr>"
  have "disk_ready y_idle (dev ?w)" "ksem_ok (sems ?w)"
    by (simp_all add: ex_disk_def disk_ready_def y_idle_def y_sound_def ksem_ok_def ex_blocks_def)
  moreover have "pp_inv (pool ?w)" "pp_pages (pool ?w) \<le> 2 ^ 19" "pp_free (pool ?w) \<noteq> {}"
    using small_pool_inv small_pool_free by (simp_all add: ex_disk_def small_pool_def)
  moreover have "two_free (sems ?w)" unfolding two_free_def ex_disk_def by (rule exI [of _ 0], simp, rule exI [of _ 1], simp)
  moreover have "cstr [100, 105, 115, 107] (drop 4 (ex_blocks 0))"
    using replicate_Suc [of 503 "0 :: u8"] by (simp add: ex_blocks_def del: replicate_Suc)
  moreover have "rd32 (ex_blocks 0) 0 = 3745"
    by (simp add: ex_blocks_def rd32_def word_of_bytes_def)
  ultimately show ?thesis
    using tfs_init_correct [OF ydisk.yams_disk_axioms, of "0x80001000" ?w "replicate 4096 9" "replicate 16 8" "[100, 105, 115, 107]" "0x2000"]
    by auto
qed

end
