(* ===== verification/Vfs_Tfs.thy ===== *)
theory Vfs_Tfs
  imports Vfs_Safe Tfs_Driver
begin

text \<open>
  TFS as a driver of VFS, and the properties of the two together, over the disk driver. The
  resources of the kernel now include the memory where \<^verbatim>\<open>tfs_init\<close> has put its
  structures: \<open>vols\<close> gives for an address the name and the state of the volume there (of which
  the component \<open>tw\<close>, the resources below, is not used: it is supplied at each call).
\<close>

section \<open>Volumes in memory\<close>

record 'd tfs_mem =
  disk :: 'd
  vols :: "u32 \<Rightarrow> (u8 list \<times> 'd tfs_t) option"

definition below :: "'d tfs_mem kworld \<Rightarrow> 'd kworld" where
  "below w = \<lparr>sems = sems w, pool = pool w, dev = disk (dev w)\<rparr>"

definition above :: "'d tfs_mem kworld \<Rightarrow> 'd kworld \<Rightarrow> (u32 \<Rightarrow> (u8 list \<times> 'd tfs_t) option) \<Rightarrow> 'd tfs_mem kworld" where
  "above w b m = \<lparr>sems = sems b, pool = pool b, dev = \<lparr>disk = dev b, vols = m\<rparr>\<rparr>"

definition tfs_at :: "u32 \<Rightarrow> ('d tfs_t \<Rightarrow> ('r \<times> 'd tfs_t) res) \<Rightarrow> 'd tfs_mem kworld \<Rightarrow> ('r \<times> 'd tfs_mem kworld) res" where
  "tfs_at a call w =
     (case vols (dev w) a of
        None \<Rightarrow> Inl Bad_access
      | Some (vol, s) \<Rightarrow>
          rbind (call (s\<lparr>tw := below w\<rparr>)) (\<lambda>(r, s'). Inr (r, above w (tw s') ((vols (dev w))(a := Some (vol, s'\<lparr>tw := tw s\<rparr>))))))"

text \<open>The structure \<^verbatim>\<open>fs_t\<close> that \<^verbatim>\<open>tfs_init\<close> fills in.\<close>

definition tfs_fs :: "'d gbd_t \<Rightarrow> u32 \<Rightarrow> 'd tfs_mem fs_t" where
  "tfs_fs g a =
     \<lparr>volume_name = (\<lambda>w. case vols (dev w) a of None \<Rightarrow> [] | Some (vol, s) \<Rightarrow> vol),
      fs_unmount = (\<lambda>w. case vols (dev w) a of None \<Rightarrow> Inl Bad_access
        | Some (vol, s) \<Rightarrow> rbind (tfs_unmount (s\<lparr>tw := below w\<rparr>)) (\<lambda>(r, b). Inr (r, above w b ((vols (dev w))(a := None))))),
      fs_open = (\<lambda>w fn. tfs_at a (\<lambda>s. tfs_open g s fn) w),
      fs_close = (\<lambda>w fd. tfs_at a (\<lambda>s. tfs_close s fd) w),
      fs_read = (\<lambda>w fd bf n off. rbind (tfs_at a (\<lambda>s. rbind (tfs_read g s fd bf n off) (\<lambda>(r, bf, s). Inr ((r, bf), s))) w)
        (\<lambda>((r, bf), w). Inr (r, bf, w))),
      fs_write = (\<lambda>w fd bf n off. tfs_at a (\<lambda>s. tfs_write g s fd bf n off) w),
      fs_create = (\<lambda>w fn sz. tfs_at a (\<lambda>s. tfs_create g s fn sz) w),
      fs_remove = (\<lambda>w fn. tfs_at a (\<lambda>s. tfs_remove g s fn) w),
      fs_getfree = (\<lambda>w. tfs_at a (\<lambda>s. tfs_getfree g s) w)\<rparr>"

text \<open>The entry of TFS in the table of filesystems; \<open>page\<close> and \<open>name\<close> are uninitialised memory.\<close>

definition tfs_entry :: "u8 list \<Rightarrow> u8 list \<Rightarrow> 'd gbd_t \<Rightarrow> 'd tfs_mem kworld \<Rightarrow> (u32 \<times> 'd tfs_mem kworld) res" where
  "tfs_entry page name g w =
     rbind (tfs_init g (below w) page name) (\<lambda>(r, b).
       case r of None \<Rightarrow> Inr (0, above w b (vols (dev w)))
       | Some (vol, s) \<Rightarrow> Inr (fs_page s, above w b ((vols (dev w))(fs_page s := Some (vol, s)))))"

section \<open>The contract\<close>

definition tfs_live :: "'d tfs_mem kworld \<Rightarrow> u32 set" where
  "tfs_live w = dom (vols (dev w))"

definition tfs_priv :: "'d tfs_mem kworld \<Rightarrow> nat set" where
  "tfs_priv w = {lock s | a vol s. vols (dev w) a = Some (vol, s)}"

definition own_page :: "pagepool \<Rightarrow> u32 \<Rightarrow> bool" where
  "own_page pp a \<longleftrightarrow> (\<exists>p. a = ADDR_PHYS_TO_KERNEL (page_addr p) \<and> p < 2 ^ 19 \<and> p < pp_pages pp \<and> nat (pagepool_static_end pp) \<le> p \<and> p \<notin> pp_free pp)"

text \<open>At most one volume is in memory, on the disk; it is sound and ready for an operation.\<close>

definition tfs_good :: "('d \<Rightarrow> bool) \<Rightarrow> ('d \<Rightarrow> blocks) \<Rightarrow> nat \<Rightarrow> 'd tfs_mem kworld \<Rightarrow> bool" where
  "tfs_good ready content tb w \<longleftrightarrow> ksem_ok (sems w) \<and> ksem_free (sems w) \<and> pp_inv (pool w)
     \<and> (\<forall>a vol s. vols (dev w) a = Some (vol, s) \<longrightarrow> a \<noteq> 0 \<and> dom (vols (dev w)) = {a} \<and> fs_page s = a \<and> own_page (pool w) a
          \<and> tfs_ready ready tb (s\<lparr>tw := below w\<rparr>) \<and> fs_ok tb (content (disk (dev w))))"

definition tfs_view :: "('d \<Rightarrow> blocks) \<Rightarrow> 'd tfs_mem kworld \<Rightarrow> u32 \<Rightarrow> u8 list \<Rightarrow> u8 list option" where
  "tfs_view content w a = (if a \<in> tfs_live w then fs_map (content (disk (dev w))) else Map.empty)"

definition tfs_room :: "('d \<Rightarrow> blocks) \<Rightarrow> nat \<Rightarrow> 'd tfs_mem kworld \<Rightarrow> u32 \<Rightarrow> int \<Rightarrow> bool" where
  "tfs_room content tb w a sz \<longleftrightarrow> sz \<le> 65024 \<and> (\<exists>i < 25. \<not> used (content (disk (dev w))) i)
     \<and> nblk (nat sz) + 1 \<le> card (fs_free tb (content (disk (dev w))))"

definition tfs_fid :: "('d \<Rightarrow> blocks) \<Rightarrow> 'd tfs_mem kworld \<Rightarrow> u32 \<Rightarrow> u8 list \<Rightarrow> int \<Rightarrow> bool" where
  "tfs_fid content w a nm fd \<longleftrightarrow> a \<in> tfs_live w \<and> file_id (content (disk (dev w))) nm fd"

lemma below_simps [simp]: "sems (below w) = sems w" "pool (below w) = pool w" "dev (below w) = disk (dev w)"
  by (simp_all add: below_def)

lemma above_simps [simp]: "sems (above w b m) = sems b" "pool (above w b m) = pool b" "disk (dev (above w b m)) = dev b" "vols (dev (above w b m)) = m"
  by (simp_all add: above_def)

text \<open>
  One operation: what TFS shows of its own state is what VFS needs.
\<close>

lemma tfs_at_ok:
  assumes w: "tfs_good ready content tb w" "a \<in> tfs_live w"
    and call: "\<And>s. tfs_ready ready tb s \<Longrightarrow> fs_ok tb (content (dev (tw s))) \<Longrightarrow> tw s = below w \<Longrightarrow>
      \<exists>r s'. call s = Inr (r, s') \<and> tfs_ready ready tb s' \<and> tfs_same s s' \<and> fs_ok tb (content (dev (tw s')))
        \<and> R r (content (dev (tw s')))"
  shows "\<exists>r w'. tfs_at a call w = Inr (r, w') \<and> fs_kept (tfs_good ready content tb) tfs_live tfs_priv w w' \<and> R r (content (disk (dev w')))"
proof -
  obtain vol s where s: "vols (dev w) a = Some (vol, s)" using w(2) by (auto simp: tfs_live_def)
  then have g: "dom (vols (dev w)) = {a}" "fs_page s = a" "own_page (pool w) a" "a \<noteq> 0" "tfs_ready ready tb (s\<lparr>tw := below w\<rparr>)" "fs_ok tb (content (disk (dev w)))"
    using w(1) by (auto simp: tfs_good_def)
  obtain r s' where s': "call (s\<lparr>tw := below w\<rparr>) = Inr (r, s')" "tfs_ready ready tb s'" "tfs_same (s\<lparr>tw := below w\<rparr>) s'"
    "fs_ok tb (content (dev (tw s')))" "R r (content (dev (tw s')))"
    using call [OF g(5)] g(6) by auto
  let ?w = "above w (tw s') ((vols (dev w))(a := Some (vol, s'\<lparr>tw := tw s\<rparr>)))"
  have v: "vols (dev w) = [a \<mapsto> (vol, s)]" using g(1) s by (auto simp: fun_eq_iff dom_def)
  have sm: "svals (sems (tw s')) = svals (sems w)" "pool (tw s') = pool w" "lock s' = lock s" "fs_page s' = a"
    using s'(3) g(2) by (simp_all add: tfs_same_def)
  have st: "s'\<lparr>tw := tw s, tw := below ?w\<rparr> = s'" by (simp add: below_def)
  have "tfs_good ready content tb ?w"
    using s'(2,4) g(3,4) sm v st w(1) by (auto simp: tfs_good_def tfs_ready_def)
  moreover have "tfs_live ?w = tfs_live w" "tfs_priv ?w = tfs_priv w" using v sm(3) by (auto simp: tfs_live_def tfs_priv_def)
  ultimately show ?thesis using s' s sm(1) by (auto simp: tfs_at_def fs_kept_def)
qed


lemma tfs_frame:
  assumes w: "tfs_good ready content tb w" and i: "i \<notin> tfs_priv w" "ksem_val (sems w) i \<noteq> None"
    and w': "w' = w\<lparr>sems := (sems w)\<lparr>svals := (svals (sems w))[i := Some x]\<rparr>\<rparr>"
  shows "tfs_good ready content tb w' \<and> tfs_live w' = tfs_live w \<and> tfs_priv w' = tfs_priv w
    \<and> tfs_view content w' = tfs_view content w \<and> tfs_fid content w' = tfs_fid content w
    \<and> tfs_room content tb w' = tfs_room content tb w"
proof -
  have d: "dev w' = dev w" "pool w' = pool w" using w' by simp_all
  have k: "ksem_ok (sems w')" using w w' by (simp add: tfs_good_def ksem_ok_def)
  have f: "ksem_free (sems w')"
  proof -
    obtain j where j: "j < length (svals (sems w))" "svals (sems w) ! j = None" using w by (auto simp: tfs_good_def ksem_free_def in_set_conv_nth)
    then have "i \<noteq> j" using i(2) by (auto simp: ksem_val_def)
    then have "svals (sems w') ! j = None" "j < length (svals (sems w'))" using j w' by simp_all
    then show ?thesis unfolding ksem_free_def by (metis nth_mem)
  qed
  have "tfs_ready ready tb (s\<lparr>tw := below w'\<rparr>)" if "vols (dev w) a = Some (vol, s)" for a vol s
  proof -
    have "i \<noteq> lock s" using i(1) that by (auto simp: tfs_priv_def)
    then have "ksem_val (sems w') (lock s) = ksem_val (sems w) (lock s)" using w' by (simp add: ksem_val_def)
    moreover have "tfs_ready ready tb (s\<lparr>tw := below w\<rparr>)" using w that by (auto simp: tfs_good_def)
    ultimately show ?thesis using k f d by (simp add: tfs_ready_def)
  qed
  then have "tfs_good ready content tb w'" using w k f d by (auto simp: tfs_good_def)
  then show ?thesis using d by (simp add: tfs_live_def tfs_priv_def tfs_view_def tfs_fid_def tfs_room_def fun_eq_iff)
qed

lemma tfs_view_at: "a \<in> tfs_live w \<Longrightarrow> tfs_view content w a = fs_map (content (disk (dev w)))"
  by (simp add: tfs_view_def)

lemma tfs_view_upd:
  assumes w: "tfs_good ready content tb w" "a \<in> tfs_live w" "tfs_live w' = tfs_live w"
    and m: "fs_map (content (disk (dev w'))) = m"
  shows "tfs_view content w' = (tfs_view content w)(a := m)"
proof -
  obtain vol s where "vols (dev w) a = Some (vol, s)" using w(2) by (auto simp: tfs_live_def)
  then have "dom (vols (dev w)) = {a}" using w(1) unfolding tfs_good_def by blast
  then have "tfs_live w = {a}" by (simp add: tfs_live_def)
  then show ?thesis using w(3) m by (auto simp: tfs_view_def fun_eq_iff)
qed

lemma tfs_unmount_ok:
  assumes w: "tfs_good ready content tb w" "a \<in> tfs_live w"
  shows "\<exists>w'. fs_unmount (tfs_fs g a) w = Inr (0, w') \<and> tfs_good ready content tb w' \<and> tfs_live w' = tfs_live w - {a}
    \<and> tfs_priv w' \<subseteq> tfs_priv w \<and> (\<forall>b. b \<noteq> a \<longrightarrow> tfs_view content w' b = tfs_view content w b \<and> tfs_fid content w' b = tfs_fid content w b)
    \<and> (\<forall>i. i \<notin> tfs_priv w \<longrightarrow> ksem_val (sems w') i = ksem_val (sems w) i)"
proof -
  obtain vol s where s: "vols (dev w) a = Some (vol, s)" using w(2) by (auto simp: tfs_live_def)
  then have g: "dom (vols (dev w)) = {a}" "fs_page s = a" "own_page (pool w) a" "tfs_ready ready tb (s\<lparr>tw := below w\<rparr>)" "pp_inv (pool w)" "ksem_ok (sems w)"
    using w(1) by (auto simp: tfs_good_def)
  obtain p where p: "a = ADDR_PHYS_TO_KERNEL (page_addr p)" "p < 2 ^ 19" "p < pp_pages (pool w)" "nat (pagepool_static_end (pool w)) \<le> p" "p \<notin> pp_free (pool w)"
    using g(3) by (auto simp: own_page_def)
  obtain pp where pp: "pagepool_free_phys_page (pool w) (page_addr p) = Inr pp" "pp_inv pp" using free_phys_page_ok [OF g(5) p(3-5)] by blast
  have v: "ksem_val (sems w) (lock s) = Some 1" using g(4) by (simp add: tfs_ready_def)
  then have l: "lock s < length (svals (sems w))" by (simp add: ksem_val_def split: if_splits)
  obtain k where k: "ksem_P (sems w) (lock s) = Inr k" "ksem_ok k" "svals k = (svals (sems w))[lock s := Some 0]" using ksem_P_V [OF g(6) v] by auto
  let ?b = "(below w)\<lparr>sems := ksem_destroy k (lock s), pool := pp\<rparr>"
  let ?w = "above w ?b ((vols (dev w))(a := None))"
  have e: "(vols (dev w))(a := None) = Map.empty" using g(1) by (auto simp: fun_eq_iff dom_def)
  have "fs_unmount (tfs_fs g a) w = Inr (0, ?w)"
    using s k(1) pp(1) p(1) page_kernel_phys [OF p(2)] g(2) by (simp add: tfs_fs_def tfs_unmount_def tfs_P_def)
  moreover have "ksem_free (sems ?w)" using l k(3) by (auto simp: ksem_free_def ksem_destroy_def in_set_conv_nth intro!: exI [of _ "lock s"])
  then have "tfs_good ready content tb ?w" using e pp(2) k(2) by (simp add: tfs_good_def ksem_ok_def ksem_destroy_def)
  moreover have "tfs_live ?w = tfs_live w - {a}" "tfs_priv ?w \<subseteq> tfs_priv w" using e g(1) by (auto simp: tfs_live_def tfs_priv_def)
  moreover have "tfs_view content ?w b = tfs_view content w b \<and> tfs_fid content ?w b = tfs_fid content w b" if "b \<noteq> a" for b
    using that e g(1) by (auto simp: tfs_view_def tfs_fid_def tfs_live_def fun_eq_iff)
  moreover have "ksem_val (sems ?w) i = ksem_val (sems w) i" if "i \<notin> tfs_priv w" for i
  proof -
    have "i \<noteq> lock s" using that s by (auto simp: tfs_priv_def)
    then show ?thesis using k(3) by (simp add: ksem_val_def ksem_destroy_def)
  qed
  ultimately show ?thesis by blast
qed


context tfs_disk
begin

abbreviation contents :: "'y disk_real_device_t \<Rightarrow> blocks" where
  "contents d \<equiv> stored (hw d)"

abbreviation gd :: "'y disk_real_device_t tfs_mem kworld \<Rightarrow> bool" where
  "gd \<equiv> tfs_good (disk_ready idle) contents tb"

lemma keptD: "fs_kept gd tfs_live tfs_priv w w' \<Longrightarrow> gd w' \<and> tfs_live w' = tfs_live w"
  by (simp add: fs_kept_def)

lemma view_fid_same:
  "fs_kept gd tfs_live tfs_priv w w' \<Longrightarrow> contents (disk (dev w')) = contents (disk (dev w)) \<Longrightarrow>
    tfs_view contents w' = tfs_view contents w \<and> tfs_fid contents w' = tfs_fid contents w"
  by (auto intro!: ext simp: tfs_view_def tfs_fid_def fs_kept_def)

lemma tfs_open_law:
  assumes w: "gd w" "a \<in> tfs_live w" and nm: "cstr nm fn" "nm \<noteq> []"
  shows "\<exists>r w'. fs_open (tfs_fs (disk_gbd io finish rq ba) a) w fn = Inr (r, w') \<and> fs_kept gd tfs_live tfs_priv w w'
    \<and> tfs_view contents w' = tfs_view contents w \<and> tfs_fid contents w' = tfs_fid contents w
    \<and> (if tfs_view contents w a nm = None then r = -5 else 0 \<le> r \<and> tfs_fid contents w a nm r)"
proof -
  let ?C = "contents (disk (dev w))"
  let ?R = "\<lambda>r C'. C' = ?C \<and> (if fs_map ?C nm = None then r = -5 else 2 < r \<and> file_id ?C nm r)"
  have "\<exists>r s'. tfs_open (disk_gbd io finish rq ba) s fn = Inr (r, s') \<and> tfs_ready (disk_ready idle) tb s' \<and> tfs_same s s'
      \<and> fs_ok tb (contents (dev (tw s'))) \<and> ?R r (contents (dev (tw s')))"
    if "tfs_ready (disk_ready idle) tb s" "fs_ok tb (contents (dev (tw s)))" "tw s = below w" for s
    using open_file_id [OF vol.open_ok [OF that(1,2) nm] that(2)] that(2,3) by auto
  from tfs_at_ok [where R = ?R, OF w this] obtain r w' where
    "tfs_at a (\<lambda>s. tfs_open (disk_gbd io finish rq ba) s fn) w = Inr (r, w')" "fs_kept gd tfs_live tfs_priv w w'" "?R r (contents (disk (dev w')))"
    by blast
  then show ?thesis using view_fid_same [of w w'] w(2) by (auto simp: tfs_fs_def tfs_view_at tfs_fid_def)
qed

lemma tfs_read_law:
  assumes w: "gd w" "a \<in> tfs_live w" and fd: "tfs_fid contents w a nm fd" "tfs_view contents w a nm = Some data"
    and bf: "min n (length data - off) \<le> length bf"
  shows "\<exists>w'. fs_read (tfs_fs (disk_gbd io finish rq ba) a) w fd bf (int n) (int off) =
      Inr (if off \<le> length data then (int (min n (length data - off)), put_at bf 0 (take n (drop off data)), w') else (-2, bf, w'))
    \<and> fs_kept gd tfs_live tfs_priv w w' \<and> tfs_view contents w' = tfs_view contents w \<and> tfs_fid contents w' = tfs_fid contents w"
proof -
  let ?C = "contents (disk (dev w))"
  let ?R = "\<lambda>r C'. C' = ?C \<and> r = (if off \<le> length data then (int (min n (length data - off)), put_at bf 0 (take n (drop off data))) else (-2, bf))"
  obtain i where i: "i < 25" "used ?C i" "entry_name ?C i = nm" "fd = int (inode_of ?C i)" using fd(1) by (auto simp: tfs_fid_def file_id_def)
  have t: "take (min n (length data - off)) (drop off data) = take n (drop off data)"
    by (metis length_drop min.commute take_all_iff min_def nat_le_linear)
  have "\<exists>r s'. rbind (tfs_read (disk_gbd io finish rq ba) s fd bf (int n) (int off)) (\<lambda>(r, bf, s). Inr ((r, bf), s)) = Inr (r, s')
      \<and> tfs_ready (disk_ready idle) tb s' \<and> tfs_same s s' \<and> fs_ok tb (contents (dev (tw s'))) \<and> ?R r (contents (dev (tw s')))"
    if s: "tfs_ready (disk_ready idle) tb s" "fs_ok tb (contents (dev (tw s)))" "tw s = below w" for s
  proof -
    have C: "contents (dev (tw s)) = ?C" using s(3) by simp
    have d: "file_data ?C (inode_of ?C i) = data" using fd(2) fs_map_Some [OF s(2) [unfolded C] i(1-3)] w(2) by (simp add: tfs_view_at)
    from vol.read_ok [OF s(1,2) i(1), unfolded C, OF i(2), of n off bf] bf obtain s' where
      "tfs_read (disk_gbd io finish rq ba) s fd bf (int n) (int off) =
        Inr (if off \<le> length data then (int (min n (length data - off)), put_at bf 0 (take n (drop off data)), s') else (-2, bf, s'))"
      "tfs_ready (disk_ready idle) tb s'" "tfs_same s s'" "contents (dev (tw s')) = ?C" unfolding d t i(4) by auto
    then show ?thesis using s(2) C by auto
  qed
  from tfs_at_ok [where R = ?R, OF w this] obtain w' where
    "tfs_at a (\<lambda>s. rbind (tfs_read (disk_gbd io finish rq ba) s fd bf (int n) (int off)) (\<lambda>(r, bf, s). Inr ((r, bf), s))) w =
      Inr (if off \<le> length data then (int (min n (length data - off)), put_at bf 0 (take n (drop off data))) else (-2, bf), w')"
    "fs_kept gd tfs_live tfs_priv w w'" "contents (disk (dev w')) = ?C" by auto
  then show ?thesis using view_fid_same [of w w'] by (auto simp: tfs_fs_def)
qed

lemma tfs_write_law:
  assumes w: "gd w" "a \<in> tfs_live w" and fd: "tfs_fid contents w a nm fd" "tfs_view contents w a nm = Some data"
    and bf: "min n (length data - off) \<le> length bf"
  shows "\<exists>w'. fs_write (tfs_fs (disk_gbd io finish rq ba) a) w fd bf (int n) (int off) =
      Inr (if off \<le> length data then int (min n (length data - off)) else -2, w')
    \<and> fs_kept gd tfs_live tfs_priv w w' \<and> tfs_fid contents w' = tfs_fid contents w
    \<and> tfs_view contents w' = (tfs_view contents w)(a := (tfs_view contents w a)(nm \<mapsto>
        if off \<le> length data then put_at data off (take (min n (length data - off)) bf) else data))"
proof -
  let ?C = "contents (disk (dev w))"
  let ?R = "\<lambda>r C'. C' 2 = ?C 2 \<and> r = (if off \<le> length data then int (min n (length data - off)) else -2)
    \<and> fs_map C' = (fs_map ?C)(nm \<mapsto> if off \<le> length data then put_at data off (take (min n (length data - off)) bf) else data)"
  obtain i where i: "i < 25" "used ?C i" "entry_name ?C i = nm" "fd = int (inode_of ?C i)" using fd(1) by (auto simp: tfs_fid_def file_id_def)
  have "\<exists>r s'. tfs_write (disk_gbd io finish rq ba) s fd bf (int n) (int off) = Inr (r, s')
      \<and> tfs_ready (disk_ready idle) tb s' \<and> tfs_same s s' \<and> fs_ok tb (contents (dev (tw s'))) \<and> ?R r (contents (dev (tw s')))"
    if s: "tfs_ready (disk_ready idle) tb s" "fs_ok tb (contents (dev (tw s)))" "tw s = below w" for s
  proof -
    have C: "contents (dev (tw s)) = ?C" using s(3) by simp
    have d: "file_data ?C (inode_of ?C i) = data" using fd(2) fs_map_Some [OF s(2) [unfolded C] i(1-3)] w(2) by (simp add: tfs_view_at)
    show ?thesis using vol.write_ok [OF s(1,2) i(1), unfolded C, OF i(2), of n off bf] bf unfolding d i(3) i(4) by auto
  qed
  from tfs_at_ok [where R = ?R, OF w this] obtain w' where
    w': "tfs_at a (\<lambda>s. tfs_write (disk_gbd io finish rq ba) s fd bf (int n) (int off)) w =
      Inr (if off \<le> length data then int (min n (length data - off)) else -2, w')"
    "fs_kept gd tfs_live tfs_priv w w'" "contents (disk (dev w')) 2 = ?C 2"
    "fs_map (contents (disk (dev w'))) = (fs_map ?C)(nm \<mapsto> if off \<le> length data then put_at data off (take (min n (length data - off)) bf) else data)"
    by auto
  have "tfs_fid contents w' = tfs_fid contents w"
    using keptD [OF w'(2)] file_id_cong [of "contents (disk (dev w'))" ?C] w'(3) by (auto simp: tfs_fid_def fun_eq_iff)
  moreover have "tfs_view contents w' = (tfs_view contents w)(a := fs_map (contents (disk (dev w'))))"
    using tfs_view_upd [OF w _ refl] keptD [OF w'(2)] by blast
  ultimately show ?thesis using w' w(2) by (simp add: tfs_fs_def tfs_view_at)
qed


lemma fid_kept:
  assumes "gd w" "a \<in> tfs_live w" "fs_kept gd tfs_live tfs_priv w w'"
    and "\<forall>x f. x \<noteq> nm \<and> file_id (contents (disk (dev w))) x f \<longrightarrow> file_id (contents (disk (dev w'))) x f"
  shows "\<forall>b x f. tfs_fid contents w b x f \<and> (b \<noteq> a \<or> x \<noteq> nm) \<longrightarrow> tfs_fid contents w' b x f"
proof -
  obtain vol s where "vols (dev w) a = Some (vol, s)" using assms(2) by (auto simp: tfs_live_def)
  then have "dom (vols (dev w)) = {a}" using assms(1) unfolding tfs_good_def by blast
  then show ?thesis using assms(4) keptD [OF assms(3)] by (auto simp: tfs_fid_def tfs_live_def)
qed

lemma tfs_create_law:
  assumes w: "gd w" "a \<in> tfs_live w" and nm: "cstr nm fn" "nm \<noteq> []" "length nm \<le> 15" and sz: "0 \<le> sz" "sz < 2 ^ 31"
  shows "\<exists>r w'. fs_create (tfs_fs (disk_gbd io finish rq ba) a) w fn sz = Inr (r, w') \<and> fs_kept gd tfs_live tfs_priv w w'
    \<and> (if tfs_view contents w a nm = None \<and> tfs_room contents tb w a sz
       then r = 0 \<and> tfs_view contents w' = (tfs_view contents w)(a := (tfs_view contents w a)(nm \<mapsto> replicate (nat sz) 0))
       else r < 0 \<and> tfs_view contents w' = tfs_view contents w)
    \<and> (\<forall>b x f. tfs_fid contents w b x f \<longrightarrow> tfs_fid contents w' b x f)"
proof -
  let ?C = "contents (disk (dev w))"
  let ?R = "\<lambda>r C'. (if fs_map ?C nm = None \<and> tfs_room contents tb w a sz then r = 0 \<and> fs_map C' = (fs_map ?C)(nm \<mapsto> replicate (nat sz) 0)
      else r < (0 :: int) \<and> C' = ?C) \<and> (\<forall>x f. file_id ?C x f \<longrightarrow> file_id C' x f)"
  have "\<exists>r s'. tfs_create (disk_gbd io finish rq ba) s fn sz = Inr (r, s') \<and> tfs_ready (disk_ready idle) tb s' \<and> tfs_same s s'
      \<and> fs_ok tb (contents (dev (tw s'))) \<and> ?R r (contents (dev (tw s')))"
    if s: "tfs_ready (disk_ready idle) tb s" "fs_ok tb (contents (dev (tw s)))" "tw s = below w" for s
  proof -
    have C: "contents (dev (tw s)) = ?C" using s(3) by simp
    have eq: "(sz \<le> 65024 \<and> fs_map ?C nm = None \<and> (\<exists>i < 25. \<not> used ?C i) \<and> nblk (nat sz) + 1 \<le> card (fs_free tb ?C))
        \<longleftrightarrow> fs_map ?C nm = None \<and> tfs_room contents tb w a sz" by (auto simp: tfs_room_def)
    obtain r s' where s': "tfs_create (disk_gbd io finish rq ba) s fn sz = Inr (r, s')" "tfs_ready (disk_ready idle) tb s'" "tfs_same s s'"
      "fs_ok tb (contents (dev (tw s')))"
      "if fs_map ?C nm = None \<and> tfs_room contents tb w a sz
       then r = 0 \<and> fs_map (contents (dev (tw s'))) = (fs_map ?C)(nm \<mapsto> replicate (nat sz) 0)
         \<and> (\<forall>x f. x \<noteq> nm \<and> file_id ?C x f \<longrightarrow> file_id (contents (dev (tw s'))) x f)
       else r = -2 \<and> contents (dev (tw s')) = ?C"
      using vol.create_ok [OF s(1,2) nm sz, unfolded C eq] by (elim exE conjE) (rule that)
    have "fs_map ?C nm \<noteq> None" if "file_id ?C nm f" for f using file_id_map [OF s(2), unfolded C, OF that] by simp
    then have "?R r (contents (dev (tw s')))"
      by (cases "fs_map ?C nm = None \<and> tfs_room contents tb w a sz") (use s'(5) in \<open>simp, metis\<close>, use s'(5) in simp)
    then show ?thesis using s'(1-4) by blast
  qed
  from tfs_at_ok [where R = ?R, OF w this] obtain r w' where
    w': "tfs_at a (\<lambda>s. tfs_create (disk_gbd io finish rq ba) s fn sz) w = Inr (r, w')" "fs_kept gd tfs_live tfs_priv w w'" "?R r (contents (disk (dev w')))"
    by blast
  have "tfs_view contents w' = (tfs_view contents w)(a := fs_map (contents (disk (dev w'))))"
    using tfs_view_upd [OF w _ refl] keptD [OF w'(2)] by blast
  moreover have "\<forall>b x f. tfs_fid contents w b x f \<longrightarrow> tfs_fid contents w' b x f"
    using keptD [OF w'(2)] w'(3) by (auto simp: tfs_fid_def)
  ultimately show ?thesis using w' w(2) view_fid_same [OF w'(2)] by (auto simp: tfs_fs_def tfs_view_at split: if_splits)
qed

lemma tfs_remove_law:
  assumes w: "gd w" "a \<in> tfs_live w" and nm: "cstr nm fn" "nm \<noteq> []"
  shows "\<exists>r w'. fs_remove (tfs_fs (disk_gbd io finish rq ba) a) w fn = Inr (r, w') \<and> fs_kept gd tfs_live tfs_priv w w'
    \<and> tfs_view contents w' = (tfs_view contents w)(a := (tfs_view contents w a)(nm := None)) \<and> r = (if tfs_view contents w a nm = None then -5 else 0)
    \<and> (\<forall>b x f. tfs_fid contents w b x f \<and> (b \<noteq> a \<or> x \<noteq> nm) \<longrightarrow> tfs_fid contents w' b x f)"
proof -
  let ?C = "contents (disk (dev w))"
  let ?R = "\<lambda>r C'. fs_map C' = (fs_map ?C)(nm := None) \<and> r = (if fs_map ?C nm = None then -5 else 0 :: int)
      \<and> (\<forall>x f. x \<noteq> nm \<and> file_id ?C x f \<longrightarrow> file_id C' x f)"
  have "\<exists>r s'. tfs_remove (disk_gbd io finish rq ba) s fn = Inr (r, s') \<and> tfs_ready (disk_ready idle) tb s' \<and> tfs_same s s'
      \<and> fs_ok tb (contents (dev (tw s'))) \<and> ?R r (contents (dev (tw s')))"
    if "tfs_ready (disk_ready idle) tb s" "fs_ok tb (contents (dev (tw s)))" "tw s = below w" for s
    using vol.remove_ok [OF that(1,2) nm] that(3) by auto
  from tfs_at_ok [where R = ?R, OF w this] obtain r w' where
    w': "tfs_at a (\<lambda>s. tfs_remove (disk_gbd io finish rq ba) s fn) w = Inr (r, w')" "fs_kept gd tfs_live tfs_priv w w'" "?R r (contents (disk (dev w')))"
    by blast
  have "tfs_view contents w' = (tfs_view contents w)(a := fs_map (contents (disk (dev w'))))"
    using tfs_view_upd [OF w _ refl] keptD [OF w'(2)] by blast
  moreover have "\<forall>b x f. tfs_fid contents w b x f \<and> (b \<noteq> a \<or> x \<noteq> nm) \<longrightarrow> tfs_fid contents w' b x f"
    by (rule fid_kept [OF w w'(2)]) (use w'(3) in blast)
  ultimately show ?thesis using w' w(2) by (simp add: tfs_fs_def tfs_view_at)
qed

lemma tfs_getfree_law:
  assumes w: "gd w" "a \<in> tfs_live w"
  shows "\<exists>r w'. fs_getfree (tfs_fs (disk_gbd io finish rq ba) a) w = Inr (r, w') \<and> fs_kept gd tfs_live tfs_priv w w'
    \<and> tfs_view contents w' = tfs_view contents w \<and> tfs_fid contents w' = tfs_fid contents w \<and> 0 \<le> r"
proof -
  let ?C = "contents (disk (dev w))"
  let ?R = "\<lambda>r C'. C' = ?C \<and> 0 \<le> (r :: int)"
  have "\<exists>r s'. tfs_getfree (disk_gbd io finish rq ba) s = Inr (r, s') \<and> tfs_ready (disk_ready idle) tb s' \<and> tfs_same s s'
      \<and> fs_ok tb (contents (dev (tw s'))) \<and> ?R r (contents (dev (tw s')))"
    if "tfs_ready (disk_ready idle) tb s" "fs_ok tb (contents (dev (tw s)))" "tw s = below w" for s
    using vol.getfree_ok [OF that(1,2)] that(2,3) by auto
  from tfs_at_ok [where R = ?R, OF w this] show ?thesis using view_fid_same [of w] by (auto simp: tfs_fs_def)
qed

lemma tfs_close_law: "a \<in> tfs_live w \<Longrightarrow> fs_close (tfs_fs g a) w fd = Inr (0, w)"
proof -
  assume "a \<in> tfs_live w"
  then obtain vol s where s: "vols (dev w) a = Some (vol, s)" by (auto simp: tfs_live_def)
  have "above w (below w) (vols (dev w)) = w" by (simp add: above_def)
  then show ?thesis using s map_upd_triv [of "vols (dev w)" a] by (simp add: tfs_fs_def tfs_at_def tfs_close_def)
qed

end

sublocale tfs_disk \<subseteq> vfs: fs_driver "tfs_fs (disk_gbd io finish rq ba)" gd tfs_live tfs_priv "tfs_view contents" "tfs_fid contents"
    "tfs_room contents tb"
proof (unfold_locales, goal_cases)
  case (1 w i w' x)
  then show ?case by (intro tfs_frame)
next
  case (2 w)
  then show ?case by (auto simp: tfs_live_def tfs_good_def)
next
  case (3 w a nm fd)
  then obtain vol s where "vols (dev w) a = Some (vol, s)" by (auto simp: tfs_fid_def tfs_live_def)
  then have "fs_ok tb (contents (disk (dev w)))" using 3(1) by (auto simp: tfs_good_def)
  from file_id_map [OF this] 3(2) show ?case by (auto simp: tfs_fid_def tfs_view_def)
next
  case (4 w a nm fn)
  then show ?case by (intro tfs_open_law)
next
  case (5 w a fd)
  then show ?case by (intro tfs_close_law)
next
  case (6 w a nm fd data n off bf)
  then show ?case by (intro tfs_read_law)
next
  case (7 w a nm fd data n off bf)
  then show ?case by (intro tfs_write_law)
next
  case (8 w a nm fn sz)
  then show ?case by (intro tfs_create_law)
next
  case (9 w a nm fn)
  then show ?case by (intro tfs_remove_law)
next
  case (10 w a)
  then show ?case by (intro tfs_getfree_law)
next
  case (11 w a)
  then show ?case by (intro tfs_unmount_ok)
qed


section \<open>Starting up\<close>

definition free_sems :: "ksems \<Rightarrow> nat set" where
  "free_sems k = {i. i < 128 \<and> svals k ! i = None}"

lemma finite_free_sems [simp]: "finite (free_sems k)"
  by (simp add: free_sems_def)

lemma free_sems_free: "ksem_ok k \<Longrightarrow> ksem_free k \<longleftrightarrow> free_sems k \<noteq> {}"
  by (auto simp: ksem_free_def free_sems_def ksem_ok_def in_set_conv_nth)

lemma two_free_card: "two_free k \<longleftrightarrow> 2 \<le> card (free_sems k)"
proof -
  have "two_free k \<longleftrightarrow> (\<exists>i \<in> free_sems k. \<exists>j \<in> free_sems k. i \<noteq> j)" by (auto simp: two_free_def free_sems_def)
  also have "\<dots> \<longleftrightarrow> \<not> card (free_sems k) \<le> 1" by (simp add: card_le_Suc0_iff_eq)
  finally show ?thesis by linarith
qed

lemma ksem_create_one:
  assumes "ksem_ok k" "free_sems k \<noteq> {}"
  shows "\<exists>i k'. ksem_create k v = (Some i, k') \<and> i \<in> free_sems k \<and> ksem_ok k' \<and> svals k' = (svals k)[i := Some v]
    \<and> free_sems k' = free_sems k - {i} \<and> ksem_val k' i = Some v \<and> (\<forall>j. j \<notin> free_sems k \<longrightarrow> ksem_val k' j = ksem_val k j)"
proof -
  obtain i k' where k: "ksem_create k v = (Some i, k')" "i < 128" "svals k ! i = None" "ksem_ok k'" "svals k' = (svals k)[i := Some v]"
    using ksem_create_free [OF assms(1)] assms free_sems_free by blast
  have "length (svals k) = 128" using assms(1) by (simp add: ksem_ok_def)
  then show ?thesis using k by (auto simp: free_sems_def ksem_val_def nth_list_update)
qed

lemma kernel_addr_nonzero: "ADDR_PHYS_TO_KERNEL a \<noteq> 0"
proof
  assume "ADDR_PHYS_TO_KERNEL a = 0"
  then have "bit (a OR 0x80000000) 31 = bit (0 :: u32) 31" by (simp add: ADDR_PHYS_TO_KERNEL_def)
  then show False by (simp add: bit_or_iff bit_numeral_rec)
qed

lemma own_page_got:
  assumes "pp_inv pp" "p \<in> pp_free pp" "pagepool_get_phys_page pp = Inr (page_addr p, pp')" "pp_pages pp \<le> 2 ^ 19"
  shows "own_page pp' (ADDR_PHYS_TO_KERNEL (page_addr p)) \<and> pp_inv pp'"
proof -
  obtain q where q: "page_addr q = page_addr p" "q \<in> pp_free pp" "pp_inv pp'" "pp_free pp' = pp_free pp - {q}"
    using get_phys_page_some [OF assms(1)] assms(2,3) by fastforce
  then have "q = p" using page_addr_inj pp_free_bounds [OF assms(1)] assms(2) by blast
  moreover have "p < pp_pages pp" "nat (pagepool_static_end pp) \<le> p"
    using assms(1,2) by (auto simp: pp_free_iff pp_inv_def not_less [symmetric])
  ultimately show ?thesis using q get_phys_page_frame [OF assms(3)] assms(4) by (auto simp: own_page_def)
qed

context tfs_disk
begin

lemma tfs_entry_ok:
  assumes w: "gd w" "vols (dev w) = Map.empty" "disk_ready idle (disk (dev w))" "pp_pages (pool w) \<le> 2 ^ 19"
    and l: "length page = 4096" "length name = 16" "0 < nblocks" "tb = min nblocks 4096"
    and c: "cstr vn (drop 4 (contents (disk (dev w)) 0))" "mountable contents 512 (below w)" "fs_ok tb (contents (disk (dev w)))"
  shows "\<exists>a w' i. tfs_entry page name (disk_gbd io finish rq ba) w = Inr (a, w') \<and> a \<noteq> 0 \<and> gd w' \<and> tfs_live w' = {a}
    \<and> tfs_priv w' = {i} \<and> i < 128 \<and> svals (sems w) ! i = None \<and> svals (sems w') = (svals (sems w))[i := Some 1]
    \<and> contents (disk (dev w')) = contents (disk (dev w)) \<and> cstr (take 15 vn) (volume_name (tfs_fs (disk_gbd io finish rq ba) a) w')"
proof -
  have b: "disk_ready idle (dev (below w))" "ksem_ok (sems (below w))" "pp_inv (pool (below w))" "pp_pages (pool (below w)) \<le> 2 ^ 19"
    "cstr vn (drop 4 (contents (dev (below w)) 0))" using w c(1) by (simp_all add: tfs_good_def)
  obtain vn' s p where i: "tfs_init (disk_gbd io finish rq ba) (below w) page name = Inr (Some (vn', s), tw s)"
    "contents (dev (tw s)) = contents (disk (dev w))" "cstr (take 15 vn) vn'" "tfs_ready (disk_ready idle) tb s"
    "lock s < 128" "svals (sems w) ! lock s = None" "svals (sems (tw s)) = (svals (sems w))[lock s := Some 1]"
    "fs_page s = ADDR_PHYS_TO_KERNEL (page_addr p)" "p \<in> pp_free (pool w)" "pagepool_get_phys_page (pool w) = Inr (page_addr p, pool (tw s))"
    using gbd.init_success [OF b(1-4) l(1-3) b(5) c(2)] l(4) by auto
  let ?w = "above w (tw s) ((vols (dev w))(fs_page s := Some (vn', s)))"
  have st: "s\<lparr>tw := below ?w\<rparr> = s" by (simp add: below_def)
  have pg: "own_page (pool (tw s)) (fs_page s)" "pp_inv (pool (tw s))" "fs_page s \<noteq> 0"
    using own_page_got [OF b(3) _ _ b(4)] i(8-10) kernel_addr_nonzero by auto
  have g: "gd ?w" using i(2,4) pg w(2) st c(3) by (auto simp: tfs_good_def tfs_ready_def)
  moreover have "tfs_live ?w = {fs_page s}" "tfs_priv ?w = {lock s}" using w(2) by (auto simp: tfs_live_def tfs_priv_def)
  moreover have "tfs_entry page name (disk_gbd io finish rq ba) w = Inr (fs_page s, ?w)" using i(1) by (simp add: tfs_entry_def)
  ultimately show ?thesis using i(2,3,5-7) pg(3)
    by (intro exI [of _ "fs_page s"] exI [of _ ?w] exI [of _ "lock s"]) (simp add: tfs_fs_def)
qed


lemma vfs_mount_fs_ok:
  assumes v: "vfs.vfs_ok v" and w: "vols (dev (vk v)) = Map.empty" "disk_ready idle (disk (dev (vk v)))" "pp_pages (pool (vk v)) \<le> 2 ^ 19"
    and l: "length page = 4096" "length name = 16" "0 < nblocks" "tb = min nblocks 4096"
    and c: "cstr vn (drop 4 (contents (disk (dev (vk v))) 0))" "mountable contents 512 (below (vk v))" "fs_ok tb (contents (disk (dev (vk v))))"
    and n: "vn \<noteq> []" "0 \<in> e_filesystem ` set (filesystems v)" "take 15 vn \<notin> mname ` set (filesystems v)"
  shows "\<exists>a v'. vfs_mount_fs (tfs_fs (disk_gbd io finish rq ba)) [tfs_entry page name] v (disk_gbd io finish rq ba) None = Inr (0, v')
    \<and> vfs.vfs_ok v' \<and> vfs_ops v' = vfs_ops v \<and> files v' = files v \<and> mounted v' = (mounted v)(take 15 vn \<mapsto> a)
    \<and> tfs_view contents (vk v') a = fs_map (contents (disk (dev (vk v)))) \<and> contents (disk (dev (vk v'))) = contents (disk (dev (vk v)))"
proof -
  note lk = vfs_locksD [OF vfs.vfs_okD(1) [OF v]]
  obtain a w' i where e: "tfs_entry page name (disk_gbd io finish rq ba) (vk v) = Inr (a, w')" "a \<noteq> 0" "gd w'" "tfs_live w' = {a}"
    "tfs_priv w' = {i}" "i < 128" "svals (sems (vk v)) ! i = None" "svals (sems w') = (svals (sems (vk v)))[i := Some 1]"
    "contents (disk (dev w')) = contents (disk (dev (vk v)))" "cstr (take 15 vn) (volume_name (tfs_fs (disk_gbd io finish rq ba) a) w')"
    using tfs_entry_ok [OF vfs.vfs_okD(4) [OF v] w l c] by blast
  let ?v = "v\<lparr>vk := w'\<rparr>"
  have dead: "tfs_live (vk v) = {}" using w(1) by (simp add: tfs_live_def)
  have other: "sem_val ?v sm = Some x \<and> sm \<noteq> Some i" if "sem_val v sm = Some x" for sm x
  proof -
    note sv = that
    obtain j where j: "sm = Some j" "j < length (svals (sems (vk v)))" "svals (sems (vk v)) ! j = Some x"
      using sv by (auto simp: sem_val_def ksem_val_def split: option.splits if_splits)
    then have "j \<noteq> i" using e(7) by auto
    then show ?thesis using j e(8) by (simp add: sem_val_def ksem_val_def)
  qed
  have "vfs_locks ?v" using vfs.vfs_okD(1) [OF v] lk(1-4)[THEN other] by (simp add: vfs_locks_def)
  moreover have "{vfs_table_sem v, openfile_table_sem v, vfs_op_sem v, vfs_unmount_sem v} \<inter> Some ` tfs_priv w' = {}"
    using lk(1-4)[THEN other] e(5) by simp
  moreover have z: "\<forall>e \<in> set (filesystems v). e_filesystem e = 0" "\<forall>f \<in> set (files v). o_filesystem f = 0"
    using v dead by (auto simp: vfs_wf_def)
  ultimately have ok: "vfs.vfs_ok ?v" using v e(3) by (simp add: vfs_wf_def)
  have nm: "take 15 vn \<noteq> []" "length (take 15 vn) \<le> 15" using n(1) by simp_all
  have f: "a \<in> tfs_live (vk ?v)" "a \<notin> e_filesystem ` set (filesystems ?v)" using e(2,4) z by auto
  obtain v' where v': "vfs_mount ?v a (volume_name (tfs_fs (disk_gbd io finish rq ba) a) w') = Inr (0, v')" "vfs.vfs_ok v'" "vfs_ops v' = vfs_ops v"
    "files v' = files v" "vk v' = w'" "mounted v' = (mounted v)(take 15 vn \<mapsto> a)"
    using vfs.mount_ok [OF ok e(10) nm e(2) f] n(2,3) by auto
  have "aget (volume_name (tfs_fs (disk_gbd io finish rq ba) a) w') 0 = Inr (hd (take 15 vn))" "hd (take 15 vn) \<noteq> 0"
    using cstr_aget [OF e(10)] nm(1) cstr_zero [OF e(10)] by (cases "take 15 vn"; auto)+
  then have "vfs_mount_fs (tfs_fs (disk_gbd io finish rq ba)) [tfs_entry page name] v (disk_gbd io finish rq ba) None = Inr (0, v')"
    using e(1,2) v'(1) by (simp add: vfs_mount_fs_def Let_def)
  then show ?thesis using v' e(4,9) by (auto simp: tfs_view_def)
qed

end

text \<open>The state of VFS when the kernel starts: static memory is zero.\<close>

definition vfs_static :: "'x vfs_t \<Rightarrow> bool" where
  "vfs_static v \<longleftrightarrow> filesystems v = replicate 8 \<lparr>e_filesystem = 0, mountpoint = replicate 16 0\<rparr>
     \<and> files v = replicate 512 \<lparr>o_filesystem = 0, fileid = 0, seek_position = 0\<rparr>"

lemma cstr_zeros: "cstr [] (replicate (Suc n) 0)"
  by (simp add: cstr_def)

lemma mname_zeros: "mname \<lparr>e_filesystem = a, mountpoint = replicate n 0\<rparr> = []"
  by (cases n) (simp_all add: mname_def)

lemma sem_create_eq:
  "ksem_create (sems (vk v)) x = (Some i, k) \<Longrightarrow> sem_create x v = (Some i, v\<lparr>vk := (vk v)\<lparr>sems := k\<rparr>\<rparr>)"
  by (simp add: sem_create_def)

lemma vfs_init_ok:
  assumes v: "vfs_static v" "vols (dev (vk v)) = Map.empty" "ksem_ok (sems (vk v))" "pp_inv (pool (vk v))"
    and free: "6 \<le> card (free_sems (sems (vk v)))"
  shows "\<exists>v'. vfs_init v = Inr v' \<and> vfs_wf (tfs_good ready content tb) tfs_live tfs_priv v' \<and> filesystems v' = filesystems v
    \<and> files v' = files v \<and> vfs_ops v' = 0 \<and> pool (vk v') = pool (vk v) \<and> dev (vk v') = dev (vk v) \<and> two_free (sems (vk v'))"
proof -
  let ?k = "sems (vk v)"
  have ne: "A \<noteq> {}" if "n \<le> card A" "0 < n" for n and A :: "nat set" using that by auto
  obtain i1 k1 where k1: "ksem_create ?k 1 = (Some i1, k1)" "i1 \<in> free_sems ?k" "ksem_ok k1" "free_sems k1 = free_sems ?k - {i1}"
    "ksem_val k1 i1 = Some 1" using ksem_create_one [OF v(3) ne [OF free], of 1] by auto
  have f1: "5 \<le> card (free_sems k1)" using k1 free by simp
  obtain i2 k2 where k2: "ksem_create k1 1 = (Some i2, k2)" "i2 \<in> free_sems k1" "ksem_ok k2" "free_sems k2 = free_sems k1 - {i2}"
    "ksem_val k2 i2 = Some 1" "\<forall>j. j \<notin> free_sems k1 \<longrightarrow> ksem_val k2 j = ksem_val k1 j" using ksem_create_one [OF k1(3) ne [OF f1], of 1] by auto
  have f2: "4 \<le> card (free_sems k2)" using k2 f1 by simp
  obtain i3 k3 where k3: "ksem_create k2 1 = (Some i3, k3)" "i3 \<in> free_sems k2" "ksem_ok k3" "free_sems k3 = free_sems k2 - {i3}"
    "ksem_val k3 i3 = Some 1" "\<forall>j. j \<notin> free_sems k2 \<longrightarrow> ksem_val k3 j = ksem_val k2 j" using ksem_create_one [OF k2(3) ne [OF f2], of 1] by auto
  have f3: "3 \<le> card (free_sems k3)" using k3 f2 by simp
  obtain i4 k4 where k4: "ksem_create k3 0 = (Some i4, k4)" "i4 \<in> free_sems k3" "ksem_ok k4" "free_sems k4 = free_sems k3 - {i4}"
    "ksem_val k4 i4 = Some 0" "\<forall>j. j \<notin> free_sems k3 \<longrightarrow> ksem_val k4 j = ksem_val k3 j" using ksem_create_one [OF k3(3) ne [OF f3], of 0] by auto
  have f4: "2 \<le> card (free_sems k4)" using k4 f3 by simp
  have z: "map (\<lambda>e. e\<lparr>e_filesystem := 0\<rparr>) (filesystems v) = filesystems v" "map (\<lambda>f. f\<lparr>o_filesystem := 0\<rparr>) (files v) = files v"
    using v(1) by (simp_all add: vfs_static_def)
  let ?v = "v\<lparr>vk := (vk v)\<lparr>sems := k4\<rparr>, vfs_table_sem := Some i1, openfile_table_sem := Some i2, vfs_op_sem := Some i3, vfs_unmount_sem := Some i4,
    vfs_ops := 0, vfs_usable := 1\<rparr>"
  have "vfs_init v = Inr ?v"
    using k1(1) k2(1) k3(1) k4(1) z by (cases v) (simp add: vfs_init_def sem_create_def Let_def)
  moreover have vals: "ksem_val k4 i1 = Some 1" "ksem_val k4 i2 = Some 1" "ksem_val k4 i3 = Some 1"
    using k1 k2 k3 k4 by auto
  moreover have "distinct [i1, i2, i3, i4]" using k1 k2 k3 k4 by auto
  ultimately have "vfs_locks ?v" using k4(5) by (simp add: vfs_locks_def sem_val_def)
  moreover have "mounts_ok ?v" using v(1) cstr_zeros [of 15] by (simp add: vfs_static_def mounts_ok_def mname_zeros)
  moreover have "tfs_good ready content tb (vk ?v)" "tfs_priv (vk ?v) = {}"
    using v(2,4) k4(3) f4 free_sems_free [OF k4(3)] by (auto simp: tfs_good_def tfs_priv_def)
  ultimately have "vfs_wf (tfs_good ready content tb) tfs_live tfs_priv ?v" using v(1) by (simp add: vfs_wf_def vfs_static_def)
  then show ?thesis using \<open>vfs_init v = Inr ?v\<close> f4 by (intro exI [of _ ?v]) (simp add: two_free_card)
qed

end
