(* ===== verification/Files.thy ===== *)
theory Files
  imports Vfs_Tfs
begin

text \<open>
  The files of the kernel: the properties of the virtual filesystem over TFS over the disk
  driver. The disk is a parameter that keeps the contract \<open>yams_disk\<close>; \<open>yio\<close> is one.
\<close>

text \<open>The abbreviations name the state of VFS when the drivers below it are those of the kernel.\<close>

abbreviation files_ok where
  "files_ok idle stored tb \<equiv> vfs_wf (tfs_good (disk_ready idle) (\<lambda>d. stored (hw d)) tb) tfs_live tfs_priv"

abbreviation files_inv where
  "files_inv idle stored tb \<equiv> vfs_inv (tfs_good (disk_ready idle) (\<lambda>d. stored (hw d)) tb) tfs_live tfs_priv (tfs_fid (\<lambda>d. stored (hw d)))"

abbreviation files_view where
  "files_view stored v \<equiv> tfs_view (\<lambda>d. stored (hw d)) (vk v)"

abbreviation file_open where
  "file_open stored \<equiv> vfs_handle (tfs_fid (\<lambda>d. stored (hw d)))"

lemma tfs_disk_pred:
  "yams_disk io finish idle busy stored nblocks 512 \<Longrightarrow> rq \<noteq> 0 \<Longrightarrow> tb \<le> nblocks \<Longrightarrow> tfs_disk io finish idle busy stored nblocks rq tb"
  by (intro tfs_disk.intro disk_client.intro disk_client_axioms.intro tfs_disk_axioms.intro)

context tfs_disk
begin

lemma driver: "fs_driver (tfs_fs (disk_gbd io finish rq ba)) gd tfs_live tfs_priv (tfs_view contents) (tfs_fid contents) (tfs_room contents tb)"
  by (rule vfs.fs_driver_axioms)

end

lemmas files_driver = tfs_disk.driver [OF tfs_disk_pred]

section \<open>An example\<close>

text \<open>A machine with a formatted disk of sixteen blocks, as it starts.\<close>

definition ex_boot :: "ydisk disk_real_device_t tfs_mem vfs_t" where
  "ex_boot =
     \<lparr>vk = \<lparr>sems = sems ex_disk, pool = small_pool,
        dev = \<lparr>disk = (dev ex_disk)\<lparr>hw := (hw (dev ex_disk))\<lparr>y_blocks := ex_blocks\<rparr>\<rparr>, vols = Map.empty\<rparr>\<rparr>,
      vfs_table_sem = None, filesystems = replicate 8 \<lparr>e_filesystem = 0, mountpoint = replicate 16 0\<rparr>,
      openfile_table_sem = None, files = replicate 512 \<lparr>o_filesystem = 0, fileid = 0, seek_position = 0\<rparr>,
      vfs_op_sem = None, vfs_unmount_sem = None,
      vfs_ops = 0, vfs_usable = 0\<rparr>"

lemma ex_boot_static:
  "vfs_static ex_boot" "vols (dev (vk ex_boot)) = Map.empty" "ksem_ok (sems (vk ex_boot))" "pp_inv (pool (vk ex_boot))"
  "6 \<le> card (free_sems (sems (vk ex_boot)))" "disk_ready y_idle (disk (dev (vk ex_boot)))" "pp_pages (pool (vk ex_boot)) \<le> 2 ^ 19"
  "pp_free (pool (vk ex_boot)) \<noteq> {}" "y_blocks (hw (disk (dev (vk ex_boot)))) = ex_blocks"
proof -
  have "free_sems (sems (vk ex_boot)) = {0..<128}" by (auto simp: free_sems_def ex_boot_def ex_disk_def)
  then show "6 \<le> card (free_sems (sems (vk ex_boot)))" by simp
qed (use small_pool_inv small_pool_free in \<open>simp_all add: vfs_static_def ex_boot_def ex_disk_def ksem_ok_def disk_ready_def y_idle_def
    y_sound_def ex_blocks_def small_pool_def\<close>)

section \<open>Booting\<close>

lemma boot_ok:
  assumes "yams_disk io finish idle busy stored nblocks 512" "rq \<noteq> 0" "tb = min nblocks 4096"
    and "vfs_static v" "vols (dev (vk v)) = Map.empty" "ksem_ok (sems (vk v))" "pp_inv (pool (vk v))"
    and "6 \<le> card (free_sems (sems (vk v)))" "pp_free (pool (vk v)) \<noteq> {}" "pp_pages (pool (vk v)) \<le> 2 ^ 19"
    and "disk_ready idle (disk (dev (vk v)))" "fs_ok tb (stored (hw (disk (dev (vk v)))))"
    and "rd32 (stored (hw (disk (dev (vk v)))) 0) 0 = TFS_MAGIC" "cstr vn (drop 4 (stored (hw (disk (dev (vk v)))) 0))" "vn \<noteq> []"
    and "length page = 4096" "length name = 16"
  shows "\<exists>v0 a v'. vfs_init v = Inr v0
    \<and> vfs_mount_fs (tfs_fs (disk_gbd io finish rq ba)) [tfs_entry page name] v0 (disk_gbd io finish rq ba) None = Inr (VFS_OK, v')
    \<and> files_inv idle stored tb v' \<and> mounted v' = [take 15 vn \<mapsto> a]
    \<and> files_view stored v' a = fs_map (stored (hw (disk (dev (vk v)))))
    \<and> stored (hw (disk (dev (vk v')))) = stored (hw (disk (dev (vk v)))) \<and> files v' = files v \<and> vfs_ops v' = 0"
proof -
  have tb: "tb \<le> nblocks" "0 < nblocks" using assms(3,12) fs_okD(1) [OF assms(12)] by simp_all
  note T = tfs_disk_pred [OF assms(1,2) tb(1)]
  obtain v0 where v0: "vfs_init v = Inr v0" "files_ok idle stored tb v0" "filesystems v0 = filesystems v" "files v0 = files v" "vfs_ops v0 = 0"
    "pool (vk v0) = pool (vk v)" "dev (vk v0) = dev (vk v)" "two_free (sems (vk v0))"
    using vfs_init_ok [OF assms(4-8)] by blast
  have row: "0 \<in> e_filesystem ` set (filesystems v0)" "take 15 vn \<notin> mname ` set (filesystems v0)" "mounted v0 = Map.empty"
    using assms(4,15) v0(3) by (auto simp: vfs_static_def mname_zeros mounted_def find_as_index fun_eq_iff)
  have m: "mountable (\<lambda>d. stored (hw d)) 512 (below (vk v0))" using v0(6-8) assms(9,13) by (simp add: mountable_def)
  obtain a v' where v': "vfs_mount_fs (tfs_fs (disk_gbd io finish rq ba)) [tfs_entry page name] v0 (disk_gbd io finish rq ba) None = Inr (0, v')"
    "files_ok idle stored tb v'" "vfs_ops v' = vfs_ops v0" "files v' = files v0" "mounted v' = (mounted v0)(take 15 vn \<mapsto> a)"
    "files_view stored v' a = fs_map (stored (hw (disk (dev (vk v0)))))" "stored (hw (disk (dev (vk v')))) = stored (hw (disk (dev (vk v0))))"
    using tfs_disk.vfs_mount_fs_ok [OF T v0(2) _ _ _ assms(16,17) tb(2) assms(3) _ m _ assms(15) row(1,2), of ba] v0(6,7) assms(5,10-12,14) by auto
  have "files_inv idle stored tb v'" using v'(2,4) v0(4) assms(4) by (simp add: vfs_inv_def vfs_static_def)
  then show ?thesis using v0 v' row(3) by auto
qed

lemma ex_header: "cstr [100, 105, 115, 107] (drop 4 (ex_blocks 0))" "rd32 (ex_blocks 0) 0 = 3745"
  using replicate_Suc [of 503 "0 :: u8"] by (simp_all add: ex_blocks_def rd32_def word_of_bytes_def del: replicate_Suc)

text \<open>The example after boot, and with a file of 300 bytes that is open.\<close>

definition ex_mounted :: "ydisk disk_real_device_t tfs_mem vfs_t \<Rightarrow> u32 \<Rightarrow> bool" where
  "ex_mounted v a \<longleftrightarrow> files_inv y_idle y_blocks 16 v \<and> mounted v = [[100, 105, 115, 107] \<mapsto> a] \<and> vfs_ops v = 0"

lemma ex_booted: "\<exists>v a. ex_mounted v a \<and> files_view y_blocks v a = Map.empty \<and> files v = replicate 512 \<lparr>o_filesystem = 0, fileid = 0, seek_position = 0\<rparr>
    \<and> tfs_room (\<lambda>d. y_blocks (hw d)) 16 (vk v) a 300"
proof -
  obtain v a where v: "files_inv y_idle y_blocks 16 v" "mounted v = [[100, 105, 115, 107] \<mapsto> a]" "files_view y_blocks v a = Map.empty"
    "y_blocks (hw (disk (dev (vk v)))) = ex_blocks" "files v = files ex_boot" "vfs_ops v = 0"
    using boot_ok [OF ydisk.yams_disk_axioms, of "0x80001000" 16 ex_boot "[100, 105, 115, 107]" "replicate 4096 9" "replicate 16 8" "0x2000"]
      ex_boot_static ex_blocks_ok ex_header by auto
  have "tfs_room (\<lambda>d. y_blocks (hw d)) 16 (vk v) a 300" using v(4) ex_create_fits by (simp add: tfs_room_def)
  then show ?thesis using v by (intro exI [of _ v] exI [of _ a]) (simp add: ex_mounted_def ex_boot_def)
qed

text \<open>\<open>[disk]a\<close> is the name of a file.\<close>

abbreviation ex_path :: "u8 list" where
  "ex_path \<equiv> [91, 100, 105, 115, 107, 93, 97, 0]"

lemma ex_path: "cstr [91, 100, 105, 115, 107, 93, 97] ex_path" "split_path [91, 100, 105, 115, 107, 93, 97] = Some ([100, 105, 115, 107], [97])"
  by (simp_all add: cstr_def split_path_def)

lemma ex_created: "\<exists>v a. ex_mounted v a \<and> files_view y_blocks v a = [[97] \<mapsto> replicate 300 0] \<and> files v = replicate 512 \<lparr>o_filesystem = 0, fileid = 0, seek_position = 0\<rparr>"
proof -
  obtain v a where v: "ex_mounted v a" "files_view y_blocks v a = Map.empty" "files v = replicate 512 \<lparr>o_filesystem = 0, fileid = 0, seek_position = 0\<rparr>"
    "tfs_room (\<lambda>d. y_blocks (hw d)) 16 (vk v) a 300" using ex_booted by blast
  have w: "files_ok y_idle y_blocks 16 v" using v(1) by (simp add: ex_mounted_def vfs_inv_def)
  obtain v' where v': "files_ok y_idle y_blocks 16 v'" "vfs_ops v' = vfs_ops v" "filesystems v' = filesystems v" "files v' = files v"
    "files_view y_blocks v' = (files_view y_blocks v)(a := (files_view y_blocks v a)([97] \<mapsto> replicate 300 0))"
    using yvol.vfs.create_ok [OF w ex_path(1), of "replicate 16 0" "replicate 16 0" 300] v(1,2,4) ex_path(2) by (auto simp: ex_mounted_def)
  have "mounted v' = mounted v" using v'(3) by (simp add: mounted_def fun_eq_iff)
  then show ?thesis using v v' by (intro exI [of _ v'] exI [of _ a]) (simp add: ex_mounted_def vfs_inv_def)
qed

lemma ex_opened: "\<exists>v a. ex_mounted v a \<and> files_view y_blocks v a = [[97] \<mapsto> replicate 300 0] \<and> file_open y_blocks v 0 a [97] 0"
proof -
  obtain v a where v: "ex_mounted v a" "files_view y_blocks v a = [[97] \<mapsto> replicate 300 0]" "files v = replicate 512 \<lparr>o_filesystem = 0, fileid = 0, seek_position = 0\<rparr>"
    using ex_created by blast
  have w: "files_ok y_idle y_blocks 16 v" using v(1) by (simp add: ex_mounted_def vfs_inv_def)
  have h: "first_index (\<lambda>f. o_filesystem f = 0) (files v) = 0" using v(3) by (simp add: numeral_eq_Suc)
  have a: "a \<noteq> 0" using v(1) mounted_SomeD [of v "[100, 105, 115, 107]" a] by (simp add: ex_mounted_def)
  obtain v' fd where v': "files_ok y_idle y_blocks 16 v'" "vfs_ops v' = vfs_ops v" "filesystems v' = filesystems v" "files_view y_blocks v' = files_view y_blocks v"
    "tfs_fid (\<lambda>d. y_blocks (hw d)) (vk v') = tfs_fid (\<lambda>d. y_blocks (hw d)) (vk v)"
    "tfs_fid (\<lambda>d. y_blocks (hw d)) (vk v) a [97] fd" "files v' = (files v)[0 := \<lparr>o_filesystem = a, fileid = fd, seek_position = 0\<rparr>]"
    using yvol.vfs.open_ok [OF w ex_path(1), of "replicate 16 0" "replicate 16 0"] v(1,2) ex_path(2) h by (auto simp: ex_mounted_def)
  have m: "mounted v' = mounted v" using v'(3) by (simp add: mounted_def fun_eq_iff)
  have o: "file_open y_blocks v' 0 a [97] 0" using v'(5-7) v(3) a by (simp add: vfs_handle_def)
  have "files_inv y_idle y_blocks 16 v'"
    by (rule yvol.vfs.inv_files [OF _ v'(1,5) _ v'(7)]) (use v(1) v'(6) in \<open>auto simp: ex_mounted_def intro!: exI [of _ 0]\<close>)
  then show ?thesis using v v' m o by (intro exI [of _ v'] exI [of _ a]) (simp add: ex_mounted_def)
qed

section \<open>Properties\<close>

text \<open>
  C8. Starting the files of the kernel: from static memory that is zero, with six free
  semaphores, a free page and a TFS volume with a non-empty name on the disk,
  \<^verbatim>\<open>vfs_init\<close> and \<^verbatim>\<open>vfs_mount_fs\<close> return, the invariant of the
  virtual filesystem holds, and exactly the volume is mounted, under the first 15 characters of
  its name, with the files that are on the disk.
\<close>

theorem vfs_boot:
  assumes "yams_disk io finish idle busy stored nblocks 512" "rq \<noteq> 0" "tb = min nblocks 4096"
    and "vfs_static v" "vols (dev (vk v)) = Map.empty" "ksem_ok (sems (vk v))" "pp_inv (pool (vk v))"
    and "6 \<le> card (free_sems (sems (vk v)))" "pp_free (pool (vk v)) \<noteq> {}" "pp_pages (pool (vk v)) \<le> 2 ^ 19"
    and "disk_ready idle (disk (dev (vk v)))" "fs_ok tb (stored (hw (disk (dev (vk v)))))"
    and "rd32 (stored (hw (disk (dev (vk v)))) 0) 0 = TFS_MAGIC" "cstr vn (drop 4 (stored (hw (disk (dev (vk v)))) 0))" "vn \<noteq> []"
    and "length page = 4096" "length name = 16"
  shows "\<exists>v0 a v'. vfs_init v = Inr v0
    \<and> vfs_mount_fs (tfs_fs (disk_gbd io finish rq ba)) [tfs_entry page name] v0 (disk_gbd io finish rq ba) None = Inr (VFS_OK, v')
    \<and> files_inv idle stored tb v' \<and> mounted v' = [take 15 vn \<mapsto> a]
    \<and> files_view stored v' a = fs_map (stored (hw (disk (dev (vk v)))))
    \<and> stored (hw (disk (dev (vk v')))) = stored (hw (disk (dev (vk v)))) \<and> files v' = files v \<and> vfs_ops v' = 0"
  using assms by (rule boot_ok)

theorem vfs_boot_witness:
  "\<exists>v0 a v'. vfs_init ex_boot = Inr v0
     \<and> vfs_mount_fs (tfs_fs (disk_gbd yio y_finish 0x80001000 0x2000)) [tfs_entry (replicate 4096 9) (replicate 16 8)] v0
         (disk_gbd yio y_finish 0x80001000 0x2000) None = Inr (0, v')
     \<and> files_inv y_idle y_blocks 16 v' \<and> mounted v' = [[100, 105, 115, 107] \<mapsto> a] \<and> files_view y_blocks v' a = Map.empty"
  using vfs_boot [OF ydisk.yams_disk_axioms, of "0x80001000" 16 ex_boot "[100, 105, 115, 107]" "replicate 4096 9" "replicate 16 8" "0x2000"]
    ex_boot_static ex_blocks_ok ex_header by auto

text \<open>
  C2. Every well-formed call of the virtual filesystem, in every state that such calls can reach,
  returns and keeps the invariant: no assertion of VFS, TFS, the disk driver or the semaphores
  fails, nothing outside an object is accessed and nothing waits for ever. This includes calls with
  names that do not exist and with file handles that are not open, as long as the calls that
  returned VFS_NOT_OPEN, which are counted as being in progress for ever, do not exhaust the
  32-bit counter of operations.
\<close>

theorem vfs_calls_safe:
  assumes "yams_disk io finish idle busy stored nblocks 512" "rq \<noteq> 0" "tb \<le> nblocks" "length vb = 16" "length fb = 16"
    and "files_inv idle stored tb v0"
    and "vfs_reach (tfs_fs (disk_gbd io finish rq ba)) (tfs_fid (\<lambda>d. stored (hw d))) vb fb v0 v n" "vfs_ops v0 + int n + 1 < INT_MAX"
    and "call_ok (tfs_fid (\<lambda>d. stored (hw d))) v c"
  shows "\<exists>r v'. vfs_exec (tfs_fs (disk_gbd io finish rq ba)) vb fb c v = Inr (r, v') \<and> files_inv idle stored tb v'"
  using fs_driver.safe_next [OF files_driver [OF assms(1-3)] assms(7,6,9,4,5,8)] .

theorem vfs_calls_safe_witness:
  "\<exists>v r v'. files_inv y_idle y_blocks 16 v
     \<and> vfs_exec (tfs_fs (disk_gbd yio y_finish 0x80001000 0x2000)) (replicate 16 0) (replicate 16 0) (Open ex_path) v = Inr (r, v')"
proof -
  obtain v where v: "files_inv y_idle y_blocks 16 v" "vfs_ops v = 0" using ex_booted by (auto simp: ex_mounted_def)
  show ?thesis
    using vfs_calls_safe [OF ydisk.yams_disk_axioms, of "0x80001000" 16 "replicate 16 0" "replicate 16 0" v "0x2000" v 0 "Open ex_path", OF _ _ _ _ _ vfs_reach.start] v
    by fastforce
qed

text \<open>
  C15. \<^verbatim>\<open>vfs_open\<close> takes the first free row of the table of open files and opens the named file
  of the named volume at position 0. It returns VFS_INVALID_PARAMS for a path name that is not
  well formed, VFS_LIMIT when 512 files are open, VFS_NO_SUCH_FS and VFS_NOT_FOUND when there is
  no such volume or file, and then changes no table. The files are the same as before.
\<close>

theorem vfs_open_correct:
  assumes "yams_disk io finish idle busy stored nblocks 512" "rq \<noteq> 0" "tb \<le> nblocks" "length vb = 16" "length fb = 16"
    and "files_ok idle stored tb v" "cstr p pathname"
  shows "\<exists>r v'. vfs_open (tfs_fs (disk_gbd io finish rq ba)) vb fb v pathname = Inr (r, v')
    \<and> files_ok idle stored tb v' \<and> vfs_ops v' = vfs_ops v \<and> filesystems v' = filesystems v \<and> files_view stored v' = files_view stored v
    \<and> (let h = first_index (\<lambda>f. o_filesystem f = 0) (files v) in
       case split_path p of None \<Rightarrow> r = VFS_INVALID_PARAMS \<and> files v' = files v
       | Some (vol, nm) \<Rightarrow>
           if CONFIG_MAX_OPEN_FILES \<le> h then r = VFS_LIMIT \<and> files v' = files v
           else (case mounted v vol of None \<Rightarrow> r = VFS_NO_SUCH_FS \<and> files v' = files v
             | Some a \<Rightarrow>
                 if files_view stored v a nm = None then r = VFS_NOT_FOUND \<and> files v' = files v
                 else r = int h \<and> (\<forall>k. k \<noteq> h \<longrightarrow> files v' ! k = files v ! k) \<and> file_open stored v' h a nm 0))"
proof -
  let ?h = "first_index (\<lambda>f. o_filesystem f = 0) (files v)"
  note D = files_driver [OF assms(1-3), of ba]
  have l: "length (files v) = 512" using assms(6) by (simp add: vfs_wf_def)
  obtain r v' where o: "vfs_open (tfs_fs (disk_gbd io finish rq ba)) vb fb v pathname = Inr (r, v')" "files_ok idle stored tb v'" "vfs_ops v' = vfs_ops v"
    "filesystems v' = filesystems v" "files_view stored v' = files_view stored v" "tfs_fid (\<lambda>d. stored (hw d)) (vk v') = tfs_fid (\<lambda>d. stored (hw d)) (vk v)"
    "case split_path p of None \<Rightarrow> r = -3 \<and> files v' = files v
       | Some (vol, nm) \<Rightarrow>
           if 512 \<le> ?h then r = -7 \<and> files v' = files v
           else (case mounted v vol of None \<Rightarrow> r = -6 \<and> files v' = files v
             | Some a \<Rightarrow>
                 if files_view stored v a nm = None then r = -5 \<and> files v' = files v
                 else r = int ?h \<and> (\<exists>fd. tfs_fid (\<lambda>d. stored (hw d)) (vk v) a nm fd
                   \<and> files v' = (files v)[?h := \<lparr>o_filesystem = a, fileid = fd, seek_position = 0\<rparr>]))"
    using fs_driver.open_ok [OF D assms(6,7,4,5)] by blast
  have "file_open stored v' ?h a nm 0" if "?h < 512" "mounted v vol = Some a" "tfs_fid (\<lambda>d. stored (hw d)) (vk v) a nm fd"
    "files v' = (files v)[?h := \<lparr>o_filesystem = a, fileid = fd, seek_position = 0\<rparr>]" for vol a nm fd
    using that o(6) l mounted_SomeD [of v vol a] by (simp add: vfs_handle_def)
  then show ?thesis using o by (intro exI [of _ r] exI [of _ v']) (auto simp: Let_def split: option.splits if_splits)
qed

theorem vfs_open_correct_witness:
  "\<exists>v a v'. files_ok y_idle y_blocks 16 v
     \<and> vfs_open (tfs_fs (disk_gbd yio y_finish 0x80001000 0x2000)) (replicate 16 0) (replicate 16 0) v ex_path = Inr (0, v') \<and> file_open y_blocks v' 0 a [97] 0"
proof -
  obtain v a where v: "ex_mounted v a" "files_view y_blocks v a = [[97] \<mapsto> replicate 300 0]" "files v = replicate 512 \<lparr>o_filesystem = 0, fileid = 0, seek_position = 0\<rparr>"
    using ex_created by blast
  have w: "files_ok y_idle y_blocks 16 v" using v(1) by (simp add: ex_mounted_def vfs_inv_def)
  have h: "first_index (\<lambda>f. o_filesystem f = 0) (files v) = 0" using v(3) by (simp add: numeral_eq_Suc)
  show ?thesis
    using vfs_open_correct [OF ydisk.yams_disk_axioms _ _ _ _ w ex_path(1), of "0x80001000" "replicate 16 0" "replicate 16 0" "0x2000"] v(1,2) ex_path(2) h w
    by (auto simp: ex_mounted_def Let_def)
qed

text \<open>
  C7. Data that is written through the virtual filesystem is read back: after
  \<^verbatim>\<open>vfs_write\<close> of a buffer that fits into the file at the position of an open file, and
  \<^verbatim>\<open>vfs_seek\<close> back to that position, \<^verbatim>\<open>vfs_read\<close> returns the same bytes. Exactly
  these bytes of this file have changed, and the position is behind them.
\<close>

theorem vfs_write_read:
  fixes pos :: nat
  assumes "yams_disk io finish idle busy stored nblocks 512" "rq \<noteq> 0" "tb \<le> nblocks"
    and "files_ok idle stored tb v" "file_open stored v h a nm pos" "files_view stored v a nm = Some data"
    and "pos + length xs \<le> length data" "length bf = length xs"
  shows "\<exists>v1 v2 v3. vfs_write (tfs_fs (disk_gbd io finish rq ba)) v (int h) (Some xs) (int (length xs)) = Inr (int (length xs), v1)
    \<and> vfs_seek v1 (int h) (int pos) = Inr (VFS_OK, v2)
    \<and> vfs_read (tfs_fs (disk_gbd io finish rq ba)) v2 (int h) (Some bf) (int (length xs)) = Inr (int (length xs), Some xs, v3)
    \<and> files_ok idle stored tb v3 \<and> file_open stored v3 h a nm (pos + length xs)
    \<and> files_view stored v3 = (files_view stored v)(a := (files_view stored v a)(nm \<mapsto> put_at data pos xs))"
proof -
  note D = files_driver [OF assms(1-3), of ba]
  let ?d = "put_at data pos xs" and ?n = "min (length xs) (length data - pos)"
  have n: "?n = length xs" "pos \<le> length data" using assms(7) by simp_all
  have h: "h < 512" "length (files v) = 512" using assms(4,5) by (simp_all add: vfs_handle_def vfs_wf_def)
  obtain v1 where v1: "vfs_write (tfs_fs (disk_gbd io finish rq ba)) v (int h) (Some xs) (int (length xs)) = Inr (int (length xs), v1)"
    "files_ok idle stored tb v1" "tfs_fid (\<lambda>d. stored (hw d)) (vk v1) = tfs_fid (\<lambda>d. stored (hw d)) (vk v)"
    "files v1 = (files v)[h := (files v ! h)\<lparr>seek_position := int (pos + length xs)\<rparr>]"
    "files_view stored v1 = (files_view stored v)(a := (files_view stored v a)(nm \<mapsto> ?d))"
    using fs_driver.write_ok [OF D assms(4-6), of "length xs" xs] n by auto
  have h1: "file_open stored v1 h a nm (pos + length xs)" using v1(3,4) assms(5) h by (simp add: vfs_handle_def)
  obtain v2 where v2: "vfs_seek v1 (int h) (int pos) = Inr (0, v2)" "files_ok idle stored tb v2" "vk v2 = vk v1"
    "files v2 = (files v1)[h := (files v1 ! h)\<lparr>seek_position := int pos\<rparr>]"
    using fs_driver.seek_ok [OF D v1(2) h1, of pos] by blast
  have h2: "file_open stored v2 h a nm pos" using v2(3,4) v1(4) h1 h by (simp add: vfs_handle_def)
  have d: "files_view stored v2 a nm = Some ?d" "length ?d = length data" using v2(3) v1(5) assms(7) by simp_all
  have x: "put_at bf 0 (take (length xs) (drop pos ?d)) = xs" using assms(7,8) by (simp add: put_at_def)
  have m: "min (length xs) (length ?d - pos) \<le> length bf" "\<not> length ?d < pos" using assms(8) d(2) n(2) by simp_all
  obtain v3 where v3: "vfs_read (tfs_fs (disk_gbd io finish rq ba)) v2 (int h) (Some bf) (int (length xs)) = Inr (int (length xs), Some xs, v3)"
    "files_ok idle stored tb v3" "tfs_fid (\<lambda>d. stored (hw d)) (vk v3) = tfs_fid (\<lambda>d. stored (hw d)) (vk v2)"
    "files v3 = (files v2)[h := (files v2 ! h)\<lparr>seek_position := int (pos + length xs)\<rparr>]" "files_view stored v3 = files_view stored v2"
    using fs_driver.read_ok [OF D v2(2) h2 d(1) m(1)] n d(2) x by auto
  have "file_open stored v3 h a nm (pos + length xs)" using v3(3,4) v2(4) v1(4) h2 h by (simp add: vfs_handle_def)
  then show ?thesis using v1(1,5) v2(1,3) v3(1,2,5) by auto
qed

theorem vfs_write_read_witness:
  "\<exists>v v1 v2 v3. vfs_write (tfs_fs (disk_gbd yio y_finish 0x80001000 0x2000)) v (int 0) (Some [1, 2, 3]) (int 3) = Inr (3, v1)
     \<and> vfs_seek v1 (int 0) (int 0) = Inr (0, v2)
     \<and> vfs_read (tfs_fs (disk_gbd yio y_finish 0x80001000 0x2000)) v2 (int 0) (Some [9, 9, 9]) (int 3) = Inr (3, Some [1, 2, 3], v3)"
proof -
  obtain v a where v: "ex_mounted v a" "files_view y_blocks v a = [[97] \<mapsto> replicate 300 0]" "file_open y_blocks v 0 a [97] 0" using ex_opened by blast
  then have w: "files_ok y_idle y_blocks 16 v" "files_view y_blocks v a [97] = Some (replicate 300 0)" by (simp_all add: ex_mounted_def vfs_inv_def)
  from vfs_write_read [OF ydisk.yams_disk_axioms _ _ w(1) v(3) w(2), of "0x80001000" "[1, 2, 3]" "[9, 9, 9]" "0x2000"]
  obtain v1 v2 v3 where "vfs_write (tfs_fs (disk_gbd yio y_finish 0x80001000 0x2000)) v (int 0) (Some [1, 2, 3]) (int 3) = Inr (3, v1)"
     "vfs_seek v1 (int 0) (int 0) = Inr (0, v2)"
     "vfs_read (tfs_fs (disk_gbd yio y_finish 0x80001000 0x2000)) v2 (int 0) (Some [9, 9, 9]) (int 3) = Inr (3, Some [1, 2, 3], v3)" by auto
  then show ?thesis by blast
qed

text \<open>
  C16. \<^verbatim>\<open>vfs_create\<close> and \<^verbatim>\<open>vfs_remove\<close> change exactly the named file of the named volume.
  A new file has the given size, is filled with zeros, and is created exactly when there is no
  file of that name and the volume has room for it. Removing a file that does not exist returns
  VFS_NOT_FOUND. Other open files stay open.
\<close>

theorem vfs_create_remove_correct:
  assumes "yams_disk io finish idle busy stored nblocks 512" "rq \<noteq> 0" "tb \<le> nblocks" "length vb = 16" "length fb = 16"
    and "files_ok idle stored tb v" "cstr p pathname" "split_path p = Some (vol, nm)" "mounted v vol = Some a" "0 \<le> sz" "sz < 2 ^ 31"
  shows "\<exists>r v' r2 v2. vfs_create (tfs_fs (disk_gbd io finish rq ba)) vb fb v pathname sz = Inr (r, v') \<and> files_ok idle stored tb v'
    \<and> (if files_view stored v a nm = None \<and> tfs_room (\<lambda>d. stored (hw d)) tb (vk v) a sz
       then r = VFS_OK \<and> files_view stored v' = (files_view stored v)(a := (files_view stored v a)(nm \<mapsto> replicate (nat sz) 0))
       else r < 0 \<and> files_view stored v' = files_view stored v)
    \<and> (\<forall>h b x pos. file_open stored v h b x pos \<longrightarrow> file_open stored v' h b x pos)
    \<and> vfs_remove (tfs_fs (disk_gbd io finish rq ba)) vb fb v pathname = Inr (r2, v2) \<and> files_ok idle stored tb v2
    \<and> r2 = (if files_view stored v a nm = None then VFS_NOT_FOUND else VFS_OK)
    \<and> files_view stored v2 = (files_view stored v)(a := (files_view stored v a)(nm := None))
    \<and> (\<forall>h b x pos. file_open stored v h b x pos \<and> (b \<noteq> a \<or> x \<noteq> nm) \<longrightarrow> file_open stored v2 h b x pos)"
proof -
  note D = files_driver [OF assms(1-3), of ba]
  obtain r v' where c: "vfs_create (tfs_fs (disk_gbd io finish rq ba)) vb fb v pathname sz = Inr (r, v')" "files_ok idle stored tb v'" "files v' = files v"
    "if files_view stored v a nm = None \<and> tfs_room (\<lambda>d. stored (hw d)) tb (vk v) a sz
       then r = 0 \<and> files_view stored v' = (files_view stored v)(a := (files_view stored v a)(nm \<mapsto> replicate (nat sz) 0))
       else r < 0 \<and> files_view stored v' = files_view stored v"
    "\<forall>b x f. tfs_fid (\<lambda>d. stored (hw d)) (vk v) b x f \<longrightarrow> tfs_fid (\<lambda>d. stored (hw d)) (vk v') b x f"
    using fs_driver.create_ok [OF D assms(6,7,4,5,10,11)] unfolding assms(8,9) option.case prod.case by blast
  obtain r2 v2 where m: "vfs_remove (tfs_fs (disk_gbd io finish rq ba)) vb fb v pathname = Inr (r2, v2)" "files_ok idle stored tb v2" "files v2 = files v"
    "files_view stored v2 = (files_view stored v)(a := (files_view stored v a)(nm := None))" "r2 = (if files_view stored v a nm = None then -5 else 0)"
    "\<forall>b x f. tfs_fid (\<lambda>d. stored (hw d)) (vk v) b x f \<and> (b \<noteq> a \<or> x \<noteq> nm) \<longrightarrow> tfs_fid (\<lambda>d. stored (hw d)) (vk v2) b x f"
    using fs_driver.remove_ok [OF D assms(6,7,4,5)] unfolding assms(8,9) option.case prod.case by blast
  have "\<forall>h b x pos. file_open stored v h b x pos \<longrightarrow> file_open stored v' h b x pos"
    "\<forall>h b x pos. file_open stored v h b x pos \<and> (b \<noteq> a \<or> x \<noteq> nm) \<longrightarrow> file_open stored v2 h b x pos"
    using c(3,5) m(3,6) by (simp_all add: vfs_handle_def)
  then show ?thesis using c(1,2,4) m(1,2,4,5) by (intro exI conjI) assumption+
qed

theorem vfs_create_remove_correct_witness:
  "\<exists>v a v' v2. vfs_create (tfs_fs (disk_gbd yio y_finish 0x80001000 0x2000)) (replicate 16 0) (replicate 16 0) v ex_path 300 = Inr (0, v')
     \<and> files_view y_blocks v' a [97] = Some (replicate 300 0)
     \<and> vfs_remove (tfs_fs (disk_gbd yio y_finish 0x80001000 0x2000)) (replicate 16 0) (replicate 16 0) v ex_path = Inr (-5, v2)"
proof -
  obtain v a where v: "ex_mounted v a" "files_view y_blocks v a = Map.empty" "tfs_room (\<lambda>d. y_blocks (hw d)) 16 (vk v) a 300" using ex_booted by blast
  then have w: "files_ok y_idle y_blocks 16 v" "mounted v [100, 105, 115, 107] = Some a" by (simp_all add: ex_mounted_def vfs_inv_def)
  from vfs_create_remove_correct [OF ydisk.yams_disk_axioms _ _ _ _ w(1) ex_path w(2), of "0x80001000" "replicate 16 0" "replicate 16 0" 300 "0x2000"] v(2,3)
  obtain v' v2 where "vfs_create (tfs_fs (disk_gbd yio y_finish 0x80001000 0x2000)) (replicate 16 0) (replicate 16 0) v ex_path 300 = Inr (0, v')"
    "files_view y_blocks v' = (files_view y_blocks v)(a := [[97] \<mapsto> replicate 300 0])"
    "vfs_remove (tfs_fs (disk_gbd yio y_finish 0x80001000 0x2000)) (replicate 16 0) (replicate 16 0) v ex_path = Inr (-5, v2)" by auto
  then show ?thesis by (intro exI [of _ v] exI [of _ a] exI [of _ v'] exI [of _ v2]) simp
qed

text \<open>
  C17. \<^verbatim>\<open>vfs_deinit\<close> completes when the operations that are in progress end: the driver of every
  mounted filesystem is unmounted, so that it is gone from the filesystems that exist, the rows of
  the mount table are free, and from then on every operation returns VFS_UNUSABLE.
\<close>

theorem vfs_shutdown:
  assumes "yams_disk io finish idle busy stored nblocks 512" "rq \<noteq> 0" "tb \<le> nblocks" "files_ok idle stored tb v"
  shows "\<exists>v'. vfs_deinit (tfs_fs (disk_gbd io finish rq ba)) (end_ops (nat (vfs_ops v))) v = Inr v'
    \<and> tfs_live (vk v') = tfs_live (vk v) - e_filesystem ` set (filesystems v)
    \<and> (\<forall>e \<in> set (filesystems v'). e_filesystem e = 0) \<and> vfs_ops v' = 0
    \<and> (\<forall>k. vfs_begin v' k = Inr (VFS_UNUSABLE, v'))"
proof -
  obtain v' where "vfs_deinit (tfs_fs (disk_gbd io finish rq ba)) (end_ops (nat (vfs_ops v))) v = Inr v'" "vfs_locks v'" "vfs_usable v' = 0" "vfs_ops v' = 0"
    "\<forall>e \<in> set (filesystems v'). e_filesystem e = 0" "tfs_live (vk v') = tfs_live (vk v) - e_filesystem ` set (filesystems v)" using fs_driver.deinit_ok [OF files_driver [OF assms(1-3)] assms(4)] by blast
  then show ?thesis by (auto simp: vfs_begin_def start_op_eq)
qed

theorem vfs_shutdown_witness:
  "\<exists>v v' a. mounted v [100, 105, 115, 107] = Some a \<and> a \<in> tfs_live (vk v) \<and> a \<notin> tfs_live (vk v')
     \<and> vfs_deinit (tfs_fs (disk_gbd yio y_finish 0x80001000 0x2000)) (end_ops 0) v = Inr v'"
proof -
  obtain v a where v: "ex_mounted v a" using ex_booted by blast
  then have w: "files_ok y_idle y_blocks 16 v" "mounted v [100, 105, 115, 107] = Some a" "vfs_ops v = 0" by (simp_all add: ex_mounted_def vfs_inv_def)
  have "a \<in> e_filesystem ` set (filesystems v)" "a \<in> tfs_live (vk v)" using mounted_SomeD [OF w(2)] w(1) by (auto simp: vfs_wf_def)
  moreover obtain v' where "vfs_deinit (tfs_fs (disk_gbd yio y_finish 0x80001000 0x2000)) (end_ops 0) v = Inr v'"
    "tfs_live (vk v') = tfs_live (vk v) - e_filesystem ` set (filesystems v)"
    using vfs_shutdown [OF ydisk.yams_disk_axioms _ _ w(1), of "0x80001000" "0x2000"] w(3) by auto
  ultimately show ?thesis using w(2) by blast
qed

text \<open>
  C23. An operation on a file handle that is not open returns VFS_NOT_OPEN but is counted as being
  in progress for ever: after one such call \<^verbatim>\<open>vfs_deinit\<close> waits for ever, even when all
  operations that really were in progress have ended.
\<close>

theorem vfs_not_open_leak:
  assumes "vfs_locks v" "vfs_usable v \<noteq> 0" "ops_ok (vfs_ops v)" "vfs_verify_open v file = None"
  shows "\<exists>v'. vfs_close F v file = Inr (VFS_NOT_OPEN, v') \<and> vfs_tell v file = Inr (VFS_NOT_OPEN, v')
    \<and> (\<forall>pos \<ge> 0. vfs_seek v file pos = Inr (VFS_NOT_OPEN, v'))
    \<and> (\<forall>bf. \<forall>n \<ge> 0. vfs_read F v file (Some bf) n = Inr (VFS_NOT_OPEN, Some bf, v') \<and> vfs_write F v file (Some bf) n = Inr (VFS_NOT_OPEN, v'))
    \<and> vfs_deinit F (end_ops (nat (vfs_ops v))) v' = Inl Blocked"
proof -
  let ?v = "v\<lparr>vfs_ops := vfs_ops v + 1\<rparr>"
  have "vfs_deinit F (end_ops (nat (vfs_ops v))) ?v = Inl Blocked"
    using assms(1) ops_okD [OF assms(3)] end_ops_eq [of "?v\<lparr>vfs_usable := 0\<rparr>" "nat (vfs_ops v)" 1]
    by (simp add: vfs_deinit_def sem_P_eq sem_V_eq vfs_locks_def set_sem_same Let_def)
  then show ?thesis
    using not_open_close_seek [OF assms(1,2,4,3)] not_open_eq(2) [OF assms(1,2,4,3)] by (intro exI [of _ ?v]) simp
qed

theorem vfs_not_open_leak_witness:
  "\<exists>v v'. vfs_close (tfs_fs (disk_gbd yio y_finish 0x80001000 0x2000)) v 3 = Inr (VFS_NOT_OPEN, v') \<and> vfs_deinit (tfs_fs (disk_gbd yio y_finish 0x80001000 0x2000)) (end_ops 0) v' = Inl Blocked \<and> files_inv y_idle y_blocks 16 v"
proof -
  obtain v a where v: "ex_mounted v a" "files v = replicate 512 \<lparr>o_filesystem = 0, fileid = 0, seek_position = 0\<rparr>" using ex_booted by blast
  then have w: "vfs_locks v" "vfs_usable v \<noteq> 0" "ops_ok (vfs_ops v)" "vfs_ops v = 0" "files_inv y_idle y_blocks 16 v"
    by (simp_all add: ex_mounted_def vfs_inv_def vfs_wf_def)
  have "vfs_verify_open v 3 = None" using v(2) by (simp add: vfs_verify_open_def)
  from vfs_not_open_leak [OF w(1-3) this, of "tfs_fs (disk_gbd yio y_finish 0x80001000 0x2000)"] w(4,5) show ?thesis by auto
qed

text \<open>Closing a file again and again.\<close>

fun close_again :: "(u32 \<Rightarrow> 'x fs_t) \<Rightarrow> int \<Rightarrow> nat \<Rightarrow> 'x vfs_t \<Rightarrow> 'x vfs_t res" where
  "close_again F file 0 v = Inr v"
| "close_again F file (Suc n) v = rbind (vfs_close F v file) (\<lambda>(r, v). close_again F file n v)"

lemma close_again_eq:
  "vfs_locks v \<Longrightarrow> vfs_usable v \<noteq> 0 \<Longrightarrow> vfs_verify_open v file = None \<Longrightarrow>
   close_again F file n v = Inr (if n = 0 then v else v\<lparr>vfs_ops := c_int (vfs_ops v + int n)\<rparr>)"
proof (induction n arbitrary: v)
  case (Suc n)
  let ?v = "v\<lparr>vfs_ops := c_int (vfs_ops v + 1)\<rparr>"
  have "vfs_verify_open ?v file = None" using Suc.prems(3) by (simp add: vfs_verify_open_def split: if_splits)
  then have "close_again F file n ?v = Inr (if n = 0 then ?v else ?v\<lparr>vfs_ops := c_int (vfs_ops ?v + int n)\<rparr>)"
    using Suc.IH [of ?v] Suc.prems by simp
  moreover have "vfs_close F v file = Inr (-4, ?v)" using not_open_wraps [OF Suc.prems] by (simp add: vfs_close_def)
  ultimately show ?case by (cases "n = 0") (simp_all add: c_int_add add.assoc)
qed simp

text \<open>
  The calls that return VFS_NOT_OPEN exhaust the counter of operations: after \<open>2 ^ 31\<close> of them
  the counter is negative, and the next operation that ends fails the assertion of
  \<^verbatim>\<open>vfs_end_op\<close>; here a call of \<^verbatim>\<open>vfs_open\<close> with a bad path name.
\<close>

theorem vfs_ops_overflow:
  assumes "vfs_locks v" "vfs_usable v \<noteq> 0" "vfs_ops v = 0" "vfs_verify_open v file = None"
    and "vfs_parse_pathname pathname vb fb = Inr (e, bufs)" "e \<noteq> VFS_OK"
  shows "\<exists>v'. close_again F file (2 ^ 31) v = Inr v' \<and> vfs_ops v' < 0 \<and> vfs_open F vb fb v' pathname = Inl Kernel_assert"
proof -
  let ?v = "v\<lparr>vfs_ops := INT_MIN\<rparr>"
  have m: "c_int (int (2 ^ 31)) = INT_MIN" "c_int (INT_MIN + 1) = INT_MIN + 1" "c_int (INT_MIN + 1 - 1) = INT_MIN" by (simp_all add: c_int_def)
  have c: "close_again F file (2 ^ 31) v = Inr ?v" using close_again_eq [OF assms(1,2,4), of F "2 ^ 31"] assms(3) m(1) by simp
  have l: "vfs_locks (?v\<lparr>vfs_ops := x\<rparr>)" for x using assms(1) by simp
  have "vfs_end_op (v\<lparr>vfs_ops := INT_MIN + 1\<rparr>) = Inl Kernel_assert"
    using assms(1) m(3) by (simp add: vfs_end_op_def sem_P_eq vfs_locks_def Let_def)
  moreover have "vfs_start_op ?v = Inr (0, v\<lparr>vfs_ops := INT_MIN + 1\<rparr>)" using start_op_wraps [of ?v] assms(1,2) m(2) by simp
  ultimately have "vfs_open F vb fb ?v pathname = Inl Kernel_assert"
    using assms(5,6) by (cases bufs) (simp add: vfs_open_def vfs_begin_def vfs_return_def)
  then show ?thesis using c by (intro exI [of _ ?v]) simp
qed

theorem vfs_ops_overflow_witness:
  "\<exists>v v'. files_inv y_idle y_blocks 16 v \<and> close_again (tfs_fs (disk_gbd yio y_finish 0x80001000 0x2000)) 3 (2 ^ 31) v = Inr v'
     \<and> vfs_open (tfs_fs (disk_gbd yio y_finish 0x80001000 0x2000)) (replicate 16 0) (replicate 16 0) v' [91, 0] = Inl Kernel_assert"
proof -
  obtain v a where v: "ex_mounted v a" "files v = replicate 512 \<lparr>o_filesystem = 0, fileid = 0, seek_position = 0\<rparr>" using ex_booted by blast
  then have w: "vfs_locks v" "vfs_usable v \<noteq> 0" "vfs_ops v = 0" "files_inv y_idle y_blocks 16 v"
    by (simp_all add: ex_mounted_def vfs_inv_def vfs_wf_def)
  have "vfs_verify_open v 3 = None" using v(2) by (simp add: vfs_verify_open_def)
  moreover have "parse_volume [0] (replicate 16 0) 0 (Suc 14) = Inr (Inl VFS_ERROR)" by (subst parse_volume.simps) (simp add: aget_def)
  then have "vfs_parse_pathname [91, 0] (replicate 16 0) (replicate 16 0) = Inr (VFS_ERROR, replicate 16 0, replicate 16 0)"
    by (simp add: vfs_parse_pathname_def aget_def)
  ultimately show ?thesis
    using vfs_ops_overflow [OF w(1-3), of 3 "[91, 0]" "replicate 16 0" "replicate 16 0" "-2" "(replicate 16 0, replicate 16 0)" "tfs_fs (disk_gbd yio y_finish 0x80001000 0x2000)"] w(4) by auto
qed

text \<open>
  C24. \<^verbatim>\<open>vfs_unmount\<close> leaves the name of the volume in its row: a volume that has been unmounted
  cannot be mounted under its name again, \<^verbatim>\<open>vfs_mount\<close> returns VFS_ERROR although no volume
  has the name. An unmount is refused with VFS_IN_USE while a file of the volume is open.
\<close>

theorem vfs_unmount_remount:
  assumes "yams_disk io finish idle busy stored nblocks 512" "rq \<noteq> 0" "tb \<le> nblocks" "files_ok idle stored tb v"
    and "cstr nm name" "nm \<noteq> []" "length nm \<le> 15" "mounted v nm = Some a"
  shows "\<exists>r v'. vfs_unmount (tfs_fs (disk_gbd io finish rq ba)) v name = Inr (r, v') \<and> files_ok idle stored tb v'
    \<and> files v' = files v
    \<and> (if a \<in> o_filesystem ` set (files v) then r = VFS_IN_USE \<and> filesystems v' = filesystems v \<and> vk v' = vk v
       else r = VFS_OK \<and> mounted v' = (mounted v)(nm := None) \<and> tfs_live (vk v') = tfs_live (vk v) - {a}
         \<and> (\<forall>fs. vfs_mount v' fs name = Inr (VFS_ERROR, v')))"
proof -
  note D = files_driver [OF assms(1-3), of ba]
  obtain r v' where u: "vfs_unmount (tfs_fs (disk_gbd io finish rq ba)) v name = Inr (r, v')" "files_ok idle stored tb v'" "files v' = files v"
    "if a \<in> o_filesystem ` set (files v) then r = -8 \<and> filesystems v' = filesystems v \<and> vk v' = vk v
       else r = 0 \<and> mounted v' = (mounted v)(nm := None) \<and> tfs_live (vk v') = tfs_live (vk v) - {a} \<and> map mname (filesystems v') = map mname (filesystems v)"
    using fs_driver.unmount_ok [OF D assms(4,5)] unfolding assms(8) option.case by meson
  have "vfs_mount v' fs name = Inr (-2, v')" if m: "mounted v' nm = None" "map mname (filesystems v') = map mname (filesystems v)" for fs
  proof -
    have n: "nm \<in> mname ` set (filesystems v')"
      using assms(8) m(2) by (metis mounted_name image_set)
    then have z: "0 \<in> e_filesystem ` set (filesystems v')"
      using m(1) by (fastforce simp: mounted_def find_None_iff find_Some_iff image_iff split: option.splits if_splits)
    show ?thesis using fs_driver.mount_refused [OF D u(2) assms(5,6), of fs] n z by simp
  qed
  then show ?thesis using u by (intro exI [of _ r] exI [of _ v']) auto
qed

theorem vfs_unmount_remount_witness:
  "\<exists>v v'. vfs_unmount (tfs_fs (disk_gbd yio y_finish 0x80001000 0x2000)) v [100, 105, 115, 107, 0] = Inr (0, v')
     \<and> mounted v' = Map.empty \<and> vfs_mount v' 0x80002000 [100, 105, 115, 107, 0] = Inr (VFS_ERROR, v')"
proof -
  obtain v a where v: "ex_mounted v a" "files v = replicate 512 \<lparr>o_filesystem = 0, fileid = 0, seek_position = 0\<rparr>" using ex_booted by blast
  then have w: "files_ok y_idle y_blocks 16 v" "mounted v [100, 105, 115, 107] = Some a" "mounted v = [[100, 105, 115, 107] \<mapsto> a]"
    by (simp_all add: ex_mounted_def vfs_inv_def)
  have "a \<noteq> 0" using w(2) mounted_SomeD [of v "[100, 105, 115, 107]" a] by simp
  then have "a \<notin> o_filesystem ` set (files v)" using v(2) by simp
  from vfs_unmount_remount [OF ydisk.yams_disk_axioms _ _ w(1) _ _ _ w(2), of "0x80001000" "[100, 105, 115, 107, 0]" "0x2000"] w(3) this
  obtain v' where "vfs_unmount (tfs_fs (disk_gbd yio y_finish 0x80001000 0x2000)) v [100, 105, 115, 107, 0] = Inr (0, v')"
    "mounted v' = Map.empty" "\<forall>fs. vfs_mount v' fs [100, 105, 115, 107, 0] = Inr (-2, v')" by (auto simp: cstr_def)
  then show ?thesis by (intro exI [of _ v] exI [of _ v']) simp
qed

text \<open>
  \<^verbatim>\<open>vfs_parse_pathname\<close> accepts exactly the names of the form \<^verbatim>\<open>[volume]file\<close> or
  \<^verbatim>\<open>file\<close> with a volume of at most 14 and a file of 1 to 15 characters, and splits them into
  terminated strings; it stays inside its two buffers for every terminated name. (A volume may be
  mounted under a name of 15 characters: no file of it can then be named.)
\<close>

theorem vfs_parse_pathname_correct:
  assumes "cstr w pathname" "length volumebuf = 16" "length filenamebuf = 16"
  shows "\<exists>e vb fb. vfs_parse_pathname pathname volumebuf filenamebuf = Inr (e, vb, fb)
    \<and> (case split_path w of None \<Rightarrow> e < 0 | Some (vol, nm) \<Rightarrow> e = VFS_OK \<and> cstr vol vb \<and> cstr nm fb)
    \<and> (\<forall>vol nm. 93 \<notin> set vol \<and> w = 91 # vol @ 93 # nm \<and> length vol = 15 \<longrightarrow> e < 0)"
proof -
  obtain e vb fb where e: "vfs_parse_pathname pathname volumebuf filenamebuf = Inr (e, vb, fb)"
    "case split_path w of None \<Rightarrow> e < 0 | Some (vol, nm) \<Rightarrow> e = 0 \<and> cstr vol vb \<and> cstr nm fb \<and> nm \<noteq> [] \<and> length nm \<le> 15"
    using parse_pathname_eq [OF assms] by blast
  have long: "split_path w = None" if "93 \<notin> set vol" "w = 91 # vol @ 93 # nm" "length vol = 15" for vol nm
  proof -
    have "takeWhile (\<lambda>c. c \<noteq> 93) (vol @ 93 # nm) = vol" using that(1) by (subst takeWhile_append2) auto
    then show ?thesis using that(2,3) by (simp add: split_path_def)
  qed
  show ?thesis using e long by (intro exI [of _ e] exI [of _ vb] exI [of _ fb]) (auto split: option.splits)
qed

theorem vfs_parse_pathname_correct_witness:
  "\<exists>vb fb. vfs_parse_pathname ex_path (replicate 16 9) (replicate 16 9) = Inr (0, vb, fb) \<and> cstr [100, 105, 115, 107] vb \<and> cstr [97] fb"
  using vfs_parse_pathname_correct [OF ex_path(1), of "replicate 16 9" "replicate 16 9"] ex_path(2) by auto

end
