(* ===== verification/Tfstool.thy ===== *)
theory Tfstool
  imports Tfs_Correct
begin

text \<open>
  \<^verbatim>\<open>util/tfstool.c\<close>: the program that makes disk images on the host and moves files between
  an image and the host. It works on the same volumes as \<^verbatim>\<open>fs/tfs.c\<close>, with code of its own.

  The files of the host are a map from names to contents. A command of the tool is a function on it
  that may end the program with \<^verbatim>\<open>exit(EXIT_FAILURE)\<close> (\<open>None\<close>) or do something
  that C leaves undefined (\<open>Inl\<close>). \<^verbatim>\<open>fopen\<close> fails for reading when there is no such
  file; messages and errors of the host's disk are left out. Uninitialised buffers on the stack are
  arguments. The image and the local file are different files, and images have less than 2 ^ 31
  blocks. Words of the volume are read through \<^verbatim>\<open>ntohl\<close>, so a bitmap is the list of its
  words in host order.
\<close>

section \<open>The standard library\<close>

type_synonym hostfs = "u8 list \<Rightarrow> u8 list option"
type_synonym 'a tool = "hostfs \<Rightarrow> ('a option \<times> hostfs) res"

definition tret :: "'a \<Rightarrow> 'a tool" where
  "tret x h = Inr (Some x, h)"

definition texit :: "'a tool" where
  "texit h = Inr (None, h)"

definition tbind :: "'a tool \<Rightarrow> ('a \<Rightarrow> 'b tool) \<Rightarrow> 'b tool" where
  "tbind m f h = rbind (m h) (\<lambda>(r, h). case r of None \<Rightarrow> Inr (None, h) | Some x \<Rightarrow> f x h)"

definition tlift :: "'a res \<Rightarrow> 'a tool" where
  "tlift r h = rbind r (\<lambda>x. Inr (Some x, h))"

definition file_of :: "hostfs \<Rightarrow> u8 list \<Rightarrow> u8 list" where
  "file_of h fn = (case h fn of None \<Rightarrow> [] | Some c \<Rightarrow> c)"

text \<open>\<^verbatim>\<open>strncmp\<close> and the bytes that \<^verbatim>\<open>strncpy\<close> writes.\<close>

fun strncmp :: "u8 list \<Rightarrow> u8 list \<Rightarrow> nat \<Rightarrow> int res" where
  "strncmp a b 0 = Inr 0"
| "strncmp (x # a) (y # b) (Suc n) =
     (if x \<noteq> y then Inr (uint x - uint y) else if x = 0 then Inr 0 else strncmp a b n)"
| "strncmp _ _ (Suc n) = Inl Bad_access"

fun strncpy :: "u8 list \<Rightarrow> nat \<Rightarrow> u8 list res" where
  "strncpy b 0 = Inr []"
| "strncpy (c # b) (Suc n) = (if c = 0 then Inr (replicate (Suc n) 0) else rbind (strncpy b n) (\<lambda>r. Inr (c # r)))"
| "strncpy [] (Suc n) = Inl Bad_access"

section \<open>The code\<close>

text \<open>
  \<open>openfile\<close> with mode \<^verbatim>\<open>"w"\<close> or \<^verbatim>\<open>"wb"\<close> (\<open>trunc\<close>), or \<^verbatim>\<open>"r"\<close> or
  \<^verbatim>\<open>"r+"\<close>.
\<close>

definition openfile :: "u8 list \<Rightarrow> bool \<Rightarrow> unit tool" where
  "openfile fn trunc h =
     (if trunc then Inr (Some (), h(fn \<mapsto> [])) else if h fn = None then Inr (None, h) else Inr (Some (), h))"

definition getfilesize :: "u8 list \<Rightarrow> nat tool" where
  "getfilesize fn h = Inr (Some (length (file_of h fn)), h)"

definition tfstool_numblocks :: "u8 list \<Rightarrow> nat tool" where
  "tfstool_numblocks dsk = tbind (getfilesize dsk) (\<lambda>n. tret (n div TFS_BLOCK_SIZE))"

text \<open>
  \<^verbatim>\<open>fseek\<close> to a block: the offset is an \<^verbatim>\<open>int\<close>, and a negative one is an error. A block
  that the file does not have (or not completely) leaves the rest of the buffer as it is.
\<close>

definition seek_block :: "int \<Rightarrow> nat tool" where
  "seek_block b =
     (let off = b * TFS_BLOCK_SIZE in
      if off < - (2 ^ 31) \<or> 2 ^ 31 \<le> off then tlift (Inl Bad_access)
      else if off < 0 then texit else tret (nat off))"

definition tool_read_block :: "u8 list \<Rightarrow> u8 list \<Rightarrow> int \<Rightarrow> u8 list tool" where
  "tool_read_block dsk data b =
     tbind (seek_block b) (\<lambda>off h. Inr (Some (put_at data 0 (take TFS_BLOCK_SIZE (drop off (file_of h dsk)))), h))"

text \<open>The \<^verbatim>\<open>NULL\<close> block is \<open>None\<close>. Writing behind the end of a file fills the gap with zeros.\<close>

definition tool_write_block :: "u8 list \<Rightarrow> u8 list option \<Rightarrow> int \<Rightarrow> unit tool" where
  "tool_write_block dsk data b =
     tbind (seek_block b) (\<lambda>off h.
       let c = file_of h dsk; d = (case data of None \<Rightarrow> replicate TFS_BLOCK_SIZE 0 | Some d \<Rightarrow> d) in
       Inr (Some (), h(dsk \<mapsto> put_at (c @ replicate (off - length c) 0) off d)))"

text \<open>The bitmap routines of the tool.\<close>

definition tool_bitmap_init :: "u32 list \<Rightarrow> int \<Rightarrow> u32 list res" where
  "tool_bitmap_init bm n = bitmap_init_loop bm 0 (nat ((n + 31) sdiv 32))"

definition tool_bitmap_get :: "u32 list \<Rightarrow> int \<Rightarrow> u32 res" where
  "tool_bitmap_get bm pos =
     (if pos < 0 then Inl Bad_access
      else rbind (aget bm (pos div 32)) (\<lambda>w. Inr (drop_bit (nat (pos mod 32)) w AND 1)))"

definition tool_bitmap_set :: "u32 list \<Rightarrow> int \<Rightarrow> int \<Rightarrow> u32 list tool" where
  "tool_bitmap_set bm pos v =
     (if pos < 0 then tlift (Inl Bad_access)
      else
        let i = pos div 32; j = nat (pos mod 32) in
        if v = 0 then tlift (rbind (aget bm i) (\<lambda>w. aset bm i (w AND NOT (push_bit j 1))))
        else if v = 1 then tlift (rbind (aget bm i) (\<lambda>w. aset bm i (w OR push_bit j 1)))
        else texit)"

fun tool_findnset_loop :: "u32 list \<Rightarrow> nat \<Rightarrow> nat \<Rightarrow> (int \<times> u32 list) tool" where
  "tool_findnset_loop bm i 0 = tret (-1, bm)"
| "tool_findnset_loop bm i (Suc n) =
     tbind (tlift (tool_bitmap_get bm (int i))) (\<lambda>b.
       if b = 0 then tbind (tool_bitmap_set bm (int i) 1) (\<lambda>bm. tret (int i, bm))
       else tool_findnset_loop bm (Suc i) n)"

definition tool_bitmap_findnset :: "u32 list \<Rightarrow> int \<Rightarrow> (int \<times> u32 list) tool" where
  "tool_bitmap_findnset bm l = tool_findnset_loop bm 0 (nat l)"

text \<open>Making an image. \<open>alloc\<close> is the uninitialised array for the bitmap.\<close>

fun zero_data :: "u8 list \<Rightarrow> nat \<Rightarrow> nat \<Rightarrow> unit tool" where
  "zero_data dsk i 0 = tret ()"
| "zero_data dsk i (Suc n) = tbind (tool_write_block dsk None (int i)) (\<lambda>_. zero_data dsk (Suc i) n)"

definition tfstool_createvol :: "u8 list \<Rightarrow> int \<Rightarrow> u8 list \<Rightarrow> u32 list \<Rightarrow> unit tool" where
  "tfstool_createvol dsk sz volumename alloc =
     tbind (tlift (tool_bitmap_init alloc (8 * TFS_BLOCK_SIZE))) (\<lambda>alloc h.
       if h dsk \<noteq> None then texit h
       else if sz < 3 then texit h
       else
         tbind (openfile dsk True) (\<lambda>_.
         tbind (tlift (blit TFS_VOLUMENAME_MAX (wr32 (replicate TFS_BLOCK_SIZE 0) 0 TFS_MAGIC) 4 volumename 0)) (\<lambda>header.
         tbind (tool_write_block dsk (Some header) 0) (\<lambda>_.
         tbind (tool_bitmap_set alloc 0 1) (\<lambda>alloc.
         tbind (tool_bitmap_set alloc 1 1) (\<lambda>alloc.
         tbind (tool_bitmap_set alloc 2 1) (\<lambda>alloc.
         tbind (tlift (blit TFS_BLOCK_SIZE (replicate TFS_BLOCK_SIZE 0) 0 (bytes_of alloc) 0)) (\<lambda>bat.
         tbind (tool_write_block dsk (Some bat) 1) (\<lambda>_.
         tbind (tool_write_block dsk None 2) (\<lambda>_.
           zero_data dsk 3 (nat (sz - 3))))))))))) h)"

text \<open>
  Copying a file into an image. \<open>tool_scan\<close> is the loop over the directory, which remembers the first
  free entry; \<open>None\<close> is a file of the same name. \<open>write_data\<close> is the loop over the blocks of the
  file: at the end of the loop, whether blocks were found, the number of bytes read, the bitmap and the
  inode. The end of the local file is noticed when fewer bytes than asked for are read.
\<close>

fun tool_scan :: "u8 list \<Rightarrow> u8 list \<Rightarrow> nat \<Rightarrow> nat \<Rightarrow> int \<Rightarrow> int option res" where
  "tool_scan md target i 0 index = Inr (Some index)"
| "tool_scan md target i (Suc n) index =
     (let index = (if dir_inode md i = 0 \<and> index = -1 then int i else index) in
      rbind (strncmp (dir_name md i) target (nat TFS_FILENAME_MAX)) (\<lambda>d.
        if d = 0 then Inr None else tool_scan md target (Suc i) n index))"

abbreviation (input) TFS_MAX_FILESIZE :: nat where "TFS_MAX_FILESIZE \<equiv> 65024"

fun write_data ::
  "u8 list \<Rightarrow> nat \<Rightarrow> nat \<Rightarrow> nat \<Rightarrow> u32 list \<Rightarrow> u8 list \<Rightarrow> u8 list \<Rightarrow> u8 list \<Rightarrow> nat \<Rightarrow> (bool \<times> nat \<times> u32 list \<times> u8 list) tool" where
  "write_data dsk nb i 0 bat ib data src filesize = tret (True, filesize, bat, ib)"
| "write_data dsk nb i (Suc n) bat ib data src filesize =
     (if filesize < TFS_MAX_FILESIZE then
        tbind (tool_bitmap_findnset bat (int nb)) (\<lambda>(bnum, bat).
          if 2 < bnum \<and> bnum < int nb then
            let chunk = take TFS_BLOCK_SIZE src; data = put_at data 0 chunk; filesize = filesize + length chunk in
            tbind (tool_write_block dsk (Some data) bnum) (\<lambda>_.
              if 4 * i + 8 \<le> length ib then
                let ib = wr32 ib (4 + 4 * i) (word_of_int bnum) in
                if length chunk < TFS_BLOCK_SIZE then tret (True, filesize, bat, ib)
                else write_data dsk nb (Suc i) n bat ib data (drop TFS_BLOCK_SIZE src) filesize
              else tlift (Inl Bad_access))
          else tret (False, filesize, bat, ib))
      else tret (True, filesize, bat, ib))"

definition write_meta :: "u8 list \<Rightarrow> u8 list \<Rightarrow> nat \<Rightarrow> int \<Rightarrow> u8 list \<Rightarrow> u8 list \<Rightarrow> u32 list \<Rightarrow> nat \<Rightarrow> unit tool" where
  "write_meta dsk target index inode_bnum md ib bat filesize =
     tbind (tool_write_block dsk (Some (wr32 ib 0 (of_nat filesize))) inode_bnum) (\<lambda>_.
     tbind (tlift (strncpy target (nat TFS_FILENAME_MAX))) (\<lambda>nm.
     tbind (tool_write_block dsk (Some (put_at (wr32 md (20 * index) (word_of_int inode_bnum)) (20 * index + 4) nm)) 2) (\<lambda>_.
       tool_write_block dsk (Some (bytes_of bat)) 1)))"

definition tfstool_write :: "u8 list \<Rightarrow> u8 list \<Rightarrow> u8 list \<Rightarrow> u8 list \<Rightarrow> u8 list \<Rightarrow> u8 list \<Rightarrow> unit tool" where
  "tfstool_write dsk source target allocation_block master_dir data =
     tbind (openfile dsk False) (\<lambda>_.
     tbind (openfile source False) (\<lambda>_.
     tbind (getfilesize source) (\<lambda>source_filesize.
     tbind (tool_read_block dsk master_dir 2) (\<lambda>md.
     tbind (tlift (tool_scan md target 0 TFS_MAX_FILES (-1))) (\<lambda>r.
     case r of
       None \<Rightarrow> texit
     | Some index \<Rightarrow>
         if index < 0 then texit
         else
           tbind (tool_read_block dsk allocation_block 1) (\<lambda>bat.
           tbind (tfstool_numblocks dsk) (\<lambda>nb.
           tbind (tool_bitmap_findnset (words_of bat) (int nb)) (\<lambda>(inode_bnum, bat).
           if 2 < inode_bnum \<and> inode_bnum < int nb then
             tbind (\<lambda>h. write_data dsk nb 0 nb bat (replicate TFS_BLOCK_SIZE 0) data (file_of h source) 0 h) (\<lambda>(writeok, filesize, bat, ib).
               if filesize \<noteq> source_filesize then texit
               else if writeok then write_meta dsk target (nat index) inode_bnum md ib bat filesize
               else texit)
           else texit))))))))"

text \<open>Copying a file out of an image; the result is the number of bytes.\<close>

definition tool_find :: "u8 list \<Rightarrow> u8 list \<Rightarrow> nat res" where
  "tool_find md name =
     first_indexR (\<lambda>i. rbind (strncmp (dir_name md i) name (nat TFS_FILENAME_MAX)) (\<lambda>d. Inr (d = 0))) [0..<TFS_MAX_FILES]"

fun read_data :: "u8 list \<Rightarrow> u8 list \<Rightarrow> u32 \<Rightarrow> u8 list \<Rightarrow> nat \<Rightarrow> nat \<Rightarrow> u8 list \<Rightarrow> nat \<Rightarrow> nat tool" where
  "read_data dsk target filesize ib i 0 data count = tret count"
| "read_data dsk target filesize ib i (Suc n) data count =
     (let bnum = rd32 ib (4 + 4 * i) in
      if bnum \<noteq> 0 then
        tbind (tool_read_block dsk data (sint bnum)) (\<lambda>data h.
          let sz = filesize - of_nat count; sz = (if sz > TFS_BLOCK_SIZE then TFS_BLOCK_SIZE else sz); out = take (unat sz) data in
          read_data dsk target filesize ib (Suc i) n data (count + length out) (h(target \<mapsto> file_of h target @ out)))
      else tret count)"

definition tfstool_read :: "u8 list \<Rightarrow> u8 list \<Rightarrow> u8 list \<Rightarrow> u8 list \<Rightarrow> u8 list \<Rightarrow> u8 list \<Rightarrow> nat tool" where
  "tfstool_read dsk source target master_dir inode_blk data =
     tbind (openfile dsk False) (\<lambda>_.
     tbind (openfile target True) (\<lambda>_.
     tbind (tool_read_block dsk master_dir 2) (\<lambda>md.
     tbind (tlift (tool_find md source)) (\<lambda>index.
     if index \<ge> TFS_MAX_FILES then texit
     else
       tbind (tool_read_block dsk inode_blk (sint (dir_inode md index))) (\<lambda>ib.
         read_data dsk target (inode_filesize ib) ib 0 TFS_BLOCKS_MAX data 0)))))"

text \<open>Deleting a file.\<close>

fun tool_free :: "u32 list \<Rightarrow> u8 list \<Rightarrow> nat \<Rightarrow> nat \<Rightarrow> u32 list tool" where
  "tool_free bat ib i 0 = tret bat"
| "tool_free bat ib i (Suc n) =
     (let bnum = rd32 ib (4 + 4 * i) in
      if bnum \<noteq> 0 then tbind (tool_bitmap_set bat (sint bnum) 0) (\<lambda>bat. tool_free bat ib (Suc i) n)
      else tret bat)"

definition tfstool_delete :: "u8 list \<Rightarrow> u8 list \<Rightarrow> unit tool" where
  "tfstool_delete dsk filename =
     (let zero = replicate TFS_BLOCK_SIZE 0 in
      tbind (openfile dsk False) (\<lambda>_.
      tbind (tool_read_block dsk zero 2) (\<lambda>md.
      tbind (tlift (tool_find md filename)) (\<lambda>index.
      if index \<ge> TFS_MAX_FILES then texit
      else
        tbind (tool_read_block dsk zero 1) (\<lambda>bat.
        let inode_bn = sint (dir_inode md index) in
        tbind (tool_read_block dsk zero inode_bn) (\<lambda>ib.
        tbind (tool_free (words_of bat) ib 0 TFS_BLOCKS_MAX) (\<lambda>bat.
        tbind (tool_bitmap_set bat inode_bn 0) (\<lambda>bat.
        tbind (tool_write_block dsk (Some (bytes_of bat)) 1) (\<lambda>_.
          tool_write_block dsk (Some ((wr32 md (20 * index) 0)[20 * index + 4 := 0])) 2)))))))))"

text \<open>
  The listing of an image: the name of the volume, its size, and a line for each file with inode,
  size, name and blocks.
\<close>

fun list_blocks :: "u8 list \<Rightarrow> nat \<Rightarrow> nat \<Rightarrow> u32 list" where
  "list_blocks ib i 0 = []"
| "list_blocks ib i (Suc n) = (let b = rd32 ib (4 + 4 * i) in if b \<noteq> 0 then b # list_blocks ib (Suc i) n else [])"

fun list_files :: "u8 list \<Rightarrow> u8 list \<Rightarrow> u8 list \<Rightarrow> nat \<Rightarrow> nat \<Rightarrow> (u32 \<times> u32 \<times> u8 list \<times> u32 list) list tool" where
  "list_files dsk md data i 0 = tret []"
| "list_files dsk md data i (Suc n) =
     (if dir_inode md i > 0 then
        tbind (tool_read_block dsk data (sint (dir_inode md i))) (\<lambda>ib.
        tbind (list_files dsk md data (Suc i) n) (\<lambda>ls.
          tret ((dir_inode md i, inode_filesize ib, takeWhile (\<lambda>c. c \<noteq> 0) (dir_name md i), list_blocks ib 0 TFS_BLOCKS_MAX) # ls)))
      else list_files dsk md data (Suc i) n)"

definition tfstool_list ::
  "u8 list \<Rightarrow> u8 list \<Rightarrow> u8 list \<Rightarrow> u8 list \<Rightarrow> (u8 list \<times> nat \<times> (u32 \<times> u32 \<times> u8 list \<times> u32 list) list) tool" where
  "tfstool_list dsk header master_dir data =
     tbind (openfile dsk False) (\<lambda>_.
     tbind (tool_read_block dsk header 0) (\<lambda>hd.
     tbind (tool_read_block dsk master_dir 2) (\<lambda>md.
     tbind (tfstool_numblocks dsk) (\<lambda>nb.
     tbind (list_files dsk md data 0 TFS_MAX_FILES) (\<lambda>ls.
       tret (takeWhile (\<lambda>c. c \<noteq> 0) (drop 4 hd), nb, ls))))))"

end
