(* ===== verification/Tfstool_Correct.thy ===== *)
theory Tfstool_Correct
  imports Tfstool
begin

text \<open>
  What the commands of \<^verbatim>\<open>tfstool\<close> do to the volume in an image, in the terms of
  \<open>Tfs_Fs\<close>: \<open>fs_ok\<close> is a sound volume, \<open>fs_map\<close> its files. So the tool and the filesystem of the
  kernel, which have different code, are proved against the same specification.
\<close>

section \<open>Images\<close>

lemmas tool_defs = tret_def texit_def tbind_def tlift_def

text \<open>The blocks of an image, and the replacement of one.\<close>

definition img_blocks :: "u8 list \<Rightarrow> blocks" where
  "img_blocks img b = take 512 (drop (512 * b) img)"

definition set_block :: "u8 list \<Rightarrow> nat \<Rightarrow> u8 list \<Rightarrow> u8 list" where
  "set_block img b d = put_at img (512 * b) d"

text \<open>An image of \<open>tb\<close> blocks under the name \<open>dsk\<close>.\<close>

definition has_image :: "hostfs \<Rightarrow> u8 list \<Rightarrow> nat \<Rightarrow> u8 list \<Rightarrow> bool" where
  "has_image h dsk tb img \<longleftrightarrow> h dsk = Some img \<and> length img = 512 * tb \<and> tb \<le> 4096"

lemma has_image_file: "has_image h dsk tb img \<Longrightarrow> file_of h dsk = img"
  by (simp add: has_image_def file_of_def)

lemma length_set_block [simp]: "length d = 512 \<Longrightarrow> 512 * b + 512 \<le> length img \<Longrightarrow> length (set_block img b d) = length img"
  by (simp add: set_block_def)

lemma length_img_blocks: "512 * b + 512 \<le> length img \<Longrightarrow> length (img_blocks img b) = 512"
  by (simp add: img_blocks_def)

lemma img_blocks_set_block:
  assumes "length d = 512" "512 * b + 512 \<le> length img"
  shows "img_blocks (set_block img b d) = (img_blocks img)(b := d)"
proof
  fix c
  have l: "length (take (512 * b) img) = 512 * b" using assms(2) by simp
  consider "c < b" | "c = b" | "b < c" by linarith
  then show "img_blocks (set_block img b d) c = ((img_blocks img)(b := d)) c"
  proof cases
    case 1
    then have "512 * c + 512 \<le> 512 * b" by simp
    then have "take 512 (drop (512 * c) (take (512 * b) img @ xs)) = take 512 (drop (512 * c) img)" for xs
      using l by (simp add: drop_take min_absorb1)
    then have "img_blocks (set_block img b d) c = img_blocks img c" unfolding img_blocks_def set_block_def put_at_def .
    then show ?thesis using 1 by simp
  next
    case 2
    then show ?thesis using assms(1) l by (simp add: img_blocks_def set_block_def put_at_def)
  next
    case 3
    then have "512 * b + 512 \<le> 512 * c" by simp
    then have "drop (512 * c) (take (512 * b) img @ d @ drop (512 * b + 512) img) = drop (512 * c) img"
      using l assms(1) by (simp add: drop_append)
    then show ?thesis using 3 assms(1) by (simp add: img_blocks_def set_block_def put_at_def)
  qed
qed

lemma seek_block_eq: "b \<le> 4096 \<Longrightarrow> seek_block (int b) = tret (512 * b)"
  by (simp add: seek_block_def Let_def nat_mult_distrib mult.commute)

lemma read_block_eq:
  assumes "has_image h dsk tb img" "b < tb" "length data = 512"
  shows "tool_read_block dsk data (int b) h = Inr (Some (img_blocks img b), h)"
proof -
  have "512 * b + 512 \<le> length img" using assms(1,2) by (simp add: has_image_def)
  then have "put_at data 0 (img_blocks img b) = img_blocks img b" using assms(3) by (simp add: put_at_whole length_img_blocks)
  then show ?thesis using assms has_image_file [OF assms(1)]
    by (simp add: tool_read_block_def seek_block_eq has_image_def tool_defs img_blocks_def)
qed

lemma write_block_eq:
  assumes "has_image h dsk tb img" "b < tb" "length d = 512"
  shows "tool_write_block dsk (Some d) (int b) h = Inr (Some (), h(dsk \<mapsto> set_block img b d))"
    "has_image (h(dsk \<mapsto> set_block img b d)) dsk tb (set_block img b d)"
    "img_blocks (set_block img b d) = (img_blocks img)(b := d)"
proof -
  have l: "512 * b + 512 \<le> length img" using assms(1,2) by (simp add: has_image_def)
  show "tool_write_block dsk (Some d) (int b) h = Inr (Some (), h(dsk \<mapsto> set_block img b d))"
    using assms l has_image_file [OF assms(1)] by (simp add: tool_write_block_def seek_block_eq has_image_def tool_defs set_block_def)
  show "has_image (h(dsk \<mapsto> set_block img b d)) dsk tb (set_block img b d)"
    using assms l by (simp add: has_image_def)
  show "img_blocks (set_block img b d) = (img_blocks img)(b := d)" by (rule img_blocks_set_block [OF assms(3) l])
qed

section \<open>The bitmap\<close>

lemma tool_set_eq:
  assumes "p div 32 < length bm"
  shows "tool_bitmap_set bm (int p) 1 h = Inr (Some (bm_put bm p True), h)" "tool_bitmap_set bm (int p) 0 h = Inr (Some (bm_put bm p False), h)"
  using assms by (simp_all add: tool_bitmap_set_def Let_def tool_defs bm_put_def set_bit_eq_or unset_bit_eq_and_not)

lemma tool_get_eq: "p div 32 < length bm \<Longrightarrow> tool_bitmap_get bm (int p) = Inr (of_bool (bm_bit bm p))"
  by (simp add: tool_bitmap_get_def bm_bit_def and_one_bit)

lemma tool_findnset_loop_eq:
  assumes "bm_covers bm l" "i + n = l" "\<And>q. q < i \<Longrightarrow> bm_bit bm q"
  shows "tool_findnset_loop bm i n h =
    Inr (Some (if bm_first_zero bm l < l then (int (bm_first_zero bm l), bm_put bm (bm_first_zero bm l) True) else (-1, bm)), h)"
  using assms(2,3)
proof (induction n arbitrary: i)
  case 0
  then show ?case by (simp add: tret_def bm_first_zero_none)
next
  case (Suc n)
  have i: "i div 32 < length bm" using bm_covers_nth [OF assms(1), of i] Suc.prems(1) by simp
  show ?case
  proof (cases "bm_bit bm i")
    case True
    then have "q < Suc i \<Longrightarrow> bm_bit bm q" for q using Suc.prems(2) less_Suc_eq by auto
    with Suc.IH [of "Suc i"] Suc.prems(1) True show ?thesis using i by (simp add: tbind_def tlift_def tool_get_eq)
  next
    case False
    then have "bm_first_zero bm l = i" using Suc.prems by (intro bm_first_zero_unique) auto
    then show ?thesis using i False Suc.prems(1) by (simp add: tool_defs tool_get_eq tool_set_eq)
  qed
qed

lemma tool_findnset_eq:
  assumes "bm_covers bm l"
  shows "tool_bitmap_findnset bm (int l) h = rbind (bitmap_findnset bm (int l)) (\<lambda>r. Inr (Some r, h))"
  using tool_findnset_loop_eq [OF assms, of 0 l] bitmap_findnset_eq [OF assms] by (simp add: tool_bitmap_findnset_def)

section \<open>Names\<close>

lemma strncmp_cstr:
  assumes "cstr a x" "cstr b y" "length a < n \<or> length b < n"
  shows "\<exists>d. strncmp x y n = Inr d \<and> (d = 0 \<longleftrightarrow> a = b)"
  using assms
proof (induction x y n arbitrary: a b rule: strncmp.induct)
  case (2 c x e y n)
  show ?case
  proof (cases "c = e")
    case True
    show ?thesis
    proof (cases "c = 0")
      case False
      then obtain a' b' where "a = c # a'" "b = c # b'" "cstr a' x" "cstr b' y" using 2(2,3) True by (auto split: if_splits)
      with 2(1) [of a' b'] 2(4) True False show ?thesis by auto
    qed (use 2(2,3) True in auto)
  next
    case False
    then have "uint c - uint e \<noteq> 0" by (simp add: word_uint_eq_iff)
    moreover have "a \<noteq> b" using 2(2,3) False by (auto split: if_splits)
    ultimately show ?thesis using False by simp
  qed
qed auto

lemma entry_name_short:
  assumes "fs_ok tb C" "i < 25"
  shows "length (if used C i then entry_name C i else []) < 16"
proof -
  have "length (takeWhile (\<lambda>c. c \<noteq> 0) w) < length w" if "0 \<in> set w" for w :: "u8 list"
    using that by (induction w) auto
  from this [of "name_bytes C i"] fs_okD(4) [OF assms] show ?thesis
    by (auto simp: entry_ok_def entry_name_def name_bytes_def)
qed

lemma tool_compare:
  assumes ok: "fs_ok tb C" and i: "i < 25" and nm: "cstr nm fname"
  shows "\<exists>d. strncmp (dir_name (C 2) i) fname 16 = Inr d \<and> (d = 0 \<longleftrightarrow> (if used C i then entry_name C i else []) = nm)"
  using strncmp_cstr [OF dir_name_cstr [OF ok i] nm] entry_name_short [OF ok i] by blast

lemma tool_find_eq:
  assumes ok: "fs_ok tb C" and nm: "cstr nm fname"
  shows "tool_find (C 2) fname = Inr (first_index (\<lambda>i. (if used C i then entry_name C i else []) = nm) [0..<25])"
  unfolding tool_find_def
proof (rule first_indexR_total)
  fix i assume "i \<in> set [0..<25]"
  then have "i < 25" by simp
  from tool_compare [OF ok this nm] obtain d where
    "strncmp (dir_name (C 2) i) fname 16 = Inr d" "d = 0 \<longleftrightarrow> (if used C i then entry_name C i else []) = nm" by blast
  then show "rbind (strncmp (dir_name (C 2) i) fname (nat 16)) (\<lambda>d. Inr (d = 0)) = Inr ((if used C i then entry_name C i else []) = nm)"
    by simp
qed

lemma tool_find_name:
  assumes ok: "fs_ok tb C" and nm: "cstr nm fname" "nm \<noteq> []"
  shows "tool_find (C 2) fname = dir_search (C 2) fname"
proof -
  have "((if used C i then entry_name C i else []) = nm) = (used C i \<and> entry_name C i = nm)" for i using nm(2) by auto
  then show ?thesis unfolding tool_find_eq [OF ok nm(1)] dir_search_eq [OF ok nm] by simp
qed

text \<open>
  The tool takes the first free entry of the directory, the kernel the last one.
\<close>

lemma tool_scan_eq:
  assumes ok: "fs_ok tb C" and nm: "cstr nm fname" "nm \<noteq> []"
  shows "i + n = 25 \<Longrightarrow> index = -1 \<or> (0 \<le> index \<and> index < int i \<and> \<not> used C (nat index)) \<Longrightarrow>
    \<exists>index'. tool_scan (C 2) fname i n index =
      Inr (if \<exists>j. i \<le> j \<and> j < 25 \<and> used C j \<and> entry_name C j = nm then None else Some index')
    \<and> (if index = -1 \<and> (\<forall>j. i \<le> j \<and> j < 25 \<longrightarrow> used C j) then index' = -1 else 0 \<le> index' \<and> index' < 25 \<and> \<not> used C (nat index'))"
proof (induction n arbitrary: i index)
  case (Suc n)
  then have i: "i < 25" by simp
  obtain d where d: "strncmp (dir_name (C 2) i) fname 16 = Inr d" "d = 0 \<longleftrightarrow> used C i \<and> entry_name C i = nm"
    using tool_compare [OF ok i nm(1)] nm(2) by (auto split: if_splits)
  let ?ix = "if dir_inode (C 2) i = 0 \<and> index = -1 then int i else index"
  have u: "dir_inode (C 2) i = 0 \<longleftrightarrow> \<not> used C i" by (simp add: used_def)
  have prem: "?ix = -1 \<or> (0 \<le> ?ix \<and> ?ix < int (Suc i) \<and> \<not> used C (nat ?ix))" using Suc.prems(2) u by auto
  have "Suc i + n = 25" using Suc.prems(1) by simp
  from Suc.IH [OF this prem] obtain ix where ix: "tool_scan (C 2) fname (Suc i) n ?ix =
      Inr (if \<exists>j. Suc i \<le> j \<and> j < 25 \<and> used C j \<and> entry_name C j = nm then None else Some ix)"
    "if ?ix = -1 \<and> (\<forall>j. Suc i \<le> j \<and> j < 25 \<longrightarrow> used C j) then ix = -1 else 0 \<le> ix \<and> ix < 25 \<and> \<not> used C (nat ix)" by blast
  have sp: "(\<exists>j. i \<le> j \<and> j < 25 \<and> P j) \<longleftrightarrow> P i \<or> (\<exists>j. Suc i \<le> j \<and> j < 25 \<and> P j)" for P
    using i by (metis Suc_le_eq le_eq_less_or_eq)
  have all: "(\<forall>j. i \<le> j \<and> j < 25 \<longrightarrow> used C j) \<longleftrightarrow> used C i \<and> (\<forall>j. Suc i \<le> j \<and> j < 25 \<longrightarrow> used C j)"
    using i by (metis Suc_le_eq le_eq_less_or_eq)
  have "?ix = -1 \<longleftrightarrow> index = -1 \<and> used C i" using u by auto
  then have c: "if index = -1 \<and> (\<forall>j. i \<le> j \<and> j < 25 \<longrightarrow> used C j) then ix = -1 else 0 \<le> ix \<and> ix < 25 \<and> \<not> used C (nat ix)"
    using ix(2) unfolding all by (simp split: if_splits)
  have "tool_scan (C 2) fname i (Suc n) index =
      Inr (if \<exists>j. i \<le> j \<and> j < 25 \<and> used C j \<and> entry_name C j = nm then None else Some ix)"
    unfolding sp using d ix(1) by (auto simp: Let_def)
  then show ?case using c by blast
qed auto

section \<open>Writing the blocks of a file\<close>

text \<open>The number of blocks that the tool takes for the rest of a file from block \<open>i\<close> of the file on.\<close>

definition tool_blocks :: "nat \<Rightarrow> nat \<Rightarrow> nat" where
  "tool_blocks i sz = min (sz div 512 + 1) (127 - i)"

lemma chunk_concat:
  assumes "length d = 512" "take (min (length (drop 512 src)) (512 * k)) (concat ds) = take (512 * k) (drop 512 src)"
    "put_at d0 0 (take 512 src) = d" "length d0 = 512"
  shows "take (min (length src) (512 * Suc k)) (d @ concat ds) = take (512 * Suc k) src"
proof (cases "length src < 512")
  case True
  then show ?thesis using assms(3) by (auto simp: put_at_def)
next
  case False
  then have "d = take 512 src" using assms(3,4) by (simp add: put_at_def)
  moreover have "min (length src) (512 * Suc k) = 512 + min (length (drop 512 src)) (512 * k)" using False by simp
  moreover have "take (512 * Suc k) src = take 512 src @ take (512 * k) (drop 512 src)" by (simp add: take_add)
  ultimately show ?thesis using assms(1,2) by simp
qed

definition data_written :: "nat \<Rightarrow> u32 list \<Rightarrow> u32 list \<Rightarrow> u8 list \<Rightarrow> u8 list \<Rightarrow> nat \<Rightarrow> nat list \<Rightarrow> blocks \<Rightarrow> blocks \<Rightarrow> bool" where
  "data_written tb bat bat' ib ib' i bl C C' \<longleftrightarrow> distinct bl \<and> set bl \<subseteq> bm.free_slots bat tb \<and> length bat' = length bat
     \<and> (\<forall>q. bm_bit bat' q = (q \<in> set bl \<or> bm_bit bat q)) \<and> length ib' = 512
     \<and> (\<forall>j < 127. blkw ib' j = (if i \<le> j \<and> j < i + length bl then of_nat (bl ! (j - i)) else blkw ib j))
     \<and> (\<forall>b. b \<notin> set bl \<longrightarrow> C' b = C b) \<and> (\<forall>b \<in> set bl. length (C' b) = 512)"

lemma data_written_Cons:
  assumes p: "p \<in> bm.free_slots bat tb" "length bat1 = length bat" "\<forall>q. bm_bit bat1 q = (q = p \<or> bm_bit bat q)"
      "bm.free_slots bat1 tb = bm.free_slots bat tb - {p}"
    and i: "i < 127" "length ib = 512" and d: "length d = 512"
    and w: "data_written tb bat1 bat' (wr32 ib (4 + 4 * i) (of_nat p)) ib' (Suc i) bl (C(p := d)) C'"
  shows "data_written tb bat bat' ib ib' i (p # bl) C C'" "C' p = d"
proof -
  have np: "p \<notin> set bl" using w p(4) by (auto simp: data_written_def)
  then show "C' p = d" using w by (simp add: data_written_def)
  have "blkw ib' j = (if i \<le> j \<and> j < i + length (p # bl) then of_nat ((p # bl) ! (j - i)) else blkw ib j)" if "j < 127" for j
  proof (cases "j \<le> i")
    case False
    then have "j - i = Suc (j - Suc i)" by simp
    then show ?thesis using w that False i by (simp add: data_written_def blkw_wr32)
  qed (use w that i in \<open>auto simp: data_written_def blkw_wr32\<close>)
  then show "data_written tb bat bat' ib ib' i (p # bl) C C'"
    using w p d np \<open>C' p = d\<close> by (auto simp: data_written_def)
qed

lemma data_written_Nil: "length ib = 512 \<Longrightarrow> data_written tb bat bat ib ib i [] C C"
  by (auto simp: data_written_def)

lemma write_data_ok:
  assumes "has_image h dsk tb img" "bm_covers bat tb" "\<forall>b < 3. bm_bit bat b" "bm.free_count bat tb < n" "length ib = 512" "length data = 512"
    "i \<le> 127"
  shows "\<exists>ok fs' bat' ib' img' bl. write_data dsk tb i n bat ib data src (512 * i) h = Inr (Some (ok, fs', bat', ib'), h(dsk \<mapsto> img'))
    \<and> has_image (h(dsk \<mapsto> img')) dsk tb img' \<and> data_written tb bat bat' ib ib' i bl (img_blocks img) (img_blocks img')
    \<and> (ok \<longleftrightarrow> tool_blocks i (length src) \<le> bm.free_count bat tb)
    \<and> (ok \<longrightarrow> length bl = tool_blocks i (length src) \<and> fs' = 512 * i + min (length src) (512 * (127 - i))
        \<and> take (min (length src) (512 * length bl)) (concat (map (img_blocks img') bl)) = take (512 * length bl) src)"
  using assms
proof (induction n arbitrary: h img bat ib data src i)
  case (Suc n)
  have hd: "h(dsk \<mapsto> img) = h" using Suc.prems(1) by (auto simp: has_image_def fun_upd_idem)
  show ?case
  proof (cases "i = 127")
    case True
    then have "write_data dsk tb i (Suc n) bat ib data src (512 * i) h = Inr (Some (True, 512 * i, bat, ib), h(dsk \<mapsto> img))"
      using hd by (simp add: tret_def)
    then show ?thesis using True Suc.prems(1,5) hd data_written_Nil
      by - (rule exI [of _ True], rule exI [of _ "512 * i"], rule exI [of _ bat], rule exI [of _ ib], rule exI [of _ img], rule exI [of _ "[]"], simp add: tool_blocks_def)
  next
    case False
    then have i: "i < 127" using Suc.prems(7) by simp
    show ?thesis
    proof (cases "bm.free_count bat tb = 0")
      case True
      then have "write_data dsk tb i (Suc n) bat ib data src (512 * i) h = Inr (Some (False, 512 * i, bat, ib), h(dsk \<mapsto> img))"
        using i hd bm.claim_full [OF Suc.prems(2) True] tool_findnset_eq [OF Suc.prems(2)] by (simp add: tool_defs)
      then show ?thesis using True Suc.prems(1,5) hd data_written_Nil i
        by - (rule exI [of _ False], rule exI [of _ "512 * i"], rule exI [of _ bat], rule exI [of _ ib], rule exI [of _ img], rule exI [of _ "[]"], simp add: tool_blocks_def)
    next
      case False
      then obtain p bat1 where p: "bitmap_findnset bat (int tb) = Inr (int p, bat1)" "p \<in> bm.free_slots bat tb"
        "bm_covers bat1 tb" "length bat1 = length bat" "\<forall>q. bm_bit bat1 q = (q = p \<or> bm_bit bat q)"
        "bm.free_slots bat1 tb = bm.free_slots bat tb - {p}" "bm.free_count bat1 tb = bm.free_count bat tb - 1"
        using claim_step [OF Suc.prems(2)] by auto
      have pt: "p < tb" "2 < p" using p(2) Suc.prems(3) by (auto simp: bm.free_slots_def intro: ccontr)
      let ?d = "put_at data 0 (take 512 src)" and ?ib = "wr32 ib (4 + 4 * i) (of_nat p)"
      have d: "length ?d = 512" using Suc.prems(6) by simp
      note w = write_block_eq [OF Suc.prems(1) pt(1) d]
      let ?img = "set_block img p ?d"
      have ib: "length ?ib = 512" "4 * i + 8 \<le> length ib" using i Suc.prems(5) by simp_all
      have step: "write_data dsk tb i (Suc n) bat ib data src (512 * i) h =
        (if length src < 512 then Inr (Some (True, 512 * i + length src, bat1, ?ib), h(dsk \<mapsto> ?img))
         else write_data dsk tb (Suc i) n bat1 ?ib ?d (drop 512 src) (512 * Suc i) (h(dsk \<mapsto> ?img)))"
        using i p(1) pt w(1) ib(2) tool_findnset_eq [OF Suc.prems(2)]
        by (simp add: tool_defs Let_def add.commute [of "512 * i" 512])
      show ?thesis
      proof (cases "length src < 512")
        case True
        have dw: "data_written tb bat bat1 ib ?ib i [p] (img_blocks img) (img_blocks ?img)" "img_blocks ?img p = ?d"
          using data_written_Cons [OF p(2,4,5,6) i Suc.prems(5) d data_written_Nil [OF ib(1)], of "img_blocks img"] w(3) by simp_all
        have c: "take (length src) ?d = src" using True by (simp add: put_at_def)
        have n: "tool_blocks i (length src) = 1" "512 * i + min (length src) (512 * (127 - i)) = 512 * i + length src" "1 \<le> bm.free_count bat tb"
          using True i False by (simp_all add: tool_blocks_def)
        have "take (min (length src) (512 * length [p])) (concat (map (img_blocks ?img) [p])) = take (512 * length [p]) src"
          using c True dw(2) by simp
        moreover have "write_data dsk tb i (Suc n) bat ib data src (512 * i) h = Inr (Some (True, 512 * i + length src, bat1, ?ib), h(dsk \<mapsto> ?img))"
          unfolding step if_P [OF True] by (rule refl)
        moreover have "length [p] = 1" by simp
        ultimately show ?thesis unfolding n(1,2) using w(2) dw(1) n(3)
          by blast
      next
        case big: False
        have "\<forall>b < 3. bm_bit bat1 b" "bm.free_count bat1 tb < n" "Suc i \<le> 127"
          using Suc.prems(3,4) p(5,7) False i by auto
        from Suc.IH [OF w(2) p(3) this(1,2) ib(1) d this(3), of "drop 512 src"] obtain ok fs' bat' ib' img' bl where
          IH: "write_data dsk tb (Suc i) n bat1 ?ib ?d (drop 512 src) (512 * Suc i) (h(dsk \<mapsto> ?img)) = Inr (Some (ok, fs', bat', ib'), h(dsk \<mapsto> img'))"
          "has_image (h(dsk \<mapsto> img')) dsk tb img'" "data_written tb bat1 bat' ?ib ib' (Suc i) bl (img_blocks ?img) (img_blocks img')"
          "ok \<longleftrightarrow> tool_blocks (Suc i) (length (drop 512 src)) \<le> bm.free_count bat1 tb"
          "ok \<longrightarrow> length bl = tool_blocks (Suc i) (length (drop 512 src)) \<and> fs' = 512 * Suc i + min (length (drop 512 src)) (512 * (127 - Suc i))
            \<and> take (min (length (drop 512 src)) (512 * length bl)) (concat (map (img_blocks img') bl)) = take (512 * length bl) (drop 512 src)"
          unfolding fun_upd_upd by blast
        have tb: "tool_blocks i (length src) = Suc (tool_blocks (Suc i) (length (drop 512 src)))"
        proof -
          have "length src div 512 = Suc ((length src - 512) div 512)" using big by (simp add: div_if)
          moreover have "127 - i = Suc (126 - i)" using i by simp
          ultimately show ?thesis by (simp add: tool_blocks_def)
        qed
        note dw = data_written_Cons [OF p(2,4,5,6) i Suc.prems(5) d, of bat' ib' bl "img_blocks img" "img_blocks img'"]
        have dw: "data_written tb bat bat' ib ib' i (p # bl) (img_blocks img) (img_blocks img')" "img_blocks img' p = ?d"
          using dw IH(3) w(3) by simp_all
        have "512 * Suc i + min (length (drop 512 src)) (512 * (127 - Suc i)) = 512 * i + min (length src) (512 * (127 - i))"
          using big i by (auto simp: min_def)
        moreover have "ok \<longleftrightarrow> tool_blocks i (length src) \<le> bm.free_count bat tb" using IH(4) False unfolding tb p(7) by linarith
        moreover have "ok \<Longrightarrow> take (min (length src) (512 * Suc (length bl))) (?d @ concat (map (img_blocks img') bl)) = take (512 * Suc (length bl)) src"
          by (rule chunk_concat [OF d _ refl Suc.prems(6)]) (use IH(5) in blast)
        moreover have "write_data dsk tb i (Suc n) bat ib data src (512 * i) h = Inr (Some (ok, fs', bat', ib'), h(dsk \<mapsto> img'))"
          unfolding step if_not_P [OF big] by (rule IH(1))
        moreover have "concat (map (img_blocks img') (p # bl)) = ?d @ concat (map (img_blocks img') bl)" "length (p # bl) = Suc (length bl)"
          using dw(2) by simp_all
        ultimately show ?thesis using IH(2,5) dw(1) tb by metis
      qed
    qed
  qed
qed simp

section \<open>Putting a file into an image\<close>

lemma strncpy_cstr: "cstr nm b \<Longrightarrow> length nm < n \<Longrightarrow> strncpy b n = Inr (nm @ replicate (n - length nm) 0)"
proof (induction b n arbitrary: nm rule: strncpy.induct)
  case (2 c b n)
  show ?case
  proof (cases "c = 0")
    case False
    then obtain nm' where "nm = c # nm'" "cstr nm' b" using 2(2) by (auto split: if_splits)
    with 2(1) [OF False, of nm'] 2(3) False show ?thesis by simp
  qed (use 2(2) in \<open>simp split: if_splits\<close>)
qed auto

text \<open>
  Changes of blocks that no file uses.
\<close>

lemma scribble_free:
  assumes ok: "fs_ok tb C" and c: "\<And>b. b \<notin> S \<Longrightarrow> C' b = C b" "S \<inter> {..<tb} \<subseteq> fs_free tb C" "\<And>b. b \<in> S \<Longrightarrow> b < tb \<Longrightarrow> length (C' b) = 512"
  shows "fs_ok tb C'" "fs_map C' = fs_map C" "C' 0 = C 0"
proof -
  have sys: "3 \<le> b" if "b \<in> S" for b using c(2) that fs_okD(8) [OF ok, of b] fs_okD(1) [OF ok] by (cases "b < tb") (auto simp: fs_free_def)
  then have e: "C' 0 = C 0" "C' 1 = C 1" "C' 2 = C 2" using c(1) [of 0] c(1) [of 1] c(1) [of 2] by fastforce+
  then have nb: "name_bytes C' j = name_bytes C j" for j by (simp add: name_bytes_def)
  have same: "same_entry C C' j" if "j < 25" for j
  proof -
    have "C' b = C b" if "used C j" "b \<in> set (owned C j)" for b
      using fs_okD(8) [OF ok, of b] owned_not_system(2) [OF ok \<open>j < 25\<close> that] that \<open>j < 25\<close> c(2) by (intro c(1)) (auto simp: fs_free_def)
    then show ?thesis using e nb by (simp add: same_entry_def)
  qed
  show "C' 0 = C 0" by (rule e)
  have len: "length (C' b) = 512" if "b < tb" for b using c(1,3) fs_okD(3) [OF ok that] that by (cases "b \<in> S") auto
  show ok': "fs_ok tb C'"
  proof (rule fs_ok_change [OF ok, of 0])
    note s = same_entryD [OF same [of 0]]
    show "if used C' 0 then entry_ok tb C' 0 \<and> (\<forall>j < 25. j \<noteq> 0 \<and> used C j \<longrightarrow> set (owned C' 0) \<inter> set (owned C j) = {} \<and> entry_name C' 0 \<noteq> entry_name C j)
      else C' 2 ! (20 * 0 + 4) = 0"
      using s fs_okD(4) [OF ok, of 0] fs_okD(5) [OF ok, of 0] fs_okD(6,7) [OF ok, of 0] e by auto
    show "bm_bit (words_of (C' 1)) b \<longleftrightarrow> b < 3 \<or> (\<exists>j < 25. j \<noteq> 0 \<and> used C j \<and> b \<in> set (owned C j)) \<or> (used C' 0 \<and> b \<in> set (owned C' 0))" if "b < tb" for b
      using fs_okD(8) [OF ok that] s e(2) by (metis zero_less_numeral)
  qed (use same len in auto)
  show "fs_map C' = fs_map C"
  proof
    fix x
    show "fs_map C' x = fs_map C x"
    proof (rule fs_map_cases [OF ok, of x])
      fix j assume j: "j < 25" "used C j" "entry_name C j = x" "fs_map C x = Some (file_data C (inode_of C j))"
      then show ?thesis using fs_map_Some [OF ok' j(1), of x] same_entryD [OF same [OF j(1)]] by simp
    next
      assume "fs_map C x = None" "\<forall>j < 25. used C j \<longrightarrow> entry_name C j \<noteq> x"
      then show ?thesis using same_entryD [OF same] fs_map_None [of C' x] by auto
    qed
  qed
qed

text \<open>
  The directory block after the new entry has been made.
\<close>

lemma new_entry:
  fixes w :: u32
  assumes md: "length md = 512" "i < 25" and nm: "cstr nm target" "length nm \<le> 15"
  defines "md' \<equiv> put_at (wr32 md (20 * i) w) (20 * i + 4) (nm @ replicate (16 - length nm) 0)"
  shows "outside_entry md md' i" "dir_inode md' i = w" "take (Suc (length nm)) (dir_name md' i) = nm @ [0]"
proof -
  let ?w = "wr32 md (20 * i) w"
  have l: "length ?w = 512" "length (take (20 * i + 4) ?w) = 20 * i + 4" "length (nm @ replicate (16 - length nm) 0) = 16"
    using md nm(2) by simp_all
  have eq: "md' = take (20 * i + 4) ?w @ (nm @ replicate (16 - length nm) 0) @ drop (20 * i + 20) ?w"
    unfolding md'_def put_at_def l(3) by (simp add: add.commute)
  have "md' ! k = ?w ! k" if "k < 20 * i + 4 \<or> 20 * i + 20 \<le> k" "k < 512" for k
  proof (cases "k < 20 * i + 4")
    case False
    then have k: "20 * i + 20 \<le> k" using that(1) by simp
    then obtain e where e: "k = length (take (20 * i + 4) ?w @ (nm @ replicate (16 - length nm) 0)) + e"
      using l le_Suc_ex [of "20 * i + 20" k] by auto
    then have "md' ! k = drop (20 * i + 20) ?w ! e" unfolding eq append_assoc [symmetric] by (simp only: nth_append_length_plus)
    moreover have "k = 20 * i + 20 + e" using e l by simp
    ultimately show ?thesis using l(1) that(2) by simp
  qed (use l in \<open>simp add: eq nth_append\<close>)
  then have n: "\<And>k. k < 20 * i + 4 \<or> 20 * i + 20 \<le> k \<Longrightarrow> k < 512 \<Longrightarrow> md' ! k = ?w ! k" by blast
  have "length md' = 512" unfolding md'_def using l md(2) by simp
  then show "outside_entry md md' i" using n outside_entry_wr32 [OF md] md(2) by (simp add: outside_entry_def)
  have "dir_inode md' i = dir_inode ?w i"
    using n [of "20 * i"] n [of "20 * i + 1"] n [of "20 * i + 2"] n [of "20 * i + 3"] md(2) by (simp add: dir_inode_def rd32_def)
  then show "dir_inode md' i = w" using rd32_wr32_same [of "20 * i" md w] md by (simp add: dir_inode_def)
  have "replicate (16 - length nm) 0 = 0 # replicate (15 - length nm) (0::u8)" using nm(2) by (simp add: Suc_diff_le flip: replicate_Suc)
  then show "take (Suc (length nm)) (dir_name md' i) = nm @ [0]" unfolding dir_name_def eq using l(2) by simp
qed

text \<open>
  The blocks of the new file are written, then inode, directory and bitmap.
\<close>

lemma write_meta_ok:
  assumes im: "has_image h dsk tb img" and nm: "cstr nm target" "length nm \<le> 15"
    and ib: "length ib = 512" and bat: "length bat = 128" and p: "2 < p" "p < tb" and i: "i < 25"
    and md: "md = img_blocks img 2"
  shows "\<exists>img'. write_meta dsk target i (int p) md ib bat sz h = Inr (Some (), h(dsk \<mapsto> img')) \<and> has_image (h(dsk \<mapsto> img')) dsk tb img'
    \<and> img_blocks img' = (img_blocks img)(p := wr32 ib 0 (of_nat sz), 2 := put_at (wr32 md (20 * i) (of_nat p)) (20 * i + 4) (nm @ replicate (16 - length nm) 0), 1 := bytes_of bat)"
proof -
  let ?md = "put_at (wr32 md (20 * i) (of_nat p)) (20 * i + 4) (nm @ replicate (16 - length nm) 0)" and ?ib = "wr32 ib 0 (of_nat sz)"
  have l: "length md = 512" "length ?ib = 512" "length (bytes_of bat) = 512"
    using p im md ib bat by (simp_all add: length_img_blocks has_image_def)
  have lm: "length ?md = 512" using new_entry(1) [OF l(1) i nm] by (simp add: outside_entry_def)
  have tb: "2 < tb" "1 < tb" using p by simp_all
  note w1 = write_block_eq [OF im p(2) l(2)]
  note w2 = write_block_eq [OF w1(2) tb(1) lm, unfolded w1(3)]
  note w3 = write_block_eq [OF w2(2) tb(2) l(3), unfolded w2(3)]
  have "write_meta dsk target i (int p) md ib bat sz h =
      Inr (Some (), h(dsk \<mapsto> set_block (set_block (set_block img p ?ib) 2 ?md) 1 (bytes_of bat)))"
    using w1(1) w2(1) w3(1) strncpy_cstr [OF nm(1), of 16] nm(2) by (simp add: write_meta_def tbind_def tlift_def)
  then show ?thesis using w3(2,3) by auto
qed

definition image_ok :: "nat \<Rightarrow> u8 list \<Rightarrow> bool" where
  "image_ok tb img \<longleftrightarrow> length img = 512 * tb \<and> fs_ok tb (img_blocks img)"

lemma image_ok_has: "image_ok tb img \<Longrightarrow> h dsk = Some img \<Longrightarrow> has_image h dsk tb img"
  using fs_okD(2) [of tb "img_blocks img"] by (simp add: image_ok_def has_image_def)

lemma numblocks_eq: "has_image h dsk tb img \<Longrightarrow> tfstool_numblocks dsk h = Inr (Some tb, h)"
  by (simp add: tfstool_numblocks_def getfilesize_def tool_defs has_image_file) (simp add: has_image_def)

text \<open>What \<open>tfstool_write\<close> does after it has found the free entry \<open>i\<close> of the directory.\<close>

definition write_file :: "u8 list \<Rightarrow> u8 list \<Rightarrow> u8 list \<Rightarrow> nat \<Rightarrow> u8 list \<Rightarrow> u8 list \<Rightarrow> nat \<Rightarrow> u32 list \<Rightarrow> unit tool" where
  "write_file dsk source target index md data nb bat h =
     tbind (tool_bitmap_findnset bat (int nb)) (\<lambda>(inode_bnum, bat).
       if 2 < inode_bnum \<and> inode_bnum < int nb then
         tbind (\<lambda>h. write_data dsk nb 0 nb bat (replicate 512 0) data (file_of h source) 0 h) (\<lambda>(writeok, filesize, bat, ib).
           if filesize \<noteq> length (file_of h source) then texit
           else if writeok then write_meta dsk target index inode_bnum md ib bat filesize
           else texit)
       else texit) h"

lemma take_blocks:
  "(\<And>b. b \<in> set bl \<Longrightarrow> length (C b) = 512) \<Longrightarrow> concat (map C (take n bl)) = take (512 * n) (concat (map C bl))"
proof (induction bl arbitrary: n)
  case (Cons b bl)
  then show ?case by (cases n) simp_all
qed simp

lemma write_file_ok:
  assumes im: "has_image h dsk tb img" and ok: "fs_ok tb (img_blocks img)" and src: "h source = Some src"
    and nm: "cstr nm target" "nm \<noteq> []" "length nm \<le> 15" and i: "i < 25" "\<not> used (img_blocks img) i" and fresh: "fs_map (img_blocks img) nm = None"
    and d: "length data = 512"
  defines "fits \<equiv> length src \<le> 65024 \<and> tool_blocks 0 (length src) + 1 \<le> card (fs_free tb (img_blocks img))"
  shows "\<exists>img'. write_file dsk source target i (img_blocks img 2) data tb (words_of (img_blocks img 1)) h = Inr (if fits then Some () else None, h(dsk \<mapsto> img'))
    \<and> has_image (h(dsk \<mapsto> img')) dsk tb img' \<and> fs_ok tb (img_blocks img') \<and> img_blocks img' 0 = img_blocks img 0
    \<and> fs_map (img_blocks img') = (if fits then (fs_map (img_blocks img))(nm \<mapsto> src) else fs_map (img_blocks img))"
proof -
  let ?C = "img_blocks img" and ?bat = "words_of (img_blocks img 1)"
  have hd: "h(dsk \<mapsto> img) = h" using im by (auto simp: has_image_def fun_upd_idem)
  have tb: "3 \<le> tb" "tb \<le> 4096" using fs_okD(1,2) [OF ok] by auto
  have lb: "length ?bat = 128" using fs_okD(3) [OF ok, of 1] tb by simp
  then have cov: "bm_covers ?bat tb" using tb by (simp add: bm_covers_def)
  have fr: "fs_free tb ?C = bm.free_slots ?bat tb" "card (fs_free tb ?C) = bm.free_count ?bat tb"
    by (simp_all add: fs_free_def bm.free_slots_def bm.free_count_def)
  have sys: "\<forall>b < 3. bm_bit ?bat b" using fs_okD(8) [OF ok] tb by simp
  show ?thesis
  proof (cases "bm.free_count ?bat tb = 0")
    case True
    then have "write_file dsk source target i (?C 2) data tb ?bat h = Inr (None, h(dsk \<mapsto> img))"
      using bm.claim_full [OF cov] tool_findnset_eq [OF cov] hd by (simp add: write_file_def tool_defs)
    then show ?thesis using True ok im hd fr(2) by (intro exI [of _ img]) (simp add: fits_def)
  next
    case False
    then obtain p bat1 where p: "bitmap_findnset ?bat (int tb) = Inr (int p, bat1)" "p \<in> bm.free_slots ?bat tb"
      "bm_covers bat1 tb" "length bat1 = length ?bat" "\<forall>q. bm_bit bat1 q = (q = p \<or> bm_bit ?bat q)"
      "bm.free_slots bat1 tb = bm.free_slots ?bat tb - {p}" "bm.free_count bat1 tb = bm.free_count ?bat tb - 1"
      using claim_step [OF cov] by auto
    have pt: "p < tb" "2 < p" using p(2) sys by (auto simp: bm.free_slots_def intro: ccontr)
    have "bm.free_slots ?bat tb \<subseteq> {3..<tb}" using sys by (auto simp: bm.free_slots_def intro: ccontr)
    then have "bm.free_count ?bat tb \<le> tb - 3" unfolding bm.free_count_def using card_mono [of "{3..<tb}"] by fastforce
    then have fc: "bm.free_count bat1 tb < tb" using p(7) tb(1) by simp
    have sys1: "\<forall>b < 3. bm_bit bat1 b" using sys p(5) by simp
    obtain ok' fs' bat' ib' img1 bl where w: "write_data dsk tb 0 tb bat1 (replicate 512 0) data src (512 * 0) h = Inr (Some (ok', fs', bat', ib'), h(dsk \<mapsto> img1))"
      "has_image (h(dsk \<mapsto> img1)) dsk tb img1" "data_written tb bat1 bat' (replicate 512 0) ib' 0 bl ?C (img_blocks img1)"
      "ok' \<longleftrightarrow> tool_blocks 0 (length src) \<le> bm.free_count bat1 tb"
      "ok' \<longrightarrow> length bl = tool_blocks 0 (length src) \<and> fs' = 512 * 0 + min (length src) (512 * (127 - 0))
        \<and> take (min (length src) (512 * length bl)) (concat (map (img_blocks img1) bl)) = take (512 * length bl) src"
      using write_data_ok [OF im p(3) sys1 fc _ d, of "replicate 512 0" 0 src] by auto
    have fits: "fits \<longleftrightarrow> ok' \<and> length src \<le> 65024" using w(4) p(7) False fr(2) by (auto simp: fits_def)
    have step: "write_file dsk source target i (?C 2) data tb ?bat h =
      (if fits then write_meta dsk target i (int p) (?C 2) ib' bat' fs' (h(dsk \<mapsto> img1)) else Inr (None, h(dsk \<mapsto> img1)))"
      using p(1) pt w(1,5) fits src tool_findnset_eq [OF cov] by (auto simp: write_file_def tool_defs file_of_def)
    have sub: "set bl \<subseteq> fs_free tb ?C" "\<And>b. b \<notin> set bl \<Longrightarrow> img_blocks img1 b = ?C b" "\<And>b. b \<in> set bl \<Longrightarrow> length (img_blocks img1 b) = 512"
      "distinct (p # bl)" using w(3) p(6) fr(1) by (auto simp: data_written_def)
    show ?thesis
    proof (cases fits)
      case False
      then show ?thesis using step w(2) scribble_free [where C = ?C and C' = "img_blocks img1" and S = "set bl", OF ok sub(2)] sub(1,3)
        by (intro exI [of _ img1]) auto
    next
      case True
      have ib: "length ib' = 512" "\<And>j. j < 127 \<Longrightarrow> blkw ib' j = (if j < length bl then of_nat (bl ! j) else 0)"
        using w(3) by (auto simp: data_written_def blkw_def rd32_def word_of_bytes_def)
      have lb': "length bat' = 128" using w(3) p(4) lb by (simp add: data_written_def)
      have fsz: "fs' = length src" using w(5) fits True by simp
      have f3: "3 \<le> b" if "b \<in> set (p # bl)" for b
      proof (rule ccontr)
        have "b \<in> bm.free_slots ?bat tb" using that p(2) sub(1) fr(1) by auto
        moreover assume "\<not> 3 \<le> b"
        ultimately show False using sys by (simp add: bm.free_slots_def)
      qed
      then have nb: "b \<notin> set (p # bl)" if "b < 3" for b using that by fastforce
      have md: "?C 2 = img_blocks img1 2" using sub(2) [of 2] nb [of 2] by simp
      from write_meta_ok [OF w(2) nm(1,3) ib(1) lb' pt(2,1) i(1) md, of fs'] obtain img2 where
        m: "write_meta dsk target i (int p) (?C 2) ib' bat' fs' (h(dsk \<mapsto> img1)) = Inr (Some (), h(dsk \<mapsto> img2))"
        "has_image (h(dsk \<mapsto> img2)) dsk tb img2"
        "img_blocks img2 = (img_blocks img1)(p := wr32 ib' 0 (of_nat fs'), 2 := put_at (wr32 (?C 2) (20 * i) (of_nat p)) (20 * i + 4) (nm @ replicate (16 - length nm) 0), 1 := bytes_of bat')"
        by auto
      let ?C' = "img_blocks img2"
      have l2: "length (?C 2) = 512" using fs_okD(3) [OF ok] tb(1) by simp
      have C': "?C' 2 = put_at (wr32 (?C 2) (20 * i) (of_nat p)) (20 * i + 4) (nm @ replicate (16 - length nm) 0)" "?C' 1 = bytes_of bat'"
        "?C' p = wr32 ib' 0 (of_nat fs')" "\<And>b. b \<in> set bl \<Longrightarrow> ?C' b = img_blocks img1 b" "\<And>b. b \<notin> {1, 2} \<union> set (p # bl) \<Longrightarrow> ?C' b = ?C b"
        unfolding m(3) using pt(2) nb [of 1] nb [of 2] sub(2,4) by auto
      note e = new_entry [OF l2 i(1) nm(1,3), of "of_nat p", folded C'(1)]
      have "0 \<notin> set nm" using nm(1) by (auto simp: cstr_def)
      note en = entry_name_eq [where C = ?C', OF e(3) this nm(3)]
      have ib2: "length (?C' p) = 512" "inode_filesize (?C' p) = of_nat (length src)"
        "\<And>j. j < 127 \<Longrightarrow> blkw (?C' p) j = (if j < length bl then of_nat (bl ! j) else 0)"
        using ib fsz rd32_wr32_same [of 0 ib'] by (simp_all add: C'(3) inode_filesize_def blkw_def rd32_wr32_other)
      have bl: "nblk (length src) \<le> length bl" "length bl \<le> 127" "length src \<le> 65024"
        using w(5) fits True by (auto simp: tool_blocks_def nblk_def)
      have bat: "length (?C' 1) = 512" "\<And>b. b < tb \<Longrightarrow> bm_bit (words_of (?C' 1)) b = (b \<in> set (p # bl) \<or> bm_bit ?bat b)"
        using w(3) p(5) lb' unfolding C'(2) by (auto simp: data_written_def)
      have free: "set (p # bl) \<subseteq> fs_free tb ?C" using sub(1) p(2) fr(1) by simp
      have len: "\<And>b. b \<in> set bl \<Longrightarrow> length (?C' b) = 512" using C'(4) sub(3) by simp
      note new = add_content [where C = ?C and C' = ?C', OF ok i fresh nm(2) en e(1,2) sub(4) free bl ib2 len bat C'(5)]
      have "take (length src) (concat (map ?C' (take (nblk (length src)) bl))) = src"
      proof -
        have eq: "map ?C' bl = map (img_blocks img1) bl" using C'(4) by simp
        have tk: "concat (map ?C' (take (nblk (length src)) bl)) = take (512 * nblk (length src)) (concat (map ?C' bl))"
          by (rule take_blocks) (rule len)
        have "length src \<le> 512 * nblk (length src)" "length src \<le> 512 * length bl" using bl(1) by (simp_all add: nblk_def)
        then show ?thesis
          using w(5) fits True unfolding tk eq by (simp add: min_absorb1)
      qed
      then show ?thesis using new step m(1,2) True C'(5) [of 0] nb [of 0]
        by (intro exI [of _ img2]) simp
    qed
  qed
qed

lemma write_image:
  assumes im: "image_ok tb img" "h dsk = Some img" and src: "h source = Some src" and nm: "cstr nm target" "nm \<noteq> []" "length nm \<le> 15"
    and bufs: "length batb = 512" "length mdb = 512" "length data = 512"
  defines "fits \<equiv> fs_map (img_blocks img) nm = None \<and> (\<exists>i < 25. \<not> used (img_blocks img) i) \<and> length src \<le> 65024
    \<and> min (length src div 512 + 1) 127 + 1 \<le> card (fs_free tb (img_blocks img))"
  shows "\<exists>img'. tfstool_write dsk source target batb mdb data h = Inr (if fits then Some () else None, h(dsk \<mapsto> img'))
    \<and> image_ok tb img' \<and> img_blocks img' 0 = img_blocks img 0
    \<and> fs_map (img_blocks img') = (if fits then (fs_map (img_blocks img))(nm \<mapsto> src) else fs_map (img_blocks img))"
proof -
  let ?C = "img_blocks img"
  have hi: "has_image h dsk tb img" and ok: "fs_ok tb ?C" using im image_ok_has by (auto simp: image_ok_def)
  have hd: "h(dsk \<mapsto> img) = h" using im(2) by (auto simp: fun_upd_idem)
  have tb: "3 \<le> tb" using fs_okD(1) [OF ok] .
  have r: "tool_read_block dsk mdb 2 h = Inr (Some (?C 2), h)" "tool_read_block dsk batb 1 h = Inr (Some (?C 1), h)"
    using read_block_eq [OF hi, of 2] read_block_eq [OF hi, of 1] bufs tb by simp_all
  have ex: "(\<exists>j. 0 \<le> j \<and> j < 25 \<and> used ?C j \<and> entry_name ?C j = nm) \<longleftrightarrow> fs_map ?C nm \<noteq> None" using fs_map_None [of ?C nm] by auto
  obtain ix where ix: "tool_scan (?C 2) target 0 25 (-1) = Inr (if fs_map ?C nm \<noteq> None then None else Some ix)"
    "if \<forall>j. 0 \<le> j \<and> j < 25 \<longrightarrow> used ?C j then ix = -1 else 0 \<le> ix \<and> ix < 25 \<and> \<not> used ?C (nat ix)"
    using tool_scan_eq [OF ok nm(1,2), of 0 25 "-1"] unfolding ex by auto
  have step: "tfstool_write dsk source target batb mdb data h =
    (if fs_map ?C nm \<noteq> None \<or> ix < 0 then Inr (None, h)
     else write_file dsk source target (nat ix) (?C 2) data tb (words_of (?C 1)) h)"
    using r ix(1) im(2) src numblocks_eq [OF hi]
    by (simp add: tfstool_write_def openfile_def getfilesize_def tool_defs write_file_def)
  show ?thesis
  proof (cases "fs_map ?C nm \<noteq> None \<or> ix < 0")
    case True
    then have "\<not> fits" using ix(2) by (auto simp: fits_def split: if_splits)
    then show ?thesis using True step hd im(1) by (intro exI [of _ img]) simp
  next
    case False
    then have i: "nat ix < 25" "\<not> used ?C (nat ix)" using ix(2) by (auto split: if_splits)
    then have f: "fits \<longleftrightarrow> length src \<le> 65024 \<and> tool_blocks 0 (length src) + 1 \<le> card (fs_free tb ?C)"
      using False by (auto simp: fits_def tool_blocks_def)
    have fresh: "fs_map ?C nm = None" using False by blast
    from write_file_ok [OF hi ok src nm i fresh bufs(3)] show ?thesis
      using False unfolding step f by (auto simp: image_ok_def has_image_def)
  qed
qed

section \<open>Making an image\<close>

lemma append_block:
  assumes "h dsk = Some c" "length c = 512 * b" "b < 4194304"
  shows "tool_write_block dsk d (int b) h = Inr (Some (), h(dsk \<mapsto> c @ (case d of None \<Rightarrow> replicate 512 0 | Some d \<Rightarrow> d)))"
proof -
  have "int b < 4194304" using assms(3) by simp
  then have "seek_block (int b) = tret (512 * b)" by (simp add: seek_block_def Let_def nat_mult_distrib mult.commute)
  then show ?thesis using assms(1,2) by (simp add: tool_write_block_def tool_defs file_of_def put_at_def Let_def)
qed

lemma zero_data_eq:
  "h dsk = Some c \<Longrightarrow> length c = 512 * i \<Longrightarrow> i + n \<le> 4194304 \<Longrightarrow>
   zero_data dsk i n h = Inr (Some (), h(dsk \<mapsto> c @ replicate (512 * n) 0))"
proof (induction n arbitrary: h c i)
  case 0
  then show ?case by (auto simp: tret_def fun_upd_idem)
next
  case (Suc n)
  let ?c = "c @ replicate 512 0"
  have w: "tool_write_block dsk None (int i) h = Inr (Some (), h(dsk \<mapsto> ?c))" using append_block [of h dsk c i None] Suc.prems by simp
  have "zero_data dsk (Suc i) n (h(dsk \<mapsto> ?c)) = Inr (Some (), (h(dsk \<mapsto> ?c))(dsk \<mapsto> ?c @ replicate (512 * n) 0))"
    by (rule Suc.IH) (use Suc.prems in simp_all)
  then have "zero_data dsk (Suc i) n (h(dsk \<mapsto> ?c)) = Inr (Some (), h(dsk \<mapsto> ?c @ replicate (512 * n) 0))" unfolding fun_upd_upd .
  moreover have "?c @ replicate (512 * n) 0 = c @ replicate (512 * Suc n) 0" by (simp add: replicate_add)
  ultimately show ?case using w by (simp only: zero_data.simps tbind_def rbind.simps prod.case option.case)
qed

lemma first_three:
  assumes "length bm = 128" "\<forall>p < 4096. \<not> bm_bit bm p"
  shows "\<exists>bm'. tbind (tool_bitmap_set bm 0 1) (\<lambda>bm. tbind (tool_bitmap_set bm 1 1) (\<lambda>bm. tbind (tool_bitmap_set bm 2 1) f)) h = f bm' h
    \<and> length bm' = 128 \<and> (\<forall>p < 4096. bm_bit bm' p = (p < 3))"
proof -
  let ?a = "bm_put bm 0 True" let ?b = "bm_put ?a 1 True" let ?c = "bm_put ?b 2 True"
  have "tool_bitmap_set bm 0 1 h = Inr (Some ?a, h)" "tool_bitmap_set ?a 1 1 h = Inr (Some ?b, h)" "tool_bitmap_set ?b 2 1 h = Inr (Some ?c, h)" for h
    using tool_set_eq(1) [of 0 bm] tool_set_eq(1) [of 1 ?a] tool_set_eq(1) [of 2 ?b] assms(1) by simp_all
  moreover have "bm_bit ?c p = (p < 3)" if "p < 4096" for p
    using that assms by (auto simp: bm_bit_put)
  ultimately show ?thesis using assms(1) by (intro exI [of _ ?c]) (simp add: tbind_def)
qed

lemma header_block:
  assumes "length vol = 16"
  shows "\<exists>hd. blit 16 (wr32 (replicate 512 0) 0 3745) 4 vol 0 = Inr hd \<and> length hd = 512 \<and> rd32 hd 0 = 3745 \<and> take 16 (drop 4 hd) = vol"
proof -
  let ?w = "wr32 (replicate 512 0) 0 3745 :: u8 list"
  have "blit (int 16) ?w (int 4) vol (int 0) = Inr (take 4 ?w @ take 16 (drop 0 vol) @ drop (4 + 16) ?w)"
    by (rule blit_ok) (use assms in simp_all)
  then have b: "blit 16 ?w 4 vol 0 = Inr (take 4 ?w @ vol @ drop 20 ?w)" using assms by simp
  have "rd32 (take 4 ?w @ xs) 0 = rd32 ?w 0" for xs
  proof -
    have "length (take 4 ?w) = 4" by simp
    then have "rd32 (take 4 ?w @ xs) 0 = rd32 (take 4 ?w) 0" by (intro rd32_append) simp
    then show ?thesis by (simp add: rd32_def)
  qed
  moreover have "rd32 ?w 0 = 3745" by (rule rd32_wr32_same) simp
  ultimately show ?thesis using b assms by (intro exI [of _ "take 4 ?w @ vol @ drop 20 ?w"]) simp
qed

lemma create_refused:
  assumes "length alloc = 128" "h dsk \<noteq> None \<or> sz < 3"
  shows "tfstool_createvol dsk sz vol alloc h = Inr (None, h)"
proof -
  have "bitmap_init_loop alloc 0 128 = Inr (replicate 128 0)" using bitmap_init_loop_eq [of 0 128 alloc] assms(1) by simp
  then show ?thesis using assms(2) by (auto simp: tfstool_createvol_def tool_bitmap_init_def signed_divide_int_def tool_defs)
qed

lemma create_image:
  assumes h: "h dsk = None" and sz: "3 \<le> sz" "sz \<le> 4194304" and b: "length alloc = 128" "length vol = 16"
  shows "\<exists>img. tfstool_createvol dsk (int sz) vol alloc h = Inr (Some (), h(dsk \<mapsto> img)) \<and> length img = 512 * sz
    \<and> fs_ok (min sz 4096) (img_blocks img) \<and> fs_map (img_blocks img) = Map.empty \<and> rd32 (img_blocks img 0) 0 = TFS_MAGIC \<and> take 16 (drop 4 (img_blocks img 0)) = vol"
proof -
  have "bitmap_init_loop alloc 0 128 = Inr (replicate 128 0)" using bitmap_init_loop_eq [of 0 128 alloc] b(1) by simp
  then have i: "tool_bitmap_init alloc (8 * 512) = Inr (replicate 128 0)" by (simp add: tool_bitmap_init_def signed_divide_int_def)
  have z: "\<forall>p < 4096. \<not> bm_bit (replicate 128 0) p" by (simp add: bm_bit_def)
  obtain hd where hd: "blit 16 (wr32 (replicate 512 0) 0 3745) 4 vol 0 = Inr hd" "length hd = 512" "rd32 hd 0 = 3745" "take 16 (drop 4 hd) = vol"
    using header_block [OF b(2)] by blast
  let ?h = "h(dsk \<mapsto> hd)"
  let ?f = "\<lambda>bm. tbind (tlift (blit 512 (replicate 512 0) 0 (bytes_of bm) 0)) (\<lambda>bat. tbind (tool_write_block dsk (Some bat) 1) (\<lambda>_.
    tbind (tool_write_block dsk None 2) (\<lambda>_. zero_data dsk 3 (nat (int sz - 3)))))"
  obtain bm where bm: "tbind (tool_bitmap_set (replicate 128 0) 0 1) (\<lambda>bm. tbind (tool_bitmap_set bm 1 1) (\<lambda>bm. tbind (tool_bitmap_set bm 2 1) ?f)) ?h = ?f bm ?h"
    "length bm = 128" "\<forall>p < 4096. bm_bit bm p = (p < 3)"
    using first_three [OF _ z, of ?f ?h] by auto
  have bl: "blit 512 (replicate 512 0) 0 (bytes_of bm) 0 = Inr (bytes_of bm)"
    using blit_ok [of 512 0 "replicate 512 0" 0 "bytes_of bm"] bm(2) by simp
  have w0: "tool_write_block dsk (Some hd) 0 (h(dsk \<mapsto> [])) = Inr (Some (), ?h)" using append_block [of "h(dsk \<mapsto> [])" dsk "[]" 0 "Some hd"] by simp
  have w1: "tool_write_block dsk (Some (bytes_of bm)) 1 ?h = Inr (Some (), h(dsk \<mapsto> hd @ bytes_of bm))"
    using append_block [of ?h dsk hd 1 "Some (bytes_of bm)"] hd(2) by simp
  have w2: "tool_write_block dsk None 2 (h(dsk \<mapsto> hd @ bytes_of bm)) = Inr (Some (), h(dsk \<mapsto> (hd @ bytes_of bm) @ replicate 512 0))"
    using append_block [of "h(dsk \<mapsto> hd @ bytes_of bm)" dsk "hd @ bytes_of bm" 2 None] hd(2) bm(2) by simp
  define img where "img = ((hd @ bytes_of bm) @ replicate 512 0) @ replicate (512 * (sz - 3)) 0"
  have n: "nat (int sz - 3) = sz - 3" using sz(1) by simp
  have w3: "zero_data dsk 3 (sz - 3) (h(dsk \<mapsto> (hd @ bytes_of bm) @ replicate 512 0)) = Inr (Some (), h(dsk \<mapsto> img))"
    unfolding img_def using zero_data_eq [of "h(dsk \<mapsto> (hd @ bytes_of bm) @ replicate 512 0)" dsk "(hd @ bytes_of bm) @ replicate 512 0" 3 "sz - 3"] hd(2) bm(2) sz by simp
  have "?f bm ?h = Inr (Some (), h(dsk \<mapsto> img))" using bl w1 w2 w3 by (simp add: tbind_def tlift_def n)
  then have r: "tfstool_createvol dsk (int sz) vol alloc h = Inr (Some (), h(dsk \<mapsto> img))"
    using i h sz(1) hd(1) w0 bm(1) by (simp add: tfstool_createvol_def openfile_def tbind_def [where m = "tlift _"] tbind_def [where m = "openfile _ _"] tbind_def [where m = "tool_write_block dsk (Some hd) 0"] tlift_def [where r = "Inr _"])
  have e: "img = hd @ bytes_of bm @ replicate (512 * (sz - 2)) 0"
  proof -
    have "512 * (sz - 2) = 512 + 512 * (sz - 3)" using sz(1) by simp
    then show ?thesis by (simp add: img_def replicate_add)
  qed
  have b01: "img_blocks img 0 = hd" "img_blocks img 1 = bytes_of bm" using hd(2) bm(2) by (simp_all add: img_blocks_def e)
  have b2: "img_blocks img c = replicate 512 0" if "2 \<le> c" "c < sz" for c
  proof -
    have "drop (512 * c) img = replicate (512 * (sz - c)) 0" using that hd(2) bm(2) by (simp add: e)
    moreover have "512 \<le> 512 * (sz - c)" using that by simp
    ultimately show ?thesis by (simp add: img_blocks_def min_absorb1)
  qed
  have li: "length (img_blocks img c) = 512" if "c < sz" for c
    by (rule length_img_blocks) (use that hd(2) bm(2) sz(1) in \<open>simp add: e\<close>)
  have "fs_ok (min sz 4096) (img_blocks img)" "fs_map (img_blocks img) = Map.empty"
    by (rule fs_ok_empty; use sz b01 b2 li bm(3) in auto)+
  then show ?thesis using r b01(1) hd(3,4) bm(2) sz by (intro exI [of _ img]) (simp add: e hd(2))
qed

section \<open>Getting a file out of an image\<close>

lemma alloc_word:
  assumes ok: "fs_ok tb C" and i: "i < 25" "used C i" and j: "j < length (alloc_blocks C (inode_of C i))"
  shows "rd32 (C (inode_of C i)) (4 + 4 * j) \<noteq> 0" "sint (rd32 (C (inode_of C i)) (4 + 4 * j)) = int (alloc_blocks C (inode_of C i) ! j)"
    "alloc_blocks C (inode_of C i) ! j < tb"
proof -
  let ?b = "alloc_blocks C (inode_of C i) ! j"
  have "?b \<in> set (owned C i)" using j by (simp add: owned_def)
  then have b: "3 \<le> ?b" "?b < tb" using owned_not_system [OF ok i] by blast+
  moreover have "unat (rd32 (C (inode_of C i)) (4 + 4 * j)) = ?b" using alloc_blocks_nth [OF j] by (simp add: blk_def blkw_def)
  ultimately show "rd32 (C (inode_of C i)) (4 + 4 * j) \<noteq> 0" "sint (rd32 (C (inode_of C i)) (4 + 4 * j)) = int ?b" "?b < tb"
    using fs_okD(2) [OF ok] by (auto simp: sint_small)
qed

lemma alloc_word_end:
  "length (alloc_blocks C b) < 127 \<Longrightarrow> rd32 (C b) (4 + 4 * length (alloc_blocks C b)) = 0"
  using alloc_blocks_end [of C b] by (simp add: blk_def blkw_def unat_eq_0)

lemma piece_size:
  assumes "fs \<le> 65024" "count \<le> fs"
  shows "unat (if (of_nat fs - of_nat count :: u32) > 512 then 512 else of_nat fs - of_nat count :: u32) = min 512 (fs - count)"
proof -
  have "of_nat fs - of_nat count = (of_nat (fs - count) :: u32)" using assms(2) by (simp add: of_nat_diff)
  moreover have "unat (of_nat (fs - count) :: u32) = fs - count" using assms(1) by (simp add: unat_of_nat)
  ultimately show ?thesis by (auto simp: word_less_nat_alt)
qed

lemma read_data_ok:
  fixes img i
  defines "C \<equiv> img_blocks img"
  defines "bl \<equiv> alloc_blocks C (inode_of C i)"
  assumes "has_image h dsk tb img" and ok: "fs_ok tb C" and i: "i < 25" "used C i" and t: "target \<noteq> dsk" and fs: "fs \<le> 65024"
    and "h target = Some out" "k + n = 127" "k \<le> length bl" "length data = 512" "count = min fs (512 * k)"
  shows "read_data dsk target (of_nat fs) (C (inode_of C i)) k n data count h =
    Inr (Some (min fs (512 * length bl)), h(target \<mapsto> out @ take (min fs (512 * length bl) - count) (concat (map C (drop k bl)))))"
  using assms(3) assms(9-13)
proof (induction n arbitrary: h out k data count)
  case 0
  then have "k = length bl" using alloc_blocks_le [of C "inode_of C i"] by (simp add: bl_def)
  then show ?case using 0 by (auto simp: tret_def fun_upd_idem)
next
  case (Suc n)
  show ?case
  proof (cases "k = length bl")
    case True
    then have "rd32 (C (inode_of C i)) (4 + 4 * k) = 0" using alloc_word_end [of C "inode_of C i"] Suc.prems(3) by (simp add: bl_def)
    then show ?thesis using True Suc.prems by (auto simp: tret_def Let_def fun_upd_idem)
  next
    case False
    then have k: "k < length bl" using Suc.prems(4) by simp
    note b = alloc_word [OF ok i, of k, folded bl_def, OF k]
    let ?b = "bl ! k" let ?m = "min 512 (fs - count)" let ?p = "take (min 512 (fs - count)) (C (bl ! k))"
    have r: "tool_read_block dsk data (int ?b) h = Inr (Some (C ?b), h)"
      using read_block_eq [OF Suc.prems(1) b(3) Suc.prems(5)] by (simp add: C_def)
    have lb: "length (C ?b) = 512" using fs_okD(3) [OF ok b(3)] .
    let ?h = "h(target \<mapsto> out @ ?p)"
    have c: "count + ?m = min fs (512 * Suc k)" "count \<le> fs" using Suc.prems(6) by auto
    have "read_data dsk target (of_nat fs) (C (inode_of C i)) (Suc k) n (C ?b) (count + ?m) ?h =
      Inr (Some (min fs (512 * length bl)), ?h(target \<mapsto> (out @ ?p) @ take (min fs (512 * length bl) - (count + ?m)) (concat (map C (drop (Suc k) bl)))))"
      by (rule Suc.IH) (use Suc.prems t k lb c(1) in \<open>auto simp: has_image_def\<close>)
    moreover have "read_data dsk target (of_nat fs) (C (inode_of C i)) k (Suc n) data count h =
      read_data dsk target (of_nat fs) (C (inode_of C i)) (Suc k) n (C ?b) (count + ?m) ?h"
      using b(1,2) r piece_size [OF fs c(2)] Suc.prems(2) lb by (simp add: Let_def tbind_def file_of_def min.commute)
    moreover have "?p @ take (min fs (512 * length bl) - (count + ?m)) (concat (map C (drop (Suc k) bl))) =
      take (min fs (512 * length bl) - count) (concat (map C (drop k bl)))"
    proof -
      have "512 * Suc k \<le> 512 * length bl" using k by simp
      then have "min fs (512 * length bl) - count = (if fs - count < 512 then fs - count else 512 + (min fs (512 * length bl) - (count + 512)))"
        "fs - count < 512 \<Longrightarrow> min fs (512 * length bl) - (count + ?m) = 0" using Suc.prems(6) by auto
      moreover have "concat (map C (drop k bl)) = C ?b @ concat (map C (drop (Suc k) bl))" using k by (simp flip: Cons_nth_drop_Suc)
      ultimately show ?thesis using lb by (auto simp: not_less min_def)
    qed
    ultimately show ?thesis by (simp only: fun_upd_upd append_assoc)
  qed
qed

lemma file_data_alloc:
  assumes ok: "fs_ok tb C" and i: "i < 25" "used C i"
  defines "ino \<equiv> inode_of C i"
  shows "take (fsize C ino) (concat (map C (alloc_blocks C ino))) = file_data C ino"
    "length (file_data C ino) = fsize C ino" "fsize C ino \<le> 512 * length (alloc_blocks C ino)"
proof -
  have e: "nblk (fsize C ino) \<le> length (alloc_blocks C ino)" using fs_okD(4) [OF ok i] by (simp add: entry_ok_def ino_def)
  have len: "length (C b) = 512" if "b \<in> set (alloc_blocks C ino)" for b
    using owned_not_system(2) [OF ok i, of b] fs_okD(3) [OF ok, of b] that by (simp add: owned_def ino_def)
  have tk: "concat (map C (file_blocks C ino)) = take (512 * nblk (fsize C ino)) (concat (map C (alloc_blocks C ino)))"
    unfolding file_blocks_def by (rule take_blocks) (rule len)
  have n: "fsize C ino \<le> 512 * nblk (fsize C ino)" by (simp add: nblk_def)
  have l: "length (concat (map C (alloc_blocks C ino))) = 512 * length (alloc_blocks C ino)" by (rule length_concat_blocks) (rule len)
  show "take (fsize C ino) (concat (map C (alloc_blocks C ino))) = file_data C ino" unfolding file_data_def tk using n by (simp add: min_absorb1)
  show f: "fsize C ino \<le> 512 * length (alloc_blocks C ino)" using n e by linarith
  show "length (file_data C ino) = fsize C ino" unfolding file_data_def tk using n l f by simp
qed

lemma image_file:
  assumes "fs_ok tb C" "i < 25" "used C i"
  shows "sint (dir_inode (C 2) i) = int (inode_of C i)" "inode_of C i < tb" "fsize C (inode_of C i) \<le> 65024"
    "inode_filesize (C (inode_of C i)) = of_nat (fsize C (inode_of C i))"
proof -
  have "inode_of C i \<in> set (owned C i)" by (simp add: owned_def)
  then show b: "inode_of C i < tb" using owned_not_system(2) [OF assms] by blast
  then show "sint (dir_inode (C 2) i) = int (inode_of C i)" using fs_okD(2) [OF assms(1)] by (simp add: inode_of_def sint_small)
  show "fsize C (inode_of C i) \<le> 65024" using fs_okD(4) [OF assms] by (simp add: entry_ok_def)
  show "inode_filesize (C (inode_of C i)) = of_nat (fsize C (inode_of C i))" by (simp add: fsize_def)
qed

lemma read_image:
  assumes im: "image_ok tb img" "h dsk = Some img" and t: "target \<noteq> dsk" and nm: "cstr nm source" "nm \<noteq> []"
    and bufs: "length mdb = 512" "length ibb = 512" "length data = 512"
  shows "tfstool_read dsk source target mdb ibb data h =
    (case fs_map (img_blocks img) nm of None \<Rightarrow> Inr (None, h(target \<mapsto> [])) | Some f \<Rightarrow> Inr (Some (length f), h(target \<mapsto> f)))"
proof -
  let ?C = "img_blocks img" and ?h = "h(target \<mapsto> [])"
  have ok: "fs_ok tb ?C" using im(1) by (simp add: image_ok_def)
  have hi: "has_image ?h dsk tb img" by (rule image_ok_has [OF im(1)]) (use im(2) t in simp)
  have tb: "2 < tb" using fs_okD(1) [OF ok] by simp
  have r: "tool_read_block dsk mdb 2 ?h = Inr (Some (?C 2), ?h)" using read_block_eq [OF hi tb bufs(1)] by simp
  show ?thesis
  proof (rule fs_map_cases [OF ok, of nm])
    assume n: "fs_map ?C nm = None"
    then have "tool_find (?C 2) source = Inr 25" using tool_find_name [OF ok nm] dir_search_none [OF ok nm] by simp
    then show ?thesis using r n im(2) by (simp add: tfstool_read_def openfile_def tool_defs)
  next
    fix i assume i: "i < 25" "used ?C i" "entry_name ?C i = nm" "fs_map ?C nm = Some (file_data ?C (inode_of ?C i))"
    note f = image_file [OF ok i(1,2)] and d = file_data_alloc [OF ok i(1,2)]
    have "tool_find (?C 2) source = Inr i" using tool_find_name [OF ok nm] dir_search_found [OF ok nm i(1-3)] by simp
    moreover have "tool_read_block dsk ibb (int (inode_of ?C i)) ?h = Inr (Some (?C (inode_of ?C i)), ?h)" by (rule read_block_eq [OF hi f(2) bufs(2)])
    ultimately have "tfstool_read dsk source target mdb ibb data h =
      read_data dsk target (of_nat (fsize ?C (inode_of ?C i))) (?C (inode_of ?C i)) 0 127 data 0 ?h"
      using r im(2) i(1) f(1,4) by (simp add: tfstool_read_def openfile_def tool_defs)
    also have "\<dots> = Inr (Some (fsize ?C (inode_of ?C i)), h(target \<mapsto> file_data ?C (inode_of ?C i)))"
      using read_data_ok [OF hi ok i(1,2) t f(3), of "[]" 0 127 data 0] d(1,3) bufs(3) by (simp add: min_absorb1)
    finally show ?thesis using i(4) d(2) by simp
  qed
qed

section \<open>Deleting\<close>

lemma tool_set_bitmap_set: "0 \<le> pos \<Longrightarrow> v = 0 \<or> v = 1 \<Longrightarrow> tool_bitmap_set bm pos v h = rbind (bitmap_set bm pos v) (\<lambda>b. Inr (Some b, h))"
  by (auto simp: tool_bitmap_set_def bitmap_set_def Let_def tlift_def)

lemma bitmap_set_nonneg: "bitmap_set bm pos v = Inr bm' \<Longrightarrow> 0 \<le> pos"
  by (auto simp: bitmap_set_def split: if_splits)

lemma tool_free_eq: "free_loop bat ib i n = Inr bat' \<Longrightarrow> tool_free bat ib i n h = Inr (Some bat', h)"
proof (induction n arbitrary: bat i)
  case (Suc n)
  show ?case
  proof (cases "rd32 ib (4 + 4 * i) = 0")
    case False
    then obtain bat1 where b: "bitmap_set bat (sint (rd32 ib (4 + 4 * i))) 0 = Inr bat1" "free_loop bat1 ib (Suc i) n = Inr bat'"
      using Suc.prems by (auto simp: free_loop_Suc blkw_def rbind_Inr_iff simp del: free_loop.simps)
    then show ?thesis using Suc.IH [OF b(2)] False tool_set_bitmap_set [OF bitmap_set_nonneg [OF b(1)]] by (simp add: tbind_def)
  qed (use Suc.prems in \<open>simp add: tret_def\<close>)
qed (simp add: tret_def)

lemma delete_image:
  assumes im: "image_ok tb img" "h dsk = Some img" and nm: "cstr nm filename" "nm \<noteq> []"
  shows "\<exists>img'. tfstool_delete dsk filename h = Inr (if fs_map (img_blocks img) nm = None then None else Some (), h(dsk \<mapsto> img'))
    \<and> image_ok tb img' \<and> img_blocks img' 0 = img_blocks img 0 \<and> fs_map (img_blocks img') = (fs_map (img_blocks img))(nm := None)"
proof -
  let ?C = "img_blocks img" and ?z = "replicate 512 0 :: u8 list"
  have ok: "fs_ok tb ?C" using im(1) by (simp add: image_ok_def)
  have hi: "has_image h dsk tb img" using image_ok_has im by blast
  have hd: "h(dsk \<mapsto> img) = h" using im(2) by (auto simp: fun_upd_idem)
  have tb: "2 < tb" "1 < tb" "tb \<le> 4096" using fs_okD(1,2) [OF ok] by simp_all
  have l: "length (?C 1) = 512" "length (?C 2) = 512" using fs_okD(3) [OF ok] tb by simp_all
  have r: "tool_read_block dsk ?z 2 h = Inr (Some (?C 2), h)" "tool_read_block dsk ?z 1 h = Inr (Some (?C 1), h)"
    using read_block_eq [OF hi, of 2 ?z] read_block_eq [OF hi, of 1 ?z] tb by simp_all
  show ?thesis
  proof (rule fs_map_cases [OF ok, of nm])
    assume n: "fs_map ?C nm = None"
    then have "tool_find (?C 2) filename = Inr 25" using tool_find_name [OF ok nm] dir_search_none [OF ok nm] by simp
    then have "tfstool_delete dsk filename h = Inr (None, h)" using r(1) im(2) by (simp add: tfstool_delete_def openfile_def tool_defs Let_def)
    moreover have "(fs_map ?C)(nm := None) = fs_map ?C" using n by (metis fun_upd_triv)
    ultimately show ?thesis using n hd im(1) by (intro exI [of _ img]) simp
  next
    fix i assume i: "i < 25" "used ?C i" "entry_name ?C i = nm" "fs_map ?C nm = Some (file_data ?C (inode_of ?C i))"
    let ?ino = "inode_of ?C i" and ?md = "(wr32 (?C 2) (20 * i) 0)[20 * i + 4 := 0]"
    note f = image_file [OF ok i(1,2)] and ce = clear_entry [OF l(2) i(1)]
    have fd: "tool_find (?C 2) filename = Inr i" using tool_find_name [OF ok nm] dir_search_found [OF ok nm i(1-3)] by simp
    have ri: "tool_read_block dsk ?z (int ?ino) h = Inr (Some (?C ?ino), h)" by (rule read_block_eq [OF hi f(2)]) simp
    obtain b1 where b1: "free_loop (words_of (?C 1)) (?C ?ino) 0 127 = Inr b1" "length b1 = 128"
      "\<forall>q. bm_bit b1 q = (q \<notin> set (alloc_blocks ?C ?ino) \<and> bm_bit (words_of (?C 1)) q)"
      using free_file [OF ok i(1,2), of "words_of (?C 1)"] l(1) by auto
    have "?ino div 32 < length b1" using f(2) tb(3) b1(2) by simp
    note b2 = tool_set_eq(2) [OF this, of h] bm_bit_put [OF this, of False]
    let ?b2 = "bm_put b1 ?ino False"
    have lb: "length (bytes_of ?b2) = 512" using b1(2) by simp
    note w1 = write_block_eq [OF hi tb(2) lb] 
    note w2 = write_block_eq [OF w1(2) tb(1) ce(1), unfolded w1(3) fun_upd_upd]
    let ?img = "set_block (set_block img 1 (bytes_of ?b2)) 2 ?md"
    have st: "tfstool_delete dsk filename h = Inr (Some (), h(dsk \<mapsto> ?img))"
      using r fd ri f(1) tool_free_eq [OF b1(1), of h] b2(1) w1(1) w2(1) im(2) i(1) by (simp add: tfstool_delete_def openfile_def tool_defs Let_def)
    have C': "img_blocks ?img = ?C(1 := bytes_of ?b2, 2 := ?md)" using w2(3) .
    have "fs_ok tb (img_blocks ?img)" "fs_map (img_blocks ?img) = (fs_map ?C)(nm := None)"
      by (rule remove_content [where C = ?C, OF ok i(1-3)]; use C' ce lb b1(3) b2(2) in \<open>auto simp: owned_def\<close>)+
    then show ?thesis using st i(4) w2(2) C' by (intro exI [of _ ?img]) (simp add: image_ok_def has_image_def)
  qed
qed

lemma find_free_entry:
  assumes ok: "fs_ok tb C" and free: "\<exists>i < 25. \<not> used C i" and nm: "cstr [] filename"
  shows "\<exists>i < 25. tool_find (C 2) filename = Inr i \<and> \<not> used C i"
proof -
  let ?P = "\<lambda>i. (if used C i then entry_name C i else []) = []" let ?i = "first_index ?P [0..<25]"
  obtain k where "k < 25" "\<not> used C k" using free by blast
  then have "?i \<noteq> length [0..<25::nat]" by (subst first_index_eq_length_iff) auto
  then have i: "?i < 25" using first_index_le [of ?P "[0..<25]"] by simp
  moreover have "?P ([0..<25] ! ?i)" by (rule first_index_hit) (use i in simp)
  ultimately have "\<not> used C ?i" using fs_okD(4) [OF ok i] by (auto simp: entry_ok_def split: if_splits)
  then show ?thesis using i tool_find_eq [OF ok nm] by blast
qed

lemma sint_nonneg: "0 \<le> sint (w :: u32) \<Longrightarrow> sint w = int (unat w)"
proof -
  assume "0 \<le> sint w"
  moreover have "sint w = take_bit 32 (uint w) - 2 ^ 32 * of_bool (bit (uint w) 31)"
    by (simp add: sint_uint signed_take_bit_eq_take_bit_minus)
  moreover have "take_bit 32 (uint w) = uint w" "uint w < 2 ^ 32" using uint_lt2p [of w] by (simp_all add: take_bit_int_eq_self)
  ultimately show ?thesis by (cases "bit (uint w) 31") simp_all
qed

lemma delete_nothing:
  assumes im: "image_ok tb img" "h dsk = Some img" and free: "\<exists>i < 25. \<not> used (img_blocks img) i" and nm: "cstr [] filename"
    and hdr: "4096 \<le> unat (rd32 (img_blocks img 0) 4)"
  shows "tfstool_delete dsk filename h = Inl Bad_access"
proof -
  let ?C = "img_blocks img" and ?z = "replicate 512 0 :: u8 list" and ?w = "rd32 (img_blocks img 0) 4"
  have ok: "fs_ok tb ?C" using im(1) by (simp add: image_ok_def)
  have hi: "has_image h dsk tb img" using image_ok_has im by blast
  have tb: "2 < tb" "1 < tb" "0 < tb" using fs_okD(1) [OF ok] by simp_all
  have r: "tool_read_block dsk ?z 2 h = Inr (Some (?C 2), h)" "tool_read_block dsk ?z 1 h = Inr (Some (?C 1), h)" "tool_read_block dsk ?z 0 h = Inr (Some (?C 0), h)"
    using read_block_eq [OF hi, of 2 ?z] read_block_eq [OF hi, of 1 ?z] read_block_eq [OF hi, of 0 ?z] tb by simp_all
  obtain i where i: "i < 25" "tool_find (?C 2) filename = Inr i" "\<not> used ?C i" using find_free_entry [OF ok free nm] by blast
  have lb: "length (words_of (?C 1)) = 128" using fs_okD(3) [OF ok] tb by simp
  have "tool_bitmap_set (words_of (?C 1)) (sint ?w) 0 h = Inl Bad_access"
  proof (cases "sint ?w < 0")
    case False
    then have "sint ?w = int (unat ?w)" using sint_nonneg by simp
    moreover have "int 4096 \<le> int (unat ?w)" using hdr by (simp only: of_nat_le_iff)
    ultimately have "4096 \<le> sint ?w" by simp
    then have "128 \<le> sint ?w div 32" using zdiv_mono1 [of 4096 "sint ?w" 32] by simp
    then have "aget (words_of (?C 1)) (sint ?w div 32) = Inl Bad_access" using lb by (simp add: aget_def)
    then show ?thesis using False by (simp add: tool_bitmap_set_def tlift_def Let_def)
  qed (simp add: tool_bitmap_set_def tlift_def)
  moreover have "?w \<noteq> 0" using hdr by auto
  ultimately have f: "tool_free (words_of (?C 1)) (?C 0) 0 127 h = Inl Bad_access"
    by (simp add: tool_free.simps(2) [of _ _ 0 126, simplified] tbind_def Let_def)
  show ?thesis using r i f im(2) by (simp add: tfstool_delete_def openfile_def tool_defs Let_def used_def)
qed

section \<open>Listing\<close>

lemma list_blocks_eq:
  assumes ok: "fs_ok tb C" and i: "i < 25" "used C i"
  shows "k + n = 127 \<Longrightarrow> k \<le> length (alloc_blocks C (inode_of C i)) \<Longrightarrow>
    list_blocks (C (inode_of C i)) k n = map of_nat (drop k (alloc_blocks C (inode_of C i)))"
proof (induction n arbitrary: k)
  case 0
  then show ?case using alloc_blocks_le [of C "inode_of C i"] by simp
next
  case (Suc n)
  let ?bl = "alloc_blocks C (inode_of C i)"
  show ?case
  proof (cases "k = length ?bl")
    case True
    then show ?thesis using alloc_word_end [of C "inode_of C i"] Suc.prems(1) by (simp add: Let_def)
  next
    case False
    then have k: "k < length ?bl" using Suc.prems(2) by simp
    have "rd32 (C (inode_of C i)) (4 + 4 * k) = of_nat (?bl ! k)" using alloc_blocks_nth [OF k] by (simp add: blk_def blkw_def)
    then show ?thesis using alloc_word(1) [OF ok i k] Suc.IH [of "Suc k"] Suc.prems(1) k by (simp add: Let_def flip: Cons_nth_drop_Suc)
  qed
qed

definition listing :: "blocks \<Rightarrow> nat \<Rightarrow> u32 \<times> u32 \<times> u8 list \<times> u32 list" where
  "listing C i = (of_nat (inode_of C i), of_nat (fsize C (inode_of C i)), entry_name C i, map of_nat (alloc_blocks C (inode_of C i)))"

lemma list_files_eq:
  assumes hi: "has_image h dsk tb img" and ok: "fs_ok tb (img_blocks img)" and d: "length data = 512"
  shows "k + n = 25 \<Longrightarrow> list_files dsk (img_blocks img 2) data k n h = Inr (Some (map (listing (img_blocks img)) (filter (used (img_blocks img)) [k..<25])), h)"
proof (induction n arbitrary: k)
  case (Suc n)
  let ?C = "img_blocks img"
  have k: "k < 25" "[k..<25] = k # [Suc k..<25]" using Suc.prems by (simp_all add: upt_conv_Cons)
  have IH: "list_files dsk (?C 2) data (Suc k) n h = Inr (Some (map (listing ?C) (filter (used ?C) [Suc k..<25])), h)" using Suc by simp
  show ?case
  proof (cases "used ?C k")
    case True
    note f = image_file [OF ok k(1) True]
    have "takeWhile (\<lambda>c. c \<noteq> 0) (dir_name (?C 2) k) = entry_name ?C k"
    proof -
      obtain rest where "dir_name (?C 2) k = entry_name ?C k @ 0 # rest" "0 \<notin> set (entry_name ?C k)"
        using dir_name_cstr [OF ok k(1)] True by (auto simp: cstr_def)
      then show ?thesis by (simp add: takeWhile_tail) (metis (mono_tags, lifting) takeWhile_eq_all_conv)
    qed
    moreover have "tool_read_block dsk data (int (inode_of ?C k)) h = Inr (Some (?C (inode_of ?C k)), h)" by (rule read_block_eq [OF hi f(2) d])
    moreover have "dir_inode (?C 2) k = of_nat (inode_of ?C k)" "dir_inode (?C 2) k > 0" using True by (simp_all add: inode_of_def used_def word_neq_0_conv)
    ultimately show ?thesis using True IH k(2) f(1,4) list_blocks_eq [OF ok k(1) True, of 0 127] by (simp add: tool_defs listing_def)
  next
    case False
    then have "\<not> dir_inode (?C 2) k > 0" by (simp add: used_def)
    then show ?thesis using False IH k(2) by simp
  qed
qed (simp add: tret_def)

section \<open>Properties\<close>

text \<open>
  C35. \<^verbatim>\<open>tfstool_createvol\<close> makes an image of the given number of blocks that the kernel can mount: it
  has the magic number and the name of the volume, and is a sound volume without files (of at most
  4096 blocks, which is what the bitmap describes). When the image exists or the size is below three
  nothing is done.
\<close>

theorem tfstool_createvol_correct:
  assumes "length alloc = 128" "length vol = 16"
  shows "if h dsk = None \<and> 3 \<le> sz then
      sz \<le> 4194304 \<longrightarrow> (\<exists>img. tfstool_createvol dsk sz vol alloc h = Inr (Some (), h(dsk \<mapsto> img)) \<and> length img = 512 * nat sz
        \<and> fs_ok (min (nat sz) 4096) (img_blocks img) \<and> fs_map (img_blocks img) = Map.empty
        \<and> rd32 (img_blocks img 0) 0 = TFS_MAGIC \<and> take 16 (drop 4 (img_blocks img 0)) = vol)
    else tfstool_createvol dsk sz vol alloc h = Inr (None, h)"
proof (cases "h dsk = None \<and> 3 \<le> sz")
  case True
  then obtain n where n: "sz = int n" "3 \<le> n" by (metis nonneg_int_cases of_nat_le_iff of_nat_numeral order_trans zero_le_numeral)
  show ?thesis using create_image [of h dsk n alloc vol] True n assms by auto
next
  case False
  then show ?thesis using create_refused [OF assms(1), of h dsk sz vol] by auto
qed

text \<open>
  C34. \<^verbatim>\<open>tfstool_write\<close> adds exactly the local file to the volume, under the given name. It fails when
  the name exists, the directory is full, the file is longer than 65024 bytes or there are not
  enough free blocks; then the files of the volume are as before. A file whose size is a multiple of the
  block size takes one block more than it needs. The volume stays sound and keeps its header.
\<close>

theorem tfstool_write_correct:
  assumes "image_ok tb img" "h dsk = Some img" "h source = Some src" "source \<noteq> dsk" "cstr nm target" "nm \<noteq> []" "length nm \<le> 15"
    and "length batb = 512" "length mdb = 512" "length data = 512"
  shows "\<exists>img'. image_ok tb img' \<and> img_blocks img' 0 = img_blocks img 0 \<and>
    (if fs_map (img_blocks img) nm = None \<and> (\<exists>i < 25. \<not> used (img_blocks img) i) \<and> length src \<le> 65024
        \<and> min (length src div 512 + 1) 127 + 1 \<le> card (fs_free tb (img_blocks img))
     then tfstool_write dsk source target batb mdb data h = Inr (Some (), h(dsk \<mapsto> img')) \<and> fs_map (img_blocks img') = (fs_map (img_blocks img))(nm \<mapsto> src)
     else tfstool_write dsk source target batb mdb data h = Inr (None, h(dsk \<mapsto> img')) \<and> fs_map (img_blocks img') = fs_map (img_blocks img))"
proof -
  let ?fits = "fs_map (img_blocks img) nm = None \<and> (\<exists>i < 25. \<not> used (img_blocks img) i) \<and> length src \<le> 65024
    \<and> min (length src div 512 + 1) 127 + 1 \<le> card (fs_free tb (img_blocks img))"
  from write_image [OF assms(1-3,5-10)] obtain img' where
    "tfstool_write dsk source target batb mdb data h = Inr (if ?fits then Some () else None, h(dsk \<mapsto> img'))" "image_ok tb img'"
    "img_blocks img' 0 = img_blocks img 0" "fs_map (img_blocks img') = (if ?fits then (fs_map (img_blocks img))(nm \<mapsto> src) else fs_map (img_blocks img))"
    by blast
  then show ?thesis by (intro exI [of _ img']) (cases ?fits; simp only: if_True if_False simp_thms)
qed

text \<open>
  C36. \<^verbatim>\<open>tfstool_read\<close> writes exactly the contents of the named file of the volume to the local file.
  When the volume has no such file the program fails, but the local file has already been emptied.
\<close>

theorem tfstool_read_correct:
  assumes "image_ok tb img" "h dsk = Some img" "target \<noteq> dsk" "cstr nm source" "nm \<noteq> []"
    and "length mdb = 512" "length ibb = 512" "length data = 512"
  shows "tfstool_read dsk source target mdb ibb data h =
    (case fs_map (img_blocks img) nm of None \<Rightarrow> Inr (None, h(target \<mapsto> [])) | Some f \<Rightarrow> Inr (Some (length f), h(target \<mapsto> f)))"
  using assms by (rule read_image)

text \<open>
  \<^verbatim>\<open>tfstool_delete\<close> removes exactly the named file from the volume, or fails and leaves the
  files as they are when there is none. The volume stays sound and keeps its header.
\<close>

theorem tfstool_delete_correct:
  assumes "image_ok tb img" "h dsk = Some img" "cstr nm filename" "nm \<noteq> []"
  shows "\<exists>img'. tfstool_delete dsk filename h = Inr (if fs_map (img_blocks img) nm = None then None else Some (), h(dsk \<mapsto> img'))
    \<and> image_ok tb img' \<and> img_blocks img' 0 = img_blocks img 0 \<and> fs_map (img_blocks img') = (fs_map (img_blocks img))(nm := None)"
  using assms by (rule delete_image)

text \<open>
  C37. Deleting the empty name finds a free entry of the directory, whose inode number is 0, and takes
  the header of the volume for an inode: the first four characters of the name of the volume
  become a block number, far outside the bitmap, where the tool then clears a bit.
\<close>

theorem tfstool_delete_nothing:
  assumes "image_ok tb img" "h dsk = Some img" "\<exists>i < 25. \<not> used (img_blocks img) i" "cstr [] filename"
    and "4096 \<le> unat (rd32 (img_blocks img 0) 4)"
  shows "tfstool_delete dsk filename h = Inl Bad_access"
  using assms by (rule delete_nothing)

text \<open>
  \<^verbatim>\<open>tfstool_list\<close> prints the name of the volume, its size and one line for each file: its
  inode, its size, its name and its blocks.
\<close>

theorem tfstool_list_correct:
  assumes "image_ok tb img" "h dsk = Some img" "length hdb = 512" "length mdb = 512" "length data = 512"
  shows "tfstool_list dsk hdb mdb data h =
    Inr (Some (takeWhile (\<lambda>c. c \<noteq> 0) (drop 4 (img_blocks img 0)), tb, map (listing (img_blocks img)) (filter (used (img_blocks img)) [0..<25])), h)"
proof -
  have ok: "fs_ok tb (img_blocks img)" and hi: "has_image h dsk tb img" using assms(1,2) image_ok_has by (auto simp: image_ok_def)
  have tb: "2 < tb" "0 < tb" using fs_okD(1) [OF ok] by simp_all
  show ?thesis
    using read_block_eq [OF hi tb(2) assms(3)] read_block_eq [OF hi tb(1) assms(4)] list_files_eq [OF hi ok assms(5), of 0 25] numblocks_eq [OF hi] assms(2)
    by (simp add: tfstool_list_def openfile_def tool_defs)
qed

section \<open>Witnesses\<close>

lemma empty_volume:
  assumes ok: "fs_ok tb C" and e: "fs_map C = Map.empty"
  shows "i < 25 \<Longrightarrow> \<not> used C i" "fs_free tb C = {3..<tb}"
proof -
  have un: "\<not> used C i" if "i < 25" for i using fs_map_None [of C "entry_name C i"] e that by auto
  then show "i < 25 \<Longrightarrow> \<not> used C i" by blast
  show "fs_free tb C = {3..<tb}" using fs_okD(8) [OF ok] un by (auto simp: fs_free_def not_less)
qed

text \<open>An image of 16 blocks with the volume name \<^verbatim>\<open>disk\<close>, and the local file \<^verbatim>\<open>s\<close>.\<close>

definition ex_host :: hostfs where
  "ex_host = [[115] \<mapsto> [1, 2, 3]]"

abbreviation (input) ex_vol :: "u8 list" where "ex_vol \<equiv> [100, 105, 115, 107] @ replicate 12 0"

lemma ex_image:
  "\<exists>img. tfstool_createvol [100] 16 ex_vol (replicate 128 5) ex_host = Inr (Some (), ex_host([100] \<mapsto> img)) \<and> image_ok 16 img
     \<and> fs_map (img_blocks img) = Map.empty \<and> rd32 (img_blocks img 0) 0 = 3745 \<and> take 16 (drop 4 (img_blocks img 0)) = ex_vol"
  using create_image [of ex_host "[100]" 16 "replicate 128 5" ex_vol] by (auto simp: ex_host_def image_ok_def)

theorem tfstool_createvol_correct_witness:
  "\<exists>img. tfstool_createvol [100] 16 ex_vol (replicate 128 5) ex_host = Inr (Some (), ex_host([100] \<mapsto> img)) \<and> fs_ok 16 (img_blocks img)"
  using tfstool_createvol_correct [of "replicate 128 5" ex_vol ex_host "[100]" 16] by (auto simp: ex_host_def)

lemma ex_write:
  "\<exists>h1 img'. tfstool_createvol [100] 16 ex_vol (replicate 128 5) ex_host = Inr (Some (), h1)
     \<and> tfstool_write [100] [115] [97, 0] (replicate 512 0) (replicate 512 0) (replicate 512 9) h1 = Inr (Some (), ex_host([100] \<mapsto> img'))
     \<and> image_ok 16 img' \<and> fs_map (img_blocks img') = [[97] \<mapsto> [1, 2, 3]]"
proof -
  obtain img where i: "tfstool_createvol [100] 16 ex_vol (replicate 128 5) ex_host = Inr (Some (), ex_host([100] \<mapsto> img))"
    "image_ok 16 img" "fs_map (img_blocks img) = Map.empty" using ex_image by blast
  have ok: "fs_ok 16 (img_blocks img)" using i(2) by (simp add: image_ok_def)
  let ?h = "ex_host([100] \<mapsto> img)"
  have f: "\<exists>i < 25. \<not> used (img_blocks img) i" "card (fs_free 16 (img_blocks img)) = 13"
    using empty_volume [OF ok i(3)] by (auto intro: exI [of _ 0])
  have p: "?h [100] = Some img" "?h [115] = Some [1, 2, 3]" "cstr [97] [97, 0 :: u8]" by (simp_all add: ex_host_def)
  obtain img' where w: "tfstool_write [100] [115] [97, 0] (replicate 512 0) (replicate 512 0) (replicate 512 9) ?h = Inr (Some (), ?h([100] \<mapsto> img'))"
    "image_ok 16 img'" "fs_map (img_blocks img') = (fs_map (img_blocks img))([97] \<mapsto> [1, 2, 3])"
    using write_image [where h = ?h and dsk = "[100]" and source = "[115]", OF i(2) p, of "replicate 512 0" "replicate 512 0" "replicate 512 9"] i(3) f
    by (simp del: fun_upd_upd) blast
  from w(1) have "tfstool_write [100] [115] [97, 0] (replicate 512 0) (replicate 512 0) (replicate 512 9) ?h = Inr (Some (), ex_host([100] \<mapsto> img'))"
    unfolding fun_upd_upd .
  then show ?thesis using i(1) w(2,3) unfolding i(3) by blast
qed

theorem tfstool_write_correct_witness:
  "\<exists>img img'. tfstool_write [100] [115] [97, 0] (replicate 512 0) (replicate 512 0) (replicate 512 9) (ex_host([100] \<mapsto> img)) = Inr (Some (), ex_host([100] \<mapsto> img'))
     \<and> fs_map (img_blocks img') = [[97] \<mapsto> [1, 2, 3]]"
proof -
  obtain img where i: "image_ok 16 img" "fs_map (img_blocks img) = Map.empty" using ex_image by blast
  have ok: "fs_ok 16 (img_blocks img)" using i(1) by (simp add: image_ok_def)
  let ?h = "ex_host([100] \<mapsto> img)"
  have "\<exists>i < 25. \<not> used (img_blocks img) i" "card (fs_free 16 (img_blocks img)) = 13"
    using empty_volume [OF ok i(2)] by (auto intro: exI [of _ 0])
  moreover have p: "?h [100] = Some img" "?h [115] = Some [1, 2, 3]" "[115] \<noteq> [100 :: u8]" "cstr [97] [97, 0 :: u8]" by (simp_all add: ex_host_def)
  ultimately obtain img' where "tfstool_write [100] [115] [97, 0] (replicate 512 0) (replicate 512 0) (replicate 512 9) ?h = Inr (Some (), ?h([100] \<mapsto> img'))"
    "fs_map (img_blocks img') = (fs_map (img_blocks img))([97] \<mapsto> [1, 2, 3])"
    using tfstool_write_correct [where h = ?h and dsk = "[100]" and source = "[115]", OF i(1) p, of "replicate 512 0" "replicate 512 0" "replicate 512 9"] i(2)
    by (simp del: fun_upd_upd) blast
  then show ?thesis unfolding i(2) fun_upd_upd by blast
qed

theorem tfstool_read_correct_witness:
  "\<exists>img. tfstool_read [100] [97, 0] [116] (replicate 512 0) (replicate 512 0) (replicate 512 0) [[100] \<mapsto> img] = Inr (Some 3, [[100] \<mapsto> img, [116] \<mapsto> [1, 2, 3]])"
proof -
  obtain img where i: "image_ok 16 img" "fs_map (img_blocks img) = [[97] \<mapsto> [1, 2, 3]]" using ex_write by blast
  have "[[100] \<mapsto> img] [100 :: u8] = Some img" "[116] \<noteq> [100 :: u8]" "cstr [97] [97, 0 :: u8]" "[97 :: u8] \<noteq> []" by simp_all
  from tfstool_read_correct [where h = "[[100] \<mapsto> img]" and dsk = "[100]", OF i(1) this, of "replicate 512 0" "replicate 512 0" "replicate 512 0"] show ?thesis by (auto simp: i(2) numeral_3_eq_3)
qed

theorem tfstool_delete_correct_witness:
  "\<exists>img img'. tfstool_delete [100] [97, 0] [[100] \<mapsto> img] = Inr (Some (), [[100] \<mapsto> img']) \<and> fs_map (img_blocks img') = Map.empty"
proof -
  obtain img where i: "image_ok 16 img" "fs_map (img_blocks img) = [[97] \<mapsto> [1, 2, 3]]" using ex_write by blast
  have "[[100] \<mapsto> img] [100 :: u8] = Some img" "cstr [97] [97, 0 :: u8]" "[97 :: u8] \<noteq> []" by simp_all
  from tfstool_delete_correct [where h = "[[100] \<mapsto> img]" and dsk = "[100]", OF i(1) this] obtain img' where "tfstool_delete [100] [97, 0] [[100] \<mapsto> img] = Inr (Some (), [[100] \<mapsto> img'])"
    "fs_map (img_blocks img') = [[97] \<mapsto> [1, 2, 3]]([97] := None)" unfolding i(2) by auto
  then show ?thesis by auto
qed

theorem tfstool_delete_nothing_witness: "\<exists>img. image_ok 16 img \<and> tfstool_delete [100] [0] [[100] \<mapsto> img] = Inl Bad_access"
proof -
  obtain img where i: "image_ok 16 img" "fs_map (img_blocks img) = Map.empty" "take 16 (drop 4 (img_blocks img 0)) = ex_vol" using ex_image by blast
  have ok: "fs_ok 16 (img_blocks img)" using i(1) by (simp add: image_ok_def)
  have "img_blocks img 0 ! (4 + k) = ex_vol ! k" if "k < 4" for k
  proof -
    have "take 16 (drop 4 (img_blocks img 0)) ! k = img_blocks img 0 ! (4 + k)" using that fs_okD(3) [OF ok, of 0] by simp
    then show ?thesis unfolding i(3) by simp
  qed
  from this [of 0] this [of 1] this [of 2] this [of 3] have "4096 \<le> unat (rd32 (img_blocks img 0) 4)"
    by (simp add: rd32_def word_of_bytes_def push_bit_eq_mult)
  moreover have "\<exists>i < 25. \<not> used (img_blocks img) i" using empty_volume(1) [OF ok i(2), of 0] by (auto intro: exI [of _ 0])
  moreover have "[[100] \<mapsto> img] [100] = Some img" "cstr [] [0 :: u8]" by simp_all
  ultimately show ?thesis using tfstool_delete_nothing [OF i(1)] i(1) by blast
qed

theorem tfstool_list_correct_witness:
  "\<exists>img. tfstool_list [100] (replicate 512 0) (replicate 512 0) (replicate 512 0) [[100] \<mapsto> img] = Inr (Some ([100, 105, 115, 107], 16, []), [[100] \<mapsto> img])"
proof -
  obtain img where i: "image_ok 16 img" "fs_map (img_blocks img) = Map.empty" "take 16 (drop 4 (img_blocks img 0)) = ex_vol" using ex_image by blast
  have ok: "fs_ok 16 (img_blocks img)" using i(1) by (simp add: image_ok_def)
  have "drop 4 (img_blocks img 0) = ex_vol @ drop 16 (drop 4 (img_blocks img 0))" using i(3) append_take_drop_id by metis
  then obtain xs where "drop 4 (img_blocks img 0) = [100, 105, 115, 107] @ 0 # xs" by (auto simp: numeral_eq_Suc)
  then have "takeWhile (\<lambda>c. c \<noteq> 0) (drop 4 (img_blocks img 0)) = [100, 105, 115, 107]" by simp
  moreover have "filter (used (img_blocks img)) [0..<25] = []" using empty_volume(1) [OF ok i(2)] by (auto simp: filter_empty_conv)
  moreover have "[[100] \<mapsto> img] [100] = Some img" by simp
  ultimately show ?thesis using tfstool_list_correct [OF i(1), of "[[100] \<mapsto> img]" "[100]" "replicate 512 0" "replicate 512 0" "replicate 512 0"] by auto
qed

end
