(* ===== verification/Vm.thy ===== *)
theory Vm
  imports Pagepool
begin

text \<open>
  \<^verbatim>\<open>vm/vm.c\<close> and \<^verbatim>\<open>vm/tlb.c\<close>: page tables and the handlers of TLB misses.

  A bit field of \<open>n\<close> bits is an \<open>n word\<close>. The unused fields of a TLB entry (the cache
  settings and the padding) are left out. Page tables live in pages of the page pool: the
  memory of page tables is a function from their kernel addresses to their contents.

  The abstract view of a page table is the partial function \<open>pt_lookup\<close> from virtual
  addresses to page frame and write permission.
\<close>

section \<open>The code\<close>

record tlb_entry_t =
  VPN2 :: "19 word"
  ASID :: "8 word"
  PFN0 :: "20 word"
  D0 :: "1 word"
  V0 :: "1 word"
  G0 :: "1 word"
  PFN1 :: "20 word"
  D1 :: "1 word"
  V1 :: "1 word"
  G1 :: "1 word"

definition PAGETABLE_ENTRIES :: nat where
  "PAGETABLE_ENTRIES = 340"

record pagetable_t =
  pt_ASID :: u32
  valid_count :: u32
  entries :: "tlb_entry_t list"

type_synonym tables = "u32 \<Rightarrow> pagetable_t"

definition ADDR_IS_ON_ODD_PAGE :: "u32 \<Rightarrow> bool" where
  "ADDR_IS_ON_ODD_PAGE a \<longleftrightarrow> a AND 0x1000 \<noteq> 0"

definition ADDR_IS_ON_EVEN_PAGE :: "u32 \<Rightarrow> bool" where
  "ADDR_IS_ON_EVEN_PAGE a \<longleftrightarrow> \<not> (a AND 0x1000 \<noteq> 0)"

definition vm_init ::
  "io_descriptor_t list \<Rightarrow> (u32 \<Rightarrow> u32) \<Rightarrow> (u32 \<Rightarrow> nat \<Rightarrow> u32) \<Rightarrow> kmalloc_state
     \<Rightarrow> (pagepool \<times> kmalloc_state) res" where
  "vm_init descs io ram km =
     rbind (pagepool_init descs io ram km) (\<lambda>(pp, km'). Inr (pp, kmalloc_disable km'))"

text \<open>The returned pointer is 0 for \<^verbatim>\<open>NULL\<close>.\<close>

definition vm_create_pagetable :: "pagepool \<Rightarrow> tables \<Rightarrow> u32 \<Rightarrow> (u32 \<times> pagepool \<times> tables) res" where
  "vm_create_pagetable pp mem asid =
     rbind (pagepool_get_phys_page pp) (\<lambda>(addr, pp').
       if addr = 0 then Inr (0, pp', mem)
       else let table = ADDR_PHYS_TO_KERNEL addr
            in Inr (table, pp', mem(table := (mem table)\<lparr>pt_ASID := asid, valid_count := 0\<rparr>)))"

definition vm_destroy_pagetable :: "pagepool \<Rightarrow> u32 \<Rightarrow> pagepool res" where
  "vm_destroy_pagetable pp pagetable = pagepool_free_phys_page pp (ADDR_KERNEL_TO_PHYS pagetable)"

text \<open>
  The loop over the first \<^verbatim>\<open>valid_count\<close> entries, shared by \<open>vm_map\<close>,
  \<open>vm_set_dirty\<close> and the TLB miss handler: all three leave it at the first entry whose
  \<^verbatim>\<open>VPN2\<close> fits. \<open>None\<close> is a loop that ran to its end.
\<close>

fun vm_scan :: "tlb_entry_t list \<Rightarrow> nat \<Rightarrow> 19 word \<Rightarrow> nat option res" where
  "vm_scan es 0 vpn = Inr None"
| "vm_scan [] (Suc n) vpn = Inl Bad_access"
| "vm_scan (e # es) (Suc n) vpn =
     (if VPN2 e = vpn then Inr (Some 0)
      else rbind (vm_scan es n vpn) (\<lambda>r. Inr (map_option Suc r)))"

definition vpn2_of :: "u32 \<Rightarrow> 19 word" where
  "vpn2_of vaddr = ucast (drop_bit 13 vaddr)"

definition pfn_of :: "u32 \<Rightarrow> 20 word" where
  "pfn_of physaddr = ucast (drop_bit 12 physaddr)"

definition vm_map :: "pagetable_t \<Rightarrow> u32 \<Rightarrow> u32 \<Rightarrow> int \<Rightarrow> pagetable_t res" where
  "vm_map pt physaddr vaddr dirty =
     (if \<not> (dirty = 0 \<or> dirty = 1) then Inl Kernel_assert
      else rbind (vm_scan (entries pt) (unat (valid_count pt)) (vpn2_of vaddr)) (\<lambda>r.
        case r of
          Some i \<Rightarrow>
            rbind (aget (entries pt) (int i)) (\<lambda>e.
              if ADDR_IS_ON_EVEN_PAGE vaddr then
                if V0 e = 1 then Inl Kernel_panic
                else rbind (aset (entries pt) (int i)
                       (e\<lparr>PFN0 := pfn_of physaddr, V0 := 1, G0 := 0, D0 := of_int dirty\<rparr>))
                       (\<lambda>es. Inr (pt\<lparr>entries := es\<rparr>))
              else
                if V1 e = 1 then Inl Kernel_panic
                else rbind (aset (entries pt) (int i)
                       (e\<lparr>PFN1 := pfn_of physaddr, V1 := 1, G1 := 0, D1 := of_int dirty\<rparr>))
                       (\<lambda>es. Inr (pt\<lparr>entries := es\<rparr>)))
        | None \<Rightarrow>
            if unat (valid_count pt) \<ge> PAGETABLE_ENTRIES then Inl Kernel_panic
            else rbind (aget (entries pt) (int (unat (valid_count pt)))) (\<lambda>e0.
              let e = e0\<lparr>VPN2 := vpn2_of vaddr, ASID := ucast (pt_ASID pt)\<rparr>;
                  e' = (if ADDR_IS_ON_EVEN_PAGE vaddr
                        then e\<lparr>PFN0 := pfn_of physaddr, D0 := of_int dirty, V0 := 1, G0 := 0, V1 := 0\<rparr>
                        else e\<lparr>PFN1 := pfn_of physaddr, D1 := of_int dirty, V1 := 1, G1 := 0, V0 := 0\<rparr>)
              in rbind (aset (entries pt) (int (unat (valid_count pt))) e') (\<lambda>es.
                   Inr (pt\<lparr>entries := es, valid_count := valid_count pt + 1\<rparr>)))))"

definition vm_unmap :: "pagetable_t \<Rightarrow> u32 \<Rightarrow> pagetable_t" where
  "vm_unmap pt vaddr = pt"

definition vm_set_dirty :: "pagetable_t \<Rightarrow> u32 \<Rightarrow> int \<Rightarrow> pagetable_t res" where
  "vm_set_dirty pt vaddr dirty =
     (if \<not> (dirty = 0 \<or> dirty = 1) then Inl Kernel_assert
      else rbind (vm_scan (entries pt) (unat (valid_count pt)) (vpn2_of vaddr)) (\<lambda>r.
        case r of
          Some i \<Rightarrow>
            rbind (aget (entries pt) (int i)) (\<lambda>e.
              if ADDR_IS_ON_EVEN_PAGE vaddr then
                if V0 e = 0 then Inl Kernel_panic
                else rbind (aset (entries pt) (int i) (e\<lparr>D0 := of_int dirty\<rparr>))
                       (\<lambda>es. Inr (pt\<lparr>entries := es\<rparr>))
              else
                if V1 e = 0 then Inl Kernel_panic
                else rbind (aset (entries pt) (int i) (e\<lparr>D1 := of_int dirty\<rparr>))
                       (\<lambda>es. Inr (pt\<lparr>entries := es\<rparr>)))
        | None \<Rightarrow> Inl Kernel_panic))"

text \<open>
  What the handler of a TLB exception ends in: an entry written to the TLB, or the end of the
  current process. The processor's exception registers \<^verbatim>\<open>badvpn2\<close> and
  \<^verbatim>\<open>badvaddr\<close> are arguments.
\<close>

datatype tlb_outcome =
    Tlb_write_random tlb_entry_t
  | Process_finish int

definition tlb_error :: "bool \<Rightarrow> tlb_outcome res" where
  "tlb_error is_userland = (if is_userland then Inr (Process_finish 255) else Inl Kernel_panic)"

definition tlb_modified_exception :: "bool \<Rightarrow> tlb_outcome res" where
  "tlb_modified_exception is_userland = tlb_error is_userland"

definition tlb_entry_is_valid :: "tlb_entry_t \<Rightarrow> u32 \<Rightarrow> bool" where
  "tlb_entry_is_valid e vaddr = (if ADDR_IS_ON_ODD_PAGE vaddr then V1 e \<noteq> 0 else V0 e \<noteq> 0)"

definition tlb_access_exception ::
    "pagetable_t option \<Rightarrow> 19 word \<Rightarrow> u32 \<Rightarrow> bool \<Rightarrow> tlb_outcome res" where
  "tlb_access_exception ptable badvpn2 badvaddr is_userland =
     (case ptable of
        None \<Rightarrow> tlb_error is_userland
      | Some pt \<Rightarrow>
          rbind (vm_scan (entries pt) (unat (valid_count pt)) badvpn2) (\<lambda>r.
            case r of
              Some i \<Rightarrow> rbind (aget (entries pt) (int i)) (\<lambda>e.
                if tlb_entry_is_valid e badvaddr then Inr (Tlb_write_random e)
                else tlb_error is_userland)
            | None \<Rightarrow> Inl Kernel_panic))"

definition tlb_load_exception ::
    "pagetable_t option \<Rightarrow> 19 word \<Rightarrow> u32 \<Rightarrow> bool \<Rightarrow> tlb_outcome res" where
  "tlb_load_exception = tlb_access_exception"

definition tlb_store_exception ::
    "pagetable_t option \<Rightarrow> 19 word \<Rightarrow> u32 \<Rightarrow> bool \<Rightarrow> tlb_outcome res" where
  "tlb_store_exception = tlb_access_exception"

section \<open>The abstract view\<close>

definition entry_lookup :: "tlb_entry_t \<Rightarrow> bool \<Rightarrow> (20 word \<times> bool) option" where
  "entry_lookup e high =
     (if high then (if V1 e = 1 then Some (PFN1 e, D1 e = 1) else None)
      else (if V0 e = 1 then Some (PFN0 e, D0 e = 1) else None))"

definition used :: "pagetable_t \<Rightarrow> tlb_entry_t list" where
  "used pt = take (unat (valid_count pt)) (entries pt)"

definition pt_lookup :: "pagetable_t \<Rightarrow> u32 \<Rightarrow> (20 word \<times> bool) option" where
  "pt_lookup pt vaddr =
     (case find (\<lambda>e. VPN2 e = vpn2_of vaddr) (used pt) of
        None \<Rightarrow> None | Some e \<Rightarrow> entry_lookup e (bit vaddr 12))"

definition pt_has_pair :: "pagetable_t \<Rightarrow> u32 \<Rightarrow> bool" where
  "pt_has_pair pt vaddr \<longleftrightarrow> vpn2_of vaddr \<in> VPN2 ` set (used pt)"

definition pt_inv :: "pagetable_t \<Rightarrow> bool" where
  "pt_inv pt \<longleftrightarrow> length (entries pt) = PAGETABLE_ENTRIES
     \<and> unat (valid_count pt) \<le> PAGETABLE_ENTRIES
     \<and> distinct (map VPN2 (used pt))
     \<and> (\<forall>e \<in> set (used pt). ASID e = ucast (pt_ASID pt))"

definition same_page :: "u32 \<Rightarrow> u32 \<Rightarrow> bool" where
  "same_page a b \<longleftrightarrow> drop_bit 12 a = drop_bit 12 b"

lemma odd_page: "ADDR_IS_ON_ODD_PAGE a \<longleftrightarrow> bit a 12"
proof -
  have "(0x1000 :: u32) = 2 ^ 12" by simp
  then show ?thesis unfolding ADDR_IS_ON_ODD_PAGE_def by (simp only: and_exp_eq_0_iff_not_bit) simp
qed

lemma even_page: "ADDR_IS_ON_EVEN_PAGE a \<longleftrightarrow> \<not> bit a 12"
  using odd_page by (simp add: ADDR_IS_ON_EVEN_PAGE_def ADDR_IS_ON_ODD_PAGE_def)

lemma same_page_iff: "same_page a b \<longleftrightarrow> vpn2_of a = vpn2_of b \<and> bit a 12 = bit b 12"
proof
  assume "same_page a b"
  then have b: "bit a (12 + n) = bit b (12 + n)" for n
    unfolding same_page_def by (metis bit_drop_bit_eq comp_apply)
  have "vpn2_of a = vpn2_of b"
  proof (rule bit_word_eqI)
    fix n assume "n < LENGTH(19)"
    then show "bit (vpn2_of a) n = bit (vpn2_of b) n"
      using b [of "Suc n"] by (simp add: vpn2_of_def bit_ucast_iff bit_drop_bit_eq)
  qed
  with b [of 0] show "vpn2_of a = vpn2_of b \<and> bit a 12 = bit b 12" by simp
next
  assume h: "vpn2_of a = vpn2_of b \<and> bit a 12 = bit b 12"
  have b: "bit a (13 + n) = bit b (13 + n)" if "n < 19" for n
    using arg_cong [OF conjunct1 [OF h], of "\<lambda>w. bit w n"] that
    by (simp add: vpn2_of_def bit_ucast_iff bit_drop_bit_eq)
  show "same_page a b"
    unfolding same_page_def
  proof (rule bit_word_eqI)
    fix n assume n: "n < LENGTH(32)"
    show "bit (drop_bit 12 a) n = bit (drop_bit 12 b) n"
    proof (cases n)
      case 0
      with h show ?thesis by (simp add: bit_drop_bit_eq)
    next
      case (Suc k)
      show ?thesis
      proof (cases "k < 19")
        case True
        with b [of k] Suc show ?thesis by (simp add: bit_drop_bit_eq)
      next
        case False
        then show ?thesis using Suc by (auto simp: bit_drop_bit_eq dest: bit_imp_le_length)
      qed
    qed
  qed
qed

section \<open>Searching\<close>

lemma vm_scan_eq:
  "n \<le> length es \<Longrightarrow> vm_scan es n v =
     Inr (if \<exists>e \<in> set (take n es). VPN2 e = v
          then Some (first_index (\<lambda>e. VPN2 e = v) (take n es)) else None)"
  by (induction es n v rule: vm_scan.induct) auto

lemma find_first_index:
  "find P xs = (if \<exists>x \<in> set xs. P x then Some (xs ! first_index P xs) else None)"
  by (induction xs) auto

lemma find_update_other:
  "i < length xs \<Longrightarrow> \<not> Q (xs ! i) \<Longrightarrow> \<not> Q y \<Longrightarrow> find Q (xs[i := y]) = find Q xs"
  by (induction xs arbitrary: i) (auto split: nat.splits)

lemma find_update_hit:
  "first_index P xs < length xs \<Longrightarrow> P y \<Longrightarrow> find P (xs[first_index P xs := y]) = Some y"
  by (induction xs) auto

lemma find_append: "find P (xs @ [y]) = (case find P xs of None \<Rightarrow> if P y then Some y else None | Some x \<Rightarrow> Some x)"
  by (induction xs) auto

lemma bit1_cases: "(x :: 1 word) = 0 \<or> x = 1"
proof -
  have "unat x < 2 ^ LENGTH(1)" by (rule unsigned_less)
  then have "unat x = 0 \<or> unat x = 1" by auto
  then show ?thesis by (auto simp: word_unat_eq_iff)
qed

lemma length_used: "pt_inv pt \<Longrightarrow> length (used pt) = unat (valid_count pt)"
  by (simp add: pt_inv_def used_def)

lemma scan_used:
  assumes "pt_inv pt"
  shows "vm_scan (entries pt) (unat (valid_count pt)) (vpn2_of va) =
    Inr (if pt_has_pair pt va then Some (first_index (\<lambda>e. VPN2 e = vpn2_of va) (used pt)) else None)"
proof -
  have "unat (valid_count pt) \<le> length (entries pt)" using assms by (simp add: pt_inv_def)
  moreover have "pt_has_pair pt va \<longleftrightarrow> (\<exists>e \<in> set (used pt). VPN2 e = vpn2_of va)"
    unfolding pt_has_pair_def by (metis (no_types, lifting) image_iff)
  ultimately show ?thesis by (simp add: vm_scan_eq used_def)
qed

text \<open>
  The entry that the search stops at.
\<close>

lemma pair_entry:
  assumes inv: "pt_inv pt" and pair: "pt_has_pair pt va"
  defines "i \<equiv> first_index (\<lambda>e. VPN2 e = vpn2_of va) (used pt)"
  obtains "i < length (used pt)" "i < length (entries pt)" "VPN2 (entries pt ! i) = vpn2_of va"
    "used pt ! i = entries pt ! i" "ASID (entries pt ! i) = ucast (pt_ASID pt)"
    "\<And>vb. vpn2_of vb = vpn2_of va \<Longrightarrow> pt_lookup pt vb = entry_lookup (entries pt ! i) (bit vb 12)"
proof -
  have ex: "\<exists>e \<in> set (used pt). VPN2 e = vpn2_of va"
    using pair by (auto simp: pt_has_pair_def image_iff)
  then have i: "i < length (used pt)" by (simp add: i_def first_index_less_iff)
  then have hit: "VPN2 (used pt ! i) = vpn2_of va" unfolding i_def by (rule first_index_hit)
  have eq: "used pt ! i = entries pt ! i" using i by (simp add: used_def)
  have "pt_lookup pt vb = entry_lookup (entries pt ! i) (bit vb 12)" if "vpn2_of vb = vpn2_of va" for vb
    using ex eq that by (simp add: pt_lookup_def find_first_index i_def)
  moreover have "ASID (entries pt ! i) = ucast (pt_ASID pt)"
    using inv nth_mem [OF i] eq by (simp add: pt_inv_def)
  ultimately show ?thesis using that i hit eq by (auto simp: used_def)
qed

lemma replace_entry:
  assumes inv: "pt_inv pt" and pair: "pt_has_pair pt va"
    and i: "i = first_index (\<lambda>e. VPN2 e = vpn2_of va) (used pt)"
    and e': "VPN2 e' = VPN2 (entries pt ! i)" "ASID e' = ASID (entries pt ! i)"
    and pt': "pt' = pt\<lparr>entries := (entries pt)[i := e']\<rparr>"
  shows "pt_inv pt'"
    and "pt_lookup pt' vb = (if vpn2_of vb = vpn2_of va then entry_lookup e' (bit vb 12) else pt_lookup pt vb)"
    and "pt_has_pair pt' vb = pt_has_pair pt vb"
proof -
  obtain il: "i < length (used pt)" "VPN2 (entries pt ! i) = vpn2_of va"
    "used pt ! i = entries pt ! i" "ASID (entries pt ! i) = ucast (pt_ASID pt)"
    using pair_entry [OF inv pair] i by metis
  have u: "used pt' = (used pt)[i := e']" by (simp add: used_def pt' take_update_swap)
  have vp: "map VPN2 (used pt') = map VPN2 (used pt)"
  proof -
    have "map VPN2 (used pt') = (map VPN2 (used pt))[i := map VPN2 (used pt) ! i]"
      using il e' by (simp add: u map_update)
    then show ?thesis by simp
  qed
  have "ASID e = ucast (pt_ASID pt)" if "e \<in> set (used pt')" for e
    using that inv il e' set_update_subset_insert [of "used pt" i e'] by (auto simp: u pt_inv_def)
  then show "pt_inv pt'" using inv vp by (simp add: pt_inv_def pt')
  show "pt_has_pair pt' vb = pt_has_pair pt vb"
    using arg_cong [OF vp, of set] by (simp add: pt_has_pair_def)
  show "pt_lookup pt' vb = (if vpn2_of vb = vpn2_of va then entry_lookup e' (bit vb 12) else pt_lookup pt vb)"
  proof (cases "vpn2_of vb = vpn2_of va")
    case True
    then have "find (\<lambda>e. VPN2 e = vpn2_of vb) (used pt') = Some e'"
      using find_update_hit [of "\<lambda>e. VPN2 e = vpn2_of va" "used pt" e'] il e' by (simp add: u i)
    with True show ?thesis by (simp add: pt_lookup_def)
  next
    case False
    then have "find (\<lambda>e. VPN2 e = vpn2_of vb) (used pt') = find (\<lambda>e. VPN2 e = vpn2_of vb) (used pt)"
      unfolding u using il e' by (intro find_update_other) auto
    with False show ?thesis by (simp add: pt_lookup_def)
  qed
qed

lemma append_entry:
  assumes inv: "pt_inv pt" and pair: "\<not> pt_has_pair pt va" and room: "unat (valid_count pt) < PAGETABLE_ENTRIES"
    and e': "VPN2 e' = vpn2_of va" "ASID e' = ucast (pt_ASID pt)"
    and pt': "pt' = pt\<lparr>entries := (entries pt)[unat (valid_count pt) := e'], valid_count := valid_count pt + 1\<rparr>"
  shows "pt_inv pt'"
    and "pt_lookup pt' vb = (if vpn2_of vb = vpn2_of va then entry_lookup e' (bit vb 12) else pt_lookup pt vb)"
    and "unat (valid_count pt') = Suc (unat (valid_count pt))"
proof -
  let ?n = "unat (valid_count pt)"
  have n: "unat (valid_count pt + 1) = Suc ?n"
    using unat_plus_less [of "valid_count pt" 1] room by (simp add: PAGETABLE_ENTRIES_def)
  have u: "used pt' = used pt @ [e']"
    using inv room by (simp add: used_def pt' n take_Suc_conv_app_nth pt_inv_def)
  have new: "vpn2_of va \<notin> VPN2 ` set (used pt)" using pair by (simp add: pt_has_pair_def)
  show "pt_inv pt'"
    using inv room new e' unfolding pt_inv_def u by (simp add: pt' n)
  show "unat (valid_count pt') = Suc ?n" by (simp add: pt' n)
  have "find (\<lambda>e. VPN2 e = vpn2_of va) (used pt) = None" using new by (metis (mono_tags, lifting) find_None_iff image_eqI)
  then show "pt_lookup pt' vb = (if vpn2_of vb = vpn2_of va then entry_lookup e' (bit vb 12) else pt_lookup pt vb)"
    using e' by (simp add: pt_lookup_def u find_append split: option.splits)
qed

section \<open>The operations on the abstract view\<close>

lemmas entry_simps = entry_lookup_def even_page odd_page

lemma lookup_has_pair: "pt_lookup pt va \<noteq> None \<Longrightarrow> pt_has_pair pt va"
proof -
  assume "pt_lookup pt va \<noteq> None"
  then obtain e where "find (\<lambda>e. VPN2 e = vpn2_of va) (used pt) = Some e"
    by (auto simp: pt_lookup_def split: option.splits)
  then have "e \<in> set (used pt)" "VPN2 e = vpn2_of va" by (auto simp: find_Some_iff)
  then show ?thesis unfolding pt_has_pair_def by (metis image_eqI)
qed

lemma lookup_same_page: "same_page a b \<Longrightarrow> pt_lookup pt a = pt_lookup pt b"
  by (auto simp: same_page_iff pt_lookup_def split: option.splits)

lemma vm_map_pair:
  assumes inv: "pt_inv pt" and pair: "pt_has_pair pt va" and none: "pt_lookup pt va = None"
    and d: "d = 0 \<or> d = 1"
  shows "\<exists>pt'. vm_map pt pa va d = Inr pt' \<and> pt_inv pt' \<and> valid_count pt' = valid_count pt
    \<and> (\<forall>vb. pt_lookup pt' vb = (if same_page va vb then Some (pfn_of pa, d = 1) else pt_lookup pt vb))"
proof -
  define i where "i = first_index (\<lambda>e. VPN2 e = vpn2_of va) (used pt)"
  obtain il: "i < length (entries pt)"
    and lk: "\<And>vb. vpn2_of vb = vpn2_of va \<Longrightarrow> pt_lookup pt vb = entry_lookup (entries pt ! i) (bit vb 12)"
    using pair_entry [OF inv pair] i_def by metis
  define e where "e = entries pt ! i"
  define e' where "e' = (if bit va 12 then e\<lparr>PFN1 := pfn_of pa, V1 := 1, G1 := 0, D1 := of_int d\<rparr>
    else e\<lparr>PFN0 := pfn_of pa, V0 := 1, G0 := 0, D0 := of_int d\<rparr>)"
  define pt' where "pt' = pt\<lparr>entries := (entries pt)[i := e']\<rparr>"
  have e'_same: "VPN2 e' = VPN2 (entries pt ! i)" "ASID e' = ASID (entries pt ! i)"
    by (simp_all add: e'_def e_def)
  have none': "entry_lookup e (bit va 12) = None" using lk [of va] none by (simp add: e_def)
  then have "vm_map pt pa va d = Inr pt'"
    using il d pair by (auto simp: vm_map_def scan_used [OF inv] i_def [symmetric] e_def [symmetric]
        even_page entry_lookup_def e'_def pt'_def split: if_splits)
  moreover have "pt_lookup pt' vb = (if same_page va vb then Some (pfn_of pa, d = 1) else pt_lookup pt vb)" for vb
    using replace_entry(2) [OF inv pair i_def e'_same pt'_def, of vb] lk [of vb] d
    by (auto simp: same_page_iff entry_lookup_def e'_def e_def)
  ultimately show ?thesis
    using replace_entry(1) [OF inv pair i_def e'_same pt'_def] by (simp add: pt'_def)
qed

lemma vm_map_new:
  assumes inv: "pt_inv pt" and pair: "\<not> pt_has_pair pt va"
    and room: "unat (valid_count pt) < PAGETABLE_ENTRIES" and d: "d = 0 \<or> d = 1"
  shows "\<exists>pt'. vm_map pt pa va d = Inr pt' \<and> pt_inv pt' \<and> unat (valid_count pt') = Suc (unat (valid_count pt))
    \<and> (\<forall>vb. pt_lookup pt' vb = (if same_page va vb then Some (pfn_of pa, d = 1) else pt_lookup pt vb))"
proof -
  let ?n = "unat (valid_count pt)"
  define e where "e = (entries pt ! ?n)\<lparr>VPN2 := vpn2_of va, ASID := ucast (pt_ASID pt)\<rparr>"
  define e' where "e' = (if bit va 12
    then e\<lparr>PFN1 := pfn_of pa, D1 := of_int d, V1 := 1, G1 := 0, V0 := 0\<rparr>
    else e\<lparr>PFN0 := pfn_of pa, D0 := of_int d, V0 := 1, G0 := 0, V1 := 0\<rparr>)"
  define pt' where "pt' = pt\<lparr>entries := (entries pt)[?n := e'], valid_count := valid_count pt + 1\<rparr>"
  have e'_same: "VPN2 e' = vpn2_of va" "ASID e' = ucast (pt_ASID pt)"
    by (simp_all add: e'_def e_def)
  have "vm_map pt pa va d = Inr pt'"
    using d pair room inv
    by (auto simp: vm_map_def scan_used [OF inv] even_page e'_def e_def pt'_def pt_inv_def Let_def)
  moreover have "pt_lookup pt vb = None" if "vpn2_of vb = vpn2_of va" for vb
    using lookup_has_pair [of pt vb] pair that by (auto simp: pt_has_pair_def)
  then have "pt_lookup pt' vb = (if same_page va vb then Some (pfn_of pa, d = 1) else pt_lookup pt vb)" for vb
    using append_entry(2) [OF inv pair room e'_same pt'_def, of vb] d
    by (auto simp: same_page_iff entry_lookup_def e'_def)
  ultimately show ?thesis
    using append_entry(1,3) [OF inv pair room e'_same pt'_def] by blast
qed

lemma vm_map_mapped:
  assumes inv: "pt_inv pt" and some: "pt_lookup pt va \<noteq> None" and d: "d = 0 \<or> d = 1"
  shows "vm_map pt pa va d = Inl Kernel_panic"
proof -
  have pair: "pt_has_pair pt va" using lookup_has_pair some by blast
  define i where "i = first_index (\<lambda>e. VPN2 e = vpn2_of va) (used pt)"
  obtain "i < length (entries pt)" "pt_lookup pt va = entry_lookup (entries pt ! i) (bit va 12)"
    using pair_entry [OF inv pair] i_def by metis
  with some d pair show ?thesis
    by (auto simp: vm_map_def scan_used [OF inv] i_def [symmetric] even_page entry_lookup_def split: if_splits)
qed

lemma vm_map_full:
  assumes "pt_inv pt" "\<not> pt_has_pair pt va" "PAGETABLE_ENTRIES \<le> unat (valid_count pt)" "d = 0 \<or> d = 1"
  shows "vm_map pt pa va d = Inl Kernel_panic"
  using assms(2-4) by (auto simp: vm_map_def scan_used [OF assms(1)])

lemma vm_set_dirty_mapped:
  assumes inv: "pt_inv pt" and some: "pt_lookup pt va = Some (f, w)" and d: "d = 0 \<or> d = 1"
  shows "\<exists>pt'. vm_set_dirty pt va d = Inr pt' \<and> pt_inv pt'
    \<and> (\<forall>vb. pt_lookup pt' vb = (if same_page va vb then Some (f, d = 1) else pt_lookup pt vb))"
proof -
  have pair: "pt_has_pair pt va" using lookup_has_pair [of pt va] some by blast
  define i where "i = first_index (\<lambda>e. VPN2 e = vpn2_of va) (used pt)"
  obtain il: "i < length (entries pt)"
    and lk: "\<And>vb. vpn2_of vb = vpn2_of va \<Longrightarrow> pt_lookup pt vb = entry_lookup (entries pt ! i) (bit vb 12)"
    using pair_entry [OF inv pair] i_def by metis
  define e where "e = entries pt ! i"
  define e' where "e' = (if bit va 12 then e\<lparr>D1 := of_int d\<rparr> else e\<lparr>D0 := of_int d\<rparr>)"
  define pt' where "pt' = pt\<lparr>entries := (entries pt)[i := e']\<rparr>"
  have e'_same: "VPN2 e' = VPN2 (entries pt ! i)" "ASID e' = ASID (entries pt ! i)"
    by (simp_all add: e'_def e_def)
  have some': "entry_lookup e (bit va 12) = Some (f, w)" using lk [of va] some by (simp add: e_def)
  then have "vm_set_dirty pt va d = Inr pt'"
    using il d pair by (auto simp: vm_set_dirty_def scan_used [OF inv] i_def [symmetric] e_def [symmetric]
        even_page entry_lookup_def e'_def pt'_def split: if_splits)
  moreover have "pt_lookup pt' vb = (if same_page va vb then Some (f, d = 1) else pt_lookup pt vb)" for vb
    using replace_entry(2) [OF inv pair i_def e'_same pt'_def, of vb] lk [of vb] d some'
    by (auto simp: same_page_iff entry_lookup_def e'_def e_def split: if_splits)
  ultimately show ?thesis
    using replace_entry(1) [OF inv pair i_def e'_same pt'_def] by blast
qed

lemma vm_set_dirty_unmapped:
  assumes inv: "pt_inv pt" and none: "pt_lookup pt va = None" and d: "d = 0 \<or> d = 1"
  shows "vm_set_dirty pt va d = Inl Kernel_panic"
proof (cases "pt_has_pair pt va")
  case True
  define i where "i = first_index (\<lambda>e. VPN2 e = vpn2_of va) (used pt)"
  obtain "i < length (entries pt)" "pt_lookup pt va = entry_lookup (entries pt ! i) (bit va 12)"
    using pair_entry [OF inv True] i_def by metis
  with none d True bit1_cases show ?thesis
    by (auto simp: vm_set_dirty_def scan_used [OF inv] i_def [symmetric] even_page entry_lookup_def
        split: if_splits)
next
  case False
  with d show ?thesis by (auto simp: vm_set_dirty_def scan_used [OF inv])
qed

section \<open>Address spaces\<close>

fun map_all :: "('s \<Rightarrow> u32 \<Rightarrow> u32 \<Rightarrow> int \<Rightarrow> 's res) \<Rightarrow> 's \<Rightarrow> (u32 \<times> u32 \<times> int) list \<Rightarrow> 's res" where
  "map_all f s [] = Inr s"
| "map_all f s ((pa, va, d) # ms) = rbind (f s pa va d) (\<lambda>s'. map_all f s' ms)"

text \<open>
  What the program loader expects of an address space. \<open>room\<close> is the number of further
  pages that are sure to fit.
\<close>

locale address_space =
  fixes ok :: "'s \<Rightarrow> bool"
    and lookup :: "'s \<Rightarrow> u32 \<Rightarrow> (20 word \<times> bool) option"
    and map_page :: "'s \<Rightarrow> u32 \<Rightarrow> u32 \<Rightarrow> int \<Rightarrow> 's res"
    and room :: "'s \<Rightarrow> nat"
  assumes lookup_page: "same_page a b \<Longrightarrow> lookup s a = lookup s b"
    and map_page_law: "ok s \<Longrightarrow> lookup s va = None \<Longrightarrow> 0 < room s \<Longrightarrow> d = 0 \<or> d = 1 \<Longrightarrow>
      \<exists>s'. map_page s pa va d = Inr s' \<and> ok s' \<and> room s \<le> Suc (room s')
        \<and> (\<forall>vb. lookup s' vb = (if same_page va vb then Some (pfn_of pa, d = 1) else lookup s vb))"
begin

definition mappable :: "'s \<Rightarrow> (u32 \<times> u32 \<times> int) list \<Rightarrow> bool" where
  "mappable s ms \<longleftrightarrow> length ms \<le> room s \<and> distinct (map (\<lambda>(pa, va, d). drop_bit 12 va) ms)
     \<and> (\<forall>(pa, va, d) \<in> set ms. lookup s va = None \<and> (d = 0 \<or> d = 1))"

lemma map_all_correct:
  "ok s \<Longrightarrow> mappable s ms \<Longrightarrow> \<exists>s'. map_all map_page s ms = Inr s' \<and> ok s'
     \<and> (\<forall>(pa, va, d) \<in> set ms. lookup s' va = Some (pfn_of pa, d = 1))
     \<and> (\<forall>vb. (\<forall>(pa, va, d) \<in> set ms. \<not> same_page va vb) \<longrightarrow> lookup s' vb = lookup s vb)"
proof (induction ms arbitrary: s)
  case Nil
  then show ?case by auto
next
  case (Cons m ms)
  obtain pa va d where m: "m = (pa, va, d)" by (cases m) auto
  from Cons.prems m have h: "lookup s va = None" "0 < room s" "d = 0 \<or> d = 1"
    by (auto simp: mappable_def)
  have new: "\<forall>(pb, vb, e) \<in> set ms. \<not> same_page va vb"
    using Cons.prems(2) m by (force simp: mappable_def same_page_def)
  from map_page_law [OF Cons.prems(1) h] obtain s1 where s1: "map_page s pa va d = Inr s1" "ok s1"
    "room s \<le> Suc (room s1)"
    "\<forall>vb. lookup s1 vb = (if same_page va vb then Some (pfn_of pa, d = 1) else lookup s vb)" by blast
  have "mappable s1 ms" using Cons.prems(2) m s1(3,4) new by (auto simp: mappable_def)
  from Cons.IH [OF s1(2) this] obtain s' where s': "map_all map_page s1 ms = Inr s'" "ok s'"
    "\<forall>(pb, vb, e) \<in> set ms. lookup s' vb = Some (pfn_of pb, e = 1)"
    "\<forall>vb. (\<forall>(pb, va, e) \<in> set ms. \<not> same_page va vb) \<longrightarrow> lookup s' vb = lookup s1 vb" by blast
  have "\<forall>(pb, vb, e) \<in> set ms. \<not> same_page vb va" using new by (auto simp: same_page_def)
  then have "lookup s' va = Some (pfn_of pa, d = 1)" using s'(4) s1(4) by (simp add: same_page_def)
  with s' s1 m show ?case by auto
qed

end

definition pt_room :: "pagetable_t \<Rightarrow> nat" where
  "pt_room pt = PAGETABLE_ENTRIES - unat (valid_count pt)"

interpretation pt: address_space pt_inv pt_lookup vm_map pt_room
proof (unfold_locales, goal_cases)
  case (1 a b s)
  then show ?case by (rule lookup_same_page)
next
  case (2 s va d pa)
  then show ?case
    using vm_map_pair [OF 2(1) _ 2(2,4), of pa] vm_map_new [OF 2(1) _ _ 2(4), of va pa]
    by (cases "pt_has_pair s va") (fastforce simp: pt_room_def)+
qed

text \<open>
  C11. \<^verbatim>\<open>vm_map\<close> implements the update of a partial function from virtual pages to
  page frames: mapping an unmapped page adds exactly that page, with its frame and its write
  permission, and keeps the table well formed; mapping a mapped page, or a page of a new pair
  in a full table, is a panic and never an overwritten mapping.
\<close>

theorem vm_map_refines:
  assumes "pt_inv pt" "dirty = 0 \<or> dirty = 1"
  shows "if pt_lookup pt va \<noteq> None
            \<or> \<not> pt_has_pair pt va \<and> unat (valid_count pt) = PAGETABLE_ENTRIES
         then vm_map pt pa va dirty = Inl Kernel_panic
         else \<exists>pt'. vm_map pt pa va dirty = Inr pt' \<and> pt_inv pt'
           \<and> (\<forall>vb. pt_lookup pt' vb =
                (if same_page va vb then Some (pfn_of pa, dirty = 1) else pt_lookup pt vb))"
proof -
  have le: "unat (valid_count pt) \<le> PAGETABLE_ENTRIES" using assms(1) by (simp add: pt_inv_def)
  consider "pt_lookup pt va \<noteq> None" | "pt_lookup pt va = None" "pt_has_pair pt va"
    | "pt_lookup pt va = None" "\<not> pt_has_pair pt va" "unat (valid_count pt) = PAGETABLE_ENTRIES"
    | "pt_lookup pt va = None" "\<not> pt_has_pair pt va" "unat (valid_count pt) < PAGETABLE_ENTRIES"
    using le by linarith
  then show ?thesis
  proof cases
    case 1
    then show ?thesis using vm_map_mapped [OF assms(1) 1 assms(2)] by simp
  next
    case 2
    then show ?thesis using vm_map_pair [OF assms(1) 2(2,1) assms(2), of pa] by auto
  next
    case 3
    then show ?thesis using vm_map_full [OF assms(1) 3(2) _ assms(2), of pa] by simp
  next
    case 4
    then show ?thesis using vm_map_new [OF assms(1) 4(2,3) assms(2), of pa] by auto
  qed
qed

text \<open>
  \<^verbatim>\<open>vm_set_dirty\<close> changes the write permission of one mapped page and nothing
  else; on an unmapped page it is a panic.
\<close>

theorem vm_set_dirty_refines:
  assumes "pt_inv pt" "dirty = 0 \<or> dirty = 1"
  shows "case pt_lookup pt va of
           None \<Rightarrow> vm_set_dirty pt va dirty = Inl Kernel_panic
         | Some (f, w) \<Rightarrow> \<exists>pt'. vm_set_dirty pt va dirty = Inr pt' \<and> pt_inv pt'
             \<and> (\<forall>vb. pt_lookup pt' vb = (if same_page va vb then Some (f, dirty = 1) else pt_lookup pt vb))"
proof (cases "pt_lookup pt va")
  case None
  then show ?thesis using vm_set_dirty_unmapped [OF assms(1) None assms(2)] by simp
next
  case (Some fw)
  then show ?thesis using vm_set_dirty_mapped [OF assms(1) _ assms(2)] by (cases fw) simp
qed

text \<open>
  Mapping any list of distinct, unmapped pages that fits into the table succeeds, and the
  table then translates each of them to its frame and every other address as before.
\<close>

theorem vm_map_all:
  assumes "pt_inv pt" "pt.mappable pt ms"
  shows "\<exists>pt'. map_all vm_map pt ms = Inr pt' \<and> pt_inv pt'
    \<and> (\<forall>(pa, va, d) \<in> set ms. pt_lookup pt' va = Some (pfn_of pa, d = 1))
    \<and> (\<forall>vb. (\<forall>(pa, va, d) \<in> set ms. \<not> same_page va vb) \<longrightarrow> pt_lookup pt' vb = pt_lookup pt vb)"
  by (rule pt.map_all_correct [OF assms])

definition blank_entry :: tlb_entry_t where
  "blank_entry = \<lparr>VPN2 = 0, ASID = 0, PFN0 = 0, D0 = 0, V0 = 0, G0 = 0, PFN1 = 0, D1 = 0, V1 = 0, G1 = 0\<rparr>"

definition empty_table :: "u32 \<Rightarrow> pagetable_t" where
  "empty_table asid = \<lparr>pt_ASID = asid, valid_count = 0, entries = replicate PAGETABLE_ENTRIES blank_entry\<rparr>"

lemma fresh_table:
  "length (entries pt) = PAGETABLE_ENTRIES \<Longrightarrow> valid_count pt = 0 \<Longrightarrow> pt_inv pt \<and> pt_lookup pt = (\<lambda>_. None)"
  by (simp add: pt_inv_def used_def pt_lookup_def fun_eq_iff)

lemma empty_table_inv: "pt_inv (empty_table asid)" "pt_lookup (empty_table asid) va = None"
  "pt_has_pair (empty_table asid) va = False" "valid_count (empty_table asid) = 0"
  using fresh_table [of "empty_table asid"] by (simp_all add: empty_table_def pt_has_pair_def used_def)

theorem vm_map_refines_witness:
  "\<exists>pt'. vm_map (empty_table 1) 0x5000 0x7fff1000 1 = Inr pt' \<and> pt_inv pt'
     \<and> pt_lookup pt' 0x7fff1004 = Some (5, True) \<and> pt_lookup pt' 0x7fff0004 = None"
proof -
  obtain pt' where pt': "vm_map (empty_table 1) 0x5000 0x7fff1000 1 = Inr pt'" "pt_inv pt'"
    "\<forall>vb. pt_lookup pt' vb = (if same_page 0x7fff1000 vb then Some (pfn_of 0x5000, True) else None)"
    using vm_map_refines [of "empty_table 1" 1 "0x7fff1000" "0x5000"]
    by (auto simp: empty_table_inv PAGETABLE_ENTRIES_def)
  have "same_page 0x7fff1000 0x7fff1004" "\<not> same_page 0x7fff1000 0x7fff0004" "pfn_of 0x5000 = 5"
    by (simp_all add: same_page_def pfn_of_def drop_bit_eq_div)
  then show ?thesis using pt' by simp
qed

definition one_page_table :: pagetable_t where
  "one_page_table = (empty_table 1)\<lparr>valid_count := 1,
     entries := (replicate PAGETABLE_ENTRIES blank_entry)
       [0 := blank_entry\<lparr>VPN2 := 1, ASID := 1, PFN0 := 5, D0 := 1, V0 := 1\<rparr>]\<rparr>"

lemma one_page_table_used: "used one_page_table = [blank_entry\<lparr>VPN2 := 1, ASID := 1, PFN0 := 5, D0 := 1, V0 := 1\<rparr>]"
  by (simp add: used_def one_page_table_def empty_table_def PAGETABLE_ENTRIES_def numeral_eq_Suc)

lemma one_page_table_inv: "pt_inv one_page_table"
proof -
  have "pt_ASID one_page_table = 1" "length (entries one_page_table) = PAGETABLE_ENTRIES"
    "valid_count one_page_table = 1"
    by (simp_all add: one_page_table_def empty_table_def)
  then show ?thesis by (simp add: pt_inv_def one_page_table_used PAGETABLE_ENTRIES_def)
qed

lemma one_page_table_lookup: "pt_lookup one_page_table 0x2000 = Some (5, True)"
proof -
  have "vpn2_of 0x2000 = 1" by (simp add: vpn2_of_def drop_bit_eq_div)
  moreover have "\<not> bit (0x2000 :: u32) 12" by code_simp
  ultimately show ?thesis by (simp add: pt_lookup_def one_page_table_used entry_lookup_def)
qed

theorem vm_set_dirty_refines_witness:
  "\<exists>pt'. vm_set_dirty one_page_table 0x2000 0 = Inr pt' \<and> pt_lookup pt' 0x2000 = Some (5, False)"
  using vm_set_dirty_refines [of one_page_table 0 "0x2000"]
  by (auto simp: one_page_table_inv one_page_table_lookup same_page_def)

theorem vm_map_all_witness:
  "\<exists>pt'. map_all vm_map (empty_table 1) [(0x5000, 0x1000, 1), (0x6000, 0x2000, 0)] = Inr pt'
     \<and> pt_lookup pt' 0x1000 = Some (pfn_of 0x5000, True) \<and> pt_lookup pt' 0x2000 = Some (pfn_of 0x6000, False)"
proof -
  have "pt.mappable (empty_table 1) [(0x5000, 0x1000, 1), (0x6000, 0x2000, 0)]"
    by (simp add: pt.mappable_def empty_table_inv pt_room_def PAGETABLE_ENTRIES_def drop_bit_eq_div)
  from vm_map_all [OF empty_table_inv(1) this] show ?thesis by auto
qed

section \<open>TLB misses\<close>

text \<open>
  C12. On a TLB miss at an address that the page table maps, the handler loads an entry that
  carries the address space of the table and translates the address as the table does. If the
  address is not mapped but the other page of its pair is, the process is ended (in user mode);
  if neither is mapped, the kernel panics.
\<close>

theorem tlb_miss_correct:
  assumes inv: "pt_inv pt"
  shows "case pt_lookup pt va of
      Some fw \<Rightarrow> \<exists>e. tlb_access_exception (Some pt) (vpn2_of va) va user = Inr (Tlb_write_random e)
        \<and> VPN2 e = vpn2_of va \<and> ASID e = ucast (pt_ASID pt) \<and> entry_lookup e (bit va 12) = Some fw
    | None \<Rightarrow> tlb_access_exception (Some pt) (vpn2_of va) va user =
        (if pt_has_pair pt va then tlb_error user else Inl Kernel_panic)"
proof (cases "pt_has_pair pt va")
  case True
  define i where "i = first_index (\<lambda>e. VPN2 e = vpn2_of va) (used pt)"
  obtain i: "i < length (entries pt)" "VPN2 (entries pt ! i) = vpn2_of va"
    "ASID (entries pt ! i) = ucast (pt_ASID pt)"
    "pt_lookup pt va = entry_lookup (entries pt ! i) (bit va 12)"
    using pair_entry [OF inv True] i_def by metis
  have "tlb_entry_is_valid (entries pt ! i) va \<longleftrightarrow> pt_lookup pt va \<noteq> None"
    using bit1_cases [of "V0 (entries pt ! i)"] bit1_cases [of "V1 (entries pt ! i)"]
    by (auto simp: i(4) tlb_entry_is_valid_def odd_page entry_lookup_def)
  with True i show ?thesis
    by (auto simp: tlb_access_exception_def scan_used [OF inv] i_def [symmetric] split: option.split)
next
  case False
  then have "pt_lookup pt va = None" using lookup_has_pair by blast
  with False show ?thesis by (simp add: tlb_access_exception_def scan_used [OF inv])
qed

theorem tlb_miss_correct_witness:
  "\<exists>e. tlb_access_exception (Some one_page_table) (vpn2_of 0x2000) 0x2000 True = Inr (Tlb_write_random e)
     \<and> entry_lookup e (bit (0x2000 :: u32) 12) = Some (5, True)"
  using tlb_miss_correct [OF one_page_table_inv, of "0x2000" True] by (auto simp: one_page_table_lookup)

text \<open>
  A user program that touches an address of an unmapped pair of pages brings the kernel down,
  although the handlers take care to end only the process for other faults.
\<close>

theorem tlb_unmapped_panics:
  "tlb_load_exception (Some (empty_table 1)) (vpn2_of 0) 0 True = Inl Kernel_panic"
  by (simp add: tlb_load_exception_def tlb_access_exception_def scan_used empty_table_inv)

section \<open>Creating and destroying tables\<close>

text \<open>
  With a free page in the first 2 GB, \<^verbatim>\<open>vm_create_pagetable\<close> returns a page table
  that maps nothing, in a page that was free and now is not, and destroying the table makes the
  same set of pages free again.
\<close>

theorem vm_create_destroy:
  assumes inv: "pp_inv pp" and free: "pp_free pp \<noteq> {}" and low: "pp_pages pp \<le> 2 ^ 19"
    and layout: "\<And>a. length (entries (mem a)) = PAGETABLE_ENTRIES"
  shows "\<exists>table pp' mem' p. vm_create_pagetable pp mem asid = Inr (table, pp', mem') \<and> table \<noteq> 0
    \<and> p \<in> pp_free pp \<and> pp_free pp' = pp_free pp - {p} \<and> pp_inv pp'
    \<and> pt_inv (mem' table) \<and> pt_ASID (mem' table) = asid \<and> pt_lookup (mem' table) = (\<lambda>_. None)
    \<and> (\<exists>pp''. vm_destroy_pagetable pp' table = Inr pp'' \<and> pp_inv pp'' \<and> pp_free pp'' = pp_free pp)"
proof -
  obtain p pp' where get: "pagepool_get_phys_page pp = Inr (page_addr p, pp')" "p \<in> pp_free pp"
    "pp_inv pp'" "pp_free pp' = pp_free pp - {p}"
    using get_phys_page_some [OF inv free] by blast
  have p: "1 \<le> p" "p < 2 ^ 20" "p < pp_pages pp"
    using pp_free_bounds [OF inv get(2)] get(2) by (auto simp: pp_free_iff)
  have "unat (page_addr p) = p * 4096" by (rule page_unat [OF p(2)])
  then have a: "page_addr p < 0x80000000" using p(3) low by (simp add: word_less_nat_alt)
  let ?t = "ADDR_PHYS_TO_KERNEL (page_addr p)"
  let ?mem' = "mem(?t := (mem ?t)\<lparr>pt_ASID := asid, valid_count := 0\<rparr>)"
  have created: "vm_create_pagetable pp mem asid = Inr (?t, pp', ?mem')"
    using get(1) page_addr_nonzero [OF p(1,2)] by (simp add: vm_create_pagetable_def Let_def)
  have t0: "?t \<noteq> 0"
    using kernel_phys_inverse [OF a] page_addr_nonzero [OF p(1,2)] by (auto simp: ADDR_KERNEL_TO_PHYS_def)
  have same: "pp_pages pp' = pp_pages pp" "pagepool_static_end pp' = pagepool_static_end pp"
    using get(1) by (auto simp: pagepool_get_phys_page_def rbind_Inr_iff  Let_def split: if_splits)
  have "nat (pagepool_static_end pp) \<le> p"
    using inv get(2) by (meson pp_inv_def pp_free_iff not_le)
  then obtain pp'' where "vm_destroy_pagetable pp' ?t = Inr pp''" "pp_inv pp''"
    "pp_free pp'' = insert p (pp_free pp')"
    using free_phys_page_ok [OF get(3), of p] p(3) same get(4)
    by (auto simp: vm_destroy_pagetable_def kernel_phys_inverse [OF a])
  moreover have "insert p (pp_free pp') = pp_free pp" using get(2,4) by auto
  moreover have "pt_inv (?mem' ?t) \<and> pt_lookup (?mem' ?t) = (\<lambda>_. None)"
    by (rule fresh_table) (simp_all add: layout)
  ultimately show ?thesis using created t0 get by fastforce
qed

theorem vm_create_destroy_witness:
  "\<exists>table pp' mem' p. vm_create_pagetable small_pool (\<lambda>_. empty_table 0) 7 = Inr (table, pp', mem')
    \<and> p \<in> pp_free small_pool \<and> pt_ASID (mem' table) = 7"
proof -
  have "pp_free small_pool \<noteq> {}" "pp_pages small_pool \<le> 2 ^ 19"
    by (simp add: small_pool_free, simp add: small_pool_def)
  from vm_create_destroy [OF small_pool_inv this, of "\<lambda>_. empty_table 0" 7] show ?thesis
    by (simp add: empty_table_def) blast
qed

end
