(* ===== verification/Process.thy ===== *)
theory Process
  imports Semaphore Vm Libc
begin

text \<open>
  \<^verbatim>\<open>proc/process.c\<close>: the process table and the operations on processes.

  The state has the threads and semaphores of the kernel, the process table, the page pool, the
  page tables (by kernel address) and the memory. The processor that runs the code is an argument:
  it determines the current thread and with it the current process. Code under the spinlock of
  the process table is one step. \<open>process_join\<close> gives up the processor inside its loop, so one
  iteration of it under the lock is a step of its own, \<open>join_locked\<close>; \<open>process_fork\<close> ends
  with the call of P. The parts of \<^verbatim>\<open>process_spawn\<close> and \<^verbatim>\<open>process_fork\<close> outside the lock
  touch only the slot that has just been taken, so they are one step too.
\<close>

section \<open>The code\<close>

datatype process_state_t = PROCESS_FREE | PROCESS_RUNNING | PROCESS_ZOMBIE

record process_control_block_t =
  executable :: "u8 list"
  p_state :: process_state_t
  retval :: int
  parent :: int
  heap_end :: u32
  p_files :: "int list"

record proc_t =
  ksm :: semstate
  process_table :: "process_control_block_t list"
  p_pool :: pagepool
  p_tables :: tables
  p_mem :: mem

abbreviation (input) PROCESS_MAX_PROCESSES :: nat where "PROCESS_MAX_PROCESSES \<equiv> 32"
abbreviation (input) PROCESS_MAX_FILELENGTH :: int where "PROCESS_MAX_FILELENGTH \<equiv> 64"
abbreviation (input) PROCESS_PTABLE_FULL :: int where "PROCESS_PTABLE_FULL \<equiv> -1"
abbreviation (input) PROCESS_ILLEGAL_JOIN :: int where "PROCESS_ILLEGAL_JOIN \<equiv> -2"
abbreviation (input) PROCESS_TTABLE_FULL :: int where "PROCESS_TTABLE_FULL \<equiv> -3"
abbreviation (input) MIPS_REGISTER_V0 :: nat where "MIPS_REGISTER_V0 \<equiv> 1"

text \<open>The address of an entry of the process table, which waiters sleep on.\<close>

definition pcb_addr :: "u32 \<Rightarrow> int \<Rightarrow> u32" where
  "pcb_addr base pid = base + 2128 * of_int pid"

abbreviation kst :: "proc_t \<Rightarrow> kstate" where
  "kst s \<equiv> kern (ksm s)"

definition set_kst :: "proc_t \<Rightarrow> kstate \<Rightarrow> proc_t" where
  "set_kst s k = s\<lparr>ksm := (ksm s)\<lparr>kern := k\<rparr>\<rparr>"

definition process_get_current_process :: "kstate \<Rightarrow> nat \<Rightarrow> int res" where
  "process_get_current_process k cpu =
     rbind (thread_get_current_thread_entry k cpu) (\<lambda>th. Inr (process_id th))"

definition process_get_current_process_entry :: "proc_t \<Rightarrow> nat \<Rightarrow> process_control_block_t res" where
  "process_get_current_process_entry s cpu =
     rbind (process_get_current_process (kst s) cpu) (\<lambda>pid. aget (process_table s) pid)"

definition process_reset :: "process_control_block_t list \<Rightarrow> int \<Rightarrow> process_control_block_t list res" where
  "process_reset pt pid =
     rbind (aget pt pid) (\<lambda>p.
       aset pt pid (p\<lparr>p_state := PROCESS_FREE, executable := (executable p)[0 := 0], retval := 0, parent := -1,
                      p_files := replicate 512 (-1)\<rparr>))"

fun reset_loop :: "process_control_block_t list \<Rightarrow> nat \<Rightarrow> nat \<Rightarrow> process_control_block_t list res" where
  "reset_loop pt i 0 = Inr pt"
| "reset_loop pt i (Suc n) = rbind (process_reset pt (int i)) (\<lambda>pt. reset_loop pt (Suc i) n)"

definition process_init :: "proc_t \<Rightarrow> proc_t res" where
  "process_init s = rbind (reset_loop (process_table s) 0 PROCESS_MAX_PROCESSES) (\<lambda>pt. Inr (s\<lparr>process_table := pt\<rparr>))"

definition alloc_process_id :: "process_control_block_t list \<Rightarrow> nat \<times> process_control_block_t list" where
  "alloc_process_id pt =
     (let i = first_index (\<lambda>p. p_state p = PROCESS_FREE) pt in
      (i, if i < length pt then pt[i := (pt ! i)\<lparr>p_state := PROCESS_RUNNING\<rparr>] else pt))"

text \<open>
  The addresses of the stacks, of \<^verbatim>\<open>thread_finish\<close> and of the functions that the new
  threads run are arguments.
\<close>

definition process_spawn :: "u32 \<Rightarrow> u32 \<Rightarrow> u32 \<Rightarrow> proc_t \<Rightarrow> nat \<Rightarrow> u8 list \<Rightarrow> (int \<times> proc_t) res" where
  "process_spawn stacks fin process_start s cpu exe =
     (let (pid, pt) = alloc_process_id (process_table s) in
      if pid = PROCESS_MAX_PROCESSES then Inr (PROCESS_PTABLE_FULL, s\<lparr>process_table := pt\<rparr>)
      else
        rbind (stringcopy (executable (pt ! pid)) exe PROCESS_MAX_FILELENGTH) (\<lambda>x.
        rbind (process_get_current_process (kst s) cpu) (\<lambda>cur.
        let s = s\<lparr>process_table := pt[pid := (pt ! pid)\<lparr>executable := x, parent := cur\<rparr>]\<rparr> in
        rbind (thread_create stacks fin (kst s) process_start (of_nat pid)) (\<lambda>(t, k).
        if t < 0 then Inr (PROCESS_TTABLE_FULL, set_kst s k)
        else rbind (thread_run k t) (\<lambda>k. Inr (int pid, set_kst s k))))))"

text \<open>
  \<open>fork_begin\<close> is \<^verbatim>\<open>process_fork\<close> up to the call of P: the error, or the child and the
  semaphore to wait on. \<open>arg\<close> is the address of \<^verbatim>\<open>fork_arg\<close>.
\<close>

definition fork_begin :: "u32 \<Rightarrow> u32 \<Rightarrow> u32 \<Rightarrow> u32 \<Rightarrow> proc_t \<Rightarrow> nat \<Rightarrow> ((int + nat \<times> nat option) \<times> proc_t) res" where
  "fork_begin stacks fin setup arg s cpu =
     (let (child, pt) = alloc_process_id (process_table s) in
      if child = PROCESS_MAX_PROCESSES then Inr (Inl PROCESS_PTABLE_FULL, s\<lparr>process_table := pt\<rparr>)
      else
        rbind (process_get_current_process (kst s) cpu) (\<lambda>par.
        rbind (aget pt par) (\<lambda>pp.
        rbind (stringcopy (executable (pt ! child)) (executable pp) PROCESS_MAX_FILELENGTH) (\<lambda>x.
        let s = s\<lparr>process_table := pt[child := (pt ! child)\<lparr>executable := x, parent := par, heap_end := heap_end pp, p_files := p_files pp\<rparr>]\<rparr> in
        rbind (semaphore_create (ksm s) cpu 0) (\<lambda>(sem_wait, sm).
        let s = s\<lparr>ksm := sm\<rparr> in
        rbind (thread_create stacks fin (kst s) setup arg) (\<lambda>(t, k).
        if t < 0 then Inr (Inl PROCESS_TTABLE_FULL, set_kst s k)
        else rbind (thread_run k t) (\<lambda>k. Inr (Inr (child, sem_wait), set_kst s k))))))))"

definition process_fork :: "u32 \<Rightarrow> u32 \<Rightarrow> u32 \<Rightarrow> u32 \<Rightarrow> u32 \<Rightarrow> u32 \<Rightarrow> proc_t \<Rightarrow> nat \<Rightarrow> (int \<times> proc_t) ores" where
  "process_fork sems stacks fin setup arg rnd s cpu =
     obind (Some (fork_begin stacks fin setup arg s cpu)) (\<lambda>(r, s).
       case r of
         Inl e \<Rightarrow> Some (Inr (e, s))
       | Inr (child, None) \<Rightarrow> Some (Inl Bad_access)
       | Inr (child, Some i) \<Rightarrow> obind (semaphore_P sems (ksm s) cpu i rnd) (\<lambda>sm. Some (Inr (int child, s\<lparr>ksm := sm\<rparr>))))"

text \<open>
  The child of a fork. A new page for each valid page of the parent, with the same contents.
\<close>

definition copy_page :: "u32 \<Rightarrow> u32 \<Rightarrow> 20 word \<Rightarrow> 1 word \<Rightarrow> proc_t \<Rightarrow> proc_t res" where
  "copy_page table vaddr pfn dirty s =
     rbind (pagepool_get_phys_page (p_pool s)) (\<lambda>(phys_page, pp).
     if phys_page = 0 then Inl Kernel_assert
     else
       rbind (vm_map (p_tables s table) phys_page vaddr (uint dirty)) (\<lambda>tab.
       Inr (s\<lparr>p_pool := pp, p_tables := (p_tables s)(table := tab),
              p_mem := memcopy 4096 (p_mem s) (ADDR_PHYS_TO_KERNEL phys_page) (ADDR_PHYS_TO_KERNEL (push_bit 12 (ucast pfn)))\<rparr>)))"

definition copy_entry :: "u32 \<Rightarrow> tlb_entry_t \<Rightarrow> proc_t \<Rightarrow> proc_t res" where
  "copy_entry table e s =
     rbind (if V0 e \<noteq> 0 then copy_page table (push_bit 13 (ucast (VPN2 e))) (PFN0 e) (D0 e) s else Inr s) (\<lambda>s.
       if V1 e \<noteq> 0 then copy_page table (push_bit 13 (ucast (VPN2 e)) OR 4096) (PFN1 e) (D1 e) s else Inr s)"

fun copy_loop :: "u32 \<Rightarrow> u32 \<Rightarrow> nat \<Rightarrow> nat \<Rightarrow> proc_t \<Rightarrow> proc_t res" where
  "copy_loop table par i 0 s = Inr s"
| "copy_loop table par i (Suc n) s =
     rbind (aget (entries (p_tables s par)) (int i)) (\<lambda>e.
     rbind (copy_entry table e s) (copy_loop table par (Suc i) n))"

text \<open>
  \<open>fork_prepare\<close> is \<^verbatim>\<open>process_fork_setup\<close> up to the call of V: its result is the context
  with which the child enters user mode. The page table of the parent is read through a pointer,
  which is an error when it is NULL.
\<close>

definition fork_copy :: "u32 \<Rightarrow> proc_t \<Rightarrow> nat \<Rightarrow> (context_t \<times> proc_t) res" where
  "fork_copy table s cpu =
     rbind (process_get_current_process_entry s cpu) (\<lambda>me.
     case thread_get_thread_entry_by_pid (kst s) (parent me) of
       None \<Rightarrow> Inl Bad_access
     | Some i \<Rightarrow>
         let par = thread_table (kst s) ! i in
         if pagetable par = 0 then Inl Bad_access
         else rbind (copy_loop table (pagetable par) 0 (unat (valid_count (p_tables s (pagetable par)))) s) (\<lambda>s.
         let ctx = contexts (kst s) (user_context par) in
         Inr (ctx\<lparr>cpu_regs := (cpu_regs ctx)[MIPS_REGISTER_V0 := 0], pc := pc ctx + 4\<rparr>, s)))"

definition fork_prepare :: "int \<Rightarrow> proc_t \<Rightarrow> nat \<Rightarrow> (context_t \<times> proc_t) res" where
  "fork_prepare pid s cpu =
     rbind (thread_get_current_thread (kst s) cpu) (\<lambda>t.
     rbind (upd_thread (kst s) t (\<lambda>th. th\<lparr>process_id := pid\<rparr>)) (\<lambda>k.
     rbind (get_thread k t) (\<lambda>th.
     if pagetable th \<noteq> 0 then Inl Kernel_assert
     else
       rbind (vm_create_pagetable (p_pool s) (p_tables s) (of_int t)) (\<lambda>(table, pp, tabs).
       if table = 0 then Inl Kernel_assert
       else
         rbind (upd_thread k t (\<lambda>th. th\<lparr>pagetable := table\<rparr>)) (\<lambda>k.
           fork_copy table ((set_kst s k)\<lparr>p_pool := pp, p_tables := tabs\<rparr>) cpu)))))"

definition process_fork_setup :: "u32 \<Rightarrow> int \<Rightarrow> nat \<Rightarrow> proc_t \<Rightarrow> nat \<Rightarrow> (context_t \<times> proc_t) ores" where
  "process_fork_setup sems pid sem_wait s cpu =
     obind (Some (fork_prepare pid s cpu)) (\<lambda>(ctx, s).
     obind (semaphore_V sems (ksm s) sem_wait) (\<lambda>sm.
       Some (Inr (thread_goto_userland ctx, s\<lparr>ksm := sm\<rparr>))))"

text \<open>\<open>finish_zombie\<close> is \<^verbatim>\<open>process_finish\<close> up to the wake-up of the joining process.\<close>

definition finish_zombie :: "proc_t \<Rightarrow> nat \<Rightarrow> int \<Rightarrow> (int \<times> proc_t) res" where
  "finish_zombie s cpu ret =
     rbind (process_get_current_process (kst s) cpu) (\<lambda>pid.
     rbind (thread_get_current_thread (kst s) cpu) (\<lambda>t.
     rbind (get_thread (kst s) t) (\<lambda>th.
     rbind (aget (process_table s) pid) (\<lambda>p.
     rbind (aset (process_table s) pid (p\<lparr>retval := ret, p_state := PROCESS_ZOMBIE\<rparr>)) (\<lambda>pt.
     rbind (vm_destroy_pagetable (p_pool s) (pagetable th)) (\<lambda>pp.
     rbind (upd_thread (kst s) t (\<lambda>th. th\<lparr>pagetable := 0\<rparr>)) (\<lambda>k.
       Inr (pid, (set_kst s k)\<lparr>process_table := pt, p_pool := pp\<rparr>))))))))"

definition process_finish :: "u32 \<Rightarrow> u32 \<Rightarrow> proc_t \<Rightarrow> nat \<Rightarrow> int \<Rightarrow> proc_t ores" where
  "process_finish base rnd s cpu ret =
     obind (Some (finish_zombie s cpu ret)) (\<lambda>(pid, s).
     obind (sleepq_wake_all (kst s) (pcb_addr base pid)) (\<lambda>k.
       let pt = map (\<lambda>p. if parent p = pid then p\<lparr>parent := -1\<rparr> else p) (process_table s) in
       Some (rbind (thread_finish k cpu False rnd) (\<lambda>k. Inr ((set_kst s k)\<lparr>process_table := pt\<rparr>)))))"

text \<open>
  \<open>process_join\<close>: the test at its start, and one iteration of its loop: the return value of the
  child, or the caller has been put to sleep and goes on with \<^verbatim>\<open>thread_switch\<close>.
\<close>

definition join_legal :: "proc_t \<Rightarrow> nat \<Rightarrow> int \<Rightarrow> bool res" where
  "join_legal s cpu pid =
     (if pid < 0 \<or> pid \<ge> int PROCESS_MAX_PROCESSES then Inr False
      else
        rbind (aget (process_table s) pid) (\<lambda>p.
        rbind (process_get_current_process (kst s) cpu) (\<lambda>cur. Inr (parent p = cur))))"

definition join_locked :: "u32 \<Rightarrow> proc_t \<Rightarrow> nat \<Rightarrow> int \<Rightarrow> (int option \<times> proc_t) ores" where
  "join_locked base s cpu pid =
     obind (Some (aget (process_table s) pid)) (\<lambda>p.
       if p_state p \<noteq> PROCESS_ZOMBIE
       then obind (sleepq_add (kst s) cpu 0 (pcb_addr base pid)) (\<lambda>k. Some (Inr (None, set_kst s k)))
       else Some (rbind (process_reset (process_table s) pid) (\<lambda>pt. Inr (Some (retval p), s\<lparr>process_table := pt\<rparr>))))"

definition process_join :: "u32 \<Rightarrow> proc_t \<Rightarrow> nat \<Rightarrow> int \<Rightarrow> u32 \<Rightarrow> (int option \<times> proc_t) ores" where
  "process_join base s cpu pid rnd =
     obind (Some (join_legal s cpu pid)) (\<lambda>legal.
       if \<not> legal then Some (Inr (Some PROCESS_ILLEGAL_JOIN, s))
       else obind (join_locked base s cpu pid) (\<lambda>(r, s).
         case r of Some v \<Rightarrow> Some (Inr (Some v, s))
         | None \<Rightarrow> Some (rbind (thread_switch (kst s) cpu rnd) (\<lambda>k. Inr (None, set_kst s k)))))"

fun memlimit_loop :: "u32 \<Rightarrow> nat \<Rightarrow> nat \<Rightarrow> proc_t \<Rightarrow> (bool \<times> proc_t) res" where
  "memlimit_loop table i 0 s = Inr (True, s)"
| "memlimit_loop table i (Suc n) s =
     rbind (pagepool_get_phys_page (p_pool s)) (\<lambda>(phys_page, pp).
     if phys_page = 0 then Inr (False, s\<lparr>p_pool := pp\<rparr>)
     else
       rbind (vm_map (p_tables s table) phys_page (of_nat i * 4096) 1) (\<lambda>tab.
         memlimit_loop table (Suc i) n (s\<lparr>p_pool := pp, p_tables := (p_tables s)(table := tab)\<rparr>)))"

definition process_memlimit :: "proc_t \<Rightarrow> nat \<Rightarrow> u32 \<Rightarrow> (u32 \<times> proc_t) res" where
  "process_memlimit s cpu new_end =
     rbind (process_get_current_process (kst s) cpu) (\<lambda>pid.
     rbind (aget (process_table s) pid) (\<lambda>p.
     if new_end = 0 then Inr (heap_end p, s)
     else if new_end < heap_end p then Inr (0, s)
     else
       rbind (thread_get_current_thread_entry (kst s) cpu) (\<lambda>th.
       let first = unat (heap_end p) div 4096 + 1 in
       rbind (memlimit_loop (pagetable th) first (unat new_end div 4096 + 1 - first) s) (\<lambda>(ok, s).
       if \<not> ok then Inr (0, s)
       else rbind (aset (process_table s) pid (p\<lparr>heap_end := new_end\<rparr>)) (\<lambda>pt. Inr (new_end, s\<lparr>process_table := pt\<rparr>))))))"

text \<open>The files of a process; the three operations work on the entry of the current process.\<close>

definition process_add_file :: "process_control_block_t \<Rightarrow> int \<Rightarrow> bool \<times> process_control_block_t" where
  "process_add_file p file =
     (let i = first_index (\<lambda>f. f = -1) (p_files p) in
      if i < length (p_files p) then (True, p\<lparr>p_files := (p_files p)[i := file]\<rparr>) else (False, p))"

definition process_remove_file :: "process_control_block_t \<Rightarrow> int \<Rightarrow> bool \<times> process_control_block_t" where
  "process_remove_file p file =
     (let i = first_index (\<lambda>f. f = file) (p_files p) in
      if i < length (p_files p) then (True, p\<lparr>p_files := (p_files p)[i := -1]\<rparr>) else (False, p))"

definition process_has_open_file :: "process_control_block_t \<Rightarrow> int \<Rightarrow> bool" where
  "process_has_open_file p file = (first_index (\<lambda>f. f = file) (p_files p) < length (p_files p))"

end
