(* ===== verification/Process_Correct.thy ===== *)
theory Process_Correct
  imports Process
begin

text \<open>
  Properties of the process table: joining and finishing under every interleaving, and the
  memory of a process.
\<close>

section \<open>What the kernel keeps of a thread\<close>

text \<open>
  \<open>kframe s s'\<close>: the threads on the processors are the same, and each thread keeps its process
  and page table, and its state unless it was asleep.
\<close>

definition kframe :: "kstate \<Rightarrow> kstate \<Rightarrow> bool" where
  "kframe s s' \<longleftrightarrow> scheduler_current_thread s' = scheduler_current_thread s \<and> length (thread_table s') = length (thread_table s)
     \<and> (\<forall>i < length (thread_table s). pagetable (thread_table s' ! i) = pagetable (thread_table s ! i)
          \<and> process_id (thread_table s' ! i) = process_id (thread_table s ! i)
          \<and> (state (thread_table s' ! i) = state (thread_table s ! i) \<or> state (thread_table s ! i) = THREAD_SLEEPING))"

lemma kframe_refl [simp]: "kframe s s"
  by (simp add: kframe_def)

lemma kframe_trans: "kframe s s' \<Longrightarrow> kframe s' s'' \<Longrightarrow> kframe s s''"
  unfolding kframe_def by metis

lemma kframe_lists [simp]:
  "kframe s (s'\<lparr>sleepq_hashtable := ht\<rparr>) = kframe s s'" "kframe s (s'\<lparr>ready_head := h\<rparr>) = kframe s s'" "kframe s (s'\<lparr>ready_tail := h\<rparr>) = kframe s s'"
  "kframe (s\<lparr>sleepq_hashtable := ht\<rparr>) s' = kframe s s'" "kframe (s\<lparr>ready_head := h\<rparr>) s' = kframe s s'" "kframe (s\<lparr>ready_tail := h\<rparr>) s' = kframe s s'"
  by (simp_all add: kframe_def)

lemma kframe_upd:
  assumes "upd_thread s t f = Inr s'" "\<And>x. pagetable (f x) = pagetable x \<and> process_id (f x) = process_id x"
    and "\<And>x. get_thread s t = Inr x \<Longrightarrow> state (f x) = state x \<or> state x = THREAD_SLEEPING"
  shows "kframe s s'"
proof -
  obtain i where i: "0 \<le> t" "nat t < length (thread_table s)" "s' = s\<lparr>thread_table := (thread_table s)[nat t := f (th s t)]\<rparr>"
    using assms(1) by (auto simp: upd_thread_def aget_def aset_def split: if_splits)
  then show ?thesis using assms(2) assms(3) [OF get_thread_eq] by (auto simp: kframe_def nth_list_update)
qed

lemma kframe_ready: "scheduler_add_to_ready_list s t = Inr s' \<Longrightarrow> kframe s s'"
  unfolding scheduler_add_to_ready_list_def
  by (auto split: if_splits simp: rbind_Inr_iff dest!: kframe_upd intro: kframe_trans)

lemma kframe_unlink:
  assumes "unlink_wake s h prev w = Inr (r, s')"
  shows "kframe s s'"
proof -
  obtain e s1 s2 e2 where st: "get_thread s w = Inr e"
    "(if prev \<le> 0 then rbind (aset (sleepq_hashtable s) (int h) (next_t e)) (\<lambda>ht. Inr (s\<lparr>sleepq_hashtable := ht\<rparr>))
      else upd_thread s prev (\<lambda>th. th\<lparr>next_t := next_t e\<rparr>)) = Inr s1"
    "upd_thread s1 w (\<lambda>th. th\<lparr>sleeps_on := 0, next_t := -1\<rparr>) = Inr s2" "get_thread s2 w = Inr e2"
    "if state e2 = THREAD_SLEEPING then rbind (upd_thread s2 w (\<lambda>th. th\<lparr>state := THREAD_READY\<rparr>)) (\<lambda>s3. scheduler_add_to_ready_list s3 w) = Inr s'
     else s2 = s'"
    using assms unfolding unlink_wake_def rbind_Inr_iff
    by (elim exE conjE) (rule that; (assumption | auto simp: rbind_Inr_iff split: if_splits))
  have "kframe s s1" using st(2) by (auto split: if_splits simp: rbind_Inr_iff dest: kframe_upd)
  moreover have "kframe s1 s2" using st(3) by (rule kframe_upd) simp_all
  moreover have "kframe s2 s'"
  proof (cases "state e2 = THREAD_SLEEPING")
    case True
    then obtain s3 where s3: "upd_thread s2 w (\<lambda>th. th\<lparr>state := THREAD_READY\<rparr>) = Inr s3" "scheduler_add_to_ready_list s3 w = Inr s'" using st(5) by (auto simp: rbind_Inr_iff)
    have "kframe s2 s3" using s3(1) by (rule kframe_upd) (use st(4) True in auto)
    then show ?thesis using kframe_ready [OF s3(2)] kframe_trans by blast
  qed (use st(5) in simp)
  ultimately show ?thesis using kframe_trans by blast
qed

lemma obind_Inr_iff: "obind m f = Some (Inr y) \<longleftrightarrow> (\<exists>x. m = Some (Inr x) \<and> f x = Some (Inr y))"
  by (cases m) (auto simp: obind_def split: sum.splits)

lemma kframe_wake_all_loop:
  assumes "wake_all_loop s r p f = Some y"
  shows "\<forall>s'. y = Inr s' \<longrightarrow> kframe s s'"
proof (rule wake_all_loop.raw_induct [OF _ assms])
  fix loop s r p f y
  assume ih: "\<And>s r p f y. loop s r p f = Some y \<Longrightarrow> \<forall>s'. y = Inr s' \<longrightarrow> kframe s s'"
    and eq: "(if 0 < f then obind (find_waiter (thread_table s) r p f) (\<lambda>(p', f').
          if 0 < f' then obind (Some (unlink_wake s (SLEEPQ_HASH r) p' f')) (\<lambda>(f'', s'). loop s' r p' f'') else loop s r p' f')
        else Some (Inr s)) = Some y"
  show "\<forall>s'. y = Inr s' \<longrightarrow> kframe s s'"
  proof (intro allI impI)
    fix s' assume "y = Inr s'"
    then show "kframe s s'"
      using eq ih by (fastforce simp: obind_Inr_iff split: if_splits dest: kframe_unlink intro: kframe_trans)
  qed
qed

lemma kframe_wake_all: "sleepq_wake_all s r = Some (Inr s') \<Longrightarrow> kframe s s'"
  using kframe_wake_all_loop by (auto simp: sleepq_wake_all_def obind_Inr_iff)

section \<open>The current thread\<close>

lemma running_tid:
  assumes "kinv k rs qs" "running k c"
  shows "c < 4" "tid_ok (scheduler_current_thread k ! c)" "scheduler_current_thread k ! c \<noteq> 0" "length (thread_table k) = 32"
    "state (th k (scheduler_current_thread k ! c)) = THREAD_RUNNING" "sleeps_on (th k (scheduler_current_thread k ! c)) = 0"
proof -
  have inv: "kinv_on k (scheduler_current_thread k) rs qs" using assms(1) by (simp add: kinv_def)
  show "c < 4" "scheduler_current_thread k ! c \<noteq> 0" "state (th k (scheduler_current_thread k ! c)) = THREAD_RUNNING"
    "sleeps_on (th k (scheduler_current_thread k ! c)) = 0" using assms(2) by (auto simp: running_def)
  then show "tid_ok (scheduler_current_thread k ! c)" "length (thread_table k) = 32"
    using inv nth_mem [of c "scheduler_current_thread k"] kinv_table_length [OF inv] by (auto simp: kinv_on_def kshape_def)
qed

lemma current_process_eq:
  assumes "kinv k rs qs" "c < 4"
  shows "process_get_current_process k c = Inr (process_id (th k (scheduler_current_thread k ! c)))"
    "thread_get_current_thread k c = Inr (scheduler_current_thread k ! c)"
    "thread_get_current_thread_entry k c = Inr (th k (scheduler_current_thread k ! c))"
proof -
  have inv: "kinv_on k (scheduler_current_thread k) rs qs" using assms(1) by (simp add: kinv_def)
  have l: "length (scheduler_current_thread k) = 4" "length (thread_table k) = 32"
    using inv kinv_table_length [OF inv] by (auto simp: kinv_on_def kshape_def)
  have "scheduler_current_thread k ! c = 0 \<or> tid_ok (scheduler_current_thread k ! c)"
    using inv nth_mem [of c "scheduler_current_thread k"] l assms(2) by (auto simp: kinv_on_def kshape_def)
  then have t: "0 \<le> scheduler_current_thread k ! c" "nat (scheduler_current_thread k ! c) < 32" by (auto simp: tid_ok_def)
  show "thread_get_current_thread k c = Inr (scheduler_current_thread k ! c)"
    using assms(2) l by (simp add: thread_get_current_thread_def)
  show e: "thread_get_current_thread_entry k c = Inr (th k (scheduler_current_thread k ! c))"
    using assms(2) l t by (simp add: thread_get_current_thread_entry_def get_thread_eq)
  show "process_get_current_process k c = Inr (process_id (th k (scheduler_current_thread k ! c)))"
    using e by (simp add: process_get_current_process_def)
qed

lemma kinv_fields:
  assumes inv: "kinv k rs qs" and t: "tid_ok t"
    and f: "state (f (th k t)) = state (th k t)" "sleeps_on (f (th k t)) = sleeps_on (th k t)" "next_t (f (th k t)) = next_t (th k t)"
  shows "\<exists>k'. upd_thread k t f = Inr k' \<and> kinv k' rs qs \<and> k' = k\<lparr>thread_table := (thread_table k)[nat t := f (th k t)]\<rparr>"
proof -
  have inv': "kinv_on k (scheduler_current_thread k) rs qs" using inv by (simp add: kinv_def)
  have u: "upd_thread k t f = Inr (k\<lparr>thread_table := (thread_table k)[nat t := f (th k t)]\<rparr>)"
    using upd_thread_eq [of t k f] tid_okD [OF t] kinv_table_length [OF inv'] by simp
  have "kthread (f (th k t)) (scheduler_current_thread k) rs qs t" using kthread_cong [OF kinv_thread [OF inv' t]] f(1,2) by simp
  then show ?thesis using kinv_set [OF kinv_but_on [OF inv' t], of "f (th k t)"] f(3) u by (simp add: kinv_def)
qed

section \<open>Joining and finishing\<close>

definition pcb_base_ok :: "u32 \<Rightarrow> bool" where
  "pcb_base_ok base \<longleftrightarrow> 0 < unat base \<and> unat base + 2128 * PROCESS_MAX_PROCESSES \<le> 2 ^ 32"

lemma pcb_addr_unat: "pcb_base_ok base \<Longrightarrow> 0 \<le> pid \<Longrightarrow> pid < 32 \<Longrightarrow> unat (pcb_addr base pid) = unat base + 2128 * nat pid"
proof -
  assume a: "pcb_base_ok base" "0 \<le> pid" "pid < 32"
  then obtain n where n: "pid = int n" "n < 32" using nonneg_int_cases by (metis nat_less_iff nat_int of_nat_less_iff of_nat_numeral)
  then show ?thesis using unat_plus_less [of base "2128 * n"] a(1) by (simp add: pcb_base_ok_def pcb_addr_def)
qed

lemma pcb_addr_inj:
  assumes "pcb_base_ok base" "0 \<le> p" "p < 32" "0 \<le> q" "q < 32" "pcb_addr base p = pcb_addr base q"
  shows "p = q"
  using pcb_addr_unat [OF assms(1-3)] pcb_addr_unat [OF assms(1,4,5)] assms(2,4,6) by simp

lemma pcb_addr_nonzero: "pcb_base_ok base \<Longrightarrow> 0 \<le> pid \<Longrightarrow> pid < 32 \<Longrightarrow> pcb_addr base pid \<noteq> 0"
  using pcb_addr_unat [of base pid] by (auto simp: pcb_base_ok_def)

text \<open>
  The invariant: the lists of the kernel agree, and no thread sleeps on the entry of a process
  that has ended.
\<close>

definition zombie :: "proc_t \<Rightarrow> int \<Rightarrow> bool" where
  "zombie s pid \<longleftrightarrow> 0 \<le> pid \<and> pid < 32 \<and> p_state (process_table s ! nat pid) = PROCESS_ZOMBIE"

definition proc_inv :: "u32 \<Rightarrow> proc_t \<Rightarrow> bool" where
  "proc_inv base s \<longleftrightarrow> (\<exists>rs qs. kinv (kst s) rs qs) \<and> length (process_table s) = PROCESS_MAX_PROCESSES
     \<and> (\<forall>pid t. zombie s pid \<and> tid_ok t \<longrightarrow> sleeps_on (th (kst s) t) \<noteq> pcb_addr base pid)"

lemma proc_inv_keep:
  assumes "proc_inv base s" "kinv (kst s') rs qs" "length (process_table s') = 32"
    and "\<And>pid. zombie s' pid \<Longrightarrow> zombie s pid"
    and "\<And>t. tid_ok t \<Longrightarrow> sleeps_on (th (kst s') t) \<noteq> sleeps_on (th (kst s) t) \<Longrightarrow>
      \<forall>pid. zombie s' pid \<longrightarrow> sleeps_on (th (kst s') t) \<noteq> pcb_addr base pid"
  shows "proc_inv base s'"
  using assms unfolding proc_inv_def by metis

text \<open>
  The steps: operations on processes, each under the lock, and anything else in the kernel that
  does not put a thread to sleep on the process table.
\<close>

inductive proc_reach :: "u32 \<Rightarrow> proc_t \<Rightarrow> bool" for base where
  start: "kinv (kst s) rs qs \<Longrightarrow> length (process_table s) = PROCESS_MAX_PROCESSES \<Longrightarrow> process_init s = Inr s' \<Longrightarrow> proc_reach base s'"
| spawn: "proc_reach base s \<Longrightarrow> c < CONFIG_MAX_CPUS \<Longrightarrow> process_spawn stacks fin start s c exe = Inr (r, s') \<Longrightarrow> proc_reach base s'"
| fork: "proc_reach base s \<Longrightarrow> c < CONFIG_MAX_CPUS \<Longrightarrow> fork_begin stacks fin setup arg s c = Inr (f, s') \<Longrightarrow> proc_reach base s'"
| fork_setup: "proc_reach base s \<Longrightarrow> running (kst s) c \<Longrightarrow> fork_prepare pid s c = Inr (ctx, s') \<Longrightarrow> proc_reach base s'"
| join: "proc_reach base s \<Longrightarrow> running (kst s) c \<Longrightarrow> 0 \<le> pid \<Longrightarrow> pid < int PROCESS_MAX_PROCESSES \<Longrightarrow>
    join_locked base s c pid = Some (Inr (v, s')) \<Longrightarrow> proc_reach base s'"
| finish: "proc_reach base s \<Longrightarrow> running (kst s) c \<Longrightarrow> process_finish base rnd s c ret = Some (Inr s') \<Longrightarrow> proc_reach base s'"
| memlimit: "proc_reach base s \<Longrightarrow> c < CONFIG_MAX_CPUS \<Longrightarrow> process_memlimit s c new_end = Inr (a, s') \<Longrightarrow> proc_reach base s'"
| kernel: "proc_reach base s \<Longrightarrow> kstep (kst s) (kern sm) \<or> kern sm = kst s \<Longrightarrow>
    \<forall>t. tid_ok t \<and> sleeps_on (th (kern sm) t) \<noteq> sleeps_on (th (kst s) t) \<longrightarrow>
      (\<forall>pid. 0 \<le> pid \<and> pid < int PROCESS_MAX_PROCESSES \<longrightarrow> sleeps_on (th (kern sm) t) \<noteq> pcb_addr base pid) \<Longrightarrow>
    proc_reach base (s\<lparr>ksm := sm, p_pool := pp, p_tables := ts, p_mem := m\<rparr>)"

lemma kst_simps [simp]:
  "kst (set_kst s k) = k" "process_table (set_kst s k) = process_table s" "p_pool (set_kst s k) = p_pool s"
  "p_tables (set_kst s k) = p_tables s" "p_mem (set_kst s k) = p_mem s" "set_kst (set_kst s k) k' = set_kst s k'"
  by (simp_all add: set_kst_def)

lemma zombie_simps [simp]:
  "zombie (set_kst s k) = zombie s" "zombie (s\<lparr>ksm := sm\<rparr>) = zombie s" "zombie (s\<lparr>p_pool := pp\<rparr>) = zombie s" "zombie (s\<lparr>p_tables := ts\<rparr>) = zombie s"
  "zombie (s\<lparr>p_mem := m\<rparr>) = zombie s"
  by (simp_all add: zombie_def fun_eq_iff)

lemma zombie_upd:
  assumes "zombie (s\<lparr>process_table := (process_table s)[i := x]\<rparr>) pid" "p_state x \<noteq> PROCESS_ZOMBIE"
  shows "zombie s pid"
  using assms by (cases "i < length (process_table s)") (auto simp: zombie_def nth_list_update list_update_beyond not_less split: if_splits)

lemma proc_inv_table:
  assumes "proc_inv base s" "p_state x \<noteq> PROCESS_ZOMBIE" "process_table s' = (process_table s)[i := x]" "kinv (kst s') rs qs"
    and "\<And>t. tid_ok t \<Longrightarrow> sleeps_on (th (kst s') t) = sleeps_on (th (kst s) t)"
  shows "proc_inv base s'"
proof (rule proc_inv_keep [OF assms(1,4)])
  show "length (process_table s') = 32" using assms(1,3) by (simp add: proc_inv_def)
  show "zombie s pid" if "zombie s' pid" for pid
    using zombie_upd [of s i x pid] that assms(2,3) by (simp add: zombie_def)
qed (use assms(5) in simp)

lemma proc_inv_same:
  assumes "proc_inv base s" "process_table s' = process_table s" "kinv (kst s') rs qs"
    and "\<And>t. tid_ok t \<Longrightarrow> sleeps_on (th (kst s') t) = sleeps_on (th (kst s) t)"
  shows "proc_inv base s'"
  by (rule proc_inv_keep [OF assms(1,3)]) (use assms in \<open>auto simp: proc_inv_def zombie_def\<close>)

lemma proc_invD:
  assumes "proc_inv base s"
  obtains rs qs where "kinv (kst s) rs qs" "length (process_table s) = 32"
  using assms by (auto simp: proc_inv_def)

lemma reset_eq:
  assumes "0 \<le> pid" "nat pid < length pt"
  obtains x where "process_reset pt pid = Inr (pt[nat pid := x])" "p_state x = PROCESS_FREE" "parent x = -1"
  using assms by (auto simp: process_reset_def aget_def aset_def nat_less_iff intro!: that)

lemma reset_loop_free:
  "i + n = length pt \<Longrightarrow> reset_loop pt i n = Inr pt' \<Longrightarrow> length pt' = length pt \<and> (\<forall>j. i \<le> j \<and> j < length pt \<longrightarrow> p_state (pt' ! j) = PROCESS_FREE)
    \<and> (\<forall>j < i. pt' ! j = pt ! j)"
proof (induction n arbitrary: pt i)
  case (Suc n)
  obtain x where x: "process_reset pt (int i) = Inr (pt[i := x])" "p_state x = PROCESS_FREE"
    using reset_eq [of "int i" pt] Suc.prems(1) by (metis add_Suc_right less_add_Suc1 nat_int of_nat_0_le_iff)
  then have "reset_loop (pt[i := x]) (Suc i) n = Inr pt'" using Suc.prems(2) by simp
  from Suc.IH [OF _ this] Suc.prems(1) have h: "length pt' = length pt" "\<And>j. Suc i \<le> j \<Longrightarrow> j < length pt \<Longrightarrow> p_state (pt' ! j) = PROCESS_FREE"
    "\<And>j. j < Suc i \<Longrightarrow> pt' ! j = pt[i := x] ! j" by simp_all
  have "pt' ! i = x" using h(3) [of i] Suc.prems(1) by simp
  then have "p_state (pt' ! j) = PROCESS_FREE" if "i \<le> j" "j < length pt" for j
    using h(2) [of j] that x(2) by (cases "i = j") auto
  then show ?case using h(1,3) by simp
qed auto

lemma reset_loop_total: "i + n \<le> length pt \<Longrightarrow> \<exists>pt'. reset_loop pt i n = Inr pt'"
  by (induction n arbitrary: pt i) (auto simp: process_reset_def aget_def aset_def)

text \<open>
  A thread that is created and made ready changes no thread that sleeps.
\<close>

lemma create_run_kinv:
  assumes inv: "kinv k rs qs" and c: "thread_create stacks fin k func arg = Inr (t, k')"
  shows "kinv k' rs qs" "tid_ok u \<Longrightarrow> sleeps_on (th k' u) = sleeps_on (th k u)"
    "\<not> t < 0 \<Longrightarrow> thread_run k' t = Inr k'' \<Longrightarrow> (\<exists>rs'. kinv k'' rs' qs) \<and> (tid_ok u \<longrightarrow> sleeps_on (th k'' u) = sleeps_on (th k u))"
proof -
  have h: "kinv k' rs qs" "if \<exists>u. tid_ok u \<and> state (th k u) = THREAD_FREE then tid_ok t \<and> state (th k' t) = THREAD_NONREADY else t = -1"
    using thread_create_kinv [OF inv, of stacks fin func arg] c by (auto split: if_splits)
  show "kinv k' rs qs" by (rule h)
  show sl: "tid_ok u \<Longrightarrow> sleeps_on (th k' u) = sleeps_on (th k u)" for u
    using create_sleeps [OF inv c, of u] by (simp add: tid_ok_def)
  assume "\<not> t < 0" and r: "thread_run k' t = Inr k''"
  then have "tid_ok t" "state (th k' t) = THREAD_NONREADY" using h(2) by (auto split: if_splits)
  from kinv_add_ready [OF h(1) this] r sl show "(\<exists>rs'. kinv k'' rs' qs) \<and> (tid_ok u \<longrightarrow> sleeps_on (th k'' u) = sleeps_on (th k u))"
    by (auto simp: thread_run_def tid_ok_def)
qed

lemma start_thread_inv:
  assumes s: "proc_inv base s" and tb: "process_table s' = process_table s" "kst s' = kst s"
    and cr: "thread_create stacks fin (kst s') func arg = Inr (t, k)"
  shows "proc_inv base (set_kst s' k)" "\<not> t < 0 \<Longrightarrow> thread_run k t = Inr k' \<Longrightarrow> proc_inv base (set_kst s' k')"
proof -
  obtain rs qs where k: "kinv (kst s) rs qs" using proc_invD [OF s] by blast
  note c = create_run_kinv [OF k cr [unfolded tb(2)]]
  show "proc_inv base (set_kst s' k)" by (rule proc_inv_same [OF s, where rs = rs and qs = qs]) (use tb c(1,2) in simp_all)
  assume "\<not> t < 0" "thread_run k t = Inr k'"
  from c(3) [OF this] obtain rs' where "kinv k' rs' qs" "\<And>u. tid_ok u \<Longrightarrow> sleeps_on (th k' u) = sleeps_on (th (kst s) u)" by blast
  then show "proc_inv base (set_kst s' k')" by (intro proc_inv_same [OF s, where rs = rs' and qs = qs]) (use tb in simp_all)
qed

section \<open>Every step keeps the invariant\<close>

lemma init_inv:
  assumes "kinv (kst s) rs qs" "length (process_table s) = 32" "process_init s = Inr s'"
  shows "proc_inv base s'"
proof -
  obtain pt where pt: "reset_loop (process_table s) 0 32 = Inr pt" "s' = s\<lparr>process_table := pt\<rparr>"
    using assms(3) by (auto simp: process_init_def rbind_Inr_iff)
  have "length pt = 32" "\<forall>j < 32. p_state (pt ! j) = PROCESS_FREE" using reset_loop_free [OF _ pt(1)] assms(2) by simp_all
  then show ?thesis using assms(1) pt(2) by (auto simp: proc_inv_def zombie_def)
qed

lemma alloc_eq:
  assumes "alloc_process_id pt = (i, pt')"
  shows "i \<le> length pt" "pt' = (if i < length pt then pt[i := (pt ! i)\<lparr>p_state := PROCESS_RUNNING\<rparr>] else pt)"
    "i < length pt \<Longrightarrow> p_state (pt ! i) = PROCESS_FREE"
  using assms first_index_le [of "\<lambda>p. p_state p = PROCESS_FREE" pt] first_index_hit [of "\<lambda>p. p_state p = PROCESS_FREE" pt]
  by (auto simp: alloc_process_id_def Let_def)

lemma new_process_inv:
  assumes s: "proc_inv base s" and a: "alloc_process_id (process_table s) = (i, pt)" "i \<noteq> 32" and x: "p_state x = p_state (pt ! i)"
  shows "proc_inv base (s\<lparr>process_table := pt[i := x]\<rparr>)"
proof -
  obtain rs qs where k: "kinv (kst s) rs qs" and l: "length (process_table s) = 32" using proc_invD [OF s] by blast
  have i: "i < length (process_table s)" using alloc_eq(1) [OF a(1)] a(2) l by simp
  then have pt: "pt = (process_table s)[i := (process_table s ! i)\<lparr>p_state := PROCESS_RUNNING\<rparr>]" using alloc_eq(2) [OF a(1)] by simp
  show ?thesis
    by (rule proc_inv_table [OF s, where x = x and i = i and rs = rs and qs = qs]) (use pt i x k in simp_all)
qed

lemma alloc_full:
  assumes "proc_inv base s" "alloc_process_id (process_table s) = (32, pt)"
  shows "s\<lparr>process_table := pt\<rparr> = s"
  using alloc_eq(2) [OF assms(2)] proc_invD [OF assms(1)] by (metis (no_types, lifting) less_irrefl proc_t.surjective proc_t.update_convs(2))

lemma spawn_inv:
  assumes s: "proc_inv base s" and sp: "process_spawn stacks fin start s c exe = Inr (r, s')"
  shows "proc_inv base s'"
proof -
  obtain i pt where a: "alloc_process_id (process_table s) = (i, pt)" by force
  show ?thesis
  proof (cases "i = 32")
    case True
    then show ?thesis using sp a alloc_full [OF s, of pt] s by (auto simp: process_spawn_def split: if_splits)
  next
    case False
    then obtain x cur t k1 where st: "thread_create stacks fin (kst s) start (of_nat i) = Inr (t, k1)"
      "if t < 0 then s' = set_kst (s\<lparr>process_table := pt[i := (pt ! i)\<lparr>executable := x, parent := cur\<rparr>]\<rparr>) k1
       else \<exists>k2. thread_run k1 t = Inr k2 \<and> s' = set_kst (s\<lparr>process_table := pt[i := (pt ! i)\<lparr>executable := x, parent := cur\<rparr>]\<rparr>) k2"
      using sp a by (auto simp: process_spawn_def Let_def rbind_Inr_iff split: if_splits)
    let ?s = "s\<lparr>process_table := pt[i := (pt ! i)\<lparr>executable := x, parent := cur\<rparr>]\<rparr>"
    have inv: "proc_inv base ?s" by (rule new_process_inv [OF s a False]) simp
    have cr: "thread_create stacks fin (kst ?s) start (of_nat i) = Inr (t, k1)" using st(1) by simp
    show ?thesis using st(2) start_thread_inv [OF inv refl refl cr] by (auto split: if_splits)
  qed
qed

lemma sem_search_kern: "sem_search sm c n = Inr (r, sm') \<Longrightarrow> kern sm' = kern sm"
proof (induction n arbitrary: sm)
  case (Suc n)
  let ?s = "sm\<lparr>next_sem := (next_sem sm + 1) mod 128\<rparr>"
  obtain x where x: "aget (semaphore_table sm) (next_sem sm) = Inr x" using Suc.prems by (auto simp: Let_def rbind_Inr_iff)
  show ?case
  proof (cases "creator x = -1")
    case True
    then show ?thesis using Suc.prems x by (auto simp: Let_def rbind_Inr_iff)
  next
    case False
    then have "sem_search ?s c n = Inr (r, sm')" using Suc.prems x by (simp add: Let_def)
    from Suc.IH [OF this] show ?thesis by simp
  qed
qed simp

lemma create_kern: "semaphore_create sm c v = Inr (r, sm') \<Longrightarrow> kern sm' = kern sm"
  unfolding semaphore_create_def rbind_Inr_iff
  by (auto simp: rbind_Inr_iff split: if_splits option.splits dest!: sem_search_kern)

lemma fork_inv:
  assumes s: "proc_inv base s" and sp: "fork_begin stacks fin setup arg s c = Inr (f, s')"
  shows "proc_inv base s'"
proof -
  obtain i pt where a: "alloc_process_id (process_table s) = (i, pt)" by force
  show ?thesis
  proof (cases "i = 32")
    case True
    then show ?thesis using sp a alloc_full [OF s, of pt] s by (auto simp: fork_begin_def split: if_splits)
  next
    case False
    have step: "proc_inv base (set_kst (s\<lparr>process_table := pt[i := y], ksm := sm\<rparr>) k1)"
      "\<not> t < 0 \<Longrightarrow> thread_run k1 t = Inr k2 \<Longrightarrow> proc_inv base (set_kst (s\<lparr>process_table := pt[i := y], ksm := sm\<rparr>) k2)"
      if y: "p_state y = p_state (pt ! i)" and sc: "semaphore_create (ksm s) c 0 = Inr (sem, sm)"
        and tc: "thread_create stacks fin (kern sm) setup arg = Inr (t, k1)" for y sem sm t k1 k2
    proof -
      let ?s = "s\<lparr>process_table := pt[i := y]\<rparr>"
      have inv: "proc_inv base ?s" by (rule new_process_inv [OF s a False y])
      have cr: "thread_create stacks fin (kst (?s\<lparr>ksm := sm\<rparr>)) setup arg = Inr (t, k1)" "kst (?s\<lparr>ksm := sm\<rparr>) = kst ?s"
        using sc tc create_kern by simp_all
      have tb: "process_table (?s\<lparr>ksm := sm\<rparr>) = process_table ?s" by simp
      note st = start_thread_inv [OF inv tb cr(2,1)]
      show "proc_inv base (set_kst (s\<lparr>process_table := pt[i := y], ksm := sm\<rparr>) k1)"
        "\<not> t < 0 \<Longrightarrow> thread_run k1 t = Inr k2 \<Longrightarrow> proc_inv base (set_kst (s\<lparr>process_table := pt[i := y], ksm := sm\<rparr>) k2)"
        using st by simp_all
    qed
    show ?thesis using sp a False
      by (auto simp: fork_begin_def Let_def rbind_Inr_iff split: if_splits intro: step)
  qed
qed

lemma join_inv:
  assumes s: "proc_inv base s" and run: "running (kst s) c" and pid: "0 \<le> pid" "pid < 32" and b: "pcb_base_ok base"
    and j: "join_locked base s c pid = Some (Inr (v, s'))"
  shows "proc_inv base s'"
proof -
  obtain rs qs where k: "kinv (kst s) rs qs" and l: "length (process_table s) = 32" using proc_invD [OF s] by blast
  note r = running_tid [OF k run]
  have p: "aget (process_table s) pid = Inr (process_table s ! nat pid)" using l pid by (simp add: aget_def)
  show ?thesis
  proof (cases "p_state (process_table s ! nat pid) = PROCESS_ZOMBIE")
    case True
    obtain x where x: "process_reset (process_table s) pid = Inr ((process_table s)[nat pid := x])" "p_state x = PROCESS_FREE"
      using reset_eq [of pid "process_table s"] pid l by (metis nat_less_iff of_nat_numeral)
    then have "s' = s\<lparr>process_table := (process_table s)[nat pid := x]\<rparr>" using j True p by (auto simp: join_locked_def)
    then show ?thesis using x(2) k by (intro proc_inv_table [OF s, where x = x and i = "nat pid"]) simp_all
  next
    case False
    have "\<exists>k'. sleepq_add (kst s) c 0 (pcb_addr base pid) = Some (Inr k')
        \<and> kinv k' rs (qs(SLEEPQ_HASH (pcb_addr base pid) := qs (SLEEPQ_HASH (pcb_addr base pid)) @ [scheduler_current_thread (kst s) ! c]))
        \<and> (\<forall>u. 0 \<le> u \<and> u < 32 \<longrightarrow> sleeps_on (th k' u) = (if u = scheduler_current_thread (kst s) ! c then pcb_addr base pid else sleeps_on (th (kst s) u))
             \<and> state (th k' u) = state (th (kst s) u))
        \<and> scheduler_current_thread k' = scheduler_current_thread (kst s)"
      by (rule sleepq_add_kinv [OF k r(1) refl r(3,5,6)]) (use pcb_addr_nonzero [OF b pid] in simp_all)
    then obtain k' where k': "s' = set_kst s k'" "kinv k' rs (qs(SLEEPQ_HASH (pcb_addr base pid) := qs (SLEEPQ_HASH (pcb_addr base pid)) @ [scheduler_current_thread (kst s) ! c]))"
      "\<And>u. tid_ok u \<Longrightarrow> sleeps_on (th k' u) = (if u = scheduler_current_thread (kst s) ! c then pcb_addr base pid else sleeps_on (th (kst s) u))"
      using j False p by (auto simp: join_locked_def tid_ok_def)
    show ?thesis
    proof (rule proc_inv_keep [OF s])
      show "kinv (kst s') rs (qs(SLEEPQ_HASH (pcb_addr base pid) := qs (SLEEPQ_HASH (pcb_addr base pid)) @ [scheduler_current_thread (kst s) ! c]))"
        using k'(1,2) by simp
      fix t assume "tid_ok t" "sleeps_on (th (kst s') t) \<noteq> sleeps_on (th (kst s) t)"
      then have "sleeps_on (th (kst s') t) = pcb_addr base pid" using k'(1,3) by (auto split: if_splits)
      then show "\<forall>p. zombie s' p \<longrightarrow> sleeps_on (th (kst s') t) \<noteq> pcb_addr base p"
        using False pcb_addr_inj [OF b pid] k'(1) by (auto simp: zombie_def)
    qed (use k'(1) l in simp_all)
  qed
qed

lemma copy_frame:
  "copy_page table va pfn d s = Inr s' \<Longrightarrow> ksm s' = ksm s \<and> process_table s' = process_table s"
  "copy_entry table e s = Inr s' \<Longrightarrow> ksm s' = ksm s \<and> process_table s' = process_table s"
proof -
  show p: "copy_page table va pfn d s = Inr s' \<Longrightarrow> ksm s' = ksm s \<and> process_table s' = process_table s" for va pfn d s s'
    by (auto simp: copy_page_def rbind_Inr_iff split: if_splits)
  show "copy_entry table e s = Inr s' \<Longrightarrow> ksm s' = ksm s \<and> process_table s' = process_table s"
    by (auto simp: copy_entry_def rbind_Inr_iff split: if_splits dest!: p)
qed

lemma copy_loop_frame: "copy_loop table par i n s = Inr s' \<Longrightarrow> ksm s' = ksm s \<and> process_table s' = process_table s"
  by (induction n arbitrary: i s) (fastforce simp: rbind_Inr_iff dest: copy_frame(2))+

lemma fork_prepare_inv:
  assumes s: "proc_inv base s" and run: "running (kst s) c" and f: "fork_prepare pid s c = Inr (ctx, s')"
  shows "proc_inv base s'"
proof -
  obtain rs qs where k: "kinv (kst s) rs qs" using proc_invD [OF s] by blast
  let ?t = "scheduler_current_thread (kst s) ! c"
  note r = running_tid [OF k run]
  obtain k1 where k1: "upd_thread (kst s) ?t (\<lambda>th. th\<lparr>process_id := pid\<rparr>) = Inr k1" "kinv k1 rs qs"
    "k1 = (kst s)\<lparr>thread_table := (thread_table (kst s))[nat ?t := (th (kst s) ?t)\<lparr>process_id := pid\<rparr>]\<rparr>"
    using kinv_fields [OF k r(2), of "\<lambda>th. th\<lparr>process_id := pid\<rparr>"] by auto
  obtain table pp tabs k2 where f2: "upd_thread k1 ?t (\<lambda>th. th\<lparr>pagetable := table\<rparr>) = Inr k2"
    "fork_copy table ((set_kst s k2)\<lparr>p_pool := pp, p_tables := tabs\<rparr>) c = Inr (ctx, s')"
    using f k1(1) current_process_eq(2) [OF k r(1)] by (auto simp: fork_prepare_def rbind_Inr_iff split: if_splits)
  obtain k2' where k2: "upd_thread k1 ?t (\<lambda>th. th\<lparr>pagetable := table\<rparr>) = Inr k2'" "kinv k2' rs qs"
    "k2' = k1\<lparr>thread_table := (thread_table k1)[nat ?t := (th k1 ?t)\<lparr>pagetable := table\<rparr>]\<rparr>"
    using kinv_fields [OF k1(2) r(2), of "\<lambda>th. th\<lparr>pagetable := table\<rparr>"] by auto
  have fr: "ksm s' = ksm (set_kst s k2)" "process_table s' = process_table s"
    using f2(2) by (auto simp: fork_copy_def rbind_Inr_iff Let_def split: option.splits if_splits dest!: copy_loop_frame)
  have sl: "sleeps_on (th k2 u) = sleeps_on (th (kst s) u)" if "tid_ok u" for u
    using k1(3) k2(1,3) f2(1) r(4) tid_okD [OF that] tid_okD [OF r(2)] by (auto simp: nth_list_update)
  show ?thesis using k2(1,2) f2(1) fr sl by (intro proc_inv_same [OF s, where rs = rs and qs = qs]) simp_all
qed

text \<open>
  Finishing: the process is a zombie and nobody sleeps on it any more.
\<close>

lemma finish_zombie_eq:
  assumes k: "kinv (kst s) rs qs" and l: "length (process_table s) = 32" and run: "running (kst s) c"
    and pid: "process_id (th (kst s) (scheduler_current_thread (kst s) ! c)) = pid"
  shows "finish_zombie s c ret =
      (if 0 \<le> pid \<and> pid < 32
       then rbind (vm_destroy_pagetable (p_pool s) (pagetable (th (kst s) (scheduler_current_thread (kst s) ! c)))) (\<lambda>pp.
         Inr (pid, (set_kst s ((kst s)\<lparr>thread_table := (thread_table (kst s))[nat (scheduler_current_thread (kst s) ! c) :=
             (th (kst s) (scheduler_current_thread (kst s) ! c))\<lparr>pagetable := 0\<rparr>]\<rparr>))
           \<lparr>process_table := (process_table s)[nat pid := (process_table s ! nat pid)\<lparr>retval := ret, p_state := PROCESS_ZOMBIE\<rparr>], p_pool := pp\<rparr>))
       else Inl Bad_access)"
proof -
  note r = running_tid [OF k run]
  have u: "upd_thread (kst s) (scheduler_current_thread (kst s) ! c) f =
      Inr ((kst s)\<lparr>thread_table := (thread_table (kst s))[nat (scheduler_current_thread (kst s) ! c) := f (th (kst s) (scheduler_current_thread (kst s) ! c))]\<rparr>)" for f
    using upd_thread_eq [of "scheduler_current_thread (kst s) ! c" "kst s" f] tid_okD [OF r(2)] r(4) by simp
  have g: "get_thread (kst s) (scheduler_current_thread (kst s) ! c) = Inr (th (kst s) (scheduler_current_thread (kst s) ! c))"
    using get_thread_eq [of "scheduler_current_thread (kst s) ! c" "kst s"] tid_okD [OF r(2)] r(4) by simp
  show ?thesis
    using u g pid l by (simp add: finish_zombie_def current_process_eq [OF k r(1)] aget_def aset_def)
qed

lemma finish_ok:
  assumes s: "proc_inv base s" and run: "running (kst s) c" and b: "pcb_base_ok base"
    and pid: "process_id (th (kst s) (scheduler_current_thread (kst s) ! c)) = pid" "0 \<le> pid" "pid < 32"
    and tab: "vm_destroy_pagetable (p_pool s) (pagetable (th (kst s) (scheduler_current_thread (kst s) ! c))) = Inr pp"
  shows "\<exists>s'. process_finish base rnd s c ret = Some (Inr s') \<and> proc_inv base s'
    \<and> process_table s' = map (\<lambda>p. if parent p = pid then p\<lparr>parent := -1\<rparr> else p)
        ((process_table s)[nat pid := (process_table s ! nat pid)\<lparr>retval := ret, p_state := PROCESS_ZOMBIE\<rparr>])
    \<and> p_pool s' = pp"
proof -
  obtain rs qs where k: "kinv (kst s) rs qs" and l: "length (process_table s) = 32" using proc_invD [OF s] by blast
  let ?t = "scheduler_current_thread (kst s) ! c"
  note r = running_tid [OF k run]
  let ?r = "pcb_addr base pid"
  let ?k1 = "(kst s)\<lparr>thread_table := (thread_table (kst s))[nat ?t := (th (kst s) ?t)\<lparr>pagetable := 0\<rparr>]\<rparr>"
  let ?pt = "(process_table s)[nat pid := (process_table s ! nat pid)\<lparr>retval := ret, p_state := PROCESS_ZOMBIE\<rparr>]"
  have k1: "kinv ?k1 rs qs" using kinv_fields [OF k r(2), of "\<lambda>th. th\<lparr>pagetable := 0\<rparr>"] by auto
  have t1: "th ?k1 ?t = (th (kst s) ?t)\<lparr>pagetable := 0\<rparr>" "\<And>u. tid_ok u \<Longrightarrow> sleeps_on (th ?k1 u) = sleeps_on (th (kst s) u)"
    using r(4) tid_okD tid_okD [OF r(2)] by (auto simp: nth_list_update)
  have z: "finish_zombie s c ret = Inr (pid, (set_kst s ?k1)\<lparr>process_table := ?pt, p_pool := pp\<rparr>)"
    using finish_zombie_eq [OF k l run pid(1)] pid(2,3) tab by simp
  obtain k2 rs2 qs2 where k2: "sleepq_wake_all ?k1 ?r = Some (Inr k2)" "kinv k2 rs2 qs2"
    "\<And>u. 0 \<le> u \<Longrightarrow> u < 32 \<Longrightarrow> sleeps_on (th k2 u) = (if u \<in> set (qs (SLEEPQ_HASH ?r)) \<and> sleeps_on (th ?k1 u) = ?r then 0 else sleeps_on (th ?k1 u))"
    using wake_all_kinv [OF k1, of ?r] by blast
  note fr = kframe_wake_all [OF k2(1)]
  have cur: "scheduler_current_thread k2 ! c = ?t" using fr by (simp add: kframe_def)
  have lt: "length (thread_table ?k1) = 32" "nat ?t < 32" "0 \<le> ?t" "?t < 32" using r(4) tid_okD [OF r(2)] by auto
  have run2: "state (th k2 ?t) = THREAD_RUNNING" "pagetable (th k2 ?t) = 0"
    using fr lt t1(1) r(5) unfolding kframe_def by auto
  have sl2: "sleeps_on (th k2 ?t) = 0" using k2(3) [OF lt(3,4)] t1(2) [OF r(2)] r(6) by simp
  obtain k3 rs3 where k3: "thread_finish k2 c False rnd = Inr k3" "kinv k3 rs3 qs2"
    "\<And>u. 0 \<le> u \<Longrightarrow> u < 32 \<Longrightarrow> sleeps_on (th k3 u) = sleeps_on (th k2 u)"
    using thread_finish_kinv [OF k2(2) r(1) cur r(3) run2(1) sl2 run2(2), of False rnd] by blast
  let ?s = "(set_kst s k3)\<lparr>process_table := map (\<lambda>p. if parent p = pid then p\<lparr>parent := -1\<rparr> else p) ?pt, p_pool := pp\<rparr>"
  have fin: "process_finish base rnd s c ret = Some (Inr ?s)"
    using z k2(1) k3(1) by (simp add: process_finish_def set_kst_def Let_def)
  have sl: "sleeps_on (th k3 u) \<noteq> ?r" "sleeps_on (th k3 u) = sleeps_on (th (kst s) u) \<or> sleeps_on (th k3 u) = 0" if u: "tid_ok u" for u
  proof -
    have u': "0 \<le> u" "u < 32" using tid_okD [OF u] by auto
    have "u \<in> set (qs (SLEEPQ_HASH ?r))" if "sleeps_on (th ?k1 u) = ?r"
      using kinv_thread [OF k1 [unfolded kinv_def] u] that pcb_addr_nonzero [OF b pid(2,3)] by (auto simp: kthread_def)
    then show "sleeps_on (th k3 u) \<noteq> ?r" using k3(3) [OF u'] k2(3) [OF u'] pcb_addr_nonzero [OF b pid(2,3)] by auto
    show "sleeps_on (th k3 u) = sleeps_on (th (kst s) u) \<or> sleeps_on (th k3 u) = 0" using k3(3) [OF u'] k2(3) [OF u'] t1(2) [OF u] by auto
  qed
  have zo: "zombie s q \<or> q = pid" if zq: "zombie ?s q" for q
  proof (cases "q = pid")
    case False
    then have "nat pid \<noteq> nat q" using zq pid(2) by (auto simp: zombie_def)
    then show ?thesis using zq l by (auto simp: zombie_def split: if_splits)
  qed simp
  have "proc_inv base ?s"
    unfolding proc_inv_def
  proof (intro conjI allI impI)
    show "\<exists>rs qs. kinv (kst ?s) rs qs" using k3(2) by auto
    show "length (process_table ?s) = 32" using l by simp
    fix q u assume a: "zombie ?s q \<and> tid_ok u"
    then have q: "0 \<le> q" "q < 32" by (auto simp: zombie_def)
    show "sleeps_on (th (kst ?s) u) \<noteq> pcb_addr base q"
    proof (cases "q = pid")
      case False
      then have "zombie s q" using zo a by blast
      then have "sleeps_on (th (kst s) u) \<noteq> pcb_addr base q" using s a by (auto simp: proc_inv_def)
      then show ?thesis using sl(2) [of u] a pcb_addr_nonzero [OF b q] by auto
    qed (use sl(1) [of u] a in simp)
  qed
  then show ?thesis using fin by (intro exI [of _ ?s]) simp
qed

lemma memlimit_frame:
  "memlimit_loop table i n s = Inr (ok, s') \<Longrightarrow> ksm s' = ksm s \<and> process_table s' = process_table s"
proof (induction n arbitrary: i s)
  case (Suc n)
  obtain a pp where a: "pagepool_get_phys_page (p_pool s) = Inr (a, pp)" using Suc.prems by (auto simp: rbind_Inr_iff)
  show ?case
  proof (cases "a = 0")
    case False
    then obtain tab where "vm_map (p_tables s table) a (of_nat i * 4096) 1 = Inr tab"
      "memlimit_loop table (Suc i) n (s\<lparr>p_pool := pp, p_tables := (p_tables s)(table := tab)\<rparr>) = Inr (ok, s')"
      using Suc.prems a by (auto simp: rbind_Inr_iff)
    from Suc.IH [OF this(2)] show ?thesis by simp
  qed (use Suc.prems a in auto)
qed simp

lemma memlimit_inv:
  assumes s: "proc_inv base s" and m: "process_memlimit s c e = Inr (a, s')"
  shows "proc_inv base s'"
proof -
  obtain rs qs where k: "kinv (kst s) rs qs" and l: "length (process_table s) = 32" using proc_invD [OF s] by blast
  have "ksm s' = ksm s \<and> (process_table s' = process_table s \<or> (\<exists>i. process_table s' = (process_table s)[i := (process_table s ! i)\<lparr>heap_end := e\<rparr>]))"
    using m by (auto simp: process_memlimit_def rbind_Inr_iff Let_def aget_def aset_def split: if_splits dest!: memlimit_frame)
  then show ?thesis
  proof (elim conjE disjE exE)
    assume "ksm s' = ksm s" "process_table s' = process_table s"
    then show ?thesis using k by (intro proc_inv_same [OF s]) simp_all
  next
    fix i assume i: "ksm s' = ksm s" "process_table s' = (process_table s)[i := (process_table s ! i)\<lparr>heap_end := e\<rparr>]"
    then have "zombie s q" if "zombie s' q" for q
      using that l by (cases "i = nat q") (auto simp: zombie_def nat_less_iff split: if_splits)
    then show ?thesis using k i l by (intro proc_inv_keep [OF s, where rs = rs and qs = qs]) simp_all
  qed
qed

lemma finish_inv:
  assumes s: "proc_inv base s" and run: "running (kst s) c" and b: "pcb_base_ok base" and f: "process_finish base rnd s c ret = Some (Inr s')"
  shows "proc_inv base s'"
proof -
  obtain rs qs where k: "kinv (kst s) rs qs" and l: "length (process_table s) = 32" using proc_invD [OF s] by blast
  let ?t = "scheduler_current_thread (kst s) ! c"
  obtain pid s1 where "finish_zombie s c ret = Inr (pid, s1)" using f by (auto simp: process_finish_def obind_Inr_iff)
  then obtain pp where "0 \<le> process_id (th (kst s) ?t)" "process_id (th (kst s) ?t) < 32"
    "vm_destroy_pagetable (p_pool s) (pagetable (th (kst s) ?t)) = Inr pp"
    using finish_zombie_eq [OF k l run refl, of ret] by (auto simp: rbind_Inr_iff split: if_splits)
  from finish_ok [OF s run b refl this, of rnd ret] f show ?thesis by auto
qed

lemma proc_reach_inv: "proc_reach base s \<Longrightarrow> pcb_base_ok base \<Longrightarrow> proc_inv base s"
proof (induction rule: proc_reach.induct)
  case (start s rs qs s')
  then show ?case using init_inv by blast
next
  case (spawn s c stacks fin start exe r s')
  then show ?case using spawn_inv by blast
next
  case (fork s c stacks fin entry arg f s')
  then show ?case using fork_inv by blast
next
  case (fork_setup s c pid ctx s')
  then show ?case using fork_prepare_inv by blast
next
  case (join s c pid v s')
  then show ?case using join_inv by simp
next
  case (finish s c rnd ret s')
  then show ?case using finish_inv by blast
next
  case (memlimit s c e a s')
  then show ?case using memlimit_inv by blast
next
  case (kernel s sm pp ts m)
  then have s: "proc_inv base s" by blast
  obtain rs qs where k: "kinv (kst s) rs qs" and l: "length (process_table s) = 32" using proc_invD [OF s] by blast
  obtain rs' qs' where k': "kinv (kern sm) rs' qs'" using kernel(2) kstep_kinv [OF _ k] k by metis
  show ?case
    by (rule proc_inv_keep [OF s, where rs = rs' and qs = qs']) (use k' l kernel(3) in \<open>auto simp: zombie_def\<close>)
qed

end
