(* ===== verification/Process_Memory.thy ===== *)
theory Process_Memory
  imports Process_Correct
begin

text \<open>
  The memory of a process: growing the heap and copying the address space for a new process.
\<close>

section \<open>Pages\<close>

definition va_page :: "u32 \<Rightarrow> nat" where
  "va_page a = unat (drop_bit 12 a)"

lemma va_page_div: "va_page a = unat a div 4096"
  unfolding va_page_def unat_drop_bit_eq by (simp add: drop_bit_eq_div)

lemma same_page_va: "same_page a b \<longleftrightarrow> va_page a = va_page b"
  by (simp add: same_page_def va_page_def word_unat_eq_iff)

lemma va_page_of: "i < 2 ^ 20 \<Longrightarrow> va_page (of_nat i * 4096) = i"
proof -
  assume "i < 2 ^ 20"
  then have "unat (of_nat (i * 4096) :: u32) = i * 4096" by (simp only: unat_of_nat) simp
  then show ?thesis by (simp add: va_page_div)
qed

lemma lookup_page:
  assumes "va_page a = va_page b"
  shows "pt_lookup pt a = pt_lookup pt b"
  using assms lookup_same_page same_page_va by blast

lemma pfn_page: "p < 2 ^ 20 \<Longrightarrow> pfn_of (page_addr p) = of_nat p"
proof -
  assume p: "p < 2 ^ 20"
  then have u: "unat (page_addr p) = p * 4096" using page_unat by simp
  have "unat (drop_bit 12 (page_addr p)) = p" unfolding unat_drop_bit_eq u by (simp add: drop_bit_eq_div)
  then have "unat (pfn_of (page_addr p)) = p" using p by (simp add: pfn_of_def unsigned_ucast_eq take_bit_eq_mod)
  then show ?thesis by (metis of_nat_unat ucast_id)
qed

section \<open>Growing the heap\<close>

text \<open>\<open>ps\<close> are the frames of the pages from page \<open>i\<close> on.\<close>

definition pages_mapped :: "u32 \<Rightarrow> nat \<Rightarrow> nat list \<Rightarrow> proc_t \<Rightarrow> proc_t \<Rightarrow> bool" where
  "pages_mapped table i ps s s' \<longleftrightarrow> distinct ps \<and> set ps \<subseteq> pp_free (p_pool s)
    \<and> pp_inv (p_pool s') \<and> pp_free (p_pool s') = pp_free (p_pool s) - set ps \<and> pt_inv (p_tables s' table)
    \<and> (\<forall>t. t \<noteq> table \<longrightarrow> p_tables s' t = p_tables s t) \<and> p_mem s' = p_mem s
    \<and> (\<forall>va. pt_lookup (p_tables s' table) va =
         (if i \<le> va_page va \<and> va_page va < i + length ps then Some (of_nat (ps ! (va_page va - i)), True) else pt_lookup (p_tables s table) va))"

lemma memlimit_loop_ok:
  assumes "pp_inv (p_pool s)" "pp_pages (p_pool s) \<le> 2 ^ 20" "pt_inv (p_tables s table)" "i + n \<le> 2 ^ 20"
    and "unat (valid_count (p_tables s table)) + n \<le> PAGETABLE_ENTRIES"
    and "\<And>k. i \<le> k \<Longrightarrow> k < i + n \<Longrightarrow> pt_lookup (p_tables s table) (of_nat k * 4096) = None"
  shows "\<exists>ps s'. memlimit_loop table i n s = Inr (n \<le> card (pp_free (p_pool s)), s')
    \<and> length ps = min n (card (pp_free (p_pool s))) \<and> pages_mapped table i ps s s'"
  unfolding pages_mapped_def
  using assms
proof (induction n arbitrary: i s)
  case 0
  then show ?case by (intro exI [of _ "[]"] exI [of _ s]) auto
next
  case (Suc n)
  let ?pp = "p_pool s" and ?tab = "p_tables s table"
  show ?case
  proof (cases "pp_free ?pp = {}")
    case True
    then show ?thesis using get_phys_page_none [OF Suc.prems(1) True] Suc.prems(1,3)
      by (intro exI [of _ "[]"] exI [of _ s]) auto
  next
    case False
    obtain p pp where p: "pagepool_get_phys_page ?pp = Inr (page_addr p, pp)" "p \<in> pp_free ?pp" "pp_inv pp" "pp_free pp = pp_free ?pp - {p}"
      using get_phys_page_some [OF Suc.prems(1) False] by blast
    have pb: "p < 2 ^ 20" using pp_free_bounds [OF Suc.prems(1) p(2)] by auto
    have nz: "page_addr p \<noteq> 0" using page_addr_nonzero [of p] pp_free_bounds [OF Suc.prems(1) p(2)] by simp
    have i: "i < 2 ^ 20" using Suc.prems(4) by simp
    let ?va = "of_nat i * 4096 :: u32"
    obtain tab where tab: "vm_map ?tab (page_addr p) ?va 1 = Inr tab" "pt_inv tab" "unat (valid_count tab) \<le> Suc (unat (valid_count ?tab))"
      "\<And>vb. pt_lookup tab vb = (if va_page vb = i then Some (of_nat p, True) else pt_lookup ?tab vb)"
    proof (cases "pt_has_pair ?tab ?va")
      case True
      from vm_map_pair [OF Suc.prems(3) True Suc.prems(6) [of i], of 1 "page_addr p"] show ?thesis
        using that by (auto simp: same_page_va va_page_of [OF i] pfn_page [OF pb])
    next
      case False
      from vm_map_new [OF Suc.prems(3) False, of 1 "page_addr p"] Suc.prems(5) show ?thesis
        using that by (auto simp: same_page_va va_page_of [OF i] pfn_page [OF pb])
    qed
    let ?s = "s\<lparr>p_pool := pp, p_tables := (p_tables s)(table := tab)\<rparr>"
    have fr: "pp_pages pp \<le> 2 ^ 20" using get_phys_page_frame [OF p(1)] Suc.prems(2) by simp
    have un: "pt_lookup tab (of_nat k * 4096) = None" if "Suc i \<le> k" "k < Suc i + n" for k
      using that Suc.prems(4) Suc.prems(6) [of k] tab(4) va_page_of [of k] by auto
    from Suc.IH [of ?s "Suc i"] p(3) fr tab(2,3) Suc.prems(4,5) un obtain ps s' where
      ih: "memlimit_loop table (Suc i) n ?s = Inr (n \<le> card (pp_free pp), s')" "length ps = min n (card (pp_free pp))" "distinct ps" "set ps \<subseteq> pp_free pp"
      "pp_inv (p_pool s')" "pp_free (p_pool s') = pp_free pp - set ps" "pt_inv (p_tables s' table)" "\<forall>t. t \<noteq> table \<longrightarrow> p_tables s' t = p_tables s t" "p_mem s' = p_mem s"
      "\<forall>va. pt_lookup (p_tables s' table) va =
         (if Suc i \<le> va_page va \<and> va_page va < Suc i + length ps then Some (of_nat (ps ! (va_page va - Suc i)), True) else pt_lookup tab va)"
      by auto
    have c: "card (pp_free ?pp) = Suc (card (pp_free pp))" using p(2,4) finite_pp_free [of ?pp] by (metis card_Suc_Diff1)
    have lk: "pt_lookup (p_tables s' table) va =
        (if i \<le> va_page va \<and> va_page va < i + length (p # ps) then Some (of_nat ((p # ps) ! (va_page va - i)), True) else pt_lookup ?tab va)" for va
    proof (cases "va_page va = i")
      case True
      then show ?thesis using ih(10) tab(4) by simp
    next
      case False
      then have "va_page va - i = Suc (va_page va - Suc i)" if "i \<le> va_page va" using that by simp
      then show ?thesis using ih(10) tab(4) False by auto
    qed
    have "memlimit_loop table i (Suc n) s = Inr (Suc n \<le> card (pp_free ?pp), s')" using p(1) nz tab(1) ih(1) c by simp
    moreover have "length (p # ps) = min (Suc n) (card (pp_free ?pp))" using ih(2) c by simp
    moreover have "distinct (p # ps)" "set (p # ps) \<subseteq> pp_free ?pp" "pp_free (p_pool s') = pp_free ?pp - set (p # ps)"
      using ih(3,4,6) p(2,4) by auto
    moreover have "p_mem s' = p_mem s" "\<forall>t. t \<noteq> table \<longrightarrow> p_tables s' t = p_tables s t" using ih(8,9) by auto
    ultimately show ?thesis using ih(5,7) by (intro exI [of _ "p # ps"] exI [of _ s'] conjI allI) (assumption | rule lk | blast)+
  qed
qed

lemma va_page_bound: "va_page a < 2 ^ 20"
proof -
  have "unat a < 2 ^ LENGTH(32)" by (rule unsigned_less)
  then show ?thesis by (simp add: va_page_div)
qed

lemma va_page_mono: "a \<le> b \<Longrightarrow> va_page a \<le> va_page b"
  by (simp add: va_page_div word_le_nat_alt div_le_mono)

lemma memlimit_eq:
  assumes k: "kinv (kst s) rs qs" "c < 4" and l: "length (process_table s) = 32"
    and t: "th (kst s) (scheduler_current_thread (kst s) ! c) = t" "process_id t = pid" "0 \<le> pid" "pid < 32"
    and p: "process_table s ! nat pid = p"
  shows "process_memlimit s c e =
    (if e = 0 then Inr (heap_end p, s) else if e < heap_end p then Inr (0, s)
     else rbind (memlimit_loop (pagetable t) (Suc (va_page (heap_end p))) (va_page e - va_page (heap_end p)) s) (\<lambda>(ok, s').
       if \<not> ok then Inr (0, s')
       else Inr (e, s'\<lparr>process_table := (process_table s)[nat pid := p\<lparr>heap_end := e\<rparr>]\<rparr>)))"
proof -
  have "aget (process_table s) pid = Inr p" using l t p by (simp add: aget_def)
  moreover have "aset (process_table s') pid x = Inr ((process_table s)[nat pid := x])"
    if "memlimit_loop table i n s = Inr (ok, s')" for table i n ok s' x
    using memlimit_frame [OF that] l t by (simp add: aset_def)
  ultimately show ?thesis
    using t by (cases "memlimit_loop (pagetable t) (Suc (va_page (heap_end p))) (va_page e - va_page (heap_end p)) s")
      (auto simp: process_memlimit_def current_process_eq [OF k] va_page_div)
qed

lemma memlimit_grows:
  assumes inv: "pp_inv (p_pool s)" "pp_pages (p_pool s) \<le> 2 ^ 20" "pt_inv (p_tables s table)"
    and n: "va_page e - va_page h = n" "unat (valid_count (p_tables s table)) + n \<le> PAGETABLE_ENTRIES"
    and un: "\<And>va. va_page h < va_page va \<Longrightarrow> va_page va \<le> va_page e \<Longrightarrow> pt_lookup (p_tables s table) va = None"
    and e: "\<not> e < h"
  shows "\<exists>ps s'. memlimit_loop table (Suc (va_page h)) n s = Inr (n \<le> card (pp_free (p_pool s)), s')
    \<and> length ps = min n (card (pp_free (p_pool s))) \<and> pages_mapped table (Suc (va_page h)) ps s s'"
proof (rule memlimit_loop_ok [OF inv])
  have b: "va_page h \<le> va_page e" "va_page e < 2 ^ 20" using e va_page_mono va_page_bound by auto
  then show "Suc (va_page h) + n \<le> 2 ^ 20" using n(1) by simp
  show "unat (valid_count (p_tables s table)) + n \<le> PAGETABLE_ENTRIES" by (rule n(2))
  show "pt_lookup (p_tables s table) (of_nat j * 4096) = None" if "Suc (va_page h) \<le> j" "j < Suc (va_page h) + n" for j
    using un [of "of_nat j * 4096"] va_page_of [of j] that b n(1) by simp
qed

text \<open>
  A page that the table maps is not mapped again: the kernel panics.
\<close>

lemma memlimit_loop_mapped:
  assumes "pp_inv (p_pool s)" "pp_free (p_pool s) \<noteq> {}" "pt_inv (p_tables s table)"
    and "pt_lookup (p_tables s table) (of_nat i * 4096) \<noteq> None" "0 < n"
  shows "memlimit_loop table i n s = Inl Kernel_panic"
proof -
  obtain p pp where p: "pagepool_get_phys_page (p_pool s) = Inr (page_addr p, pp)" "p \<in> pp_free (p_pool s)"
    using get_phys_page_some [OF assms(1,2)] by blast
  then have "page_addr p \<noteq> 0" using page_addr_nonzero pp_free_bounds [OF assms(1)] by blast
  then show ?thesis using p(1) vm_map_mapped [OF assms(3,4), of 1] assms(5) by (cases n) simp_all
qed

end
