(* ===== verification/Process_Fork.thy ===== *)
theory Process_Fork
  imports Process_Memory
begin

text \<open>
  Forking: the child has a copy of the memory of its parent, page by page, in pages of its own.
\<close>

section \<open>Frames\<close>

lemma kernel_unat: "unat a < 2 ^ 31 \<Longrightarrow> unat (ADDR_PHYS_TO_KERNEL a) = 2 ^ 31 + unat a"
proof -
  assume a: "unat a < 2 ^ 31"
  have e: "(0x80000000 :: u32) = 2 ^ 31" by simp
  have "\<not> bit a 31"
  proof -
    have "take_bit 31 (unat a) = unat a" using a by (simp add: take_bit_nat_eq_self_iff)
    then have "\<not> bit (unat a) 31" by (metis bit_take_bit_iff less_irrefl)
    then show ?thesis by (simp add: bit_unsigned_iff)
  qed
  then have "a AND 0x80000000 = 0" unfolding e and_exp_eq_0_iff_not_bit by simp
  then have "ADDR_PHYS_TO_KERNEL a = a + 0x80000000" by (simp add: ADDR_PHYS_TO_KERNEL_def disjunctive_add_eq_or)
  then show ?thesis using unat_plus_less [of a "2 ^ 31"] a by simp
qed

lemma kernel_nonzero: "ADDR_PHYS_TO_KERNEL a \<noteq> 0"
proof
  assume "ADDR_PHYS_TO_KERNEL a = 0"
  then have "bit (a OR 2 ^ 31) 31 = bit (0 :: u32) 31" by (simp add: ADDR_PHYS_TO_KERNEL_def)
  then show False by (simp add: bit_or_iff bit_exp_iff del: power_numeral)
qed

definition frame_addr :: "20 word \<Rightarrow> u32" where
  "frame_addr f = ADDR_PHYS_TO_KERNEL (push_bit 12 (ucast f))"

definition frame_byte :: "mem \<Rightarrow> 20 word \<Rightarrow> nat \<Rightarrow> u8" where
  "frame_byte m f k = m (frame_addr f + of_nat k)"

lemma page_addr_frame: "page_addr (unat f) = push_bit 12 (ucast (f :: 20 word))"
proof -
  have "unat f < 2 ^ 20" using unsigned_less [of f] by simp
  then have "unat (page_addr (unat f)) = unat f * 4096" by (simp add: page_unat)
  moreover have "unat (push_bit 12 (ucast f) :: u32) = unat f * 4096"
    using \<open>unat f < 2 ^ 20\<close> by (simp add: push_bit_eq_mult unat_word_ariths(2) unsigned_ucast_eq take_bit_eq_mod)
  ultimately show ?thesis by (simp add: word_unat_eq_iff)
qed

lemma frame_unat: "unat f < 2 ^ 19 \<Longrightarrow> unat (frame_addr f) = 2 ^ 31 + unat f * 4096"
  using page_unat [of "unat f"] kernel_unat [of "page_addr (unat f)"] by (simp add: frame_addr_def page_addr_frame)

lemma frame_nth_unat: "unat f < 2 ^ 19 \<Longrightarrow> k < 4096 \<Longrightarrow> unat (frame_addr f + of_nat k) = 2 ^ 31 + unat f * 4096 + k"
  using unat_plus_less [of "frame_addr f" k] frame_unat [of f] by simp

lemma frame_copy:
  assumes f: "unat f < 2 ^ 19" and g: "unat g < 2 ^ 19" and h: "unat h < 2 ^ 19" and k: "k < 4096" and ne: "f \<noteq> g"
  shows "frame_byte (memcopy 4096 m (frame_addr g) (frame_addr f)) h k = frame_byte m (if h = g then f else h) k"
proof -
  have ne': "unat f \<noteq> unat g" using ne by (simp add: word_unat_eq_iff)
  have d: "unat (a - b) = (if unat b \<le> unat a then unat a - unat b else unat a + 4294967296 - unat b)" for a b :: u32
    by (simp add: unat_sub_if')
  have "noclobber (nat 4096) (frame_addr g) (frame_addr f)"
    using ne' frame_unat [OF f] frame_unat [OF g] f g unfolding noclobber_def d by (auto simp: not_le)
  then have c: "memcopy 4096 m (frame_addr g) (frame_addr f) a =
      (if unat (a - frame_addr g) < 4096 then m (frame_addr f + (a - frame_addr g)) else m a)" for a
    using memcopy_eq [of 4096] by simp
  show ?thesis
  proof (cases "h = g")
    case True
    have "unat (word_of_nat k :: u32) = k" using k by (simp add: unat_of_nat)
    then show ?thesis using True k by (simp add: frame_byte_def c)
  next
    case False
    then have "unat h \<noteq> unat g" by (simp add: word_unat_eq_iff)
    then have "\<not> unat (frame_addr h + of_nat k - frame_addr g) < 4096"
      using frame_nth_unat [OF h k] frame_unat [OF g] g h k unfolding d by (auto simp: not_less)
    then show ?thesis using False by (simp add: frame_byte_def c)
  qed
qed

section \<open>Copying a page\<close>

lemma uint_bit: "uint (d :: 1 word) = 0 \<or> uint d = 1" "(uint d = 1) = (d = 1)"
  using bit1_cases [of d] by auto

lemma vm_map_any:
  assumes "pt_inv pt" "pt_lookup pt va = None" "pt_has_pair pt va \<or> unat (valid_count pt) < PAGETABLE_ENTRIES" "d = 0 \<or> d = 1"
  obtains pt' where "vm_map pt pa va d = Inr pt'" "pt_inv pt'"
    "unat (valid_count pt') = (if pt_has_pair pt va then unat (valid_count pt) else Suc (unat (valid_count pt)))"
    "\<And>vb. pt_lookup pt' vb = (if same_page va vb then Some (pfn_of pa, d = 1) else pt_lookup pt vb)"
proof (cases "pt_has_pair pt va")
  case True
  then show ?thesis using vm_map_pair [OF assms(1) True assms(2,4), of pa] that by auto
next
  case False
  then show ?thesis using vm_map_new [OF assms(1) False _ assms(4), of pa] assms(3) that by auto
qed

lemma copy_page_ok:
  assumes inv: "pp_inv (p_pool s)" "pp_pages (p_pool s) \<le> 2 ^ 19" "pp_free (p_pool s) \<noteq> {}"
    and tab: "pt_inv (p_tables s table)" "pt_lookup (p_tables s table) va = None"
    and room: "pt_has_pair (p_tables s table) va \<or> unat (valid_count (p_tables s table)) < PAGETABLE_ENTRIES"
    and f: "unat f < 2 ^ 19" "unat f \<notin> pp_free (p_pool s)"
  obtains g s' where "copy_page table va f d s = Inr s'" "unat g \<in> pp_free (p_pool s)" "unat g < 2 ^ 19" "pp_inv (p_pool s')"
    "pp_pages (p_pool s') = pp_pages (p_pool s)" "pp_free (p_pool s') = pp_free (p_pool s) - {unat g}" "pt_inv (p_tables s' table)"
    "unat (valid_count (p_tables s' table)) =
       (if pt_has_pair (p_tables s table) va then unat (valid_count (p_tables s table)) else Suc (unat (valid_count (p_tables s table))))"
    "\<forall>vb. pt_lookup (p_tables s' table) vb = (if same_page va vb then Some (g, d = 1) else pt_lookup (p_tables s table) vb)"
    "\<forall>t. t \<noteq> table \<longrightarrow> p_tables s' t = p_tables s t"
    "\<forall>h k. unat h < 2 ^ 19 \<and> k < 4096 \<longrightarrow> frame_byte (p_mem s') h k = frame_byte (p_mem s) (if h = g then f else h) k"
proof -
  obtain p pp where p: "pagepool_get_phys_page (p_pool s) = Inr (page_addr p, pp)" "p \<in> pp_free (p_pool s)" "pp_inv pp" "pp_free pp = pp_free (p_pool s) - {p}"
    using get_phys_page_some [OF inv(1,3)] by blast
  have pb: "1 \<le> p" "p < 2 ^ 20" "p < 2 ^ 19" using pp_free_bounds [OF inv(1) p(2)] p(2) inv(2) by (auto simp: pp_free_iff)
  define g :: "20 word" where "g = of_nat p"
  have g: "unat g = p" using pb(2) by (simp add: g_def unat_of_nat)
  have ga: "page_addr p = push_bit 12 (ucast g)" using page_addr_frame [of g] g by simp
  have ne: "f \<noteq> g" using f(2) p(2) g by auto
  obtain tb where tb: "vm_map (p_tables s table) (page_addr p) va (uint d) = Inr tb" "pt_inv tb"
    "unat (valid_count tb) = (if pt_has_pair (p_tables s table) va then unat (valid_count (p_tables s table)) else Suc (unat (valid_count (p_tables s table))))"
    "\<And>vb. pt_lookup tb vb = (if same_page va vb then Some (pfn_of (page_addr p), uint d = 1) else pt_lookup (p_tables s table) vb)"
    using vm_map_any [OF tab room, of "uint d" "page_addr p"] uint_bit(1) by blast
  let ?s = "s\<lparr>p_pool := pp, p_tables := (p_tables s)(table := tb), p_mem := memcopy 4096 (p_mem s) (frame_addr g) (frame_addr f)\<rparr>"
  have "copy_page table va f d s = Inr ?s"
    using p(1) tb(1) page_addr_nonzero [OF pb(1,2)] ga by (simp add: copy_page_def frame_addr_def)
  moreover have "pp_pages pp = pp_pages (p_pool s)" using get_phys_page_frame [OF p(1)] by simp
  moreover have "pfn_of (page_addr p) = g" using pfn_page [OF pb(2)] by (simp add: g_def)
  ultimately show ?thesis
    using that [of ?s g] p(2-4) pb(3) g tb(2-4) uint_bit(2) frame_copy [OF f(1) _ _ _ ne, of _ _ "p_mem s"] by simp
qed

section \<open>Copying the address space\<close>

text \<open>
  \<open>L\<close> is the part of the parent's address space that has been copied: each page has a page of its
  own in the child, with the same contents as before and the same protection, and all other
  frames are as they were.
\<close>

definition space_copy :: "mem \<Rightarrow> (u32 \<Rightarrow> (20 word \<times> bool) option) \<Rightarrow> mem \<Rightarrow> (u32 \<Rightarrow> (20 word \<times> bool) option) \<Rightarrow> nat set \<Rightarrow> bool" where
  "space_copy m0 L m L' F \<longleftrightarrow>
     (\<forall>va. case L va of None \<Rightarrow> L' va = None
        | Some (f, w) \<Rightarrow> \<exists>g. L' va = Some (g, w) \<and> unat g \<in> F \<and> (\<forall>k < 4096. frame_byte m g k = frame_byte m0 f k))
     \<and> (\<forall>va vb g w w'. L' va = Some (g, w) \<and> L' vb = Some (g, w') \<longrightarrow> same_page va vb)"

definition fork_inv :: "u32 \<Rightarrow> proc_t \<Rightarrow> (u32 \<Rightarrow> (20 word \<times> bool) option) \<Rightarrow> proc_t \<Rightarrow> bool" where
  "fork_inv table s0 L s \<longleftrightarrow> pp_inv (p_pool s) \<and> pp_pages (p_pool s) = pp_pages (p_pool s0) \<and> pp_free (p_pool s) \<subseteq> pp_free (p_pool s0)
     \<and> pt_inv (p_tables s table) \<and> (\<forall>t. t \<noteq> table \<longrightarrow> p_tables s t = p_tables s0 t)
     \<and> (\<forall>h k. unat h < 2 ^ 19 \<and> k < 4096 \<and> unat h \<notin> pp_free (p_pool s0) - pp_free (p_pool s) \<longrightarrow> frame_byte (p_mem s) h k = frame_byte (p_mem s0) h k)
     \<and> space_copy (p_mem s0) L (p_mem s) (pt_lookup (p_tables s table)) (pp_free (p_pool s0) - pp_free (p_pool s))"

lemma same_page_trans: "same_page a b \<Longrightarrow> same_page a c \<Longrightarrow> same_page b c"
  by (simp add: same_page_def)

lemma space_copy_add:
  assumes sc: "space_copy m0 L m L' F" and g: "unat g \<notin> F" "\<And>k. k < 4096 \<Longrightarrow> frame_byte m' g k = frame_byte m0 f k"
    and m: "\<And>h k. unat h \<in> F \<Longrightarrow> k < 4096 \<Longrightarrow> frame_byte m' h k = frame_byte m h k"
  shows "space_copy m0 (\<lambda>vb. if same_page va vb then Some (f, w) else L vb) m' (\<lambda>vb. if same_page va vb then Some (g, w) else L' vb) (insert (unat g) F)"
proof -
  have in_F: "unat h \<in> F" if "L' vb = Some (h, w')" for vb h w'
    using sc that unfolding space_copy_def by (cases "L vb") (fastforce dest: spec [of _ vb])+
  have old: "case L vb of None \<Rightarrow> L' vb = None
        | Some (f, w) \<Rightarrow> \<exists>g'. L' vb = Some (g', w) \<and> unat g' \<in> insert (unat g) F \<and> (\<forall>k < 4096. frame_byte m' g' k = frame_byte m0 f k)" for vb
  proof (cases "L vb")
    case None
    then show ?thesis using sc by (auto simp: space_copy_def dest: spec [of _ vb])
  next
    case (Some x)
    then obtain f' w' where "L vb = Some (f', w')" by (cases x) simp
    then show ?thesis using sc m by (auto simp: space_copy_def dest!: spec [of _ vb])
  qed
  have inj: "same_page vb vc" if "L' vb = Some (h, w1)" "L' vc = Some (h, w2)" for vb vc h w1 w2
    using sc that unfolding space_copy_def by blast
  have ng: "L' vb \<noteq> Some (g, w')" for vb w' using in_F g(1) by blast
  show ?thesis
    unfolding space_copy_def
  proof (intro conjI allI impI)
    fix vb
    show "case if same_page va vb then Some (f, w) else L vb of None \<Rightarrow> (if same_page va vb then Some (g, w) else L' vb) = None
        | Some (f, w') \<Rightarrow> \<exists>g'. (if same_page va vb then Some (g, w) else L' vb) = Some (g', w') \<and> unat g' \<in> insert (unat g) F
            \<and> (\<forall>k < 4096. frame_byte m' g' k = frame_byte m0 f k)"
      using old [of vb] g(2) by (cases "same_page va vb") (auto simp: old)
  next
    fix vb vc h w1 w2
    assume "(if same_page va vb then Some (g, w) else L' vb) = Some (h, w1) \<and> (if same_page va vc then Some (g, w) else L' vc) = Some (h, w2)"
    then show "same_page vb vc"
      using inj [of vb h w1 vc w2] ng [of vb w1] ng [of vc w2] same_page_trans [of va vb vc]
      by (cases "same_page va vb"; cases "same_page va vc") simp_all
  qed
qed

lemma space_copy_none: "space_copy m0 L m L' F \<Longrightarrow> L va = None \<Longrightarrow> L' va = None"
  unfolding space_copy_def by (drule conjunct1, drule spec [of _ va]) simp

lemma fork_invD:
  assumes "fork_inv table s0 L s"
  shows "pp_inv (p_pool s)" "pp_pages (p_pool s) = pp_pages (p_pool s0)" "pp_free (p_pool s) \<subseteq> pp_free (p_pool s0)"
    "pt_inv (p_tables s table)" "\<And>t. t \<noteq> table \<Longrightarrow> p_tables s t = p_tables s0 t"
    "\<And>h k. unat h < 2 ^ 19 \<Longrightarrow> k < 4096 \<Longrightarrow> unat h \<notin> pp_free (p_pool s0) - pp_free (p_pool s) \<Longrightarrow> frame_byte (p_mem s) h k = frame_byte (p_mem s0) h k"
    "space_copy (p_mem s0) L (p_mem s) (pt_lookup (p_tables s table)) (pp_free (p_pool s0) - pp_free (p_pool s))"
  using assms unfolding fork_inv_def by blast+

lemma copy_page_step:
  assumes inv: "fork_inv table s0 L s" and p: "pp_pages (p_pool s0) \<le> 2 ^ 19" "pp_free (p_pool s) \<noteq> {}"
    and va: "L va = None" and room: "pt_has_pair (p_tables s table) va \<or> unat (valid_count (p_tables s table)) < PAGETABLE_ENTRIES"
    and f: "unat f < 2 ^ 19" "unat f \<notin> pp_free (p_pool s0)"
  obtains s' where "copy_page table va f d s = Inr s'" "fork_inv table s0 (\<lambda>vb. if same_page va vb then Some (f, d = 1) else L vb) s'"
    "card (pp_free (p_pool s)) = Suc (card (pp_free (p_pool s')))"
    "unat (valid_count (p_tables s' table)) =
       (if pt_has_pair (p_tables s table) va then unat (valid_count (p_tables s table)) else Suc (unat (valid_count (p_tables s table))))"
proof -
  note i = fork_invD [OF inv]
  have none: "pt_lookup (p_tables s table) va = None" using space_copy_none [OF i(7) va] .
  have pb: "pp_pages (p_pool s) \<le> 2 ^ 19" "unat f \<notin> pp_free (p_pool s)" using i(2,3) p(1) f(2) by auto
  obtain g s' where g: "copy_page table va f d s = Inr s'" "unat g \<in> pp_free (p_pool s)" "unat g < 2 ^ 19" "pp_inv (p_pool s')"
    "pp_pages (p_pool s') = pp_pages (p_pool s)" "pp_free (p_pool s') = pp_free (p_pool s) - {unat g}" "pt_inv (p_tables s' table)"
    "unat (valid_count (p_tables s' table)) =
       (if pt_has_pair (p_tables s table) va then unat (valid_count (p_tables s table)) else Suc (unat (valid_count (p_tables s table))))"
    "\<forall>vb. pt_lookup (p_tables s' table) vb = (if same_page va vb then Some (g, d = 1) else pt_lookup (p_tables s table) vb)"
    "\<forall>t. t \<noteq> table \<longrightarrow> p_tables s' t = p_tables s t"
    "\<forall>h k. unat h < 2 ^ 19 \<and> k < 4096 \<longrightarrow> frame_byte (p_mem s') h k = frame_byte (p_mem s) (if h = g then f else h) k"
    by (rule copy_page_ok [OF i(1) pb(1) p(2) i(4) none room f(1) pb(2), of d])
  let ?F = "pp_free (p_pool s0) - pp_free (p_pool s)"
  have F: "pp_free (p_pool s0) - pp_free (p_pool s') = insert (unat g) ?F" using g(2,6) i(3) by auto
  have small: "unat h < 2 ^ 19" if "unat h \<in> pp_free (p_pool s0)" for h :: "20 word" using that p(1) by (auto simp: pp_free_iff)
  have sc: "space_copy (p_mem s0) (\<lambda>vb. if same_page va vb then Some (f, d = 1) else L vb) (p_mem s')
      (\<lambda>vb. if same_page va vb then Some (g, d = 1) else pt_lookup (p_tables s table) vb) (insert (unat g) ?F)"
  proof (rule space_copy_add)
    show "space_copy (p_mem s0) L (p_mem s) (pt_lookup (p_tables s table)) ?F" using i(7) .
    show "unat g \<notin> ?F" using g(2) by simp
    show "frame_byte (p_mem s') g k = frame_byte (p_mem s0) f k" if "k < 4096" for k
      using g(3,11) i(6) [of f k] f that by simp
    show "frame_byte (p_mem s') h k = frame_byte (p_mem s) h k" if h: "unat h \<in> ?F" "k < 4096" for h k
    proof -
      have "h \<noteq> g" using h(1) g(2) by auto
      then show ?thesis using g(11) small h by simp
    qed
  qed
  have fr: "frame_byte (p_mem s') h k = frame_byte (p_mem s0) h k" if "unat h < 2 ^ 19" "k < 4096" "unat h \<notin> insert (unat g) ?F" for h k
    using g(11) that i(6) [of h k] by auto
  have "fork_inv table s0 (\<lambda>vb. if same_page va vb then Some (f, d = 1) else L vb) s'"
    unfolding fork_inv_def F
  proof (intro conjI allI impI)
    show "pp_free (p_pool s') \<subseteq> pp_free (p_pool s0)" using g(6) i(3) by blast
    show "space_copy (p_mem s0) (\<lambda>vb. if same_page va vb then Some (f, d = 1) else L vb) (p_mem s') (pt_lookup (p_tables s' table)) (insert (unat g) ?F)"
      using sc g(9) by presburger
  qed (use g(4,5,7,10) i(2,5) fr in auto)
  moreover have "card (pp_free (p_pool s)) = Suc (card (pp_free (p_pool s')))" using g(2,6) finite_pp_free by (metis card_Suc_Diff1)
  ultimately show ?thesis using that g(1,8) by blast
qed

lemma even_va: "vpn2_of (push_bit 13 (ucast v)) = v" "\<not> bit (push_bit 13 (ucast v) :: u32) 12"
proof -
  show "vpn2_of (push_bit 13 (ucast v)) = v"
    by (rule bit_word_eqI) (auto simp: vpn2_of_def bit_ucast_iff bit_drop_bit_eq bit_push_bit_iff)
  show "\<not> bit (push_bit 13 (ucast v) :: u32) 12" by (simp add: bit_push_bit_iff)
qed

lemma odd_va: "vpn2_of (push_bit 13 (ucast v) OR 4096) = v" "bit (push_bit 13 (ucast v) OR 4096 :: u32) 12"
proof -
  have e: "(4096 :: u32) = 2 ^ 12" by simp
  show "vpn2_of (push_bit 13 (ucast v) OR 4096) = v"
    unfolding e by (rule bit_word_eqI) (auto simp: vpn2_of_def bit_ucast_iff bit_drop_bit_eq bit_push_bit_iff bit_or_iff bit_exp_iff simp del: power_numeral)
  show "bit (push_bit 13 (ucast v) OR 4096 :: u32) 12" unfolding e by (simp add: bit_or_iff bit_exp_iff del: power_numeral)
qed

text \<open>The frames of an entry are below 2 GB and in use.\<close>

definition entry_frames :: "tlb_entry_t \<Rightarrow> (20 word) list" where
  "entry_frames e = (if V0 e = 1 then [PFN0 e] else []) @ (if V1 e = 1 then [PFN1 e] else [])"

lemma nz_bit: "(v :: 1 word) \<noteq> 0 \<longleftrightarrow> v = 1"
  using bit1_cases [of v] by auto

lemma copy_entry_step:
  assumes inv: "fork_inv table s0 L s" and p: "pp_pages (p_pool s0) \<le> 2 ^ 19" "length (entry_frames e) \<le> card (pp_free (p_pool s))"
    and va: "\<And>vb. vpn2_of vb = VPN2 e \<Longrightarrow> L vb = None" and room: "unat (valid_count (p_tables s table)) < PAGETABLE_ENTRIES"
    and f: "\<And>f. f \<in> set (entry_frames e) \<Longrightarrow> unat f < 2 ^ 19 \<and> unat f \<notin> pp_free (p_pool s0)"
  obtains s' where "copy_entry table e s = Inr s'" "fork_inv table s0 (\<lambda>vb. if vpn2_of vb = VPN2 e then entry_lookup e (bit vb 12) else L vb) s'"
    "card (pp_free (p_pool s)) = length (entry_frames e) + card (pp_free (p_pool s'))"
    "unat (valid_count (p_tables s' table)) \<le> Suc (unat (valid_count (p_tables s table)))"
proof -
  let ?va = "push_bit 13 (ucast (VPN2 e)) :: u32" and ?vb = "push_bit 13 (ucast (VPN2 e)) OR 4096 :: u32"
  let ?L1 = "\<lambda>vb. if same_page ?va vb \<and> V0 e = 1 then Some (PFN0 e, D0 e = 1) else L vb"
  obtain s1 where s1: "(if V0 e \<noteq> 0 then copy_page table ?va (PFN0 e) (D0 e) s else Inr s) = Inr s1" "fork_inv table s0 ?L1 s1"
    "card (pp_free (p_pool s)) = (if V0 e = 1 then 1 else 0) + card (pp_free (p_pool s1))"
    "unat (valid_count (p_tables s1 table)) \<le> Suc (unat (valid_count (p_tables s table)))"
    "V0 e = 0 \<Longrightarrow> unat (valid_count (p_tables s1 table)) < PAGETABLE_ENTRIES"
  proof (cases "V0 e = 1")
    case True
    have v: "pp_free (p_pool s) \<noteq> {}" "L ?va = None" "unat (PFN0 e) < 2 ^ 19" "unat (PFN0 e) \<notin> pp_free (p_pool s0)"
      using p(2) True va even_va(1) f by (auto simp: entry_frames_def)
    obtain s1 where "copy_page table ?va (PFN0 e) (D0 e) s = Inr s1" "fork_inv table s0 (\<lambda>vb. if same_page ?va vb then Some (PFN0 e, D0 e = 1) else L vb) s1"
      "card (pp_free (p_pool s)) = Suc (card (pp_free (p_pool s1)))"
      "unat (valid_count (p_tables s1 table)) =
         (if pt_has_pair (p_tables s table) ?va then unat (valid_count (p_tables s table)) else Suc (unat (valid_count (p_tables s table))))"
      by (rule copy_page_step [OF inv p(1) v(1,2) disjI2 [OF room] v(3,4), of "D0 e"])
    then show ?thesis using that True by auto
  next
    case False
    then show ?thesis using that [of s] inv room nz_bit [of "V0 e"] by auto
  qed
  let ?L2 = "\<lambda>vb. if same_page ?vb vb \<and> V1 e = 1 then Some (PFN1 e, D1 e = 1) else ?L1 vb"
  obtain s2 where s2: "(if V1 e \<noteq> 0 then copy_page table ?vb (PFN1 e) (D1 e) s1 else Inr s1) = Inr s2" "fork_inv table s0 ?L2 s2"
    "card (pp_free (p_pool s1)) = (if V1 e = 1 then 1 else 0) + card (pp_free (p_pool s2))"
    "unat (valid_count (p_tables s2 table)) \<le> Suc (unat (valid_count (p_tables s table)))"
  proof (cases "V1 e = 1")
    case True
    have v: "pp_free (p_pool s1) \<noteq> {}" "?L1 ?vb = None" "unat (PFN1 e) < 2 ^ 19" "unat (PFN1 e) \<notin> pp_free (p_pool s0)"
      using p(2) s1(3) True va odd_va even_va(2) f by (auto simp: entry_frames_def same_page_iff split: if_splits)
    have pair: "pt_has_pair (p_tables s1 table) ?vb" if "V0 e = 1"
    proof -
      have "?L1 ?va = Some (PFN0 e, D0 e = 1)" using that by (simp add: same_page_def)
      then have "pt_lookup (p_tables s1 table) ?va \<noteq> None"
        using fork_invD(7) [OF s1(2)] unfolding space_copy_def by (auto dest!: spec [of _ ?va])
      then have "pt_has_pair (p_tables s1 table) ?va" by (rule lookup_has_pair)
      then show ?thesis by (simp add: pt_has_pair_def even_va odd_va)
    qed
    have r: "pt_has_pair (p_tables s1 table) ?vb \<or> unat (valid_count (p_tables s1 table)) < PAGETABLE_ENTRIES"
      using pair s1(5) bit1_cases [of "V0 e"] by blast
    obtain s2 where "copy_page table ?vb (PFN1 e) (D1 e) s1 = Inr s2" "fork_inv table s0 (\<lambda>vb. if same_page ?vb vb then Some (PFN1 e, D1 e = 1) else ?L1 vb) s2"
      "card (pp_free (p_pool s1)) = Suc (card (pp_free (p_pool s2)))"
      "unat (valid_count (p_tables s2 table)) =
         (if pt_has_pair (p_tables s1 table) ?vb then unat (valid_count (p_tables s1 table)) else Suc (unat (valid_count (p_tables s1 table))))"
      by (rule copy_page_step [OF s1(2) p(1) v(1,2) r v(3,4), of "D1 e"])
    then show ?thesis using that True s1(1,4) pair bit1_cases [of "V0 e"] by (auto split: if_splits)
  next
    case False
    then show ?thesis using that [of s1] s1 nz_bit [of "V1 e"] by auto
  qed
  have "?L2 = (\<lambda>vb. if vpn2_of vb = VPN2 e then entry_lookup e (bit vb 12) else L vb)"
    using va even_va [of "VPN2 e"] odd_va [of "VPN2 e"] by (auto simp: fun_eq_iff same_page_iff entry_lookup_def)
  moreover have "copy_entry table e s = Inr s2" using s1(1) s2(1) by (simp add: copy_entry_def)
  ultimately show ?thesis using that s2(2-4) s1(3) by (simp add: entry_frames_def)
qed

definition part_lookup :: "tlb_entry_t list \<Rightarrow> u32 \<Rightarrow> (20 word \<times> bool) option" where
  "part_lookup es va = (case find (\<lambda>e. VPN2 e = vpn2_of va) es of None \<Rightarrow> None | Some e \<Rightarrow> entry_lookup e (bit va 12))"

definition table_frames :: "pagetable_t \<Rightarrow> (20 word) list" where
  "table_frames pt = concat (map entry_frames (used pt))"

lemma find_vpn_none: "v \<notin> VPN2 ` set es \<Longrightarrow> find (\<lambda>e. VPN2 e = v) es = None"
  by (induction es) auto

lemma part_lookup_none: "v \<notin> VPN2 ` set es \<Longrightarrow> vpn2_of vb = v \<Longrightarrow> part_lookup es vb = None"
  by (simp add: part_lookup_def find_vpn_none)

lemma part_lookup_append:
  assumes "VPN2 e \<notin> VPN2 ` set es"
  shows "part_lookup (es @ [e]) = (\<lambda>vb. if vpn2_of vb = VPN2 e then entry_lookup e (bit vb 12) else part_lookup es vb)"
proof
  fix vb
  show "part_lookup (es @ [e]) vb = (if vpn2_of vb = VPN2 e then entry_lookup e (bit vb 12) else part_lookup es vb)"
    using find_vpn_none [OF assms] by (cases "vpn2_of vb = VPN2 e"; cases "find (\<lambda>e. VPN2 e = vpn2_of vb) es") (simp_all add: part_lookup_def find_append)
qed

lemma copy_loop_ok:
  assumes par: "par \<noteq> table" "pt_inv (p_tables s0 par)" and p: "pp_pages (p_pool s0) \<le> 2 ^ 19"
    and f: "\<And>f. f \<in> set (table_frames (p_tables s0 par)) \<Longrightarrow> unat f < 2 ^ 19 \<and> unat f \<notin> pp_free (p_pool s0)"
    and i: "i + n = length (used (p_tables s0 par))" "fork_inv table s0 (part_lookup (take i (used (p_tables s0 par)))) s"
    and free: "length (concat (map entry_frames (drop i (used (p_tables s0 par))))) \<le> card (pp_free (p_pool s))"
    and vc: "unat (valid_count (p_tables s table)) \<le> i"
  shows "\<exists>s'. copy_loop table par i n s = Inr s' \<and> fork_inv table s0 (pt_lookup (p_tables s0 par)) s'
    \<and> card (pp_free (p_pool s)) = length (concat (map entry_frames (drop i (used (p_tables s0 par))))) + card (pp_free (p_pool s'))"
  using i free vc
proof (induction n arbitrary: i s)
  case 0
  then show ?case by (simp add: part_lookup_def [abs_def] pt_lookup_def [abs_def])
next
  case (Suc n)
  let ?es = "used (p_tables s0 par)"
  define e where "e = ?es ! i"
  have il: "i < length ?es" using Suc.prems(1) by simp
  have dr: "drop i ?es = e # drop (Suc i) ?es" and tk: "take (Suc i) ?es = take i ?es @ [e]"
    using il by (simp_all add: e_def Cons_nth_drop_Suc take_Suc_conv_app_nth)
  have "distinct (map VPN2 (take (Suc i) ?es))" using par(2) by (metis pt_inv_def take_map distinct_take)
  then have new: "VPN2 e \<notin> VPN2 ` set (take i ?es)" by (simp add: tk)
  have "p_tables s par = p_tables s0 par" using fork_invD(5) [OF Suc.prems(2)] par(1) by blast
  then have ge: "aget (entries (p_tables s par)) (int i) = Inr e"
    using il par(2) by (simp add: aget_def e_def used_def pt_inv_def)
  have fe: "unat f < 2 ^ 19 \<and> unat f \<notin> pp_free (p_pool s0)" if "f \<in> set (entry_frames e)" for f
    using f [of f] that nth_mem [OF il] by (auto simp: table_frames_def e_def)
  have room: "unat (valid_count (p_tables s table)) < PAGETABLE_ENTRIES"
    using Suc.prems(4) il length_used [OF par(2)] par(2) by (simp add: pt_inv_def)
  obtain s1 where s1: "copy_entry table e s = Inr s1"
    "fork_inv table s0 (\<lambda>vb. if vpn2_of vb = VPN2 e then entry_lookup e (bit vb 12) else part_lookup (take i ?es) vb) s1"
    "card (pp_free (p_pool s)) = length (entry_frames e) + card (pp_free (p_pool s1))"
    "unat (valid_count (p_tables s1 table)) \<le> Suc (unat (valid_count (p_tables s table)))"
    by (rule copy_entry_step [OF Suc.prems(2) p _ part_lookup_none [OF new] room fe]) (use Suc.prems(3) dr in auto)
  have "fork_inv table s0 (part_lookup (take (Suc i) ?es)) s1" using s1(2) part_lookup_append [OF new] tk by simp
  from Suc.IH [OF _ this] Suc.prems(1,3,4) s1(3,4) dr obtain s' where
    "copy_loop table par (Suc i) n s1 = Inr s'" "fork_inv table s0 (pt_lookup (p_tables s0 par)) s'"
    "card (pp_free (p_pool s1)) = length (concat (map entry_frames (drop (Suc i) ?es))) + card (pp_free (p_pool s'))" by auto
  then show ?case using ge s1(1,3) dr by simp
qed

lemma space_copy_mono:
  assumes sc: "space_copy m0 L m L' F" and sub: "F \<subseteq> G"
  shows "space_copy m0 L m L' G"
proof -
  have "case L va of None \<Rightarrow> L' va = None
      | Some (f, w) \<Rightarrow> \<exists>g. L' va = Some (g, w) \<and> unat g \<in> G \<and> (\<forall>k < 4096. frame_byte m g k = frame_byte m0 f k)" for va
    using conjunct1 [OF sc [unfolded space_copy_def], THEN spec, of va] sub by (cases "L va") auto
  then show ?thesis using sc unfolding space_copy_def by blast
qed

lemma fork_inv_start:
  assumes "pp_inv (p_pool s)" "length (entries (p_tables s table)) = PAGETABLE_ENTRIES" "valid_count (p_tables s table) = 0"
  shows "fork_inv table s (part_lookup []) s"
  using assms fresh_table [of "p_tables s table"] by (simp add: fork_inv_def space_copy_def part_lookup_def)

lemma fork_copy_ok:
  assumes k: "kinv (kst s) rs qs" "c < 4" and pid: "process_get_current_process_entry s c = Inr me"
    and i: "thread_get_thread_entry_by_pid (kst s) (parent me) = Some i" "pagetable (thread_table (kst s) ! i) = tp" "tp \<noteq> 0" "tp \<noteq> table"
    and tp: "pt_inv (p_tables s tp)" "\<And>f. f \<in> set (table_frames (p_tables s tp)) \<Longrightarrow> unat f < 2 ^ 19 \<and> unat f \<notin> pp_free (p_pool s)"
    and pool: "pp_inv (p_pool s)" "pp_pages (p_pool s) \<le> 2 ^ 19" "length (table_frames (p_tables s tp)) \<le> card (pp_free (p_pool s))"
    and table: "length (entries (p_tables s table)) = PAGETABLE_ENTRIES" "valid_count (p_tables s table) = 0"
  shows "\<exists>s'. fork_copy table s c = Inr ((contexts (kst s) (user_context (thread_table (kst s) ! i)))
        \<lparr>cpu_regs := (cpu_regs (contexts (kst s) (user_context (thread_table (kst s) ! i))))[MIPS_REGISTER_V0 := 0],
         pc := pc (contexts (kst s) (user_context (thread_table (kst s) ! i))) + 4\<rparr>, s')
    \<and> fork_inv table s (pt_lookup (p_tables s tp)) s' \<and> kst s' = kst s
    \<and> card (pp_free (p_pool s)) = length (table_frames (p_tables s tp)) + card (pp_free (p_pool s'))"
proof -
  have "\<exists>s'. copy_loop table tp 0 (unat (valid_count (p_tables s tp))) s = Inr s' \<and> fork_inv table s (pt_lookup (p_tables s tp)) s'
      \<and> card (pp_free (p_pool s)) = length (concat (map entry_frames (drop 0 (used (p_tables s tp))))) + card (pp_free (p_pool s'))"
    by (rule copy_loop_ok [OF i(4) tp(1) pool(2) tp(2)])
      (use length_used [OF tp(1)] fork_inv_start [OF pool(1) table] pool(3) table(2) in \<open>auto simp: table_frames_def\<close>)
  then obtain s' where s': "copy_loop table tp 0 (unat (valid_count (p_tables s tp))) s = Inr s'" "fork_inv table s (pt_lookup (p_tables s tp)) s'"
    "card (pp_free (p_pool s)) = length (table_frames (p_tables s tp)) + card (pp_free (p_pool s'))" by (auto simp: table_frames_def)
  have "kst s' = kst s" using copy_loop_frame [OF s'(1)] by simp
  then show ?thesis using s' pid i(1-3) by (simp add: fork_copy_def Let_def)
qed

text \<open>The state in which the child starts to copy.\<close>

definition fork_child :: "proc_t \<Rightarrow> int \<Rightarrow> nat \<Rightarrow> pagepool \<Rightarrow> kstate \<Rightarrow> proc_t" where
  "fork_child s t p pp k =
     (set_kst s k)\<lparr>p_pool := pp, p_tables := (p_tables s)(ADDR_PHYS_TO_KERNEL (page_addr p) :=
        (p_tables s (ADDR_PHYS_TO_KERNEL (page_addr p)))\<lparr>pt_ASID := of_int t, valid_count := 0\<rparr>)\<rparr>"

lemma fork_child_simps [simp]:
  "kst (fork_child s t p pp k) = k" "process_table (fork_child s t p pp k) = process_table s" "p_pool (fork_child s t p pp k) = pp"
  "p_mem (fork_child s t p pp k) = p_mem s" "u \<noteq> ADDR_PHYS_TO_KERNEL (page_addr p) \<Longrightarrow> p_tables (fork_child s t p pp k) u = p_tables s u"
  "valid_count (p_tables (fork_child s t p pp k) (ADDR_PHYS_TO_KERNEL (page_addr p))) = 0"
  "entries (p_tables (fork_child s t p pp k) u) = entries (p_tables s u)"
  by (simp_all add: fork_child_def)

lemma fork_prepare_start:
  assumes k: "kinv (kst s) rs qs" "running (kst s) c" and l: "length (process_table s) = 32"
    and t: "scheduler_current_thread (kst s) ! c = t" "pagetable (th (kst s) t) = 0" and pid: "0 \<le> pid" "pid < 32"
    and pool: "pp_inv (p_pool s)" "pp_free (p_pool s) \<noteq> {}"
  obtains p pq k2 where "fork_prepare pid s c = fork_copy (ADDR_PHYS_TO_KERNEL (page_addr p)) (fork_child s t p pq k2) c"
    "p \<in> pp_free (p_pool s)" "pp_inv pq" "pp_free pq = pp_free (p_pool s) - {p}" "pp_pages pq = pp_pages (p_pool s)" "kinv k2 rs qs"
    "thread_table k2 = (thread_table (kst s))[nat t := (th (kst s) t)\<lparr>process_id := pid, pagetable := ADDR_PHYS_TO_KERNEL (page_addr p)\<rparr>]"
    "contexts k2 = contexts (kst s)" "process_get_current_process_entry (fork_child s t p pq k2) c = Inr (process_table s ! nat pid)"
proof -
  note r = running_tid [OF k, unfolded t(1)]
  have tb: "0 \<le> t" "nat t < 32" using tid_okD [OF r(2)] by auto
  obtain p pq where p: "pagepool_get_phys_page (p_pool s) = Inr (page_addr p, pq)" "p \<in> pp_free (p_pool s)" "pp_inv pq" "pp_free pq = pp_free (p_pool s) - {p}"
    using get_phys_page_some [OF pool] by blast
  let ?table = "ADDR_PHYS_TO_KERNEL (page_addr p)"
  have pz: "page_addr p \<noteq> 0" using page_addr_nonzero pp_free_bounds [OF pool(1) p(2)] by blast
  obtain k1 where k1: "upd_thread (kst s) t (\<lambda>th. th\<lparr>process_id := pid\<rparr>) = Inr k1" "kinv k1 rs qs"
    "k1 = (kst s)\<lparr>thread_table := (thread_table (kst s))[nat t := (th (kst s) t)\<lparr>process_id := pid\<rparr>]\<rparr>"
    using kinv_fields [OF k(1) r(2), of "\<lambda>th. th\<lparr>process_id := pid\<rparr>"] by auto
  have th1: "th k1 t = (th (kst s) t)\<lparr>process_id := pid\<rparr>" "length (thread_table k1) = 32" using k1(3) r(4) tb by auto
  obtain k2 where k2: "upd_thread k1 t (\<lambda>th. th\<lparr>pagetable := ?table\<rparr>) = Inr k2" "kinv k2 rs qs"
    "k2 = k1\<lparr>thread_table := (thread_table k1)[nat t := (th k1 t)\<lparr>pagetable := ?table\<rparr>]\<rparr>"
    using kinv_fields [OF k1(2) r(2), of "\<lambda>th. th\<lparr>pagetable := ?table\<rparr>"] by auto
  have tt: "thread_table k2 = (thread_table (kst s))[nat t := (th (kst s) t)\<lparr>process_id := pid, pagetable := ?table\<rparr>]"
    using k2(3) k1(3) th1 by simp
  have cur: "scheduler_current_thread k2 ! c = t" "contexts k2 = contexts (kst s)" using k2(3) k1(3) t(1) by simp_all
  have "process_get_current_process_entry (fork_child s t p pq k2) c = Inr (process_table s ! nat pid)"
    using current_process_eq(1) [OF k2(2) r(1)] cur tt tb r(4) l pid by (simp add: process_get_current_process_entry_def aget_def)
  moreover have "fork_prepare pid s c = fork_copy ?table (fork_child s t p pq k2) c"
    using k1(1) k2(1) current_process_eq(2) [OF k(1) r(1)] t p(1) pz kernel_nonzero th1 tb get_thread_eq [of t k1]
    by (simp add: fork_prepare_def vm_create_pagetable_def fork_child_def Let_def)
  ultimately show ?thesis using that p(2-4) k2(2) tt cur(2) get_phys_page_frame [OF p(1)] by metis
qed

end
