(* ===== verification/Processes.thy ===== *)
theory Processes
  imports Process_Fork
begin

text \<open>
  The properties of processes: waiting for a process to end, growing its heap, and forking.
\<close>

section \<open>Starting\<close>

text \<open>Thread \<open>t\<close> starts in \<open>func\<close> with the argument \<open>arg\<close> and returns to \<open>fin\<close>.\<close>

definition thread_starts :: "kstate \<Rightarrow> int \<Rightarrow> u32 \<Rightarrow> u32 \<Rightarrow> u32 \<Rightarrow> bool" where
  "thread_starts k t func arg fin \<longleftrightarrow>
     (let ctx = contexts k (context_p (th k t))
      in pc ctx = func \<and> cpu_regs ctx ! MIPS_REGISTER_A0 = arg \<and> cpu_regs ctx ! MIPS_REGISTER_RA = fin)"

lemma upd_thread_context:
  "upd_thread k t f = Inr k' \<Longrightarrow> (\<And>x. context_p (f x) = context_p x) \<Longrightarrow> contexts k' = contexts k \<and> context_p (th k' u) = context_p (th k u)"
  by (auto simp: upd_thread_def rbind_Inr_iff aget_Inr_iff aset_Inr_iff nth_list_update)

lemma add_ready_context:
  assumes "scheduler_add_ready k t = Inr k'"
  shows "contexts k' = contexts k" "context_p (th k' u) = context_p (th k u)"
proof -
  obtain k1 where k1: "scheduler_add_to_ready_list k t = Inr k1" "upd_thread k1 t (\<lambda>th. th\<lparr>state := THREAD_READY\<rparr>) = Inr k'"
    using assms by (auto simp: scheduler_add_ready_def rbind_Inr_iff)
  have "contexts k1 = contexts k \<and> context_p (th k1 u) = context_p (th k u)"
    using k1(1) by (auto simp: scheduler_add_to_ready_list_def rbind_Inr_iff split: if_splits dest!: upd_thread_context [where u = u])
  then show "contexts k' = contexts k" "context_p (th k' u) = context_p (th k u)"
    using upd_thread_context [OF k1(2), of u] by simp_all
qed

lemma run_starts: "thread_run k t = Inr k' \<Longrightarrow> thread_starts k' t func arg fin = thread_starts k t func arg fin"
  using add_ready_context [of k t k'] by (simp add: thread_run_def thread_starts_def)

lemma create_starts: "thread_create stacks fin k func arg = Inr (t, k') \<Longrightarrow> 0 \<le> t \<Longrightarrow> thread_starts k' t func arg fin"
  by (auto simp: thread_create_def thread_starts_def upd_thread_def rbind_Inr_iff aget_Inr_iff aset_Inr_iff Let_def nat_less_iff split: if_splits)

text \<open>
  C30. \<^verbatim>\<open>process_spawn\<close> takes the first free slot of the process table, or returns
  PROCESS_PTABLE_FULL and changes nothing when there is none. The slot gets the name of the
  program, at most 63 characters of it, and the caller as its parent. With a free thread the
  result is the number of the slot; the thread is set to start in \<^verbatim>\<open>process_start\<close> with this
  number as its argument and is put at the end of the ready list. When all threads are in use the
  result is PROCESS_TTABLE_FULL, but the slot stays taken by a process that does not exist.
\<close>

theorem spawn_correct:
  assumes s: "proc_inv base s" and k: "kinv (kst s) rs qs" and c: "c < 4"
    and exe: "cstr w exe" "\<And>q. q < 32 \<Longrightarrow> length (executable (process_table s ! q)) = 64"
    and i: "first_index (\<lambda>p. p_state p = PROCESS_FREE) (process_table s) = i"
  shows "if i = 32 then process_spawn stacks fin start s c exe = Inr (PROCESS_PTABLE_FULL, s)
    else \<exists>x s'. cstr (take 63 w) x \<and> proc_inv base s'
      \<and> process_table s' = (process_table s)[i := (process_table s ! i)\<lparr>p_state := PROCESS_RUNNING, executable := x,
           parent := process_id (th (kst s) (scheduler_current_thread (kst s) ! c))\<rparr>]
      \<and> (if \<exists>u. tid_ok u \<and> state (th (kst s) u) = THREAD_FREE
         then process_spawn stacks fin start s c exe = Inr (int i, s')
           \<and> (\<exists>t. tid_ok t \<and> state (th (kst s) t) = THREAD_FREE \<and> thread_starts (kst s') t start (of_nat i) fin \<and> kinv (kst s') (rs @ [t]) qs)
         else process_spawn stacks fin start s c exe = Inr (PROCESS_TTABLE_FULL, s') \<and> kst s' = kst s)"
proof -
  have l: "length (process_table s) = 32" using proc_invD [OF s] by blast
  let ?free = "\<exists>u. tid_ok u \<and> state (th (kst s) u) = THREAD_FREE"
  show ?thesis
  proof (cases "i = 32")
    case True
    then have "alloc_process_id (process_table s) = (32, process_table s)" using i l by (simp add: alloc_process_id_def)
    then show ?thesis using True by (simp add: process_spawn_def)
  next
    case False
    then have il: "i < 32" using i l first_index_le [of "\<lambda>p. p_state p = PROCESS_FREE" "process_table s"] by simp
    obtain x where x: "stringcopy (executable (process_table s ! i)) exe 64 = Inr x" "cstr (take 63 w) x"
      using stringcopy_total [OF exe(1), of 64 "executable (process_table s ! i)"] exe(2) [OF il] by auto
    let ?p = "(process_table s ! i)\<lparr>p_state := PROCESS_RUNNING, executable := x, parent := process_id (th (kst s) (scheduler_current_thread (kst s) ! c))\<rparr>"
    let ?s = "s\<lparr>process_table := (process_table s)[i := ?p]\<rparr>"
    have al: "alloc_process_id (process_table s) = (i, (process_table s)[i := (process_table s ! i)\<lparr>p_state := PROCESS_RUNNING\<rparr>])"
      using i l il by (simp add: alloc_process_id_def)
    obtain t k1 where t: "thread_create stacks fin (kst s) start (of_nat i) = Inr (t, k1)" "kinv k1 rs qs"
      "if ?free then tid_ok t \<and> state (th (kst s) t) = THREAD_FREE \<and> state (th k1 t) = THREAD_NONREADY else t = -1 \<and> k1 = kst s"
    proof -
      obtain t k1 where a: "thread_create stacks fin (kst s) start (of_nat i) = Inr (t, k1)" "kinv k1 rs qs"
        "if ?free then tid_ok t \<and> state (th (kst s) t) = THREAD_FREE \<and> state (th k1 t) = THREAD_NONREADY
           \<and> (\<forall>u. 0 \<le> u \<and> u \<noteq> t \<longrightarrow> th k1 u = th (kst s) u) else t = -1 \<and> k1 = kst s"
        using thread_create_kinv [OF k, of stacks fin start "of_nat i"] by blast
      show thesis by (rule that [OF a(1,2)]) (use a(3) in \<open>cases ?free; simp only: if_True if_False simp_thms\<close>)
    qed
    note sp = process_spawn_def current_process_eq [OF k c] Let_def al il l x(1) t(1)
    have "\<exists>s'. proc_inv base s' \<and> process_table s' = (process_table s)[i := ?p]
      \<and> (if ?free then process_spawn stacks fin start s c exe = Inr (int i, s')
           \<and> (\<exists>t. tid_ok t \<and> state (th (kst s) t) = THREAD_FREE \<and> thread_starts (kst s') t start (of_nat i) fin \<and> kinv (kst s') (rs @ [t]) qs)
         else process_spawn stacks fin start s c exe = Inr (PROCESS_TTABLE_FULL, s') \<and> kst s' = kst s)"
    proof (cases ?free)
      case True
      then have tt: "tid_ok t" "state (th (kst s) t) = THREAD_FREE" "state (th k1 t) = THREAD_NONREADY" using t(3) by simp_all
      obtain k2 where k2: "thread_run k1 t = Inr k2" "kinv k2 (rs @ [t]) qs" using kinv_add_ready [OF t(2) tt(1,3)] by (auto simp: thread_run_def)
      have e: "process_spawn stacks fin start s c exe = Inr (int i, set_kst ?s k2)" using sp k2(1) tt(1) by (simp add: tid_ok_def)
      have "thread_starts k2 t start (of_nat i) fin" using run_starts [OF k2(1)] create_starts [OF t(1)] tt(1) by (simp add: tid_ok_def)
      then show ?thesis using True e spawn_inv [OF s e] tt k2(2) by (intro exI [of _ "set_kst ?s k2"]) auto
    next
      case False
      then have "t = -1" "k1 = kst s" using t(3) by simp_all
      then have e: "process_spawn stacks fin start s c exe = Inr (PROCESS_TTABLE_FULL, set_kst ?s (kst s))" using sp by simp
      then show ?thesis using False spawn_inv [OF s e] by (intro exI [of _ "set_kst ?s (kst s)"]) auto
    qed
    then show ?thesis using x(2) False by (intro if_not_P [THEN iffD2]) blast+
  qed
qed

section \<open>Joining\<close>

text \<open>
  C25. No wake-up of a joining process is lost: in every reachable state, however the operations of
  processes and the rest of the kernel interleave, no thread sleeps on the entry of a process that
  has ended (it would never be woken).
\<close>

theorem join_no_lost_wakeup:
  assumes "proc_reach base s" "pcb_base_ok base" "zombie s pid" "tid_ok t"
  shows "sleeps_on (th (kst s) t) \<noteq> pcb_addr base pid"
  using proc_reach_inv [OF assms(1,2)] assms(3,4) by (auto simp: proc_inv_def)

text \<open>
  C26. \<^verbatim>\<open>process_finish\<close> of a process followed by \<^verbatim>\<open>process_join\<close> of its parent: finishing
  succeeds, whatever the processors do, the process becomes a zombie that nobody sleeps on, and
  its children are orphans; the join of the parent returns the value the process finished with
  and frees its slot, and no other process can join it.
\<close>

theorem finish_join:
  assumes s: "proc_inv base s" and run: "running (kst s) c" and b: "pcb_base_ok base"
    and pid: "process_id (th (kst s) (scheduler_current_thread (kst s) ! c)) = pid" "0 \<le> pid" "pid < 32"
    and tab: "vm_destroy_pagetable (p_pool s) (pagetable (th (kst s) (scheduler_current_thread (kst s) ! c))) = Inr pp"
    and par: "parent (process_table s ! nat pid) \<noteq> pid"
  shows "\<exists>s'. process_finish base rnd s c ret = Some (Inr s') \<and> proc_inv base s' \<and> zombie s' pid
    \<and> (\<forall>q < 32. parent (process_table s' ! q) = (if parent (process_table s ! q) = pid then -1 else parent (process_table s ! q)))
    \<and> (\<forall>c' < 4. \<forall>rnd'. if process_get_current_process (kst s') c' = Inr (parent (process_table s ! nat pid))
         then \<exists>s''. process_join base s' c' pid rnd' = Some (Inr (Some ret, s'')) \<and> kst s'' = kst s'
                \<and> p_state (process_table s'' ! nat pid) = PROCESS_FREE
                \<and> (\<forall>q < 32. q \<noteq> nat pid \<longrightarrow> process_table s'' ! q = process_table s' ! q)
         else process_join base s' c' pid rnd' = Some (Inr (Some PROCESS_ILLEGAL_JOIN, s')))"
proof -
  have l: "length (process_table s) = 32" using proc_invD [OF s] by blast
  obtain s' where s': "process_finish base rnd s c ret = Some (Inr s')" "proc_inv base s'"
    "process_table s' = map (\<lambda>p. if parent p = pid then p\<lparr>parent := -1\<rparr> else p)
        ((process_table s)[nat pid := (process_table s ! nat pid)\<lparr>retval := ret, p_state := PROCESS_ZOMBIE\<rparr>])"
    using finish_ok [OF s run b pid tab] by blast
  obtain rs qs where k: "kinv (kst s') rs qs" and l': "length (process_table s') = 32" using proc_invD [OF s'(2)] by blast
  have me: "process_table s' ! nat pid = (process_table s ! nat pid)\<lparr>retval := ret, p_state := PROCESS_ZOMBIE\<rparr>"
    using s'(3) l pid par by simp
  have z: "zombie s' pid" using me pid by (simp add: zombie_def)
  have others: "parent (process_table s' ! q) = (if parent (process_table s ! q) = pid then -1 else parent (process_table s ! q))" if "q < 32" for q
    using s'(3) l that by (cases "q = nat pid") simp_all
  have ge: "aget (process_table s') pid = Inr (process_table s' ! nat pid)" using l' pid by (simp add: aget_def)
  obtain x where x: "process_reset (process_table s') pid = Inr ((process_table s')[nat pid := x])" "p_state x = PROCESS_FREE" "parent x = -1"
    by (rule reset_eq [of pid "process_table s'"]) (use pid l' in auto)
  have join: "if process_get_current_process (kst s') c' = Inr (parent (process_table s ! nat pid))
      then \<exists>s''. process_join base s' c' pid rnd' = Some (Inr (Some ret, s'')) \<and> kst s'' = kst s'
             \<and> p_state (process_table s'' ! nat pid) = PROCESS_FREE
             \<and> (\<forall>q < 32. q \<noteq> nat pid \<longrightarrow> process_table s'' ! q = process_table s' ! q)
      else process_join base s' c' pid rnd' = Some (Inr (Some PROCESS_ILLEGAL_JOIN, s'))" if "c' < 4" for c' rnd'
    using ge me x l' pid current_process_eq(1) [OF k that] by (auto simp: process_join_def join_legal_def join_locked_def)
  show ?thesis using s'(1,2) z others join by blast
qed

section \<open>The heap of a process\<close>

text \<open>
  C27. \<^verbatim>\<open>process_memlimit\<close> with NULL returns the end of the heap and below the end of the heap it
  returns NULL; otherwise it maps a new, writable page of its own at each page above the end of the
  heap up to the new end, and sets the end. When there are too few free pages it returns NULL
  with the end of the heap unchanged, but the pages that it found stay mapped.
\<close>

theorem memlimit_correct:
  assumes k: "kinv (kst s) rs qs" "c < 4" and l: "length (process_table s) = 32"
    and t: "th (kst s) (scheduler_current_thread (kst s) ! c) = t" "process_id t = pid" "0 \<le> pid" "pid < 32"
    and p: "process_table s ! nat pid = p"
    and inv: "pp_inv (p_pool s)" "pp_pages (p_pool s) \<le> 2 ^ 20" "pt_inv (p_tables s (pagetable t))"
    and n: "va_page e - va_page (heap_end p) = n" "unat (valid_count (p_tables s (pagetable t))) + n \<le> PAGETABLE_ENTRIES"
    and un: "\<And>va. va_page (heap_end p) < va_page va \<Longrightarrow> va_page va \<le> va_page e \<Longrightarrow> pt_lookup (p_tables s (pagetable t)) va = None"
  shows "if e = 0 then process_memlimit s c e = Inr (heap_end p, s)
    else if e < heap_end p then process_memlimit s c e = Inr (0, s)
    else \<exists>ps s'. process_memlimit s c e = Inr (if n \<le> card (pp_free (p_pool s)) then e else 0, s')
      \<and> process_table s' = (if n \<le> card (pp_free (p_pool s)) then (process_table s)[nat pid := p\<lparr>heap_end := e\<rparr>] else process_table s)
      \<and> length ps = min n (card (pp_free (p_pool s))) \<and> pages_mapped (pagetable t) (Suc (va_page (heap_end p))) ps s s'"
proof -
  note eq = memlimit_eq [OF k l t p, of e]
  show ?thesis
  proof (cases "e = 0 \<or> e < heap_end p")
    case True
    then show ?thesis using eq by auto
  next
    case False
    obtain ps s' where a: "memlimit_loop (pagetable t) (Suc (va_page (heap_end p))) n s = Inr (n \<le> card (pp_free (p_pool s)), s')"
      "length ps = min n (card (pp_free (p_pool s)))" "pages_mapped (pagetable t) (Suc (va_page (heap_end p))) ps s s'"
      using memlimit_grows [OF inv n un] False by blast
    let ?s = "if n \<le> card (pp_free (p_pool s)) then s'\<lparr>process_table := (process_table s)[nat pid := p\<lparr>heap_end := e\<rparr>]\<rparr> else s'"
    have "process_memlimit s c e = Inr (if n \<le> card (pp_free (p_pool s)) then e else 0, ?s)"
      "process_table ?s = (if n \<le> card (pp_free (p_pool s)) then (process_table s)[nat pid := p\<lparr>heap_end := e\<rparr>] else process_table s)"
      using eq False a n(1) memlimit_frame [OF a(1)] by auto
    moreover have "pages_mapped (pagetable t) (Suc (va_page (heap_end p))) ps s ?s" using a(3) by (simp add: pages_mapped_def)
    ultimately show ?thesis using False a(2) by auto
  qed
qed

text \<open>
  C28. A call of \<^verbatim>\<open>process_memlimit\<close> that failed for want of memory, after it found some pages, leaves
  a trap: when pages have become free again, the next call that grows the heap over a page boundary
  maps a page a second time and the kernel panics.
\<close>

theorem memlimit_retry_panics:
  assumes k: "kinv (kst s) rs qs" "c < 4" and l: "length (process_table s) = 32"
    and t: "th (kst s) (scheduler_current_thread (kst s) ! c) = t" "process_id t = pid" "0 \<le> pid" "pid < 32"
    and p: "process_table s ! nat pid = p"
    and inv: "pp_inv (p_pool s)" "pp_pages (p_pool s) \<le> 2 ^ 20" "pt_inv (p_tables s (pagetable t))"
    and n: "va_page e - va_page (heap_end p) = n" "unat (valid_count (p_tables s (pagetable t))) + n \<le> PAGETABLE_ENTRIES"
    and un: "\<And>va. va_page (heap_end p) < va_page va \<Longrightarrow> va_page va \<le> va_page e \<Longrightarrow> pt_lookup (p_tables s (pagetable t)) va = None"
    and short: "0 < card (pp_free (p_pool s))" "card (pp_free (p_pool s)) < n"
  shows "\<exists>s'. process_memlimit s c e = Inr (0, s')
    \<and> (\<forall>pp e'. pp_inv pp \<and> pp_free pp \<noteq> {} \<and> va_page (heap_end p) < va_page e' \<longrightarrow>
         process_memlimit (s'\<lparr>p_pool := pp\<rparr>) c e' = Inl Kernel_panic)"
proof -
  have e: "\<not> e < heap_end p" "e \<noteq> 0" using n(1) short va_page_mono [of e "heap_end p"] by (auto simp: va_page_div)
  obtain ps s' where a: "memlimit_loop (pagetable t) (Suc (va_page (heap_end p))) n s = Inr (n \<le> card (pp_free (p_pool s)), s')"
    "length ps = min n (card (pp_free (p_pool s)))" "pages_mapped (pagetable t) (Suc (va_page (heap_end p))) ps s s'"
    using memlimit_grows [OF inv n un] e by blast
  have first: "process_memlimit s c e = Inr (0, s')" using memlimit_eq [OF k l t p, of e] e a(1) n(1) short(2) by simp
  have fr: "kst s' = kst s" "process_table s' = process_table s" using memlimit_frame [OF a(1)] by auto
  have "process_memlimit (s'\<lparr>p_pool := pp\<rparr>) c e' = Inl Kernel_panic"
    if h: "pp_inv pp" "pp_free pp \<noteq> {}" "va_page (heap_end p) < va_page e'" for pp e'
  proof -
    have e': "\<not> e' < heap_end p" "e' \<noteq> 0" "Suc (va_page (heap_end p)) < 2 ^ 20"
      using h(3) va_page_mono [of e' "heap_end p"] va_page_bound [of e'] by (auto simp: va_page_div less_imp_le)
    have "pt_lookup (p_tables s' (pagetable t)) (of_nat (Suc (va_page (heap_end p))) * 4096) \<noteq> None"
      using a(2,3) short va_page_of [OF e'(3)] unfolding pages_mapped_def by simp
    then have "memlimit_loop (pagetable t) (Suc (va_page (heap_end p))) (va_page e' - va_page (heap_end p)) (s'\<lparr>p_pool := pp\<rparr>) = Inl Kernel_panic"
      using memlimit_loop_mapped [of "s'\<lparr>p_pool := pp\<rparr>"] a(3) h by (simp add: pages_mapped_def)
    then show ?thesis using memlimit_eq [of "s'\<lparr>p_pool := pp\<rparr>" rs qs c t pid p e'] k l t p fr e' by simp
  qed
  then show ?thesis using first by blast
qed

section \<open>Forking\<close>

text \<open>
  C9. The child of a fork has a copy of its parent: given a thread of the parent, a page for the
  page table and as many free pages as the parent has, setting up the child succeeds. Each page of
  the parent is mapped at the same address in the child with the same protection, in a page of
  its own that was free, and has the same contents; the parent's page table and all pages that
  were in use are unchanged. The child continues behind the system call with the result 0.
\<close>

theorem fork_copies_memory:
  assumes k: "kinv (kst s) rs qs" "running (kst s) c" and l: "length (process_table s) = 32"
    and t: "scheduler_current_thread (kst s) ! c = t" "pagetable (th (kst s) t) = 0" and pid: "0 \<le> pid" "pid < 32"
    and i: "parent (process_table s ! nat pid) = pp" "pp \<noteq> pid" "i < 32" "i \<noteq> nat t" "process_id (thread_table (kst s) ! i) = pp"
      "\<And>j. j < i \<Longrightarrow> j \<noteq> nat t \<Longrightarrow> process_id (thread_table (kst s) ! j) \<noteq> pp"
    and tp: "pagetable (thread_table (kst s) ! i) = tp" "tp \<noteq> 0" "pt_inv (p_tables s tp)"
      "\<And>p. p \<in> pp_free (p_pool s) \<Longrightarrow> tp \<noteq> ADDR_PHYS_TO_KERNEL (page_addr p)"
      "\<And>f. f \<in> set (table_frames (p_tables s tp)) \<Longrightarrow> unat f < 2 ^ 19 \<and> unat f \<notin> pp_free (p_pool s)"
    and pool: "pp_inv (p_pool s)" "pp_pages (p_pool s) \<le> 2 ^ 19" "Suc (length (table_frames (p_tables s tp))) \<le> card (pp_free (p_pool s))"
    and ts: "\<And>a. length (entries (p_tables s a)) = PAGETABLE_ENTRIES"
  shows "\<exists>ctx s' table. fork_prepare pid s c = Inr (ctx, s')
    \<and> process_id (th (kst s') t) = pid \<and> pagetable (th (kst s') t) = table \<and> pt_inv (p_tables s' table)
    \<and> space_copy (p_mem s) (pt_lookup (p_tables s tp)) (p_mem s') (pt_lookup (p_tables s' table)) (pp_free (p_pool s) - pp_free (p_pool s'))
    \<and> p_tables s' tp = p_tables s tp
    \<and> (\<forall>h k. unat h < 2 ^ 19 \<and> unat h \<notin> pp_free (p_pool s) \<and> k < 4096 \<longrightarrow> frame_byte (p_mem s') h k = frame_byte (p_mem s) h k)
    \<and> card (pp_free (p_pool s)) = Suc (length (table_frames (p_tables s tp))) + card (pp_free (p_pool s'))
    \<and> pc ctx = pc (contexts (kst s) (user_context (thread_table (kst s) ! i))) + 4
    \<and> cpu_regs ctx = (cpu_regs (contexts (kst s) (user_context (thread_table (kst s) ! i))))[MIPS_REGISTER_V0 := 0]"
proof -
  note r = running_tid [OF k, unfolded t(1)]
  have tb: "nat t < 32" using tid_okD [OF r(2)] by auto
  have "pp_free (p_pool s) \<noteq> {}" using pool(3) by auto
  then obtain p pq k2 where p: "fork_prepare pid s c = fork_copy (ADDR_PHYS_TO_KERNEL (page_addr p)) (fork_child s t p pq k2) c"
    "p \<in> pp_free (p_pool s)" "pp_inv pq" "pp_free pq = pp_free (p_pool s) - {p}" "pp_pages pq = pp_pages (p_pool s)" "kinv k2 rs qs"
    "thread_table k2 = (thread_table (kst s))[nat t := (th (kst s) t)\<lparr>process_id := pid, pagetable := ADDR_PHYS_TO_KERNEL (page_addr p)\<rparr>]"
    "contexts k2 = contexts (kst s)" "process_get_current_process_entry (fork_child s t p pq k2) c = Inr (process_table s ! nat pid)"
    by (rule fork_prepare_start [OF k l t pid pool(1)])
  let ?table = "ADDR_PHYS_TO_KERNEL (page_addr p)" and ?s = "fork_child s t p pq k2"
  have tn: "tp \<noteq> ?table" using tp(4) p(2) by blast
  have "first_index (\<lambda>th. process_id th = pp) (thread_table k2) = i"
    by (rule first_index_unique) (use p(7) i tb r(4) in \<open>auto simp: nth_list_update\<close>)
  then have by_pid: "thread_get_thread_entry_by_pid k2 pp = Some i" using p(7) i(3) r(4) by (simp add: thread_get_thread_entry_by_pid_def)
  have old: "thread_table k2 ! i = thread_table (kst s) ! i" using p(7) i(4) by simp
  have card: "card (pp_free (p_pool s)) = Suc (card (pp_free pq))" using p(2,4) finite_pp_free by (metis card_Suc_Diff1)
  obtain s' where s': "fork_copy ?table ?s c = Inr ((contexts (kst s) (user_context (thread_table (kst s) ! i)))
        \<lparr>cpu_regs := (cpu_regs (contexts (kst s) (user_context (thread_table (kst s) ! i))))[MIPS_REGISTER_V0 := 0],
         pc := pc (contexts (kst s) (user_context (thread_table (kst s) ! i))) + 4\<rparr>, s')"
    "fork_inv ?table ?s (pt_lookup (p_tables s tp)) s'" "kst s' = k2"
    "card (pp_free pq) = length (table_frames (p_tables s tp)) + card (pp_free (p_pool s'))"
    using fork_copy_ok [of ?s rs qs c, OF _ r(1) p(9) _ _ tp(2) tn] p(3-6,8) by_pid old i(1) tp(1,3,5) pool(2,3) card tn ts by auto
  note inv = fork_invD [OF s'(2)]
  have F: "pp_free (p_pool ?s) - pp_free (p_pool s') \<subseteq> pp_free (p_pool s) - pp_free (p_pool s')" using p(4) by auto
  have "space_copy (p_mem s) (pt_lookup (p_tables s tp)) (p_mem s') (pt_lookup (p_tables s' ?table)) (pp_free (p_pool s) - pp_free (p_pool s'))"
    using space_copy_mono [OF inv(7) F] by simp
  moreover have "frame_byte (p_mem s') h k = frame_byte (p_mem s) h k" if "unat h < 2 ^ 19" "unat h \<notin> pp_free (p_pool s)" "k < 4096" for h k
    using inv(6) [of h k] that p(4) by simp
  moreover have "p_tables s' tp = p_tables s tp" using inv(5) [OF tn] tn by simp
  moreover have "process_id (th (kst s') t) = pid" "pagetable (th (kst s') t) = ?table" using s'(3) p(7) tb r(4) by simp_all
  ultimately show ?thesis using p(1) s'(1,4) inv(4) card by (intro exI [of _ s'] exI [of _ ?table] exI) auto
qed

text \<open>
  C29. A child finds the thread of its parent by the process number alone, and a thread that has
  ended keeps its number. When an earlier row of the thread table holds a thread that ended as an
  earlier process with the parent's number (its page table pointer is NULL), setting up the child
  reads the page table through NULL, whatever the state of the parent.
\<close>

theorem fork_stale_thread:
  assumes k: "kinv (kst s) rs qs" "running (kst s) c" and l: "length (process_table s) = 32"
    and t: "scheduler_current_thread (kst s) ! c = t" "pagetable (th (kst s) t) = 0" and pid: "0 \<le> pid" "pid < 32"
    and i: "parent (process_table s ! nat pid) = pp" "pp \<noteq> pid" "i < 32" "i \<noteq> nat t" "process_id (thread_table (kst s) ! i) = pp"
      "\<And>j. j < i \<Longrightarrow> j \<noteq> nat t \<Longrightarrow> process_id (thread_table (kst s) ! j) \<noteq> pp"
    and stale: "pagetable (thread_table (kst s) ! i) = 0"
    and pool: "pp_inv (p_pool s)" "pp_free (p_pool s) \<noteq> {}"
  shows "fork_prepare pid s c = Inl Bad_access"
proof -
  note r = running_tid [OF k, unfolded t(1)]
  have tb: "nat t < 32" using tid_okD [OF r(2)] by auto
  obtain p pq k2 where p: "fork_prepare pid s c = fork_copy (ADDR_PHYS_TO_KERNEL (page_addr p)) (fork_child s t p pq k2) c"
    "thread_table k2 = (thread_table (kst s))[nat t := (th (kst s) t)\<lparr>process_id := pid, pagetable := ADDR_PHYS_TO_KERNEL (page_addr p)\<rparr>]"
    "process_get_current_process_entry (fork_child s t p pq k2) c = Inr (process_table s ! nat pid)"
    by (rule fork_prepare_start [OF k l t pid pool])
  have "first_index (\<lambda>th. process_id th = pp) (thread_table k2) = i"
    by (rule first_index_unique) (use p(2) i tb r(4) in \<open>auto simp: nth_list_update\<close>)
  then have "thread_get_thread_entry_by_pid k2 pp = Some i" "thread_table k2 ! i = thread_table (kst s) ! i"
    using p(2) i(3,4) r(4) by (simp_all add: thread_get_thread_entry_by_pid_def)
  then show ?thesis using p(1,3) i(1) stale by (simp add: fork_copy_def)
qed

section \<open>Examples\<close>

text \<open>
  Thread 1 runs on processor 0 and thread 2 on processor 1, as the processes \<open>p1\<close> and \<open>p2\<close> with
  the page tables \<open>t1\<close> and \<open>t2\<close>; process 1 is a child of process 0.
\<close>

definition ex_kernel :: "int \<Rightarrow> u32 \<Rightarrow> int \<Rightarrow> u32 \<Rightarrow> kstate" where
  "ex_kernel p1 t1 p2 t2 = one_running\<lparr>thread_table := (thread_table one_running)
       [1 := blank_thread\<lparr>state := THREAD_RUNNING, process_id := p1, pagetable := t1\<rparr>,
        2 := blank_thread\<lparr>state := THREAD_RUNNING, process_id := p2, pagetable := t2\<rparr>],
      scheduler_current_thread := [1, 2, 0, 0]\<rparr>"

lemma one_running_length: "length (thread_table one_running) = 32"
  using one_running_kinv by (simp add: kinv_def kinv_table_length)

lemma ex_kernel_table [simp]:
  "thread_table (ex_kernel p1 t1 p2 t2) ! 1 = blank_thread\<lparr>state := THREAD_RUNNING, process_id := p1, pagetable := t1\<rparr>"
  "thread_table (ex_kernel p1 t1 p2 t2) ! Suc 0 = blank_thread\<lparr>state := THREAD_RUNNING, process_id := p1, pagetable := t1\<rparr>"
  "thread_table (ex_kernel p1 t1 p2 t2) ! 2 = blank_thread\<lparr>state := THREAD_RUNNING, process_id := p2, pagetable := t2\<rparr>"
  "scheduler_current_thread (ex_kernel p1 t1 p2 t2) = [1, 2, 0, 0]" "length (thread_table (ex_kernel p1 t1 p2 t2)) = 32"
  using one_running_length by (simp_all add: ex_kernel_def)

lemma ex_kernel_first: "process_id (thread_table (ex_kernel p1 t1 p2 t2) ! 0) = -1"
  by (simp add: ex_kernel_def one_running_def kboot_def scheduler_init_def sleepq_init_def thread_table_init_def Let_def)

lemma ex_kernel_kinv: "kinv (ex_kernel p1 t1 p2 t2) [] (\<lambda>_. [])"
proof -
  have o: "kinv_on one_running (scheduler_current_thread one_running) [] (\<lambda>_. [])" using one_running_kinv by (simp add: kinv_def)
  let ?k = "one_running\<lparr>thread_table := (thread_table one_running)[nat 1 := blank_thread\<lparr>state := THREAD_RUNNING, process_id := p1, pagetable := t1\<rparr>]\<rparr>"
  have "kinv_on ?k (scheduler_current_thread one_running) [] (\<lambda>_. [])"
    by (rule kinv_set [OF kinv_but_on [OF o]]) (auto simp: tid_ok_def kthread_def blank_thread_def one_running_def)
  then have "kinv_but 2 ?k [1, 2, 0, 0] [] (\<lambda>_. [])"
    by (auto simp: kinv_but_def kinv_on_def kshape_def kthread_def tid_ok_def one_running_def)
  then have "kinv_on (?k\<lparr>thread_table := (thread_table ?k)[nat 2 := blank_thread\<lparr>state := THREAD_RUNNING, process_id := p2, pagetable := t2\<rparr>]\<rparr>) [1, 2, 0, 0] [] (\<lambda>_. [])"
    by (rule kinv_set) (auto simp: kthread_def blank_thread_def)
  then show ?thesis by (simp add: kinv_def ex_kernel_def kinv_on_def kshape_def ready_queue_def)
qed

lemma ex_kernel_running: "running (ex_kernel p1 t1 p2 t2) 0"
  by (simp add: running_def blank_thread_def)

definition ex_pcb :: process_control_block_t where
  "ex_pcb = \<lparr>executable = replicate 64 0, p_state = PROCESS_FREE, retval = 0, parent = -1, heap_end = 0x1000, p_files = replicate 512 (-1)\<rparr>"

definition ex_proc :: "kstate \<Rightarrow> pagetable_t \<Rightarrow> proc_t" where
  "ex_proc k tab = \<lparr>ksm = ex_sems\<lparr>kern := k\<rparr>,
     process_table = (replicate 32 ex_pcb)[0 := ex_pcb\<lparr>p_state := PROCESS_RUNNING\<rparr>, 1 := ex_pcb\<lparr>p_state := PROCESS_RUNNING, parent := 0\<rparr>],
     p_pool = small_pool, p_tables = (\<lambda>_. tab), p_mem = (\<lambda>_. 0)\<rparr>"

lemma ex_proc_simps [simp]:
  "kst (ex_proc k tab) = k" "p_pool (ex_proc k tab) = small_pool" "p_tables (ex_proc k tab) = (\<lambda>_. tab)" "length (process_table (ex_proc k tab)) = 32"
  "process_table (ex_proc k tab) ! 1 = ex_pcb\<lparr>p_state := PROCESS_RUNNING, parent := 0\<rparr>"
  "process_table (ex_proc k tab) ! Suc 0 = ex_pcb\<lparr>p_state := PROCESS_RUNNING, parent := 0\<rparr>"
  by (simp_all add: ex_proc_def)

lemma ex_proc_inv: "kinv k rs qs \<Longrightarrow> proc_inv base (ex_proc k tab)"
proof -
  have "p_state (process_table (ex_proc k tab) ! q) \<noteq> PROCESS_ZOMBIE" if "q < 32" for q
    using that by (auto simp: ex_proc_def ex_pcb_def nth_list_update)
  then show "kinv k rs qs \<Longrightarrow> proc_inv base (ex_proc k tab)" by (auto simp: proc_inv_def zombie_def nat_less_iff)
qed

lemma small_pool_facts: "pp_pages small_pool = 6" "card (pp_free small_pool) = 3" "pp_free small_pool \<noteq> {}" "4 \<notin> pp_free small_pool"
  by (simp_all add: small_pool_free) (simp add: small_pool_def)

lemma ex_destroy: "\<exists>pp. vm_destroy_pagetable small_pool (ADDR_PHYS_TO_KERNEL (page_addr 4)) = Inr pp"
  using free_phys_page_ok [OF small_pool_inv, of 4] page_kernel_phys [of 4] small_pool_facts
  by (auto simp: vm_destroy_pagetable_def) (simp add: small_pool_def)

lemma ex_pcb_base: "pcb_base_ok 0x80050000"
  by (simp add: pcb_base_ok_def)

theorem spawn_correct_witness:
  "\<exists>s' t. process_spawn 0x80100000 0x80001000 0x80002000 (ex_proc (ex_kernel 1 0 0 0) (empty_table 1)) 1 [97, 0] = Inr (2, s')
     \<and> thread_starts (kst s') t 0x80002000 2 0x80001000 \<and> kinv (kst s') [t] (\<lambda>_. [])"
proof -
  let ?s = "ex_proc (ex_kernel 1 0 0 0) (empty_table 1)"
  have len: "length (executable (process_table ?s ! q)) = 64" if "q < 32" for q
    using that by (auto simp: ex_proc_def ex_pcb_def nth_list_update)
  have two: "first_index (\<lambda>p. p_state p = PROCESS_FREE) (process_table ?s) = 2" "(2 :: nat) \<noteq> 32"
    by (simp_all add: ex_proc_def ex_pcb_def numeral_eq_Suc)
  have w: "cstr [97] [97, 0]" by (simp add: cstr_def)
  have k: "kinv (kst ?s) [] (\<lambda>_. [])" "proc_inv 0 ?s" using ex_kernel_kinv [of 1 0 0 0] ex_proc_inv [OF ex_kernel_kinv] by simp_all
  have "tid_ok 5 \<and> state (th (kst ?s) 5) = THREAD_FREE"
    by (simp add: tid_ok_def ex_proc_def ex_kernel_def one_running_def kboot_def scheduler_init_def sleepq_init_def thread_table_init_def Let_def)
  then have free: "\<exists>u. tid_ok u \<and> state (th (kst ?s) u) = THREAD_FREE" by blast
  have c: "(1 :: nat) < 4" by simp
  from spawn_correct [OF k(2,1) c w len two(1), of "0x80100000" "0x80001000" "0x80002000", unfolded if_not_P [OF two(2)] if_P [OF free]]
  obtain s' t where "process_spawn 0x80100000 0x80001000 0x80002000 ?s 1 [97, 0] = Inr (int 2, s')"
    "thread_starts (kst s') t 0x80002000 (of_nat 2) 0x80001000" "kinv (kst s') ([] @ [t]) (\<lambda>_. [])" by blast
  then show ?thesis by (intro exI [of _ s'] exI [of _ t]) simp
qed

theorem finish_join_witness:
  "\<exists>s'. process_finish 0x80050000 5 (ex_proc (ex_kernel 1 (ADDR_PHYS_TO_KERNEL (page_addr 4)) 0 0) (empty_table 1)) 0 7 = Some (Inr s')
     \<and> zombie s' 1 \<and> parent (process_table s' ! 1) = 0"
proof -
  let ?k = "ex_kernel 1 (ADDR_PHYS_TO_KERNEL (page_addr 4)) 0 0"
  let ?s = "ex_proc ?k (empty_table 1)"
  obtain pp where pp: "vm_destroy_pagetable small_pool (ADDR_PHYS_TO_KERNEL (page_addr 4)) = Inr pp" using ex_destroy by blast
  have run: "running (kst ?s) 0" by (simp add: ex_kernel_running)
  have pid: "process_id (th (kst ?s) (scheduler_current_thread (kst ?s) ! 0)) = 1" by (simp add: blank_thread_def)
  have tab: "vm_destroy_pagetable (p_pool ?s) (pagetable (th (kst ?s) (scheduler_current_thread (kst ?s) ! 0))) = Inr pp"
    using pp by (simp add: blank_thread_def)
  have par: "parent (process_table ?s ! nat 1) \<noteq> 1" by simp
  from finish_join [OF ex_proc_inv [OF ex_kernel_kinv] run ex_pcb_base pid _ _ tab par, of 5 7] obtain s' where
    "process_finish 0x80050000 5 ?s 0 7 = Some (Inr s')" "zombie s' 1"
    "\<forall>q < 32. parent (process_table s' ! q) = (if parent (process_table ?s ! q) = 1 then -1 else parent (process_table ?s ! q))"
    by auto
  then show ?thesis by (intro exI [of _ s']) simp
qed

theorem join_no_lost_wakeup_witness:
  "\<exists>s. proc_reach 0x80050000 s \<and> zombie s 1 \<and> sleeps_on (th (kst s) 2) \<noteq> pcb_addr 0x80050000 1"
proof -
  let ?k = "ex_kernel 1 (ADDR_PHYS_TO_KERNEL (page_addr 4)) 0 0"
  let ?s = "ex_proc ?k (empty_table 1)"
  obtain pt where "reset_loop (process_table ?s) 0 32 = Inr pt" using reset_loop_total [of 0 32 "process_table ?s"] by auto
  then obtain s0 where s0: "process_init ?s = Inr s0" "kst s0 = ?k" "p_pool s0 = small_pool" by (auto simp: process_init_def)
  have reach: "proc_reach 0x80050000 s0" using proc_reach.start [OF _ _ s0(1)] ex_kernel_kinv [of 1 "ADDR_PHYS_TO_KERNEL (page_addr 4)" 0 0] by simp
  obtain pp where pp: "vm_destroy_pagetable small_pool (ADDR_PHYS_TO_KERNEL (page_addr 4)) = Inr pp" using ex_destroy by blast
  have run: "running (kst s0) 0" using s0 by (simp add: ex_kernel_running)
  have pid: "process_id (th (kst s0) (scheduler_current_thread (kst s0) ! 0)) = 1" using s0 by (simp add: blank_thread_def)
  have tab: "vm_destroy_pagetable (p_pool s0) (pagetable (th (kst s0) (scheduler_current_thread (kst s0) ! 0))) = Inr pp"
    using pp s0 by (simp add: blank_thread_def)
  have inv: "proc_inv 0x80050000 s0" using proc_reach_inv [OF reach ex_pcb_base] .
  from finish_ok [OF inv run ex_pcb_base pid _ _ tab, of 5 7] obtain s' where
    f: "process_finish 0x80050000 5 s0 0 7 = Some (Inr s')" and t: "process_table s' = map (\<lambda>p. if parent p = 1 then p\<lparr>parent := -1\<rparr> else p)
        ((process_table s0)[nat 1 := (process_table s0 ! nat 1)\<lparr>retval := 7, p_state := PROCESS_ZOMBIE\<rparr>])" by auto
  have "length (process_table s0) = 32" using proc_invD [OF inv] by blast
  then have z: "zombie s' 1" using t by (simp add: zombie_def)
  have r: "proc_reach 0x80050000 s'" using proc_reach.finish [OF reach run f] .
  have "tid_ok 2" by (simp add: tid_ok_def)
  from join_no_lost_wakeup [OF r ex_pcb_base z this] z r show ?thesis by auto
qed

text \<open>Process 1, whose heap ends in page 1, grows it.\<close>

definition ex_grow :: proc_t where
  "ex_grow = ex_proc (ex_kernel 1 0 0 0) (empty_table 1)"

lemma ex_grow_facts:
  "kinv (kst ex_grow) [] (\<lambda>_. [])" "length (process_table ex_grow) = 32"
  "th (kst ex_grow) (scheduler_current_thread (kst ex_grow) ! 0) = blank_thread\<lparr>state := THREAD_RUNNING, process_id := 1, pagetable := 0\<rparr>"
  "process_table ex_grow ! nat 1 = ex_pcb\<lparr>p_state := PROCESS_RUNNING, parent := 0\<rparr>"
  "pp_inv (p_pool ex_grow)" "pp_pages (p_pool ex_grow) \<le> 2 ^ 20" "card (pp_free (p_pool ex_grow)) = 3"
  "pt_inv (p_tables ex_grow u)" "unat (valid_count (p_tables ex_grow u)) = 0" "pt_lookup (p_tables ex_grow u) va = None"
  "heap_end (ex_pcb\<lparr>p_state := PROCESS_RUNNING, parent := 0\<rparr>) = 0x1000"
  by (simp_all add: ex_grow_def ex_kernel_kinv small_pool_inv small_pool_facts empty_table_inv ex_pcb_def)

theorem memlimit_correct_witness:
  "\<exists>ps s'. process_memlimit ex_grow 0 0x3000 = Inr (0x3000, s') \<and> length ps = 2 \<and> pages_mapped 0 2 ps ex_grow s'"
proof -
  have "va_page 0x3000 - va_page 0x1000 = 2" "Suc (va_page 0x1000) = 2" by (simp_all add: va_page_div)
  then show ?thesis
    using memlimit_correct [OF ex_grow_facts(1) _ ex_grow_facts(2,3) _ _ _ ex_grow_facts(4-6,8), of "0x3000" 2]
    by (simp add: ex_grow_facts(7,9-11) PAGETABLE_ENTRIES_def) (auto simp: numeral_2_eq_2)
qed

theorem memlimit_retry_panics_witness:
  "\<exists>s'. process_memlimit ex_grow 0 0x6000 = Inr (0, s') \<and> process_memlimit (s'\<lparr>p_pool := small_pool\<rparr>) 0 0x2000 = Inl Kernel_panic"
proof -
  have "va_page 0x6000 - va_page 0x1000 = 5" "va_page 0x1000 < va_page 0x2000" by (simp_all add: va_page_div)
  moreover have "pp_inv small_pool \<and> pp_free small_pool \<noteq> {}" by (simp add: small_pool_inv small_pool_facts)
  ultimately show ?thesis
    using memlimit_retry_panics [OF ex_grow_facts(1) _ ex_grow_facts(2,3) _ _ _ ex_grow_facts(4-6,8), of "0x6000" 5]
    by (simp add: ex_grow_facts(7,9-11) PAGETABLE_ENTRIES_def) blast
qed

text \<open>Process 1 is set up as the child of process 0, which has one page, at address 0x4000.\<close>

definition ex_parent_table :: pagetable_t where
  "ex_parent_table = (empty_table 2)\<lparr>valid_count := 1,
     entries := (replicate PAGETABLE_ENTRIES blank_entry)[0 := blank_entry\<lparr>VPN2 := 2, ASID := 2, PFN0 := 1, D0 := 1, V0 := 1\<rparr>]\<rparr>"

lemma ex_parent_used: "used ex_parent_table = [blank_entry\<lparr>VPN2 := 2, ASID := 2, PFN0 := 1, D0 := 1, V0 := 1\<rparr>]"
  by (simp add: used_def ex_parent_table_def empty_table_def PAGETABLE_ENTRIES_def numeral_eq_Suc)

lemma ex_parent_facts: "pt_inv ex_parent_table" "table_frames ex_parent_table = [1]" "length (entries ex_parent_table) = PAGETABLE_ENTRIES"
proof -
  have "pt_ASID ex_parent_table = 2" "length (entries ex_parent_table) = PAGETABLE_ENTRIES" "valid_count ex_parent_table = 1"
    by (simp_all add: ex_parent_table_def empty_table_def)
  then show "pt_inv ex_parent_table" "length (entries ex_parent_table) = PAGETABLE_ENTRIES" by (simp_all add: pt_inv_def ex_parent_used PAGETABLE_ENTRIES_def)
  show "table_frames ex_parent_table = [1]" by (simp add: table_frames_def ex_parent_used entry_frames_def blank_entry_def)
qed

definition ex_fork :: "u32 \<Rightarrow> proc_t" where
  "ex_fork tp = ex_proc (ex_kernel (-1) 0 0 tp) ex_parent_table"

lemma ex_fork_facts:
  "kinv (kst (ex_fork tp)) [] (\<lambda>_. [])" "running (kst (ex_fork tp)) 0" "length (process_table (ex_fork tp)) = 32"
  "scheduler_current_thread (kst (ex_fork tp)) ! 0 = 1" "pagetable (th (kst (ex_fork tp)) 1) = 0"
  "parent (process_table (ex_fork tp) ! nat 1) = 0" "process_id (thread_table (kst (ex_fork tp)) ! 2) = 0" "pagetable (thread_table (kst (ex_fork tp)) ! 2) = tp"
  "j < 2 \<Longrightarrow> j \<noteq> nat 1 \<Longrightarrow> process_id (thread_table (kst (ex_fork tp)) ! j) \<noteq> 0"
  "p_pool (ex_fork tp) = small_pool" "p_tables (ex_fork tp) u = ex_parent_table"
  using ex_kernel_first [of "-1" 0 0 tp]
  by (auto simp: ex_fork_def ex_kernel_kinv ex_kernel_running blank_thread_def less_2_cases_iff)

theorem fork_stale_thread_witness:
  "fork_prepare 1 (ex_fork 0) 0 = Inl Bad_access"
  by (rule fork_stale_thread [OF ex_fork_facts(1-5) _ _ ex_fork_facts(6) _ _ _ ex_fork_facts(7,9,8)])
    (simp_all add: ex_fork_facts small_pool_inv small_pool_facts)

theorem fork_copies_memory_witness:
  "\<exists>ctx s' table. fork_prepare 1 (ex_fork (ADDR_PHYS_TO_KERNEL (page_addr 4))) 0 = Inr (ctx, s')
     \<and> (\<exists>g. pt_lookup (p_tables s' table) 0x4000 = Some (g, True) \<and> frame_byte (p_mem s') g 7 = 0)"
proof -
  let ?tp = "ADDR_PHYS_TO_KERNEL (page_addr 4)"
  have tp: "?tp \<noteq> ADDR_PHYS_TO_KERNEL (page_addr p)" if "p \<in> pp_free small_pool" for p
  proof -
    have "p < 2 ^ 19" "p \<noteq> 4" using that small_pool_facts(1,4) by (auto simp: pp_free_iff)
    moreover have "(4 :: nat) < 2 ^ 19" by simp
    ultimately have "page_addr 4 \<noteq> page_addr p" using page_addr_inj [of 4 p] by simp
    then show ?thesis using page_kernel_phys [OF \<open>p < 2 ^ 19\<close>] page_kernel_phys [OF \<open>(4 :: nat) < 2 ^ 19\<close>] by metis
  qed
  have n: "(0 :: int) \<le> 1" "(1 :: int) < 32" "(0 :: int) \<noteq> 1" "(2 :: nat) < 32" "2 \<noteq> nat 1" by simp_all
  have t: "?tp \<noteq> 0" "pt_inv (p_tables (ex_fork ?tp) ?tp)" "\<And>a. length (entries (p_tables (ex_fork ?tp) a)) = PAGETABLE_ENTRIES"
    "\<And>p. p \<in> pp_free (p_pool (ex_fork ?tp)) \<Longrightarrow> ?tp \<noteq> ADDR_PHYS_TO_KERNEL (page_addr p)"
    by (simp_all add: ex_fork_facts kernel_nonzero ex_parent_facts tp)
  have f: "unat f < 2 ^ 19 \<and> unat f \<notin> pp_free (p_pool (ex_fork ?tp))" if "f \<in> set (table_frames (p_tables (ex_fork ?tp) ?tp))" for f
    using that by (simp add: ex_fork_facts ex_parent_facts small_pool_free)
  have q: "pp_inv (p_pool (ex_fork ?tp))" "pp_pages (p_pool (ex_fork ?tp)) \<le> 2 ^ 19"
    "Suc (length (table_frames (p_tables (ex_fork ?tp) ?tp))) \<le> card (pp_free (p_pool (ex_fork ?tp)))"
    by (simp_all add: ex_fork_facts ex_parent_facts small_pool_inv small_pool_facts)
  obtain ctx s' table where f: "fork_prepare 1 (ex_fork ?tp) 0 = Inr (ctx, s')"
    "space_copy (p_mem (ex_fork ?tp)) (pt_lookup (p_tables (ex_fork ?tp) ?tp)) (p_mem s') (pt_lookup (p_tables s' table)) (pp_free (p_pool (ex_fork ?tp)) - pp_free (p_pool s'))"
    using fork_copies_memory [OF ex_fork_facts(1-5) [of ?tp] n(1,2) ex_fork_facts(6) n(3-5) ex_fork_facts(7,9,8) t(1,2,4) f q t(3)]
    by blast
  have "vpn2_of 0x4000 = 2" "\<not> bit (0x4000 :: u32) 12" by (simp add: vpn2_of_def drop_bit_eq_div) code_simp
  then have l: "pt_lookup ex_parent_table 0x4000 = Some (1, True)"
    by (simp add: pt_lookup_def ex_parent_used entry_lookup_def)
  have m: "frame_byte (p_mem (ex_fork ?tp)) 1 7 = 0" by (simp add: frame_byte_def ex_fork_def ex_proc_def)
  have "case pt_lookup ex_parent_table 0x4000 of None \<Rightarrow> pt_lookup (p_tables s' table) 0x4000 = None
      | Some (f, w) \<Rightarrow> \<exists>g. pt_lookup (p_tables s' table) 0x4000 = Some (g, w) \<and> unat g \<in> pp_free small_pool - pp_free (p_pool s')
          \<and> (\<forall>k < 4096. frame_byte (p_mem s') g k = frame_byte (p_mem (ex_fork ?tp)) f k)"
    using f(2) unfolding space_copy_def ex_fork_facts by blast
  then obtain g where "pt_lookup (p_tables s' table) 0x4000 = Some (g, True)" "frame_byte (p_mem s') g 7 = 0"
    using l m by auto
  then show ?thesis using f(1) by blast
qed

end
