(* ===== verification/Usr_sem.thy ===== *)
theory Usr_sem
  imports Semaphore Libc
begin

text \<open>
  \<^verbatim>\<open>proc/usr_sem.c\<close>: the semaphores of user programs, a table of named kernel semaphores. A user
  semaphore is the address of its entry; programs may pass any address. The table is locked in
  \<open>usr_sem_open\<close> only.
\<close>

section \<open>The code\<close>

datatype usr_sem_state_t = USR_SEM_FREE | USR_SEM_USED

record usr_sem_block_t =
  us_state :: usr_sem_state_t
  us_name :: "u8 list"
  kernel_sem :: "nat option"

record usem_t =
  usm :: semstate
  usr_sem_table :: "usr_sem_block_t list"

abbreviation (input) MAX_USR_SEM :: nat where "MAX_USR_SEM \<equiv> 32"
abbreviation (input) MAX_USR_SEM_NAME :: int where "MAX_USR_SEM_NAME \<equiv> 32"
abbreviation (input) USR_SEM_ERROR_NOT_IN_USE :: int where "USR_SEM_ERROR_NOT_IN_USE \<equiv> -1"

text \<open>The table is at address \<open>base\<close>; an entry has 40 bytes.\<close>

definition usr_addr :: "u32 \<Rightarrow> nat \<Rightarrow> u32" where
  "usr_addr base i = base + 40 * of_nat i"

definition usr_sem_init :: "usem_t \<Rightarrow> usem_t" where
  "usr_sem_init s = s\<lparr>usr_sem_table := map (\<lambda>b. b\<lparr>us_state := USR_SEM_FREE\<rparr>) (usr_sem_table s)\<rparr>"

text \<open>
  The pointer is accepted when it points into the table. \<open>usr_deref\<close> is the entry that it points
  to; a pointer to the middle of an entry does not point to an object of the type.
\<close>

definition find_sem :: "u32 \<Rightarrow> u32 \<Rightarrow> u32" where
  "find_sem base p = (if p \<ge> base \<and> p < base + 40 * of_nat MAX_USR_SEM then p else 0)"

definition usr_deref :: "u32 \<Rightarrow> usem_t \<Rightarrow> u32 \<Rightarrow> (nat \<times> usr_sem_block_t) res" where
  "usr_deref base s p =
     (let d = unat (p - base) in
      if d mod 40 \<noteq> 0 then Inl Bad_access
      else rbind (aget (usr_sem_table s) (int (d div 40))) (\<lambda>b. Inr (d div 40, b)))"

text \<open>The first entry that is in use under the name; the name is compared only for entries in use.\<close>

definition usr_sem_named :: "usem_t \<Rightarrow> u8 list \<Rightarrow> nat res" where
  "usr_sem_named s name =
     first_indexR (\<lambda>b. if us_state b = USR_SEM_USED then rbind (stringcmp (us_name b) name) (\<lambda>d. Inr (d = 0)) else Inr False) (usr_sem_table s)"

definition usr_sem_open :: "u32 \<Rightarrow> usem_t \<Rightarrow> nat \<Rightarrow> u8 list \<Rightarrow> int \<Rightarrow> (u32 \<times> usem_t) res" where
  "usr_sem_open base s cpu name v =
     rbind (usr_sem_named s name) (\<lambda>i.
     if v < 0 then Inr (if i < length (usr_sem_table s) then usr_addr base i else 0, s)
     else if i < length (usr_sem_table s) then Inr (0, s)
     else
       let j = first_index (\<lambda>b. us_state b = USR_SEM_FREE) (usr_sem_table s) in
       if j < length (usr_sem_table s) then
         rbind (stringcopy (us_name (usr_sem_table s ! j)) name MAX_USR_SEM_NAME) (\<lambda>nm.
         rbind (semaphore_create (usm s) cpu v) (\<lambda>(k, sm).
           Inr (usr_addr base j, s\<lparr>usm := sm, usr_sem_table := (usr_sem_table s)[j := \<lparr>us_state = USR_SEM_USED, us_name = nm, kernel_sem = k\<rparr>]\<rparr>)))
       else Inr (0, s))"

text \<open>The test at the start of the operations: the entry, or \<open>None\<close> when it is not in use.\<close>

definition usr_sem_lookup :: "u32 \<Rightarrow> usem_t \<Rightarrow> u32 \<Rightarrow> (nat \<times> usr_sem_block_t) option res" where
  "usr_sem_lookup base s p =
     (if find_sem base p = 0 then Inr None
      else rbind (usr_deref base s p) (\<lambda>(i, b). Inr (if us_state b \<noteq> USR_SEM_USED then None else Some (i, b))))"

definition usr_sem_p :: "u32 \<Rightarrow> u32 \<Rightarrow> usem_t \<Rightarrow> nat \<Rightarrow> u32 \<Rightarrow> u32 \<Rightarrow> (int \<times> usem_t) ores" where
  "usr_sem_p sems base s cpu p rnd =
     obind (Some (usr_sem_lookup base s p)) (\<lambda>r.
       case r of
         None \<Rightarrow> Some (Inr (USR_SEM_ERROR_NOT_IN_USE, s))
       | Some (i, b) \<Rightarrow>
           (case kernel_sem b of
              None \<Rightarrow> Some (Inl Bad_access)
            | Some k \<Rightarrow> obind (semaphore_P sems (usm s) cpu k rnd) (\<lambda>sm. Some (Inr (0, s\<lparr>usm := sm\<rparr>)))))"

definition usr_sem_v :: "u32 \<Rightarrow> u32 \<Rightarrow> usem_t \<Rightarrow> u32 \<Rightarrow> (int \<times> usem_t) ores" where
  "usr_sem_v sems base s p =
     obind (Some (usr_sem_lookup base s p)) (\<lambda>r.
       case r of
         None \<Rightarrow> Some (Inr (USR_SEM_ERROR_NOT_IN_USE, s))
       | Some (i, b) \<Rightarrow>
           (case kernel_sem b of
              None \<Rightarrow> Some (Inl Bad_access)
            | Some k \<Rightarrow> obind (semaphore_V sems (usm s) k) (\<lambda>sm. Some (Inr (0, s\<lparr>usm := sm\<rparr>)))))"

definition usr_sem_destroy :: "u32 \<Rightarrow> usem_t \<Rightarrow> u32 \<Rightarrow> (int \<times> usem_t) res" where
  "usr_sem_destroy base s p =
     rbind (usr_sem_lookup base s p) (\<lambda>r.
       case r of
         None \<Rightarrow> Inr (0, s)
       | Some (i, b) \<Rightarrow>
           (case kernel_sem b of
              None \<Rightarrow> Inl Bad_access
            | Some k \<Rightarrow>
                rbind (aget (semaphore_table (usm s)) (int k)) (\<lambda>x.
                if sem_value x < 0 then Inr (0, s)
                else
                  rbind (semaphore_destroy (usm s) k) (\<lambda>sm.
                    Inr (1, s\<lparr>usm := sm, usr_sem_table := (usr_sem_table s)[i := b\<lparr>us_state := USR_SEM_FREE\<rparr>]\<rparr>)))))"

section \<open>The invariant and the abstract view\<close>

definition usr_used :: "usem_t \<Rightarrow> nat \<Rightarrow> bool" where
  "usr_used s i \<longleftrightarrow> i < length (usr_sem_table s) \<and> us_state (usr_sem_table s ! i) = USR_SEM_USED"

text \<open>
  The name of an entry that is in use, and the semaphores by name, as entries of the table.
\<close>

definition usr_name :: "usem_t \<Rightarrow> nat \<Rightarrow> u8 list" where
  "usr_name s i = takeWhile (\<lambda>c. c \<noteq> 0) (us_name (usr_sem_table s ! i))"

definition usr_view :: "usem_t \<Rightarrow> u8 list \<Rightarrow> nat option" where
  "usr_view s w =
     (let i = first_index (\<lambda>b. us_state b = USR_SEM_USED \<and> takeWhile (\<lambda>c. c \<noteq> 0) (us_name b) = w) (usr_sem_table s)
      in if i < length (usr_sem_table s) then Some i else None)"

text \<open>
  Names are terminated and different, and the kernel semaphores of the entries are live and
  different. An entry whose semaphore could not be created has none.
\<close>

definition usr_inv :: "u32 \<Rightarrow> usem_t \<Rightarrow> int list \<Rightarrow> (nat \<Rightarrow> int list) \<Rightarrow> bool" where
  "usr_inv sems s rs qs \<longleftrightarrow> sem_inv sems (usm s) rs qs \<and> length (usr_sem_table s) = MAX_USR_SEM
     \<and> (\<forall>b \<in> set (usr_sem_table s). length (us_name b) = nat MAX_USR_SEM_NAME)
     \<and> (\<forall>i. usr_used s i \<longrightarrow> 0 \<in> set (us_name (usr_sem_table s ! i)))
     \<and> (\<forall>i j. usr_used s i \<and> usr_used s j \<and> usr_name s i = usr_name s j \<longrightarrow> i = j)
     \<and> (\<forall>i k. usr_used s i \<and> kernel_sem (usr_sem_table s ! i) = Some k \<longrightarrow> k < 128 \<and> creator (semaphore_table (usm s) ! k) \<noteq> -1)
     \<and> (\<forall>i j k. usr_used s i \<and> usr_used s j \<and> kernel_sem (usr_sem_table s ! i) = Some k \<and> kernel_sem (usr_sem_table s ! j) = Some k \<longrightarrow> i = j)"

definition usr_base_ok :: "u32 \<Rightarrow> bool" where
  "usr_base_ok base \<longleftrightarrow> 0 < unat base \<and> unat base + 40 * MAX_USR_SEM < 2 ^ 32"

lemma usr_addr_unat: "usr_base_ok base \<Longrightarrow> i \<le> 32 \<Longrightarrow> unat (usr_addr base i) = unat base + 40 * i"
  using unat_plus_less [of base "40 * i"] by (simp add: usr_base_ok_def usr_addr_def)

lemma usr_lookup_eq:
  assumes b: "usr_base_ok base" and i: "i < 32" and l: "length (usr_sem_table s) = 32"
  shows "usr_sem_lookup base s (usr_addr base i) =
    Inr (if us_state (usr_sem_table s ! i) \<noteq> USR_SEM_USED then None else Some (i, usr_sem_table s ! i))"
proof -
  have u: "unat (usr_addr base i) = unat base + 40 * i" "unat (usr_addr base 32) = unat base + 1280"
    using usr_addr_unat [OF b] i by simp_all
  have e: "base + 40 * of_nat 32 = usr_addr base 32" by (simp add: usr_addr_def)
  have "find_sem base (usr_addr base i) = usr_addr base i" "usr_addr base i \<noteq> 0"
    using u i b unfolding find_sem_def e by (auto simp: word_le_nat_alt word_less_nat_alt usr_base_ok_def)
  moreover have "unat (usr_addr base i - base) = 40 * i"
    using u i by (simp add: usr_addr_def unat_of_nat unat_word_ariths)
  ultimately show ?thesis using i l by (simp add: usr_sem_lookup_def usr_deref_def aget_def)
qed

lemma usr_invD:
  assumes "usr_inv sems s rs qs"
  shows "sem_inv sems (usm s) rs qs" "length (usr_sem_table s) = 32" "\<And>b. b \<in> set (usr_sem_table s) \<Longrightarrow> length (us_name b) = 32"
    "\<And>i. usr_used s i \<Longrightarrow> 0 \<in> set (us_name (usr_sem_table s ! i))"
    "\<And>i j. usr_used s i \<Longrightarrow> usr_used s j \<Longrightarrow> usr_name s i = usr_name s j \<Longrightarrow> i = j"
    "\<And>i k. usr_used s i \<Longrightarrow> kernel_sem (usr_sem_table s ! i) = Some k \<Longrightarrow> k < 128 \<and> creator (semaphore_table (usm s) ! k) \<noteq> -1"
    "\<And>i j k. usr_used s i \<Longrightarrow> usr_used s j \<Longrightarrow> kernel_sem (usr_sem_table s ! i) = Some k \<Longrightarrow> kernel_sem (usr_sem_table s ! j) = Some k \<Longrightarrow> i = j"
  using assms unfolding usr_inv_def by simp_all

lemma option_eqI: "(\<And>a. x = Some a \<longleftrightarrow> y = Some a) \<Longrightarrow> x = y"
  by (cases x; cases y) auto

lemma cstr_of_takeWhile: "0 \<in> set b \<Longrightarrow> cstr (takeWhile (\<lambda>c. c \<noteq> 0) b) b"
  by (induction b) auto

lemma takeWhile_cstr: "cstr w b \<Longrightarrow> takeWhile (\<lambda>c. c \<noteq> 0) b = w"
  by (induction b arbitrary: w) (auto split: if_splits)

lemma usr_cstr: "usr_inv sems s rs qs \<Longrightarrow> usr_used s i \<Longrightarrow> cstr (usr_name s i) (us_name (usr_sem_table s ! i))"
  using usr_invD(4) [of sems s rs qs i] cstr_of_takeWhile by (simp add: usr_name_def)

lemma usr_view_iff:
  assumes "usr_inv sems s rs qs"
  shows "usr_view s w = Some i \<longleftrightarrow> usr_used s i \<and> usr_name s i = w"
proof -
  let ?P = "\<lambda>b. us_state b = USR_SEM_USED \<and> takeWhile (\<lambda>c. c \<noteq> 0) (us_name b) = w"
  have hit: "?P (usr_sem_table s ! j) \<longleftrightarrow> usr_used s j \<and> usr_name s j = w" if "j < length (usr_sem_table s)" for j
    using that by (simp add: usr_used_def usr_name_def)
  show ?thesis
  proof
    assume "usr_view s w = Some i"
    then show "usr_used s i \<and> usr_name s i = w"
      using hit [of i] first_index_hit [of ?P "usr_sem_table s"] by (auto simp: usr_view_def Let_def split: if_splits)
  next
    assume h: "usr_used s i \<and> usr_name s i = w"
    then have il: "i < length (usr_sem_table s)" by (simp add: usr_used_def)
    have "first_index ?P (usr_sem_table s) = i"
    proof (rule first_index_unique [OF il])
      show "?P (usr_sem_table s ! i)" using hit [OF il] h by blast
      fix j assume j: "j < i"
      then have "\<not> (usr_used s j \<and> usr_name s j = w)" using usr_invD(5) [OF assms, of j i] h by auto
      then show "\<not> ?P (usr_sem_table s ! j)" using hit [of j] j il by simp
    qed
    then show "usr_view s w = Some i" using il by (simp add: usr_view_def)
  qed
qed

lemma usr_view_None: "usr_inv sems s rs qs \<Longrightarrow> usr_view s w = None \<longleftrightarrow> (\<forall>i. usr_used s i \<longrightarrow> usr_name s i \<noteq> w)"
  using usr_view_iff [of sems s rs qs w] by (metis not_None_eq)

lemma usr_named_eq:
  assumes inv: "usr_inv sems s rs qs" and n: "cstr w name"
  shows "usr_sem_named s name = Inr (case usr_view s w of Some i \<Rightarrow> i | None \<Rightarrow> 32)"
proof -
  have "(if us_state b = USR_SEM_USED then rbind (stringcmp (us_name b) name) (\<lambda>d. Inr (d = 0)) else Inr False)
      = Inr (us_state b = USR_SEM_USED \<and> takeWhile (\<lambda>c. c \<noteq> 0) (us_name b) = w)" if b: "b \<in> set (usr_sem_table s)" for b
  proof (cases "us_state b = USR_SEM_USED")
    case True
    obtain i where i: "i < length (usr_sem_table s)" "usr_sem_table s ! i = b" using b by (auto simp: in_set_conv_nth)
    then have "cstr (takeWhile (\<lambda>c. c \<noteq> 0) (us_name b)) (us_name b)"
      using usr_cstr [OF inv, of i] True by (simp add: usr_used_def usr_name_def)
    then show ?thesis using stringcmp_total [OF _ n] stringcmp_eq [OF _ n] True by fastforce
  qed simp
  then have "usr_sem_named s name = Inr (first_index (\<lambda>b. us_state b = USR_SEM_USED \<and> takeWhile (\<lambda>c. c \<noteq> 0) (us_name b) = w) (usr_sem_table s))"
    unfolding usr_sem_named_def by (rule first_indexR_total)
  then show ?thesis
    using first_index_le [of "\<lambda>b. us_state b = USR_SEM_USED \<and> takeWhile (\<lambda>c. c \<noteq> 0) (us_name b) = w" "usr_sem_table s"] usr_invD(2) [OF inv]
    by (auto simp: usr_view_def Let_def)
qed

section \<open>Opening\<close>

text \<open>
  An entry is taken for a new semaphore.
\<close>

lemma usr_open_inv:
  assumes inv: "usr_inv sems s rs qs" and c: "c < 4" and v: "0 \<le> v" "v \<le> INT_MAX" and new: "usr_view s w = None"
    and j: "j < 32" "us_state (usr_sem_table s ! j) = USR_SEM_FREE" and nm: "cstr w nm" "length nm = 32"
    and cr: "semaphore_create (usm s) c v = Inr (k, sm)"
    and s': "s' = s\<lparr>usm := sm, usr_sem_table := (usr_sem_table s)[j := \<lparr>us_state = USR_SEM_USED, us_name = nm, kernel_sem = k\<rparr>]\<rparr>"
  shows "usr_inv sems s' rs qs" "usr_view s' = (usr_view s)(w \<mapsto> j)"
proof -
  note i = usr_invD [OF inv]
  have cs: "sem_inv sems sm rs qs" "\<And>i. i < 128 \<Longrightarrow> creator (semaphore_table (usm s) ! i) \<noteq> -1 \<Longrightarrow> creator (semaphore_table sm ! i) \<noteq> -1 \<and> k \<noteq> Some i"
    "\<And>i. k = Some i \<Longrightarrow> i < 128 \<and> creator (semaphore_table sm ! i) \<noteq> -1"
  proof -
    have l: "length (semaphore_table (usm s)) = 128" using i(1) by (simp add: sem_inv_def)
    have r: "sem_inv sems sm rs qs" "case k of None \<Rightarrow> semaphore_table sm = semaphore_table (usm s)
      | Some i \<Rightarrow> i < 128 \<and> creator (semaphore_table (usm s) ! i) = -1
          \<and> (\<exists>t. t \<noteq> -1 \<and> semaphore_table sm = (semaphore_table (usm s))[i := (semaphore_table (usm s) ! i)\<lparr>creator := t, sem_value := v\<rparr>])"
      using create_spec [OF i(1) c v] cr by (auto split: option.splits)
    then show "sem_inv sems sm rs qs" by blast
    show "creator (semaphore_table sm ! i) \<noteq> -1 \<and> k \<noteq> Some i" if "i < 128" "creator (semaphore_table (usm s) ! i) \<noteq> -1" for i
      using r(2) that l by (cases k) (auto simp: nth_list_update split: if_splits)
    show "i < 128 \<and> creator (semaphore_table sm ! i) \<noteq> -1" if "k = Some i" for i
      using r(2) that l by auto
  qed
  have jl: "j < length (usr_sem_table s)" using j(1) i(2) by simp
  have free: "\<not> usr_used s j" using j(2) by (simp add: usr_used_def)
  have used: "usr_used s' a \<longleftrightarrow> a = j \<or> usr_used s a" for a using s' jl by (auto simp: usr_used_def nth_list_update)
  have name: "usr_name s' a = (if a = j then w else usr_name s a)" for a
    using s' jl takeWhile_cstr [OF nm(1)] by (simp add: usr_name_def)
  have ks: "kernel_sem (usr_sem_table s' ! a) = (if a = j then k else kernel_sem (usr_sem_table s ! a))" for a using s' jl by simp
  have old: "usr_name s a \<noteq> w" if "usr_used s a" for a using new usr_view_None [OF inv] that by blast
  have z: "0 \<in> set nm" using nm(1) by (auto simp: cstr_def)
  show inv': "usr_inv sems s' rs qs"
    unfolding usr_inv_def
  proof (intro conjI allI impI ballI)
    show "sem_inv sems (usm s') rs qs" "length (usr_sem_table s') = 32" using cs(1) s' i(2) by simp_all
    show "length (us_name b) = nat 32" if "b \<in> set (usr_sem_table s')" for b
      using that s' i(3) nm(2) set_update_subset_insert by fastforce
    show "0 \<in> set (us_name (usr_sem_table s' ! a))" if "usr_used s' a" for a
      using that used i(4) s' jl z by (cases "a = j") auto
    show "a = b" if "usr_used s' a \<and> usr_used s' b \<and> usr_name s' a = usr_name s' b" for a b
      using that i(5) [of a b] old [of a] old [of b] unfolding used name by (cases "a = j"; cases "b = j") auto
    show "m < 128" "creator (semaphore_table (usm s') ! m) \<noteq> -1" if h: "usr_used s' a \<and> kernel_sem (usr_sem_table s' ! a) = Some m" for a m
      using h cs(2,3) i(6) [of a m] s' unfolding used ks by (auto split: if_splits)
    show "a = b" if h: "usr_used s' a \<and> usr_used s' b \<and> kernel_sem (usr_sem_table s' ! a) = Some m \<and> kernel_sem (usr_sem_table s' ! b) = Some m" for a b m
      using h i(7) [of a b m] i(6) [of a m] i(6) [of b m] cs(2) [of m] unfolding used ks by (auto split: if_splits)
  qed
  show "usr_view s' = (usr_view s)(w \<mapsto> j)"
  proof
    fix w'
    show "usr_view s' w' = ((usr_view s)(w \<mapsto> j)) w'"
    proof (rule option_eqI)
      fix a
      show "usr_view s' w' = Some a \<longleftrightarrow> ((usr_view s)(w \<mapsto> j)) w' = Some a"
        using usr_view_iff [OF inv', of w' a] usr_view_iff [OF inv, of w' a] free old by (auto simp: used name)
    qed
  qed
qed

lemma usr_create_eq:
  assumes inv: "usr_inv sems s rs qs" and c: "c < 4" and v: "0 \<le> v" and w: "cstr w name" "usr_view s w = None"
    and j: "first_index (\<lambda>b. us_state b = USR_SEM_FREE) (usr_sem_table s) = j" "j < 32"
  obtains nm k sm where "usr_sem_open base s c name v =
      Inr (usr_addr base j, s\<lparr>usm := sm, usr_sem_table := (usr_sem_table s)[j := \<lparr>us_state = USR_SEM_USED, us_name = nm, kernel_sem = k\<rparr>]\<rparr>)"
    "cstr (take 31 w) nm" "length nm = 32" "semaphore_create (usm s) c v = Inr (k, sm)" "us_state (usr_sem_table s ! j) = USR_SEM_FREE"
    "case k of None \<Rightarrow> \<forall>i < 128. creator (semaphore_table (usm s) ! i) \<noteq> -1 | Some i \<Rightarrow> sem_value (semaphore_table sm ! i) = v"
proof -
  note i = usr_invD [OF inv]
  have l: "length (semaphore_table (usm s)) = 128" using i(1) by (simp add: sem_inv_def)
  obtain k sm where k: "semaphore_create (usm s) c v = Inr (k, sm)"
    "case k of None \<Rightarrow> \<forall>i < 128. creator (semaphore_table (usm s) ! i) \<noteq> -1 | Some i \<Rightarrow> sem_value (semaphore_table sm ! i) = v"
  proof -
    have "kinv (kern (usm s)) rs qs" "0 \<le> next_sem (usm s)" "next_sem (usm s) < 128" using i(1) by (simp_all add: sem_inv_def)
    from create_step [OF this(1) l this(2,3) c v] show ?thesis using that l by (fastforce split: option.splits)
  qed
  have "length (us_name (usr_sem_table s ! j)) = 32" using i(2,3) j(2) nth_mem by metis
  then obtain nm where nm: "stringcopy (us_name (usr_sem_table s ! j)) name 32 = Inr nm" "cstr (take 31 w) nm" "length nm = 32"
    using stringcopy_total [OF w(1), of 32 "us_name (usr_sem_table s ! j)"] by auto
  have f: "us_state (usr_sem_table s ! j) = USR_SEM_FREE" using first_index_hit [of "\<lambda>b. us_state b = USR_SEM_FREE" "usr_sem_table s"] j i(2) by auto
  have "usr_sem_open base s c name v =
      Inr (usr_addr base j, s\<lparr>usm := sm, usr_sem_table := (usr_sem_table s)[j := \<lparr>us_state = USR_SEM_USED, us_name = nm, kernel_sem = k\<rparr>]\<rparr>)"
    using usr_named_eq [OF inv w(1)] w(2) v i(2) j k(1) nm(1) by (simp add: usr_sem_open_def)
  then show ?thesis using that k nm(2,3) f by blast
qed

text \<open>
  C31. \<^verbatim>\<open>usr_sem_open\<close> with a name of at most 31 characters implements a table of named semaphores: a
  negative value looks the name up; otherwise the name is added with a new kernel semaphore
  of that value (a C integer) when it is new and an entry is free, and NULL is returned when not. The invariant of
  the table is kept. When the kernel has no semaphore left the entry is made all the same,
  without one.
\<close>

theorem usr_sem_open_correct:
  assumes inv: "usr_inv sems s rs qs" and c: "c < 4" and w: "cstr w name" "length w \<le> 31" and max: "v \<le> INT_MAX"
  shows "if v < 0 then usr_sem_open base s c name v = Inr (case usr_view s w of Some i \<Rightarrow> usr_addr base i | None \<Rightarrow> 0, s)
    else if usr_view s w \<noteq> None \<or> (\<forall>i < 32. usr_used s i) then usr_sem_open base s c name v = Inr (0, s)
    else \<exists>j s'. usr_sem_open base s c name v = Inr (usr_addr base j, s') \<and> j < 32 \<and> \<not> usr_used s j
      \<and> usr_inv sems s' rs qs \<and> usr_view s' = (usr_view s)(w \<mapsto> j)
      \<and> (case kernel_sem (usr_sem_table s' ! j) of None \<Rightarrow> \<forall>i < 128. creator (semaphore_table (usm s) ! i) \<noteq> -1
          | Some k \<Rightarrow> sem_value (semaphore_table (usm s') ! k) = v)"
proof -
  note i = usr_invD [OF inv]
  have vb: "k < 32" if "usr_view s w = Some k" for k using usr_view_iff [OF inv, of w k] that i(2) by (auto simp: usr_used_def)
  let ?j = "first_index (\<lambda>b. us_state b = USR_SEM_FREE) (usr_sem_table s)"
  have full: "?j = 32 \<longleftrightarrow> (\<forall>i < 32. usr_used s i)"
    using first_index_eq_length_iff [of "\<lambda>b. us_state b = USR_SEM_FREE" "usr_sem_table s"] i(2)
    by (auto simp: usr_used_def all_set_conv_all_nth) (metis usr_sem_state_t.exhaust)
  show ?thesis
  proof (cases "v < 0 \<or> usr_view s w \<noteq> None \<or> (\<forall>i < 32. usr_used s i)")
    case True
    then show ?thesis using usr_named_eq [OF inv w(1)] vb full i(2) by (auto simp: usr_sem_open_def split: option.splits)
  next
    case False
    then have h: "0 \<le> v" "usr_view s w = None" "?j < 32" using full first_index_le [of "\<lambda>b. us_state b = USR_SEM_FREE" "usr_sem_table s"] i(2) by auto
    obtain nm k sm where o: "usr_sem_open base s c name v =
        Inr (usr_addr base ?j, s\<lparr>usm := sm, usr_sem_table := (usr_sem_table s)[?j := \<lparr>us_state = USR_SEM_USED, us_name = nm, kernel_sem = k\<rparr>]\<rparr>)"
      "cstr (take 31 w) nm" "length nm = 32" "semaphore_create (usm s) c v = Inr (k, sm)" "us_state (usr_sem_table s ! ?j) = USR_SEM_FREE"
      "case k of None \<Rightarrow> \<forall>i < 128. creator (semaphore_table (usm s) ! i) \<noteq> -1 | Some i \<Rightarrow> sem_value (semaphore_table sm ! i) = v"
      by (rule usr_create_eq [OF inv c h(1) w(1) h(2) refl h(3)])
    let ?s = "s\<lparr>usm := sm, usr_sem_table := (usr_sem_table s)[?j := \<lparr>us_state = USR_SEM_USED, us_name = nm, kernel_sem = k\<rparr>]\<rparr>"
    have nm: "cstr w nm" using o(2) w(2) by simp
    note n = usr_open_inv [OF inv c h(1) max h(2,3) o(5) nm o(3,4) refl]
    have "\<not> usr_used s ?j" using o(5) by (simp add: usr_used_def)
    then have "\<exists>j s'. usr_sem_open base s c name v = Inr (usr_addr base j, s') \<and> j < 32 \<and> \<not> usr_used s j
      \<and> usr_inv sems s' rs qs \<and> usr_view s' = (usr_view s)(w \<mapsto> j)
      \<and> (case kernel_sem (usr_sem_table s' ! j) of None \<Rightarrow> \<forall>i < 128. creator (semaphore_table (usm s) ! i) \<noteq> -1
          | Some k \<Rightarrow> sem_value (semaphore_table (usm s') ! k) = v)"
      using o(1,6) h(3) n i(2) by (intro exI [of _ ?j] exI [of _ ?s]) (simp split: option.splits)
    then show ?thesis using False by auto
  qed
qed

text \<open>
  A name of more than 31 characters is cut off when it is stored but compared in full: the
  semaphore that was created under it can never be opened, and creating it again succeeds as long as
  there are free entries, so that several entries have the same name.
\<close>

theorem usr_sem_long_name:
  assumes inv: "usr_inv sems s rs qs" and c: "c < 4" and w: "cstr w name" "31 < length w"
  shows "(v < 0 \<longrightarrow> usr_sem_open base s c name v = Inr (0, s))
    \<and> (0 \<le> v \<and> (\<exists>i < 32. \<not> usr_used s i) \<longrightarrow>
         (\<exists>j s'. usr_sem_open base s c name v = Inr (usr_addr base j, s') \<and> \<not> usr_used s j \<and> usr_used s' j \<and> usr_name s' j = take 31 w
            \<and> (\<forall>i. usr_used s i \<longrightarrow> usr_used s' i \<and> usr_name s' i = usr_name s i)))"
proof -
  note i = usr_invD [OF inv]
  have "usr_name s k \<noteq> w" if "usr_used s k" for k
  proof -
    have "length (us_name (usr_sem_table s ! k)) = 32" using i(3) that nth_mem by (auto simp: usr_used_def)
    then show ?thesis using cstr_length [OF usr_cstr [OF inv that]] w(2) by auto
  qed
  then have none: "usr_view s w = None" using usr_view_None [OF inv] by blast
  let ?j = "first_index (\<lambda>b. us_state b = USR_SEM_FREE) (usr_sem_table s)"
  have "\<exists>j s'. usr_sem_open base s c name v = Inr (usr_addr base j, s') \<and> \<not> usr_used s j \<and> usr_used s' j \<and> usr_name s' j = take 31 w
      \<and> (\<forall>i. usr_used s i \<longrightarrow> usr_used s' i \<and> usr_name s' i = usr_name s i)" if h: "0 \<le> v" "\<exists>i < 32. \<not> usr_used s i"
  proof -
    obtain a where a: "a < 32" "us_state (usr_sem_table s ! a) \<noteq> USR_SEM_USED" using h(2) i(2) by (auto simp: usr_used_def)
    then have "us_state (usr_sem_table s ! a) = USR_SEM_FREE" by (cases "us_state (usr_sem_table s ! a)") auto
    then have "\<exists>x \<in> set (usr_sem_table s). us_state x = USR_SEM_FREE" using a(1) i(2) by (intro bexI [of _ "usr_sem_table s ! a"]) simp_all
    then have j: "?j < 32" using first_index_less_iff [of "\<lambda>b. us_state b = USR_SEM_FREE" "usr_sem_table s"] i(2) by simp
    obtain nm k sm where o: "usr_sem_open base s c name v =
        Inr (usr_addr base ?j, s\<lparr>usm := sm, usr_sem_table := (usr_sem_table s)[?j := \<lparr>us_state = USR_SEM_USED, us_name = nm, kernel_sem = k\<rparr>]\<rparr>)"
      "cstr (take 31 w) nm" "length nm = 32" "semaphore_create (usm s) c v = Inr (k, sm)" "us_state (usr_sem_table s ! ?j) = USR_SEM_FREE"
      by (rule usr_create_eq [OF inv c h(1) w(1) none refl j])
    let ?s = "s\<lparr>usm := sm, usr_sem_table := (usr_sem_table s)[?j := \<lparr>us_state = USR_SEM_USED, us_name = nm, kernel_sem = k\<rparr>]\<rparr>"
    have "usr_used ?s ?j" "\<not> usr_used s ?j" using o(5) i(2) j by (simp_all add: usr_used_def)
    moreover have "usr_name ?s ?j = take 31 w" using takeWhile_cstr [OF o(2)] i(2) j by (simp add: usr_name_def)
    moreover have "usr_used ?s a \<and> usr_name ?s a = usr_name s a" if "usr_used s a" for a
      using that \<open>\<not> usr_used s ?j\<close> by (cases "a = ?j") (auto simp: usr_used_def usr_name_def)
    ultimately show ?thesis using o(1) by blast
  qed
  then show ?thesis using usr_named_eq [OF inv w(1)] none i(2) by (auto simp: usr_sem_open_def)
qed

section \<open>Using and destroying\<close>

lemma usr_destroy_inv:
  assumes inv: "usr_inv sems s rs qs" and u: "usr_used s i" and k: "kernel_sem (usr_sem_table s ! i) = Some k"
    and v: "\<not> sem_value (semaphore_table (usm s) ! k) < 0"
    and s': "s' = s\<lparr>usm := (usm s)\<lparr>semaphore_table := (semaphore_table (usm s))[k := (semaphore_table (usm s) ! k)\<lparr>creator := -1\<rparr>]\<rparr>,
        usr_sem_table := (usr_sem_table s)[i := (usr_sem_table s ! i)\<lparr>us_state := USR_SEM_FREE\<rparr>]\<rparr>"
  shows "usr_inv sems s' rs qs" "usr_view s' = (usr_view s)(usr_name s i := None)" "creator (semaphore_table (usm s') ! k) = -1"
proof -
  note n = usr_invD [OF inv]
  have kb: "k < 128" "creator (semaphore_table (usm s) ! k) \<noteq> -1" and l: "length (semaphore_table (usm s)) = 128"
    using n(6) [OF u k] n(1) by (auto simp: sem_inv_def)
  have il: "i < length (usr_sem_table s)" using u by (simp add: usr_used_def)
  have used: "usr_used s' a \<longleftrightarrow> a \<noteq> i \<and> usr_used s a" for a using s' il by (auto simp: usr_used_def nth_list_update)
  have name: "usr_name s' a = usr_name s a" for a using s' il by (simp add: usr_name_def nth_list_update)
  have ks: "kernel_sem (usr_sem_table s' ! a) = kernel_sem (usr_sem_table s ! a)" "us_name (usr_sem_table s' ! a) = us_name (usr_sem_table s ! a)" for a
    using s' il by (simp_all add: nth_list_update)
  have cr: "creator (semaphore_table (usm s') ! a) = (if a = k then -1 else creator (semaphore_table (usm s) ! a))" for a using s' kb(1) l by simp
  have "length (waiting (kern (usm s)) qs (sem_addr sems k)) = 0" using sem_inv_value [OF n(1) kb] v by simp
  then have si: "sem_inv sems (usm s') rs qs" using n(1) s' kb(1) l by (auto simp: sem_inv_def nth_list_update)
  show inv': "usr_inv sems s' rs qs"
    unfolding usr_inv_def
  proof (intro conjI allI impI ballI)
    show "sem_inv sems (usm s') rs qs" "length (usr_sem_table s') = 32" using si s' n(2) by simp_all
    show "length (us_name b) = nat 32" if "b \<in> set (usr_sem_table s')" for b
      using that n(2,3) ks(2) s' by (auto simp: in_set_conv_nth) (metis nth_mem)
    show "0 \<in> set (us_name (usr_sem_table s' ! a))" if "usr_used s' a" for a using that n(4) [of a] by (simp add: used ks)
    show "a = b" if "usr_used s' a \<and> usr_used s' b \<and> usr_name s' a = usr_name s' b" for a b
      using that n(5) [of a b] by (simp add: used name)
    show "m < 128" "creator (semaphore_table (usm s') ! m) \<noteq> -1" if h: "usr_used s' a \<and> kernel_sem (usr_sem_table s' ! a) = Some m" for a m
      using h n(6) [of a m] n(7) [of a i m] u k by (auto simp: used ks cr)
    show "a = b" if h: "usr_used s' a \<and> usr_used s' b \<and> kernel_sem (usr_sem_table s' ! a) = Some m \<and> kernel_sem (usr_sem_table s' ! b) = Some m" for a b m
      using h n(7) [of a b m] by (simp add: used ks)
  qed
  show "usr_view s' = (usr_view s)(usr_name s i := None)"
  proof
    fix w
    show "usr_view s' w = ((usr_view s)(usr_name s i := None)) w"
    proof (rule option_eqI)
      fix a
      show "usr_view s' w = Some a \<longleftrightarrow> ((usr_view s)(usr_name s i := None)) w = Some a"
        using usr_view_iff [OF inv', of w a] usr_view_iff [OF inv, of w a] n(5) [of a i] u by (auto simp: used name)
    qed
  qed
  show "creator (semaphore_table (usm s') ! k) = -1" by (simp add: cr)
qed

lemma usr_outside:
  assumes b: "usr_base_ok base" and p: "p < base \<or> usr_addr base 32 \<le> p"
  shows "usr_sem_lookup base s p = Inr None"
proof -
  have e: "base + 40 * of_nat 32 = usr_addr base 32" by (simp add: usr_addr_def)
  have "find_sem base p = 0" using p unfolding find_sem_def e by auto
  then show ?thesis by (simp add: usr_sem_lookup_def)
qed

text \<open>
  \<^verbatim>\<open>usr_sem_destroy\<close> of an entry in use: when threads wait for the semaphore it returns 0 and
  changes nothing; otherwise it returns 1, the name is gone and its kernel semaphore is free
  again. For an address outside the table, or an entry that is not in use, it returns 0, P and V
  return USR_SEM_ERROR_NOT_IN_USE, and nothing changes.
\<close>

theorem usr_sem_destroy_correct:
  assumes inv: "usr_inv sems s rs qs" and b: "usr_base_ok base"
  shows "if p < base \<or> usr_addr base 32 \<le> p \<or> (\<exists>i < 32. p = usr_addr base i \<and> \<not> usr_used s i)
    then usr_sem_destroy base s p = Inr (0, s) \<and> usr_sem_v sems base s p = Some (Inr (-1, s))
      \<and> usr_sem_p sems base s c p rnd = Some (Inr (-1, s))
    else \<forall>i k. i < 32 \<and> p = usr_addr base i \<and> kernel_sem (usr_sem_table s ! i) = Some k \<longrightarrow>
      (if sem_value (semaphore_table (usm s) ! k) < 0 then usr_sem_destroy base s p = Inr (0, s)
       else \<exists>s'. usr_sem_destroy base s p = Inr (1, s') \<and> usr_inv sems s' rs qs
         \<and> usr_view s' = (usr_view s)(usr_name s i := None) \<and> creator (semaphore_table (usm s') ! k) = -1)"
proof (cases "p < base \<or> usr_addr base 32 \<le> p \<or> (\<exists>i < 32. p = usr_addr base i \<and> \<not> usr_used s i)")
  case True
  have "usr_sem_lookup base s p = Inr None"
  proof (cases "p < base \<or> usr_addr base 32 \<le> p")
    case False
    then obtain i where i: "i < 32" "p = usr_addr base i" "\<not> usr_used s i" using True by blast
    then show ?thesis using usr_lookup_eq [OF b i(1) usr_invD(2) [OF inv]] usr_invD(2) [OF inv] by (auto simp: usr_used_def)
  qed (use usr_outside [OF b] in blast)
  then show ?thesis using True by (simp add: usr_sem_destroy_def usr_sem_v_def usr_sem_p_def)
next
  case False
  have "if sem_value (semaphore_table (usm s) ! k) < 0 then usr_sem_destroy base s p = Inr (0, s)
     else \<exists>s'. usr_sem_destroy base s p = Inr (1, s') \<and> usr_inv sems s' rs qs
       \<and> usr_view s' = (usr_view s)(usr_name s i := None) \<and> creator (semaphore_table (usm s') ! k) = -1"
    if h: "i < 32" "p = usr_addr base i" "kernel_sem (usr_sem_table s ! i) = Some k" for i k
  proof -
    note n = usr_invD [OF inv]
    have u: "usr_used s i" using False h by blast
    then have lk: "usr_sem_lookup base s p = Inr (Some (i, usr_sem_table s ! i))" using usr_lookup_eq [OF b h(1) n(2)] h(2) by (simp add: usr_used_def)
    have k: "k < 128" "creator (semaphore_table (usm s) ! k) \<noteq> -1" and l: "length (semaphore_table (usm s)) = 128"
      using n(6) [OF u h(3)] n(1) by (auto simp: sem_inv_def)
    show ?thesis
    proof (cases "sem_value (semaphore_table (usm s) ! k) < 0")
      case True
      then show ?thesis using lk h(3) k(1) l by (simp add: usr_sem_destroy_def aget_def)
    next
      case False
      then show ?thesis using usr_destroy_inv [OF inv u h(3)] lk h(3) k(1) l
        by (auto simp: usr_sem_destroy_def aget_def semaphore_destroy_def upd_sem_eq)
    qed
  qed
  then show ?thesis unfolding if_not_P [OF False] by blast
qed

section \<open>Examples\<close>

text \<open>An empty table, and one whose entry 0 is called \<^verbatim>\<open>a\<close> and has the kernel semaphore 0.\<close>

definition ex_usem :: usem_t where
  "ex_usem = \<lparr>usm = ex_sems, usr_sem_table = replicate 32 \<lparr>us_state = USR_SEM_FREE, us_name = replicate 32 0, kernel_sem = None\<rparr>\<rparr>"

definition ex_usem1 :: usem_t where
  "ex_usem1 = ex_usem\<lparr>usm := ex_sems1, usr_sem_table := (usr_sem_table ex_usem)
     [0 := \<lparr>us_state = USR_SEM_USED, us_name = 97 # replicate 31 0, kernel_sem = Some 0\<rparr>]\<rparr>"

lemma ex_usem_used: "\<not> usr_used ex_usem i" "usr_used ex_usem1 i \<longleftrightarrow> i = 0"
  by (auto simp: usr_used_def ex_usem_def ex_usem1_def nth_list_update)

lemma ex_usem_inv: "usr_inv ex_base ex_usem [] (\<lambda>_. [])"
  using ex_sems_inv(1) by (simp add: usr_inv_def ex_usem_used) (auto simp: ex_usem_def)

lemma ex_usem1_inv: "usr_inv ex_base ex_usem1 [] (\<lambda>_. [])"
  using ex_sems1_inv by (simp add: usr_inv_def ex_usem_used) (auto simp: ex_usem1_def ex_usem_def ex_sems1_def ex_sems_def dest!: subsetD [OF set_update_subset_insert])

theorem usr_sem_open_correct_witness:
  "\<exists>j s'. usr_sem_open 0x80060000 ex_usem 0 [97, 0] 3 = Inr (usr_addr 0x80060000 j, s') \<and> usr_view s' [97] = Some j"
proof -
  have "usr_view ex_usem [97] = None" using usr_view_None [OF ex_usem_inv] ex_usem_used by blast
  moreover have "cstr [97] [97, 0]" by (simp add: cstr_def)
  moreover have "\<not> (\<forall>i < 32. usr_used ex_usem i)" using ex_usem_used(1) by (metis zero_less_numeral)
  ultimately obtain j s' where "usr_sem_open 0x80060000 ex_usem 0 [97, 0] 3 = Inr (usr_addr 0x80060000 j, s')" "usr_view s' = (usr_view ex_usem)([97] \<mapsto> j)"
    using usr_sem_open_correct [OF ex_usem_inv, of 0 "[97]" "[97, 0]" 3 "0x80060000"] by (simp del: not_all) blast
  then show ?thesis by auto
qed

theorem usr_sem_long_name_witness:
  "usr_sem_open 0x80060000 ex_usem 0 (replicate 40 97 @ [0]) (-1) = Inr (0, ex_usem)
   \<and> (\<exists>j s'. usr_sem_open 0x80060000 ex_usem 0 (replicate 40 97 @ [0]) 1 = Inr (usr_addr 0x80060000 j, s') \<and> usr_name s' j = replicate 31 97)"
proof -
  have c: "cstr (replicate 40 97) (replicate 40 97 @ [0])" by (simp add: cstr_def)
  show ?thesis
    using usr_sem_long_name [OF ex_usem_inv _ c, of 0 "-1" "0x80060000"] usr_sem_long_name [OF ex_usem_inv _ c, of 0 1 "0x80060000"] ex_usem_used(1) [of 0]
    by auto
qed

theorem usr_sem_destroy_correct_witness:
  "\<exists>s'. usr_sem_destroy 0x80060000 ex_usem1 (usr_addr 0x80060000 0) = Inr (1, s') \<and> usr_view s' [97] = None"
proof -
  have b: "usr_base_ok 0x80060000" by (simp add: usr_base_ok_def)
  have a: "usr_addr 0x80060000 0 = 0x80060000" "usr_addr 0x80060000 32 = 0x80060500" by (simp_all add: usr_addr_def)
  have n: "\<not> (usr_addr 0x80060000 0 < 0x80060000 \<or> usr_addr 0x80060000 32 \<le> usr_addr 0x80060000 0
      \<or> (\<exists>i < 32. usr_addr 0x80060000 0 = usr_addr 0x80060000 i \<and> \<not> usr_used ex_usem1 i))"
  proof -
    have "i = 0" if "i < 32" "usr_addr 0x80060000 0 = usr_addr 0x80060000 i" for i
    proof -
      have "unat (usr_addr 0x80060000 0) = unat (usr_addr 0x80060000 i)" using that(2) by (rule arg_cong)
      then show ?thesis using that(1) by (simp only: usr_addr_unat [OF b] less_imp_le zero_le)
    qed
    moreover have "\<not> usr_addr 0x80060000 0 < 0x80060000" "\<not> usr_addr 0x80060000 32 \<le> usr_addr 0x80060000 0" using a by simp_all
    ultimately show ?thesis using ex_usem_used(2) by blast
  qed
  have k: "kernel_sem (usr_sem_table ex_usem1 ! 0) = Some 0" "sem_value (semaphore_table (usm ex_usem1) ! 0) = 0" "usr_name ex_usem1 0 = [97]"
    by (simp_all add: ex_usem1_def ex_usem_def ex_sems1_def ex_sems_def usr_name_def replicate_Suc [of 30, simplified])
  show ?thesis
    using usr_sem_destroy_correct [OF ex_usem1_inv b, of "usr_addr 0x80060000 0" 0 0, unfolded if_not_P [OF n]] k by fastforce
qed

end
