(* ===== verification/Tty.thy ===== *)
theory Tty
  imports Sleepq
begin

text \<open>
  \<^verbatim>\<open>drivers/tty.c\<close>: the interrupt driven terminal driver, with a ring buffer in each direction.

  The hardware is a parameter: \<open>tty_io\<close> holds the accesses to the registers of the terminal (a
  state of the hardware is a value of the type \<open>'y\<close>); its documented behaviour is the locale
  \<open>yams_tty\<close>. \<open>tty_write\<close> and \<open>tty_read\<close> give up the processor while they wait, so
  \<open>write_locked\<close> and \<open>read_locked\<close> are what they do from one acquisition of the spinlock to its
  release: the call is complete, or the thread has been put to sleep and goes on with
  \<^verbatim>\<open>thread_switch\<close>. The arguments \<open>wbuf\<close> and \<open>rbuf\<close> are the addresses of the two
  buffers, on which threads sleep.
\<close>

section \<open>The code\<close>

record 'y tty_io =
  tty_status :: "'y \<Rightarrow> u32"
  tty_command :: "'y \<Rightarrow> u32 \<Rightarrow> 'y"
  tty_get :: "'y \<Rightarrow> u32 \<times> 'y"
  tty_put :: "'y \<Rightarrow> u32 \<Rightarrow> 'y"

abbreviation (input) TTY_COMMAND_RIRQ :: u32 where "TTY_COMMAND_RIRQ \<equiv> 1"
abbreviation (input) TTY_COMMAND_WIRQ :: u32 where "TTY_COMMAND_WIRQ \<equiv> 2"
abbreviation (input) TTY_COMMAND_WIRQE :: u32 where "TTY_COMMAND_WIRQE \<equiv> 3"
abbreviation (input) TTY_COMMAND_WIRQD :: u32 where "TTY_COMMAND_WIRQD \<equiv> 4"
abbreviation (input) TTY_BUF_SIZE :: nat where "TTY_BUF_SIZE \<equiv> 2048"

definition TTY_STATUS_RAVAIL :: "u32 \<Rightarrow> u32" where
  "TTY_STATUS_RAVAIL st = st AND 0x00000001"

definition TTY_STATUS_WBUSY :: "u32 \<Rightarrow> u32" where
  "TTY_STATUS_WBUSY st = drop_bit 1 (st AND 0x00000002)"

definition TTY_STATUS_RIRQ :: "u32 \<Rightarrow> u32" where
  "TTY_STATUS_RIRQ st = drop_bit 2 (st AND 0x00000004)"

definition TTY_STATUS_WIRQ :: "u32 \<Rightarrow> u32" where
  "TTY_STATUS_WIRQ st = drop_bit 3 (st AND 0x00000008)"

definition TTY_STATUS_ERROR :: "u32 \<Rightarrow> u32" where
  "TTY_STATUS_ERROR st = drop_bit 31 (st AND 0x80000000)"

record 'y tty_real_device_t =
  read_buf :: "u8 list"
  read_head :: nat
  read_count :: nat
  write_buf :: "u8 list"
  write_head :: nat
  write_count :: nat
  tty_hw :: 'y
  tty_kern :: kstate

text \<open>The next character of the write buffer goes to the device.\<close>

definition put_next :: "'y tty_io \<Rightarrow> 'y tty_real_device_t \<Rightarrow> 'y tty_real_device_t res" where
  "put_next io d =
     rbind (aget (write_buf d) (int (write_head d))) (\<lambda>c.
       Inr (d\<lparr>tty_hw := tty_put io (tty_hw d) (scast c), write_head := (write_head d + 1) mod TTY_BUF_SIZE,
              write_count := write_count d - 1\<rparr>))"

definition tty_cmd :: "'y tty_io \<Rightarrow> u32 \<Rightarrow> 'y tty_real_device_t \<Rightarrow> 'y tty_real_device_t" where
  "tty_cmd io c d = d\<lparr>tty_hw := tty_command io (tty_hw d) c\<rparr>"

fun drain_loop :: "'y tty_io \<Rightarrow> nat \<Rightarrow> 'y tty_real_device_t \<Rightarrow> 'y tty_real_device_t res" where
  "drain_loop io 0 d = Inr d"
| "drain_loop io (Suc n) d =
     (if TTY_STATUS_WBUSY (tty_status io (tty_hw d)) = 0
      then rbind (put_next io (tty_cmd io TTY_COMMAND_WIRQ d)) (drain_loop io n)
      else Inr d)"

text \<open>
  One character of input. A character that does not fit is dropped, where the code takes one more
  than the buffer holds.
\<close>

definition take_char :: "'y tty_io \<Rightarrow> 'y tty_real_device_t \<Rightarrow> 'y tty_real_device_t res" where
  "take_char io d =
     (let (c, y) = tty_get io (tty_hw d); d = d\<lparr>tty_hw := y\<rparr> in
      if read_count d > TTY_BUF_SIZE then Inr d
      else
        rbind (aset (read_buf d) (int ((read_head d + read_count d) mod TTY_BUF_SIZE)) (ucast c)) (\<lambda>b.
          Inr (d\<lparr>read_buf := b, read_count := read_count d + 1\<rparr>)))"

partial_function (option) take_loop :: "'y tty_io \<Rightarrow> 'y tty_real_device_t \<Rightarrow> 'y tty_real_device_t ores" where
  "take_loop io d =
     (if TTY_STATUS_RAVAIL (tty_status io (tty_hw d)) \<noteq> 0
      then obind (Some (take_char io d)) (take_loop io)
      else Some (Inr d))"

definition write_interrupt :: "'y tty_io \<Rightarrow> u32 \<Rightarrow> 'y tty_real_device_t \<Rightarrow> 'y tty_real_device_t ores" where
  "write_interrupt io wbuf d =
     (let d = tty_cmd io TTY_COMMAND_WIRQ (tty_cmd io TTY_COMMAND_WIRQD d) in
      obind (Some (drain_loop io (write_count d) d)) (\<lambda>d.
      let d = tty_cmd io TTY_COMMAND_WIRQE d in
      if write_count d = 0 then obind (sleepq_wake_all (tty_kern d) wbuf) (\<lambda>k. Some (Inr (d\<lparr>tty_kern := k\<rparr>)))
      else Some (Inr d)))"

definition read_interrupt :: "'y tty_io \<Rightarrow> u32 \<Rightarrow> 'y tty_real_device_t \<Rightarrow> 'y tty_real_device_t ores" where
  "read_interrupt io rbuf d =
     (let d = tty_cmd io TTY_COMMAND_RIRQ d in
      if TTY_STATUS_ERROR (tty_status io (tty_hw d)) \<noteq> 0 then Some (Inl Kernel_panic)
      else obind (take_loop io d) (\<lambda>d.
           obind (sleepq_wake_all (tty_kern d) rbuf) (\<lambda>k. Some (Inr (d\<lparr>tty_kern := k\<rparr>)))))"

definition tty_interrupt_handle :: "'y tty_io \<Rightarrow> u32 \<Rightarrow> u32 \<Rightarrow> 'y tty_real_device_t \<Rightarrow> 'y tty_real_device_t ores" where
  "tty_interrupt_handle io wbuf rbuf d =
     obind (if TTY_STATUS_WIRQ (tty_status io (tty_hw d)) \<noteq> 0 then write_interrupt io wbuf d else Some (Inr d)) (\<lambda>d.
       if TTY_STATUS_RIRQ (tty_status io (tty_hw d)) \<noteq> 0 then read_interrupt io rbuf d else Some (Inr d))"

text \<open>The loop that fills the write buffer from the characters that are left.\<close>

fun fill_loop :: "u8 list \<Rightarrow> 'y tty_real_device_t \<Rightarrow> (u8 list \<times> 'y tty_real_device_t) res" where
  "fill_loop [] d = Inr ([], d)"
| "fill_loop (c # cs) d =
     (if write_count d < TTY_BUF_SIZE
      then rbind (aset (write_buf d) (int ((write_head d + write_count d) mod TTY_BUF_SIZE)) c) (\<lambda>b.
             fill_loop cs (d\<lparr>write_buf := b, write_count := write_count d + 1\<rparr>))
      else Inr (c # cs, d))"

lemma fill_loop_shorter: "fill_loop cs d = Inr (cs', d') \<Longrightarrow> length cs' \<le> length cs"
  by (induction cs d rule: fill_loop.induct) (auto simp: rbind_Inr_iff split: if_splits)

text \<open>
  The body of the outer loop of \<open>tty_write\<close> when the buffer is empty, and the loop up to the
  point where it has to wait: the characters that are not yet in the buffer.
\<close>

definition write_chunk :: "'y tty_io \<Rightarrow> u8 list \<Rightarrow> 'y tty_real_device_t \<Rightarrow> (u8 list \<times> 'y tty_real_device_t) res" where
  "write_chunk io cs d =
     rbind (fill_loop cs d) (\<lambda>(cs, d).
       if TTY_STATUS_WBUSY (tty_status io (tty_hw d)) = 0 then rbind (put_next io d) (\<lambda>d. Inr (cs, d)) else Inr (cs, d))"

lemma write_chunk_shorter: "write_count d = 0 \<Longrightarrow> write_chunk io (c # cs) d = Inr (cs', d') \<Longrightarrow> length cs' \<le> length cs"
  by (auto simp: write_chunk_def rbind_Inr_iff split: if_splits dest!: fill_loop_shorter)

function write_run :: "'y tty_io \<Rightarrow> u8 list \<Rightarrow> 'y tty_real_device_t \<Rightarrow> (u8 list \<times> 'y tty_real_device_t) res" where
  "write_run io cs d =
     (if cs = [] \<or> write_count d > 0 then Inr (cs, d)
      else rbind (write_chunk io cs d) (\<lambda>(cs, d). write_run io cs d))"
  by pat_completeness auto
termination
proof (relation "measure (\<lambda>(_, cs, _). length cs)", goal_cases)
  case (2 io cs d x cs' d')
  then show ?case by (cases cs) (auto dest!: write_chunk_shorter)
qed simp

declare write_run.simps [simp del]

definition write_locked :: "'y tty_io \<Rightarrow> u32 \<Rightarrow> nat \<Rightarrow> u8 list \<Rightarrow> 'y tty_real_device_t \<Rightarrow> (u8 list \<times> 'y tty_real_device_t) ores" where
  "write_locked io wbuf cpu cs d =
     obind (Some (write_run io cs d)) (\<lambda>(cs, d).
       if cs = [] then Some (Inr ([], d))
       else obind (sleepq_add (tty_kern d) cpu 0 wbuf) (\<lambda>k. Some (Inr (cs, d\<lparr>tty_kern := k\<rparr>))))"

text \<open>Reading: the characters read, or \<open>None\<close> when the caller waits for input.\<close>

fun tty_read_loop :: "nat \<Rightarrow> 'y tty_real_device_t \<Rightarrow> (u8 list \<times> 'y tty_real_device_t) res" where
  "tty_read_loop 0 d = Inr ([], d)"
| "tty_read_loop (Suc n) d =
     (if read_count d > 0
      then rbind (aget (read_buf d) (int (read_head d))) (\<lambda>c.
           rbind (tty_read_loop n (d\<lparr>read_head := (read_head d + 1) mod TTY_BUF_SIZE, read_count := read_count d - 1\<rparr>)) (\<lambda>(cs, d).
             Inr (c # cs, d)))
      else Inr ([], d))"

definition read_locked :: "u32 \<Rightarrow> nat \<Rightarrow> int \<Rightarrow> 'y tty_real_device_t \<Rightarrow> (u8 list option \<times> 'y tty_real_device_t) ores" where
  "read_locked rbuf cpu len d =
     (if read_count d = 0
      then obind (sleepq_add (tty_kern d) cpu 0 rbuf) (\<lambda>k. Some (Inr (None, d\<lparr>tty_kern := k\<rparr>)))
      else Some (rbind (tty_read_loop (nat len) d) (\<lambda>(cs, d). Inr (Some cs, d))))"

section \<open>Ring buffers\<close>

definition ring :: "u8 list \<Rightarrow> nat \<Rightarrow> nat \<Rightarrow> u8 list" where
  "ring b h n = map (\<lambda>k. b ! ((h + k) mod TTY_BUF_SIZE)) [0..<n]"

lemma length_ring [simp]: "length (ring b h n) = n"
  by (simp add: ring_def)

lemma ring_0 [simp]: "ring b h 0 = []"
  by (simp add: ring_def)

lemma ring_snoc: "ring b h (Suc n) = ring b h n @ [b ! ((h + n) mod 2048)]"
  by (simp add: ring_def)

lemma ring_other:
  assumes "\<And>k. k < n \<Longrightarrow> (h + k) mod 2048 \<noteq> i"
  shows "ring (b[i := c]) h n = ring b h n"
  unfolding ring_def
proof (rule map_cong [OF refl])
  fix k assume "k \<in> set [0..<n]"
  then have "(h + k) mod 2048 \<noteq> i" using assms by simp
  then show "b[i := c] ! ((h + k) mod 2048) = b ! ((h + k) mod 2048)" by simp
qed

lemma mod_differ: "k < n \<Longrightarrow> n - k < 2048 \<Longrightarrow> (h + k) mod 2048 \<noteq> (h + n) mod (2048 :: nat)"
proof
  assume h: "k < n" "n - k < 2048" "(h + k) mod 2048 = (h + n) mod (2048 :: nat)"
  then have "2048 dvd (h + n) - (h + k)" using mod_eq_dvd_iff_nat [of "h + k" "h + n" 2048] by simp
  then show False using h(1,2) by (auto dest: dvd_imp_le)
qed

lemma ring_put:
  assumes "length b = 2048" "n < 2048"
  shows "ring (b[(h + n) mod 2048 := c]) h (Suc n) = ring b h n @ [c]"
  unfolding ring_snoc using assms mod_differ [of _ n h] by (simp add: ring_other)

lemma ring_get: "h < 2048 \<Longrightarrow> ring b h (Suc n) = b ! h # ring b ((h + 1) mod 2048) n"
proof (induction n)
  case (Suc n)
  have "ring b h (Suc (Suc n)) = ring b h (Suc n) @ [b ! ((h + Suc n) mod 2048)]" by (rule ring_snoc)
  moreover have "(h + Suc n) mod 2048 = ((h + 1) mod 2048 + n) mod 2048" by (simp add: mod_simps)
  ultimately show ?case using Suc ring_snoc [of b "(h + 1) mod 2048" n] by simp
qed (simp add: ring_def)

text \<open>
  One character too many: it replaces the oldest one and is read twice.
\<close>

lemma ring_overflow:
  assumes "length b = 2048" "h < 2048"
  shows "ring (b[(h + 2048) mod 2048 := c]) h 2049 = c # tl (ring b h 2048) @ [c]"
proof -
  let ?b = "b[h := c]" and ?h = "(h + 1) mod 2048"
  have e: "(?h + 2047) mod 2048 = h" "(h + 2048) mod 2048 = h" using assms(2) by (simp_all add: mod_simps)
  have "(?h + k) mod 2048 \<noteq> h" if "k < 2047" for k using mod_differ [of k 2047 ?h] that e(1) by simp
  then have o: "ring ?b ?h 2047 = ring b ?h 2047" by (rule ring_other)
  have "ring ?b h (Suc (Suc 2047)) = ?b ! h # ring ?b ?h 2047 @ [?b ! h]" using ring_get [OF assms(2), of ?b "Suc 2047"] ring_snoc [of ?b ?h 2047] e(1) by simp
  moreover have "tl (ring b h (Suc 2047)) = ring b ?h 2047" using ring_get [OF assms(2), of b 2047] by simp
  ultimately show ?thesis using o e(2) assms by simp
qed

section \<open>The terminal\<close>

text \<open>What the YAMS terminal does: \<open>out\<close> is what it has printed, \<open>inp\<close> the input not yet read.\<close>

locale yams_tty =
  fixes io :: "'y tty_io" and out inp :: "'y \<Rightarrow> u8 list" and busy :: "'y \<Rightarrow> bool"
  assumes wbusy: "TTY_STATUS_WBUSY (tty_status io y) = 0 \<longleftrightarrow> \<not> busy y"
    and ravail: "TTY_STATUS_RAVAIL (tty_status io y) = 0 \<longleftrightarrow> inp y = []"
    and get: "inp y = c # cs \<Longrightarrow> \<exists>x y'. tty_get io y = (x, y') \<and> ucast x = c \<and> inp y' = cs \<and> out y' = out y"
    and put: "\<not> busy y \<Longrightarrow> out (tty_put io y x) = out y @ [ucast x]" "inp (tty_put io y x) = inp y"
    and command: "out (tty_command io y x) = out y" "inp (tty_command io y x) = inp y" "busy (tty_command io y x) = busy y"
    and rirq: "TTY_STATUS_ERROR (tty_status io (tty_command io y TTY_COMMAND_RIRQ)) = 0"

definition tty_ok :: "'y tty_real_device_t \<Rightarrow> bool" where
  "tty_ok d \<longleftrightarrow> length (read_buf d) = TTY_BUF_SIZE \<and> read_head d < TTY_BUF_SIZE
     \<and> length (write_buf d) = TTY_BUF_SIZE \<and> write_head d < TTY_BUF_SIZE \<and> write_count d \<le> TTY_BUF_SIZE"

definition write_queue :: "'y tty_real_device_t \<Rightarrow> u8 list" where
  "write_queue d = ring (write_buf d) (write_head d) (write_count d)"

definition read_queue :: "'y tty_real_device_t \<Rightarrow> u8 list" where
  "read_queue d = ring (read_buf d) (read_head d) (read_count d)"

text \<open>The two directions do not touch each other.\<close>

definition same_read :: "'y tty_real_device_t \<Rightarrow> 'y tty_real_device_t \<Rightarrow> bool" where
  "same_read d d' \<longleftrightarrow> read_buf d' = read_buf d \<and> read_head d' = read_head d \<and> read_count d' = read_count d \<and> tty_kern d' = tty_kern d"

definition same_write :: "'y tty_real_device_t \<Rightarrow> 'y tty_real_device_t \<Rightarrow> bool" where
  "same_write d d' \<longleftrightarrow> write_buf d' = write_buf d \<and> write_head d' = write_head d \<and> write_count d' = write_count d \<and> tty_kern d' = tty_kern d"

lemma same_trans: "same_read d d' \<Longrightarrow> same_read d' d'' \<Longrightarrow> same_read d d''" "same_write d d' \<Longrightarrow> same_write d' d'' \<Longrightarrow> same_write d d''"
  by (auto simp: same_read_def same_write_def)

lemma fill_loop_ok:
  assumes "tty_ok d"
  shows "\<exists>cs' d'. fill_loop cs d = Inr (cs', d') \<and> tty_ok d' \<and> write_queue d' @ cs' = write_queue d @ cs \<and> same_read d d' \<and> tty_hw d' = tty_hw d
    \<and> (cs' = [] \<or> write_count d' = TTY_BUF_SIZE) \<and> write_count d \<le> write_count d' \<and> (cs \<noteq> [] \<and> write_count d < TTY_BUF_SIZE \<longrightarrow> 0 < write_count d')"
  using assms
proof (induction cs arbitrary: d)
  case (Cons c cs)
  show ?case
  proof (cases "write_count d < 2048")
    case True
    let ?b = "(write_buf d)[(write_head d + write_count d) mod 2048 := c]"
    let ?d = "d\<lparr>write_buf := ?b, write_count := write_count d + 1\<rparr>"
    have "tty_ok ?d" "write_queue ?d = write_queue d @ [c]" using Cons.prems True ring_put [of "write_buf d" "write_count d"] by (auto simp: tty_ok_def write_queue_def)
    with Cons.IH [of ?d] obtain cs' d' where h: "fill_loop cs ?d = Inr (cs', d')" "tty_ok d'" "write_queue d' @ cs' = write_queue d @ c # cs" "same_read ?d d'" "tty_hw d' = tty_hw d"
      "cs' = [] \<or> write_count d' = 2048" "write_count ?d \<le> write_count d'" by auto
    moreover have "aset (write_buf d) (int ((write_head d + write_count d) mod 2048)) c = Inr ?b" using Cons.prems by (simp add: aset_def tty_ok_def)
    ultimately show ?thesis using True by (intro exI [of _ cs'] exI [of _ d']) (auto simp: same_read_def)
  next
    case False
    then show ?thesis using Cons.prems by (intro exI [of _ "c # cs"] exI [of _ d]) (auto simp: tty_ok_def same_read_def)
  qed
qed (auto simp: same_read_def)

lemma tty_read_loop_ok:
  assumes "tty_ok d"
  shows "\<exists>d'. tty_read_loop n d = Inr (take n (read_queue d), d') \<and> tty_ok d' \<and> read_queue d' = drop n (read_queue d) \<and> same_write d d' \<and> tty_hw d' = tty_hw d
    \<and> read_count d' = read_count d - n"
  using assms
proof (induction n arbitrary: d)
  case (Suc n)
  show ?case
  proof (cases "read_count d")
    case 0
    then show ?thesis using Suc.prems by (intro exI [of _ d]) (simp add: read_queue_def same_write_def)
  next
    case (Suc m)
    let ?d = "d\<lparr>read_head := (read_head d + 1) mod 2048, read_count := read_count d - 1\<rparr>"
    have g: "aget (read_buf d) (int (read_head d)) = Inr (read_buf d ! read_head d)" "read_queue d = read_buf d ! read_head d # read_queue ?d" "tty_ok ?d"
      using Suc.prems Suc ring_get [of "read_head d" "read_buf d" m] by (auto simp: tty_ok_def read_queue_def aget_def)
    from Suc.IH [OF g(3)] obtain d' where "tty_read_loop n ?d = Inr (take n (read_queue ?d), d')" "tty_ok d'" "read_queue d' = drop n (read_queue ?d)" "same_write ?d d'" "tty_hw d' = tty_hw d"
      "read_count d' = read_count ?d - n" by auto
    then show ?thesis using g Suc by (intro exI [of _ d']) (auto simp: same_write_def)
  qed
qed (auto simp: same_write_def)

lemma tty_read_loop_state:
  "tty_read_loop n d = Inr (cs, d') \<Longrightarrow> n \<le> read_count d \<Longrightarrow> read_head d < 2048 \<Longrightarrow>
    d' = d\<lparr>read_head := (read_head d + n) mod 2048, read_count := read_count d - n\<rparr>"
proof (induction n arbitrary: d cs)
  case (Suc n)
  let ?d = "d\<lparr>read_head := (read_head d + 1) mod 2048, read_count := read_count d - 1\<rparr>"
  obtain cs0 where c: "tty_read_loop n ?d = Inr (cs0, d')" using Suc.prems by (auto simp: rbind_Inr_iff split: if_splits)
  have "n \<le> read_count ?d" "read_head ?d < 2048" using Suc.prems(2) by simp_all
  from Suc.IH [OF c this] show ?case by (simp add: mod_simps)
qed simp

lemma char_data: "ucast (scast (c :: u8) :: u32) = c"
  by (rule bit_word_eqI) (auto simp: bit_word_ucast_iff bit_word_scast_iff)

context yams_tty
begin

text \<open>What is on the way out: printed, or in the buffer.\<close>

abbreviation sent :: "'y tty_real_device_t \<Rightarrow> u8 list" where
  "sent d \<equiv> out (tty_hw d) @ write_queue d"

lemma put_next_ok:
  assumes "tty_ok d" "0 < write_count d" "\<not> busy (tty_hw d)"
  shows "\<exists>d'. put_next io d = Inr d' \<and> tty_ok d' \<and> sent d' = sent d \<and> same_read d d' \<and> inp (tty_hw d') = inp (tty_hw d) \<and> write_count d' = write_count d - 1"
proof -
  obtain n where n: "write_count d = Suc n" using assms(2) by (metis gr0_implies_Suc)
  let ?c = "write_buf d ! write_head d"
  let ?d = "d\<lparr>tty_hw := tty_put io (tty_hw d) (scast ?c), write_head := (write_head d + 1) mod 2048, write_count := write_count d - 1\<rparr>"
  have w: "write_head d < 2048" "length (write_buf d) = 2048" using assms(1) by (auto simp: tty_ok_def)
  have "put_next io d = Inr ?d" using w by (simp add: put_next_def aget_def)
  moreover have "tty_ok ?d" using assms(1) by (auto simp: tty_ok_def)
  moreover have "write_queue d = ?c # write_queue ?d" using n ring_get [OF w(1), of "write_buf d" n] by (simp add: write_queue_def)
  ultimately show ?thesis using put(1) [OF assms(3)] put(2) by (intro exI [of _ ?d]) (simp add: same_read_def char_data)
qed

lemma cmd_ok [simp]:
  "tty_ok (tty_cmd io x d) = tty_ok d" "write_queue (tty_cmd io x d) = write_queue d" "read_queue (tty_cmd io x d) = read_queue d" "out (tty_hw (tty_cmd io x d)) = out (tty_hw d)"
  "inp (tty_hw (tty_cmd io x d)) = inp (tty_hw d)" "busy (tty_hw (tty_cmd io x d)) = busy (tty_hw d)" "write_count (tty_cmd io x d) = write_count d"
  "read_count (tty_cmd io x d) = read_count d" "tty_kern (tty_cmd io x d) = tty_kern d" "same_read d (tty_cmd io x d)" "same_write d (tty_cmd io x d)"
  "same_read (tty_cmd io x d) d' = same_read d d'" "same_write (tty_cmd io x d) d' = same_write d d'"
  by (simp_all add: tty_cmd_def tty_ok_def write_queue_def read_queue_def command same_read_def same_write_def)

lemma drain_ok:
  assumes "tty_ok d" "n = write_count d"
  shows "\<exists>d'. drain_loop io n d = Inr d' \<and> tty_ok d' \<and> sent d' = sent d \<and> same_read d d' \<and> inp (tty_hw d') = inp (tty_hw d)
    \<and> (write_count d' = 0 \<or> busy (tty_hw d'))"
  using assms
proof (induction n arbitrary: d)
  case (Suc n)
  show ?case
  proof (cases "busy (tty_hw d)")
    case False
    from put_next_ok [of "tty_cmd io TTY_COMMAND_WIRQ d"] Suc.prems False obtain d1 where
      d1: "put_next io (tty_cmd io TTY_COMMAND_WIRQ d) = Inr d1" "tty_ok d1" "sent d1 = sent d" "same_read d d1" "inp (tty_hw d1) = inp (tty_hw d)" "n = write_count d1" by auto
    from Suc.IH [OF d1(2,6)] d1 False show ?thesis by (auto simp: wbusy intro: same_trans)
  next
    case True
    then have "drain_loop io (Suc n) d = Inr d" by (simp add: wbusy)
    then show ?thesis using Suc.prems(1) True by (intro exI [of _ d]) (simp add: same_read_def)
  qed
qed (auto simp: same_read_def)

lemma write_run_ok:
  assumes "tty_ok d"
  shows "\<exists>cs' d'. write_run io cs d = Inr (cs', d') \<and> tty_ok d' \<and> sent d' @ cs' = sent d @ cs \<and> same_read d d' \<and> inp (tty_hw d') = inp (tty_hw d)
    \<and> (cs' = [] \<or> 0 < write_count d') \<and> length cs' \<le> length cs"
  using assms
proof (induction "length cs" arbitrary: cs d rule: less_induct)
  case less
  show ?case
  proof (cases "cs = [] \<or> write_count d > 0")
    case True
    then show ?thesis using less.prems by (subst write_run.simps) (auto simp: same_read_def)
  next
    case False
    then obtain c cs0 where cs: "cs = c # cs0" "write_count d = 0" by (cases cs) auto
    obtain cs1 d1 where f: "fill_loop cs d = Inr (cs1, d1)" "tty_ok d1" "write_queue d1 @ cs1 = write_queue d @ cs" "same_read d d1" "tty_hw d1 = tty_hw d" "0 < write_count d1"
      using fill_loop_ok [OF less.prems, of cs] cs by auto
    have "\<exists>d2. write_chunk io cs d = Inr (cs1, d2) \<and> tty_ok d2 \<and> sent d2 @ cs1 = sent d @ cs \<and> same_read d d2 \<and> inp (tty_hw d2) = inp (tty_hw d)"
    proof (cases "busy (tty_hw d1)")
      case True
      then show ?thesis using f by (intro exI [of _ d1]) (simp add: write_chunk_def wbusy)
    next
      case False
      from put_next_ok [OF f(2,6) this] obtain d2 where d2: "put_next io d1 = Inr d2" "tty_ok d2" "sent d2 = sent d1" "same_read d1 d2" "inp (tty_hw d2) = inp (tty_hw d1)" by blast
      have "sent d2 @ cs1 = out (tty_hw d1) @ (write_queue d1 @ cs1)" unfolding d2(3) by simp
      then show ?thesis using d2 f False same_trans(1) [OF f(4) d2(4)] by (intro exI [of _ d2]) (simp add: write_chunk_def wbusy)
    qed
    then obtain d2 where d2: "write_chunk io cs d = Inr (cs1, d2)" "tty_ok d2" "sent d2 @ cs1 = sent d @ cs" "same_read d d2" "inp (tty_hw d2) = inp (tty_hw d)" by blast
    have "length cs1 < length cs" using write_chunk_shorter [OF cs(2), of io c cs0 cs1 d2] d2(1) cs(1) by simp
    from less.hyps [OF this d2(2)] d2 False \<open>length cs1 < length cs\<close> show ?thesis by (subst write_run.simps) (auto intro: same_trans)
  qed
qed

lemma take_char_ok:
  assumes "tty_ok d" "inp (tty_hw d) = c # cs" "read_count d < 2048"
  shows "\<exists>d'. take_char io d = Inr d' \<and> tty_ok d' \<and> read_queue d' = read_queue d @ [c] \<and> same_write d d' \<and> inp (tty_hw d') = cs \<and> out (tty_hw d') = out (tty_hw d)
    \<and> read_count d' = Suc (read_count d)"
proof -
  obtain x y where g: "tty_get io (tty_hw d) = (x, y)" "ucast x = c" "inp y = cs" "out y = out (tty_hw d)" using get [OF assms(2)] by blast
  let ?d = "d\<lparr>tty_hw := y, read_buf := (read_buf d)[(read_head d + read_count d) mod 2048 := c], read_count := read_count d + 1\<rparr>"
  have "take_char io d = Inr ?d" using g assms by (simp add: take_char_def aset_def tty_ok_def)
  moreover have "tty_ok ?d" "read_queue ?d = read_queue d @ [c]" using assms ring_put [of "read_buf d" "read_count d" "read_head d" c] by (auto simp: tty_ok_def read_queue_def)
  ultimately show ?thesis using g by (intro exI [of _ ?d]) (simp add: same_write_def)
qed

lemma take_loop_ok:
  assumes "tty_ok d" "read_count d + length (inp (tty_hw d)) \<le> 2048"
  shows "\<exists>d'. take_loop io d = Some (Inr d') \<and> tty_ok d' \<and> read_queue d' = read_queue d @ inp (tty_hw d) \<and> same_write d d' \<and> inp (tty_hw d') = [] \<and> out (tty_hw d') = out (tty_hw d)
    \<and> read_count d' \<le> 2048"
  using assms
proof (induction "inp (tty_hw d)" arbitrary: d)
  case Nil
  then show ?case using ravail [of "tty_hw d"] by (subst take_loop.simps) (auto simp: same_write_def)
next
  case (Cons c cs)
  obtain d1 where d1: "take_char io d = Inr d1" "tty_ok d1" "read_queue d1 = read_queue d @ [c]" "same_write d d1" "inp (tty_hw d1) = cs" "out (tty_hw d1) = out (tty_hw d)" "read_count d1 = Suc (read_count d)"
    using take_char_ok [of d c cs] Cons.prems Cons.hyps(2) [symmetric] by auto
  have "read_count d1 + length (inp (tty_hw d1)) \<le> 2048" using Cons.prems(2) d1(5,7) Cons.hyps(2) [symmetric] by simp
  from Cons.hyps(1) [OF d1(5) [symmetric] d1(2) this] obtain d' where
    "take_loop io d1 = Some (Inr d')" "tty_ok d'" "read_queue d' = read_queue d @ c # cs" "same_write d1 d'" "inp (tty_hw d') = []" "out (tty_hw d') = out (tty_hw d)" "read_count d' \<le> 2048"
    using d1 by auto
  moreover have "TTY_STATUS_RAVAIL (tty_status io (tty_hw d)) \<noteq> 0" using ravail Cons.hyps(2) [symmetric] by simp
  ultimately show ?case using d1(1,4) Cons.hyps(2) [symmetric] by (subst take_loop.simps) (auto intro: same_trans)
qed

lemma handle_ok:
  assumes d: "tty_ok d" "kinv (tty_kern d) rs qs" "read_count d + length (inp (tty_hw d)) \<le> 2048"
  shows "\<exists>d' rs' qs'. tty_interrupt_handle io wbuf rbuf d = Some (Inr d') \<and> tty_ok d' \<and> kinv (tty_kern d') rs' qs' \<and> sent d' = sent d
    \<and> read_queue d' @ inp (tty_hw d') = read_queue d @ inp (tty_hw d)"
proof -
  obtain d1 rs1 qs1 where w: "(if TTY_STATUS_WIRQ (tty_status io (tty_hw d)) \<noteq> 0 then write_interrupt io wbuf d else Some (Inr d)) = Some (Inr d1)"
    "tty_ok d1" "kinv (tty_kern d1) rs1 qs1" "sent d1 = sent d" "read_queue d1 = read_queue d" "inp (tty_hw d1) = inp (tty_hw d)" "read_count d1 = read_count d"
  proof (cases "TTY_STATUS_WIRQ (tty_status io (tty_hw d)) = 0")
    case False
    let ?d = "tty_cmd io TTY_COMMAND_WIRQ (tty_cmd io TTY_COMMAND_WIRQD d)"
    obtain d2 where d2: "drain_loop io (write_count ?d) ?d = Inr d2" "tty_ok d2" "sent d2 = sent d" "same_read d d2" "inp (tty_hw d2) = inp (tty_hw d)"
      using drain_ok [of ?d "write_count ?d"] d(1) by auto
    have s: "read_queue d2 = read_queue d" "read_count d2 = read_count d" "tty_kern d2 = tty_kern d" using d2(4) by (auto simp: same_read_def read_queue_def)
    obtain k rs' qs' where k: "sleepq_wake_all (tty_kern d) wbuf = Some (Inr k)" "kinv k rs' qs'" using wake_all_kinv [OF d(2), of wbuf] by blast
    show ?thesis
    proof (cases "write_count d2 = 0")
      case True
      then have "write_interrupt io wbuf d = Some (Inr ((tty_cmd io TTY_COMMAND_WIRQE d2)\<lparr>tty_kern := k\<rparr>))"
        using d2(1) k(1) s(3) by (simp add: write_interrupt_def)
      then show ?thesis using that [of "(tty_cmd io TTY_COMMAND_WIRQE d2)\<lparr>tty_kern := k\<rparr>" rs' qs'] False d2 s k(2)
        by (simp add: tty_cmd_def tty_ok_def write_queue_def read_queue_def command)
    next
      case F: False
      then have "write_interrupt io wbuf d = Some (Inr (tty_cmd io TTY_COMMAND_WIRQE d2))" using d2(1) by (simp add: write_interrupt_def)
      then show ?thesis using that [of "tty_cmd io TTY_COMMAND_WIRQE d2" rs qs] False d2 s d(2) by simp
    qed
  qed (use that [of d rs qs] d in simp)
  show ?thesis
  proof (cases "TTY_STATUS_RIRQ (tty_status io (tty_hw d1)) = 0")
    case True
    then show ?thesis using w by (auto simp: tty_interrupt_handle_def)
  next
    case False
    let ?d = "tty_cmd io TTY_COMMAND_RIRQ d1"
    obtain d2 where d2: "take_loop io ?d = Some (Inr d2)" "tty_ok d2" "read_queue d2 = read_queue d1 @ inp (tty_hw d1)" "same_write d1 d2" "inp (tty_hw d2) = []" "out (tty_hw d2) = out (tty_hw d1)"
      using take_loop_ok [of ?d] w(2,6,7) d(3) by auto
    have s: "write_queue d2 = write_queue d1" "tty_kern d2 = tty_kern d1" using d2(4) by (auto simp: same_write_def write_queue_def)
    obtain k rs' qs' where k: "sleepq_wake_all (tty_kern d1) rbuf = Some (Inr k)" "kinv k rs' qs'" using wake_all_kinv [OF w(3), of rbuf] by blast
    have e: "TTY_STATUS_ERROR (tty_status io (tty_hw ?d)) = 0" using rirq by (simp add: tty_cmd_def)
    have "tty_interrupt_handle io wbuf rbuf d = Some (Inr (d2\<lparr>tty_kern := k\<rparr>))"
      unfolding tty_interrupt_handle_def w(1) using False d2(1) e k(1) s(2) by (simp add: read_interrupt_def)
    then show ?thesis using d2 s k(2) w(4-6) by (intro exI [of _ "d2\<lparr>tty_kern := k\<rparr>"] exI [of _ rs'] exI [of _ qs']) (simp add: tty_ok_def write_queue_def read_queue_def)
  qed
qed

lemma write_locked_ok:
  assumes d: "tty_ok d" "kinv (tty_kern d) rs qs" "running (tty_kern d) c" "wbuf \<noteq> 0"
  shows "\<exists>cs' d' rs' qs'. write_locked io wbuf c cs d = Some (Inr (cs', d')) \<and> tty_ok d' \<and> kinv (tty_kern d') rs' qs' \<and> read_queue d' = read_queue d \<and> read_count d' = read_count d
    \<and> inp (tty_hw d') = inp (tty_hw d) \<and> sent d' = sent d @ take (length cs - length cs') cs"
proof -
  obtain cs' d1 where r: "write_run io cs d = Inr (cs', d1)" "tty_ok d1" "sent d1 @ cs' = sent d @ cs" "same_read d d1" "inp (tty_hw d1) = inp (tty_hw d)" "length cs' \<le> length cs"
    using write_run_ok [OF d(1)] by blast
  have s: "read_queue d1 = read_queue d" "read_count d1 = read_count d" "tty_kern d1 = tty_kern d" using r(4) by (auto simp: same_read_def read_queue_def)
  have l: "length (sent d1) = length (sent d) + (length cs - length cs')" using arg_cong [OF r(3), of length] r(6) by simp
  have "sent d1 = take (length (sent d1)) (sent d1 @ cs')" by simp
  also have "\<dots> = sent d @ take (length cs - length cs') cs" unfolding r(3) l by simp
  finally have e: "sent d1 = sent d @ take (length cs - length cs') cs" .
  let ?t = "scheduler_current_thread (tty_kern d) ! c"
  have run: "c < 4" "?t \<noteq> 0" "state (th (tty_kern d) ?t) = THREAD_RUNNING" "sleeps_on (th (tty_kern d) ?t) = 0" using d(3) by (auto simp: running_def)
  have "\<exists>k qs'. sleepq_add (tty_kern d) c 0 wbuf = Some (Inr k) \<and> kinv k rs qs'"
    using sleepq_add_kinv [OF d(2) run(1) refl run(2-4), of 0 wbuf] d(4) by auto
  then obtain k qs' where k: "sleepq_add (tty_kern d) c 0 wbuf = Some (Inr k)" "kinv k rs qs'" by blast
  show ?thesis
  proof (cases "cs' = []")
    case True
    then have "write_locked io wbuf c cs d = Some (Inr (cs', d1))" using r(1) by (simp add: write_locked_def)
    then show ?thesis using r(2,5) s e d(2) by (intro exI [of _ cs'] exI [of _ d1] exI [of _ rs] exI [of _ qs]) simp
  next
    case False
    then have "write_locked io wbuf c cs d = Some (Inr (cs', d1\<lparr>tty_kern := k\<rparr>))" using r(1) k(1) s(3) by (simp add: write_locked_def)
    then show ?thesis using r(2,5) s(1,2) e k(2)
      by (intro exI [of _ cs'] exI [of _ "d1\<lparr>tty_kern := k\<rparr>"] exI [of _ rs] exI [of _ qs']) (simp add: tty_ok_def write_queue_def read_queue_def)
  qed
qed

lemma read_locked_ok:
  assumes d: "tty_ok d" "kinv (tty_kern d) rs qs" "running (tty_kern d) c" "rbuf \<noteq> 0"
  shows "\<exists>a d' rs' qs'. read_locked rbuf c len d = Some (Inr (a, d')) \<and> tty_ok d' \<and> kinv (tty_kern d') rs' qs' \<and> write_queue d' = write_queue d \<and> tty_hw d' = tty_hw d
    \<and> (a = None \<longleftrightarrow> read_count d = 0) \<and> (case a of None \<Rightarrow> [] | Some cs \<Rightarrow> cs) @ read_queue d' = read_queue d \<and> read_count d' \<le> read_count d"
proof (cases "read_count d = 0")
  case True
  let ?t = "scheduler_current_thread (tty_kern d) ! c"
  have run: "c < 4" "?t \<noteq> 0" "state (th (tty_kern d) ?t) = THREAD_RUNNING" "sleeps_on (th (tty_kern d) ?t) = 0" using d(3) by (auto simp: running_def)
  have "\<exists>k qs'. sleepq_add (tty_kern d) c 0 rbuf = Some (Inr k) \<and> kinv k rs qs'"
    using sleepq_add_kinv [OF d(2) run(1) refl run(2-4), of 0 rbuf] d(4) by auto
  then obtain k qs' where k: "sleepq_add (tty_kern d) c 0 rbuf = Some (Inr k)" "kinv k rs qs'" by blast
  then have "read_locked rbuf c len d = Some (Inr (None, d\<lparr>tty_kern := k\<rparr>))" using True by (simp add: read_locked_def)
  then show ?thesis using d(1) k(2) True
    by (intro exI [of _ None] exI [of _ "d\<lparr>tty_kern := k\<rparr>"] exI [of _ rs] exI [of _ qs']) (simp add: tty_ok_def write_queue_def read_queue_def)
next
  case False
  obtain d' where d': "tty_read_loop (nat len) d = Inr (take (nat len) (read_queue d), d')" "tty_ok d'" "read_queue d' = drop (nat len) (read_queue d)" "same_write d d'" "tty_hw d' = tty_hw d"
    "read_count d' = read_count d - nat len" using tty_read_loop_ok [OF d(1)] by blast
  then have "read_locked rbuf c len d = Some (Inr (Some (take (nat len) (read_queue d)), d'))" using False by (simp add: read_locked_def)
  then show ?thesis using d' False d(2)
    by (intro exI [of _ "Some (take (nat len) (read_queue d))"] exI [of _ d'] exI [of _ rs] exI [of _ qs]) (simp add: same_write_def write_queue_def)
qed

end

section \<open>Properties\<close>

text \<open>
  The states of the driver under any interleaving of calls, interrupts, the device and the rest of the
  kernel. \<open>w\<close> is what callers have written, \<open>r\<close> what callers have read and \<open>i\<close> the input of the
  terminal so far. The user never gets more than 2048 characters ahead of the readers.
\<close>

inductive tty_reach ::
  "'y tty_io \<Rightarrow> ('y \<Rightarrow> u8 list) \<Rightarrow> ('y \<Rightarrow> u8 list) \<Rightarrow> u32 \<Rightarrow> u32 \<Rightarrow> 'y tty_real_device_t \<Rightarrow> u8 list \<Rightarrow> u8 list \<Rightarrow> u8 list \<Rightarrow> bool"
  for io out inp wbuf rbuf where
  start: "tty_ok d \<Longrightarrow> read_count d = 0 \<Longrightarrow> write_count d = 0 \<Longrightarrow> kinv (tty_kern d) rs qs \<Longrightarrow> out (tty_hw d) = [] \<Longrightarrow> inp (tty_hw d) = [] \<Longrightarrow>
    tty_reach io out inp wbuf rbuf d [] [] []"
| written: "tty_reach io out inp wbuf rbuf d w r i \<Longrightarrow> running (tty_kern d) c \<Longrightarrow> write_locked io wbuf c cs d = Some (Inr (cs', d')) \<Longrightarrow>
    tty_reach io out inp wbuf rbuf d' (w @ take (length cs - length cs') cs) r i"
| taken: "tty_reach io out inp wbuf rbuf d w r i \<Longrightarrow> running (tty_kern d) c \<Longrightarrow> read_locked rbuf c len d = Some (Inr (a, d')) \<Longrightarrow>
    tty_reach io out inp wbuf rbuf d' w (r @ (case a of None \<Rightarrow> [] | Some cs \<Rightarrow> cs)) i"
| interrupt: "tty_reach io out inp wbuf rbuf d w r i \<Longrightarrow> tty_interrupt_handle io wbuf rbuf d = Some (Inr d') \<Longrightarrow>
    tty_reach io out inp wbuf rbuf d' w r i"
| device: "tty_reach io out inp wbuf rbuf d w r i \<Longrightarrow> out y = out (tty_hw d) \<Longrightarrow> inp y = inp (tty_hw d) @ cs \<Longrightarrow>
    read_count d + length (inp y) \<le> TTY_BUF_SIZE \<Longrightarrow> tty_reach io out inp wbuf rbuf (d\<lparr>tty_hw := y\<rparr>) w r (i @ cs)"
| kernel: "tty_reach io out inp wbuf rbuf d w r i \<Longrightarrow> kstep (tty_kern d) k \<Longrightarrow> tty_reach io out inp wbuf rbuf (d\<lparr>tty_kern := k\<rparr>) w r i"

definition tty_inv :: "('y \<Rightarrow> u8 list) \<Rightarrow> ('y \<Rightarrow> u8 list) \<Rightarrow> 'y tty_real_device_t \<Rightarrow> u8 list \<Rightarrow> u8 list \<Rightarrow> u8 list \<Rightarrow> bool" where
  "tty_inv out inp d w r i \<longleftrightarrow> tty_ok d \<and> (\<exists>rs qs. kinv (tty_kern d) rs qs) \<and> read_count d + length (inp (tty_hw d)) \<le> TTY_BUF_SIZE
     \<and> out (tty_hw d) @ write_queue d = w \<and> r @ read_queue d @ inp (tty_hw d) = i"

lemma length_read_queue [simp]: "length (read_queue d) = read_count d"
  by (simp add: read_queue_def)

lemma tty_reach_inv:
  assumes y: "yams_tty io out inp busy" and b: "wbuf \<noteq> 0" "rbuf \<noteq> 0" and r: "tty_reach io out inp wbuf rbuf d w r i"
  shows "tty_inv out inp d w r i"
  using r
proof (induction rule: tty_reach.induct)
  case (start d rs qs)
  then show ?case by (auto simp: tty_inv_def write_queue_def read_queue_def)
next
  case (written d w r i c cs cs' d')
  then obtain rs qs where "kinv (tty_kern d) rs qs" "tty_ok d" by (auto simp: tty_inv_def)
  then show ?case using yams_tty.write_locked_ok [OF y _ _ written(2) b(1), of rs qs cs] written by (fastforce simp: tty_inv_def)
next
  case (taken d w r i c len a d')
  then obtain rs qs where "kinv (tty_kern d) rs qs" "tty_ok d" by (auto simp: tty_inv_def)
  then show ?case using yams_tty.read_locked_ok [OF y _ _ taken(2) b(2), of rs qs len] taken by (fastforce simp: tty_inv_def)
next
  case (interrupt d w r i d')
  then obtain rs qs where k: "kinv (tty_kern d) rs qs" "tty_ok d" "read_count d + length (inp (tty_hw d)) \<le> 2048" by (auto simp: tty_inv_def)
  obtain rs' qs' where h: "tty_ok d'" "kinv (tty_kern d') rs' qs'" "out (tty_hw d') @ write_queue d' = out (tty_hw d) @ write_queue d" "read_queue d' @ inp (tty_hw d') = read_queue d @ inp (tty_hw d)"
    using yams_tty.handle_ok [OF y k(2,1,3), of wbuf rbuf] interrupt(2) by auto
  have "read_count d' + length (inp (tty_hw d')) = read_count d + length (inp (tty_hw d))" using arg_cong [OF h(4), of length] by simp
  then show ?case using h interrupt by (auto simp: tty_inv_def)
next
  case (device d w r i y cs)
  then show ?case by (auto simp: tty_inv_def tty_ok_def write_queue_def read_queue_def)
next
  case (kernel d w r i k)
  then show ?case using kstep_kinv by (fastforce simp: tty_inv_def tty_ok_def write_queue_def read_queue_def)
qed

text \<open>
  C32. For a terminal that behaves as YAMS documents it, and however calls, interrupts and the device
  interleave: the characters that have been printed followed by those in the write buffer are
  exactly the characters that were written, in order; the characters that were read, followed by
  the read buffer and the input that the device still holds, are exactly the input, in order, as
  long as the user is at most 2048 characters ahead. The interrupt handler never fails.
\<close>

theorem tty_fifo:
  assumes "yams_tty io out inp busy" "wbuf \<noteq> 0" "rbuf \<noteq> 0" "tty_reach io out inp wbuf rbuf d w r i"
  shows "out (tty_hw d) @ write_queue d = w \<and> r @ read_queue d @ inp (tty_hw d) = i \<and> (\<exists>d'. tty_interrupt_handle io wbuf rbuf d = Some (Inr d'))"
proof -
  note v = tty_reach_inv [OF assms]
  then obtain rs qs where "kinv (tty_kern d) rs qs" "tty_ok d" "read_count d + length (inp (tty_hw d)) \<le> 2048" by (auto simp: tty_inv_def)
  then show ?thesis using yams_tty.handle_ok [OF assms(1), of d rs qs wbuf rbuf] v by (auto simp: tty_inv_def)
qed

text \<open>
  C33. The read buffer overflows: when it is full (2048 characters), the interrupt handler still takes
  the next character. It overwrites the oldest one, and is counted: a reader gets it first, in
  place of the oldest, and once more at the end.
\<close>

theorem tty_overflow:
  assumes y: "yams_tty io out inp busy" and d: "tty_ok d" "read_count d = TTY_BUF_SIZE" "inp (tty_hw d) = c # cs"
  shows "\<exists>d'. take_char io d = Inr d' \<and> tty_read_loop 2049 d' = Inr (c # tl (read_queue d) @ [c], d'\<lparr>read_head := (read_head d + 1) mod TTY_BUF_SIZE, read_count := 0\<rparr>)"
proof -
  obtain x h where g: "tty_get io (tty_hw d) = (x, h)" "ucast x = c" using yams_tty.get [OF y d(3)] by blast
  let ?d = "d\<lparr>tty_hw := h, read_buf := (read_buf d)[(read_head d + 2048) mod 2048 := c], read_count := 2049\<rparr>"
  have t: "take_char io d = Inr ?d" using g d by (simp add: take_char_def aset_def tty_ok_def)
  have q: "read_queue ?d = c # tl (read_queue d) @ [c]" "tty_ok ?d" using d ring_overflow [of "read_buf d" "read_head d" c] by (auto simp: read_queue_def tty_ok_def)
  have l: "length (read_queue ?d) = 2049" by (simp add: read_queue_def)
  obtain d' where d': "tty_read_loop 2049 ?d = Inr (take 2049 (read_queue ?d), d')" using tty_read_loop_ok [OF q(2)] by blast
  have "read_head d + 2049 = (read_head d + 1) + 2048" by simp
  then have "(read_head d + 2049) mod 2048 = (read_head d + 1) mod 2048" by (simp only: mod_add_self2)
  then have "d' = ?d\<lparr>read_head := (read_head d + 1) mod 2048, read_count := 0\<rparr>" using tty_read_loop_state [OF d'] q(2) by (simp add: tty_ok_def)
  then show ?thesis using t d' q(1) l by (intro exI [of _ ?d]) simp
qed

section \<open>A terminal\<close>

text \<open>
  A terminal that is busy after each character until the machine has printed it. Its interrupts are
  pending whenever there is input, or it is not busy.
\<close>

record ytty =
  yt_out :: "u8 list"
  yt_in :: "u8 list"
  yt_busy :: bool

definition ytty_status :: "ytty \<Rightarrow> u32" where
  "ytty_status y = (if yt_in y \<noteq> [] then (if yt_busy y then 7 else 13) else (if yt_busy y then 2 else 8))"

definition ytty_io :: "ytty tty_io" where
  "ytty_io = \<lparr>tty_status = ytty_status, tty_command = (\<lambda>y _. y),
     tty_get = (\<lambda>y. case yt_in y of [] \<Rightarrow> (0, y) | c # cs \<Rightarrow> (scast c, y\<lparr>yt_in := cs\<rparr>)),
     tty_put = (\<lambda>y x. y\<lparr>yt_out := yt_out y @ [ucast x], yt_busy := True\<rparr>)\<rparr>"

interpretation yt: yams_tty ytty_io yt_out yt_in yt_busy
proof
  fix y c cs x
  show "(TTY_STATUS_WBUSY (tty_status ytty_io y) = 0) = (\<not> yt_busy y)" "(TTY_STATUS_RAVAIL (tty_status ytty_io y) = 0) = (yt_in y = [])"
    "TTY_STATUS_ERROR (tty_status ytty_io (tty_command ytty_io y 1)) = 0"
    by (simp_all add: ytty_io_def ytty_status_def TTY_STATUS_WBUSY_def TTY_STATUS_RAVAIL_def TTY_STATUS_ERROR_def drop_bit_eq_div)
  show "yt_in y = c # cs \<Longrightarrow> \<exists>x y'. tty_get ytty_io y = (x, y') \<and> ucast x = c \<and> yt_in y' = cs \<and> yt_out y' = yt_out y"
    by (simp add: ytty_io_def char_data)
qed (simp_all add: ytty_io_def)

lemma ytty_ok: "yams_tty ytty_io yt_out yt_in yt_busy"
  by (rule yt.yams_tty_axioms)

definition ex_tty :: "nat \<Rightarrow> u8 list \<Rightarrow> ytty tty_real_device_t" where
  "ex_tty n cs = \<lparr>read_buf = replicate 2048 97, read_head = 0, read_count = n, write_buf = replicate 2048 0, write_head = 2047, write_count = 0,
     tty_hw = \<lparr>yt_out = [], yt_in = cs, yt_busy = False\<rparr>, tty_kern = one_running\<rparr>"

lemma ex_tty_ok: "tty_ok (ex_tty n cs)"
  by (simp add: tty_ok_def ex_tty_def)

theorem tty_fifo_witness:
  "\<exists>d'. tty_interrupt_handle ytty_io 0x80070000 0x80071000 (ex_tty 0 [104, 105]) = Some (Inr d')"
proof -
  have s: "tty_reach ytty_io yt_out yt_in 0x80070000 0x80071000 (ex_tty 0 []) [] [] []"
    by (rule tty_reach.start [where rs = "[]" and qs = "\<lambda>_. []"]) (simp_all add: ex_tty_ok, simp_all add: ex_tty_def one_running_kinv)
  have "tty_reach ytty_io yt_out yt_in 0x80070000 0x80071000 ((ex_tty 0 [])\<lparr>tty_hw := \<lparr>yt_out = [], yt_in = [104, 105], yt_busy = False\<rparr>\<rparr>) [] [] ([] @ [104, 105])"
    by (rule tty_reach.device [OF s]) (simp_all add: ex_tty_def)
  from tty_fifo [OF ytty_ok _ _ this] show ?thesis by (simp add: ex_tty_def)
qed

theorem tty_overflow_witness:
  "\<exists>d'. take_char ytty_io (ex_tty 2048 [98]) = Inr d' \<and> (\<exists>d''. tty_read_loop 2049 d' = Inr (98 # tl (read_queue (ex_tty 2048 [98])) @ [98], d''))"
  using tty_overflow [OF ytty_ok ex_tty_ok, of 2048 "[98]" 98 "[]"] by (auto simp: ex_tty_def)

end
