(* ===== verification/Xprintf.thy ===== *)
theory Xprintf
  imports Libc
begin

text \<open>
  \<^verbatim>\<open>lib/xprintf.c\<close>: formatted output to a buffer or to the terminal.

  The variable arguments are a list of \<open>varg\<close>: a 32-bit number or a string. The buffer is an
  array with the index of the next character, which may run outside; what goes to the terminal through
  \<^verbatim>\<open>polltty_putchar\<close> is collected in a list. Formats and strings are lists that end
  with the terminating zero; reading behind it is an error. The loop over the modifiers of a conversion
  need not end, so it is a partial function.
\<close>

section \<open>The code\<close>

datatype varg = Int_arg u32 | Str_arg "u8 list"

record outp =
  obuf :: "u8 list"
  opos :: int
  otty :: "u8 list"

abbreviation (input) FLAG_TTY :: u32 where "FLAG_TTY \<equiv> 0x8000"
abbreviation (input) FLAG_SMALLS :: u32 where "FLAG_SMALLS \<equiv> 0x01"
abbreviation (input) FLAG_ALT :: u32 where "FLAG_ALT \<equiv> 0x02"
abbreviation (input) FLAG_ZEROPAD :: u32 where "FLAG_ZEROPAD \<equiv> 0x04"
abbreviation (input) FLAG_LEFT :: u32 where "FLAG_LEFT \<equiv> 0x08"
abbreviation (input) FLAG_SPACE :: u32 where "FLAG_SPACE \<equiv> 0x10"
abbreviation (input) FLAG_SIGN :: u32 where "FLAG_SIGN \<equiv> 0x20"

definition printc :: "u8 \<Rightarrow> u32 \<Rightarrow> outp \<Rightarrow> outp res" where
  "printc c flags s =
     (if flags AND FLAG_TTY \<noteq> 0 then Inr (if c \<noteq> 0 then s\<lparr>otty := otty s @ [c]\<rparr> else s)
      else rbind (aset (obuf s) (opos s) c) (\<lambda>b. Inr (s\<lparr>obuf := b\<rparr>)))"

text \<open>\<^verbatim>\<open>printc(buf++, c, flags)\<close>\<close>

definition putc :: "u8 \<Rightarrow> u32 \<Rightarrow> outp \<Rightarrow> outp res" where
  "putc c flags s = rbind (printc c flags s) (\<lambda>s. Inr (s\<lparr>opos := opos s + 1\<rparr>))"

text \<open>
  The digits of a number, from the last one on. The array \<^verbatim>\<open>rev\<close> has room for 11 of them.
\<close>

definition digit :: "bool \<Rightarrow> nat \<Rightarrow> u8" where
  "digit smalls d = of_nat (if d < 10 then 48 + d else if smalls then 87 + d else 55 + d)"

function rev_digits :: "bool \<Rightarrow> nat \<Rightarrow> nat \<Rightarrow> u8 list" where
  "rev_digits smalls base n =
     digit smalls (n mod base) # (if n div base \<noteq> 0 \<and> base > 1 then rev_digits smalls base (n div base) else [])"
  by pat_completeness auto
termination
  by (relation "measure (\<lambda>(_, _, n). n)") (auto intro!: div_less_dividend gr0I)

declare rev_digits.simps [simp del]

fun print_rev :: "u8 list \<Rightarrow> int \<Rightarrow> int \<Rightarrow> u32 \<Rightarrow> outp \<Rightarrow> (int \<times> outp) res" where
  "print_rev [] sz written flags s = Inr (written, s)"
| "print_rev (c # cs) sz written flags s =
     (if written < sz then rbind (putc c flags s) (print_rev cs sz (written + 1) flags) else Inr (written, s))"

definition print_uint :: "int \<Rightarrow> u32 \<Rightarrow> nat \<Rightarrow> u32 \<Rightarrow> int \<Rightarrow> int \<Rightarrow> outp \<Rightarrow> (int \<times> outp) res" where
  "print_uint sz n base flags prec width s =
     (if sz \<le> 0 then Inr (0, s)
      else
        let r = rev_digits (flags AND FLAG_SMALLS \<noteq> 0) base (unat n) in
        if length r > 11 then Inl Bad_access
        else
          let r = r @ replicate (nat (min prec 11) - length r) 48;
              r = r @ replicate (nat (min width 11) - length r) 32 in
          print_rev (rev r) sz 0 flags s)"

text \<open>\<open>scan_int\<close> stops at the digits 0 and 9.\<close>

fun scan_int :: "u8 list \<Rightarrow> int \<Rightarrow> (int \<times> u8 list) res" where
  "scan_int [] v = Inl Bad_access"
| "scan_int (c # s) v = (if 48 < c \<and> c < 57 then scan_int s (10 * v + (uint c - 48)) else Inr (v, c # s))"

text \<open>
  One round of the loop over the modifiers: the rest of the format, flags, width and precision, or
  \<open>None\<close> when the character is not a modifier.
\<close>

definition mod_step :: "u8 \<Rightarrow> u8 list \<Rightarrow> u32 \<Rightarrow> int \<Rightarrow> int \<Rightarrow> (u8 list \<times> u32 \<times> int \<times> int) option res" where
  "mod_step ch fmt flags width prec =
     (if ch = 35 then Inr (Some (fmt, flags OR FLAG_ALT, width, prec))
      else if ch = 48 then Inr (Some (fmt, flags OR FLAG_ZEROPAD, width, prec))
      else if ch = 32 then Inr (Some (fmt, flags OR FLAG_SPACE, width, prec))
      else if ch = 43 then Inr (Some (fmt, flags OR FLAG_SIGN, width, prec))
      else if ch = 45 then Inr (Some (fmt, flags OR FLAG_LEFT, width, prec))
      else if ch = 46 then rbind (scan_int fmt 0) (\<lambda>(p, fmt). Inr (Some (fmt, flags, width, p)))
      else if 49 \<le> ch \<and> ch \<le> 57 then rbind (scan_int (ch # fmt) 0) (\<lambda>(w, fmt). Inr (Some (fmt, flags, w, prec)))
      else Inr None)"

partial_function (option) mods :: "u8 \<Rightarrow> u8 list \<Rightarrow> u32 \<Rightarrow> int \<Rightarrow> int \<Rightarrow> (u8 \<times> u8 list \<times> u32 \<times> int \<times> int) ores" where
  "mods ch fmt flags width prec =
     obind (Some (mod_step ch fmt flags width prec)) (\<lambda>r.
       case r of
         None \<Rightarrow> Some (Inr (ch, fmt, flags, width, prec))
       | Some (fmt, flags, width, prec) \<Rightarrow>
           (case fmt of
              [] \<Rightarrow> Some (Inl Bad_access)
            | ch # fmt \<Rightarrow> if ch \<noteq> 0 then mods ch fmt flags width prec else Some (Inr (ch, fmt, flags, width, prec))))"

fun next_int :: "varg list \<Rightarrow> (u32 \<times> varg list) res" where
  "next_int (Int_arg n # ap) = Inr (n, ap)"
| "next_int _ = Inl Bad_access"

fun next_str :: "varg list \<Rightarrow> (u8 list \<times> varg list) res" where
  "next_str (Str_arg t # ap) = Inr (t, ap)"
| "next_str _ = Inl Bad_access"

fun print_str :: "u8 list \<Rightarrow> int \<Rightarrow> int \<Rightarrow> u32 \<Rightarrow> outp \<Rightarrow> (int \<times> outp) res" where
  "print_str t w written flags s =
     (if written < w then
        (case t of
           [] \<Rightarrow> Inl Bad_access
         | c # t \<Rightarrow> if c \<noteq> 0 then rbind (putc c flags s) (print_str t w (written + 1) flags) else Inr (written, s))
      else Inr (written, s))"

text \<open>A number of the types \<^verbatim>\<open>o\<close>, \<^verbatim>\<open>u\<close> and \<^verbatim>\<open>x\<close>, after the prefix.\<close>

definition conv_uint :: "nat \<Rightarrow> u32 \<Rightarrow> int \<Rightarrow> int \<Rightarrow> int \<Rightarrow> varg list \<Rightarrow> int \<Rightarrow> outp \<Rightarrow> (varg list \<times> int \<times> outp) res" where
  "conv_uint base flags width prec sz ap written s =
     (let prec = (if prec < width \<and> flags AND FLAG_ZEROPAD \<noteq> 0 then width else prec) in
      rbind (next_int ap) (\<lambda>(uarg, ap).
      rbind (print_uint (sz - written) uarg base flags prec width s) (\<lambda>(w, s). Inr (ap, written + w, s))))"

definition conv_int :: "u32 \<Rightarrow> int \<Rightarrow> varg list \<Rightarrow> int \<Rightarrow> outp \<Rightarrow> (varg list \<times> int \<times> outp) res" where
  "conv_int flags sz ap written s =
     rbind (next_int ap) (\<lambda>(arg, ap).
     rbind (if sint arg < 0 then rbind (putc 45 flags s) (\<lambda>s. Inr (- arg, written + 1, s)) else Inr (arg, written, s)) (\<lambda>(arg, written, s).
     rbind (if flags AND FLAG_SIGN \<noteq> 0 then rbind (putc 43 flags s) (\<lambda>s. Inr (written + 1, s))
            else if flags AND FLAG_SPACE \<noteq> 0 then rbind (putc 32 flags s) (\<lambda>s. Inr (written + 1, s))
            else Inr (written, s)) (\<lambda>(written, s).
     rbind (print_uint (sz - written) arg 10 flags 0 0 s) (\<lambda>(w, s). Inr (ap, written + w, s)))))"

definition conv_hex :: "u32 \<Rightarrow> int \<Rightarrow> int \<Rightarrow> int \<Rightarrow> varg list \<Rightarrow> int \<Rightarrow> outp \<Rightarrow> (varg list \<times> int \<times> outp) res" where
  "conv_hex flags width prec sz ap written s =
     rbind (if flags AND FLAG_ALT \<noteq> 0
            then rbind (putc 48 flags s) (\<lambda>s.
                 if written + 1 < sz then rbind (putc 120 flags s) (\<lambda>s. Inr (width - 2, written + 2, s)) else Inr (width - 2, written + 1, s))
            else Inr (width, written, s)) (\<lambda>(width, written, s).
       conv_uint 16 flags width prec sz ap written s)"

definition conv_str :: "u32 \<Rightarrow> int \<Rightarrow> int \<Rightarrow> varg list \<Rightarrow> int \<Rightarrow> outp \<Rightarrow> (varg list \<times> int \<times> outp) res" where
  "conv_str flags prec sz ap written s =
     rbind (next_str ap) (\<lambda>(t, ap).
     rbind (print_str t (if prec \<noteq> -1 \<and> written + prec < sz then written + prec else sz) written flags s) (\<lambda>(written, s).
       Inr (ap, written, s)))"

text \<open>The conversion of one argument. Of the flags only \<^verbatim>\<open>FLAG_TTY\<close> is used again after it.\<close>

definition conv :: "u8 \<Rightarrow> u32 \<Rightarrow> int \<Rightarrow> int \<Rightarrow> int \<Rightarrow> varg list \<Rightarrow> int \<Rightarrow> outp \<Rightarrow> (varg list \<times> int \<times> outp) res" where
  "conv ch flags width prec sz ap written s =
     (if ch = 105 \<or> ch = 100 then conv_int flags sz ap written s
      else if ch = 111 then conv_uint 8 flags width prec sz ap written s
      else if ch = 117 then conv_uint 10 flags width prec sz ap written s
      else if ch = 112 then conv_hex (flags OR FLAG_ALT OR FLAG_SMALLS) width prec sz ap written s
      else if ch = 120 then conv_hex (flags OR FLAG_SMALLS) width prec sz ap written s
      else if ch = 88 then conv_hex flags width prec sz ap written s
      else if ch = 99 then rbind (next_int ap) (\<lambda>(arg, ap). rbind (putc (ucast arg) flags s) (\<lambda>s. Inr (ap, written + 1, s)))
      else if ch = 115 then conv_str flags prec sz ap written s
      else rbind (putc ch flags s) (\<lambda>s. Inr (ap, written + 1, s)))"

partial_function (option) vx_loop :: "int \<Rightarrow> u32 \<Rightarrow> u8 list \<Rightarrow> varg list \<Rightarrow> int \<Rightarrow> outp \<Rightarrow> (int \<times> outp) ores" where
  "vx_loop sz flags fmt ap written s =
     (if written < sz then
        (case fmt of
           [] \<Rightarrow> Some (Inl Bad_access)
         | ch # fmt \<Rightarrow>
             if ch = 0 then Some (Inr (written, s))
             else if ch \<noteq> 37 then obind (Some (putc ch flags s)) (\<lambda>s. vx_loop sz flags fmt ap (written + 1) s)
             else
               (case fmt of
                  [] \<Rightarrow> Some (Inl Bad_access)
                | ch # fmt \<Rightarrow>
                    if ch = 0 then Some (Inr (written, s))
                    else obind (mods ch fmt (flags AND FLAG_TTY) (-1) (-1)) (\<lambda>(ch, fmt, flags, width, prec).
                      if ch = 0 then Some (Inr (written, s))
                      else obind (Some (conv ch flags width prec sz ap written s)) (\<lambda>(ap, written, s). vx_loop sz (flags AND FLAG_TTY) fmt ap written s))))
      else Some (Inr (written, s)))"

definition vxnprintf :: "int \<Rightarrow> u8 list \<Rightarrow> varg list \<Rightarrow> u32 \<Rightarrow> outp \<Rightarrow> (int \<times> outp) ores" where
  "vxnprintf sz fmt ap flags s =
     (if sz \<le> 0 then Some (Inr (0, s))
      else
        obind (vx_loop sz flags fmt ap 0 s) (\<lambda>(written, s).
          let (written, s) = (if written = sz then (-1, s\<lparr>opos := opos s - 1\<rparr>) else (written, s)) in
          obind (Some (printc 0 flags s)) (\<lambda>s. Some (Inr (written, s)))))"

definition snprintf :: "u8 list \<Rightarrow> int \<Rightarrow> u8 list \<Rightarrow> varg list \<Rightarrow> (int \<times> u8 list) ores" where
  "snprintf str sz fmt ap =
     obind (vxnprintf sz fmt ap 0 \<lparr>obuf = str, opos = 0, otty = []\<rparr>) (\<lambda>(written, s). Some (Inr (written, obuf s)))"

definition kprintf :: "u8 list \<Rightarrow> varg list \<Rightarrow> u8 list \<Rightarrow> (int \<times> u8 list) ores" where
  "kprintf fmt ap tty =
     obind (vxnprintf 0x7fffffff fmt ap FLAG_TTY \<lparr>obuf = [], opos = 0, otty = tty\<rparr>) (\<lambda>(written, s). Some (Inr (written, otty s)))"

section \<open>Output\<close>

text \<open>The output of several characters, to the terminal (\<open>t\<close>) or to the buffer.\<close>

definition emit :: "bool \<Rightarrow> u8 list \<Rightarrow> outp \<Rightarrow> outp" where
  "emit t cs s =
     (if t then s\<lparr>opos := opos s + int (length cs), otty := otty s @ filter (\<lambda>c. c \<noteq> 0) cs\<rparr>
      else s\<lparr>obuf := take (nat (opos s)) (obuf s) @ cs @ drop (nat (opos s) + length cs) (obuf s), opos := opos s + int (length cs)\<rparr>)"

definition room :: "bool \<Rightarrow> nat \<Rightarrow> outp \<Rightarrow> bool" where
  "room t n s \<longleftrightarrow> t \<or> (0 \<le> opos s \<and> opos s + int n \<le> int (length (obuf s)))"

abbreviation tty_flag :: "u32 \<Rightarrow> bool" where
  "tty_flag flags \<equiv> flags AND 0x8000 \<noteq> 0"

lemma emit_Nil [simp]: "emit t [] s = s"
  by (simp add: emit_def)

lemma room_mono: "room t n s \<Longrightarrow> m \<le> n \<Longrightarrow> room t m s"
  by (auto simp: room_def)

lemma room_emit: "room t (length a + n) s \<Longrightarrow> room t n (emit t a s)"
  by (auto simp: room_def emit_def)

lemma emit_emit: "room t (length a + length b) s \<Longrightarrow> emit t b (emit t a s) = emit t (a @ b) s"
  by (auto simp: room_def emit_def nat_add_distrib ac_simps)

lemma printc_emit:
  assumes "room (tty_flag flags) 1 s"
  shows "putc c flags s = Inr (emit (tty_flag flags) [c] s)"
proof (cases "tty_flag flags")
  case True
  then show ?thesis by (simp add: putc_def printc_def emit_def)
next
  case False
  then obtain p where p: "opos s = int p" "p < length (obuf s)" using assms by (auto simp: room_def elim!: nonneg_int_cases)
  then show ?thesis using False by (simp add: putc_def printc_def emit_def upd_conv_take_nth_drop)
qed

lemma take_cut: "emit t (take k a) s = s' \<Longrightarrow> room t k s \<Longrightarrow> emit t (take (k - length a) b) s' = emit t (take k (a @ b)) s"
proof -
  assume s: "emit t (take k a) s = s'" and r: "room t k s"
  have "length (take k a) + length (take (k - length a) b) \<le> k" by simp
  then have "room t (length (take k a) + length (take (k - length a) b)) s" using r room_mono by blast
  from emit_emit [OF this] s show ?thesis by simp
qed

lemma print_rev_emit:
  "written \<le> sz \<Longrightarrow> room (tty_flag flags) (nat (sz - written)) s \<Longrightarrow>
   print_rev cs sz written flags s = Inr (min sz (written + int (length cs)), emit (tty_flag flags) (take (nat (sz - written)) cs) s)"
proof (induction cs arbitrary: written s)
  case (Cons c cs)
  show ?case
  proof (cases "written < sz")
    case True
    let ?t = "tty_flag flags" let ?k = "nat (sz - (written + 1))"
    have k: "nat (sz - written) = Suc ?k" using True by simp
    have "room ?t 1 s" "room ?t ?k (emit ?t [c] s)" using Cons.prems(2) room_mono [of ?t _ s 1] room_emit [of ?t "[c]" ?k s] k by simp_all
    then have "print_rev (c # cs) sz written flags s = Inr (min sz (written + 1 + int (length cs)), emit ?t (take ?k cs) (emit ?t [c] s))"
      using True Cons.IH [of "written + 1" "emit ?t [c] s"] by (simp add: printc_emit)
    moreover have "emit ?t (take ?k cs) (emit ?t [c] s) = emit ?t (take (Suc ?k) (c # cs)) s"
      using take_cut [of ?t "Suc ?k" "[c]" s "emit ?t [c] s" cs] Cons.prems(2) k by simp
    ultimately show ?thesis using k by (simp add: ac_simps)
  qed (use Cons.prems in simp)
qed simp

lemma print_str_emit:
  "cstr w t \<Longrightarrow> written \<le> lim \<Longrightarrow> room (tty_flag flags) (nat (lim - written)) s \<Longrightarrow>
   print_str t lim written flags s = Inr (min lim (written + int (length w)), emit (tty_flag flags) (take (nat (lim - written)) w) s)"
proof (induction w arbitrary: t written s)
  case Nil
  then show ?case by (subst print_str.simps) (auto simp: cstr_def)
next
  case (Cons c w)
  then obtain t' where t': "t = c # t'" "c \<noteq> 0" "cstr w t'" by (auto simp: cstr_def)
  show ?case
  proof (cases "written < lim")
    case True
    let ?t = "tty_flag flags" let ?k = "nat (lim - (written + 1))"
    have k: "nat (lim - written) = Suc ?k" using True by simp
    have "room ?t 1 s" "room ?t ?k (emit ?t [c] s)" using Cons.prems(3) room_mono [of ?t _ s 1] room_emit [of ?t "[c]" ?k s] k by simp_all
    then have "print_str t lim written flags s = Inr (min lim (written + 1 + int (length w)), emit ?t (take ?k w) (emit ?t [c] s))"
      using True t' Cons.IH [OF t'(3), of "written + 1" "emit ?t [c] s"] by (subst print_str.simps) (simp add: printc_emit del: print_str.simps)
    moreover have "emit ?t (take ?k w) (emit ?t [c] s) = emit ?t (take (Suc ?k) (c # w)) s"
      using take_cut [of ?t "Suc ?k" "[c]" s "emit ?t [c] s" w] Cons.prems(3) k by simp
    ultimately show ?thesis using k by (simp add: ac_simps)
  qed (use Cons.prems in \<open>subst print_str.simps, simp\<close>)
qed

section \<open>Numbers\<close>

text \<open>The text of a number; its value is the number, and 11 digits are enough.\<close>

definition num_str :: "bool \<Rightarrow> nat \<Rightarrow> nat \<Rightarrow> u8 list" where
  "num_str smalls base n = rev (rev_digits smalls base n)"

definition digit_val :: "u8 \<Rightarrow> nat" where
  "digit_val c = (let d = unat c in if d < 58 then d - 48 else if d < 97 then d - 55 else d - 87)"

lemma digit_val: "d < 16 \<Longrightarrow> digit_val (digit smalls d) = d"
  by (simp add: digit_val_def digit_def unat_of_nat Let_def)

lemma rev_digits_value:
  "1 < base \<Longrightarrow> base \<le> 16 \<Longrightarrow> foldr (\<lambda>c v. v * base + digit_val c) (rev_digits smalls base n) 0 = n"
proof (induction smalls base n rule: rev_digits.induct)
  case (1 smalls base n)
  have d: "digit_val (digit smalls (n mod base)) = n mod base" using "1.prems" mod_less_divisor [of base n] by (intro digit_val) linarith
  show ?case
  proof (cases "n div base = 0")
    case True
    then show ?thesis using d "1.prems" by (subst rev_digits.simps) (simp add: div_eq_0_iff)
  next
    case False
    then show ?thesis using 1 d by (subst rev_digits.simps) simp
  qed
qed

lemma num_str_value: "1 < base \<Longrightarrow> base \<le> 16 \<Longrightarrow> foldl (\<lambda>v c. v * base + digit_val c) 0 (num_str smalls base n) = n"
  using rev_digits_value [of base smalls n] by (simp add: num_str_def foldl_conv_foldr)

lemma rev_digits_length: "n < 8 ^ k \<Longrightarrow> 8 \<le> base \<Longrightarrow> 0 < k \<Longrightarrow> length (rev_digits smalls base n) \<le> k"
proof (induction k arbitrary: n)
  case (Suc k)
  show ?case
  proof (cases "n div base = 0")
    case True
    then show ?thesis by (subst rev_digits.simps) simp
  next
    case False
    have "n div base \<le> n div 8" using Suc.prems(2) by (intro div_le_mono2) simp_all
    also have "\<dots> < 8 ^ k" using Suc.prems(1) by (simp add: div_less_iff_less_mult mult.commute)
    finally have "n div base < 8 ^ k" .
    moreover from this False have "0 < k" by (cases k) auto
    ultimately show ?thesis using Suc.IH [of "n div base"] Suc.prems(2) by (subst rev_digits.simps) simp
  qed
qed simp

definition pad :: "u8 \<Rightarrow> int \<Rightarrow> u8 list \<Rightarrow> u8 list" where
  "pad c k cs = replicate (nat (min k 11) - length cs) c @ cs"

lemma print_uint_emit:
  assumes "0 \<le> sz" "room (tty_flag flags) (nat sz) s" "8 \<le> base"
  shows "print_uint sz n base flags prec width s =
    (let txt = pad 32 width (pad 48 prec (num_str (flags AND FLAG_SMALLS \<noteq> 0) base (unat n))) in
     Inr (min sz (int (length txt)), emit (tty_flag flags) (take (nat sz) txt) s))"
proof (cases "sz = 0")
  case False
  let ?r = "rev_digits (flags AND FLAG_SMALLS \<noteq> 0) base (unat n)"
  have "unat n < 8 ^ 11" using u32_less [of n] by simp
  then have l: "\<not> 11 < length ?r" using rev_digits_length [of "unat n" 11 base] assms(3) by (simp add: not_less)
  let ?p = "?r @ replicate (nat (min prec 11) - length ?r) 48" let ?w = "?p @ replicate (nat (min width 11) - length ?p) 32"
  have "print_uint sz n base flags prec width s = print_rev (rev ?w) sz 0 flags s"
    using False assms(1) l by (simp add: print_uint_def Let_def)
  moreover have "rev ?w = pad 32 width (pad 48 prec (num_str (flags AND FLAG_SMALLS \<noteq> 0) base (unat n)))" by (simp add: pad_def num_str_def add.commute)
  ultimately show ?thesis using print_rev_emit [of 0 sz flags s "rev ?w"] assms(1,2) by (simp add: Let_def)
qed (simp add: print_uint_def Let_def)

section \<open>Formats\<close>

text \<open>
  The parts of a format: ordinary characters, \<^verbatim>\<open>%d\<close> and \<^verbatim>\<open>%i\<close>, unsigned numbers with the flags \<^verbatim>\<open>#\<close> and
  \<^verbatim>\<open>0\<close>, a width and a precision, strings with a precision, characters, and other characters
  behind a \<^verbatim>\<open>%\<close>. Widths and precisions are made of the digits 1 to 8, which are all that
  \<open>scan_int\<close> understands; at most nine of them fit into a signed number.
\<close>

datatype num_type = Oct | Uns | Hex | HEX | Ptr

datatype fitem =
    Lit u8
  | Dec bool
  | Num bool bool "u8 list" "u8 list option" num_type
  | Str "u8 list option"
  | Chr
  | Other u8

fun num_char :: "num_type \<Rightarrow> u8" where
  "num_char Oct = 111" | "num_char Uns = 117" | "num_char Hex = 120" | "num_char HEX = 88" | "num_char Ptr = 112"

fun prec_text :: "u8 list option \<Rightarrow> u8 list" where
  "prec_text None = []"
| "prec_text (Some d) = 46 # d"

fun fmt_item :: "fitem \<Rightarrow> u8 list" where
  "fmt_item (Lit c) = [c]"
| "fmt_item (Dec i) = [37, if i then 105 else 100]"
| "fmt_item (Num alt zero w p ty) = 37 # (if alt then [35] else []) @ (if zero then [48] else []) @ w @ prec_text p @ [num_char ty]"
| "fmt_item (Str p) = 37 # prec_text p @ [115]"
| "fmt_item Chr = [37, 99]"
| "fmt_item (Other c) = [37, c]"

definition digits18 :: "u8 list \<Rightarrow> bool" where
  "digits18 d \<longleftrightarrow> length d \<le> 9 \<and> (\<forall>c \<in> set d. 49 \<le> c \<and> c \<le> 56)"

definition dval :: "u8 list \<Rightarrow> int" where
  "dval d = foldl (\<lambda>v c. 10 * v + (uint c - 48)) 0 d"

fun item_ok :: "fitem \<Rightarrow> bool" where
  "item_ok (Lit c) = (c \<noteq> 0 \<and> c \<noteq> 37)"
| "item_ok (Num alt zero w p ty) = (digits18 w \<and> (case p of None \<Rightarrow> True | Some d \<Rightarrow> digits18 d))"
| "item_ok (Str p) = (case p of None \<Rightarrow> True | Some d \<Rightarrow> digits18 d)"
| "item_ok (Other c) = (c \<noteq> 0 \<and> c \<notin> {35, 48, 32, 43, 45, 46} \<and> \<not> (49 \<le> c \<and> c \<le> 57) \<and> c \<notin> {105, 100, 111, 117, 112, 120, 88, 99, 115})"
| "item_ok _ = True"

text \<open>
  The text that a part stands for, with the arguments that are left. A number is padded with zeros to
  the precision (with the flag \<^verbatim>\<open>0\<close>, to the width) and with spaces to the width, both at
  most 11.
\<close>

definition opt_val :: "u8 list option \<Rightarrow> int" where
  "opt_val p = (case p of None \<Rightarrow> -1 | Some d \<Rightarrow> dval d)"

definition num_text :: "bool \<Rightarrow> bool \<Rightarrow> int \<Rightarrow> int \<Rightarrow> num_type \<Rightarrow> u32 \<Rightarrow> u8 list" where
  "num_text alt zero w p ty n =
     (let pre = (if ty = Ptr \<or> (ty = Hex \<or> ty = HEX) \<and> alt then [48, 120] else []);
          w = w - int (length pre);
          p = (if p < w \<and> zero then w else p);
          base = (case ty of Oct \<Rightarrow> 8 | Uns \<Rightarrow> 10 | _ \<Rightarrow> 16)
      in pre @ pad 32 w (pad 48 p (num_str (ty = Hex \<or> ty = Ptr) base (unat n))))"

fun item_text :: "fitem \<Rightarrow> varg list \<Rightarrow> (u8 list \<times> varg list) option" where
  "item_text (Lit c) ap = Some ([c], ap)"
| "item_text (Other c) ap = Some ([c], ap)"
| "item_text (Dec i) (Int_arg n # ap) = Some ((if sint n < 0 then 45 # num_str False 10 (unat (- n)) else num_str False 10 (unat n)), ap)"
| "item_text (Num alt zero w p ty) (Int_arg n # ap) = Some (num_text alt zero (if w = [] then -1 else dval w) (opt_val p) ty n, ap)"
| "item_text Chr (Int_arg n # ap) = Some ([ucast n], ap)"
| "item_text (Str p) (Str_arg t # ap) =
     (if 0 \<in> set t then Some ((case p of None \<Rightarrow> id | Some d \<Rightarrow> take (nat (dval d))) (takeWhile (\<lambda>c. c \<noteq> 0) t), ap) else None)"
| "item_text _ _ = None"

fun fmt_text :: "fitem list \<Rightarrow> varg list \<Rightarrow> u8 list option" where
  "fmt_text [] ap = Some []"
| "fmt_text (i # its) ap = Option.bind (item_text i ap) (\<lambda>(t, ap). map_option (\<lambda>ts. t @ ts) (fmt_text its ap))"

section \<open>Reading the modifiers\<close>

definition mods_from :: "u8 list \<Rightarrow> u32 \<Rightarrow> int \<Rightarrow> int \<Rightarrow> (u8 \<times> u8 list \<times> u32 \<times> int \<times> int) ores" where
  "mods_from fmt flags width prec =
     (case fmt of
        [] \<Rightarrow> Some (Inl Bad_access)
      | ch # fmt \<Rightarrow> if ch \<noteq> 0 then mods ch fmt flags width prec else Some (Inr (ch, fmt, flags, width, prec)))"

lemma mods_eq:
  "mods ch fmt flags width prec =
     obind (Some (mod_step ch fmt flags width prec)) (\<lambda>r.
       case r of None \<Rightarrow> Some (Inr (ch, fmt, flags, width, prec)) | Some (fmt, flags, width, prec) \<Rightarrow> mods_from fmt flags width prec)"
  unfolding mods_from_def by (subst mods.simps) simp

lemma scan_digits:
  "digits18 d \<Longrightarrow> \<not> (49 \<le> c \<and> c \<le> 56) \<Longrightarrow> scan_int (d @ c # r) v = Inr (foldl (\<lambda>v c. 10 * v + (uint c - 48)) v d, c # r)"
proof (induction d arbitrary: v)
  case Nil
  then have "\<not> (48 < c \<and> c < 57)" by (auto simp: word_less_nat_alt word_le_nat_alt)
  then show ?case by auto
next
  case (Cons e d)
  then have "48 < e \<and> e < 57" by (auto simp: digits18_def word_less_nat_alt word_le_nat_alt)
  then show ?case using Cons by (simp add: digits18_def)
qed

lemma mods_alt: "mods_from (35 # r) fl w p = mods_from r (fl OR FLAG_ALT) w p"
  by (subst mods_from_def) (simp add: mods_eq mod_step_def)

lemma mods_zero: "mods_from (48 # r) fl w p = mods_from r (fl OR FLAG_ZEROPAD) w p"
  by (subst mods_from_def) (simp add: mods_eq mod_step_def)

lemma mods_width:
  assumes "digits18 d" "d \<noteq> []" "\<not> (49 \<le> c \<and> c \<le> 56)"
  shows "mods_from (d @ c # r) fl w p = mods_from (c # r) fl (dval d) p"
proof -
  obtain e d' where d: "d = e # d'" using assms(2) by (cases d) auto
  have e: "49 \<le> e" "e \<le> 56" using assms(1) d by (auto simp: digits18_def)
  then have "e \<le> 57" by (simp add: word_le_nat_alt)
  moreover have "e \<notin> {0, 35, 48, 32, 43, 45, 46}" using e by (auto simp: word_le_nat_alt)
  ultimately have "mods_from (d @ c # r) fl w p = obind (Some (rbind (scan_int (d @ c # r) 0) (\<lambda>(w, fmt). Inr (Some (fmt, fl, w, p)))))
      (\<lambda>x. case x of None \<Rightarrow> Some (Inr (e, d' @ c # r, fl, w, p)) | Some (fmt, flags, width, prec) \<Rightarrow> mods_from fmt flags width prec)"
    using e by (subst mods_from_def) (simp add: d mods_eq mod_step_def del: scan_int.simps)
  then show ?thesis using scan_digits [OF assms(1,3)] by (simp add: dval_def)
qed

lemma mods_prec:
  assumes "digits18 d" "\<not> (49 \<le> c \<and> c \<le> 56)"
  shows "mods_from (46 # d @ c # r) fl w p = mods_from (c # r) fl w (dval d)"
  by (subst mods_from_def) (simp add: mods_eq mod_step_def scan_digits [OF assms] dval_def)

lemma mods_end:
  assumes "c \<noteq> 0" "c \<notin> {35, 48, 32, 43, 45, 46}" "\<not> (49 \<le> c \<and> c \<le> 57)"
  shows "mods_from (c # r) fl w p = Some (Inr (c, r, fl, w, p))"
  using assms by (subst mods_from_def) (auto simp: mods_eq mod_step_def simp del: scan_int.simps)

section \<open>Conversions\<close>

text \<open>What a conversion does when it stands for the text \<open>txt\<close>: it prints as much of it as there is room for.\<close>

definition prints :: "(varg list \<times> int \<times> outp) res \<Rightarrow> bool \<Rightarrow> u8 list \<Rightarrow> varg list \<Rightarrow> int \<Rightarrow> int \<Rightarrow> outp \<Rightarrow> bool" where
  "prints r t txt ap sz written s \<longleftrightarrow> r = Inr (ap, min sz (written + int (length txt)), emit t (take (nat (sz - written)) txt) s)"

lemma conv_uint_prints:
  assumes "0 \<le> written" "written \<le> sz" "room (tty_flag flags) (nat (sz - written)) s" "8 \<le> base"
  shows "prints (conv_uint base flags width prec sz (Int_arg n # ap) written s) (tty_flag flags)
    (pad 32 width (pad 48 (if prec < width \<and> flags AND FLAG_ZEROPAD \<noteq> 0 then width else prec) (num_str (flags AND FLAG_SMALLS \<noteq> 0) base (unat n)))) ap sz written s"
  using print_uint_emit [of "sz - written" flags s base n] assms by (simp add: prints_def conv_uint_def Let_def)

text \<open>
  A prefix before a text.
\<close>

lemma prints_after:
  assumes p: "prints x t txt ap sz (min sz (written + int (length pre))) (emit t (take (nat (sz - written)) pre) s)"
    and w: "written \<le> sz" and r: "room t (nat (sz - written)) s"
  shows "prints x t (pre @ txt) ap sz written s"
proof -
  let ?k = "nat (sz - written)"
  have "nat (sz - min sz (written + int (length pre))) = ?k - length pre" using w by auto
  moreover have "emit t (take (?k - length pre) txt) (emit t (take ?k pre) s) = emit t (take ?k (pre @ txt)) s" by (rule take_cut [OF refl r])
  moreover have "min sz (min sz (written + int (length pre)) + int (length txt)) = min sz (written + int (length (pre @ txt)))" by auto
  ultimately show ?thesis using p unfolding prints_def by simp
qed

lemma room_rest:
  assumes "written \<le> sz" "room t (nat (sz - written)) s"
  shows "room t (nat (sz - min sz (written + int (length pre)))) (emit t (take (nat (sz - written)) pre) s)"
proof -
  have "length (take (nat (sz - written)) pre) + nat (sz - min sz (written + int (length pre))) \<le> nat (sz - written)" using assms(1) by auto
  then show ?thesis using assms(2) room_mono room_emit by blast
qed

lemma conv_int_prints:
  assumes w: "0 \<le> written" "written < sz" and r: "room (tty_flag flags) (nat (sz - written)) s"
    and f: "flags AND FLAG_SIGN = 0" "flags AND FLAG_SPACE = 0" "flags AND FLAG_SMALLS = 0"
  shows "prints (conv_int flags sz (Int_arg n # ap) written s) (tty_flag flags)
    (if sint n < 0 then 45 # num_str False 10 (unat (- n)) else num_str False 10 (unat n)) ap sz written s"
proof -
  let ?t = "tty_flag flags" let ?g = "\<lambda>m written s. rbind (print_uint (sz - written) m 10 flags 0 0 s) (\<lambda>(w, s). Inr (ap, written + w, s))"
  have g: "prints (?g m written s) ?t (num_str False 10 (unat m)) ap sz written s"
    if "0 \<le> written" "written \<le> sz" "room ?t (nat (sz - written)) s" for m written s
    using print_uint_emit [of "sz - written" flags s 10 m 0 0] that f(3) by (simp add: prints_def Let_def pad_def)
  show ?thesis
  proof (cases "sint n < 0")
    case False
    then have "conv_int flags sz (Int_arg n # ap) written s = ?g n written s" using f by (simp add: conv_int_def)
    then show ?thesis using g [of written s n] False w r by simp
  next
    case True
    let ?k = "nat (sz - written)"
    have k: "take ?k [45] = [45 :: u8]" "min sz (written + int (length [45 :: u8])) = written + 1" using w by (simp_all add: take_Cons')
    have "room ?t 1 s" using r room_mono [of ?t ?k s 1] w by simp
    then have "conv_int flags sz (Int_arg n # ap) written s = ?g (- n) (written + 1) (emit ?t [45] s)" using f True by (simp add: conv_int_def printc_emit)
    moreover have "prints (?g (- n) (min sz (written + int (length [45 :: u8]))) (emit ?t (take ?k [45]) s)) ?t ([45] @ num_str False 10 (unat (- n))) ap sz written s"
      by (rule prints_after, rule g) (use w r room_rest [OF _ r, of "[45]"] in auto)
    ultimately show ?thesis using True unfolding k by simp
  qed
qed

lemma conv_hex_prints:
  assumes w: "0 \<le> written" "written < sz" and r: "room (tty_flag flags) (nat (sz - written)) s"
  defines "pre \<equiv> if flags AND FLAG_ALT \<noteq> 0 then [48, 120] else [] :: u8 list"
  shows "prints (conv_hex flags width prec sz (Int_arg n # ap) written s) (tty_flag flags)
    (pre @ pad 32 (width - int (length pre)) (pad 48 (if prec < width - int (length pre) \<and> flags AND FLAG_ZEROPAD \<noteq> 0 then width - int (length pre) else prec)
      (num_str (flags AND FLAG_SMALLS \<noteq> 0) 16 (unat n)))) ap sz written s"
proof -
  let ?t = "tty_flag flags" let ?k = "nat (sz - written)"
  let ?f = "\<lambda>written s. conv_uint 16 flags (width - int (length pre)) prec sz (Int_arg n # ap) written s"
  have e: "conv_hex flags width prec sz (Int_arg n # ap) written s = ?f (min sz (written + int (length pre))) (emit ?t (take ?k pre) s)"
  proof (cases "flags AND FLAG_ALT = 0")
    case True
    then show ?thesis using w by (simp add: conv_hex_def pre_def)
  next
    case False
    have r1: "room ?t 1 s" using r room_mono [of ?t ?k s 1] w by simp
    show ?thesis
    proof (cases "written + 1 < sz")
      case True
      then have "room ?t (length [48 :: u8] + length [120 :: u8]) s" using r room_mono [of ?t ?k s "Suc (Suc 0)"] by simp
      note r2 = room_emit [of ?t "[48]" 1 s] emit_emit [OF this]
      have "take ?k pre = [48, 120]" "min sz (written + int (length pre)) = written + 2" using False True by (simp_all add: pre_def take_Cons')
      then show ?thesis using False True r1 r2 \<open>room ?t (length [48] + length [120]) s\<close> by (simp add: conv_hex_def printc_emit pre_def)
    next
      case c: False
      then have "sz = written + 1" using w by simp
      then have "take ?k pre = [48]" "min sz (written + int (length pre)) = written + 1" using False by (simp_all add: pre_def)
      then show ?thesis using False c r1 by (simp add: conv_hex_def printc_emit pre_def)
    qed
  qed
  show ?thesis unfolding e
    by (rule prints_after, rule conv_uint_prints) (use w r room_rest [OF _ r, of pre] in auto)
qed

lemma mods_prec_end:
  assumes "case p of None \<Rightarrow> True | Some d \<Rightarrow> digits18 d" "c \<noteq> 0" "c \<notin> {35, 48, 32, 43, 45, 46}" "\<not> (49 \<le> c \<and> c \<le> 57)"
  shows "mods_from (prec_text p @ c # r) fl w (-1) = Some (Inr (c, r, fl, w, opt_val p))"
proof -
  have "\<not> (49 \<le> c \<and> c \<le> 56)" using assms(4) by (auto simp: word_le_nat_alt)
  then show ?thesis using assms by (cases p) (simp_all add: mods_prec mods_end opt_val_def)
qed

definition num_fl :: "u32 \<Rightarrow> bool \<Rightarrow> bool \<Rightarrow> u32" where
  "num_fl tty alt zero = tty OR (if alt then FLAG_ALT else 0) OR (if zero then FLAG_ZEROPAD else 0)"

lemma mods_num:
  assumes "digits18 w" "case p of None \<Rightarrow> True | Some d \<Rightarrow> digits18 d" "c \<noteq> 0" "c \<notin> {35, 48, 32, 43, 45, 46}" "\<not> (49 \<le> c \<and> c \<le> 57)"
  shows "mods_from ((if alt then [35] else []) @ (if zero then [48] else []) @ w @ prec_text p @ c # r) fl (-1) (-1) =
    Some (Inr (c, r, num_fl fl alt zero, (if w = [] then -1 else dval w), opt_val p))"
proof -
  have w: "mods_from (w @ prec_text p @ c # r) f (-1) (-1) = Some (Inr (c, r, f, (if w = [] then -1 else dval w), opt_val p))" for f
  proof (cases "w = []")
    case False
    obtain e r' where e: "prec_text p @ c # r = e # r'" "e = 46 \<or> e = c" by (cases p) auto
    then have "\<not> (49 \<le> e \<and> e \<le> 56)" using assms(5) by (auto simp: word_le_nat_alt)
    then show ?thesis using mods_width [OF assms(1) False, of e r' f "-1" "-1"] mods_prec_end [OF assms(2-5), of r f "dval w"] False e(1) by simp
  qed (use mods_prec_end [OF assms(2-5)] in simp)
  show ?thesis using w by (cases alt; cases zero) (simp_all add: mods_alt mods_zero or.assoc num_fl_def)
qed

lemma vx_percent:
  "written < sz \<Longrightarrow> vx_loop sz flags (37 # r) ap written s =
    obind (mods_from r (flags AND FLAG_TTY) (-1) (-1)) (\<lambda>(ch, fmt, flags, width, prec).
      if ch = 0 then Some (Inr (written, s))
      else obind (Some (conv ch flags width prec sz ap written s)) (\<lambda>(ap, written, s). vx_loop sz (flags AND FLAG_TTY) fmt ap written s))"
  by (subst vx_loop.simps) (simp add: mods_from_def split: list.split)

lemma vx_conv:
  assumes "written < sz" "mods_from r (flags AND FLAG_TTY) (-1) (-1) = Some (Inr (ch, rest, fl, width, prec))" "ch \<noteq> 0" "fl AND FLAG_TTY = flags"
    and "prints (conv ch fl width prec sz ap written s) t txt ap' sz written s"
  shows "vx_loop sz flags (37 # r) ap written s =
    vx_loop sz flags rest ap' (min sz (written + int (length txt))) (emit t (take (nat (sz - written)) txt) s)"
  using assms by (simp add: vx_percent prints_def)

lemma num_flags:
  fixes tty :: u32
  assumes "tty = 0 \<or> tty = FLAG_TTY"
  shows "tty_flag (num_fl tty alt zero) = (tty \<noteq> 0)" "num_fl tty alt zero AND FLAG_TTY = tty" "(num_fl tty alt zero AND FLAG_ALT \<noteq> 0) = alt"
    "(num_fl tty alt zero AND FLAG_ZEROPAD \<noteq> 0) = zero" "num_fl tty alt zero AND FLAG_SMALLS = 0"
    "num_fl tty alt zero OR FLAG_ALT = num_fl tty True zero"
  using assms unfolding num_fl_def by (cases alt; cases zero; auto simp: or.assoc)+

lemma small_flags:
  fixes fl :: u32
  shows "tty_flag (fl OR FLAG_SMALLS) = tty_flag fl" "(fl OR FLAG_SMALLS) AND FLAG_SMALLS \<noteq> 0"
    "(fl OR FLAG_SMALLS) AND FLAG_ALT = fl AND FLAG_ALT" "(fl OR FLAG_SMALLS) AND FLAG_ZEROPAD = fl AND FLAG_ZEROPAD"
  by (simp_all add: bit.conj_disj_distrib2)

lemma conv_num_prints:
  fixes tty :: u32
  assumes tty: "tty = 0 \<or> tty = FLAG_TTY" and w: "0 \<le> written" "written < sz" and r: "room (tty \<noteq> 0) (nat (sz - written)) s"
  shows "prints (conv (num_char ty) (num_fl tty alt zero) width prec sz (Int_arg n # ap) written s)
    (tty \<noteq> 0) (num_text alt zero width prec ty n) ap sz written s"
proof -
  note f = num_flags [OF tty]
  have w': "written \<le> sz" using w by simp
  have r': "room (tty_flag (num_fl tty a zero)) (nat (sz - written)) s" "room (tty_flag (num_fl tty a zero OR FLAG_SMALLS)) (nat (sz - written)) s" for a
    using r f(1) small_flags(1) by simp_all
  note u = conv_uint_prints [OF w(1) w' r'(1), of _ alt width prec n ap] and h = conv_hex_prints [OF w r'(1), of alt width prec n ap]
    and hs = conv_hex_prints [OF w r'(2), of _ width prec n ap]
  show ?thesis
  proof (cases ty)
    case Oct
    then show ?thesis using u [of 8] unfolding f small_flags by (auto simp: conv_def num_text_def Let_def f split: if_splits)
  next
    case Uns
    then show ?thesis using u [of 10] unfolding f small_flags by (auto simp: conv_def num_text_def Let_def f split: if_splits)
  next
    case Hex
    then show ?thesis using hs [of alt] unfolding f small_flags by (auto simp: conv_def num_text_def Let_def f split: if_splits)
  next
    case HEX
    then show ?thesis using h unfolding f small_flags by (auto simp: conv_def num_text_def Let_def f split: if_splits)
  next
    case Ptr
    have "num_fl tty alt zero OR FLAG_ALT OR FLAG_SMALLS = num_fl tty True zero OR FLAG_SMALLS" using f(6) by (simp only: or.assoc [symmetric])
    then show ?thesis using hs [of True] Ptr unfolding f small_flags by (auto simp: conv_def num_text_def Let_def f split: if_splits)
  qed
qed

lemma conv_str_prints:
  assumes "written \<le> sz" "room (tty_flag fl) (nat (sz - written)) s" "cstr w t" "p = -1 \<or> 0 \<le> p"
  shows "prints (conv_str fl p sz (Str_arg t # ap) written s) (tty_flag fl) (if p = -1 then w else take (nat p) w) ap sz written s"
proof -
  let ?lim = "if p \<noteq> -1 \<and> written + p < sz then written + p else sz" let ?txt = "if p = -1 then w else take (nat p) w"
  have l: "written \<le> ?lim" "?lim \<le> sz" using assms(1,4) by auto
  have "room (tty_flag fl) (nat (?lim - written)) s" using room_mono [OF assms(2)] l by simp
  note e = print_str_emit [OF assms(3) l(1) this]
  have "take (nat (?lim - written)) w = take (nat (sz - written)) ?txt" "min ?lim (written + int (length w)) = min sz (written + int (length ?txt))"
    using assms(1,4) by (auto simp: min_def)
  then show ?thesis using e by (simp add: conv_str_def prints_def)
qed

lemma cstr_takeWhile0: "0 \<in> set t \<Longrightarrow> cstr (takeWhile (\<lambda>c. c \<noteq> 0) t) t"
  by (induction t) auto

lemma dval_nonneg: "digits18 d \<Longrightarrow> 0 \<le> dval d"
proof -
  have "digits18 d \<Longrightarrow> 0 \<le> v \<Longrightarrow> 0 \<le> foldl (\<lambda>v c. 10 * v + (uint c - 48)) v d" for v
  proof (induction d arbitrary: v)
    case (Cons c d)
    then have "49 \<le> c" "digits18 d" by (auto simp: digits18_def)
    moreover from this(1) have "48 \<le> uint c" by (simp add: word_le_def)
    ultimately show ?case using Cons by simp
  qed simp
  from this [of 0] show "digits18 d \<Longrightarrow> 0 \<le> dval d" by (simp add: dval_def)
qed

lemma prints_char: "written < sz \<Longrightarrow> room (tty_flag fl) (nat (sz - written)) s \<Longrightarrow>
  prints (rbind (putc c fl s) (\<lambda>s. Inr (ap, written + 1, s))) (tty_flag fl) [c] ap sz written s"
  using printc_emit [of fl s c] room_mono [of "tty_flag fl" "nat (sz - written)" s 1] by (simp add: prints_def take_Cons')

lemma some_pair: "Some (a, b) = Some (c, d) \<Longrightarrow> c = a" "Some (a, b) = Some (c, d) \<Longrightarrow> d = b"
  by simp_all

lemma vx_item:
  assumes ok: "item_ok i" "item_text i ap = Some (txt, ap')" and tty: "tty = 0 \<or> tty = FLAG_TTY"
    and w: "0 \<le> written" "written < sz" and r: "room (tty \<noteq> 0) (nat (sz - written)) s"
  shows "vx_loop sz tty (fmt_item i @ rest) ap written s =
    vx_loop sz tty rest ap' (min sz (written + int (length txt))) (emit (tty \<noteq> 0) (take (nat (sz - written)) txt) s)"
proof -
  have f: "tty AND FLAG_TTY = tty" "tty_flag tty = (tty \<noteq> 0)" "tty AND FLAG_SIGN = 0" "tty AND FLAG_SPACE = 0" "tty AND FLAG_SMALLS = 0" using tty by auto
  have r': "room (tty_flag tty) (nat (sz - written)) s" and w': "written \<le> sz" using r f w by simp_all
  show ?thesis
  proof (cases i)
    case (Lit c)
    then have t: "txt = [c]" "ap' = ap" "c \<noteq> 0" "c \<noteq> 37" using ok by auto
    have "room (tty \<noteq> 0) 1 s" using r room_mono [of _ "nat (sz - written)" s 1] w by simp
    then show ?thesis using w t Lit printc_emit [of tty s c] f(2) by (subst vx_loop.simps) (simp add: take_Cons')
  next
    case (Dec d)
    let ?c = "if d then 105 else 100 :: u8"
    from Dec obtain n ap1 where ap: "ap = Int_arg n # ap1" using ok(2) by (cases ap rule: next_int.cases) auto
    have m: "mods_from (?c # rest) (tty AND FLAG_TTY) (-1) (-1) = Some (Inr (?c, rest, tty, -1, -1))" using f by (simp add: mods_end)
    have "prints (conv ?c tty (-1) (-1) sz ap written s) (tty \<noteq> 0) txt ap' sz written s"
      using conv_int_prints [OF w r' f(3-5), of n ap1] ok(2) ap Dec f(2) by (auto simp: conv_def)
    from vx_conv [OF w(2) m _ f(1) this] show ?thesis using Dec by simp
  next
    case (Num alt zero wd p ty)
    then obtain n ap1 where ap: "ap = Int_arg n # ap1" using ok(2) by (cases ap rule: next_int.cases) auto
    have c: "num_char ty \<noteq> 0" "num_char ty \<notin> {35, 48, 32, 43, 45, 46}" "\<not> (49 \<le> num_char ty \<and> num_char ty \<le> 57)" by (cases ty; simp)+
    note m = mods_num [OF _ _ c, of wd p alt zero rest tty]
    have "prints (conv (num_char ty) (num_fl tty alt zero) (if wd = [] then -1 else dval wd) (opt_val p) sz ap written s) (tty \<noteq> 0) txt ap' sz written s"
    proof -
      have "txt = num_text alt zero (if wd = [] then -1 else dval wd) (opt_val p) ty n" "ap' = ap1" using ok(2) unfolding Num ap item_text.simps by (rule some_pair)+
      then show ?thesis unfolding ap by (simp only: conv_num_prints [OF tty w r])
    qed
    from vx_conv [OF w(2) _ c(1) num_flags(2) [OF tty] this] m show ?thesis using Num ok(1) f(1) by simp
  next
    case (Str p)
    then obtain t ap1 where ap: "ap = Str_arg t # ap1" using ok(2) by (cases ap rule: next_str.cases) auto
    then have t: "0 \<in> set t" "ap' = ap1" using ok(2) Str by (auto split: if_splits)
    have d: "opt_val p = -1 \<or> 0 \<le> opt_val p" "opt_val p = -1 \<longleftrightarrow> p = None" using ok(1) Str dval_nonneg by (force simp: opt_val_def split: option.splits)+
    have tx: "txt = (if opt_val p = -1 then takeWhile (\<lambda>c. c \<noteq> 0) t else take (nat (opt_val p)) (takeWhile (\<lambda>c. c \<noteq> 0) t))"
      using ok(2) ap Str t d(2) by (cases p) (auto simp: opt_val_def)
    have m: "mods_from (prec_text p @ 115 # rest) (tty AND FLAG_TTY) (-1) (-1) = Some (Inr (115, rest, tty, -1, opt_val p))"
      using mods_prec_end [of p 115 rest tty "-1"] ok(1) Str f(1) by simp
    have "prints (conv 115 tty (-1) (opt_val p) sz ap written s) (tty \<noteq> 0) txt ap' sz written s"
      using conv_str_prints [OF w' r' cstr_takeWhile0 [OF t(1)] d(1), of ap1] f(2) unfolding tx ap t(2) by (simp add: conv_def)
    from vx_conv [OF w(2) m _ f(1) this] show ?thesis using Str by simp
  next
    case Chr
    then obtain n ap1 where ap: "ap = Int_arg n # ap1" using ok(2) by (cases ap rule: next_int.cases) auto
    have m: "mods_from (99 # rest) (tty AND FLAG_TTY) (-1) (-1) = Some (Inr (99, rest, tty, -1, -1))" using f by (simp add: mods_end)
    have "prints (conv 99 tty (-1) (-1) sz ap written s) (tty \<noteq> 0) txt ap' sz written s"
      using prints_char [OF w(2) r', of "ucast n" ap1] ok(2) ap Chr f(2) by (auto simp: conv_def)
    from vx_conv [OF w(2) m _ f(1) this] show ?thesis using Chr by simp
  next
    case (Other c)
    have m: "mods_from (c # rest) (tty AND FLAG_TTY) (-1) (-1) = Some (Inr (c, rest, tty, -1, -1))" using f ok(1) Other by (simp add: mods_end)
    have "prints (conv c tty (-1) (-1) sz ap written s) (tty \<noteq> 0) txt ap' sz written s"
      using prints_char [OF w(2) r', of c ap] ok Other f(2) by (auto simp: conv_def)
    from vx_conv [OF w(2) m _ f(1) this] show ?thesis using Other ok(1) by simp
  qed
qed

lemma vx_items:
  assumes "tty = 0 \<or> tty = FLAG_TTY" "list_all item_ok its" "fmt_text its ap = Some txt" "0 \<le> written" "written \<le> sz" "room (tty \<noteq> 0) (nat (sz - written)) s"
  shows "vx_loop sz tty (concat (map fmt_item its) @ [0]) ap written s =
    Some (Inr (min sz (written + int (length txt)), emit (tty \<noteq> 0) (take (nat (sz - written)) txt) s))"
  using assms(2-6)
proof (induction its arbitrary: ap "txt" written s)
  case Nil
  then show ?case by (subst vx_loop.simps) auto
next
  case (Cons i its)
  show ?case
  proof (cases "written < sz")
    case True
    obtain t ap' ts where t: "item_text i ap = Some (t, ap')" "fmt_text its ap' = Some ts" "txt = t @ ts" using Cons.prems(2) by (auto simp: bind_eq_Some_conv)
    let ?w = "min sz (written + int (length t))" let ?s = "emit (tty \<noteq> 0) (take (nat (sz - written)) t) s"
    have "vx_loop sz tty (concat (map fmt_item (i # its)) @ [0]) ap written s = vx_loop sz tty (concat (map fmt_item its) @ [0]) ap' ?w ?s"
      using vx_item [OF _ t(1) assms(1) Cons.prems(3) True Cons.prems(5)] Cons.prems(1) by simp
    also have "\<dots> = Some (Inr (min sz (?w + int (length ts)), emit (tty \<noteq> 0) (take (nat (sz - ?w)) ts) ?s))"
      by (rule Cons.IH) (use Cons.prems t(2) room_rest [OF Cons.prems(4,5)] in auto)
    finally show ?thesis
      using prints_after [of "Inr (ap, min sz (?w + int (length ts)), emit (tty \<noteq> 0) (take (nat (sz - ?w)) ts) ?s)" "tty \<noteq> 0" ts ap sz written t s] Cons.prems(4,5) t(3)
      by (simp add: prints_def)
  qed (use Cons.prems in \<open>subst vx_loop.simps, simp\<close>)
qed

section \<open>The whole format\<close>




text \<open>
  \<open>kprintf\<close> prints the text that the format stands for to the terminal, less its zeros, and
  returns its length.
\<close>

theorem kprintf_correct:
  assumes "list_all item_ok its" "fmt_text its ap = Some out" "length out < 0x40000000"
  shows "kprintf (concat (map fmt_item its) @ [0]) ap tty = Some (Inr (int (length out), tty @ filter (\<lambda>c. c \<noteq> 0) out))"
proof -
  let ?s = "\<lparr>obuf = [], opos = 0, otty = tty\<rparr>"
  have "room (FLAG_TTY \<noteq> (0 :: u32)) (nat (0x7fffffff - 0)) ?s" by (simp add: room_def)
  then have "vx_loop 0x7fffffff FLAG_TTY (concat (map fmt_item its) @ [0]) ap 0 ?s = Some (Inr (int (length out), emit True out ?s))"
    using vx_items [of FLAG_TTY its ap out 0 "0x7fffffff" ?s] assms by simp
  then show ?thesis using assms(3) by (simp add: kprintf_def vxnprintf_def printc_def emit_def Let_def)
qed

theorem kprintf_correct_witness:
  "kprintf [37, 115, 33, 0] [Str_arg [72, 105, 0]] [62] = Some (Inr (3, [62, 72, 105, 33]))"
proof -
  have "fmt_text [Str None, Lit 33] [Str_arg [72, 105, 0]] = Some [72, 105, 33]" by simp
  from kprintf_correct [OF _ this, of "[62]"] show ?thesis by simp
qed

section \<open>Two defects\<close>

lemma vx_literal:
  assumes "0 \<notin> set pre" "37 \<notin> set pre" "length pre < n" "n \<le> length buf"
  shows "vx_loop (int n) 0 (pre @ rest) ap 0 \<lparr>obuf = buf, opos = 0, otty = t\<rparr> =
    vx_loop (int n) 0 rest ap (int (length pre)) \<lparr>obuf = pre @ drop (length pre) buf, opos = int (length pre), otty = t\<rparr>"
  using assms
proof (induction pre arbitrary: rest rule: rev_induct)
  case (snoc c pre)
  let ?b = "pre @ drop (length pre) buf"
  obtain x where x: "drop (length pre) buf = x # drop (Suc (length pre)) buf" using snoc.prems(3,4) Cons_nth_drop_Suc [of "length pre" buf] by (metis Suc_lessD length_append_singleton less_le_trans)
  have "vx_loop (int n) 0 ((pre @ [c]) @ rest) ap 0 \<lparr>obuf = buf, opos = 0, otty = t\<rparr> =
    vx_loop (int n) 0 (c # rest) ap (int (length pre)) \<lparr>obuf = ?b, opos = int (length pre), otty = t\<rparr>"
    using snoc.IH [of "c # rest"] snoc.prems by simp
  also have "\<dots> = vx_loop (int n) 0 rest ap (int (length pre) + 1) \<lparr>obuf = pre @ [c] @ drop (Suc (length pre)) buf, opos = int (length pre) + 1, otty = t\<rparr>"
    using snoc.prems x by (subst vx_loop.simps) (auto simp: putc_def printc_def)
  finally show ?case by (simp add: ac_simps)
qed simp

text \<open>
  C39. A negative number with the flag \<^verbatim>\<open>+\<close> gets both a minus and a plus, of which the
  second is written without looking at the size: when one byte of the buffer is left, it is written
  outside.
\<close>

theorem snprintf_overflow:
  assumes "0 \<notin> set pre" "37 \<notin> set pre" "length buf = Suc (length pre)" "sint n < 0"
  shows "snprintf buf (int (length buf)) (pre @ [37, 43, 100, 0]) (Int_arg n # ap) = Some (Inl Bad_access)"
proof -
  have m: "mods_from [43, 100, 0] 0 (-1) (-1) = Some (Inr (100, [0], FLAG_SIGN, -1, -1))"
    by (subst mods_from_def) (simp add: mods_eq mod_step_def mods_end)
  obtain x where x: "drop (length pre) buf = [x]" using assms(3) by (metis Cons_nth_drop_Suc drop_all lessI order_refl)
  have "conv_int FLAG_SIGN (int (length buf)) (Int_arg n # ap) (int (length pre)) \<lparr>obuf = pre @ [x], opos = int (length pre), otty = []\<rparr> = Inl Bad_access"
    using assms(4) by (simp add: conv_int_def putc_def printc_def aset_def)
  then have "vx_loop (int (length buf)) 0 [37, 43, 100, 0] (Int_arg n # ap) (int (length pre)) \<lparr>obuf = pre @ [x], opos = int (length pre), otty = []\<rparr> = Some (Inl Bad_access)"
    using assms(3) m by (simp add: vx_percent conv_def)
  then show ?thesis using vx_literal [OF assms(1,2), of "length buf" buf "[37, 43, 100, 0]" "Int_arg n # ap" "[]"] assms(3) x
    by (simp add: snprintf_def vxnprintf_def)
qed

theorem snprintf_overflow_witness: "snprintf [1, 2, 3] 3 [97, 98, 37, 43, 100, 0] [Int_arg (- 5)] = Some (Inl Bad_access)"
  using snprintf_overflow [of "[97, 98]" "[1, 2, 3]" "- 5" "[]"] by simp

lemma mods_returns:
  assumes "mods ch fmt fl w p = Some r"
  shows "\<not> (ch = 57 \<and> w = 0)"
proof (rule mods.raw_induct [OF _ assms])
  fix f ch fmt fl w p r
  assume IH: "\<And>ch fmt fl w p r. f ch fmt fl w p = Some r \<Longrightarrow> \<not> (ch = 57 \<and> w = 0)"
    and r: "obind (Some (mod_step ch fmt fl w p)) (\<lambda>r. case r of None \<Rightarrow> Some (Inr (ch, fmt, fl, w, p))
      | Some (fmt, flags, width, prec) \<Rightarrow> (case fmt of [] \<Rightarrow> Some (Inl Bad_access)
          | ch # fmt \<Rightarrow> if ch \<noteq> 0 then f ch fmt flags width prec else Some (Inr (ch, fmt, flags, width, prec)))) = Some r"
  have "f 57 fmt fl 0 p = Some r" if "ch = 57" "w = 0" using r that by (simp add: mod_step_def)
  then show "\<not> (ch = 57 \<and> w = 0)" using IH by blast
qed

lemma mods_nine: "mods 57 fmt fl 0 p = None"
  using mods_returns [of 57 fmt fl 0 p] by (cases "mods 57 fmt fl 0 p") simp_all

text \<open>
  C40. A field width that starts with the digit 9 is never read: \<open>snprintf\<close> does not return.
\<close>

theorem snprintf_diverges:
  assumes "0 < sz"
  shows "snprintf buf sz (37 # 57 # fmt) ap = None"
proof -
  have "mods_from (57 # fmt) 0 (-1) (-1) = mods 57 fmt 0 0 (-1)"
    by (subst mods_from_def, subst mods_eq) (simp add: mod_step_def mods_from_def)
  then show ?thesis using assms by (simp add: snprintf_def vxnprintf_def vx_percent mods_nine)
qed

theorem snprintf_diverges_witness: "snprintf [1, 2, 3, 4] 4 [37, 57, 117, 0] [Int_arg 5] = None"
  using snprintf_diverges [of 4 "[1, 2, 3, 4]" "[117, 0]" "[Int_arg 5]"] by simp

end
