(* ===== verification/Spec2Isabelle.thy ===== *)
theory Spec2Isabelle
  imports Heap_Insert Files Tfstool_Correct Processes Usr_sem Tty Xprintf
begin

text \<open>
  A verification development for BUENOS, a small multiprocessor teaching kernel for the YAMS
  machine (\<^verbatim>\<open>src/buenos\<close>), and for the pointer heap that comes with it
  (\<^verbatim>\<open>src/heap\<close>).

  \<^bold>\<open>The program.\<close> The kernel hands out memory permanently at boot (\<^verbatim>\<open>kernel/kmalloc.c\<close>) and
  later in pages (\<^verbatim>\<open>vm/pagepool.c\<close>, which keeps a bitmap, \<^verbatim>\<open>lib/bitmap.c\<close>); pages are
  mapped through page tables that the TLB handlers read (\<^verbatim>\<open>vm/vm.c\<close>, \<^verbatim>\<open>vm/tlb.c\<close>).
  Threads (\<^verbatim>\<open>kernel/thread.c\<close>) are run by a round-robin scheduler
  (\<^verbatim>\<open>kernel/scheduler.c\<close>) and wait in the sleep queue (\<^verbatim>\<open>kernel/sleepq.c\<close>), on which
  semaphores (\<^verbatim>\<open>kernel/semaphore.c\<close>) are built. The disk driver (\<^verbatim>\<open>drivers/disk.c\<close>)
  queues requests and completes them from its interrupt handler. The trivial filesystem
  (\<^verbatim>\<open>fs/tfs.c\<close>) stores files on such a disk, and the virtual filesystem (\<^verbatim>\<open>fs/vfs.c\<close>)
  mounts volumes and keeps the table of open files. User programs run as processes
  (\<^verbatim>\<open>proc/process.c\<close>), each with a thread and a page table, which are spawned or forked,
  grow their heap, finish and are joined by their parent.

  \<^bold>\<open>The theories.\<close>
  \<^item> \<open>Prelude\<close>: results with errors, arrays with bounds, search loops, word lemmas, FIFO queues.
  \<^item> \<open>Bitmap\<close>, \<open>Kmalloc\<close>, \<open>Pagepool\<close>: the allocators. The bitmap finds the lowest free slot;
    permanent allocations are disjoint (and wrap at the end of memory); the pool hands out
    each page at most once and asserts on every wrong free.
  \<^item> \<open>Vm\<close>: page tables refine a partial map from virtual pages to frames; the TLB miss handler
    loads what the table says.
  \<^item> \<open>Libc\<close>: strings, memory copies, numbers and the polling terminal of \<^verbatim>\<open>lib/libc.c\<close>.
  \<^item> \<open>Thread\<close>, \<open>Sleepq\<close>, \<open>Semaphore\<close>: threads, ready list, sleep queues and semaphores over one
    state of linked lists through the thread table. An invariant over every interleaving of
    their operations gives progress (no assertion fails, every list walk ends), fairness of the
    queues, the absence of lost wake-ups, and the safety of semaphores.
  \<^item> \<open>Ksem\<close>: the semaphore table as one thread sees it, and that the kernel implements it.
  \<^item> \<open>Gbd\<close>, \<open>Disk\<close>: block devices and the disk driver over a parametric disk.
  \<^item> \<open>Bytes\<close>, \<open>Tfs\<close>: words in byte arrays, and the trivial filesystem \<^verbatim>\<open>fs/tfs.c\<close> over any
    block device. \<open>Tfs_Fs\<close> says what a sound volume is and which files it holds (\<open>fs_ok\<close>,
    \<open>fs_map\<close>); \<open>Tfs_Correct\<close> proves every operation against it inside the locale of block
    devices, \<open>Tfs_Driver\<close> instantiates it with the disk driver and treats mounting.
  \<^item> \<open>Device\<close>, \<open>Vfs\<close>: the device table \<^verbatim>\<open>drivers/device.c\<close> and the virtual filesystem
    \<^verbatim>\<open>fs/vfs.c\<close>, \<^verbatim>\<open>fs/filesystems.c\<close>. \<open>Vfs_Correct\<close> states the contract of a driver as
    the locale \<open>fs_driver\<close> and proves each operation for every driver that keeps it;
    \<open>Vfs_Safe\<close> proves an invariant over all sequences of calls. \<open>Vfs_Tfs\<close> shows that TFS over
    the disk driver is such a driver, and \<open>Files\<close> states the properties of the whole stack,
    from booting to shutting down.
  \<^item> \<open>Process\<close>: the process table and its operations. \<open>Process_Correct\<close> proves an invariant over all
    interleavings of joining and finishing, \<open>Process_Memory\<close> and \<open>Process_Fork\<close> treat the heap of a
    process and the copy of an address space; \<open>Processes\<close> states the properties: no lost
    wake-ups, the value that a join returns, what a fork copies, and the ways in which the code
    leaks slots and pages or reads the page table of a dead thread.
  \<^item> \<open>Tfstool\<close>: the host program \<^verbatim>\<open>util/tfstool.c\<close>, which makes images of disks and copies files
    into and out of them; \<open>Tfstool_Correct\<close> proves its commands against the same volumes
    \<open>fs_ok\<close> and files \<open>fs_map\<close> as those of the kernel, so that the property \<open>image_boots\<close> below can
    follow a file from the host through the image into a booted kernel.
  \<^item> \<open>Usr_sem\<close>: the named semaphores of user programs (\<^verbatim>\<open>proc/usr_sem.c\<close>) refine a partial map
    from names to entries, as long as names fit; names that do not fit are lost.
  \<^item> \<open>Tty\<close>: the terminal driver \<^verbatim>\<open>drivers/tty.c\<close> over a parametric terminal; its two ring
    buffers keep the order of the characters under every interleaving, until one overflows.
  \<^item> \<open>Xprintf\<close>: formatted output (\<^verbatim>\<open>lib/xprintf.c\<close>) prints what a format stands for, cut to
    the buffer; two kinds of formats write outside it or are never read to the end.
  \<^item> \<open>Heap_Insert\<close>: the pointer heap; insertion keeps a complete max-heap.

  \<^bold>\<open>Conventions.\<close> A failed assertion, a panic, an access outside an object and a wait that
  cannot end are values of \<open>kerror\<close>. Interrupt masking and spinlocks make the operations of the
  kernel atomic; where the code releases them in the middle of an operation the model splits
  it. Loops over linked lists are partial functions whose termination is proved under the
  invariant; other loops are structural or have a measure, so no fuel is used. Addresses and
  registers are words; the counters that the code can overflow, the value of a semaphore and the
  number of operations of VFS, are C integers that wrap around at 32 bits (\<open>c_int\<close>). That they
  do overflow is shown in \<open>semaphore_V_overflow\<close> and \<open>vfs_ops_overflow\<close>; the properties say
  how far they hold.

  \<^bold>\<open>Not modelled.\<close> Assembler (context switch, TLB instructions, spinlocks), boot, output of
  debugging messages; the hardware appears as parameters. The network (\<^verbatim>\<open>net/\<close>), loading of
  programs (\<^verbatim>\<open>proc/elf.c\<close> and \<^verbatim>\<open>process_start\<close>), the dispatch of system calls
  (\<^verbatim>\<open>proc/syscall.c\<close>, \<^verbatim>\<open>proc/io.c\<close>), the drivers that only read or write a register, the
  user library (\<^verbatim>\<open>tests/lib.c\<close>) and the command line of \<^verbatim>\<open>tfstool\<close>.
\<close>

section \<open>From the host to the kernel\<close>

lemma cstr_take: "cstr w (take n b) \<Longrightarrow> cstr w b"
  by (metis append.assoc append_Cons append_take_drop_id cstr_def)

lemma same_volume:
  assumes "fs_ok tb C" "\<And>b. b < tb \<Longrightarrow> C' b = C b"
  shows "fs_ok tb C'" "fs_map C' = fs_map C"
proof -
  note s = scribble_free [where C = C and C' = C' and S = "{tb..}", OF assms(1)]
  show "fs_ok tb C'" "fs_map C' = fs_map C" by (rule s; use assms(2) in auto)+
qed

text \<open>
  C3. An image that \<^verbatim>\<open>tfstool\<close> makes on the host and copies a file into, put into the disk of the
  machine: the kernel that boots from it mounts the volume under the name that was given to
  \<^verbatim>\<open>tfstool create\<close>, and the volume has exactly this file, with the contents of the local
  file.
\<close>

theorem image_boots:
  assumes "tfstool_createvol dsk (int nblocks) vol alloc h0 = Inr (Some (), h1)" "nblocks \<le> 4096" "length alloc = 128" "length vol = 16"
    and "tfstool_write dsk source target batb mdb data h1 = Inr (Some (), h2)" "h0 source = Some src" "source \<noteq> dsk"
    and "cstr nm target" "nm \<noteq> []" "length nm \<le> 15" "length batb = 512" "length mdb = 512" "length data = 512"
    and "\<And>b. b < nblocks \<Longrightarrow> stored (hw (disk (dev (vk v)))) b = img_blocks (file_of h2 dsk) b"
    and "yams_disk io finish idle busy stored nblocks 512" "rq \<noteq> 0" "vfs_static v" "vols (dev (vk v)) = Map.empty" "ksem_ok (sems (vk v))"
    and "pp_inv (pool (vk v))" "6 \<le> card (free_sems (sems (vk v)))" "pp_free (pool (vk v)) \<noteq> {}" "pp_pages (pool (vk v)) \<le> 2 ^ 19"
    and "disk_ready idle (disk (dev (vk v)))" "cstr vn vol" "vn \<noteq> []" "length page = 4096" "length name = 16"
  shows "\<exists>v0 a v'. vfs_init v = Inr v0
    \<and> vfs_mount_fs (tfs_fs (disk_gbd io finish rq ba)) [tfs_entry page name] v0 (disk_gbd io finish rq ba) None = Inr (VFS_OK, v')
    \<and> files_inv idle stored nblocks v' \<and> mounted v' = [take 15 vn \<mapsto> a] \<and> files_view stored v' a = [nm \<mapsto> src]"
proof -
  let ?C = "stored (hw (disk (dev (vk v))))"
  have new: "h0 dsk = None" "3 \<le> nblocks"
    using assms(1) create_refused [of alloc h0 dsk "int nblocks" vol] assms(3) by force+
  obtain img where i: "h1 = h0(dsk \<mapsto> img)" "length img = 512 * nblocks" "fs_ok nblocks (img_blocks img)" "fs_map (img_blocks img) = Map.empty"
    "rd32 (img_blocks img 0) 0 = TFS_MAGIC" "take 16 (drop 4 (img_blocks img 0)) = vol"
    using create_image [where h = h0 and dsk = dsk, OF new, of alloc vol] assms(1-4) by auto
  have p: "image_ok nblocks img" "h1 dsk = Some img" "h1 source = Some src" using i assms(6,7) by (simp_all add: image_ok_def)
  obtain img' where w: "h2 = h1(dsk \<mapsto> img')" "image_ok nblocks img'" "img_blocks img' 0 = img_blocks img 0" "fs_map (img_blocks img') = [nm \<mapsto> src]"
    using write_image [where h = h1 and dsk = dsk and source = source, OF p assms(8-13)] assms(5) unfolding i(4) by (auto split: if_splits)
  have f: "file_of h2 dsk = img'" using w(1) by (simp add: file_of_def)
  have ok: "fs_ok nblocks (img_blocks img')" using w(2) by (simp add: image_ok_def)
  have s: "fs_ok nblocks ?C" "fs_map ?C = fs_map (img_blocks img')" by (rule same_volume [OF ok]; use assms(14) f in simp)+
  have z: "?C 0 = img_blocks img 0" using assms(14) [of 0] new(2) w(3) f by simp
  have c: "cstr vn (drop 4 (?C 0))" using assms(25) cstr_take [of vn 16 "drop 4 (img_blocks img 0)"] i(6) z by simp
  have m: "rd32 (?C 0) 0 = TFS_MAGIC" "nblocks = min nblocks 4096" using i(5) z assms(2) by simp_all
  from boot_ok [OF assms(15,16) m(2) assms(17-24) s(1) m(1) c assms(26-28), of ba] show ?thesis unfolding s(2) w(4) by blast
qed

text \<open>A machine with a disk of 16 blocks.\<close>

definition ex_machine :: "blocks \<Rightarrow> ydisk disk_real_device_t tfs_mem vfs_t" where
  "ex_machine C = ex_boot\<lparr>vk := (vk ex_boot)\<lparr>dev := (dev (vk ex_boot))\<lparr>disk := (disk (dev (vk ex_boot)))\<lparr>hw := (hw (dev ex_disk))\<lparr>y_blocks := C\<rparr>\<rparr>\<rparr>\<rparr>\<rparr>"

lemma ex_machine:
  "y_blocks (hw (disk (dev (vk (ex_machine C))))) = C" "vfs_static (ex_machine C)" "vols (dev (vk (ex_machine C))) = Map.empty"
  "sems (vk (ex_machine C)) = sems (vk ex_boot)" "pool (vk (ex_machine C)) = pool (vk ex_boot)"
  "(\<And>b. b < 16 \<Longrightarrow> length (C b) = 512) \<Longrightarrow> disk_ready y_idle (disk (dev (vk (ex_machine C))))"
  using ex_boot_static(1,2)
  by (simp_all add: ex_machine_def vfs_static_def) (simp_all add: disk_ready_def ex_boot_def ex_disk_def y_idle_def y_sound_def)

theorem image_boots_witness:
  "\<exists>C v0 a v'. vfs_init (ex_machine C) = Inr v0
     \<and> vfs_mount_fs (tfs_fs (disk_gbd yio y_finish 0x80001000 0x2000)) [tfs_entry (replicate 4096 9) (replicate 16 8)] v0
         (disk_gbd yio y_finish 0x80001000 0x2000) None = Inr (0, v')
     \<and> files_inv y_idle y_blocks 16 v' \<and> mounted v' = [[100, 105, 115, 107] \<mapsto> a] \<and> files_view y_blocks v' a = [[97] \<mapsto> [1, 2, 3]]"
proof -
  obtain h1 img' where w: "tfstool_createvol [100] 16 ex_vol (replicate 128 5) ex_host = Inr (Some (), h1)"
    "tfstool_write [100] [115] [97, 0] (replicate 512 0) (replicate 512 0) (replicate 512 9) h1 = Inr (Some (), ex_host([100] \<mapsto> img'))" "image_ok 16 img'"
    using ex_write by blast
  let ?C = "img_blocks img'" and ?h = "ex_host([100] \<mapsto> img')"
  have l: "\<And>b. b < 16 \<Longrightarrow> length (?C b) = 512" using w(3) fs_okD(3) [of 16 ?C] by (simp add: image_ok_def)
  note e = ex_machine(1-5) ex_machine(6) [OF l]
  have n: "int 16 = 16" by simp
  have "replicate (Suc 11) 0 = 0 # replicate 11 (0 :: u8)" by (rule replicate_Suc)
  then have v: "cstr [100, 105, 115, 107] ex_vol" by (auto simp: cstr_def)
  have t: "ex_host [115] = Some [1, 2, 3]" "[115] \<noteq> [100 :: u8]" "cstr [97] [97, 0 :: u8]" "[97 :: u8] \<noteq> []" by (simp_all add: ex_host_def)
  have d: "y_blocks (hw (disk (dev (vk (ex_machine ?C))))) b = img_blocks (file_of ?h [100]) b" for b by (simp add: e(1) file_of_def)
  from image_boots [where nblocks = 16 and v = "ex_machine ?C" and stored = y_blocks and ?h0.0 = ex_host and ?h1.0 = h1 and ?h2.0 = ?h and dsk = "[100]" and source = "[115]"
      and io = yio and finish = y_finish and idle = y_idle and busy = y_busy and rq = "0x80001000" and ba = "0x2000" and page = "replicate 4096 9" and name = "replicate 16 8",
      unfolded n, OF w(1) _ _ _ w(2) t _ _ _ _ d ydisk.yams_disk_axioms _ e(2,3) _ _ _ _ _ e(6) v]
  show ?thesis using ex_boot_static unfolding e(4,5) by auto
qed

end
